(* ===== verification/Vdfs2_Prelude.thy ===== *)
theory Vdfs2_Prelude
  imports Main "HOL-Library.Word"
begin

text \<open>
  Shared vocabulary of the development: the widths of the driver's integers, the
  error codes its functions return, the outcomes of kernel memory allocations, and
  the list lemmas (positional insertion and removal, interleaving of children and keys)
  that the component theories use.
\<close>

unbundle bit_operations_syntax

named_theorems descr_defs \<open>the fields of a node descriptor as byte ranges\<close>

section \<open>Machine integers, error codes, allocation outcomes\<close>

type_synonym u8 = "8 word"
type_synonym u16 = "16 word"
type_synonym u32 = "32 word"
type_synonym u64 = "64 word"

text \<open>The kernel error numbers the modelled functions return (negated in C).\<close>

datatype errno = EPERM | ENOENT | EIO | ENOMEM | EFAULT | EEXIST | EINVAL | ENOSPC
  | ENAMETOOLONG | ENODATA | EOPNOTSUPP | ERANGE

text \<open>
  The value of a C function that returns 0 or a negative error number. \<open>Oops\<close> is a
  stop of the kernel: a failed \<^verbatim>\<open>BUG_ON\<close> or a NULL dereference.
\<close>

datatype ret = Success | Fail errno | Oops

text \<open>A pointer-or-\<^verbatim>\<open>ERR_PTR\<close> result, with the same third outcome.\<close>

datatype 'a result = Ok 'a | Err errno | Bug

text \<open>Continuing with the value of a successful call.\<close>

fun and_then :: "'a result \<Rightarrow> ('a \<Rightarrow> 'b result) \<Rightarrow> 'b result" where
  "and_then (Ok x) f = f x"
| "and_then (Err e) f = Err e"
| "and_then Bug f = Bug"

lemma and_then_OkE:
  assumes "and_then r f = Ok y" obtains x where "r = Ok x" "f x = Ok y"
  using assms by (cases r) auto

text \<open>
  The slab allocator is not part of the driver. Its behaviour is the list of outcomes of
  the next allocations; when the list is used up every later allocation succeeds, so
  \<open>[]\<close> is the run in which memory never runs out.
\<close>

type_synonym mem = "bool list"

fun kmem_alloc :: "mem \<Rightarrow> bool \<times> mem" where
  "kmem_alloc [] = (True, [])"
| "kmem_alloc (b # bs) = (b, bs)"

lemma and_mask_mod: "unat (x AND (2 ^ k - 1) :: u32) = unat x mod 2 ^ k"
proof -
  have "x AND (2 ^ k - 1) = take_bit k x" by (simp add: take_bit_eq_mask mask_eq_exp_minus_1)
  then have "unat (x AND (2 ^ k - 1)) = take_bit k (unat x)" by (simp only: unsigned_take_bit_eq)
  then show ?thesis by (simp only: take_bit_eq_mod)
qed

section \<open>Positional insertion and removal\<close>

definition insert_at :: "nat \<Rightarrow> 'a \<Rightarrow> 'a list \<Rightarrow> 'a list" where
  "insert_at i x xs = take i xs @ x # drop i xs"

definition remove_at :: "nat \<Rightarrow> 'a list \<Rightarrow> 'a list" where
  "remove_at i xs = take i xs @ drop (Suc i) xs"

lemma length_insert_at [simp]: "length (insert_at i x xs) = Suc (length xs)"
  by (simp add: insert_at_def)

lemma length_remove_at [simp]: "i < length xs \<Longrightarrow> length (remove_at i xs) = length xs - 1"
  by (simp add: remove_at_def)

lemma set_insert_at [simp]: "set (insert_at i x xs) = insert x (set xs)"
proof -
  have "set (take i xs) \<union> set (drop i xs) = set xs"
    by (metis append_take_drop_id set_append)
  then show ?thesis by (auto simp: insert_at_def)
qed

lemma set_remove_at_subset: "set (remove_at i xs) \<subseteq> set xs"
  by (auto simp: remove_at_def dest: in_set_takeD in_set_dropD)

lemma nth_insert_at_eq [simp]: "i \<le> length xs \<Longrightarrow> insert_at i x xs ! i = x"
  by (simp add: insert_at_def nth_append)

lemma split_at_index:
  assumes "i < length xs"
  obtains l r where "xs = l @ xs ! i # r" "length l = i"
proof -
  from assms have "xs = take i xs @ xs ! i # drop (Suc i) xs"
    by (rule id_take_nth_drop)
  then show ?thesis
    using that [of "take i xs" "drop (Suc i) xs"] assms by simp
qed

lemma insert_at_append [simp]: "length l = i \<Longrightarrow> insert_at i x (l @ r) = l @ x # r"
  by (simp add: insert_at_def)

lemma remove_at_append [simp]: "length l = i \<Longrightarrow> remove_at i (l @ x # r) = l @ r"
  by (simp add: remove_at_def)

lemma list_update_append_mid [simp]: "length l = i \<Longrightarrow> (l @ y # r)[i := x] = l @ x # r"
  by (simp add: list_update_append)

section \<open>Interleaving children and separators\<close>

text \<open>
  The in-order view of a multiway node: child, key, child, key, \<dots>, child. With no
  children it is the key list itself.
\<close>

fun weave :: "'a list list \<Rightarrow> 'a list \<Rightarrow> 'a list" where
  "weave [] ks = ks"
| "weave (c # cs) [] = c"
| "weave (c # cs) (k # ks) = c @ k # weave cs ks"

fun weave_left :: "'a list list \<Rightarrow> 'a list \<Rightarrow> 'a list" where
  "weave_left (c # cs) (k # ks) = c @ k # weave_left cs ks"
| "weave_left _ _ = []"

lemma weave_append:
  "length cs = length ks \<Longrightarrow> ds \<noteq> [] \<Longrightarrow> weave (cs @ ds) (ks @ ls) = weave_left cs ks @ weave ds ls"
  by (induction cs ks rule: list_induct2) (simp_all add: neq_Nil_conv)

lemma weave_left_append:
  "length cs = length ks \<Longrightarrow>
   weave_left (cs @ ds) (ks @ ls) = weave_left cs ks @ weave_left ds ls"
  by (induction cs ks rule: list_induct2) simp_all

lemma weave_snoc:
  "length cs = length ks \<Longrightarrow> weave (cs @ [c]) ks = weave_left cs ks @ c"
  using weave_append [of cs ks "[c]" "[]"] by simp

lemma set_keys_weave_left: "length cs = length ks \<Longrightarrow> set ks \<subseteq> set (weave_left cs ks)"
  by (induction cs ks rule: list_induct2) auto

lemma weave_left_snoc:
  "length cs = Suc (length ks) \<Longrightarrow> weave_left cs (ks @ [k]) = weave cs ks @ [k]"
proof (induction ks arbitrary: cs)
  case Nil
  then show ?case by (auto simp: length_Suc_conv)
next
  case (Cons a ks)
  then obtain c cs' where "cs = c # cs'" by (cases cs) auto
  with Cons show ?case by simp
qed

lemma weave_merge:
  assumes "length cs = Suc (length ks)" "ds \<noteq> []"
  shows "weave (cs @ ds) (ks @ k # ls) = weave cs ks @ k # weave ds ls"
  using weave_append [of cs "ks @ [k]" ds ls] assms by (simp add: weave_left_snoc)

text \<open>
  The part of a node to the left and to the right of its child \<open>i\<close>. Every operation
  on a child works between them.
\<close>

fun weave_right :: "'a list \<Rightarrow> 'a list list \<Rightarrow> 'a list" where
  "weave_right [] cs = []"
| "weave_right (k # ks) cs = k # weave cs ks"

lemma weave_Cons: "weave (c # cs) ks = c @ weave_right ks cs"
  by (cases ks) simp_all

definition before :: "nat \<Rightarrow> 'a list \<Rightarrow> 'a list list \<Rightarrow> 'a list" where
  "before i ks cs = weave_left (take i cs) (take i ks)"

definition after :: "nat \<Rightarrow> 'a list \<Rightarrow> 'a list list \<Rightarrow> 'a list" where
  "after i ks cs = weave_right (drop i ks) (drop (Suc i) cs)"

lemma weave_split:
  assumes "i \<le> length ks" "length cs = Suc (length ks)"
  shows "weave cs ks = before i ks cs @ cs ! i @ after i ks cs"
proof -
  have "cs = take i cs @ cs ! i # drop (Suc i) cs" using assms by (simp add: id_take_nth_drop)
  then have "weave cs ks = weave (take i cs @ cs ! i # drop (Suc i) cs) (take i ks @ drop i ks)"
    by simp
  also have "\<dots> = weave_left (take i cs) (take i ks) @ weave (cs ! i # drop (Suc i) cs) (drop i ks)"
    using assms by (intro weave_append) auto
  finally show ?thesis by (simp add: before_def after_def weave_Cons)
qed

lemma weave_update:
  assumes "i \<le> length ks" "length cs = Suc (length ks)"
  shows "weave (cs[i := c]) ks = before i ks cs @ c @ after i ks cs"
proof -
  have "before i ks (cs[i := c]) = before i ks cs" "after i ks (cs[i := c]) = after i ks cs"
    by (simp_all add: before_def after_def)
  with weave_split [of i ks "cs[i := c]"] assms show ?thesis by simp
qed

lemma weave_left_last:
  "length cs = length ks \<Longrightarrow> ks \<noteq> [] \<Longrightarrow> \<exists>xs. weave_left cs ks = xs @ [last ks]"
proof (induction cs ks rule: list_induct2)
  case (Cons c cs k ks)
  then show ?case by (cases "ks = []") auto
qed simp

lemma before_last:
  assumes "0 < i" "i \<le> length ks" "length cs = Suc (length ks)"
  shows "\<exists>xs. before i ks cs = xs @ [ks ! (i - 1)]"
proof -
  have "length (take i cs) = length (take i ks)" "take i ks \<noteq> []" using assms by auto
  moreover have "last (take i ks) = ks ! (i - 1)"
    using assms calculation(2) by (subst last_conv_nth) (auto simp: min_def)
  ultimately show ?thesis
    using weave_left_last by (metis before_def)
qed

lemma before_0 [simp]: "before 0 ks cs = []"
  by (simp add: before_def)

lemma after_hd:
  "i < length ks \<Longrightarrow> after i ks cs = ks ! i # weave (drop (Suc i) cs) (drop (Suc i) ks)"
  by (simp add: after_def Cons_nth_drop_Suc [symmetric])

lemma after_end: "length ks \<le> i \<Longrightarrow> after i ks cs = []"
  by (simp add: after_def)

lemma keys_subset_weave: "length cs = Suc (length ks) \<Longrightarrow> set ks \<subseteq> set (weave cs ks)"
proof (induction ks arbitrary: cs)
  case (Cons k ks)
  then obtain c cs' where "cs = c # cs'" by (cases cs) auto
  with Cons show ?case by auto
qed simp

section \<open>Strictly sorted lists\<close>

abbreviation sorted_less :: "'a::linorder list \<Rightarrow> bool" where
  "sorted_less \<equiv> sorted_wrt (<)"

lemma sorted_less_sublist_keys:
  "length cs = Suc (length ks) \<Longrightarrow> sorted_less (weave cs ks) \<Longrightarrow> sorted_less ks"
proof (induction ks arbitrary: cs)
  case (Cons k ks)
  then obtain c cs' where cs: "cs = c # cs'" by (cases cs) auto
  with Cons have "sorted_less ks" "set ks \<subseteq> set (weave cs' ks)"
    using keys_subset_weave [of cs' ks] by (auto simp: sorted_wrt_append)
  with Cons.prems cs show ?case by (auto simp: sorted_wrt_append)
qed simp

lemma context_bounds:
  assumes "sorted_less (before i ks cs @ xs @ after i ks cs)"
    and "i \<le> length ks" "length cs = Suc (length ks)"
    and "0 < i \<Longrightarrow> ks ! (i - 1) < x" "i < length ks \<Longrightarrow> x < ks ! i"
  shows "\<forall>y\<in>set (before i ks cs). y < x" "\<forall>y\<in>set (after i ks cs). x < y"
proof -
  show "\<forall>y\<in>set (before i ks cs). y < x"
  proof (cases "0 < i")
    case True
    then obtain ys where "before i ks cs = ys @ [ks ! (i - 1)]"
      using before_last assms(2,3) by blast
    with assms(1) assms(4) [OF True] show ?thesis
      by (auto simp: sorted_wrt_append intro: less_trans)
  qed simp
  show "\<forall>y\<in>set (after i ks cs). x < y"
  proof (cases "i < length ks")
    case True
    with assms(1) assms(5) [OF True] show ?thesis
      by (auto simp: after_hd sorted_wrt_append intro: less_trans)
  qed (simp add: after_end)
qed

lemma insort_append_right: "\<forall>y\<in>set xs. y < x \<Longrightarrow> insort x (xs @ ys) = xs @ insort x ys"
  by (induction xs) (auto simp: not_le)

lemma insort_append_left: "\<forall>y\<in>set ys. x < y \<Longrightarrow> insort x (xs @ ys) = insort x xs @ ys"
proof (induction xs)
  case Nil
  then show ?case by (cases ys) auto
qed auto

lemma insort_middle:
  "\<forall>y\<in>set xs. y < x \<Longrightarrow> \<forall>y\<in>set zs. x < y \<Longrightarrow> insort x (xs @ ys @ zs) = xs @ insort x ys @ zs"
  by (simp add: insort_append_right insort_append_left)

lemma remove1_middle:
  fixes x :: "'a::linorder"
  shows "\<forall>y\<in>set xs. y < x \<Longrightarrow> \<forall>y\<in>set zs. x < y \<Longrightarrow> remove1 x (xs @ ys @ zs) = xs @ remove1 x ys @ zs"
proof -
  assume *: "\<forall>y\<in>set xs. y < x" "\<forall>y\<in>set zs. x < y"
  then have "x \<notin> set xs" "x \<notin> set zs" by auto
  then show ?thesis by (simp add: remove1_append remove1_idem)
qed

lemma sorted_less_insort: "sorted_less xs \<Longrightarrow> x \<notin> set xs \<Longrightarrow> sorted_less (insort x xs)"
  by (induction xs) (auto simp: set_insort_key)

lemma sorted_less_remove1: "sorted_less xs \<Longrightarrow> sorted_less (remove1 x xs)"
  by (induction xs) (auto dest: notin_set_remove1 set_remove1_subset [THEN subsetD])

lemma sorted_less_distinct: "sorted_less xs \<Longrightarrow> distinct xs"
  by (induction xs) auto

end
