(* ===== verification/Bitmap.thy ===== *)
theory Bitmap
  imports Vdfs2_Prelude
begin

text \<open>
  The signed bitmaps of the driver (\<^verbatim>\<open>data.c\<close>): a bitmap is stored in blocks, and each
  block has a magic word in front of and a checksum behind its payload bits.
  \<open>vdfs2_set_bits\<close>, \<open>vdfs2_clear_bits\<close> and the two searches address the payload as one
  array of bits. The buffer is the list of its bytes; an access outside of it is \<open>Oops\<close>.
  The lemmas show that the block-wise loops are the plain operations on that array and
  leave magic and checksum bytes alone.
\<close>

section \<open>Layout\<close>

definition CRC32_SIZE :: nat where
  "CRC32_SIZE = 4"

text \<open>\<^verbatim>\<open>VDFS2_BIT_BLKSIZE\<close>: the payload bits of one block.\<close>

definition VDFS2_BIT_BLKSIZE :: "nat \<Rightarrow> nat \<Rightarrow> nat" where
  "VDFS2_BIT_BLKSIZE block_size magic_len = (block_size - (magic_len + CRC32_SIZE)) * 8"

section \<open>Setting and clearing bits\<close>

text \<open>
  The inner loop of \<^verbatim>\<open>vdfs2_set_bits\<close> (\<open>v\<close> true) and \<^verbatim>\<open>vdfs2_clear_bits\<close> (\<open>v\<close> false) in
  the block at byte \<open>cur_blck\<close>: a bit that already has the new value is an error.
\<close>

fun change_bits_in_block ::
  "bool \<Rightarrow> nat \<Rightarrow> nat \<Rightarrow> nat \<Rightarrow> nat \<Rightarrow> nat \<Rightarrow> u8 list \<Rightarrow> ret \<times> u8 list" where
  "change_bits_in_block v magic_len block_size cur_blck cur_position 0 buff = (Success, buff)"
| "change_bits_in_block v magic_len block_size cur_blck cur_position (Suc n) buff =
     (let a = cur_blck + magic_len + cur_position div 8; j = cur_position mod 8 in
      if cur_blck + cur_position div 8 + magic_len > cur_blck + block_size - CRC32_SIZE
      then (Fail EFAULT, buff)
      else if length buff \<le> a then (Oops, buff)
      else if bit (buff ! a) j = v then (Fail EFAULT, buff)
      else change_bits_in_block v magic_len block_size cur_blck (cur_position + 1) n
             (buff[a := (if v then set_bit j (buff ! a) else unset_bit j (buff ! a))]))"

text \<open>
  The outer loop, over the blocks \<open>blck\<close> to \<open>end_blck\<close>. Setting does not subtract the
  length of the last, incomplete piece from \<open>count\<close>, clearing does: both are zero or
  unused then.
\<close>

function set_blocks ::
  "nat \<Rightarrow> nat \<Rightarrow> nat \<Rightarrow> nat \<Rightarrow> nat \<Rightarrow> nat \<Rightarrow> u8 list \<Rightarrow> ret \<times> u8 list" where
  "set_blocks magic_len block_size end_blck blck cur_position count buff =
     (if end_blck < blck then (Success, buff)
      else
        (let length0 = VDFS2_BIT_BLKSIZE block_size magic_len - cur_position;
             len = (if count < length0 then count else length0);
             count' = (if count < length0 then count else count - length0) in
         case change_bits_in_block True magic_len block_size (blck * block_size) cur_position len buff of
           (r, buff') \<Rightarrow>
             if r \<noteq> Success then (r, buff')
             else set_blocks magic_len block_size end_blck (blck + 1) 0 count' buff'))"
  by pat_completeness auto
termination
  by (relation "measure (\<lambda>(ml, bs, e, b, p, c, buff). Suc e - b)") auto

function clear_blocks ::
  "nat \<Rightarrow> nat \<Rightarrow> nat \<Rightarrow> nat \<Rightarrow> nat \<Rightarrow> nat \<Rightarrow> u8 list \<Rightarrow> ret \<times> u8 list" where
  "clear_blocks magic_len block_size end_blck blck cur_position count buff =
     (if end_blck < blck then (Success, buff)
      else
        (let length0 = VDFS2_BIT_BLKSIZE block_size magic_len - cur_position;
             len = (if count < length0 then count else length0) in
         case change_bits_in_block False magic_len block_size (blck * block_size) cur_position len buff of
           (r, buff') \<Rightarrow>
             if r \<noteq> Success then (r, buff')
             else clear_blocks magic_len block_size end_blck (blck + 1) 0 (count - len) buff'))"
  by pat_completeness auto
termination
  by (relation "measure (\<lambda>(ml, bs, e, b, p, c, buff). Suc e - b)") auto

declare set_blocks.simps [simp del] clear_blocks.simps [simp del]

definition vdfs2_set_bits :: "u8 list \<Rightarrow> nat \<Rightarrow> nat \<Rightarrow> nat \<Rightarrow> nat \<Rightarrow> ret \<times> u8 list" where
  "vdfs2_set_bits buff offset count magic_len block_size =
     (let datablock_size = VDFS2_BIT_BLKSIZE block_size magic_len in
      set_blocks magic_len block_size ((offset + count - 1) div datablock_size)
        (offset div datablock_size) (offset mod datablock_size) count buff)"

definition vdfs2_clear_bits :: "u8 list \<Rightarrow> nat \<Rightarrow> nat \<Rightarrow> nat \<Rightarrow> nat \<Rightarrow> ret \<times> u8 list" where
  "vdfs2_clear_bits buff offset count magic_len block_size =
     (let datablock_size = VDFS2_BIT_BLKSIZE block_size magic_len in
      clear_blocks magic_len block_size ((offset + count - 1) div datablock_size)
        (offset div datablock_size) (offset mod datablock_size) count buff)"

section \<open>Searching\<close>

text \<open>
  The kernel's \<^verbatim>\<open>find_next_bit\<close> and \<^verbatim>\<open>find_next_zero_bit\<close>: the first position from
  \<open>offset\<close> on, below \<open>sz\<close>, with the wanted value, otherwise \<open>sz\<close>.
\<close>

function find_from :: "(nat \<Rightarrow> bool) \<Rightarrow> nat \<Rightarrow> nat \<Rightarrow> nat" where
  "find_from p sz offset =
     (if sz \<le> offset then sz else if p offset then offset else find_from p sz (offset + 1))"
  by pat_completeness auto
termination
  by (relation "measure (\<lambda>(p, sz, offset). sz - offset)") auto

declare find_from.simps [simp del]

text \<open>Bit \<open>i\<close> of the payload that starts at byte \<open>a\<close> of the buffer.\<close>

definition payload_bit :: "u8 list \<Rightarrow> nat \<Rightarrow> nat \<Rightarrow> bool" where
  "payload_bit buff a i \<longleftrightarrow> bit (buff ! (a + i div 8)) (i mod 8)"

definition find_next_bit_in_block :: "u8 list \<Rightarrow> nat \<Rightarrow> nat \<Rightarrow> nat \<Rightarrow> nat \<Rightarrow> bool \<Rightarrow> int" where
  "find_next_bit_in_block buff addr sz offset magic_len v =
     (let result = find_from (\<lambda>i. payload_bit buff (addr + magic_len) i = v) sz offset in
      if sz \<le> result then -1 else int result)"

text \<open>
  The loop of \<^verbatim>\<open>__find_next_bit\<close> over the blocks. The number of bits left is kept in an
  \<^verbatim>\<open>unsigned int\<close>.
\<close>

function find_next_bit_blocks ::
  "u8 list \<Rightarrow> nat \<Rightarrow> nat \<Rightarrow> nat \<Rightarrow> bool \<Rightarrow> nat \<Rightarrow> nat \<Rightarrow> nat \<Rightarrow> nat" where
  "find_next_bit_blocks buff sz block_size magic_len v end_block cur_block int_offset =
     (if end_block < cur_block then sz
      else
        (let int_size = VDFS2_BIT_BLKSIZE block_size magic_len;
             left = (sz - cur_block * int_size) mod 2 ^ 32;
             int_block_size = (if left > int_size then int_size else left);
             res = find_next_bit_in_block buff (cur_block * block_size) int_block_size int_offset magic_len v in
         if res < 0 then find_next_bit_blocks buff sz block_size magic_len v end_block (cur_block + 1) 0
         else nat res + cur_block * int_size))"
  by pat_completeness auto
termination
  by (relation "measure (\<lambda>(buff, sz, bs, ml, v, e, c, o'). Suc e - c)") auto

declare find_next_bit_blocks.simps [simp del]

definition find_next_bit_value :: "u8 list \<Rightarrow> nat \<Rightarrow> nat \<Rightarrow> nat \<Rightarrow> nat \<Rightarrow> bool \<Rightarrow> nat" where
  "find_next_bit_value buff sz offset block_size magic_len v =
     (let int_size = VDFS2_BIT_BLKSIZE block_size magic_len in
      find_next_bit_blocks buff sz block_size magic_len v
        ((if sz = 0 then 2 ^ 64 - 1 else sz - 1) div int_size)
        ((offset div 8) div (block_size - (CRC32_SIZE + magic_len))) (offset mod int_size))"

definition vdfs2_find_next_zero_bit :: "u8 list \<Rightarrow> nat \<Rightarrow> nat \<Rightarrow> nat \<Rightarrow> nat \<Rightarrow> nat" where
  "vdfs2_find_next_zero_bit buff sz offset block_size magic_len =
     find_next_bit_value buff sz offset block_size magic_len False"

definition vdfs2_find_next_bit :: "u8 list \<Rightarrow> nat \<Rightarrow> nat \<Rightarrow> nat \<Rightarrow> nat \<Rightarrow> nat" where
  "vdfs2_find_next_bit buff sz offset block_size magic_len =
     find_next_bit_value buff sz offset block_size magic_len True"

section \<open>The interface of a bit array\<close>

text \<open>
  The plain operation on an array of bits that the block-wise loops implement: give the
  bits \<open>i\<close>, \<open>i + 1\<close> and so on the value \<open>v\<close>, and stop at one that has it already.
\<close>

fun change_range ::
  "('b \<Rightarrow> nat \<Rightarrow> bool) \<Rightarrow> ('b \<Rightarrow> nat \<Rightarrow> bool) \<Rightarrow> (bool \<Rightarrow> nat \<Rightarrow> 'b \<Rightarrow> 'b) \<Rightarrow>
   bool \<Rightarrow> nat \<Rightarrow> nat \<Rightarrow> 'b \<Rightarrow> ret \<times> 'b" where
  "change_range has get put v i 0 b = (Success, b)"
| "change_range has get put v i (Suc n) b =
     (if \<not> has b i then (Oops, b)
      else if get b i = v then (Fail EFAULT, b)
      else change_range has get put v (Suc i) n (put v i b))"

lemma change_range_append:
  "change_range has get put v i (m + n) b =
     (case change_range has get put v i m b of (r, b') \<Rightarrow>
        if r \<noteq> Success then (r, b') else change_range has get put v (i + m) n b')"
  by (induction m arbitrary: i b) (auto split: prod.splits)

locale bit_array =
  fixes has :: "'b \<Rightarrow> nat \<Rightarrow> bool"
    and get :: "'b \<Rightarrow> nat \<Rightarrow> bool"
    and put :: "bool \<Rightarrow> nat \<Rightarrow> 'b \<Rightarrow> 'b"
  assumes get_put: "has b i \<Longrightarrow> get (put v i b) j = (if j = i then v else get b j)"
    and has_put: "has (put v i b) j = has b j"
begin

lemma change_ok:
  assumes "\<forall>j. i \<le> j \<longrightarrow> j < i + n \<longrightarrow> has b j \<and> get b j \<noteq> v"
  shows "\<exists>b'. change_range has get put v i n b = (Success, b') \<and>
    (\<forall>j. has b' j = has b j \<and> get b' j = (if i \<le> j \<and> j < i + n then v else get b j))"
  using assms
proof (induction n arbitrary: i b)
  case (Suc n)
  have h: "has b i" "get b i \<noteq> v" using Suc.prems by auto
  have "\<forall>j. Suc i \<le> j \<longrightarrow> j < Suc i + n \<longrightarrow> has (put v i b) j \<and> get (put v i b) j \<noteq> v"
    using Suc.prems h by (auto simp: get_put has_put)
  from Suc.IH [OF this] obtain b' where
    b': "change_range has get put v (Suc i) n (put v i b) = (Success, b')"
      "\<forall>j. has b' j = has (put v i b) j \<and>
        get b' j = (if Suc i \<le> j \<and> j < Suc i + n then v else get (put v i b) j)" by blast
  have "get b' j = (if i \<le> j \<and> j < i + Suc n then v else get b j)" for j
    using b'(2) h(1) by (cases "j = i") (auto simp: get_put)
  with b' h show ?case by (auto simp: has_put)
qed auto

lemma change_busy:
  assumes "\<forall>j. i \<le> j \<longrightarrow> j < i + n \<longrightarrow> has b j" "i \<le> k" "k < i + n" "get b k = v"
  shows "fst (change_range has get put v i n b) = Fail EFAULT"
  using assms
proof (induction n arbitrary: i b)
  case (Suc n)
  have h: "has b i" using Suc.prems by auto
  show ?case
  proof (cases "get b i = v")
    case False
    then have "k \<noteq> i" using Suc.prems(4) by auto
    then have "fst (change_range has get put v (Suc i) n (put v i b)) = Fail EFAULT"
      using Suc.prems h by (intro Suc.IH) (auto simp: get_put has_put)
    with h False show ?thesis by simp
  qed (use h in simp)
qed simp

end

section \<open>The bits of a bitmap\<close>

definition bit_addr :: "nat \<Rightarrow> nat \<Rightarrow> nat \<Rightarrow> nat" where
  "bit_addr bs ml i =
     (i div VDFS2_BIT_BLKSIZE bs ml) * bs + ml + (i mod VDFS2_BIT_BLKSIZE bs ml) div 8"

definition bm_has :: "nat \<Rightarrow> nat \<Rightarrow> u8 list \<Rightarrow> nat \<Rightarrow> bool" where
  "bm_has bs ml buff i \<longleftrightarrow> bit_addr bs ml i < length buff"

definition bm_bit :: "nat \<Rightarrow> nat \<Rightarrow> u8 list \<Rightarrow> nat \<Rightarrow> bool" where
  "bm_bit bs ml buff i \<longleftrightarrow> bit (buff ! bit_addr bs ml i) ((i mod VDFS2_BIT_BLKSIZE bs ml) mod 8)"

definition bm_put :: "nat \<Rightarrow> nat \<Rightarrow> bool \<Rightarrow> nat \<Rightarrow> u8 list \<Rightarrow> u8 list" where
  "bm_put bs ml v i buff =
     (let a = bit_addr bs ml i; j = (i mod VDFS2_BIT_BLKSIZE bs ml) mod 8 in
      buff[a := (if v then set_bit j (buff ! a) else unset_bit j (buff ! a))])"

text \<open>A layout has room for at least one payload byte per block.\<close>

definition good_layout :: "nat \<Rightarrow> nat \<Rightarrow> bool" where
  "good_layout bs ml \<longleftrightarrow> ml + CRC32_SIZE < bs"

lemma blksize_pos: "good_layout bs ml \<Longrightarrow> 0 < VDFS2_BIT_BLKSIZE bs ml"
  by (simp add: good_layout_def VDFS2_BIT_BLKSIZE_def)

lemma payload_byte:
  assumes "good_layout bs ml" "p < VDFS2_BIT_BLKSIZE bs ml"
  shows "ml + p div 8 < bs - CRC32_SIZE"
proof -
  have "p div 8 < bs - (ml + CRC32_SIZE)"
    using assms(2) by (intro less_mult_imp_div_less) (simp add: VDFS2_BIT_BLKSIZE_def)
  then show ?thesis by linarith
qed

lemma bit_addr_inj:
  assumes "good_layout bs ml" "bit_addr bs ml i = bit_addr bs ml j"
    and "(i mod VDFS2_BIT_BLKSIZE bs ml) mod 8 = (j mod VDFS2_BIT_BLKSIZE bs ml) mod 8"
  shows "i = j"
proof -
  let ?D = "VDFS2_BIT_BLKSIZE bs ml"
  have D: "0 < ?D" using assms(1) by (rule blksize_pos)
  have lt: "ml + (k mod ?D) div 8 < bs" for k
    using payload_byte [OF assms(1), of "k mod ?D"] D by (simp add: less_diff_conv)
  have dv: "bit_addr bs ml k div bs = k div ?D" "bit_addr bs ml k mod bs = ml + (k mod ?D) div 8" for k
    using lt [of k] by (simp_all add: bit_addr_def add.assoc)
  have "i div ?D = j div ?D" "(i mod ?D) div 8 = (j mod ?D) div 8"
    using dv [of i] dv [of j] assms(2) by auto
  with assms(3) have "i div ?D = j div ?D" "i mod ?D = j mod ?D"
    by (simp, metis div_mult_mod_eq)
  then show ?thesis by (metis div_mult_mod_eq)
qed

lemma bm_array: "good_layout bs ml \<Longrightarrow> bit_array (bm_has bs ml) (bm_bit bs ml) (bm_put bs ml)"
proof (unfold_locales, goal_cases)
  case (1 b i v j)
  let ?D = "VDFS2_BIT_BLKSIZE bs ml"
  show ?case
  proof (cases "bit_addr bs ml j = bit_addr bs ml i")
    case True
    then have eq: "(j mod ?D) mod 8 = (i mod ?D) mod 8 \<longleftrightarrow> j = i" using bit_addr_inj [OF 1(1)] by metis
    have "(i mod ?D) mod 8 < 8" "(j mod ?D) mod 8 < 8" by simp_all
    with True 1(2) show ?thesis
      unfolding bm_has_def bm_bit_def bm_put_def Let_def eq [symmetric]
      by (auto simp: bit_set_bit_iff bit_unset_bit_iff simp flip: eq)
  next
    case False
    with 1 show ?thesis by (auto simp: bm_bit_def bm_put_def bm_has_def Let_def)
  qed
next
  case (2 v i b j)
  then show ?case by (simp add: bm_has_def bm_put_def Let_def)
qed

section \<open>The loops are the plain operations\<close>

lemma div_mod_block:
  "p < (D::nat) \<Longrightarrow> (blk * D + p) div D = blk" "p < D \<Longrightarrow> (blk * D + p) mod D = p"
  by simp_all

lemma change_bits_in_block_range:
  assumes "good_layout bs ml" "p + n \<le> VDFS2_BIT_BLKSIZE bs ml"
  shows "change_bits_in_block v ml bs (blk * bs) p n buff =
    change_range (bm_has bs ml) (bm_bit bs ml) (bm_put bs ml) v (blk * VDFS2_BIT_BLKSIZE bs ml + p) n buff"
  using assms(2)
proof (induction n arbitrary: p buff)
  case (Suc n)
  let ?D = "VDFS2_BIT_BLKSIZE bs ml"
  have p: "p < ?D" using Suc.prems by simp
  have addr: "bit_addr bs ml (blk * ?D + p) = blk * bs + ml + p div 8"
    using div_mod_block [OF p] by (simp add: bit_addr_def)
  have bnd: "\<not> blk * bs + p div 8 + ml > blk * bs + bs - CRC32_SIZE"
    using payload_byte [OF assms(1) p] by linarith
  have IH: "change_bits_in_block v ml bs (blk * bs) (p + 1) n buff' =
    change_range (bm_has bs ml) (bm_bit bs ml) (bm_put bs ml) v (Suc (blk * ?D + p)) n buff'" for buff'
    using Suc.IH [of "p + 1" buff'] Suc.prems by simp
  have "bm_has bs ml buff (blk * ?D + p) \<longleftrightarrow> \<not> length buff \<le> blk * bs + ml + p div 8"
    "bm_bit bs ml buff (blk * ?D + p) = bit (buff ! (blk * bs + ml + p div 8)) (p mod 8)"
    "bm_put bs ml v (blk * ?D + p) buff = buff[blk * bs + ml + p div 8 :=
       (if v then set_bit (p mod 8) (buff ! (blk * bs + ml + p div 8))
        else unset_bit (p mod 8) (buff ! (blk * bs + ml + p div 8)))]"
    unfolding bm_has_def bm_bit_def bm_put_def addr Let_def div_mod_block(2) [OF p] by auto
  note eqs = this
  show ?case
    unfolding change_bits_in_block.simps change_range.simps Let_def if_not_P [OF bnd]
    by (simp only: eqs IH not_not cong: if_cong)
qed simp

lemma blocks_end:
  assumes "p < (D::nat)" "e = (blk * D + p + count - 1) div D"
  shows "e < blk \<Longrightarrow> count = 0" "count < D - p \<Longrightarrow> e \<le> blk"
    and "D - p \<le> count \<Longrightarrow> e = (Suc blk * D + 0 + (count - (D - p)) - 1) div D"
proof -
  show "count = 0" if "e < blk"
  proof (rule ccontr)
    assume "count \<noteq> 0"
    then have "blk * D \<le> blk * D + p + count - 1" by simp
    then have "(blk * D) div D \<le> e" unfolding assms(2) by (rule div_le_mono)
    with that assms(1) show False by simp
  qed
  show "e \<le> blk" if "count < D - p"
  proof -
    have "blk * D + p + count - 1 < Suc blk * D" using that by simp
    then have "e < Suc blk" unfolding assms(2) by (rule less_mult_imp_div_less)
    then show ?thesis by simp
  qed
  show "e = (Suc blk * D + 0 + (count - (D - p)) - 1) div D" if "D - p \<le> count"
    using that assms by (simp add: algebra_simps)
qed

lemma set_blocks_range:
  assumes gl: "good_layout bs ml" and p: "p < VDFS2_BIT_BLKSIZE bs ml"
    and e: "e = (blk * VDFS2_BIT_BLKSIZE bs ml + p + count - 1) div VDFS2_BIT_BLKSIZE bs ml"
  shows "set_blocks ml bs e blk p count buff =
    change_range (bm_has bs ml) (bm_bit bs ml) (bm_put bs ml) True
      (blk * VDFS2_BIT_BLKSIZE bs ml + p) count buff"
  using p e
proof (induction "Suc e - blk" arbitrary: blk p count buff rule: less_induct)
  case less
  let ?D = "VDFS2_BIT_BLKSIZE bs ml" and ?cr = "change_range (bm_has bs ml) (bm_bit bs ml) (bm_put bs ml) True"
  note be = blocks_end [OF less.prems]
  consider "e < blk" | "blk \<le> e" "count < ?D - p" | "blk \<le> e" "?D - p \<le> count" by linarith
  then show ?case
  proof cases
    case 1
    with be(1) show ?thesis by (simp add: set_blocks.simps)
  next
    case 2
    have "change_bits_in_block True ml bs (blk * bs) p count buff = ?cr (blk * ?D + p) count buff"
      using 2 by (intro change_bits_in_block_range [OF gl]) simp
    moreover have "e < Suc blk" using be(2) 2 by simp
    ultimately show ?thesis using 2
      by (auto simp: set_blocks.simps [of ml bs e blk] set_blocks.simps [of ml bs e "Suc blk"] Let_def
          split: prod.splits)
  next
    case 3
    define n where "n = count - (?D - p)"
    have c: "count = (?D - p) + n" using 3 by (simp add: n_def)
    have run: "change_bits_in_block True ml bs (blk * bs) p (?D - p) buff = ?cr (blk * ?D + p) (?D - p) buff"
      using less.prems(1) by (intro change_bits_in_block_range [OF gl]) simp
    have IH: "set_blocks ml bs e (Suc blk) 0 n b = ?cr (Suc blk * ?D + 0) n b" for b
    proof (rule less.hyps)
      show "Suc e - Suc blk < Suc e - blk" using 3(1) by simp
      show "0 < ?D" using blksize_pos [OF gl] .
      show "e = (Suc blk * ?D + 0 + n - 1) div ?D" using be(3) [OF 3(2)] unfolding n_def .
    qed
    have "blk * ?D + p + (?D - p) = Suc blk * ?D + 0" using less.prems(1) by simp
    then show ?thesis
      unfolding c change_range_append using 3 c run IH
      by (simp add: set_blocks.simps [of ml bs e blk] Let_def add.commute split: prod.splits)
  qed
qed

lemma clear_blocks_range:
  assumes gl: "good_layout bs ml" and p: "p < VDFS2_BIT_BLKSIZE bs ml"
    and e: "e = (blk * VDFS2_BIT_BLKSIZE bs ml + p + count - 1) div VDFS2_BIT_BLKSIZE bs ml"
  shows "clear_blocks ml bs e blk p count buff =
    change_range (bm_has bs ml) (bm_bit bs ml) (bm_put bs ml) False
      (blk * VDFS2_BIT_BLKSIZE bs ml + p) count buff"
  using p e
proof (induction "Suc e - blk" arbitrary: blk p count buff rule: less_induct)
  case less
  let ?D = "VDFS2_BIT_BLKSIZE bs ml" and ?cr = "change_range (bm_has bs ml) (bm_bit bs ml) (bm_put bs ml) False"
  note be = blocks_end [OF less.prems]
  consider "e < blk" | "blk \<le> e" "count < ?D - p" | "blk \<le> e" "?D - p \<le> count" by linarith
  then show ?case
  proof cases
    case 1
    with be(1) show ?thesis by (simp add: clear_blocks.simps)
  next
    case 2
    have "change_bits_in_block False ml bs (blk * bs) p count buff = ?cr (blk * ?D + p) count buff"
      using 2 by (intro change_bits_in_block_range [OF gl]) simp
    moreover have "e < Suc blk" using be(2) 2 by simp
    ultimately show ?thesis using 2
      by (auto simp: clear_blocks.simps [of ml bs e blk] clear_blocks.simps [of ml bs e "Suc blk"] Let_def
          split: prod.splits)
  next
    case 3
    define n where "n = count - (?D - p)"
    have c: "count = (?D - p) + n" using 3 by (simp add: n_def)
    have run: "change_bits_in_block False ml bs (blk * bs) p (?D - p) buff = ?cr (blk * ?D + p) (?D - p) buff"
      using less.prems(1) by (intro change_bits_in_block_range [OF gl]) simp
    have IH: "clear_blocks ml bs e (Suc blk) 0 n b = ?cr (Suc blk * ?D + 0) n b" for b
    proof (rule less.hyps)
      show "Suc e - Suc blk < Suc e - blk" using 3(1) by simp
      show "0 < ?D" using blksize_pos [OF gl] .
      show "e = (Suc blk * ?D + 0 + n - 1) div ?D" using be(3) [OF 3(2)] unfolding n_def .
    qed
    have "blk * ?D + p + (?D - p) = Suc blk * ?D + 0" using less.prems(1) by simp
    then show ?thesis
      unfolding c change_range_append using 3 c run IH
      by (simp add: clear_blocks.simps [of ml bs e blk] Let_def add.commute split: prod.splits)
  qed
qed

lemma set_bits_range:
  "good_layout bs ml \<Longrightarrow> vdfs2_set_bits buff offset count ml bs =
    change_range (bm_has bs ml) (bm_bit bs ml) (bm_put bs ml) True offset count buff"
  unfolding vdfs2_set_bits_def Let_def
  using set_blocks_range [of bs ml "offset mod VDFS2_BIT_BLKSIZE bs ml" _ "offset div VDFS2_BIT_BLKSIZE bs ml"
      count buff, OF _ _ refl] unfolding div_mult_mod_eq by (simp add: blksize_pos)

lemma clear_bits_range:
  "good_layout bs ml \<Longrightarrow> vdfs2_clear_bits buff offset count ml bs =
    change_range (bm_has bs ml) (bm_bit bs ml) (bm_put bs ml) False offset count buff"
  unfolding vdfs2_clear_bits_def Let_def
  using clear_blocks_range [of bs ml "offset mod VDFS2_BIT_BLKSIZE bs ml" _ "offset div VDFS2_BIT_BLKSIZE bs ml"
      count buff, OF _ _ refl] unfolding div_mult_mod_eq by (simp add: blksize_pos)

section \<open>The searches\<close>

lemma find_from_spec:
  "(find_from p sz i = sz \<and> (\<forall>j. i \<le> j \<longrightarrow> j < sz \<longrightarrow> \<not> p j)) \<or>
   (i \<le> find_from p sz i \<and> find_from p sz i < sz \<and> p (find_from p sz i) \<and>
    (\<forall>j. i \<le> j \<longrightarrow> j < find_from p sz i \<longrightarrow> \<not> p j))"
proof (induction p sz i rule: find_from.induct)
  case (1 p sz i)
  show ?case
  proof (cases "sz \<le> i \<or> p i")
    case True
    then show ?thesis by (auto simp: find_from.simps [of p sz i])
  next
    case False
    then have eq: "find_from p sz i = find_from p sz (i + 1)" and IH: "\<not> sz \<le> i" "\<not> p i"
      by (auto simp: find_from.simps [of p sz i])
    have "\<not> p j" if "i \<le> j" "\<not> (i + 1 \<le> j \<and> p j)" for j
      using that IH(2) by (cases "j = i") auto
    with "1.IH" [OF IH] show ?thesis unfolding eq by (metis Suc_eq_plus1 Suc_leD)
  qed
qed

lemma find_from_unique:
  assumes "i \<le> r" "r < sz" "p r" "\<forall>j. i \<le> j \<longrightarrow> j < r \<longrightarrow> \<not> p j"
  shows "find_from p sz i = r"
  using find_from_spec [of p sz i] assms by (metis linorder_neqE_nat)

lemma find_from_none:
  assumes "\<forall>j. i \<le> j \<longrightarrow> j < sz \<longrightarrow> \<not> p j"
  shows "find_from p sz i = sz"
  using find_from_spec [of p sz i] assms by blast

lemma find_from_le: "i \<le> sz \<Longrightarrow> i \<le> find_from p sz i \<and> find_from p sz i \<le> sz"
  using find_from_spec [of p sz i] by auto

text \<open>Searching one block is searching the corresponding piece of the array.\<close>

lemma find_next_in_block:
  assumes gl: "good_layout bs ml" and n: "n \<le> VDFS2_BIT_BLKSIZE bs ml"
  shows "find_next_bit_in_block buff (blk * bs) n p ml v =
    (let r = find_from (\<lambda>i. bm_bit bs ml buff i = v) (blk * VDFS2_BIT_BLKSIZE bs ml + n)
       (blk * VDFS2_BIT_BLKSIZE bs ml + p) in
     if blk * VDFS2_BIT_BLKSIZE bs ml + n \<le> r then -1
     else int r - int (blk * VDFS2_BIT_BLKSIZE bs ml))"
proof -
  let ?D = "VDFS2_BIT_BLKSIZE bs ml" and ?P = "\<lambda>i. bm_bit bs ml buff i = v"
  let ?q = "\<lambda>i. payload_bit buff (blk * bs + ml) i = v"
  have bits: "?q i = ?P (blk * ?D + i)" if "i < n" for i
    using that n by (simp add: payload_bit_def bm_bit_def bit_addr_def)
  from find_from_spec [of ?q n p] show ?thesis
  proof
    assume *: "find_from ?q n p = n \<and> (\<forall>j. p \<le> j \<longrightarrow> j < n \<longrightarrow> \<not> ?q j)"
    have "find_from ?P (blk * ?D + n) (blk * ?D + p) = blk * ?D + n"
    proof (rule find_from_none, intro allI impI)
      fix j assume j: "blk * ?D + p \<le> j" "j < blk * ?D + n"
      then obtain k where "j = blk * ?D + k" "p \<le> k" "k < n" using le_Suc_ex [of "blk * ?D + p" j] by auto
      with * bits show "\<not> ?P j" by auto
    qed
    with * show ?thesis by (simp add: find_next_bit_in_block_def)
  next
    assume *: "p \<le> find_from ?q n p \<and> find_from ?q n p < n \<and> ?q (find_from ?q n p) \<and>
      (\<forall>j. p \<le> j \<longrightarrow> j < find_from ?q n p \<longrightarrow> \<not> ?q j)"
    have "find_from ?P (blk * ?D + n) (blk * ?D + p) = blk * ?D + find_from ?q n p"
    proof (rule find_from_unique)
      show "\<forall>j. blk * ?D + p \<le> j \<longrightarrow> j < blk * ?D + find_from ?q n p \<longrightarrow> \<not> ?P j"
      proof (intro allI impI)
        fix j assume j: "blk * ?D + p \<le> j" "j < blk * ?D + find_from ?q n p"
        then obtain k where "j = blk * ?D + k" "p \<le> k" "k < find_from ?q n p"
          using le_Suc_ex [of "blk * ?D + p" j] by auto
        with * bits [of k] show "\<not> ?P j" by auto
      qed
    qed (use * bits in auto)
    with * show ?thesis by (simp add: find_next_bit_in_block_def)
  qed
qed

lemma find_from_skip:
  assumes "i \<le> k" "\<forall>j. i \<le> j \<longrightarrow> j < k \<longrightarrow> j < sz \<longrightarrow> \<not> p j"
  shows "find_from p sz i = find_from p sz k"
  using find_from_spec [of p sz k]
proof
  assume *: "find_from p sz k = sz \<and> (\<forall>j. k \<le> j \<longrightarrow> j < sz \<longrightarrow> \<not> p j)"
  have "find_from p sz i = sz" using * assms by (intro find_from_none) (metis not_le)
  with * show ?thesis by simp
next
  assume *: "k \<le> find_from p sz k \<and> find_from p sz k < sz \<and> p (find_from p sz k) \<and>
    (\<forall>j. k \<le> j \<longrightarrow> j < find_from p sz k \<longrightarrow> \<not> p j)"
  have "\<not> p j" if "i \<le> j" "j < find_from p sz k" for j
    using * assms(2) that by (cases "j < k") auto
  with * assms(1) show ?thesis by (intro find_from_unique) auto
qed

lemma find_next_blocks:
  assumes gl: "good_layout bs ml" and sz: "0 < sz" "sz < 2 ^ 32"
    and e: "e = (sz - 1) div VDFS2_BIT_BLKSIZE bs ml" and off: "off < VDFS2_BIT_BLKSIZE bs ml"
  shows "find_next_bit_blocks buff sz bs ml v e cur off =
    find_from (\<lambda>i. bm_bit bs ml buff i = v) sz (cur * VDFS2_BIT_BLKSIZE bs ml + off)"
  using off
proof (induction "Suc e - cur" arbitrary: cur off rule: less_induct)
  case less
  let ?D = "VDFS2_BIT_BLKSIZE bs ml" and ?P = "\<lambda>i. bm_bit bs ml buff i = v"
  have D: "0 < ?D" using gl by (rule blksize_pos)
  show ?case
  proof (cases "e < cur")
    case True
    then have "sz - 1 < cur * ?D" using D unfolding e by (simp add: div_less_iff_less_mult)
    then have "find_from ?P sz (cur * ?D + off) = sz" using sz by (intro find_from_none) auto
    with True show ?thesis by (simp add: find_next_bit_blocks.simps)
  next
    case False
    then have "cur \<le> (sz - 1) div ?D" using e by simp
    then have "cur * ?D \<le> sz - 1" using D by (simp only: less_eq_div_iff_mult_less_eq)
    then have lt: "cur * ?D < sz" using sz(1) by simp
    define n where "n = (if sz - cur * ?D > ?D then ?D else sz - cur * ?D)"
    have n: "n \<le> ?D" "cur * ?D + n \<le> sz" using lt by (auto simp: n_def)
    have left: "(sz - cur * ?D) mod 2 ^ 32 = sz - cur * ?D" using sz(2) by simp
    define r where "r = find_from ?P (cur * ?D + n) (cur * ?D + off)"
    have run: "find_next_bit_blocks buff sz bs ml v e cur off =
        (if cur * ?D + n \<le> r then find_next_bit_blocks buff sz bs ml v e (Suc cur) 0 else r)"
    proof -
      have "cur * ?D \<le> r" if "\<not> cur * ?D + n \<le> r"
        using find_from_spec [of ?P "cur * ?D + n" "cur * ?D + off"] that unfolding r_def by auto
      then show ?thesis
        unfolding find_next_bit_blocks.simps [of buff sz bs ml v e cur off] Let_def left n_def [symmetric]
          find_next_in_block [OF gl n(1)] r_def [symmetric]
        using False by (auto simp del: of_nat_mult)
    qed
    show ?thesis
    proof (cases "cur * ?D + n \<le> r")
      case none: True
      then have no: "\<forall>j. cur * ?D + off \<le> j \<longrightarrow> j < cur * ?D + n \<longrightarrow> \<not> ?P j"
        using find_from_spec [of ?P "cur * ?D + n" "cur * ?D + off"] unfolding r_def by auto
      have "find_from ?P sz (cur * ?D + off) = find_from ?P sz (Suc cur * ?D + 0)"
        using no less.prems n lt by (intro find_from_skip) (auto simp: n_def split: if_splits)
      moreover have "find_next_bit_blocks buff sz bs ml v e (Suc cur) 0 = find_from ?P sz (Suc cur * ?D + 0)"
        using False D by (intro less.hyps) auto
      ultimately show ?thesis using run none by simp
    next
      case found: False
      then have "find_from ?P sz (cur * ?D + off) = r"
        using find_from_spec [of ?P "cur * ?D + n" "cur * ?D + off"] n(2) unfolding r_def
        by (intro find_from_unique) auto
      with run found show ?thesis by simp
    qed
  qed
qed

lemma find_next_value:
  assumes gl: "good_layout bs ml" and sz: "0 < sz" "sz < 2 ^ 32"
  shows "find_next_bit_value buff sz offset bs ml v =
    find_from (\<lambda>i. bm_bit bs ml buff i = v) sz offset"
proof -
  let ?D = "VDFS2_BIT_BLKSIZE bs ml"
  have D: "0 < ?D" using gl by (rule blksize_pos)
  have st: "offset div 8 div (bs - (CRC32_SIZE + ml)) = offset div ?D"
    by (simp add: VDFS2_BIT_BLKSIZE_def div_mult2_eq [symmetric] mult.commute add.commute)
  show ?thesis
    using find_next_blocks [OF gl sz refl, of "offset mod ?D" buff v "offset div ?D"] D sz(1)
    unfolding find_next_bit_value_def Let_def st div_mult_mod_eq by simp
qed

section \<open>Bytes outside of the payload\<close>

lemma change_range_bytes:
  "change_range (bm_has bs ml) (bm_bit bs ml) (bm_put bs ml) v i n buff = (r, buff') \<Longrightarrow>
   length buff' = length buff \<and> (\<forall>a. (\<forall>j. i \<le> j \<longrightarrow> j < i + n \<longrightarrow> bit_addr bs ml j \<noteq> a) \<longrightarrow> buff' ! a = buff ! a)"
proof (induction n arbitrary: i buff)
  case (Suc n)
  show ?case
  proof (cases "bm_has bs ml buff i \<and> bm_bit bs ml buff i \<noteq> v")
    case True
    with Suc.prems have "change_range (bm_has bs ml) (bm_bit bs ml) (bm_put bs ml) v (Suc i) n
        (bm_put bs ml v i buff) = (r, buff')" by auto
    note IH = Suc.IH [OF this]
    have put: "length (bm_put bs ml v i buff) = length buff"
      "bit_addr bs ml i \<noteq> a \<Longrightarrow> bm_put bs ml v i buff ! a = buff ! a" for a
      by (simp_all add: bm_put_def Let_def)
    have "buff' ! a = buff ! a" if "\<forall>j. i \<le> j \<longrightarrow> j < i + Suc n \<longrightarrow> bit_addr bs ml j \<noteq> a" for a
      using that IH put(2) [of a] by simp
    with IH put(1) show ?thesis by simp
  qed (use Suc.prems in \<open>auto split: if_splits\<close>)
qed auto

lemma bit_addr_inside:
  "good_layout bs ml \<Longrightarrow> ml \<le> bit_addr bs ml j mod bs \<and> bit_addr bs ml j mod bs < bs - CRC32_SIZE"
proof -
  assume gl: "good_layout bs ml"
  let ?D = "VDFS2_BIT_BLKSIZE bs ml"
  have b: "ml + (j mod ?D) div 8 < bs - CRC32_SIZE" using payload_byte [OF gl] blksize_pos [OF gl] by simp
  then have "bit_addr bs ml j mod bs = ml + (j mod ?D) div 8" by (simp add: bit_addr_def add.assoc)
  with b show ?thesis by simp
qed

section \<open>Setting, clearing and searching, seen from outside\<close>

text \<open>
  A layout provides a bit array; everything a client needs of the four functions follows
  from that.
\<close>

locale bitmap_layout =
  fixes bs ml :: nat
  assumes layout: "good_layout bs ml"

sublocale bitmap_layout \<subseteq> bit_array "bm_has bs ml" "bm_bit bs ml" "bm_put bs ml"
  by (rule bm_array [OF layout])

context bitmap_layout
begin

lemma set_bits_ok:
  assumes "\<forall>j. i \<le> j \<longrightarrow> j < i + n \<longrightarrow> bm_has bs ml buff j \<and> \<not> bm_bit bs ml buff j"
  shows "\<exists>buff'. vdfs2_set_bits buff i n ml bs = (Success, buff') \<and>
    (\<forall>j. bm_has bs ml buff' j = bm_has bs ml buff j \<and>
      bm_bit bs ml buff' j = (i \<le> j \<and> j < i + n \<or> bm_bit bs ml buff j))"
proof -
  have "\<forall>j. i \<le> j \<longrightarrow> j < i + n \<longrightarrow> bm_has bs ml buff j \<and> bm_bit bs ml buff j \<noteq> True"
    using assms by blast
  from change_ok [OF this] show ?thesis unfolding set_bits_range [OF layout] by auto
qed

lemma clear_bits_ok:
  assumes "\<forall>j. i \<le> j \<longrightarrow> j < i + n \<longrightarrow> bm_has bs ml buff j \<and> bm_bit bs ml buff j"
  shows "\<exists>buff'. vdfs2_clear_bits buff i n ml bs = (Success, buff') \<and>
    (\<forall>j. bm_has bs ml buff' j = bm_has bs ml buff j \<and>
      bm_bit bs ml buff' j = (bm_bit bs ml buff j \<and> \<not> (i \<le> j \<and> j < i + n)))"
proof -
  have "\<forall>j. i \<le> j \<longrightarrow> j < i + n \<longrightarrow> bm_has bs ml buff j \<and> bm_bit bs ml buff j \<noteq> False"
    using assms by blast
  from change_ok [OF this] show ?thesis unfolding clear_bits_range [OF layout] by auto
qed

lemma set_bits_busy:
  assumes "\<forall>j. i \<le> j \<longrightarrow> j < i + n \<longrightarrow> bm_has bs ml buff j" "i \<le> k" "k < i + n" "bm_bit bs ml buff k"
  shows "fst (vdfs2_set_bits buff i n ml bs) = Fail EFAULT"
  unfolding set_bits_range [OF layout] using change_busy [OF assms(1-3)] assms(4) by simp

lemma clear_bits_free:
  assumes "\<forall>j. i \<le> j \<longrightarrow> j < i + n \<longrightarrow> bm_has bs ml buff j" "i \<le> k" "k < i + n" "\<not> bm_bit bs ml buff k"
  shows "fst (vdfs2_clear_bits buff i n ml bs) = Fail EFAULT"
  unfolding clear_bits_range [OF layout] using change_busy [OF assms(1-3)] assms(4) by simp

lemma find_zero:
  assumes "0 < sz" "sz < 2 ^ 32"
  shows "vdfs2_find_next_zero_bit buff sz i bs ml = find_from (\<lambda>j. \<not> bm_bit bs ml buff j) sz i"
  using find_next_value [OF layout assms, of buff i False] by (simp add: vdfs2_find_next_zero_bit_def)

lemma find_one:
  assumes "0 < sz" "sz < 2 ^ 32"
  shows "vdfs2_find_next_bit buff sz i bs ml = find_from (bm_bit bs ml buff) sz i"
  using find_next_value [OF layout assms, of buff i True] by (simp add: vdfs2_find_next_bit_def)

end

text \<open>
  The layouts in use: the bitmap of the file system's blocks, with the default block size.
\<close>

definition VERSION_SIZE :: nat where
  "VERSION_SIZE = 8"

definition FSM_BMP_MAGIC_LEN :: nat where
  "FSM_BMP_MAGIC_LEN = 4 + VERSION_SIZE"

interpretation fsm_bitmap: bitmap_layout 4096 FSM_BMP_MAGIC_LEN
  by unfold_locales (simp add: good_layout_def FSM_BMP_MAGIC_LEN_def VERSION_SIZE_def CRC32_SIZE_def)

end
