(* ===== verification/Fsm_Btree.thy ===== *)
theory Fsm_Btree
  imports Vdfs2_Prelude
begin

text \<open>
  The in-memory B-tree of free extents (\<^verbatim>\<open>fsm_btree.c\<close>, \<^verbatim>\<open>fsm_btree.h\<close>): its keys,
  its nodes and every operation on them, translated function by function. A node is a
  value that holds its keys and its child nodes: in the C structure the children are
  pointers, no node is shared, so replacing a child in the value is the write through
  the pointer. \<open>nr_active\<close> is the length of the key list. The tree order is the
  field \<^verbatim>\<open>order\<close> of \<^verbatim>\<open>struct vdfs2_fsm_btree\<close>, set to 32 by \<open>vdfs2_init_fsm_btree\<close>.
  The proofs about these definitions are in \<open>Fsm_Btree_Insert\<close>, \<open>Fsm_Btree_Delete\<close>
  and \<open>Fsm_Btree_Space\<close>.
\<close>

section \<open>Keys\<close>

datatype fsm_btree_key = Key (block_offset: u64) (klen: u64)

definition fsm_btree_cmp_fn :: "fsm_btree_key \<Rightarrow> fsm_btree_key \<Rightarrow> int" where
  "fsm_btree_cmp_fn key1 key2 =
     (if block_offset key1 < block_offset key2 then -1
      else if block_offset key1 > block_offset key2 then 1
      else if klen key1 < klen key2 then -1
      else if klen key1 > klen key2 then 1
      else 0)"

instantiation fsm_btree_key :: linorder
begin

definition less_eq_fsm_btree_key :: "fsm_btree_key \<Rightarrow> fsm_btree_key \<Rightarrow> bool" where
  "less_eq_fsm_btree_key k1 k2 \<longleftrightarrow>
     block_offset k1 < block_offset k2 \<or>
     (block_offset k1 = block_offset k2 \<and> klen k1 \<le> klen k2)"

definition less_fsm_btree_key :: "fsm_btree_key \<Rightarrow> fsm_btree_key \<Rightarrow> bool" where
  "less_fsm_btree_key k1 k2 \<longleftrightarrow>
     block_offset k1 < block_offset k2 \<or>
     (block_offset k1 = block_offset k2 \<and> klen k1 < klen k2)"

instance
  by standard
    (auto simp: less_eq_fsm_btree_key_def less_fsm_btree_key_def intro: fsm_btree_key.expand)

end

lemma cmp_fn_order [simp]:
  "fsm_btree_cmp_fn a b < 0 \<longleftrightarrow> a < b"
  "0 < fsm_btree_cmp_fn a b \<longleftrightarrow> b < a"
  "fsm_btree_cmp_fn a b = 0 \<longleftrightarrow> a = b"
  by (cases a; cases b; auto simp: fsm_btree_cmp_fn_def less_fsm_btree_key_def)+

section \<open>Nodes and the tree\<close>

datatype fsm_btree_node_type = FSM_INDEX_NODE | FSM_LEAF_NODE

datatype fsm_node = Node (node_type: fsm_btree_node_type) (level: nat)
  (key_vals: "fsm_btree_key list") (children: "fsm_node list")

abbreviation nr_active :: "fsm_node \<Rightarrow> nat" where
  "nr_active n \<equiv> length (key_vals n)"

definition VDFS2_FSM_BTREE_ORDER :: nat where
  "VDFS2_FSM_BTREE_ORDER = 32"

text \<open>The root pointer: NULL, the error pointer of a failed allocation, or a node.\<close>

datatype fsm_ptr = Null | ErrPtr | Ptr fsm_node

record vdfs2_fsm_btree =
  order :: nat
  root :: fsm_ptr

definition vdfs2_init_fsm_btree :: vdfs2_fsm_btree where
  "vdfs2_init_fsm_btree = \<lparr>order = VDFS2_FSM_BTREE_ORDER, root = Null\<rparr>"

text \<open>The nesting depth of a node: the measure by which the descents terminate.\<close>

fun ht :: "fsm_node \<Rightarrow> nat" where
  "ht (Node ty lv ks cs) = Suc (Max (set (0 # map ht cs)))"

text \<open>
  A freshly allocated node: a leaf at level 0 with no keys; \<open>None\<close> is
  \<^verbatim>\<open>ERR_PTR(-ENOMEM)\<close>.
\<close>

definition allocate_btree_node :: "mem \<Rightarrow> fsm_node option \<times> mem" where
  "allocate_btree_node m =
     (case kmem_alloc m of (ok, m') \<Rightarrow>
        (if ok then Some (Node FSM_LEAF_NODE 0 [] []) else None, m'))"

section \<open>Insertion\<close>

text \<open>
  \<^verbatim>\<open>btree_split_child\<close>: the keys and children of the parent after the full child at
  \<open>index\<close> is split around its key \<open>order - 1\<close>. A leaf has no children to copy.
\<close>

definition split_left :: "nat \<Rightarrow> fsm_node \<Rightarrow> fsm_node" where
  "split_left t c = Node (node_type c) (level c) (take (t - 1) (key_vals c))
     (if node_type c = FSM_LEAF_NODE then children c else take t (children c))"

definition split_right :: "nat \<Rightarrow> fsm_node \<Rightarrow> fsm_node" where
  "split_right t c = Node (node_type c) (level c) (drop t (key_vals c))
     (if node_type c = FSM_LEAF_NODE then [] else drop t (children c))"

definition btree_split_child ::
  "nat \<Rightarrow> mem \<Rightarrow> fsm_btree_key list \<Rightarrow> fsm_node list \<Rightarrow> nat
   \<Rightarrow> ret \<times> mem \<times> fsm_btree_key list \<times> fsm_node list" where
  "btree_split_child t m ks cs index =
     (case allocate_btree_node m of
        (None, m') \<Rightarrow> (Fail ENOMEM, m', ks, cs)
      | (Some _, m') \<Rightarrow>
          (let child = cs ! index in
           (Success, m', insert_at index (key_vals child ! (t - 1)) ks,
            insert_at (index + 1) (split_right t child) (cs[index := split_left t child]))))"

text \<open>
  The binary search of a leaf: \<open>None\<close> when the key is found (\<^verbatim>\<open>-EEXIST\<close>), otherwise
  the position at which it is to be stored.
\<close>

function leaf_search :: "fsm_btree_key \<Rightarrow> fsm_btree_key list \<Rightarrow> int \<Rightarrow> int \<Rightarrow> nat option" where
  "leaf_search key ks imin imax =
     (if imin \<le> imax then
        (let imid = (imin + imax) div 2; c = fsm_btree_cmp_fn key (ks ! nat imid) in
         if 0 < c then leaf_search key ks (imid + 1) imax
         else if c < 0 then leaf_search key ks imin (imid - 1)
         else None)
      else Some (nat (imax + 1)))"
  by pat_completeness auto
termination
  by (relation "measure (\<lambda>(key, ks, imin, imax). nat (imax + 1 - imin))") auto

declare leaf_search.simps [simp del]

text \<open>The search of an index node, from its last key down to its first.\<close>

fun index_search :: "fsm_btree_key \<Rightarrow> fsm_btree_key list \<Rightarrow> nat \<Rightarrow> nat option" where
  "index_search key ks 0 = Some 0"
| "index_search key ks (Suc i) =
     (let c = fsm_btree_cmp_fn key (ks ! i) in
      if c = 0 then None else if 0 < c then Some (Suc i) else index_search key ks i)"

text \<open>The duplicate check in a full child, before it is split.\<close>

fun dup_scan :: "fsm_btree_key \<Rightarrow> fsm_btree_key list \<Rightarrow> bool" where
  "dup_scan key [] = False"
| "dup_scan key (k # ks) =
     (let c = fsm_btree_cmp_fn key k in
      if c = 0 then True else if c < 0 then False else dup_scan key ks)"

lemma ht_child: "c \<in> set cs \<Longrightarrow> ht c < ht (Node ty lv ks cs)"
  by (simp add: less_Suc_eq_le Max_ge_iff)

lemma ht_nth_child: "i < length cs \<Longrightarrow> ht (cs ! i) < ht (Node ty lv ks cs)"
  by (intro ht_child nth_mem)

lemma ht_mono_children: "set cs \<subseteq> set ds \<Longrightarrow> ht (Node ty lv ks cs) \<le> ht (Node ty' lv' ks' ds)"
  by (auto intro!: Max_mono)

lemma ht_le_Suc_iff: "ht (Node ty lv ks cs) \<le> Suc h \<longleftrightarrow> (\<forall>c\<in>set cs. ht c \<le> h)"
  by auto

lemma ht_le_by_children:
  assumes "\<And>c. c \<in> set ds \<Longrightarrow> \<exists>c'\<in>set cs. ht c \<le> ht c'"
  shows "ht (Node ty lv ks ds) \<le> ht (Node ty' lv' ks' cs)"
proof -
  have "\<forall>c\<in>set ds. ht c \<le> Max (set (0 # map ht cs))"
  proof
    fix c assume "c \<in> set ds"
    then obtain c' where "c' \<in> set cs" "ht c \<le> ht c'" using assms by blast
    moreover from this have "ht c' \<le> Max (set (0 # map ht cs))" by (intro Max_ge) auto
    ultimately show "ht c \<le> Max (set (0 # map ht cs))" by linarith
  qed
  then have "ht (Node ty lv ks ds) \<le> Suc (Max (set (0 # map ht cs)))"
    by (simp only: ht_le_Suc_iff)
  then show ?thesis by simp
qed

lemma ht_update_le:
  "j < length cs \<Longrightarrow> ht x \<le> ht (cs ! j) \<Longrightarrow> ht (Node ty lv ks (cs[j := x])) \<le> ht (Node ty' lv' ks' cs)"
proof (rule ht_le_by_children)
  fix c assume "j < length cs" "ht x \<le> ht (cs ! j)" "c \<in> set (cs[j := x])"
  then have "c = x \<or> c \<in> set cs" using set_update_subset_insert [of cs j x] by auto
  then show "\<exists>c'\<in>set cs. ht c \<le> ht c'"
    using \<open>j < length cs\<close> \<open>ht x \<le> ht (cs ! j)\<close> nth_mem by blast
qed

lemma ht_pos: "0 < ht n"
  by (cases n) simp

declare ht.simps [simp del]

lemma ht_split: "ht (split_left t c) \<le> ht c" "ht (split_right t c) \<le> ht c"
  by (cases c; simp only: split_left_def split_right_def fsm_node.sel;
      rule ht_mono_children; auto dest: in_set_takeD in_set_dropD)+

lemma split_child_ht:
  assumes "btree_split_child t m ks cs i = (r, m', ks', cs')" "r = Success"
    and "i < length cs" "j = i \<or> j = Suc i"
  shows "ht (cs' ! j) \<le> ht (cs ! i)"
  using assms
  by (auto simp: btree_split_child_def Let_def insert_at_def nth_append ht_split
      split: prod.splits option.splits)

text \<open>
  \<^verbatim>\<open>btree_insert_nonfull\<close>: the jump back to label \<^verbatim>\<open>insert\<close> with the chosen child is
  the recursive call, and the node returned carries the changes made below it.
\<close>

function btree_insert_nonfull ::
  "nat \<Rightarrow> fsm_btree_key \<Rightarrow> mem \<Rightarrow> fsm_node \<Rightarrow> ret \<times> mem \<times> fsm_node" where
  "btree_insert_nonfull t key m (Node ty lv ks cs) =
     (if ty = FSM_LEAF_NODE then
        (case leaf_search key ks 0 (int (length ks) - 1) of
           None \<Rightarrow> (Fail EEXIST, m, Node ty lv ks cs)
         | Some p \<Rightarrow> (Success, m, Node ty lv (insert_at p key ks) cs))
      else
        (case index_search key ks (length ks) of
           None \<Rightarrow> (Fail EEXIST, m, Node ty lv ks cs)
         | Some i \<Rightarrow>
             if \<not> i < length cs then (Oops, m, Node ty lv ks cs)
             else if nr_active (cs ! i) = 2 * t - 1 then
               (if dup_scan key (key_vals (cs ! i)) then (Fail EEXIST, m, Node ty lv ks cs)
                else
                  (case btree_split_child t m ks cs i of (r, m', ks', cs') \<Rightarrow>
                     (if r \<noteq> Success then (r, m', Node ty lv ks cs)
                      else
                        (let j = (if 0 < fsm_btree_cmp_fn key (ks' ! i) then Suc i else i) in
                         case btree_insert_nonfull t key m' (cs' ! j) of (r', m'', c) \<Rightarrow>
                           (r', m'', Node ty lv ks' (cs'[j := c]))))))
             else
               (case btree_insert_nonfull t key m (cs ! i) of (r', m'', c) \<Rightarrow>
                  (r', m'', Node ty lv ks (cs[i := c])))))"
  by pat_completeness auto
termination
proof (relation "measure (\<lambda>(t, key, m, n). ht n)", goal_cases)
  case 1
  show ?case by simp
next
  case (2 t key m ty lv ks cs i x y xa ya xb yb j)
  then have "ht (yb ! j) \<le> ht (cs ! i)"
    by (intro split_child_ht [of t m ks cs i x xa xb yb j]) auto
  also have "ht (cs ! i) < ht (Node ty lv ks cs)"
    using 2 by (intro ht_child) auto
  finally show ?case by simp
next
  case (3 t key m ty lv ks cs i)
  then have "ht (cs ! i) < ht (Node ty lv ks cs)"
    by (intro ht_child) auto
  then show ?case by simp
qed

declare btree_insert_nonfull.simps [simp del]

text \<open>
  \<^verbatim>\<open>fsm_btree_insert\<close>: an empty tree gets a leaf, a full root is split under a new
  root first. A failed first allocation is stored in the root pointer, and the new root
  is installed before the split, so a failing split leaves it in the tree without keys.
\<close>

definition insert_at_root ::
  "vdfs2_fsm_btree \<Rightarrow> fsm_btree_key \<Rightarrow> mem \<Rightarrow> fsm_node \<Rightarrow> ret \<times> mem \<times> vdfs2_fsm_btree" where
  "insert_at_root btree key m rnode =
     (if nr_active rnode = 2 * order btree - 1 then
        (case allocate_btree_node m of
           (None, m1) \<Rightarrow> (Fail ENOMEM, m1, btree\<lparr>root := Ptr rnode\<rparr>)
         | (Some _, m1) \<Rightarrow>
             (case btree_split_child (order btree) m1 [] [rnode] 0 of (r, m2, ks, cs) \<Rightarrow>
                (let new_root = Node FSM_INDEX_NODE (level rnode + 1) ks cs in
                 if r \<noteq> Success then (r, m2, btree\<lparr>root := Ptr new_root\<rparr>)
                 else
                   (case btree_insert_nonfull (order btree) key m2 new_root of (r', m3, n) \<Rightarrow>
                      (r', m3, btree\<lparr>root := Ptr n\<rparr>)))))
      else
        (case btree_insert_nonfull (order btree) key m rnode of (r', m3, n) \<Rightarrow>
           (r', m3, btree\<lparr>root := Ptr n\<rparr>)))"

definition fsm_btree_insert ::
  "vdfs2_fsm_btree \<Rightarrow> fsm_btree_key \<Rightarrow> mem \<Rightarrow> ret \<times> mem \<times> vdfs2_fsm_btree" where
  "fsm_btree_insert btree key m =
     (case root btree of
        Null \<Rightarrow>
          (case allocate_btree_node m of
             (None, m1) \<Rightarrow> (Fail ENOMEM, m1, btree\<lparr>root := ErrPtr\<rparr>)
           | (Some rnode, m1) \<Rightarrow> insert_at_root btree key m1 rnode)
      | ErrPtr \<Rightarrow> (Fail ENOMEM, m, btree)
      | Ptr rnode \<Rightarrow> insert_at_root btree key m rnode)"

section \<open>Deletion\<close>

datatype position_t = LEFT | RIGHT

text \<open>
  The largest and the smallest key below a node: the descent to the node that holds it
  (\<^verbatim>\<open>get_max_key_pos\<close>, \<^verbatim>\<open>get_min_key_pos\<close>, which stop above a missing child), and the
  write of another key into that position.
\<close>

function get_max_key_pos :: "fsm_node \<Rightarrow> fsm_node" where
  "get_max_key_pos (Node ty lv ks cs) =
     (if ty = FSM_LEAF_NODE then Node ty lv ks cs
      else if length ks < length cs then get_max_key_pos (cs ! length ks)
      else Node ty lv ks cs)"
  by pat_completeness auto
termination
  by (relation "measure ht") (auto simp: ht_nth_child)

function put_max_key :: "fsm_btree_key \<Rightarrow> fsm_node \<Rightarrow> fsm_node" where
  "put_max_key k (Node ty lv ks cs) =
     (if ty = FSM_LEAF_NODE then Node ty lv (ks[length ks - 1 := k]) cs
      else if length ks < length cs
        then Node ty lv ks (cs[length ks := put_max_key k (cs ! length ks)])
      else Node ty lv (ks[length ks - 1 := k]) cs)"
  by pat_completeness auto
termination
  by (relation "measure (\<lambda>(k, n). ht n)") (auto simp: ht_nth_child)

function get_min_key_pos :: "fsm_node \<Rightarrow> fsm_node" where
  "get_min_key_pos (Node ty lv ks cs) =
     (if ty = FSM_LEAF_NODE then Node ty lv ks cs
      else if cs \<noteq> [] then get_min_key_pos (cs ! 0)
      else Node ty lv ks cs)"
  by pat_completeness auto
termination
  by (relation "measure ht") (auto simp: ht_nth_child)

function put_min_key :: "fsm_btree_key \<Rightarrow> fsm_node \<Rightarrow> fsm_node" where
  "put_min_key k (Node ty lv ks cs) =
     (if ty = FSM_LEAF_NODE then Node ty lv (ks[0 := k]) cs
      else if cs \<noteq> [] then Node ty lv ks (cs[0 := put_min_key k (cs ! 0)])
      else Node ty lv (ks[0 := k]) cs)"
  by pat_completeness auto
termination
  by (relation "measure (\<lambda>(k, n). ht n)") (auto simp: ht_nth_child)

declare get_max_key_pos.simps [simp del] put_max_key.simps [simp del]
  get_min_key_pos.simps [simp del] put_min_key.simps [simp del]

text \<open>
  \<^verbatim>\<open>merge_siblings\<close>: the children at \<open>index\<close> and \<open>index + 1\<close> (the last two when
  \<open>index\<close> is the last child) and the key between them become one node; \<open>None\<close> is
  the failed allocation. The results are the merged node, its position, and the keys and
  children of the parent.
\<close>

definition merge_siblings ::
  "nat \<Rightarrow> mem \<Rightarrow> fsm_btree_key list \<Rightarrow> fsm_node list \<Rightarrow> nat
   \<Rightarrow> (fsm_node \<times> nat \<times> fsm_btree_key list \<times> fsm_node list) option \<times> mem" where
  "merge_siblings t m ks cs index =
     (let idx = (if index = length ks then index - 1 else index);
          n1 = cs ! idx; n2 = cs ! Suc idx in
      case allocate_btree_node m of
        (None, m') \<Rightarrow> (None, m')
      | (Some _, m') \<Rightarrow>
          (let new_node = Node (node_type n1) (level n1)
                 (take (t - 1) (key_vals n1) @ ks ! idx # take (t - 1) (key_vals n2))
                 (take t (children n1) @ take t (children n2)) in
           (Some (new_node, idx, remove_at idx ks, remove_at (Suc idx) (cs[idx := new_node])), m')))"

text \<open>
  \<^verbatim>\<open>move_key\<close>: a key of the parent goes down to the child at \<open>index\<close> and a key of its
  right (\<open>LEFT\<close>) or left (\<open>RIGHT\<close>) neighbour takes its place, with the child node
  between them.
\<close>

definition move_key ::
  "fsm_btree_key list \<Rightarrow> fsm_node list \<Rightarrow> nat \<Rightarrow> position_t \<Rightarrow> fsm_btree_key list \<times> fsm_node list" where
  "move_key ks cs index pos =
     (let i = (if pos = RIGHT then index - 1 else index);
          l = cs ! i; r = cs ! Suc i in
      if pos = LEFT then
        (ks[i := hd (key_vals r)],
         cs[i := Node (node_type l) (level l) (key_vals l @ [ks ! i])
                   (children l @ take 1 (children r)),
            Suc i := Node (node_type r) (level r) (tl (key_vals r)) (drop 1 (children r))])
      else
        (ks[i := last (key_vals l)],
         cs[i := Node (node_type l) (level l) (butlast (key_vals l))
                   (take (nr_active l) (children l)),
            Suc i := Node (node_type r) (level r) (ks ! i # key_vals r)
                   (drop (nr_active l) (children l) @ children r)]))"

text \<open>
  \<^verbatim>\<open>merge_nodes\<close>: two minimal nodes around a key of the parent become one.
\<close>

definition merge_nodes ::
  "mem \<Rightarrow> fsm_node \<Rightarrow> fsm_btree_key \<Rightarrow> fsm_node \<Rightarrow> fsm_node option \<times> mem" where
  "merge_nodes m n1 kv n2 =
     (case allocate_btree_node m of
        (None, m') \<Rightarrow> (None, m')
      | (Some _, m') \<Rightarrow>
          (Some (Node (node_type n1) (level n1) (key_vals n1 @ kv # key_vals n2)
             (children n1 @ children n2)), m'))"

text \<open>
  \<^verbatim>\<open>remove_key_from_leaf\<close>: the node \<open>None\<close> is one that became empty and was freed.
\<close>

definition remove_key_from_leaf :: "fsm_node \<Rightarrow> nat \<Rightarrow> ret \<times> fsm_node option" where
  "remove_key_from_leaf n pos =
     (if node_type n = FSM_INDEX_NODE then (Fail EPERM, Some n)
      else
        (let ks = remove_at pos (key_vals n) in
         (Success, if ks = [] then None
                   else Some (Node (node_type n) (level n) ks (children n)))))"

text \<open>The position of the first key that is not smaller than the one to be deleted.\<close>

fun scan_ge :: "fsm_btree_key \<Rightarrow> fsm_btree_key list \<Rightarrow> nat" where
  "scan_ge key [] = 0"
| "scan_ge key (k # ks) = (if 0 < fsm_btree_cmp_fn key k then Suc (scan_ge key ks) else 0)"

text \<open>
  The pointer of a parent after the work below it. Freeing a child does not write the
  pointer of its parent.
\<close>

definition put_child :: "fsm_node list \<Rightarrow> nat \<Rightarrow> fsm_node option \<Rightarrow> fsm_node list" where
  "put_child cs i c = (case c of None \<Rightarrow> cs | Some n \<Rightarrow> cs[i := n])"

text \<open>
  What the descent does to a minimal child before it enters it: borrow from a neighbour
  or merge with one. \<open>Nothing\<close> is left to be done when the child has more keys.
\<close>

datatype refill = Nothing | Move position_t | Merge

definition choose_refill :: "nat \<Rightarrow> fsm_btree_key list \<Rightarrow> fsm_node list \<Rightarrow> nat \<Rightarrow> refill" where
  "choose_refill t ks cs i =
     (let lsibling = (if i = length ks then Some (cs ! (length ks - 1))
                      else if i = 0 then None else Some (cs ! (i - 1)));
          rsibling = (if i = length ks then None
                      else if i = 0 then Some (cs ! 1) else Some (cs ! Suc i));
          bigger = (\<lambda>s. case s of None \<Rightarrow> False | Some n \<Rightarrow> t - 1 < nr_active n);
          minimal = (\<lambda>s. case s of None \<Rightarrow> False | Some n \<Rightarrow> nr_active n = t - 1) in
      if nr_active (cs ! i) \<noteq> t - 1 then Nothing
      else if bigger rsibling then Move LEFT
      else if bigger lsibling then Move RIGHT
      else if minimal lsibling then Merge
      else if minimal rsibling then Merge
      else Nothing)"

lemma ht_put_max: "ht (put_max_key k n) \<le> ht n"
  by (induction k n rule: put_max_key.induct)
    (simp add: put_max_key.simps ht_mono_children ht_update_le)

lemma ht_put_min: "ht (put_min_key k n) \<le> ht n"
  by (induction k n rule: put_min_key.induct)
    (simp add: put_min_key.simps ht_mono_children ht_update_le)

lemma ht_concat_children:
  assumes "ht n1 < h" "ht n2 < h" "set cs \<subseteq> set (children n1) \<union> set (children n2)"
  shows "ht (Node ty lv ks cs) < h"
proof -
  obtain g where g: "h = Suc g" using assms(1) by (cases h) auto
  obtain f where f: "g = Suc f" using assms(1) ht_pos [of n1] g by (cases g) auto
  from assms g f have "\<forall>c\<in>set cs. ht c \<le> f"
    by (cases n1; cases n2) (auto simp: less_Suc_eq_le ht_le_Suc_iff)
  then show ?thesis by (simp add: g f less_Suc_eq_le ht_le_Suc_iff)
qed

lemma ht_merge_nodes:
  assumes "merge_nodes m (cs ! i) kv (cs ! Suc i) = (Some n, m')" "Suc i < length cs"
  shows "ht n < ht (Node ty lv ks cs)"
proof -
  have "ht (cs ! i) < ht (Node ty lv ks cs)" "ht (cs ! Suc i) < ht (Node ty lv ks cs)"
    using assms(2) by (simp_all add: ht_nth_child)
  note * = ht_concat_children [OF this]
  show ?thesis
    using assms(1) by (auto simp: merge_nodes_def split: prod.splits option.splits intro!: *)
qed

lemma merge_siblings_shape:
  assumes "merge_siblings t m ks cs i = (Some (n, idx, ks', cs'), m')"
  shows "idx = (if i = length ks then i - 1 else i)"
    and "n = Node (node_type (cs ! idx)) (level (cs ! idx))
           (take (t - 1) (key_vals (cs ! idx)) @ ks ! idx # take (t - 1) (key_vals (cs ! Suc idx)))
           (take t (children (cs ! idx)) @ take t (children (cs ! Suc idx)))"
    and "ks' = remove_at idx ks" "cs' = remove_at (Suc idx) (cs[idx := n])"
  using assms by (auto simp: merge_siblings_def Let_def split: prod.splits option.splits)

lemma ht_merge_siblings:
  assumes "merge_siblings t m ks cs i = (Some (n, idx, ks', cs'), m')"
    and "i \<le> length ks" "ks \<noteq> []" "length ks < length cs"
  shows "ht n < ht (Node ty lv ks cs)"
proof -
  note shape = merge_siblings_shape [OF assms(1)]
  have "Suc idx < length cs" using shape(1) assms(2-4) by auto
  then have "ht (cs ! idx) < ht (Node ty lv ks cs)" "ht (cs ! Suc idx) < ht (Node ty lv ks cs)"
    by (simp_all add: ht_nth_child)
  then show ?thesis unfolding shape(2)
    by (rule ht_concat_children) (auto dest: in_set_takeD)
qed

lemma ht_move_key:
  assumes "move_key ks cs i pos = (ks', cs')" "i \<le> length ks" "length ks < length cs"
    and "pos = LEFT \<Longrightarrow> i < length ks" "pos = RIGHT \<Longrightarrow> 0 < i"
  shows "ht (cs' ! i) < ht (Node ty lv ks cs)"
proof (cases pos)
  case LEFT
  have "ht (cs ! i) < ht (Node ty lv ks cs)" "ht (cs ! Suc i) < ht (Node ty lv ks cs)"
    using assms(2-4) LEFT by (simp_all add: ht_nth_child)
  note * = ht_concat_children [OF this]
  have "cs' ! i = Node (node_type (cs ! i)) (level (cs ! i)) (key_vals (cs ! i) @ [ks ! i])
          (children (cs ! i) @ take 1 (children (cs ! Suc i)))"
    using assms LEFT by (auto simp: move_key_def Let_def)
  then show ?thesis by (auto intro!: * dest: in_set_takeD)
next
  case RIGHT
  then obtain j where j: "i = Suc j" using assms(5) by (cases i) auto
  have "ht (cs ! j) < ht (Node ty lv ks cs)" "ht (cs ! Suc j) < ht (Node ty lv ks cs)"
    using assms(2,3) j by (simp_all add: ht_nth_child)
  note * = ht_concat_children [OF this]
  have "cs' ! i = Node (node_type (cs ! i)) (level (cs ! i)) (ks ! j # key_vals (cs ! i))
          (drop (nr_active (cs ! j)) (children (cs ! j)) @ children (cs ! i))"
    using assms RIGHT j by (auto simp: move_key_def Let_def)
  then show ?thesis using j by (auto intro!: * dest: in_set_dropD)
qed

lemma choose_refill_Move:
  "choose_refill t ks cs i = Move pos \<Longrightarrow> i \<le> length ks \<Longrightarrow>
   (pos = LEFT \<longrightarrow> i < length ks) \<and> (pos = RIGHT \<longrightarrow> ks \<noteq> [] \<longrightarrow> 0 < i)"
  by (auto simp: choose_refill_def Let_def split: if_splits)

lemma ht_retype: "ht (Node ty lv ks (children n)) = ht n"
  by (cases n) (simp add: ht.simps)

lemma scan_ge_le: "scan_ge key ks \<le> length ks"
  by (induction ks) auto

text \<open>
  The loop of \<^verbatim>\<open>fsm_btree_delete\<close> from label \<^verbatim>\<open>del_loop\<close>, at one node. \<open>is_root\<close>
  is the test \<^verbatim>\<open>btree->root == node\<close>; the node returned is what the pointer to this
  node refers to afterwards. A key found in an index node is exchanged with its
  neighbour in the larger adjacent subtree, or the two minimal subtrees are merged, and
  the loop continues below. A missing child (NULL) ends the search.
\<close>

function fsm_del_loop ::
  "nat \<Rightarrow> bool \<Rightarrow> fsm_btree_key \<Rightarrow> mem \<Rightarrow> fsm_node \<Rightarrow> ret \<times> mem \<times> fsm_node option" where
  "fsm_del_loop t is_root key m (Node ty lv ks cs) =
     (let i = scan_ge key ks; node = Node ty lv ks cs in
      if ks = [] then (Success, m, Some node)
      else if i < length ks \<and> fsm_btree_cmp_fn key (ks ! i) = 0 then
        (if ty = FSM_LEAF_NODE \<and> (t - 1 < length ks \<or> is_root) then
           (case remove_key_from_leaf node i of (r, n) \<Rightarrow> (r, m, n))
         else if ty = FSM_INDEX_NODE then
           (if \<not> Suc i < length cs then (Oops, m, Some node)
            else if t - 1 < nr_active (cs ! i) then
              (case fsm_del_loop t False key m (put_max_key (ks ! i) (cs ! i)) of (r, m', c) \<Rightarrow>
                 (r, m', Some (Node ty lv (ks[i := last (key_vals (get_max_key_pos (cs ! i)))])
                            (put_child (cs[i := put_max_key (ks ! i) (cs ! i)]) i c))))
            else if t - 1 < nr_active (cs ! Suc i) then
              (case fsm_del_loop t False key m (put_min_key (ks ! i) (cs ! Suc i)) of (r, m', c) \<Rightarrow>
                 (r, m', Some (Node ty lv (ks[i := hd (key_vals (get_min_key_pos (cs ! Suc i)))])
                            (put_child (cs[Suc i := put_min_key (ks ! i) (cs ! Suc i)]) (Suc i) c))))
            else if nr_active (cs ! i) = t - 1 \<and> nr_active (cs ! Suc i) = t - 1 then
              (case merge_nodes m (cs ! i) (ks ! i) (cs ! Suc i) of
                 (None, m') \<Rightarrow> (Fail ENOMEM, m', Some node)
               | (Some comb_node, m') \<Rightarrow>
                   if remove_at i ks = [] \<and> is_root then fsm_del_loop t True key m' comb_node
                   else
                     (case fsm_del_loop t False key m' comb_node of (r, m'', c) \<Rightarrow>
                        (r, m'', Some (Node ty lv (remove_at i ks)
                           (put_child (remove_at (Suc i) (cs[i := comb_node])) i c)))))
            else (Success, m, Some node))
         else (Success, m, Some node))
      else if ty = FSM_LEAF_NODE then (Success, m, Some node)
      else if \<not> length ks < length cs then (Success, m, Some node)
      else
        (case choose_refill t ks cs i of
           Nothing \<Rightarrow>
             (case fsm_del_loop t False key m (cs ! i) of (r, m', c) \<Rightarrow>
                (r, m', Some (Node ty lv ks (put_child cs i c))))
         | Move pos \<Rightarrow>
             (case move_key ks cs i pos of (ks', cs') \<Rightarrow>
                (case fsm_del_loop t False key m (cs' ! i) of (r, m', c) \<Rightarrow>
                   (r, m', Some (Node ty lv ks' (put_child cs' i c)))))
         | Merge \<Rightarrow>
             (case merge_siblings t m ks cs i of
                (None, m') \<Rightarrow> (Fail ENOMEM, m', Some node)
              | (Some (new_node, idx, ks', cs'), m') \<Rightarrow>
                  if ks' = [] \<and> is_root then
                    fsm_del_loop t True key m'
                      (Node (if level new_node \<noteq> 0 then FSM_INDEX_NODE else FSM_LEAF_NODE)
                         (level new_node) (key_vals new_node) (children new_node))
                  else
                    (case fsm_del_loop t False key m' new_node of (r, m'', c) \<Rightarrow>
                       (r, m'', Some (Node ty lv ks' (put_child cs' idx c)))))))"
  by pat_completeness auto

termination
proof (relation "measure (\<lambda>(t, is_root, key, m, n). ht n)", goal_cases)
  case 1
  show ?case by simp
next
  case (2 t is_root key m ty lv ks cs i n)
  then show ?case using ht_put_max [of "ks ! i" "cs ! i"] ht_nth_child [of i cs ty lv ks]
    by auto
next
  case (3 t is_root key m ty lv ks cs i n)
  then show ?case using ht_put_min [of "ks ! i" "cs ! Suc i"] ht_nth_child [of "Suc i" cs ty lv ks]
    by auto
next
  case (4 t is_root key m ty lv ks cs i n x m' a)
  then show ?case by (auto intro: ht_merge_nodes [OF sym])
next
  case (5 t is_root key m ty lv ks cs i n x m' a)
  then show ?case by (auto intro: ht_merge_nodes [OF sym])
next
  case (6 t is_root key m ty lv ks cs i n)
  then show ?case using scan_ge_le [of key ks] by (auto intro: ht_nth_child)
next
  case (7 t is_root key m ty lv ks cs i n pos ks' cs')
  then have "i \<le> length ks" "choose_refill t ks cs i = Move pos" "ks \<noteq> []" "length ks < length cs"
    and mv: "move_key ks cs i pos = (ks', cs')"
    using scan_ge_le [of key ks] by auto
  with choose_refill_Move [of t ks cs i pos] show ?case
    by (simp add: ht_move_key [OF mv])
next
  case (8 t is_root key m ty lv ks cs i n x m' a b idx c ks' cs')
  then show ?case using scan_ge_le [of key ks]
    by (auto simp: ht_retype intro!: ht_merge_siblings [OF sym])
next
  case (9 t is_root key m ty lv ks cs i n x m' a b idx c ks' cs')
  then show ?case using scan_ge_le [of key ks]
    by (auto intro!: ht_merge_siblings [OF sym])
qed

declare fsm_del_loop.simps [simp del]

definition fsm_btree_delete ::
  "vdfs2_fsm_btree \<Rightarrow> fsm_btree_key \<Rightarrow> mem \<Rightarrow> ret \<times> mem \<times> vdfs2_fsm_btree" where
  "fsm_btree_delete btree key m =
     (case root btree of
        Null \<Rightarrow> (Success, m, btree)
      | ErrPtr \<Rightarrow> (Fail ENOMEM, m, btree)
      | Ptr n \<Rightarrow>
          (case fsm_del_loop (order btree) True key m n of (r, m', c) \<Rightarrow>
             (r, m', btree\<lparr>root := (case c of None \<Rightarrow> Null | Some n' \<Rightarrow> Ptr n')\<rparr>)))"

section \<open>Walking all nodes\<close>

text \<open>
  The breadth-first walks link the nodes they have still to visit through \<^verbatim>\<open>next\<close>:
  the queue of the model. An index node appends its \<open>nr_active + 1\<close> children.
\<close>

definition queue_children :: "fsm_node \<Rightarrow> fsm_node list" where
  "queue_children n =
     (if node_type n = FSM_INDEX_NODE then take (Suc (nr_active n)) (children n) else [])"

lemma size_children: "sum_list (map size (take i cs)) < Suc (size_list size cs)"
proof (induction cs arbitrary: i)
  case (Cons c cs)
  show ?case
  proof (cases i)
    case (Suc j)
    with Cons.IH [of j] show ?thesis by simp
  qed simp
qed simp

lemma size_queue_children: "sum_list (map size (queue_children n)) < size n"
  by (cases n) (simp add: queue_children_def size_children trans_less_add1)

function bfs_nodes :: "fsm_node list \<Rightarrow> fsm_node list" where
  "bfs_nodes [] = []"
| "bfs_nodes (n # q) = n # bfs_nodes (q @ queue_children n)"
  by pat_completeness auto
termination
  by (relation "measure (\<lambda>q. sum_list (map size q))") (simp_all add: size_queue_children)

text \<open>
  \<^verbatim>\<open>fsm_btree_destroy\<close>: the nodes in the order in which they are freed, and the tree left.
\<close>

definition fsm_btree_destroy :: "vdfs2_fsm_btree \<Rightarrow> fsm_node list \<times> vdfs2_fsm_btree" where
  "fsm_btree_destroy btree =
     (case root btree of
        Ptr n \<Rightarrow> (bfs_nodes [n], btree\<lparr>root := Null\<rparr>)
      | _ \<Rightarrow> ([], btree))"

section \<open>Freeing an extent\<close>

text \<open>
  What \<^verbatim>\<open>fsm_btree_free\<close> does when it meets a key that touches the freed blocks: the
  key was lengthened in place (and the next key of the node, if it is now adjacent, is
  to be deleted), or the key after the freed blocks is to be replaced.
\<close>

datatype free_action = ExtendOnly | ExtendDelete fsm_btree_key | ReplaceBefore fsm_btree_key
  | NoMatch | NoChild

fun free_keys :: "u64 \<Rightarrow> u64 \<Rightarrow> fsm_btree_key list \<Rightarrow> fsm_btree_key list \<times> free_action" where
  "free_keys off len [] = ([], NoMatch)"
| "free_keys off len (k # ks) =
     (if off = block_offset k + klen k then
        (let k' = Key (block_offset k) (klen k + len) in
         case ks of
           [] \<Rightarrow> ([k'], ExtendOnly)
         | k2 # _ \<Rightarrow>
             if block_offset k2 = block_offset k' + klen k'
             then (Key (block_offset k) (klen k' + klen k2) # ks, ExtendDelete k2)
             else (k' # ks, ExtendOnly))
      else if off + len = block_offset k then (k # ks, ReplaceBefore k)
      else (case free_keys off len ks of (ks', a) \<Rightarrow> (k # ks', a)))"

text \<open>
  The descent of \<^verbatim>\<open>fsm_btree_free\<close>. The inner loop runs through all keys of a node
  before the descent, so the child entered is always the last one.
\<close>

function free_walk :: "u64 \<Rightarrow> u64 \<Rightarrow> fsm_node \<Rightarrow> fsm_node \<times> free_action" where
  "free_walk off len (Node ty lv ks cs) =
     (case free_keys off len ks of (ks', a) \<Rightarrow>
        (if a \<noteq> NoMatch \<or> ty = FSM_LEAF_NODE then (Node ty lv ks' cs, a)
         else if length ks < length cs then
           (case free_walk off len (cs ! length ks) of (c, a') \<Rightarrow>
              (Node ty lv ks' (cs[length ks := c]), a'))
         else (Node ty lv ks' cs, NoChild)))"
  by pat_completeness auto
termination
  by (relation "measure (\<lambda>(off, len, n). ht n)") (auto simp: ht_nth_child)

declare free_walk.simps [simp del]

definition fsm_btree_free ::
  "vdfs2_fsm_btree \<Rightarrow> u64 \<Rightarrow> u64 \<Rightarrow> mem \<Rightarrow> ret \<times> mem \<times> vdfs2_fsm_btree" where
  "fsm_btree_free btree off len m =
     (case root btree of
        Null \<Rightarrow> fsm_btree_insert btree (Key off len) m
      | ErrPtr \<Rightarrow> (Oops, m, btree)
      | Ptr n \<Rightarrow>
          (case free_walk off len n of (n', a) \<Rightarrow>
             (let btree1 = btree\<lparr>root := Ptr n'\<rparr> in
              case a of
                ExtendOnly \<Rightarrow> (Success, m, btree1)
              | ExtendDelete k \<Rightarrow> fsm_btree_delete btree1 k m
              | ReplaceBefore k \<Rightarrow>
                  (case fsm_btree_delete btree1 k m of (_, m1, btree2) \<Rightarrow>
                     (case fsm_btree_insert btree2 (Key off (len + klen k)) m1 of
                        (_, m2, btree3) \<Rightarrow> (Success, m2, btree3)))
              | NoMatch \<Rightarrow>
                  (case fsm_btree_insert btree1 (Key off len) m of
                     (_, m1, btree2) \<Rightarrow> (Success, m1, btree2))
              | NoChild \<Rightarrow> (Oops, m, btree1))))"

section \<open>Taking an extent\<close>

text \<open>The descent of \<^verbatim>\<open>fsm_btree_lookup\<close> to a key that starts at the wanted block.\<close>

fun scan_off :: "u64 \<Rightarrow> fsm_btree_key list \<Rightarrow> nat" where
  "scan_off off [] = 0"
| "scan_off off (k # ks) = (if block_offset k < off then Suc (scan_off off ks) else 0)"

function lookup_exact :: "u64 \<Rightarrow> fsm_node \<Rightarrow> fsm_btree_key option" where
  "lookup_exact off (Node ty lv ks cs) =
     (let i = scan_off off ks in
      if i < length ks \<and> block_offset (ks ! i) = off then Some (ks ! i)
      else if ty = FSM_LEAF_NODE then None
      else if i < length cs then lookup_exact off (cs ! i)
      else None)"
  by pat_completeness auto
termination
  by (relation "measure (\<lambda>(off, n). ht n)") (auto simp: ht_nth_child)

declare lookup_exact.simps [simp del]

text \<open>
  The test both loops apply to a key: it is long enough, or a shorter one will do.
\<close>

definition extent_fits :: "u32 \<Rightarrow> bool \<Rightarrow> fsm_btree_key \<Rightarrow> bool" where
  "extent_fits len can_return_less k \<longleftrightarrow>
     ucast len < klen k \<or> \<not> (\<not> can_return_less \<and> klen k < ucast len)"

function bfs_lookup :: "u32 \<Rightarrow> bool \<Rightarrow> fsm_node list \<Rightarrow> fsm_btree_key option" where
  "bfs_lookup len can_return_less [] = None"
| "bfs_lookup len can_return_less (n # q) =
     (case find (extent_fits len can_return_less) (key_vals n) of
        Some k \<Rightarrow> Some k
      | None \<Rightarrow> bfs_lookup len can_return_less (q @ queue_children n))"
  by pat_completeness auto
termination
  by (relation "measure (\<lambda>(len, c, q). sum_list (map size q))") (simp_all add: size_queue_children)

text \<open>
  The chosen key is removed, and what is longer than the request goes back. The results
  are the block number (0 for failure), the length granted, memory and the tree.
\<close>

definition lookup_take ::
  "vdfs2_fsm_btree \<Rightarrow> fsm_btree_key \<Rightarrow> u32 \<Rightarrow> mem \<Rightarrow> u64 \<times> u32 \<times> mem \<times> vdfs2_fsm_btree" where
  "lookup_take btree k len m =
     (if ucast len < klen k then
        (case fsm_btree_delete btree k m of (r, m1, btree1) \<Rightarrow>
           if r \<noteq> Success then (0, len, m1, btree1)
           else
             (case fsm_btree_insert btree1 (Key (block_offset k + ucast len) (klen k - ucast len)) m1 of
                (r', m2, btree2) \<Rightarrow> (if r' \<noteq> Success then 0 else block_offset k, len, m2, btree2)))
      else
        (let len' = ucast (klen k) :: u32 in
         case fsm_btree_delete btree (Key (block_offset k) (ucast len')) m of (r, m1, btree1) \<Rightarrow>
           (if r \<noteq> Success then 0 else block_offset k, len', m1, btree1)))"

definition fsm_btree_lookup ::
  "vdfs2_fsm_btree \<Rightarrow> u64 \<Rightarrow> u32 \<Rightarrow> bool \<Rightarrow> mem \<Rightarrow> (u64 \<times> u32 \<times> mem \<times> vdfs2_fsm_btree) result" where
  "fsm_btree_lookup btree off len can_return_less m =
     (case root btree of
        Null \<Rightarrow> Ok (0, len, m, btree)
      | ErrPtr \<Rightarrow> Bug
      | Ptr n \<Rightarrow>
          (case (case lookup_exact off n of
                   Some k \<Rightarrow> if extent_fits len can_return_less k then Some k else None
                 | None \<Rightarrow> None) of
             Some k \<Rightarrow> Ok (lookup_take btree k len m)
           | None \<Rightarrow>
               (case bfs_lookup len can_return_less [n] of
                  Some k \<Rightarrow> Ok (lookup_take btree k len m)
                | None \<Rightarrow> Ok (0, len, m, btree))))"

end
