(* ===== verification/Fsm_Btree_Insert.thy ===== *)
theory Fsm_Btree_Insert
  imports Fsm_Btree
begin

text \<open>
  Well-formedness of the free-extent B-tree and the correctness of insertion: the
  in-order key list of the tree, the shape every operation keeps, and the effect of
  \<open>btree_insert_nonfull\<close> and \<open>fsm_btree_insert\<close> on both, for every allocation outcome.
\<close>

section \<open>In-order keys and the shape of a tree\<close>

fun inorder :: "fsm_node \<Rightarrow> fsm_btree_key list" where
  "inorder (Node ty lv ks cs) = weave (map inorder cs) ks"

text \<open>
  A node at level 0 is a leaf, a node above it is an index node with one child more than
  keys, and every node below the root has between \<open>order - 1\<close> and \<open>2 * order - 1\<close> keys.
\<close>

fun shape :: "nat \<Rightarrow> fsm_node \<Rightarrow> bool" where
  "shape t (Node ty lv ks cs) \<longleftrightarrow>
     (if lv = 0 then ty = FSM_LEAF_NODE \<and> cs = []
      else ty = FSM_INDEX_NODE \<and> length cs = Suc (length ks) \<and>
        (\<forall>c\<in>set cs. Suc (level c) = lv \<and> shape t c \<and>
           t - 1 \<le> nr_active c \<and> nr_active c \<le> 2 * t - 1))"

definition wf_node :: "nat \<Rightarrow> fsm_node \<Rightarrow> bool" where
  "wf_node t n \<longleftrightarrow> shape t n \<and> t - 1 \<le> nr_active n \<and> nr_active n \<le> 2 * t - 1"

definition wf_root :: "nat \<Rightarrow> fsm_node \<Rightarrow> bool" where
  "wf_root t n \<longleftrightarrow> shape t n \<and> 1 \<le> nr_active n \<and> nr_active n \<le> 2 * t - 1"

definition tree_keys :: "vdfs2_fsm_btree \<Rightarrow> fsm_btree_key list" where
  "tree_keys b = (case root b of Ptr n \<Rightarrow> inorder n | _ \<Rightarrow> [])"

definition fsm_btree_inv :: "vdfs2_fsm_btree \<Rightarrow> bool" where
  "fsm_btree_inv b \<longleftrightarrow>
     2 \<le> order b \<and> sorted_less (tree_keys b) \<and>
     (case root b of Null \<Rightarrow> True | ErrPtr \<Rightarrow> False | Ptr n \<Rightarrow> wf_root (order b) n)"

lemma shape_leaf: "shape t (Node FSM_LEAF_NODE lv ks cs) \<longleftrightarrow> lv = 0 \<and> cs = []"
  by auto

lemma shape_index:
  "shape t (Node FSM_INDEX_NODE lv ks cs) \<longleftrightarrow>
     0 < lv \<and> length cs = Suc (length ks) \<and> (\<forall>c\<in>set cs. Suc (level c) = lv \<and> wf_node t c)"
  by (auto simp: wf_node_def)

lemma shape_node_type: "shape t n \<Longrightarrow> node_type n = FSM_LEAF_NODE \<longleftrightarrow> level n = 0"
  by (cases n) (auto split: if_splits)

declare shape.simps [simp del]

lemma inorder_split:
  "i \<le> length ks \<Longrightarrow> length cs = Suc (length ks) \<Longrightarrow>
   inorder (Node ty lv ks cs) =
     before i ks (map inorder cs) @ inorder (cs ! i) @ after i ks (map inorder cs)"
  using weave_split [of i ks "map inorder cs"] by simp

lemma inorder_update:
  "i \<le> length ks \<Longrightarrow> length cs = Suc (length ks) \<Longrightarrow>
   inorder (Node ty lv ks (cs[i := c])) =
     before i ks (map inorder cs) @ inorder c @ after i ks (map inorder cs)"
  using weave_update [of i ks "map inorder cs" "inorder c"] by (simp add: map_update)

lemma inorder_keys: "shape t n \<Longrightarrow> set (key_vals n) \<subseteq> set (inorder n)"
proof (cases n)
  case (Node ty lv ks cs)
  assume "shape t n"
  with Node show ?thesis
    using keys_subset_weave [of "map inorder cs" ks]
    by (cases ty) (auto simp: shape_index shape_leaf)
qed

lemma sorted_key_vals: "shape t n \<Longrightarrow> sorted_less (inorder n) \<Longrightarrow> sorted_less (key_vals n)"
proof (cases n)
  case (Node ty lv ks cs)
  assume "shape t n" "sorted_less (inorder n)"
  with Node show ?thesis
    using sorted_less_sublist_keys [of "map inorder cs" ks]
    by (cases ty) (auto simp: shape_index shape_leaf)
qed

section \<open>The searches of insertion\<close>

text \<open>Both searches find the key or the one position that keeps the keys sorted.\<close>

definition splits_at :: "fsm_btree_key \<Rightarrow> fsm_btree_key list \<Rightarrow> nat \<Rightarrow> bool" where
  "splits_at key ks i \<longleftrightarrow>
     i \<le> length ks \<and> (\<forall>j<i. ks ! j < key) \<and> (\<forall>j. i \<le> j \<longrightarrow> j < length ks \<longrightarrow> key < ks ! j)"

lemma splits_at_notin: "splits_at key ks i \<Longrightarrow> key \<notin> set ks"
  unfolding splits_at_def in_set_conv_nth by (metis less_irrefl linorder_not_le)

lemma leaf_search_spec:
  assumes "sorted_less ks" "0 \<le> imin" "imin \<le> imax + 1" "imax < int (length ks)"
    and "\<forall>j. int j < imin \<longrightarrow> ks ! j < key"
    and "\<forall>j. imax < int j \<longrightarrow> j < length ks \<longrightarrow> key < ks ! j"
  shows "case leaf_search key ks imin imax of None \<Rightarrow> key \<in> set ks | Some p \<Rightarrow> splits_at key ks p"
  using assms
proof (induction key ks imin imax rule: leaf_search.induct)
  case (1 key ks imin imax)
  show ?case
  proof (cases "imin \<le> imax")
    case False
    with "1.prems" have "splits_at key ks (nat (imax + 1))"
      by (auto simp: splits_at_def)
    with False show ?thesis by (simp add: leaf_search.simps [of key ks imin imax])
  next
    case True
    define mid where "mid = (imin + imax) div 2"
    have mid: "imin \<le> mid" "mid \<le> imax" "nat mid < length ks"
      using True "1.prems" by (auto simp: mid_def)
    have mono: "ks ! a < ks ! b" if "a < b" "b < length ks" for a b
      using "1.prems"(1) that by (rule sorted_wrt_nth_less)
    consider "ks ! nat mid < key" | "key < ks ! nat mid" | "key = ks ! nat mid"
      using less_linear by blast
    then show ?thesis
    proof cases
      case 1
      have "\<forall>j. int j < mid + 1 \<longrightarrow> ks ! j < key"
      proof (intro allI impI)
        fix j assume "int j < mid + 1"
        then consider "j < nat mid" | "j = nat mid" using mid "1.prems"(2) by linarith
        then show "ks ! j < key" using 1 mono mid less_trans by cases blast+
      qed
      then have "case leaf_search key ks (mid + 1) imax of
          None \<Rightarrow> key \<in> set ks | Some p \<Rightarrow> splits_at key ks p"
        using "1.IH"(1) [OF True mid_def refl] "1.prems" mid 1 by (simp add: mid_def)
      then show ?thesis
        using True 1 by (simp add: leaf_search.simps [of key ks imin imax] Let_def mid_def)
    next
      case 2
      have "\<forall>j. mid - 1 < int j \<longrightarrow> j < length ks \<longrightarrow> key < ks ! j"
      proof (intro allI impI)
        fix j assume "mid - 1 < int j" "j < length ks"
        then consider "nat mid < j" | "j = nat mid" using mid "1.prems"(2) by linarith
        then show "key < ks ! j" using 2 mono mid less_trans \<open>j < length ks\<close> by cases blast+
      qed
      then have "case leaf_search key ks imin (mid - 1) of
          None \<Rightarrow> key \<in> set ks | Some p \<Rightarrow> splits_at key ks p"
        using "1.IH"(2) [OF True mid_def refl] "1.prems" mid 2 less_not_sym [OF 2]
        by (simp add: mid_def)
      then show ?thesis
        using True 2 less_not_sym [OF 2] by (simp add: leaf_search.simps [of key ks imin imax] Let_def mid_def)
    next
      case 3
      then have "key \<in> set ks" using mid(3) by simp
      then show ?thesis
        unfolding leaf_search.simps [of key ks imin imax] using True 3
        by (simp add: Let_def mid_def)
    qed
  qed
qed

lemma index_search_spec:
  assumes "sorted_less ks" "n \<le> length ks" "\<forall>j. n \<le> j \<longrightarrow> j < length ks \<longrightarrow> key < ks ! j"
  shows "case index_search key ks n of None \<Rightarrow> key \<in> set ks | Some i \<Rightarrow> splits_at key ks i"
  using assms
proof (induction n)
  case (Suc n)
  have below: "ks ! j < ks ! n" if "j < n" for j
    using Suc.prems that by (intro sorted_wrt_nth_less [OF Suc.prems(1)]) auto
  consider "ks ! n < key" | "key < ks ! n" | "key = ks ! n" using less_linear by blast
  then show ?case
  proof cases
    case 1
    then have "splits_at key ks (Suc n)"
      using Suc.prems below by (auto simp: splits_at_def less_Suc_eq intro: less_trans)
    with 1 show ?thesis by (simp add: Let_def)
  next
    case 2
    then have "\<forall>j. n \<le> j \<longrightarrow> j < length ks \<longrightarrow> key < ks ! j"
      using Suc.prems(3) by (metis Suc_leI le_neq_implies_less)
    with Suc 2 less_not_sym [OF 2] show ?thesis by (simp add: Let_def)
  qed (use Suc.prems in \<open>simp add: Let_def\<close>)
qed (auto simp: splits_at_def)

lemma dup_scan_spec: "sorted_less ks \<Longrightarrow> dup_scan key ks \<longleftrightarrow> key \<in> set ks"
  by (induction ks) (auto simp: Let_def)

lemma splits_at_insort:
  assumes "splits_at key ks p"
  shows "insert_at p key ks = insort key ks"
proof -
  have "\<forall>y\<in>set (take p ks). y < key" "\<forall>y\<in>set (drop p ks). key < y"
    using assms by (auto simp: splits_at_def in_set_conv_nth)
  from insort_middle [OF this, of "[]"] show ?thesis by (simp add: insert_at_def)
qed

section \<open>Splitting a full child\<close>

lemma inorder_leaf: "inorder (Node ty lv ks []) = ks"
  by simp

lemma inorder_index_parts:
  assumes "length cs1 = length ks1" "ds \<noteq> []"
  shows "inorder (Node ty lv (ks1 @ ks2) (cs1 @ ds)) =
    weave_left (map inorder cs1) ks1 @ weave (map inorder ds) ks2"
  using assms by (simp add: weave_append)

text \<open>A full node falls apart into two minimal ones around its middle key.\<close>

lemma split_full:
  assumes "wf_node t c" "nr_active c = 2 * t - 1" "2 \<le> t"
  shows "inorder c = inorder (split_left t c) @ key_vals c ! (t - 1) # inorder (split_right t c)"
    and "wf_node t (split_left t c)" "wf_node t (split_right t c)"
    and "level (split_left t c) = level c" "level (split_right t c) = level c"
    and "nr_active (split_left t c) = t - 1" "nr_active (split_right t c) = t - 1"
proof -
  obtain ty lv ks cs where c: "c = Node ty lv ks cs" by (cases c)
  have len: "length ks = 2 * t - 1" using assms c by simp
  have ks: "ks = take (t - 1) ks @ ks ! (t - 1) # drop t ks"
    using len assms(3) id_take_nth_drop [of "t - 1" ks] by simp
  show nr: "nr_active (split_left t c) = t - 1" "nr_active (split_right t c) = t - 1"
    using assms c by (auto simp: split_left_def split_right_def)
  show "level (split_left t c) = level c" "level (split_right t c) = level c"
    by (simp_all add: split_left_def split_right_def)
  show "wf_node t (split_left t c)" "wf_node t (split_right t c)"
    using assms c nr
    by (cases ty; auto simp: wf_node_def split_left_def split_right_def shape_leaf shape_index
        dest: in_set_takeD in_set_dropD)+
  show "inorder c = inorder (split_left t c) @ key_vals c ! (t - 1) # inorder (split_right t c)"
  proof (cases ty)
    case FSM_LEAF_NODE
    with assms(1) c have "cs = []" by (simp add: wf_node_def shape_leaf)
    with FSM_LEAF_NODE c ks show ?thesis by (simp add: split_left_def split_right_def)
  next
    case FSM_INDEX_NODE
    with assms(1) c len have cs: "length cs = 2 * t"
      using assms(3) by (simp add: wf_node_def shape_index)
    have eq: "cs = take (t - 1) cs @ cs ! (t - 1) # drop t cs"
      using cs assms(3) id_take_nth_drop [of "t - 1" cs] by simp
    have tk: "take t cs = take (t - 1) cs @ [cs ! (t - 1)]"
      using cs assms(3) take_Suc_conv_app_nth [of "t - 1" cs] by simp
    have dr: "drop t cs \<noteq> []" using cs assms(3) by simp
    have "inorder c = weave (map inorder (take (t - 1) cs @ cs ! (t - 1) # drop t cs))
        (take (t - 1) ks @ ks ! (t - 1) # drop t ks)"
      using c ks eq by simp
    also have "\<dots> = (weave_left (map inorder (take (t - 1) cs)) (take (t - 1) ks) @
        inorder (cs ! (t - 1))) @ ks ! (t - 1) # weave (map inorder (drop t cs)) (drop t ks)"
      using len cs by (simp add: weave_append)
    also have "weave_left (map inorder (take (t - 1) cs)) (take (t - 1) ks) @ inorder (cs ! (t - 1))
        = weave (map inorder (take t cs)) (take (t - 1) ks)"
      using len cs by (simp add: tk weave_snoc)
    finally show ?thesis
      using c FSM_INDEX_NODE by (simp add: split_left_def split_right_def)
  qed
qed

lemma split_child_cases:
  assumes "btree_split_child t m ks cs i = (r, m', ks', cs')"
  shows "(r = Fail ENOMEM \<and> m \<noteq> [] \<and> ks' = ks \<and> cs' = cs) \<or>
         (r = Success \<and> ks' = insert_at i (key_vals (cs ! i) ! (t - 1)) ks \<and>
          cs' = insert_at (i + 1) (split_right t (cs ! i)) (cs[i := split_left t (cs ! i)]))"
    and "m = [] \<Longrightarrow> r = Success \<and> m' = []"
  using assms
  by (cases m; auto simp: btree_split_child_def allocate_btree_node_def Let_def
      split: prod.splits option.splits if_splits)+

text \<open>Splitting child \<open>i\<close> keeps the in-order keys and the shape of the parent.\<close>

lemma split_child_node:
  assumes "i \<le> length ks" "length cs = Suc (length ks)"
    and "wf_node t (cs ! i)" "nr_active (cs ! i) = 2 * t - 1" "2 \<le> t"
    and "ks' = insert_at i (key_vals (cs ! i) ! (t - 1)) ks"
    and "cs' = insert_at (i + 1) (split_right t (cs ! i)) (cs[i := split_left t (cs ! i)])"
  shows "inorder (Node ty lv ks' cs') = inorder (Node ty lv ks cs)"
    and "length cs' = Suc (length ks')" "length ks' = Suc (length ks)"
    and "ks' ! i = key_vals (cs ! i) ! (t - 1)"
    and "cs' ! i = split_left t (cs ! i)" "cs' ! Suc i = split_right t (cs ! i)"
    and "set cs' \<subseteq> {split_left t (cs ! i), split_right t (cs ! i)} \<union> set cs"
proof -
  obtain c1 c2 where cs: "cs = c1 @ cs ! i # c2" "length c1 = i"
    using assms(1,2) by (metis less_Suc_eq_le split_at_index)
  define c where "c = cs ! i"
  define k1 where "k1 = take i ks"
  define k2 where "k2 = drop i ks"
  have ks: "ks = k1 @ k2" "length k1 = i" using assms(1) by (simp_all add: k1_def k2_def)
  have csc: "cs = c1 @ c # c2" using cs c_def by simp
  have cs': "cs' = c1 @ split_left t c # split_right t c # c2"
    using assms(7) csc cs(2) insert_at_append [of "c1 @ [split_left t c]" "i + 1" _ c2]
    by (simp add: nth_append)
  have ks': "ks' = k1 @ key_vals c ! (t - 1) # k2"
    using assms(6) ks insert_at_append [of k1 i _ k2] c_def by simp
  have "inorder (Node ty lv ks' cs') = weave_left (map inorder c1) k1 @
      inorder (split_left t c) @ key_vals c ! (t - 1) # inorder (split_right t c) @
      weave_right k2 (map inorder c2)"
    unfolding ks' cs' using cs(2) ks(2) by (simp add: weave_append weave_Cons)
  also have "\<dots> = weave_left (map inorder c1) k1 @ inorder c @ weave_right k2 (map inorder c2)"
    using split_full(1) [OF assms(3-5)] c_def by simp
  also have "\<dots> = inorder (Node ty lv ks cs)"
    unfolding ks(1) csc using cs(2) ks(2) by (simp add: weave_append weave_Cons)
  finally show "inorder (Node ty lv ks' cs') = inorder (Node ty lv ks cs)" .
  show "length cs' = Suc (length ks')" "length ks' = Suc (length ks)"
    using assms(2,6,7) by simp_all
  show "ks' ! i = key_vals (cs ! i) ! (t - 1)" using assms(1,6) by simp
  show "cs' ! i = split_left t (cs ! i)" "cs' ! Suc i = split_right t (cs ! i)"
    unfolding cs' using cs(2) c_def by (auto simp: nth_append)
  show "set cs' \<subseteq> {split_left t (cs ! i), split_right t (cs ! i)} \<union> set cs"
    using cs' arg_cong [OF csc, of set] by (auto simp: c_def)
qed

section \<open>Insertion into a node that is not full\<close>

text \<open>
  What a call did: the key was there, or it is there now, or an allocation failed and the
  keys are the same.
\<close>

definition insert_result ::
  "fsm_btree_key \<Rightarrow> mem \<Rightarrow> fsm_btree_key list \<Rightarrow> ret \<Rightarrow> mem \<Rightarrow> fsm_btree_key list \<Rightarrow> bool" where
  "insert_result key m xs r m' xs' \<longleftrightarrow>
     (r = Fail EEXIST \<and> key \<in> set xs \<and> xs' = xs \<or>
      r = Success \<and> key \<notin> set xs \<and> xs' = insort key xs \<or>
      r = Fail ENOMEM \<and> m \<noteq> [] \<and> xs' = xs) \<and> (m = [] \<longrightarrow> m' = [])"

lemma insert_result_context:
  assumes "insert_result key m ys r m' ys'"
    and "\<forall>y\<in>set as. y < key" "\<forall>y\<in>set bs. key < y"
  shows "insert_result key m (as @ ys @ bs) r m' (as @ ys' @ bs)"
  using assms by (auto simp: insert_result_def insort_middle)

text \<open>Inserting below child \<open>i\<close>, between the two keys around it.\<close>

lemma insert_below:
  assumes "sorted_less (inorder (Node ty lv ks cs))" "length cs = Suc (length ks)" "i \<le> length ks"
    and "0 < i \<Longrightarrow> ks ! (i - 1) < key" "i < length ks \<Longrightarrow> key < ks ! i"
    and "insert_result key m (inorder (cs ! i)) r m' (inorder c)"
  shows "insert_result key m (inorder (Node ty lv ks cs)) r m' (inorder (Node ty lv ks (cs[i := c])))"
proof -
  have "sorted_less (before i ks (map inorder cs) @ inorder (cs ! i) @ after i ks (map inorder cs))"
    using assms(1) inorder_split [OF assms(3,2), of ty lv] by simp
  note bounds = context_bounds [OF this assms(3) _ assms(4,5), simplified length_map, OF assms(2)]
  from bounds have "\<forall>y\<in>set (before i ks (map inorder cs)). y < key"
    and "\<forall>y\<in>set (after i ks (map inorder cs)). key < y" by blast+
  with assms(6) show ?thesis
    unfolding inorder_split [OF assms(3,2)] inorder_update [OF assms(3,2)]
    by (rule insert_result_context)
qed

lemma insert_leaf:
  assumes "sorted_less ks"
    and "btree_insert_nonfull t key m (Node FSM_LEAF_NODE lv ks []) = (r, m', n)"
  shows "insert_result key m ks r m' (inorder n)"
    and "\<exists>ks'. n = Node FSM_LEAF_NODE lv ks' [] \<and> length ks \<le> length ks' \<and> length ks' \<le> Suc (length ks)"
proof -
  have spec: "case leaf_search key ks 0 (int (length ks) - 1) of
      None \<Rightarrow> key \<in> set ks | Some p \<Rightarrow> splits_at key ks p"
    using assms(1) by (intro leaf_search_spec) auto
  show "insert_result key m ks r m' (inorder n)"
    using assms(2) spec
    by (auto simp: btree_insert_nonfull.simps insert_result_def splits_at_insort
        dest: splits_at_notin split: option.splits)
  show "\<exists>ks'. n = Node FSM_LEAF_NODE lv ks' [] \<and> length ks \<le> length ks' \<and> length ks' \<le> Suc (length ks)"
    using assms(2) by (auto simp: btree_insert_nonfull.simps split: option.splits)
qed

text \<open>What a node looks like after a child was replaced by another one of the same level.\<close>

lemma shape_update:
  assumes "shape t (Node FSM_INDEX_NODE lv ks cs)" "i < length cs"
    and "wf_node t c" "level c = level (cs ! i)"
  shows "shape t (Node FSM_INDEX_NODE lv ks (cs[i := c]))"
proof -
  have "Suc (level (cs ! i)) = lv" using assms(1,2) by (auto simp: shape_index)
  then have lv: "Suc (level c) = lv" using assms(4) by simp
  have "d = c \<or> d \<in> set cs" if "d \<in> set (cs[i := c])" for d
    using that set_update_subset_insert [of cs i c] by auto
  with assms(1,3) lv have "\<forall>d\<in>set (cs[i := c]). Suc (level d) = lv \<and> wf_node t d"
    unfolding shape_index by blast
  with assms(1) show ?thesis by (simp only: shape_index length_list_update)
qed

text \<open>
  The effect of a call on a node, and how the effect on a child carries over to its parent.
\<close>

definition inserted ::
  "nat \<Rightarrow> fsm_btree_key \<Rightarrow> mem \<Rightarrow> fsm_node \<Rightarrow> ret \<times> mem \<times> fsm_node \<Rightarrow> bool" where
  "inserted t key m n = (\<lambda>(r, m', n').
     insert_result key m (inorder n) r m' (inorder n') \<and> shape t n' \<and> level n' = level n \<and>
     nr_active n \<le> nr_active n' \<and> nr_active n' \<le> Suc (nr_active n))"

lemma inserted_parent:
  assumes "shape t (Node FSM_INDEX_NODE lv ks cs)" "sorted_less (inorder (Node FSM_INDEX_NODE lv ks cs))"
    and "i \<le> length ks" "0 < i \<Longrightarrow> ks ! (i - 1) < key" "i < length ks \<Longrightarrow> key < ks ! i"
    and "nr_active (cs ! i) < 2 * t - 1" "inserted t key m (cs ! i) (r, m', c)"
  shows "insert_result key m (inorder (Node FSM_INDEX_NODE lv ks cs)) r m'
           (inorder (Node FSM_INDEX_NODE lv ks (cs[i := c])))"
    and "shape t (Node FSM_INDEX_NODE lv ks (cs[i := c]))"
proof -
  have len: "length cs = Suc (length ks)" using assms(1) by (simp add: shape_index)
  then have "wf_node t (cs ! i)" using assms(1,3) by (simp add: shape_index)
  with assms(6,7) have "wf_node t c" "level c = level (cs ! i)"
    by (auto simp: inserted_def wf_node_def)
  then show "shape t (Node FSM_INDEX_NODE lv ks (cs[i := c]))"
    using assms(1,3) len by (intro shape_update) auto
  have "insert_result key m (inorder (cs ! i)) r m' (inorder c)"
    using assms(7) by (simp add: inserted_def)
  from insert_below [OF assms(2) len assms(3-5) this]
  show "insert_result key m (inorder (Node FSM_INDEX_NODE lv ks cs)) r m'
           (inorder (Node FSM_INDEX_NODE lv ks (cs[i := c])))" .
qed

text \<open>After the split of a full child the key belongs below one of the two halves.\<close>

lemma split_child_shape:
  assumes "shape t (Node FSM_INDEX_NODE lv ks cs)" "2 \<le> t" "i \<le> length ks"
    and "nr_active (cs ! i) = 2 * t - 1"
    and "ks' = insert_at i (key_vals (cs ! i) ! (t - 1)) ks"
    and "cs' = insert_at (i + 1) (split_right t (cs ! i)) (cs[i := split_left t (cs ! i)])"
  shows "shape t (Node FSM_INDEX_NODE lv ks' cs')"
    and "inorder (Node FSM_INDEX_NODE lv ks' cs') = inorder (Node FSM_INDEX_NODE lv ks cs)"
    and "nr_active (cs' ! i) < 2 * t - 1" "nr_active (cs' ! Suc i) < 2 * t - 1"
    and "Suc i < length cs'" "length ks' = Suc (length ks)"
proof -
  have len: "length cs = Suc (length ks)" and wf: "wf_node t (cs ! i)" and "0 < lv"
    and ch: "\<And>c. c \<in> set cs \<Longrightarrow> Suc (level c) = lv \<and> wf_node t c"
    using assms(1,3) by (auto simp: shape_index)
  note sp = split_child_node [OF assms(3) len wf assms(4,2,5,6)]
  note sf = split_full [OF wf assms(4,2)]
  have "Suc (level (cs ! i)) = lv" using ch [of "cs ! i"] assms(3) len by simp
  with sp(2,7) sf ch \<open>0 < lv\<close> show "shape t (Node FSM_INDEX_NODE lv ks' cs')"
    by (auto simp: shape_index)
  show "inorder (Node FSM_INDEX_NODE lv ks' cs') = inorder (Node FSM_INDEX_NODE lv ks cs)"
    by (rule sp(1))
  show "nr_active (cs' ! i) < 2 * t - 1" "nr_active (cs' ! Suc i) < 2 * t - 1"
    using sp(5,6) sf(6,7) assms(2) by simp_all
  show "Suc i < length cs'" "length ks' = Suc (length ks)" using sp(2,3) assms(3) by simp_all
qed

lemma split_child_bounds:
  fixes ks :: "fsm_btree_key list"
  assumes "splits_at key ks i" "ks' = insert_at i med ks" "key \<noteq> med"
    and "j = (if med < key then Suc i else i)"
  shows "j \<le> length ks'" "0 < j \<Longrightarrow> ks' ! (j - 1) < key" "j < length ks' \<Longrightarrow> key < ks' ! j"
proof -
  have i: "i \<le> length ks" using assms(1) by (simp add: splits_at_def)
  then show "j \<le> length ks'" using assms(2,4) by simp
  show "ks' ! (j - 1) < key" if "0 < j"
    using that assms i by (auto simp: splits_at_def insert_at_def nth_append split: if_splits)
  show "key < ks' ! j" if "j < length ks'"
  proof (cases "med < key")
    case True
    then have "ks' ! j = ks ! i" using that assms i by (simp add: insert_at_def nth_append)
    with True that assms i show ?thesis by (auto simp: splits_at_def)
  next
    case False
    with assms i show ?thesis by auto
  qed
qed

lemma inserted_full_child:
  assumes sh: "shape t (Node FSM_INDEX_NODE lv ks cs)" and t: "2 \<le> t"
    and so: "sorted_less (inorder (Node FSM_INDEX_NODE lv ks cs))"
    and spl: "splits_at key ks i" and full: "nr_active (cs ! i) = 2 * t - 1"
    and nodup: "\<not> dup_scan key (key_vals (cs ! i))"
    and sc: "btree_split_child t m ks cs i = (Success, m1, ks', cs')"
    and j: "j = (if 0 < fsm_btree_cmp_fn key (ks' ! i) then Suc i else i)"
    and rec: "\<lbrakk>shape t (cs' ! j); nr_active (cs' ! j) < 2 * t - 1; sorted_less (inorder (cs' ! j))\<rbrakk>
      \<Longrightarrow> inserted t key m1 (cs' ! j) (r, m', c)"
  shows "inserted t key m (Node FSM_INDEX_NODE lv ks cs)
           (r, m', Node FSM_INDEX_NODE lv ks' (cs'[j := c]))"
proof -
  have i: "i \<le> length ks" using spl by (simp add: splits_at_def)
  from split_child_cases [OF sc] have m: "m = [] \<Longrightarrow> m1 = []"
    and eqs: "ks' = insert_at i (key_vals (cs ! i) ! (t - 1)) ks"
      "cs' = insert_at (i + 1) (split_right t (cs ! i)) (cs[i := split_left t (cs ! i)])" by auto
  note ss = split_child_shape [OF sh t i full eqs]
  have wf: "wf_node t (cs ! i)" using sh i by (auto simp: shape_index)
  have len: "length cs = Suc (length ks)" using sh by (simp add: shape_index)
  have "sorted_less (key_vals (cs ! i))"
    using so wf inorder_split [OF i len, of FSM_INDEX_NODE lv]
    by (intro sorted_key_vals [of t]) (auto simp: wf_node_def sorted_wrt_append simp del: inorder.simps)
  with nodup have "key \<noteq> key_vals (cs ! i) ! (t - 1)"
    using full t by (auto simp: dup_scan_spec)
  with j i eqs(1) have bounds: "j \<le> length ks'" "0 < j \<Longrightarrow> ks' ! (j - 1) < key"
    "j < length ks' \<Longrightarrow> key < ks' ! j"
    using split_child_bounds [OF spl eqs(1), of j] by auto
  have jlen: "j < length cs'" and nrj: "nr_active (cs' ! j) < 2 * t - 1"
    using ss(3-5) j by auto
  have shj: "shape t (cs' ! j)"
    using ss(1) jlen by (auto simp: shape_index wf_node_def)
  have len': "length cs' = Suc (length ks')" using ss(1) by (simp add: shape_index)
  have so': "sorted_less (inorder (Node FSM_INDEX_NODE lv ks' cs'))" using so ss(2) by simp
  then have "sorted_less (inorder (cs' ! j))"
    using inorder_split [OF bounds(1) len', of FSM_INDEX_NODE lv]
    by (simp add: sorted_wrt_append del: inorder.simps)
  from rec [OF shj nrj this] have ins: "inserted t key m1 (cs' ! j) (r, m', c)" .
  note par = inserted_parent [OF ss(1) so' bounds nrj ins]
  have "insert_result key m (inorder (Node FSM_INDEX_NODE lv ks cs)) r m'
      (inorder (Node FSM_INDEX_NODE lv ks' (cs'[j := c])))"
    using par(1) m ss(2) by (auto simp: insert_result_def)
  with par(2) ss(6) show ?thesis by (simp add: inserted_def del: inorder.simps)
qed

text \<open>One step of the descent, with the calls below it assumed correct.\<close>

lemma inserted_index:
  assumes sh: "shape t (Node FSM_INDEX_NODE lv ks cs)" and t: "2 \<le> t"
    and so: "sorted_less (inorder (Node FSM_INDEX_NODE lv ks cs))"
    and some: "index_search key ks (length ks) = Some i" and spl: "splits_at key ks i"
    and IH: "\<And>m' c. \<lbrakk>ht c < ht (Node FSM_INDEX_NODE lv ks cs); shape t c; nr_active c < 2 * t - 1;
      sorted_less (inorder c)\<rbrakk> \<Longrightarrow> inserted t key m' c (btree_insert_nonfull t key m' c)"
  shows "inserted t key m (Node FSM_INDEX_NODE lv ks cs)
    (btree_insert_nonfull t key m (Node FSM_INDEX_NODE lv ks cs))"
proof -
  note unf = btree_insert_nonfull.simps [of t key m FSM_INDEX_NODE lv ks cs]
  have len: "length cs = Suc (length ks)" using sh by (simp add: shape_index)
  then have i: "i \<le> length ks" "i < length cs" using spl by (auto simp: splits_at_def)
  then have wf: "wf_node t (cs ! i)" and hti: "ht (cs ! i) < ht (Node FSM_INDEX_NODE lv ks cs)"
    using sh by (auto simp: shape_index ht_nth_child)
  have soi: "sorted_less (inorder (cs ! i))"
    and sub: "set (inorder (cs ! i)) \<subseteq> set (inorder (Node FSM_INDEX_NODE lv ks cs))"
    using so inorder_split [OF i(1) len, of FSM_INDEX_NODE lv] by (auto simp: sorted_wrt_append)
  consider (room) "nr_active (cs ! i) < 2 * t - 1"
    | (dup) "nr_active (cs ! i) = 2 * t - 1" "dup_scan key (key_vals (cs ! i))"
    | (split) "nr_active (cs ! i) = 2 * t - 1" "\<not> dup_scan key (key_vals (cs ! i))"
    using wf unfolding wf_node_def by linarith
  then show ?thesis
  proof cases
    case room
    with IH [OF hti] wf soi obtain r m' c where rec: "btree_insert_nonfull t key m (cs ! i) = (r, m', c)"
      and ins: "inserted t key m (cs ! i) (r, m', c)" by (metis prod_cases3 wf_node_def)
    have "0 < i \<Longrightarrow> ks ! (i - 1) < key" "i < length ks \<Longrightarrow> key < ks ! i"
      using spl by (auto simp: splits_at_def)
    from inserted_parent [OF sh so i(1) this room ins] show ?thesis
      using some i room rec by (simp add: unf inserted_def del: inorder.simps)
  next
    case dup
    then have "key \<in> set (inorder (Node FSM_INDEX_NODE lv ks cs))"
      using dup_scan_spec sorted_key_vals [of t] soi sub wf inorder_keys [of t "cs ! i"]
      unfolding wf_node_def by blast
    with dup some i sh show ?thesis
      by (simp add: unf inserted_def insert_result_def del: inorder.simps)
  next
    case split
    obtain r1 m1 ks' cs' where sc: "btree_split_child t m ks cs i = (r1, m1, ks', cs')"
      by (metis prod_cases4)
    show ?thesis
    proof (cases "r1 = Success")
      case True
      define j where "j = (if 0 < fsm_btree_cmp_fn key (ks' ! i) then Suc i else i)"
      obtain r m' c where rec: "btree_insert_nonfull t key m1 (cs' ! j) = (r, m', c)"
        by (metis prod_cases3)
      have "ht (cs' ! j) < ht (Node FSM_INDEX_NODE lv ks cs)"
        using split_child_ht [OF sc True i(2), of j] hti by (auto simp: j_def)
      from inserted_full_child [OF sh t so spl split sc [unfolded True] j_def, of r m' c] IH [OF this, of m1]
      have "inserted t key m (Node FSM_INDEX_NODE lv ks cs)
          (r, m', Node FSM_INDEX_NODE lv ks' (cs'[j := c]))" by (simp add: rec)
      then show ?thesis using some i split sc True rec
        by (auto simp: unf Let_def j_def split: if_splits)
    next
      case False
      with split_child_cases [OF sc] have "r1 = Fail ENOMEM" "m \<noteq> []" by auto
      with some i split sc sh show ?thesis
        by (simp add: unf inserted_def insert_result_def del: inorder.simps)
    qed
  qed
qed

lemma insert_nonfull_inserted:
  assumes "shape t n" "nr_active n < 2 * t - 1" "2 \<le> t" "sorted_less (inorder n)"
  shows "inserted t key m n (btree_insert_nonfull t key m n)"
  using assms
proof (induction "ht n" arbitrary: n m rule: less_induct)
  case (less n m)
  obtain ty lv ks cs where n: "n = Node ty lv ks cs" by (cases n)
  note sh = less.prems(1) [unfolded n] and so = less.prems(4) [unfolded n]
  show ?case
  proof (cases ty)
    case FSM_LEAF_NODE
    with sh have "cs = []" "lv = 0" by (auto simp: shape_leaf)
    with FSM_LEAF_NODE n so insert_leaf [of ks t key m lv] show ?thesis
      by (cases "btree_insert_nonfull t key m (Node ty lv ks cs)")
        (fastforce simp: inserted_def shape_leaf)
  next
    case FSM_INDEX_NODE
    have "sorted_less ks" using sorted_key_vals [OF sh so] by simp
    then have spec: "case index_search key ks (length ks) of
        None \<Rightarrow> key \<in> set ks | Some i \<Rightarrow> splits_at key ks i"
      by (intro index_search_spec) auto
    show ?thesis
    proof (cases "index_search key ks (length ks)")
      case None
      with spec inorder_keys [OF sh] have "key \<in> set (inorder (Node ty lv ks cs))" by auto
      with None n sh FSM_INDEX_NODE show ?thesis
        by (simp add: btree_insert_nonfull.simps inserted_def insert_result_def del: inorder.simps)
    next
      case (Some i)
      with spec inserted_index [OF sh [unfolded FSM_INDEX_NODE] less.prems(3)
          so [unfolded FSM_INDEX_NODE] Some] less.hyps less.prems(3) show ?thesis
        by (simp add: n FSM_INDEX_NODE)
    qed
  qed
qed

section \<open>Insertion into the tree\<close>

lemma insert_result_sorted:
  "insert_result key m xs r m' xs' \<Longrightarrow> sorted_less xs \<Longrightarrow> sorted_less xs'"
  by (auto simp: insert_result_def sorted_less_insort)

lemma alloc_cases:
  "allocate_btree_node m = (x, m') \<Longrightarrow>
     (x = None \<and> m \<noteq> []) \<or> (x = Some (Node FSM_LEAF_NODE 0 [] []) \<and> (m = [] \<longrightarrow> m' = []))"
  by (cases m) (auto simp: allocate_btree_node_def split: if_splits)

lemma split_root:
  assumes "wf_node t n" "nr_active n = 2 * t - 1" "2 \<le> t" "sorted_less (inorder n)"
    and "btree_split_child t m [] [n] 0 = (Success, m', ks, cs)"
  shows "shape t (Node FSM_INDEX_NODE (Suc (level n)) ks cs)" "length ks = 1"
    and "inorder (Node FSM_INDEX_NODE (Suc (level n)) ks cs) = inorder n" "m = [] \<Longrightarrow> m' = []"
proof -
  have sh: "shape t (Node FSM_INDEX_NODE (Suc (level n)) [] [n])"
    using assms(1) by (simp add: shape_index)
  have eqs: "ks = insert_at 0 (key_vals ([n] ! 0) ! (t - 1)) []"
    "cs = insert_at (0 + 1) (split_right t ([n] ! 0)) ([n][0 := split_left t ([n] ! 0)])"
    using split_child_cases(1) [OF assms(5)] by auto
  show "m = [] \<Longrightarrow> m' = []" using split_child_cases(2) [OF assms(5)] by simp
  note ss = split_child_shape [OF sh assms(3) _ _ eqs]
  from ss assms(2) show "shape t (Node FSM_INDEX_NODE (Suc (level n)) ks cs)" "length ks = 1"
    and "inorder (Node FSM_INDEX_NODE (Suc (level n)) ks cs) = inorder n" by auto
qed

text \<open>
  A node below which insertion starts may be a fresh leaf, so its keys may be missing;
  a failed split of the root leaves a root without keys, with all keys still below it.
\<close>

lemma insert_at_root_spec:
  assumes t: "2 \<le> order b" and sh: "shape (order b) n" "nr_active n \<le> 2 * order b - 1"
    and so: "sorted_less (inorder n)" and run: "insert_at_root b key m n = (r, m', b')"
  shows "\<exists>n'. root b' = Ptr n' \<and> order b' = order b \<and> shape (order b) n' \<and>
    nr_active n' \<le> 2 * order b - 1 \<and> insert_result key m (inorder n) r m' (inorder n') \<and>
    (r = Fail ENOMEM \<or> nr_active n \<le> nr_active n' \<and> level n' = level n \<or> 1 \<le> nr_active n')"
proof (cases "nr_active n = 2 * order b - 1")
  case False
  obtain r1 m1 n1 where ins: "btree_insert_nonfull (order b) key m n = (r1, m1, n1)"
    by (metis prod_cases3)
  from insert_nonfull_inserted [OF sh(1) _ t so, of key m] False sh(2) ins
  have "inserted (order b) key m n (r1, m1, n1)" by simp
  with run False ins sh(2) show ?thesis by (auto simp: insert_at_root_def inserted_def)
next
  case full: True
  have wf: "wf_node (order b) n" using sh full by (simp add: wf_node_def)
  obtain x m1 where al: "allocate_btree_node m = (x, m1)" by fastforce
  obtain r1 m2 ks cs where sc: "btree_split_child (order b) m1 [] [n] 0 = (r1, m2, ks, cs)"
    by (metis prod_cases4)
  consider "x = None" "m \<noteq> []" | "x \<noteq> None" "m = [] \<longrightarrow> m1 = []" "r1 \<noteq> Success"
    | "x \<noteq> None" "m = [] \<longrightarrow> m1 = []" "r1 = Success"
    using alloc_cases [OF al] by blast
  then show ?thesis
  proof cases
    case 1
    with run full al sh show ?thesis by (auto simp: insert_at_root_def insert_result_def)
  next
    case 2
    with split_child_cases [OF sc] have "r1 = Fail ENOMEM" "m \<noteq> []" "ks = []" "cs = [n]" by auto
    with 2 run full al sc wf show ?thesis
      by (auto simp: insert_at_root_def insert_result_def shape_index)
  next
    case 3
    note sr = split_root [OF wf full t so sc [unfolded 3(3)]]
    define nr where "nr = Node FSM_INDEX_NODE (Suc (level n)) ks cs"
    obtain r2 m3 n1 where ins: "btree_insert_nonfull (order b) key m2 nr = (r2, m3, n1)"
      by (metis prod_cases3)
    have "inserted (order b) key m2 nr (r2, m3, n1)"
      using insert_nonfull_inserted [of "order b" nr key m2] sr so t ins
      by (simp add: nr_def del: inorder.simps)
    with sr 3(2) have "insert_result key m (inorder n) r2 m3 (inorder n1)" "shape (order b) n1"
      "1 \<le> nr_active n1" "nr_active n1 \<le> 2"
      by (auto simp: inserted_def insert_result_def nr_def simp del: inorder.simps)
    with 3 run full al sc ins t show ?thesis by (auto simp: insert_at_root_def Let_def nr_def)
  qed
qed

lemma fsm_btree_insert_spec:
  assumes "fsm_btree_inv b" "fsm_btree_insert b key m = (r, m', b')"
  shows "insert_result key m (tree_keys b) r m' (tree_keys b')" "order b' = order b"
    and "r \<noteq> Fail ENOMEM \<Longrightarrow> fsm_btree_inv b'"
proof -
  have t: "2 \<le> order b" and so: "sorted_less (tree_keys b)"
    using assms(1) by (auto simp: fsm_btree_inv_def)
  have "insert_result key m (tree_keys b) r m' (tree_keys b') \<and> order b' = order b \<and>
      (r \<noteq> Fail ENOMEM \<longrightarrow> fsm_btree_inv b')"
  proof (cases "root b")
    case Null
    obtain x m1 where al: "allocate_btree_node m = (x, m1)" by fastforce
    show ?thesis
    proof (cases x)
      case None
      with al Null alloc_cases [OF al] assms(2) show ?thesis
        by (auto simp: fsm_btree_insert_def insert_result_def tree_keys_def)
    next
      case (Some n)
      with alloc_cases [OF al] have n: "n = Node FSM_LEAF_NODE 0 [] []" "m = [] \<longrightarrow> m1 = []" by auto
      have run: "insert_at_root b key m1 n = (r, m', b')"
        using assms(2) Null al Some by (simp add: fsm_btree_insert_def)
      from insert_at_root_spec [OF t _ _ _ run] n obtain n' where n': "root b' = Ptr n'"
        "order b' = order b" "shape (order b) n'" "nr_active n' \<le> 2 * order b - 1"
        "insert_result key m1 [] r m' (inorder n')"
        "r = Fail ENOMEM \<or> level n' = 0 \<or> 1 \<le> nr_active n'" by (auto simp: shape_leaf)
      have "1 \<le> nr_active n'" if "r \<noteq> Fail ENOMEM"
      proof -
        from that n' have "inorder n' = [key]" by (auto simp: insert_result_def)
        then show ?thesis using n'(3,6) that by (cases n') (auto simp: shape.simps)
      qed
      then show ?thesis using n' n(2) t insert_result_sorted [OF n'(5)] Null
        by (auto simp: fsm_btree_inv_def wf_root_def tree_keys_def insert_result_def)
    qed
  next
    case ErrPtr
    with assms(1) show ?thesis by (simp add: fsm_btree_inv_def)
  next
    case (Ptr n)
    then have wf: "shape (order b) n" "1 \<le> nr_active n" "nr_active n \<le> 2 * order b - 1"
      and so': "sorted_less (inorder n)"
      using assms(1) by (auto simp: fsm_btree_inv_def wf_root_def tree_keys_def)
    have run: "insert_at_root b key m n = (r, m', b')"
      using assms(2) Ptr by (simp add: fsm_btree_insert_def)
    from insert_at_root_spec [OF t wf(1,3) so' run] wf(2) t show ?thesis
      using insert_result_sorted so' Ptr
      by (fastforce simp: fsm_btree_inv_def wf_root_def tree_keys_def)
  qed
  then show "insert_result key m (tree_keys b) r m' (tree_keys b')" "order b' = order b"
    and "r \<noteq> Fail ENOMEM \<Longrightarrow> fsm_btree_inv b'" by blast+
qed

end
