(* ===== verification/Extent_Store.thy ===== *)
theory Extent_Store
  imports Fsm_Btree "HOL-Library.Multiset"
begin

text \<open>
  Sets of free extents. An extent is a key of the free-space tree; the blocks it stands
  for are the abstraction the free-space manager promises its clients. The locale states
  what a store of extents promises: inserting and deleting one key, with a result for
  every allocation outcome. What its clients need is proved from these laws alone:
  adding, replacing, merging and splitting extents changes the set of free blocks by
  exactly the blocks in question.
\<close>

section \<open>Blocks of an extent\<close>

definition ext_blocks :: "fsm_btree_key \<Rightarrow> nat set" where
  "ext_blocks k = {unat (block_offset k) ..< unat (block_offset k) + unat (klen k)}"

definition free_blocks :: "fsm_btree_key list \<Rightarrow> nat set" where
  "free_blocks xs = (\<Union>k\<in>set xs. ext_blocks k)"

text \<open>An extent has blocks and does not reach over the end of the 64-bit block numbers.\<close>

definition valid_extent :: "fsm_btree_key \<Rightarrow> bool" where
  "valid_extent k \<longleftrightarrow> 0 < klen k \<and> unat (block_offset k) + unat (klen k) < 2 ^ 64"

definition extents_ok :: "fsm_btree_key list \<Rightarrow> bool" where
  "extents_ok xs \<longleftrightarrow> (\<forall>k\<in>set xs. valid_extent k) \<and>
     (\<forall>k\<in>set xs. \<forall>k'\<in>set xs. k \<noteq> k' \<longrightarrow> ext_blocks k \<inter> ext_blocks k' = {})"

lemma free_blocks_simps [simp]:
  "free_blocks [] = {}"
  "free_blocks (k # xs) = ext_blocks k \<union> free_blocks xs"
  "free_blocks (xs @ ys) = free_blocks xs \<union> free_blocks ys"
  by (auto simp: free_blocks_def)

lemma free_blocks_set: "set xs = set ys \<Longrightarrow> free_blocks xs = free_blocks ys"
  by (simp add: free_blocks_def)

lemma extents_ok_set: "set xs = set ys \<Longrightarrow> extents_ok xs = extents_ok ys"
  by (simp add: extents_ok_def)

lemma valid_extent_start: "valid_extent k \<Longrightarrow> unat (block_offset k) \<in> ext_blocks k"
  by (simp add: valid_extent_def ext_blocks_def word_gt_0_no unat_gt_0 word_neq_0_conv)

lemma valid_extent_end:
  "valid_extent k \<Longrightarrow> unat (block_offset k + klen k) = unat (block_offset k) + unat (klen k)"
  by (simp add: valid_extent_def unat_word_ariths)

lemma extents_ok_offset_inj:
  assumes "extents_ok xs" "k \<in> set xs" "k' \<in> set xs" "block_offset k = block_offset k'"
  shows "k = k'"
proof (rule ccontr)
  assume "k \<noteq> k'"
  with assms have "ext_blocks k \<inter> ext_blocks k' = {}" "valid_extent k" "valid_extent k'"
    by (auto simp: extents_ok_def)
  with valid_extent_start [of k] valid_extent_start [of k'] assms(4) show False by auto
qed

lemma extents_ok_subset: "extents_ok xs \<Longrightarrow> set ys \<subseteq> set xs \<Longrightarrow> extents_ok ys"
  unfolding extents_ok_def by blast

lemma extents_ok_insert:
  assumes "extents_ok xs" "valid_extent k" "ext_blocks k \<inter> free_blocks xs = {}"
  shows "extents_ok (k # xs)" "k \<notin> set xs"
proof -
  show "extents_ok (k # xs)" using assms unfolding extents_ok_def free_blocks_def by auto
  show "k \<notin> set xs"
    using assms(2,3) valid_extent_start [of k] unfolding free_blocks_def by blast
qed

lemma free_blocks_remove1:
  assumes "extents_ok xs" "distinct xs" "k \<in> set xs"
  shows "free_blocks (remove1 k xs) = free_blocks xs - ext_blocks k"
proof -
  have "set (remove1 k xs) = set xs - {k}" using assms(2) by simp
  moreover have "ext_blocks k' \<inter> ext_blocks k = {}" if "k' \<in> set xs" "k' \<noteq> k" for k'
    using assms(1,3) that unfolding extents_ok_def by blast
  ultimately show ?thesis using assms(3) unfolding free_blocks_def by blast
qed

text \<open>Lengthening an extent over the blocks right behind it, and cutting one in two.\<close>

lemma ext_blocks_extend:
  assumes "valid_extent k" "unat (block_offset k) + unat (klen k) + unat len < 2 ^ 64"
  shows "ext_blocks (Key (block_offset k) (klen k + len)) =
      ext_blocks k \<union> ext_blocks (Key (block_offset k + klen k) len)"
    and "valid_extent (Key (block_offset k) (klen k + len))"
proof -
  have len: "unat (klen k + len) = unat (klen k) + unat len"
    using assms(2) by (simp add: unat_word_ariths)
  show "ext_blocks (Key (block_offset k) (klen k + len)) =
      ext_blocks k \<union> ext_blocks (Key (block_offset k + klen k) len)"
    using valid_extent_end [OF assms(1)] len by (auto simp: ext_blocks_def)
  show "valid_extent (Key (block_offset k) (klen k + len))"
    using assms len unfolding valid_extent_def
    by (auto simp flip: unat_gt_0 simp: word_gt_0_no word_neq_0_conv [symmetric] unat_eq_0)
qed

lemma ext_blocks_cut:
  assumes "valid_extent k" "len < klen k"
  shows "ext_blocks (Key (block_offset k + len) (klen k - len)) =
      ext_blocks k - ext_blocks (Key (block_offset k) len)"
    and "valid_extent (Key (block_offset k + len) (klen k - len))"
    and "ext_blocks (Key (block_offset k) len) \<subseteq> ext_blocks k"
proof -
  have lt: "unat len < unat (klen k)" using assms(2) by (simp add: word_less_nat_alt)
  have off: "unat (block_offset k + len) = unat (block_offset k) + unat len"
    using assms(1) lt by (simp add: valid_extent_def unat_word_ariths)
  have sub: "unat (klen k - len) = unat (klen k) - unat len"
    using lt by (simp add: unat_sub word_le_nat_alt)
  show "ext_blocks (Key (block_offset k + len) (klen k - len)) =
      ext_blocks k - ext_blocks (Key (block_offset k) len)"
    using off sub lt by (auto simp: ext_blocks_def)
  have "0 < klen k - len" using sub lt by (simp add: word_less_nat_alt)
  then show "valid_extent (Key (block_offset k + len) (klen k - len))"
    using assms(1) off sub lt by (auto simp: valid_extent_def)
  show "ext_blocks (Key (block_offset k) len) \<subseteq> ext_blocks k" using lt by (auto simp: ext_blocks_def)
qed

section \<open>The interface of a store of extents\<close>

locale extent_store =
  fixes inv :: "'s \<Rightarrow> bool"
    and keys :: "'s \<Rightarrow> fsm_btree_key list"
    and ins :: "'s \<Rightarrow> fsm_btree_key \<Rightarrow> mem \<Rightarrow> ret \<times> mem \<times> 's"
    and del :: "'s \<Rightarrow> fsm_btree_key \<Rightarrow> mem \<Rightarrow> ret \<times> mem \<times> 's"
  assumes sorted: "inv s \<Longrightarrow> sorted_less (keys s)"
    and ins_law: "inv s \<Longrightarrow> ins s k m = (r, m', s') \<Longrightarrow>
      r = Fail ENOMEM \<and> m \<noteq> [] \<or> inv s' \<and>
        (if k \<in> set (keys s) then r = Fail EEXIST \<and> keys s' = keys s
         else r = Success \<and> keys s' = insort k (keys s))"
    and ins_mem: "inv s \<Longrightarrow> ins s k [] = (r, m', s') \<Longrightarrow> m' = []"
    and del_law: "inv s \<Longrightarrow> del s k m = (r, m', s') \<Longrightarrow>
      r = Fail ENOMEM \<and> m \<noteq> [] \<or> r = Success \<and> inv s' \<and> keys s' = remove1 k (keys s)"
    and del_mem: "inv s \<Longrightarrow> del s k [] = (r, m', s') \<Longrightarrow> m' = []"
begin

abbreviation blocks :: "'s \<Rightarrow> nat set" where
  "blocks s \<equiv> free_blocks (keys s)"

lemma ins_always: "inv s \<Longrightarrow> ins s k [] = (r, m', s') \<Longrightarrow> r \<noteq> Fail ENOMEM"
  using ins_law [of s k "[]" r m' s'] by (auto split: if_splits)

lemma add_extent:
  assumes "inv s" "extents_ok (keys s)" "valid_extent k" "ext_blocks k \<inter> blocks s = {}"
    and "ins s k m = (r, m', s')" "r \<noteq> Fail ENOMEM"
  shows "r = Success" "inv s'" "extents_ok (keys s')" "blocks s' = blocks s \<union> ext_blocks k"
    and "set (keys s') = insert k (set (keys s))"
proof -
  note ok = extents_ok_insert [OF assms(2-4)]
  with ins_law [OF assms(1,5)] assms(6) have r: "r = Success" "inv s'" "keys s' = insort k (keys s)"
    by (auto split: if_splits)
  then have s': "set (keys s') = set (k # keys s)" by (simp add: set_insort_key)
  show "r = Success" "inv s'" using r by simp_all
  show "set (keys s') = insert k (set (keys s))" using s' by simp
  show "extents_ok (keys s')" using extents_ok_set [OF s'] ok(1) by simp
  show "blocks s' = blocks s \<union> ext_blocks k" using free_blocks_set [OF s'] by auto
qed

lemma remove_extent:
  assumes "inv s" "extents_ok (keys s)" "k \<in> set (keys s)"
    and "del s k m = (r, m', s')" "r \<noteq> Fail ENOMEM"
  shows "r = Success" "inv s'" "extents_ok (keys s')" "blocks s' = blocks s - ext_blocks k"
    and "set (keys s') = set (keys s) - {k}"
proof -
  from del_law [OF assms(1,4)] assms(5) have r: "r = Success" "inv s'" "keys s' = remove1 k (keys s)"
    by auto
  have d: "distinct (keys s)" using sorted [OF assms(1)] by (rule sorted_less_distinct)
  with r show "r = Success" "inv s'" "set (keys s') = set (keys s) - {k}" by auto
  show "extents_ok (keys s')"
    unfolding r(3) using assms(2) set_remove1_subset by (rule extents_ok_subset)
  show "blocks s' = blocks s - ext_blocks k"
    using r(3) free_blocks_remove1 [OF assms(2) d assms(3)] by simp
qed

text \<open>Taking the first \<open>len\<close> blocks of an extent: it is removed and its rest is put back.\<close>

lemma take_prefix:
  assumes "inv s" "extents_ok (keys s)" "k \<in> set (keys s)" "len < klen k"
    and "del s k m = (r, m1, s1)" "r \<noteq> Fail ENOMEM"
    and "ins s1 (Key (block_offset k + len) (klen k - len)) m1 = (r', m2, s2)" "r' \<noteq> Fail ENOMEM"
  shows "r' = Success" "inv s2" "extents_ok (keys s2)"
    and "blocks s2 = blocks s - ext_blocks (Key (block_offset k) len)"
    and "ext_blocks (Key (block_offset k) len) \<subseteq> blocks s"
proof -
  note rm = remove_extent [OF assms(1-3,5,6)]
  have v: "valid_extent k" using assms(2,3) by (simp add: extents_ok_def)
  note cut = ext_blocks_cut [OF v assms(4)]
  have sub: "ext_blocks k \<subseteq> blocks s" using assms(3) by (auto simp: free_blocks_def)
  have dis: "ext_blocks (Key (block_offset k + len) (klen k - len)) \<inter> blocks s1 = {}"
    using rm(4) cut(1) by auto
  note ad = add_extent [OF rm(2,3) cut(2) dis assms(7,8)]
  show "r' = Success" "inv s2" "extents_ok (keys s2)" using ad by simp_all
  show "blocks s2 = blocks s - ext_blocks (Key (block_offset k) len)"
    using ad(4) rm(4) cut sub by auto
  show "ext_blocks (Key (block_offset k) len) \<subseteq> blocks s" using cut(3) sub by blast
qed

text \<open>An insertion undone by the deletion of the same key.\<close>

lemma insert_delete:
  assumes "inv s" "k \<notin> set (keys s)" "ins s k m = (r, m1, s1)" "r \<noteq> Fail ENOMEM"
    and "del s1 k m1 = (r', m2, s2)" "r' \<noteq> Fail ENOMEM"
  shows "keys s2 = keys s" "inv s2"
proof -
  from ins_law [OF assms(1,3)] assms(2,4) have i: "inv s1" "keys s1 = insort k (keys s)" by auto
  from del_law [OF i(1) assms(5)] assms(6) i(2) show "keys s2 = keys s" "inv s2"
    by (simp_all add: remove1_insort_key)
qed

end

end
