(* ===== verification/Fsm_Btree_Delete.thy ===== *)
theory Fsm_Btree_Delete
  imports Fsm_Btree_Insert Extent_Store
begin

text \<open>
  Correctness of deletion from the free-extent B-tree: the restructuring steps keep the
  in-order keys, and \<open>fsm_btree_delete\<close> removes exactly the given key and keeps the
  tree well-formed, unless an allocation fails.
\<close>

section \<open>Two neighbouring children and the key between them\<close>

lemma inorder_pair:
  "length c1 = length k1 \<Longrightarrow>
   inorder (Node ty lv (k1 @ k # k2) (c1 @ l # r # c2)) =
     weave_left (map inorder c1) k1 @ (inorder l @ k # inorder r) @ weave_right k2 (map inorder c2)"
  by (simp add: weave_append weave_Cons)

lemma inorder_single:
  "length c1 = length k1 \<Longrightarrow>
   inorder (Node ty lv (k1 @ k2) (c1 @ n # c2)) =
     weave_left (map inorder c1) k1 @ inorder n @ weave_right k2 (map inorder c2)"
  by (simp add: weave_append weave_Cons)

lemma pair_split:
  assumes "i < length ks" "length cs = Suc (length ks)"
  obtains k1 k2 c1 c2 where "ks = k1 @ ks ! i # k2" "cs = c1 @ cs ! i # cs ! Suc i # c2"
    "length k1 = i" "length c1 = i"
proof -
  have "cs = take i cs @ cs ! i # cs ! Suc i # drop (Suc (Suc i)) cs"
    using assms by (metis Cons_nth_drop_Suc Suc_less_eq id_take_nth_drop less_SucI)
  moreover have "ks = take i ks @ ks ! i # drop (Suc i) ks" using assms by (simp add: id_take_nth_drop)
  ultimately show ?thesis using assms
    by (intro that [of "take i ks" "drop (Suc i) ks" "take i cs" "drop (Suc (Suc i)) cs"]) auto
qed

lemma shape_iff:
  "shape t (Node ty lv ks cs) \<longleftrightarrow>
     (ty = FSM_LEAF_NODE \<longleftrightarrow> lv = 0) \<and> length cs = (if lv = 0 then 0 else Suc (length ks)) \<and>
     (\<forall>c\<in>set cs. Suc (level c) = lv \<and> wf_node t c)"
  by (cases ty) (auto simp: shape_leaf shape_index)

definition siblings :: "nat \<Rightarrow> fsm_node \<Rightarrow> fsm_node \<Rightarrow> bool" where
  "siblings t l r \<longleftrightarrow> wf_node t l \<and> wf_node t r \<and> level l = level r"

text \<open>Siblings have the same type; at a level above 0 both have a child more than keys.\<close>

lemma siblings_cases [consumes 1]:
  assumes "siblings t l r"
  obtains (nodes) ty lv kl cl kr cr where "l = Node ty lv kl cl" "r = Node ty lv kr cr"
    "shape t (Node ty lv kl cl)" "shape t (Node ty lv kr cr)"
proof -
  obtain ty1 lv1 k1 c1 ty2 lv2 k2 c2 where n: "l = Node ty1 lv1 k1 c1" "r = Node ty2 lv2 k2 c2"
    by (metis fsm_node.exhaust)
  with assms have sh: "shape t l" "shape t r" "lv1 = lv2" by (auto simp: siblings_def wf_node_def)
  then have "ty1 = ty2" using shape_node_type [of t l] shape_node_type [of t r] n
    by (cases ty1; cases ty2) auto
  with n sh nodes show ?thesis by blast
qed

lemma shape_subset:
  assumes "shape t (Node ty lv kl cl)" "shape t (Node ty lv kr cr)"
    and "set cs \<subseteq> set cl \<union> set cr" "length cs = (if lv = 0 then 0 else Suc (length ks))"
  shows "shape t (Node ty lv ks cs)"
  using assms unfolding shape_iff by blast

text \<open>Merging two minimal siblings around the key between them.\<close>

lemma inorder_merge:
  assumes "shape t (Node ty lv kl cl)" "shape t (Node ty lv kr cr)"
  shows "inorder (Node ty lv (kl @ k # kr) (cl @ cr)) =
    inorder (Node ty lv kl cl) @ k # inorder (Node ty lv kr cr)"
proof (cases "lv = 0")
  case True
  with assms have "cl = []" "cr = []" by (simp_all add: shape_iff)
  then show ?thesis by simp
next
  case False
  with assms have "length cl = Suc (length kl)" "cr \<noteq> []" by (auto simp: shape_iff)
  then show ?thesis by (simp add: weave_merge)
qed

lemma shape_lengths:
  "shape t (Node ty lv ks cs) \<Longrightarrow> length cs = (if lv = 0 then 0 else Suc (length ks))"
  unfolding shape_iff by blast

lemma merged:
  assumes "siblings t l r" "nr_active l = t - 1" "nr_active r = t - 1" "2 \<le> t"
    and "n = Node (node_type l) (level l) (key_vals l @ k # key_vals r) (children l @ children r)"
  shows "inorder n = inorder l @ k # inorder r \<and> wf_node t n \<and> level n = level l \<and>
    nr_active n = 2 * t - 1"
  using assms(1)
proof (cases rule: siblings_cases)
  case (nodes ty lv kl cl kr cr)
  have "shape t (Node ty lv (kl @ k # kr) (cl @ cr))"
    using shape_lengths [OF nodes(3)] shape_lengths [OF nodes(4)]
    by (intro shape_subset [OF nodes(3,4)]) auto
  with assms nodes inorder_merge [OF nodes(3,4)] show ?thesis
    by (auto simp: wf_node_def simp del: inorder.simps)
qed

text \<open>Moving one key over from the right or from the left sibling.\<close>

lemma shape_halves:
  assumes "shape t (Node ty lv (kl @ k # kr) cs)"
    and "cl = take (if lv = 0 then 0 else Suc (length kl)) cs"
    and "cr = drop (if lv = 0 then 0 else Suc (length kl)) cs"
  shows "shape t (Node ty lv kl cl)" "shape t (Node ty lv kr cr)" "cs = cl @ cr"
proof -
  note len = shape_lengths [OF assms(1)]
  have "set cl \<subseteq> set cs" "set cr \<subseteq> set cs"
    using assms(2,3) by (auto dest: in_set_takeD in_set_dropD)
  then show "shape t (Node ty lv kl cl)" "shape t (Node ty lv kr cr)"
    using len assms(2,3) by (intro shape_subset [OF assms(1) assms(1)]; auto)+
  show "cs = cl @ cr" using assms(2,3) by simp
qed

text \<open>
  A node redistributed around another separator: the two halves of the merged node.
\<close>

lemma redistributed:
  assumes "shape t (Node ty lv kl cl)" "shape t (Node ty lv kr cr)"
    and "kl @ k # kr = kl' @ k' # kr'" "cl @ cr = cl' @ cr'"
    and "length cl' = (if lv = 0 then 0 else Suc (length kl'))"
  shows "inorder (Node ty lv kl' cl') @ k' # inorder (Node ty lv kr' cr') =
      inorder (Node ty lv kl cl) @ k # inorder (Node ty lv kr cr)"
    and "shape t (Node ty lv kl' cl')" "shape t (Node ty lv kr' cr')"
proof -
  have m: "shape t (Node ty lv (kl' @ k' # kr') (cl' @ cr'))"
    using shape_lengths [OF assms(1)] shape_lengths [OF assms(2)] assms(3,4)
    by (intro shape_subset [OF assms(1,2)])
       (auto simp flip: assms(4) dest!: arg_cong [where f = length])
  note h = shape_halves [OF m, of cl' cr']
  from h(1,2) assms(5) show sh: "shape t (Node ty lv kl' cl')" "shape t (Node ty lv kr' cr')" by simp_all
  show "inorder (Node ty lv kl' cl') @ k' # inorder (Node ty lv kr' cr') =
      inorder (Node ty lv kl cl) @ k # inorder (Node ty lv kr cr)"
    using inorder_merge [OF sh, of k'] inorder_merge [OF assms(1,2), of k] assms(3,4) by metis
qed

lemma borrowed_left:
  assumes "siblings t l r" "nr_active l = t - 1" "t - 1 < nr_active r" "2 \<le> t"
    and "l' = Node (node_type l) (level l) (key_vals l @ [k]) (children l @ take 1 (children r))"
    and "r' = Node (node_type r) (level r) (tl (key_vals r)) (drop 1 (children r))"
  shows "inorder l' @ hd (key_vals r) # inorder r' = inorder l @ k # inorder r \<and>
    siblings t l' r' \<and> level l' = level l \<and> nr_active l' = t"
  using assms(1)
proof (cases rule: siblings_cases)
  case (nodes ty lv kl cl kr cr)
  have kr: "kr = hd kr # tl kr" using assms(3) nodes by (cases kr) auto
  have lens: "length cl = (if lv = 0 then 0 else Suc (length kl))"
    "length cr = (if lv = 0 then 0 else Suc (length kr))"
    using shape_lengths [OF nodes(3)] shape_lengths [OF nodes(4)] by auto
  have "kl @ k # kr = (kl @ [k]) @ hd kr # tl kr" using kr by simp
  moreover have "cl @ cr = (cl @ take 1 cr) @ drop 1 cr" by simp
  moreover have "length (cl @ take 1 cr) = (if lv = 0 then 0 else Suc (length (kl @ [k])))"
    using lens by simp
  ultimately show ?thesis
    using redistributed [OF nodes(3,4), of k "kl @ [k]" "hd kr" "tl kr" "cl @ take 1 cr" "drop 1 cr"]
      assms nodes
    by (auto simp: siblings_def wf_node_def simp del: inorder.simps)
qed

lemma borrowed_right:
  assumes "siblings t l r" "t - 1 < nr_active l" "nr_active r = t - 1" "2 \<le> t"
    and "l' = Node (node_type l) (level l) (butlast (key_vals l)) (take (nr_active l) (children l))"
    and "r' = Node (node_type r) (level r) (k # key_vals r) (drop (nr_active l) (children l) @ children r)"
  shows "inorder l' @ last (key_vals l) # inorder r' = inorder l @ k # inorder r \<and>
    siblings t l' r' \<and> level r' = level r \<and> nr_active r' = t"
  using assms(1)
proof (cases rule: siblings_cases)
  case (nodes ty lv kl cl kr cr)
  have kl: "kl = butlast kl @ [last kl]" using assms(2) nodes by (cases kl rule: rev_cases) auto
  have lens: "length cl = (if lv = 0 then 0 else Suc (length kl))"
    using shape_lengths [OF nodes(3)] by auto
  have "kl @ k # kr = butlast kl @ last kl # k # kr" using kl by (metis append.assoc append_Cons append_Nil)
  moreover have "cl @ cr = take (length kl) cl @ drop (length kl) cl @ cr" by simp
  moreover have "length (take (length kl) cl) = (if lv = 0 then 0 else Suc (length (butlast kl)))"
    using lens assms(2) nodes by auto
  ultimately show ?thesis
    using redistributed [OF nodes(3,4), of k "butlast kl" "last kl" "k # kr" "take (length kl) cl"
        "drop (length kl) cl @ cr"] assms nodes
    by (auto simp: siblings_def wf_node_def simp del: inorder.simps)
qed

section \<open>The largest and the smallest key\<close>

lemma put_max_key_spec:
  assumes "shape t n" "1 \<le> nr_active n" "2 \<le> t"
  shows "inorder n \<noteq> [] \<and> inorder (put_max_key k n) = butlast (inorder n) @ [k] \<and>
    last (key_vals (get_max_key_pos n)) = last (inorder n) \<and>
    shape t (put_max_key k n) \<and> level (put_max_key k n) = level n \<and>
    nr_active (put_max_key k n) = nr_active n"
  using assms
proof (induction k n rule: put_max_key.induct)
  case (1 k ty lv ks cs)
  show ?case
  proof (cases ty)
    case FSM_LEAF_NODE
    with 1 obtain ks' x where "ks = ks' @ [x]" by (cases ks rule: rev_cases) auto
    with FSM_LEAF_NODE 1 show ?thesis
      by (auto simp: put_max_key.simps get_max_key_pos.simps shape_leaf)
  next
    case FSM_INDEX_NODE
    let ?c = "cs ! length ks"
    have len: "length cs = Suc (length ks)" and wf: "wf_node t ?c"
      using "1.prems"(1) FSM_INDEX_NODE by (auto simp: shape_index)
    from wf "1.prems"(3) have act: "1 \<le> nr_active ?c" unfolding wf_node_def by linarith
    from len wf have IH: "inorder ?c \<noteq> []" "inorder (put_max_key k ?c) = butlast (inorder ?c) @ [k]"
      "last (key_vals (get_max_key_pos ?c)) = last (inorder ?c)" "shape t (put_max_key k ?c)"
      "level (put_max_key k ?c) = level ?c" "nr_active (put_max_key k ?c) = nr_active ?c"
      using "1.IH" FSM_INDEX_NODE "1.prems"(3) act by (simp_all add: wf_node_def)
    then have "wf_node t (put_max_key k ?c)" using wf by (simp add: wf_node_def)
    then have "shape t (Node FSM_INDEX_NODE lv ks (cs[length ks := put_max_key k ?c]))"
      using "1.prems"(1) FSM_INDEX_NODE len IH(5) by (intro shape_update) auto
    with IH len FSM_INDEX_NODE show ?thesis
      using inorder_split [of "length ks" ks cs ty lv]
        inorder_update [of "length ks" ks cs ty lv "put_max_key k ?c"]
      by (simp add: put_max_key.simps get_max_key_pos.simps after_end butlast_append
          del: inorder.simps)
  qed
qed

lemma put_min_key_spec:
  assumes "shape t n" "1 \<le> nr_active n" "2 \<le> t"
  shows "inorder n \<noteq> [] \<and> inorder (put_min_key k n) = k # tl (inorder n) \<and>
    hd (key_vals (get_min_key_pos n)) = hd (inorder n) \<and>
    shape t (put_min_key k n) \<and> level (put_min_key k n) = level n \<and>
    nr_active (put_min_key k n) = nr_active n"
  using assms
proof (induction k n rule: put_min_key.induct)
  case (1 k ty lv ks cs)
  show ?case
  proof (cases ty)
    case FSM_LEAF_NODE
    with 1 obtain ks' x where "ks = x # ks'" by (cases ks) auto
    with FSM_LEAF_NODE 1 show ?thesis
      by (auto simp: put_min_key.simps get_min_key_pos.simps shape_leaf)
  next
    case FSM_INDEX_NODE
    let ?c = "cs ! 0"
    have len: "length cs = Suc (length ks)" and wf: "wf_node t ?c" and ne: "cs \<noteq> []"
      using "1.prems"(1) FSM_INDEX_NODE by (auto simp: shape_index)
    from wf "1.prems"(3) have act: "1 \<le> nr_active ?c" unfolding wf_node_def by linarith
    from len wf have IH: "inorder ?c \<noteq> []" "inorder (put_min_key k ?c) = k # tl (inorder ?c)"
      "hd (key_vals (get_min_key_pos ?c)) = hd (inorder ?c)" "shape t (put_min_key k ?c)"
      "level (put_min_key k ?c) = level ?c" "nr_active (put_min_key k ?c) = nr_active ?c"
      using "1.IH" FSM_INDEX_NODE "1.prems"(3) act ne by (simp_all add: wf_node_def)
    then have "wf_node t (put_min_key k ?c)" using wf by (simp add: wf_node_def)
    then have "shape t (Node FSM_INDEX_NODE lv ks (cs[0 := put_min_key k ?c]))"
      using "1.prems"(1) FSM_INDEX_NODE ne IH(5) by (intro shape_update) auto
    with IH len FSM_INDEX_NODE ne show ?thesis
      using inorder_split [of 0 ks cs ty lv] inorder_update [of 0 ks cs ty lv "put_min_key k ?c"]
      by (simp add: put_min_key.simps get_min_key_pos.simps del: inorder.simps)
  qed
qed

section \<open>A parent and two of its neighbouring children\<close>

text \<open>
  The parent around the children \<open>i\<close> and \<open>i + 1\<close>: its in-order keys and its shape
  when the two and the key between them are replaced, by a pair or by one node.
\<close>

lemma parent_of_pair:
  assumes "shape t (Node FSM_INDEX_NODE lv ks cs)" "i < length ks"
  obtains A B where
    "inorder (Node FSM_INDEX_NODE lv ks cs) = A @ (inorder (cs ! i) @ ks ! i # inorder (cs ! Suc i)) @ B"
    "\<And>l k r. inorder (Node FSM_INDEX_NODE lv (ks[i := k]) (cs[i := l, Suc i := r])) =
       A @ (inorder l @ k # inorder r) @ B"
    "\<And>n. inorder (Node FSM_INDEX_NODE lv (remove_at i ks) (remove_at (Suc i) (cs[i := n]))) =
       A @ inorder n @ B"
proof -
  obtain k1 k2 c1 c2 where *: "ks = k1 @ ks ! i # k2" "cs = c1 @ cs ! i # cs ! Suc i # c2"
    "length k1 = i" "length c1 = i"
    using pair_split [OF assms(2)] assms(1) by (metis shape_index)
  let ?A = "weave_left (map inorder c1) k1" and ?B = "weave_right k2 (map inorder c2)"
  have len: "length c1 = length k1" using * by simp
  have "inorder (Node FSM_INDEX_NODE lv ks cs) = ?A @ (inorder (cs ! i) @ ks ! i # inorder (cs ! Suc i)) @ ?B"
    using inorder_pair [OF len] * by metis
  moreover have "ks[i := k] = k1 @ k # k2" "cs[i := l, Suc i := r] = c1 @ l # r # c2" for k l r
    using * list_update_append_mid [of "c1 @ [l]" "Suc i"] by (metis list_update_append_mid)
      (metis * append.assoc append_Cons append_Nil length_append_singleton list_update_append_mid)
  then have "inorder (Node FSM_INDEX_NODE lv (ks[i := k]) (cs[i := l, Suc i := r])) =
      ?A @ (inorder l @ k # inorder r) @ ?B" for l k r
    using inorder_pair [OF len] by metis
  moreover have "remove_at i ks = k1 @ k2" "remove_at (Suc i) (cs[i := n]) = c1 @ n # c2" for n
    using * by (metis remove_at_append)
      (metis * append.assoc append_Cons append_Nil length_append_singleton list_update_append_mid
        remove_at_append)
  then have "inorder (Node FSM_INDEX_NODE lv (remove_at i ks) (remove_at (Suc i) (cs[i := n]))) =
       ?A @ inorder n @ ?B" for n
    using inorder_single [OF len] by metis
  ultimately show ?thesis using that by blast
qed

lemma children_siblings:
  assumes "shape t (Node FSM_INDEX_NODE lv ks cs)" "i < length ks"
  shows "siblings t (cs ! i) (cs ! Suc i)" "Suc (level (cs ! i)) = lv" "Suc i < length cs"
proof -
  have "length cs = Suc (length ks)" "\<forall>c\<in>set cs. Suc (level c) = lv \<and> wf_node t c"
    using assms(1) by (simp_all add: shape_index)
  moreover from this assms(2) have "cs ! i \<in> set cs" "cs ! Suc i \<in> set cs" by simp_all
  ultimately show "siblings t (cs ! i) (cs ! Suc i)" "Suc (level (cs ! i)) = lv" "Suc i < length cs"
    unfolding siblings_def using assms(2) by (metis Suc_inject, blast, simp)
qed

lemma shape_pair:
  assumes "shape t (Node FSM_INDEX_NODE lv ks cs)" "i < length ks"
    and "siblings t l r" "level l = level (cs ! i)"
  shows "shape t (Node FSM_INDEX_NODE lv (ks[i := k]) (cs[i := l, Suc i := r]))"
proof -
  note ch = children_siblings [OF assms(1,2)]
  have "shape t (Node FSM_INDEX_NODE lv ks (cs[i := l]))"
    using assms ch by (intro shape_update) (auto simp: siblings_def)
  then have "shape t (Node FSM_INDEX_NODE lv ks (cs[i := l, Suc i := r]))"
    using assms(3,4) ch by (intro shape_update [of t lv ks "cs[i := l]"]) (auto simp: siblings_def)
  then show ?thesis by (simp add: shape_index)
qed

lemma shape_joined:
  assumes "shape t (Node FSM_INDEX_NODE lv ks cs)" "i < length ks"
    and "wf_node t n" "level n = level (cs ! i)"
  shows "shape t (Node FSM_INDEX_NODE lv (remove_at i ks) (remove_at (Suc i) (cs[i := n])))"
proof -
  note ch = children_siblings [OF assms(1,2)]
  have "shape t (Node FSM_INDEX_NODE lv ks (cs[i := n]))"
    using assms ch by (intro shape_update) auto
  then show ?thesis
    using set_remove_at_subset [of "Suc i" "cs[i := n]"] assms(2) ch(3) unfolding shape_index
    by auto
qed

section \<open>What a deletion does\<close>

definition delete_result ::
  "fsm_btree_key \<Rightarrow> mem \<Rightarrow> fsm_btree_key list \<Rightarrow> ret \<Rightarrow> mem \<Rightarrow> fsm_btree_key list \<Rightarrow> bool" where
  "delete_result key m xs r m' xs' \<longleftrightarrow>
     (r = Success \<and> xs' = remove1 key xs \<or>
      r = Fail ENOMEM \<and> m \<noteq> [] \<and> mset xs' = mset xs) \<and> (m = [] \<longrightarrow> m' = [])"

definition deleted ::
  "nat \<Rightarrow> bool \<Rightarrow> fsm_btree_key \<Rightarrow> mem \<Rightarrow> fsm_node \<Rightarrow> ret \<times> mem \<times> fsm_node option \<Rightarrow> bool" where
  "deleted t is_root key m n = (\<lambda>(r, m', c).
     (case c of
        None \<Rightarrow> is_root \<and> delete_result key m (inorder n) r m' [] \<and> r = Success
      | Some n' \<Rightarrow> delete_result key m (inorder n) r m' (inorder n') \<and>
          (if is_root then wf_root t n' else wf_node t n' \<and> level n' = level n)))"

lemma delete_result_context:
  assumes "delete_result key m ys r m' ys'"
    and "\<forall>y\<in>set as. y < key" "\<forall>y\<in>set bs. key < y"
  shows "delete_result key m (as @ ys @ bs) r m' (as @ ys' @ bs)"
  using assms by (auto simp: delete_result_def remove1_middle)

text \<open>The exchange of a key with its predecessor or successor below it.\<close>

lemma delete_result_pred:
  assumes "delete_result key m (butlast xs @ [key]) r m' ys" "xs \<noteq> []"
    and "sorted_less (as @ (xs @ key # zs) @ bs)"
  shows "delete_result key m (as @ (xs @ key # zs) @ bs) r m' (as @ (ys @ last xs # zs) @ bs)"
proof -
  obtain us u where xs: "xs = us @ [u]" using assms(2) by (cases xs rule: rev_cases) auto
  from assms(3) xs have "key \<notin> set as" "key \<notin> set us" "key \<noteq> u" by (auto simp: sorted_wrt_append)
  with assms(1) xs show ?thesis by (auto simp: delete_result_def remove1_append)
qed

lemma delete_result_succ:
  assumes "delete_result key m (key # tl zs) r m' ys" "zs \<noteq> []"
    and "sorted_less (as @ (xs @ key # zs) @ bs)"
  shows "delete_result key m (as @ (xs @ key # zs) @ bs) r m' (as @ (xs @ hd zs # ys) @ bs)"
proof -
  obtain us u where zs: "zs = u # us" using assms(2) by (cases zs) auto
  from assms(3) zs have "key \<notin> set as" "key \<notin> set xs" by (auto simp: sorted_wrt_append)
  with assms(1) zs show ?thesis by (auto simp: delete_result_def remove1_append)
qed

section \<open>One step of the loop\<close>

lemma scan_ge_spec:
  assumes "sorted_less ks"
  shows "(\<forall>j < scan_ge key ks. ks ! j < key) \<and>
    (\<forall>j. scan_ge key ks \<le> j \<longrightarrow> j < length ks \<longrightarrow> key \<le> ks ! j)"
  using assms
proof (induction ks)
  case (Cons k ks)
  show ?case
  proof (cases "k < key")
    case True
    with Cons show ?thesis by (auto simp: nth_Cons split: nat.splits)
  next
    case False
    with Cons.prems have "\<forall>x\<in>set ks. key \<le> x" by (auto simp: not_less intro: order.trans less_imp_le)
    with False show ?thesis by (auto simp: nth_Cons split: nat.splits)
  qed
qed simp

lemma scan_ge_splits:
  assumes "sorted_less ks" "\<not> (scan_ge key ks < length ks \<and> ks ! scan_ge key ks = key)"
  shows "splits_at key ks (scan_ge key ks)"
proof -
  have "key < ks ! j" if j: "scan_ge key ks \<le> j" "j < length ks" for j
  proof -
    have "key \<le> ks ! j" "key \<le> ks ! scan_ge key ks" using scan_ge_spec [OF assms(1)] j by auto
    moreover have "ks ! scan_ge key ks \<noteq> key" using assms(2) j by auto
    moreover have "scan_ge key ks \<noteq> j \<Longrightarrow> ks ! scan_ge key ks < ks ! j"
      using sorted_wrt_nth_less [OF assms(1)] j by auto
    ultimately show ?thesis by (cases "scan_ge key ks = j") auto
  qed
  with scan_ge_spec [OF assms(1), of key] scan_ge_le [of key ks] show ?thesis by (auto simp: splits_at_def)
qed

lemma splits_at_remove:
  assumes "sorted_less ks" "idx < length ks"
    and "splits_at key ks i \<and> (idx = i \<or> Suc idx = i) \<or> ks ! idx = key"
  shows "splits_at key (remove_at idx ks) idx"
proof -
  have nth: "remove_at idx ks ! j = (if j < idx then ks ! j else ks ! Suc j)" if "Suc j < length ks" for j
    using assms(2) that by (auto simp: remove_at_def nth_append)
  have "ks ! j < key" if "j < idx" for j
    using assms that sorted_wrt_nth_less [OF assms(1), of j idx] by (auto simp: splits_at_def)
  moreover have "key < ks ! j" if "idx < j" "j < length ks" for j
    using assms that sorted_wrt_nth_less [OF assms(1), of idx j] by (auto simp: splits_at_def)
  ultimately show ?thesis
    using assms(2) by (auto simp: splits_at_def nth)
qed

definition root_or_node :: "nat \<Rightarrow> bool \<Rightarrow> nat \<Rightarrow> bool" where
  "root_or_node t is_root n \<longleftrightarrow> (if is_root then 1 \<le> n else t - 1 \<le> n) \<and> n \<le> 2 * t - 1"

lemma sorted_child:
  assumes "sorted_less (inorder (Node ty lv ks cs))" "length cs = Suc (length ks)" "i \<le> length ks"
  shows "sorted_less (inorder (cs ! i))" "set (inorder (cs ! i)) \<subseteq> set (inorder (Node ty lv ks cs))"
  using assms(1) unfolding inorder_split [OF assms(3,2)] by (auto simp: sorted_wrt_append)

lemma deleted_node:
  assumes "shape t (Node FSM_INDEX_NODE lv ks cs)" "root_or_node t is_root (length ks)" "level n = lv"
    and "delete_result key m (inorder n) r m' (inorder (Node FSM_INDEX_NODE lv ks cs))"
  shows "deleted t is_root key m n (r, m', Some (Node FSM_INDEX_NODE lv ks cs))"
  using assms by (cases is_root)
    (simp_all add: deleted_def wf_root_def wf_node_def root_or_node_def del: inorder.simps)

text \<open>
  The loop continues below child \<open>i\<close> of a node that has the same in-order keys as the
  one it started at.
\<close>

lemma deleted_below:
  assumes "shape t (Node FSM_INDEX_NODE lv ks cs)" "sorted_less (inorder (Node FSM_INDEX_NODE lv ks cs))"
    and "splits_at key ks i" "deleted t False key m1 (cs ! i) (r, m', c)"
    and "inorder n = inorder (Node FSM_INDEX_NODE lv ks cs)" "level n = lv"
    and "root_or_node t is_root (length ks)" "m = [] \<longrightarrow> m1 = []"
  shows "deleted t is_root key m n (r, m', Some (Node FSM_INDEX_NODE lv ks (put_child cs i c)))"
proof -
  have len: "length cs = Suc (length ks)" using assms(1) by (simp add: shape_index)
  have i: "i \<le> length ks" "0 < i \<Longrightarrow> ks ! (i - 1) < key" "i < length ks \<Longrightarrow> key < ks ! i"
    using assms(3) by (auto simp: splits_at_def)
  obtain c' where c: "c = Some c'" and res: "delete_result key m1 (inorder (cs ! i)) r m' (inorder c')"
    and wf: "wf_node t c'" "level c' = level (cs ! i)"
    using assms(4) by (auto simp: deleted_def split: option.splits)
  have sh: "shape t (Node FSM_INDEX_NODE lv ks (cs[i := c']))"
    using assms(1) wf i(1) len by (intro shape_update) auto
  have so: "sorted_less (before i ks (map inorder cs) @ inorder (cs ! i) @ after i ks (map inorder cs))"
    using assms(2) inorder_split [OF i(1) len] by metis
  have "\<forall>y\<in>set (before i ks (map inorder cs)). y < key" "\<forall>y\<in>set (after i ks (map inorder cs)). key < y"
    using context_bounds [OF so i(1) _ i(2,3)] len by auto
  from delete_result_context [OF res this] assms(5,8)
  have "delete_result key m (inorder n) r m' (inorder (Node FSM_INDEX_NODE lv ks (cs[i := c'])))"
    unfolding inorder_split [OF i(1) len, of FSM_INDEX_NODE lv] inorder_update [OF i(1) len]
    by (auto simp: delete_result_def)
  from deleted_node [OF sh assms(7,6) this] c show ?thesis by (simp add: put_child_def)
qed

text \<open>The choice of the refill step, for a node of the right shape.\<close>

lemma choose_refill_cases:
  assumes "shape t (Node FSM_INDEX_NODE lv ks cs)" "i \<le> length ks" "ks \<noteq> []" "2 \<le> t"
  shows "case choose_refill t ks cs i of
      Nothing \<Rightarrow> t \<le> nr_active (cs ! i)
    | Move LEFT \<Rightarrow> i < length ks \<and> nr_active (cs ! i) = t - 1 \<and> t - 1 < nr_active (cs ! Suc i)
    | Move RIGHT \<Rightarrow> 0 < i \<and> nr_active (cs ! i) = t - 1 \<and> t - 1 < nr_active (cs ! (i - 1))
    | Merge \<Rightarrow> nr_active (cs ! i) = t - 1 \<and>
        (0 < i \<longrightarrow> nr_active (cs ! (i - 1)) = t - 1) \<and> (i < length ks \<longrightarrow> nr_active (cs ! Suc i) = t - 1)"
proof -
  have len: "length cs = Suc (length ks)" using assms(1) by (simp add: shape_index)
  have wf: "wf_node t c" if "c \<in> set cs" for c using that assms(1) unfolding shape_index by blast
  have nr: "t - 1 \<le> nr_active (cs ! j)" if "j \<le> length ks" for j
    using wf [of "cs ! j"] that len by (simp add: wf_node_def)
  have "t - 1 \<le> nr_active (cs ! (i - 1))" using nr [of "i - 1"] assms(2) by simp
  with nr [of i] nr [of "Suc i"] nr [of 1] assms(2-4) show ?thesis
    by (cases "i = length ks"; cases "i = 0") (auto simp: choose_refill_def Let_def)
qed

text \<open>The child is refilled, and the loop goes on below it.\<close>

lemma moved_left:
  assumes sh: "shape t (Node FSM_INDEX_NODE lv ks cs)" and t: "2 \<le> t"
    and so: "sorted_less (inorder (Node FSM_INDEX_NODE lv ks cs))"
    and spl: "splits_at key ks i" and i: "i < length ks"
    and nr: "nr_active (cs ! i) = t - 1" "t - 1 < nr_active (cs ! Suc i)"
    and mv: "move_key ks cs i LEFT = (ks', cs')"
  shows "shape t (Node FSM_INDEX_NODE lv ks' cs')" "length ks' = length ks"
    and "inorder (Node FSM_INDEX_NODE lv ks' cs') = inorder (Node FSM_INDEX_NODE lv ks cs)"
    and "splits_at key ks' i" "nr_active (cs' ! i) = t"
proof -
  let ?l = "cs ! i" and ?r = "cs ! Suc i"
  define l where "l = Node (node_type ?l) (level ?l) (key_vals ?l @ [ks ! i]) (children ?l @ take 1 (children ?r))"
  define r where "r = Node (node_type ?r) (level ?r) (tl (key_vals ?r)) (drop 1 (children ?r))"
  note ch = children_siblings [OF sh i]
  note bl = borrowed_left [OF ch(1) nr t l_def r_def]
  have eqs: "ks' = ks[i := hd (key_vals ?r)]" "cs' = cs[i := l, Suc i := r]"
    using mv by (simp_all add: move_key_def Let_def l_def r_def)
  obtain A B where ctx:
    "inorder (Node FSM_INDEX_NODE lv ks cs) = A @ (inorder ?l @ ks ! i # inorder ?r) @ B"
    "\<And>l k r. inorder (Node FSM_INDEX_NODE lv (ks[i := k]) (cs[i := l, Suc i := r])) =
       A @ (inorder l @ k # inorder r) @ B"
    using parent_of_pair [OF sh i] by metis
  show "inorder (Node FSM_INDEX_NODE lv ks' cs') = inorder (Node FSM_INDEX_NODE lv ks cs)"
    unfolding eqs ctx using bl by simp
  show "shape t (Node FSM_INDEX_NODE lv ks' cs')"
    unfolding eqs using bl by (intro shape_pair [OF sh i]) auto
  show "length ks' = length ks" using eqs by simp
  show "nr_active (cs' ! i) = t" using eqs bl ch(3) by simp
  have "hd (key_vals ?r) \<in> set (inorder ?r)"
    using inorder_keys [of t ?r] ch(1) nr by (cases "key_vals ?r") (auto simp: siblings_def wf_node_def)
  then have "ks ! i < hd (key_vals ?r)" using so unfolding ctx(1) by (auto simp: sorted_wrt_append)
  moreover have "key < ks ! i" using spl i by (simp add: splits_at_def)
  ultimately show "splits_at key ks' i"
    using spl unfolding eqs by (auto simp: splits_at_def nth_list_update)
qed

lemma moved_right:
  assumes sh: "shape t (Node FSM_INDEX_NODE lv ks cs)" and t: "2 \<le> t"
    and so: "sorted_less (inorder (Node FSM_INDEX_NODE lv ks cs))"
    and spl: "splits_at key ks (Suc i)"
    and nr: "t - 1 < nr_active (cs ! i)" "nr_active (cs ! Suc i) = t - 1"
    and mv: "move_key ks cs (Suc i) RIGHT = (ks', cs')"
  shows "shape t (Node FSM_INDEX_NODE lv ks' cs')" "length ks' = length ks"
    and "inorder (Node FSM_INDEX_NODE lv ks' cs') = inorder (Node FSM_INDEX_NODE lv ks cs)"
    and "splits_at key ks' (Suc i)" "nr_active (cs' ! Suc i) = t"
proof -
  let ?l = "cs ! i" and ?r = "cs ! Suc i"
  define l where "l = Node (node_type ?l) (level ?l) (butlast (key_vals ?l)) (take (nr_active ?l) (children ?l))"
  define r where "r = Node (node_type ?r) (level ?r) (ks ! i # key_vals ?r)
    (drop (nr_active ?l) (children ?l) @ children ?r)"
  have i: "i < length ks" using spl by (simp add: splits_at_def)
  note ch = children_siblings [OF sh i]
  note br = borrowed_right [OF ch(1) nr t l_def r_def]
  have eqs: "ks' = ks[i := last (key_vals ?l)]" "cs' = cs[i := l, Suc i := r]"
    using mv by (simp_all add: move_key_def Let_def l_def r_def)
  obtain A B where ctx:
    "inorder (Node FSM_INDEX_NODE lv ks cs) = A @ (inorder ?l @ ks ! i # inorder ?r) @ B"
    "\<And>l k r. inorder (Node FSM_INDEX_NODE lv (ks[i := k]) (cs[i := l, Suc i := r])) =
       A @ (inorder l @ k # inorder r) @ B"
    using parent_of_pair [OF sh i] by metis
  show "inorder (Node FSM_INDEX_NODE lv ks' cs') = inorder (Node FSM_INDEX_NODE lv ks cs)"
    unfolding eqs ctx using br by simp
  show "shape t (Node FSM_INDEX_NODE lv ks' cs')"
    unfolding eqs using br by (intro shape_pair [OF sh i]) (auto simp: siblings_def l_def)
  show "length ks' = length ks" using eqs by simp
  show "nr_active (cs' ! Suc i) = t" using eqs br ch(3) by simp
  have "last (key_vals ?l) \<in> set (inorder ?l)"
    using inorder_keys [of t ?l] ch(1) nr by (cases "key_vals ?l" rule: rev_cases) (auto simp: siblings_def wf_node_def)
  then have "last (key_vals ?l) < ks ! i" using so unfolding ctx(1) by (auto simp: sorted_wrt_append)
  moreover have "ks ! i < key" using spl i by (simp add: splits_at_def)
  ultimately show "splits_at key ks' (Suc i)"
    using spl unfolding eqs by (auto simp: splits_at_def nth_list_update)
qed

text \<open>Two minimal children joined around the key between them.\<close>

lemma joined:
  assumes sh: "shape t (Node FSM_INDEX_NODE lv ks cs)" and t: "2 \<le> t" and i: "i < length ks"
    and nr: "nr_active (cs ! i) = t - 1" "nr_active (cs ! Suc i) = t - 1"
    and n: "n = Node (node_type (cs ! i)) (level (cs ! i)) (key_vals (cs ! i) @ ks ! i # key_vals (cs ! Suc i))
      (children (cs ! i) @ children (cs ! Suc i))"
    and eqs: "ks' = remove_at i ks" "cs' = remove_at (Suc i) (cs[i := n])"
  shows "shape t (Node FSM_INDEX_NODE lv ks' cs')" "length ks' = length ks - 1"
    and "inorder (Node FSM_INDEX_NODE lv ks' cs') = inorder (Node FSM_INDEX_NODE lv ks cs)"
    and "wf_node t n" "nr_active n = 2 * t - 1" "cs' ! i = n"
    and "ks' = [] \<Longrightarrow> inorder n = inorder (Node FSM_INDEX_NODE lv ks cs)"
proof -
  note ch = children_siblings [OF sh i]
  note mg = merged [OF ch(1) nr t n]
  obtain A B where ctx:
    "inorder (Node FSM_INDEX_NODE lv ks cs) = A @ (inorder (cs ! i) @ ks ! i # inorder (cs ! Suc i)) @ B"
    "\<And>n. inorder (Node FSM_INDEX_NODE lv (remove_at i ks) (remove_at (Suc i) (cs[i := n]))) =
       A @ inorder n @ B"
    using parent_of_pair [OF sh i] by metis
  show io: "inorder (Node FSM_INDEX_NODE lv ks' cs') = inorder (Node FSM_INDEX_NODE lv ks cs)"
    unfolding eqs ctx using mg by simp
  show sh': "shape t (Node FSM_INDEX_NODE lv ks' cs')"
    unfolding eqs using mg by (intro shape_joined [OF sh i]) auto
  show "length ks' = length ks - 1" using eqs i by simp
  show "wf_node t n" "nr_active n = 2 * t - 1" using mg by simp_all
  show nth: "cs' ! i = n" using ch(3) eqs by (simp add: remove_at_def nth_append)
  show "inorder n = inorder (Node FSM_INDEX_NODE lv ks cs)" if "ks' = []"
  proof -
    have "length cs' = 1" using sh' that by (simp add: shape_index)
    moreover have "i = 0" using that eqs i by (cases ks) (auto simp: remove_at_def)
    ultimately have "cs' = [n]" using nth by (cases cs') auto
    with io that show ?thesis by simp
  qed
qed

section \<open>The loop of deletion\<close>

text \<open>A node at which the loop can start: below the root it has a key to spare.\<close>

definition ready :: "nat \<Rightarrow> bool \<Rightarrow> fsm_node \<Rightarrow> bool" where
  "ready t is_root n \<longleftrightarrow>
     shape t n \<and> (if is_root then 1 \<le> nr_active n else t \<le> nr_active n) \<and> nr_active n \<le> 2 * t - 1"

lemma ready_bounds:
  assumes "ready t is_root n" "2 \<le> t"
  shows "root_or_node t is_root (nr_active n)"
    and "\<not> (is_root \<and> k = 0) \<Longrightarrow> Suc k = nr_active n \<Longrightarrow> root_or_node t is_root k"
  using assms by (auto simp: ready_def root_or_node_def split: if_splits)

lemma merge_alloc:
  assumes "allocate_btree_node m = (x, m')"
  shows "x = None \<Longrightarrow> m \<noteq> []" "x \<noteq> None \<Longrightarrow> m = [] \<longrightarrow> m' = []"
  using alloc_cases [OF assms] by auto

lemma deleted_unchanged:
  assumes "ready t is_root n" "2 \<le> t" "r = Success \<and> key \<notin> set (inorder n) \<and> m' = m \<or> r = Fail ENOMEM \<and> m \<noteq> []"
  shows "deleted t is_root key m n (r, m', Some n)"
  using assms by (cases is_root)
    (auto simp: deleted_def ready_def delete_result_def remove1_idem wf_root_def wf_node_def)

lemma deleted_leaf:
  assumes "ready t is_root (Node FSM_LEAF_NODE lv ks cs)" "2 \<le> t"
    and so: "sorted_less (inorder (Node FSM_LEAF_NODE lv ks cs))"
  shows "deleted t is_root key m (Node FSM_LEAF_NODE lv ks cs)
    (fsm_del_loop t is_root key m (Node FSM_LEAF_NODE lv ks cs))"
proof -
  let ?i = "scan_ge key ks"
  have lv: "lv = 0" "cs = []" and ne: "ks \<noteq> []" and len: "is_root \<or> t \<le> length ks" "length ks \<le> 2 * t - 1"
    using assms by (auto simp: ready_def shape_leaf split: if_splits)
  have so': "sorted_less ks" using so lv by simp
  show ?thesis
  proof (cases "?i < length ks \<and> ks ! ?i = key")
    case False
    then have "key \<notin> set ks" using scan_ge_splits [OF so'] splits_at_notin by blast
    with False ne lv deleted_unchanged [OF assms(1,2), of Success key m m] show ?thesis
      by (auto simp: fsm_del_loop.simps)
  next
    case True
    then obtain l r where ks: "ks = l @ key # r" "length l = ?i" using split_at_index by metis
    then have rm: "remove_at ?i ks = remove1 key ks" "remove_at ?i ks = l @ r"
      using sorted_less_distinct [OF so'] by (auto simp: remove1_append)
    have "t - 1 < length ks \<or> is_root" using len assms(2) by auto
    with True ne have run: "fsm_del_loop t is_root key m (Node FSM_LEAF_NODE lv ks cs) =
        (Success, m, if l @ r = [] then None else Some (Node FSM_LEAF_NODE lv (l @ r) cs))"
      using rm(2) by (auto simp: fsm_del_loop.simps remove_key_from_leaf_def Let_def)
    have lr: "remove1 key ks = l @ r" using rm by simp
    have lens: "length ks = Suc (length (l @ r))" using ks by simp
    then have "\<not> is_root \<Longrightarrow> l @ r \<noteq> [] \<and> t - 1 \<le> length (l @ r)" using len(1) assms(2) by auto
    moreover have "is_root \<Longrightarrow> l @ r \<noteq> [] \<Longrightarrow> 1 \<le> length (l @ r)" by (cases "l @ r") auto
    ultimately show ?thesis
      unfolding run using lr lens len(2) lv
      by (cases is_root) (auto simp: deleted_def delete_result_def wf_root_def wf_node_def shape_leaf)
  qed
qed

text \<open>The key is in an index node: it is exchanged with a neighbour below, or pushed down by a merge.\<close>

lemma deleted_pred:
  assumes sh: "shape t (Node FSM_INDEX_NODE lv ks cs)" and t: "2 \<le> t"
    and so: "sorted_less (inorder (Node FSM_INDEX_NODE lv ks cs))"
    and i: "i < length ks" "ks ! i = key" and nr: "t - 1 < nr_active (cs ! i)"
    and rn: "root_or_node t is_root (length ks)"
    and IH: "\<And>c. \<lbrakk>ht c < ht (Node FSM_INDEX_NODE lv ks cs); ready t False c;
      sorted_less (inorder c)\<rbrakk> \<Longrightarrow> deleted t False key m c (fsm_del_loop t False key m c)"
    and run: "fsm_del_loop t False key m (put_max_key key (cs ! i)) = (r, m', c)"
  shows "deleted t is_root key m (Node FSM_INDEX_NODE lv ks cs)
    (r, m', Some (Node FSM_INDEX_NODE lv (ks[i := last (key_vals (get_max_key_pos (cs ! i)))])
        (put_child (cs[i := put_max_key key (cs ! i)]) i c)))"
proof -
  note ch = children_siblings [OF sh i(1)]
  have wf: "wf_node t (cs ! i)" "wf_node t (cs ! Suc i)" "level (cs ! Suc i) = level (cs ! i)"
    using ch(1) by (auto simp: siblings_def)
  define xs where "xs = inorder (cs ! i)"
  note pm = put_max_key_spec [of t "cs ! i" key, folded xs_def]
  have pm': "xs \<noteq> []" "inorder (put_max_key key (cs ! i)) = butlast xs @ [key]"
    "last (key_vals (get_max_key_pos (cs ! i))) = last xs" "shape t (put_max_key key (cs ! i))"
    "level (put_max_key key (cs ! i)) = level (cs ! i)"
    "nr_active (put_max_key key (cs ! i)) = nr_active (cs ! i)"
    using pm wf(1) t nr by (auto simp: wf_node_def)
  obtain A B where ctx:
    "inorder (Node FSM_INDEX_NODE lv ks cs) = A @ (xs @ key # inorder (cs ! Suc i)) @ B"
    "\<And>l k r. inorder (Node FSM_INDEX_NODE lv (ks[i := k]) (cs[i := l, Suc i := r])) =
       A @ (inorder l @ k # inorder r) @ B"
    using parent_of_pair [OF sh i(1)] i(2) xs_def by metis
  have "sorted_less (butlast xs @ [key])"
    using so pm'(1) unfolding ctx(1) by (cases xs rule: rev_cases) (auto simp: sorted_wrt_append)
  moreover have "ready t False (put_max_key key (cs ! i))"
    using pm'(4,6) wf(1) nr by (simp add: ready_def wf_node_def)
  moreover have "ht (put_max_key key (cs ! i)) < ht (Node FSM_INDEX_NODE lv ks cs)"
    using ht_put_max [of key "cs ! i"] ht_nth_child [of i cs FSM_INDEX_NODE lv ks] ch(3) by simp
  ultimately have "deleted t False key m (put_max_key key (cs ! i)) (r, m', c)"
    using IH pm'(2) run by metis
  then obtain d where c: "c = Some d" "delete_result key m (butlast xs @ [key]) r m' (inorder d)"
    "wf_node t d" "level d = level (cs ! i)"
    using pm'(2,5) by (auto simp: deleted_def split: option.splits)
  have eq: "put_child (cs[i := put_max_key key (cs ! i)]) i c = cs[i := d, Suc i := cs ! Suc i]"
    using c(1) nth_list_update_neq [of i "Suc i" cs d] list_update_id [of "cs[i := d]" "Suc i"]
    by (simp add: put_child_def)
  have "siblings t d (cs ! Suc i)" using c(3,4) wf by (simp add: siblings_def)
  note sh' = shape_pair [OF sh i(1) this c(4), of "last xs"]
  have "root_or_node t is_root (length (ks[i := last xs]))" using rn by simp
  from deleted_node [OF sh' this, of "Node FSM_INDEX_NODE lv ks cs", unfolded ctx]
    delete_result_pred [OF c(2) pm'(1) so [unfolded ctx(1)]]
  show ?thesis unfolding eq pm'(3) by simp
qed

lemma deleted_succ:
  assumes sh: "shape t (Node FSM_INDEX_NODE lv ks cs)" and t: "2 \<le> t"
    and so: "sorted_less (inorder (Node FSM_INDEX_NODE lv ks cs))"
    and i: "i < length ks" "ks ! i = key" and nr: "t - 1 < nr_active (cs ! Suc i)"
    and rn: "root_or_node t is_root (length ks)"
    and IH: "\<And>c. \<lbrakk>ht c < ht (Node FSM_INDEX_NODE lv ks cs); ready t False c;
      sorted_less (inorder c)\<rbrakk> \<Longrightarrow> deleted t False key m c (fsm_del_loop t False key m c)"
    and run: "fsm_del_loop t False key m (put_min_key key (cs ! Suc i)) = (r, m', c)"
  shows "deleted t is_root key m (Node FSM_INDEX_NODE lv ks cs)
    (r, m', Some (Node FSM_INDEX_NODE lv (ks[i := hd (key_vals (get_min_key_pos (cs ! Suc i)))])
        (put_child (cs[Suc i := put_min_key key (cs ! Suc i)]) (Suc i) c)))"
proof -
  note ch = children_siblings [OF sh i(1)]
  have wf: "wf_node t (cs ! i)" "wf_node t (cs ! Suc i)" "level (cs ! Suc i) = level (cs ! i)"
    using ch(1) by (auto simp: siblings_def)
  define xs where "xs = inorder (cs ! Suc i)"
  note pm = put_min_key_spec [of t "cs ! Suc i" key, folded xs_def]
  have pm': "xs \<noteq> []" "inorder (put_min_key key (cs ! Suc i)) = key # tl xs"
    "hd (key_vals (get_min_key_pos (cs ! Suc i))) = hd xs" "shape t (put_min_key key (cs ! Suc i))"
    "level (put_min_key key (cs ! Suc i)) = level (cs ! Suc i)"
    "nr_active (put_min_key key (cs ! Suc i)) = nr_active (cs ! Suc i)"
    using pm wf(2) t nr by (auto simp: wf_node_def)
  obtain A B where ctx:
    "inorder (Node FSM_INDEX_NODE lv ks cs) = A @ (inorder (cs ! i) @ key # xs) @ B"
    "\<And>l k r. inorder (Node FSM_INDEX_NODE lv (ks[i := k]) (cs[i := l, Suc i := r])) =
       A @ (inorder l @ k # inorder r) @ B"
    using parent_of_pair [OF sh i(1)] i(2) xs_def by metis
  have "sorted_less (key # tl xs)"
    using so pm'(1) unfolding ctx(1) by (cases xs) (auto simp: sorted_wrt_append)
  moreover have "ready t False (put_min_key key (cs ! Suc i))"
    using pm'(4,6) wf(2) nr by (simp add: ready_def wf_node_def)
  moreover have "ht (put_min_key key (cs ! Suc i)) < ht (Node FSM_INDEX_NODE lv ks cs)"
    using ht_put_min [of key "cs ! Suc i"] ht_nth_child [of "Suc i" cs FSM_INDEX_NODE lv ks] ch(3) by simp
  ultimately have "deleted t False key m (put_min_key key (cs ! Suc i)) (r, m', c)"
    using IH pm'(2) run by metis
  then obtain d where c: "c = Some d" "delete_result key m (key # tl xs) r m' (inorder d)"
    "wf_node t d" "level d = level (cs ! i)"
    using pm'(2,5) wf(3) by (auto simp: deleted_def split: option.splits)
  have eq: "put_child (cs[Suc i := put_min_key key (cs ! Suc i)]) (Suc i) c = cs[i := cs ! i, Suc i := d]"
    using c(1) by (simp add: put_child_def)
  have "siblings t (cs ! i) d" using c(3,4) wf by (simp add: siblings_def)
  note sh' = shape_pair [OF sh i(1) this refl, of "hd xs"]
  have "root_or_node t is_root (length (ks[i := hd xs]))" using rn by simp
  from deleted_node [OF sh' this, of "Node FSM_INDEX_NODE lv ks cs", unfolded ctx]
    delete_result_succ [OF c(2) pm'(1) so [unfolded ctx(1)]]
  show ?thesis unfolding eq pm'(3) by simp
qed

text \<open>Two minimal children are merged, and the loop goes on in the merged node.\<close>

lemma deleted_joined:
  assumes sh: "shape t (Node FSM_INDEX_NODE lv ks cs)" and t: "2 \<le> t" and i: "i < length ks"
    and so: "sorted_less (inorder (Node FSM_INDEX_NODE lv ks cs))"
    and nr: "nr_active (cs ! i) = t - 1" "nr_active (cs ! Suc i) = t - 1"
    and n: "n = Node (node_type (cs ! i)) (level (cs ! i)) (key_vals (cs ! i) @ ks ! i # key_vals (cs ! Suc i))
      (children (cs ! i) @ children (cs ! Suc i))"
    and eqs: "ks' = remove_at i ks" "cs' = remove_at (Suc i) (cs[i := n])"
    and spl: "splits_at key ks' i" and rd: "ready t is_root (Node FSM_INDEX_NODE lv ks cs)"
    and m: "m = [] \<longrightarrow> m1 = []" and ht: "ht n < ht (Node FSM_INDEX_NODE lv ks cs)"
    and IH: "\<And>is_root c. \<lbrakk>ht c < ht (Node FSM_INDEX_NODE lv ks cs); ready t is_root c;
      sorted_less (inorder c)\<rbrakk> \<Longrightarrow> deleted t is_root key m1 c (fsm_del_loop t is_root key m1 c)"
  shows "deleted t is_root key m (Node FSM_INDEX_NODE lv ks cs)
    (if ks' = [] \<and> is_root then fsm_del_loop t True key m1 n
     else case fsm_del_loop t False key m1 n of (r, m', c) \<Rightarrow>
       (r, m', Some (Node FSM_INDEX_NODE lv ks' (put_child cs' i c))))"
proof -
  note jn = joined [OF sh t i nr n eqs]
  have rdn: "ready t b n" for b using jn(4,5) t by (auto simp: ready_def wf_node_def)
  have len': "length cs' = Suc (length ks')" using jn(1) by (simp add: shape_index)
  have il: "i \<le> length ks'" using spl by (simp add: splits_at_def)
  have son: "sorted_less (inorder n)"
    using sorted_child(1) [OF so [folded jn(3)] len' il] jn(6) by simp
  note del = IH [OF ht rdn son]
  show ?thesis
  proof (cases "ks' = [] \<and> is_root")
    case True
    obtain r m' c where run: "fsm_del_loop t True key m1 n = (r, m', c)" by (metis prod_cases3)
    have "deleted t True key m (Node FSM_INDEX_NODE lv ks cs) (r, m', c)"
      using del [of True] jn(7) True m unfolding run
      by (auto simp: deleted_def delete_result_def simp del: inorder.simps split: option.splits)
    with True run show ?thesis by simp
  next
    case False
    obtain r m' c where run: "fsm_del_loop t False key m1 n = (r, m', c)" by (metis prod_cases3)
    have "root_or_node t is_root (length ks')"
    proof (rule ready_bounds(2) [OF rd t])
      show "\<not> (is_root \<and> length ks' = 0)" using False by auto
      show "Suc (length ks') = nr_active (Node FSM_INDEX_NODE lv ks cs)" using jn(2) i by simp
    qed
    from deleted_below [OF jn(1) so [folded jn(3)] spl _ jn(3) [symmetric] fsm_node.sel(2) this m]
      del [of False] jn(6) run
    have "deleted t is_root key m (Node FSM_INDEX_NODE lv ks cs)
        (r, m', Some (Node FSM_INDEX_NODE lv ks' (put_child cs' i c)))" by metis
    with run False show ?thesis by (simp only: if_False prod.case)
  qed
qed

lemma deleted_found:
  assumes rd: "ready t is_root (Node FSM_INDEX_NODE lv ks cs)" and t: "2 \<le> t"
    and so: "sorted_less (inorder (Node FSM_INDEX_NODE lv ks cs))"
    and i: "scan_ge key ks < length ks" "ks ! scan_ge key ks = key"
    and IH: "\<And>is_root m c. \<lbrakk>ht c < ht (Node FSM_INDEX_NODE lv ks cs); ready t is_root c;
      sorted_less (inorder c)\<rbrakk> \<Longrightarrow> deleted t is_root key m c (fsm_del_loop t is_root key m c)"
  shows "deleted t is_root key m (Node FSM_INDEX_NODE lv ks cs)
    (fsm_del_loop t is_root key m (Node FSM_INDEX_NODE lv ks cs))"
proof -
  define i where "i = scan_ge key ks"
  have sh: "shape t (Node FSM_INDEX_NODE lv ks cs)" using rd by (simp add: ready_def)
  have so': "sorted_less ks" using sorted_key_vals [OF sh so] by simp
  have i': "i < length ks" "ks ! i = key" and ne: "ks \<noteq> []" using i by (auto simp: i_def)
  note ch = children_siblings [OF sh i'(1)]
  have rn: "root_or_node t is_root (length ks)" using ready_bounds(1) [OF rd t] by simp
  note unf = fsm_del_loop.simps [of t is_root key m FSM_INDEX_NODE lv ks cs, folded i_def]
  have min: "t - 1 \<le> nr_active (cs ! i)" "t - 1 \<le> nr_active (cs ! Suc i)"
    using ch(1) by (auto simp: siblings_def wf_node_def)
  consider "t - 1 < nr_active (cs ! i)" | "nr_active (cs ! i) = t - 1" "t - 1 < nr_active (cs ! Suc i)"
    | "nr_active (cs ! i) = t - 1" "nr_active (cs ! Suc i) = t - 1"
    using min by linarith
  then show ?thesis
  proof cases
    case 1
    with deleted_pred [OF sh t so i' 1 rn] IH show ?thesis
      using i' ne ch(3) by (cases "fsm_del_loop t False key m (put_max_key key (cs ! i))") (auto simp: unf)
  next
    case 2
    with deleted_succ [OF sh t so i' 2(2) rn] IH show ?thesis
      using i' ne ch(3) by (cases "fsm_del_loop t False key m (put_min_key key (cs ! Suc i))") (auto simp: unf)
  next
    case 3
    obtain x m1 where mn: "merge_nodes m (cs ! i) (ks ! i) (cs ! Suc i) = (x, m1)" by fastforce
    show ?thesis
    proof (cases x)
      case None
      then have "m \<noteq> []" using mn by (cases m) (auto simp: merge_nodes_def allocate_btree_node_def)
      with deleted_unchanged [OF rd t, of "Fail ENOMEM" key m1 m] None mn 3 i' ne ch(3) show ?thesis
        by (simp add: unf)
    next
      case (Some n)
      then have n: "n = Node (node_type (cs ! i)) (level (cs ! i))
          (key_vals (cs ! i) @ ks ! i # key_vals (cs ! Suc i)) (children (cs ! i) @ children (cs ! Suc i))"
        and m: "m = [] \<longrightarrow> m1 = []"
        using mn by (cases m; auto simp: merge_nodes_def allocate_btree_node_def split: if_splits)+
      have spl: "splits_at key (remove_at i ks) i" using splits_at_remove [OF so' i'(1)] i'(2) by blast
      note dj = deleted_joined [OF sh t i'(1) so 3 n refl refl spl rd m
          ht_merge_nodes [OF mn [unfolded Some] ch(3)] IH]
      from dj Some mn 3 i' ne ch(3) show ?thesis by (simp add: unf)
    qed
  qed
qed

text \<open>The key is not in the node: a minimal child is refilled before the loop enters it.\<close>

lemma deleted_refilled:
  assumes rd: "ready t is_root (Node FSM_INDEX_NODE lv ks cs)" and t: "2 \<le> t"
    and so: "sorted_less (inorder (Node FSM_INDEX_NODE lv ks cs))"
    and sh: "shape t (Node FSM_INDEX_NODE lv ks' cs')" "length ks' = length ks"
    and io: "inorder (Node FSM_INDEX_NODE lv ks' cs') = inorder (Node FSM_INDEX_NODE lv ks cs)"
    and spl: "splits_at key ks' i" and nr: "t \<le> nr_active (cs' ! i)"
    and ht: "ht (cs' ! i) < ht (Node FSM_INDEX_NODE lv ks cs)"
    and IH: "\<And>c. \<lbrakk>ht c < ht (Node FSM_INDEX_NODE lv ks cs); ready t False c;
      sorted_less (inorder c)\<rbrakk> \<Longrightarrow> deleted t False key m c (fsm_del_loop t False key m c)"
  shows "deleted t is_root key m (Node FSM_INDEX_NODE lv ks cs)
    (case fsm_del_loop t False key m (cs' ! i) of (r, m', c) \<Rightarrow>
       (r, m', Some (Node FSM_INDEX_NODE lv ks' (put_child cs' i c))))"
proof -
  have len: "length cs' = Suc (length ks')" using sh(1) by (simp add: shape_index)
  have il: "i \<le> length ks'" using spl by (simp add: splits_at_def)
  have "cs' ! i \<in> set cs'" using il len by simp
  then have "wf_node t (cs' ! i)" using sh(1) unfolding shape_index by blast
  then have "ready t False (cs' ! i)" using nr by (simp add: ready_def wf_node_def)
  note del = IH [OF ht this sorted_child(1) [OF so [folded io] len il]]
  have rn: "root_or_node t is_root (length ks')" using ready_bounds(1) [OF rd t] sh(2) by simp
  obtain r m' c where run: "fsm_del_loop t False key m (cs' ! i) = (r, m', c)" by (metis prod_cases3)
  from deleted_below [OF sh(1) so [folded io] spl del [unfolded run] io [symmetric] _ rn] run
  show ?thesis by simp
qed

lemma deleted_merged_siblings:
  assumes rd: "ready t is_root (Node FSM_INDEX_NODE lv ks cs)" and t: "2 \<le> t"
    and so: "sorted_less (inorder (Node FSM_INDEX_NODE lv ks cs))"
    and spl: "splits_at key ks i" and ne: "ks \<noteq> []"
    and nr: "nr_active (cs ! i) = t - 1" "0 < i \<longrightarrow> nr_active (cs ! (i - 1)) = t - 1"
      "i < length ks \<longrightarrow> nr_active (cs ! Suc i) = t - 1"
    and ms: "merge_siblings t m ks cs i = (Some (n, idx, ks', cs'), m1)"
    and IH: "\<And>is_root m c. \<lbrakk>ht c < ht (Node FSM_INDEX_NODE lv ks cs); ready t is_root c;
      sorted_less (inorder c)\<rbrakk> \<Longrightarrow> deleted t is_root key m c (fsm_del_loop t is_root key m c)"
  shows "wf_node t n"
    and "deleted t is_root key m (Node FSM_INDEX_NODE lv ks cs)
    (if ks' = [] \<and> is_root then fsm_del_loop t True key m1 n
     else case fsm_del_loop t False key m1 n of (r, m', c) \<Rightarrow>
       (r, m', Some (Node FSM_INDEX_NODE lv ks' (put_child cs' idx c))))"
proof -
  have sh: "shape t (Node FSM_INDEX_NODE lv ks cs)" using rd by (simp add: ready_def)
  have so': "sorted_less ks" using sorted_key_vals [OF sh so] by simp
  have i: "i \<le> length ks" using spl by (simp add: splits_at_def)
  note ss = merge_siblings_shape [OF ms]
  have idx: "idx < length ks" "idx = i \<or> Suc idx = i" using ss(1) i ne by (auto simp: neq_Nil_conv)
  have nr': "nr_active (cs ! idx) = t - 1" "nr_active (cs ! Suc idx) = t - 1"
    using ss(1) idx nr i by (auto split: if_splits)
  note ch = children_siblings [OF sh idx(1)]
  have full: "take (t - 1) (key_vals c) = key_vals c \<and> take t (children c) = children c"
    if "wf_node t c" "nr_active c = t - 1" for c
    using that t shape_lengths [of t "node_type c" "level c" "key_vals c" "children c"]
    by (cases c) (auto simp: wf_node_def split: if_splits)
  have n: "n = Node (node_type (cs ! idx)) (level (cs ! idx))
      (key_vals (cs ! idx) @ ks ! idx # key_vals (cs ! Suc idx)) (children (cs ! idx) @ children (cs ! Suc idx))"
    using ss(2) full nr' ch(1) by (simp add: siblings_def)
  have spl': "splits_at key ks' idx"
    using splits_at_remove [OF so' idx(1)] spl idx(2) ss(3) by blast
  have m: "m = [] \<longrightarrow> m1 = []"
    using ms by (cases m) (auto simp: merge_siblings_def allocate_btree_node_def Let_def)
  have len: "length ks < length cs" using sh by (simp add: shape_index)
  show "wf_node t n" using joined(4) [OF sh t idx(1) nr' n ss(3,4)] .
  show "deleted t is_root key m (Node FSM_INDEX_NODE lv ks cs)
    (if ks' = [] \<and> is_root then fsm_del_loop t True key m1 n
     else case fsm_del_loop t False key m1 n of (r, m', c) \<Rightarrow>
       (r, m', Some (Node FSM_INDEX_NODE lv ks' (put_child cs' idx c))))"
    using deleted_joined [OF sh t idx(1) so nr' n ss(3,4) spl' rd m ht_merge_siblings [OF ms i ne len] IH] .
qed

lemma retype_wf:
  assumes "wf_node t n"
  shows "Node (if level n \<noteq> 0 then FSM_INDEX_NODE else FSM_LEAF_NODE) (level n) (key_vals n) (children n) = n"
proof -
  have "node_type n = FSM_LEAF_NODE \<longleftrightarrow> level n = 0" using assms shape_node_type [of t n] by (simp add: wf_node_def)
  then have "node_type n = (if level n \<noteq> 0 then FSM_INDEX_NODE else FSM_LEAF_NODE)"
    by (cases "node_type n") auto
  then show ?thesis by (metis fsm_node.collapse)
qed

lemma deleted_missing:
  assumes rd: "ready t is_root (Node FSM_INDEX_NODE lv ks cs)" and t: "2 \<le> t"
    and so: "sorted_less (inorder (Node FSM_INDEX_NODE lv ks cs))"
    and nf: "\<not> (scan_ge key ks < length ks \<and> ks ! scan_ge key ks = key)"
    and IH: "\<And>is_root m c. \<lbrakk>ht c < ht (Node FSM_INDEX_NODE lv ks cs); ready t is_root c;
      sorted_less (inorder c)\<rbrakk> \<Longrightarrow> deleted t is_root key m c (fsm_del_loop t is_root key m c)"
  shows "deleted t is_root key m (Node FSM_INDEX_NODE lv ks cs)
    (fsm_del_loop t is_root key m (Node FSM_INDEX_NODE lv ks cs))"
proof -
  define i where "i = scan_ge key ks"
  have sh: "shape t (Node FSM_INDEX_NODE lv ks cs)" using rd by (simp add: ready_def)
  have so': "sorted_less ks" using sorted_key_vals [OF sh so] by simp
  have spl: "splits_at key ks i" using scan_ge_splits [OF so' nf] by (simp add: i_def)
  have ne: "ks \<noteq> []" using rd t by (auto simp: ready_def split: if_splits)
  have len: "length ks < length cs" "length cs = Suc (length ks)" using sh by (simp_all add: shape_index)
  have i: "i \<le> length ks" using spl by (simp add: splits_at_def)
  note unf = fsm_del_loop.simps [of t is_root key m FSM_INDEX_NODE lv ks cs, folded i_def]
  note cr = choose_refill_cases [OF sh i ne t]
  have nf': "(i < length ks \<and> fsm_btree_cmp_fn key (ks ! i) = 0) = False" using nf by (auto simp: i_def)
  have run: "fsm_del_loop t is_root key m (Node FSM_INDEX_NODE lv ks cs) =
      (case choose_refill t ks cs i of
           Nothing \<Rightarrow>
             (case fsm_del_loop t False key m (cs ! i) of (r, m', c) \<Rightarrow>
                (r, m', Some (Node FSM_INDEX_NODE lv ks (put_child cs i c))))
         | Move pos \<Rightarrow>
             (case move_key ks cs i pos of (ks', cs') \<Rightarrow>
                (case fsm_del_loop t False key m (cs' ! i) of (r, m', c) \<Rightarrow>
                   (r, m', Some (Node FSM_INDEX_NODE lv ks' (put_child cs' i c)))))
         | Merge \<Rightarrow>
             (case merge_siblings t m ks cs i of
                (None, m') \<Rightarrow> (Fail ENOMEM, m', Some (Node FSM_INDEX_NODE lv ks cs))
              | (Some (new_node, idx, ks', cs'), m') \<Rightarrow>
                  if ks' = [] \<and> is_root then
                    fsm_del_loop t True key m'
                      (Node (if level new_node \<noteq> 0 then FSM_INDEX_NODE else FSM_LEAF_NODE)
                         (level new_node) (key_vals new_node) (children new_node))
                  else
                    (case fsm_del_loop t False key m' new_node of (r, m'', c) \<Rightarrow>
                       (r, m'', Some (Node FSM_INDEX_NODE lv ks' (put_child cs' idx c))))))"
    unfolding unf Let_def nf' if_False using ne len by simp
  show ?thesis
  proof (cases "choose_refill t ks cs i")
    case Nothing
    with cr have nr: "t \<le> nr_active (cs ! i)" by simp
    have "ht (cs ! i) < ht (Node FSM_INDEX_NODE lv ks cs)" using i len(2) by (intro ht_nth_child) simp
    from deleted_refilled [OF rd t so sh refl refl spl nr this IH] Nothing run show ?thesis by simp
  next
    case (Move pos)
    obtain ks' cs' where mv: "move_key ks cs i pos = (ks', cs')" by fastforce
    have "deleted t is_root key m (Node FSM_INDEX_NODE lv ks cs)
      (case fsm_del_loop t False key m (cs' ! i) of (r, m', c) \<Rightarrow>
         (r, m', Some (Node FSM_INDEX_NODE lv ks' (put_child cs' i c))))"
    proof (cases pos)
      case LEFT
      with Move cr have c: "i < length ks" "nr_active (cs ! i) = t - 1" "t - 1 < nr_active (cs ! Suc i)" by auto
      note ml = moved_left [OF sh t so spl c mv [unfolded LEFT]]
      have "ht (cs' ! i) < ht (Node FSM_INDEX_NODE lv ks cs)" using ht_move_key [OF mv i len(1)] LEFT c by simp
      from deleted_refilled [OF rd t so ml(1-4) _ this IH] ml(5) show ?thesis by simp
    next
      case RIGHT
      with Move cr have c: "0 < i" "nr_active (cs ! i) = t - 1" "t - 1 < nr_active (cs ! (i - 1))" by auto
      then obtain j where j: "i = Suc j" by (cases i) auto
      note mr = moved_right [OF sh t so spl [unfolded j], unfolded j [symmetric]]
      from c j mr mv RIGHT have mr': "shape t (Node FSM_INDEX_NODE lv ks' cs')" "length ks' = length ks"
        "inorder (Node FSM_INDEX_NODE lv ks' cs') = inorder (Node FSM_INDEX_NODE lv ks cs)"
        "splits_at key ks' i" "nr_active (cs' ! i) = t" by simp_all
      have "ht (cs' ! i) < ht (Node FSM_INDEX_NODE lv ks cs)" using ht_move_key [OF mv i len(1)] RIGHT c by simp
      from deleted_refilled [OF rd t so mr'(1-4) _ this IH] mr'(5) show ?thesis by simp
    qed
    with Move mv run show ?thesis by simp
  next
    case Merge
    with cr have c: "nr_active (cs ! i) = t - 1" "0 < i \<longrightarrow> nr_active (cs ! (i - 1)) = t - 1"
      "i < length ks \<longrightarrow> nr_active (cs ! Suc i) = t - 1" by auto
    obtain x m1 where ms: "merge_siblings t m ks cs i = (x, m1)" by fastforce
    show ?thesis
    proof (cases x)
      case None
      then have "m \<noteq> []" using ms
        by (cases m) (auto simp: merge_siblings_def allocate_btree_node_def Let_def)
      with deleted_unchanged [OF rd t, of "Fail ENOMEM" key m1 m] None ms Merge run show ?thesis by simp
    next
      case (Some y)
      obtain n idx ks' cs' where y: "y = (n, idx, ks', cs')" by (cases y)
      note dm = deleted_merged_siblings [OF rd t so spl ne c ms [unfolded Some y] IH]
      have "fsm_del_loop t is_root key m (Node FSM_INDEX_NODE lv ks cs) =
          (if ks' = [] \<and> is_root then fsm_del_loop t True key m1 n
           else case fsm_del_loop t False key m1 n of (r, m', c) \<Rightarrow>
             (r, m', Some (Node FSM_INDEX_NODE lv ks' (put_child cs' idx c))))"
        by (simp only: run Merge refill.case ms Some y prod.case option.case retype_wf [OF dm(1)]
            cong: if_cong)
      with dm(2) show ?thesis by presburger
    qed
  qed
qed

lemma del_loop_deleted:
  assumes "ready t is_root n" "2 \<le> t" "sorted_less (inorder n)"
  shows "deleted t is_root key m n (fsm_del_loop t is_root key m n)"
  using assms
proof (induction "ht n" arbitrary: n m is_root rule: less_induct)
  case (less n m is_root)
  obtain ty lv ks cs where n: "n = Node ty lv ks cs" by (cases n)
  have IH: "deleted t b key m' c (fsm_del_loop t b key m' c)"
    if "ht c < ht n" "ready t b c" "sorted_less (inorder c)" for b m' c
    using less.hyps less.prems(2) that by blast
  show ?case
  proof (cases ty)
    case FSM_LEAF_NODE
    with less.prems n deleted_leaf show ?thesis by blast
  next
    case FSM_INDEX_NODE
    note prems = less.prems [unfolded n FSM_INDEX_NODE] and IH' = IH [unfolded n FSM_INDEX_NODE]
    show ?thesis unfolding n FSM_INDEX_NODE
    proof (cases "scan_ge key ks < length ks \<and> ks ! scan_ge key ks = key")
      case True
      then show "deleted t is_root key m (Node FSM_INDEX_NODE lv ks cs)
          (fsm_del_loop t is_root key m (Node FSM_INDEX_NODE lv ks cs))"
        using deleted_found [OF prems _ _ IH'] by blast
    next
      case False
      then show "deleted t is_root key m (Node FSM_INDEX_NODE lv ks cs)
          (fsm_del_loop t is_root key m (Node FSM_INDEX_NODE lv ks cs))"
        using deleted_missing [OF prems _ IH'] by blast
    qed
  qed
qed

section \<open>Deletion from the tree\<close>

text \<open>
  A deletion that does not run out of memory removes exactly the key and keeps the
  invariant. One that does leaves every key in the tree.
\<close>

lemma fsm_btree_delete_spec:
  assumes "fsm_btree_inv b" "fsm_btree_delete b key m = (r, m', b')"
  shows "delete_result key m (tree_keys b) r m' (tree_keys b')" "order b' = order b"
    and "r = Success \<Longrightarrow> fsm_btree_inv b'"
proof -
  have t: "2 \<le> order b" and so: "sorted_less (tree_keys b)"
    using assms(1) by (auto simp: fsm_btree_inv_def)
  have "delete_result key m (tree_keys b) r m' (tree_keys b') \<and> order b' = order b \<and>
      (r = Success \<longrightarrow> fsm_btree_inv b')"
  proof (cases "root b")
    case Null
    with assms show ?thesis by (auto simp: fsm_btree_delete_def delete_result_def tree_keys_def)
  next
    case ErrPtr
    with assms(1) show ?thesis by (simp add: fsm_btree_inv_def)
  next
    case (Ptr n)
    then have rd: "ready (order b) True n" and so': "sorted_less (inorder n)"
      using assms(1) by (auto simp: fsm_btree_inv_def wf_root_def ready_def tree_keys_def)
    obtain c where run: "fsm_del_loop (order b) True key m n = (r, m', c)"
      "b' = b\<lparr>root := (case c of None \<Rightarrow> Null | Some n' \<Rightarrow> Ptr n')\<rparr>"
      using assms(2) Ptr by (auto simp: fsm_btree_delete_def split: prod.splits)
    have del: "deleted (order b) True key m n (r, m', c)"
      using del_loop_deleted [OF rd t so', of key m] run(1) by simp
    have "sorted_less (tree_keys b')" if "r = Success"
      using del that so' run(2) Ptr sorted_less_remove1 [OF so', of key]
      by (auto simp: deleted_def delete_result_def tree_keys_def split: option.splits)
    with del t run(2) Ptr show ?thesis
      by (auto simp: deleted_def tree_keys_def fsm_btree_inv_def split: option.splits)
  qed
  then show "delete_result key m (tree_keys b) r m' (tree_keys b')" "order b' = order b"
    and "r = Success \<Longrightarrow> fsm_btree_inv b'" by blast+
qed

section \<open>The tree is a store of extents\<close>

interpretation fsm: extent_store fsm_btree_inv tree_keys fsm_btree_insert fsm_btree_delete
proof (unfold_locales, goal_cases)
  case (1 s)
  then show ?case by (simp add: fsm_btree_inv_def)
next
  case (2 s k m r m' s')
  with fsm_btree_insert_spec [OF 2] show ?case by (auto simp: insert_result_def)
next
  case (3 s k r m' s')
  with fsm_btree_insert_spec(1) [OF 3] show ?case by (simp add: insert_result_def)
next
  case (4 s k m r m' s')
  with fsm_btree_delete_spec [OF 4] show ?case by (auto simp: delete_result_def)
next
  case (5 s k r m' s')
  with fsm_btree_delete_spec(1) [OF 5] show ?case by (simp add: delete_result_def)
qed

end
