(* ===== verification/Fsm_Btree_Space.thy ===== *)
theory Fsm_Btree_Space
  imports Fsm_Btree_Delete
begin

text \<open>
  What the free-extent tree means for blocks: \<open>fsm_btree_lookup\<close> grants exactly blocks
  that were free, \<open>fsm_btree_free\<close> gives back exactly the freed ones, and
  \<open>fsm_btree_destroy\<close> visits every node once.
\<close>

section \<open>All nodes of a tree\<close>

fun nodes :: "fsm_node \<Rightarrow> fsm_node list" where
  "nodes (Node ty lv ks cs) = Node ty lv ks cs # concat (map nodes cs)"

lemma queue_children_shape: "shape t n \<Longrightarrow> queue_children n = children n"
  by (cases n; cases "node_type n") (auto simp: queue_children_def shape_iff split: if_splits)

lemma shape_children: "shape t n \<Longrightarrow> c \<in> set (children n) \<Longrightarrow> shape t c"
  by (cases n) (auto simp: shape_iff wf_node_def)

lemma bfs_nodes_mset:
  "\<forall>n\<in>set q. shape t n \<Longrightarrow> mset (bfs_nodes q) = mset (concat (map nodes q))"
proof (induction q rule: bfs_nodes.induct)
  case (2 n q)
  have "\<forall>c\<in>set (q @ queue_children n). shape t c"
    using "2.prems" by (auto simp: queue_children_shape intro: shape_children)
  moreover have "queue_children n = children n" using "2.prems" by (intro queue_children_shape [of t]) simp
  ultimately show ?case using "2.IH" by (cases n) simp
qed simp

lemma set_inorder_nodes: "shape t n \<Longrightarrow> set (inorder n) = (\<Union>x\<in>set (nodes n). set (key_vals x))"
proof (induction n rule: nodes.induct)
  case (1 ty lv ks cs)
  have "set (inorder c) = (\<Union>x\<in>set (nodes c). set (key_vals x))" if "c \<in> set cs" for c
    using "1.IH" [OF that] shape_children [OF "1.prems", of c] that by simp
  moreover have "set (weave (map inorder cs) ks) = set ks \<union> (\<Union>c\<in>set cs. set (inorder c))"
  proof -
    have "set (weave ds ks) = set ks \<union> (\<Union>d\<in>set ds. set d)" if "ds = [] \<or> length ds = Suc (length ks)"
      for ds :: "fsm_btree_key list list"
      using that
    proof (induction ds ks rule: weave.induct)
      case (3 c cs k ks)
      then show ?case by (cases cs) auto
    qed auto
    from this [of "map inorder cs"] show ?thesis
      using "1.prems" by (auto simp: shape_iff split: if_splits)
  qed
  ultimately show ?case by auto
qed

section \<open>Finding an extent\<close>

lemma bfs_lookup_sound:
  "bfs_lookup len crl q = Some k \<Longrightarrow> \<forall>n\<in>set q. shape t n \<Longrightarrow>
   extent_fits len crl k \<and> (\<exists>n\<in>set q. k \<in> set (inorder n))"
proof (induction len crl q rule: bfs_lookup.induct)
  case (2 len crl n q)
  show ?case
  proof (cases "find (extent_fits len crl) (key_vals n)")
    case None
    have "\<forall>c\<in>set (q @ queue_children n). shape t c"
      using "2.prems"(2) by (auto simp: queue_children_shape intro: shape_children)
    with "2.IH" [OF None] "2.prems"(1) None obtain c where
      c: "extent_fits len crl k" "c \<in> set (q @ queue_children n)" "k \<in> set (inorder c)" by auto
    have "k \<in> set (inorder n)" if "c \<in> set (queue_children n)"
    proof -
      have "c \<in> set (children n)" "shape t n" "shape t c"
        using that "2.prems"(2) by (auto simp: queue_children_shape intro: shape_children)
      then show ?thesis
        using c(3) set_inorder_nodes [of t n] set_inorder_nodes [of t c] by (cases n) auto
    qed
    with c show ?thesis by auto
  next
    case (Some k')
    with "2.prems" have "k \<in> set (key_vals n)" "extent_fits len crl k"
      by (auto simp: find_Some_iff)
    with "2.prems"(2) inorder_keys [of t n] show ?thesis by auto
  qed
qed simp

lemma bfs_lookup_complete:
  "bfs_lookup len crl q = None \<Longrightarrow> \<forall>n\<in>set q. shape t n \<Longrightarrow> n \<in> set q \<Longrightarrow>
   k \<in> set (inorder n) \<Longrightarrow> \<not> extent_fits len crl k"
proof (induction len crl q arbitrary: n rule: bfs_lookup.induct)
  case (2 len crl n0 q)
  have none: "find (extent_fits len crl) (key_vals n0) = None"
    and rest: "bfs_lookup len crl (q @ queue_children n0) = None"
    using "2.prems"(1) by (auto split: option.splits)
  have sh: "\<forall>c\<in>set (q @ queue_children n0). shape t c"
    using "2.prems"(2) by (auto simp: queue_children_shape intro: shape_children)
  note IH = "2.IH" [OF none rest sh]
  show ?case
  proof (cases "n = n0 \<and> n \<notin> set q")
    case False
    with "2.prems"(3,4) show ?thesis by (intro IH [of n]) auto
  next
    case True
    with "2.prems"(2) have sh0: "shape t n0" by simp
    with "2.prems"(4) True set_inorder_nodes [OF sh0]
    have "k \<in> set (key_vals n0) \<or> (\<exists>c\<in>set (children n0). \<exists>x\<in>set (nodes c). k \<in> set (key_vals x))"
      by (cases n0) auto
    then show ?thesis
    proof
      assume "k \<in> set (key_vals n0)"
      with none show ?thesis by (auto simp: find_None_iff)
    next
      assume "\<exists>c\<in>set (children n0). \<exists>x\<in>set (nodes c). k \<in> set (key_vals x)"
      then obtain c where c: "c \<in> set (queue_children n0)" "k \<in> set (inorder c)"
        using set_inorder_nodes shape_children [OF sh0] queue_children_shape [OF sh0] by (metis UN_I)
      with IH [of c] show ?thesis by simp
    qed
  qed
qed simp

text \<open>The descent finds every extent that starts at the wanted block.\<close>

lemma scan_off_spec:
  "scan_off off ks \<le> length ks \<and> (\<forall>j < scan_off off ks. block_offset (ks ! j) < off) \<and>
   (scan_off off ks < length ks \<longrightarrow> off \<le> block_offset (ks ! scan_off off ks))"
  by (induction ks) (auto simp: nth_Cons split: nat.splits)

lemma lookup_exact_sound: "lookup_exact off n = Some k \<Longrightarrow> shape t n \<Longrightarrow> k \<in> set (inorder n) \<and> block_offset k = off"
proof (induction off n rule: lookup_exact.induct)
  case (1 off ty lv ks cs)
  let ?i = "scan_off off ks"
  show ?case
  proof (cases "?i < length ks \<and> block_offset (ks ! ?i) = off")
    case True
    with "1.prems"(1) have "k = ks ! ?i" by (simp add: lookup_exact.simps)
    with True inorder_keys [OF "1.prems"(2)] show ?thesis by (auto simp del: inorder.simps)
  next
    case False
    have ty: "ty = FSM_INDEX_NODE" "?i < length cs" "lookup_exact off (cs ! ?i) = Some k"
      using "1.prems"(1) False unfolding lookup_exact.simps [of off ty lv ks cs] Let_def
      by (cases ty; simp split: if_splits)+
    then have "cs ! ?i \<in> set cs" by simp
    then have "k \<in> set (inorder (cs ! ?i)) \<and> block_offset k = off"
      using "1.IH" [OF refl False] ty shape_children [OF "1.prems"(2), of "cs ! ?i"] by simp
    moreover have "set (inorder (cs ! ?i)) \<subseteq> set (inorder (Node ty lv ks cs))"
      using \<open>cs ! ?i \<in> set cs\<close> "1.prems"(2) set_inorder_nodes [of t "cs ! ?i"]
        set_inorder_nodes [of t "Node ty lv ks cs"] shape_children [OF "1.prems"(2), of "cs ! ?i"] by auto
    ultimately show ?thesis by blast
  qed
qed

lemma lookup_exact_complete:
  assumes "shape t n" "sorted_less (inorder n)" "k \<in> set (inorder n)"
    and "\<forall>k'\<in>set (inorder n). block_offset k' = block_offset k \<longrightarrow> k' = k"
  shows "lookup_exact (block_offset k) n = Some k"
  using assms
proof (induction "block_offset k" n rule: lookup_exact.induct)
  case (1 ty lv ks cs)
  let ?i = "scan_off (block_offset k) ks"
  note sc = scan_off_spec [of "block_offset k" ks]
  show ?case
  proof (cases "?i < length ks \<and> block_offset (ks ! ?i) = block_offset k")
    case True
    then have "ks ! ?i \<in> set (key_vals (Node ty lv ks cs))" by simp
    with True have "ks ! ?i = k" using "1.prems"(4) inorder_keys [OF "1.prems"(1)] by blast
    with True show ?thesis by (simp add: lookup_exact.simps)
  next
    case False
    have up: "?i < length ks \<Longrightarrow> k < ks ! ?i" using sc False
      by (auto simp: less_fsm_btree_key_def)
    have lo: "0 < ?i \<Longrightarrow> ks ! (?i - 1) < k" using sc by (auto simp: less_fsm_btree_key_def)
    have nk: "k \<notin> set ks"
    proof
      assume "k \<in> set ks"
      then obtain j where j: "j < length ks" "ks ! j = k" by (auto simp: in_set_conv_nth)
      then have "?i \<le> j" using sc by (metis less_irrefl not_le)
      moreover have "sorted_less ks" using sorted_key_vals [OF "1.prems"(1,2)] by simp
      ultimately have "ks ! ?i \<le> k" using j sorted_wrt_nth_less [of "(<)" ks ?i j] by (cases "?i = j") auto
      then show False using up j \<open>?i \<le> j\<close> by auto
    qed
    have ty: "ty = FSM_INDEX_NODE" using "1.prems"(1,3) nk by (cases ty) (auto simp: shape_leaf)
    then have len: "length cs = Suc (length ks)" using "1.prems"(1) by (simp add: shape_index)
    have il: "?i \<le> length ks" "?i < length cs" using sc len by auto
    note sp = inorder_split [OF il(1) len, of ty lv]
    have "k \<notin> set (before ?i ks (map inorder cs))" "k \<notin> set (after ?i ks (map inorder cs))"
      using context_bounds [OF "1.prems"(2) [unfolded sp] il(1) _ lo up] len by auto
    then have kin: "k \<in> set (inorder (cs ! ?i))" using "1.prems"(3) unfolding sp by auto
    note sub = sorted_child [OF "1.prems"(2) len il(1)]
    have "lookup_exact (block_offset k) (cs ! ?i) = Some k"
      using "1.hyps" [OF refl False _ il(2)] ty shape_children [OF "1.prems"(1), of "cs ! ?i"] il(2)
        sub kin "1.prems"(4) by auto
    with False ty il(2) show ?thesis by (auto simp: lookup_exact.simps [of _ FSM_INDEX_NODE])
  qed
qed

section \<open>Taking an extent\<close>

lemma unat_up [simp]: "unat (ucast (x::u32) :: u64) = unat x"
proof -
  have "unat x < 2 ^ 32" using unsigned_less [of x] by simp
  then show ?thesis by (simp add: unsigned_ucast_eq take_bit_nat_eq_self)
qed

lemma ucast_down_up: "(x::u64) \<le> ucast (y::u32) \<Longrightarrow> ucast (ucast x :: u32) = x"
proof -
  assume "x \<le> ucast y"
  then have "unat x \<le> unat y" by (simp add: word_le_nat_alt)
  moreover have "unat y < 2 ^ 32" using unsigned_less [of y] by simp
  ultimately have "unat x < 2 ^ 32" by linarith
  then have "unat (ucast x :: u32) = unat x" by (simp add: unsigned_ucast_eq take_bit_nat_eq_self)
  then show ?thesis by (simp add: word_unat_eq_iff)
qed

definition granted_blocks :: "u64 \<Rightarrow> u32 \<Rightarrow> nat set" where
  "granted_blocks off len = ext_blocks (Key off (ucast len))"

text \<open>
  A grant: the blocks were free and are not free any more, nothing else changed, and the
  tree is well-formed.
\<close>

definition grants :: "vdfs2_fsm_btree \<Rightarrow> u64 \<Rightarrow> u32 \<Rightarrow> vdfs2_fsm_btree \<Rightarrow> bool" where
  "grants b off len b' \<longleftrightarrow>
     fsm_btree_inv b' \<and> extents_ok (tree_keys b') \<and>
     granted_blocks off len \<subseteq> free_blocks (tree_keys b) \<and>
     free_blocks (tree_keys b') = free_blocks (tree_keys b) - granted_blocks off len"

lemma lookup_take_granted:
  assumes "fsm_btree_inv b" "extents_ok (tree_keys b)" "k \<in> set (tree_keys b)"
    and "lookup_take b k len m = (blk, len', m', b')" "blk \<noteq> 0 \<or> m = []"
  shows "blk = block_offset k \<and> unat len' = min (unat len) (unat (klen k)) \<and> grants b blk len' b'"
proof (cases "ucast len < klen k")
  case True
  obtain r m1 b1 where d: "fsm_btree_delete b k m = (r, m1, b1)" by (metis prod_cases3)
  obtain r' m2 b2 where i: "fsm_btree_insert b1 (Key (block_offset k + ucast len) (klen k - ucast len)) m1
      = (r', m2, b2)" by (metis prod_cases3)
  have r: "r \<noteq> Fail ENOMEM" "m = [] \<Longrightarrow> m1 = []"
    using assms(4,5) True d fsm.del_law [OF assms(1) d] fsm.del_mem [OF assms(1)]
    by (auto simp: lookup_take_def)
  note rm = fsm.remove_extent [OF assms(1-3) d r(1)]
  have r': "r' \<noteq> Fail ENOMEM"
    using assms(4,5) True d i rm(1) r(2) fsm.ins_law [OF rm(2) i]
    by (auto simp: lookup_take_def split: if_splits)
  note tp = fsm.take_prefix [OF assms(1-3) True d r(1) i r']
  have eq: "blk = block_offset k" "len' = len" "b' = b2"
    using assms(4) True d i rm(1) tp(1) by (auto simp: lookup_take_def)
  moreover have "unat len < unat (klen k)" using True by (simp add: word_less_nat_alt)
  ultimately show ?thesis using tp(2-5) by (simp add: grants_def granted_blocks_def)
next
  case False
  then have cast: "ucast (ucast (klen k) :: u32) = klen k" by (intro ucast_down_up [of _ len]) simp
  then have key: "Key (block_offset k) (ucast (ucast (klen k) :: u32)) = k" by simp
  obtain r m1 b1 where d: "fsm_btree_delete b k m = (r, m1, b1)" by (metis prod_cases3)
  have r: "r \<noteq> Fail ENOMEM"
    using assms(4,5) False d key fsm.del_law [OF assms(1) d] by (auto simp: lookup_take_def Let_def)
  note rm = fsm.remove_extent [OF assms(1-3) d r]
  have eq: "blk = block_offset k" "len' = ucast (klen k)" "b' = b1"
    using assms(4) False d key rm(1) by (auto simp: lookup_take_def Let_def)
  have "unat (klen k) \<le> unat len" using False by (simp add: word_less_nat_alt)
  moreover have "unat len' = unat (klen k)" using eq(2) cast unat_up [of len'] by simp
  moreover have "ext_blocks k \<subseteq> free_blocks (tree_keys b)" using assms(3) by (auto simp: free_blocks_def)
  ultimately show ?thesis using rm(2-4) eq key by (simp add: grants_def granted_blocks_def)
qed

lemma extent_fits_len:
  "extent_fits len False k \<Longrightarrow> unat len \<le> unat (klen k)"
  by (auto simp: extent_fits_def word_less_nat_alt)

text \<open>Every request that some extent can serve is served.\<close>

lemma fsm_btree_lookup_found:
  assumes "fsm_btree_inv b" "extents_ok (tree_keys b)"
    and "\<exists>k\<in>set (tree_keys b). extent_fits len crl k"
  shows "\<exists>k\<in>set (tree_keys b). extent_fits len crl k \<and>
      fsm_btree_lookup b off len crl m = Ok (lookup_take b k len m) \<and>
      (\<forall>k'\<in>set (tree_keys b). block_offset k' = off \<longrightarrow> extent_fits len crl k' \<longrightarrow> k' = k)"
proof -
  obtain n where n: "root b = Ptr n" "shape (order b) n" "sorted_less (inorder n)" "tree_keys b = inorder n"
    using assms(1,3) by (cases "root b") (auto simp: fsm_btree_inv_def wf_root_def tree_keys_def)
  define hit where "hit = (case lookup_exact off n of
      Some k \<Rightarrow> if extent_fits len crl k then Some k else None | None \<Rightarrow> None)"
  have hit: "hit = Some k \<Longrightarrow> k \<in> set (inorder n) \<and> block_offset k = off \<and> extent_fits len crl k" for k
    using lookup_exact_sound [OF _ n(2)] by (auto simp: hit_def split: option.splits if_splits)
  have inj: "k = k'" if "k \<in> set (inorder n)" "k' \<in> set (inorder n)" "block_offset k = block_offset k'" for k k'
    using extents_ok_offset_inj [OF assms(2)] that n(4) by simp
  have miss: "hit = Some k" if "k \<in> set (inorder n)" "block_offset k = off" "extent_fits len crl k" for k
    using lookup_exact_complete [OF n(2,3) that(1)] inj that by (auto simp: hit_def)
  have run: "fsm_btree_lookup b off len crl m =
      (case hit of Some k \<Rightarrow> Ok (lookup_take b k len m)
       | None \<Rightarrow> (case bfs_lookup len crl [n] of
           Some k \<Rightarrow> Ok (lookup_take b k len m) | None \<Rightarrow> Ok (0, len, m, b)))"
    by (simp add: fsm_btree_lookup_def n(1) hit_def)
  show ?thesis
  proof (cases hit)
    case (Some k)
    with hit [OF Some] inj run n(4) show ?thesis by (intro bexI [of _ k]) auto
  next
    case None
    have "bfs_lookup len crl [n] \<noteq> None"
      using bfs_lookup_complete [of len crl "[n]" "order b" n] n assms(3) by auto
    then obtain k where k: "bfs_lookup len crl [n] = Some k" by blast
    with bfs_lookup_sound [OF k, of "order b"] n have "k \<in> set (tree_keys b)" "extent_fits len crl k" by auto
    with None k run miss n(4) show ?thesis by (intro bexI [of _ k]) auto
  qed
qed

lemma fsm_btree_lookup_none:
  assumes "fsm_btree_inv b" "\<not> (\<exists>k\<in>set (tree_keys b). extent_fits len crl k)"
  shows "fsm_btree_lookup b off len crl m = Ok (0, len, m, b)"
proof (cases "root b")
  case (Ptr n)
  then have n: "shape (order b) n" "tree_keys b = inorder n"
    using assms(1) by (auto simp: fsm_btree_inv_def wf_root_def tree_keys_def)
  have "bfs_lookup len crl [n] = None"
    using bfs_lookup_sound [of len crl "[n]" _ "order b"] n assms(2) by (cases "bfs_lookup len crl [n]") auto
  moreover have "\<not> extent_fits len crl k" if "lookup_exact off n = Some k" for k
    using lookup_exact_sound [OF that n(1)] assms(2) n(2) by auto
  ultimately show ?thesis using Ptr by (auto simp: fsm_btree_lookup_def split: option.splits)
qed (use assms in \<open>auto simp: fsm_btree_lookup_def fsm_btree_inv_def\<close>)

section \<open>Freeing an extent\<close>

text \<open>
  What the walk of \<^verbatim>\<open>fsm_btree_free\<close> found and did, in terms of the in-order keys.
\<close>

definition free_effect ::
  "u64 \<Rightarrow> u64 \<Rightarrow> fsm_btree_key list \<Rightarrow> fsm_btree_key list \<Rightarrow> free_action \<Rightarrow> bool" where
  "free_effect off len xs xs' a \<longleftrightarrow>
     (case a of
        ExtendOnly \<Rightarrow> \<exists>as k bs. xs = as @ k # bs \<and> block_offset k + klen k = off \<and>
          xs' = as @ Key (block_offset k) (klen k + len) # bs
      | ExtendDelete k2 \<Rightarrow> \<exists>as k bs. xs = as @ k # bs \<and> block_offset k + klen k = off \<and>
          k2 \<in> set bs \<and> block_offset k2 = block_offset k + (klen k + len) \<and>
          xs' = as @ Key (block_offset k) (klen k + len + klen k2) # bs
      | ReplaceBefore k \<Rightarrow> xs' = xs \<and> k \<in> set xs \<and> off + len = block_offset k
      | NoMatch \<Rightarrow> xs' = xs
      | NoChild \<Rightarrow> False)"

lemma free_effect_context:
  "free_effect off len xs xs' a \<Longrightarrow> free_effect off len (ys @ xs @ zs) (ys @ xs' @ zs) a"
  unfolding free_effect_def
  by (cases a; auto) (metis append.assoc append_Cons, metis Un_iff append.assoc append_Cons set_append)

lemma free_effect_extend:
  "block_offset k + klen k = off \<Longrightarrow>
     free_effect off len (as @ k # bs) (as @ Key (block_offset k) (klen k + len) # bs) ExtendOnly"
  "block_offset k + klen k = off \<Longrightarrow> k2 \<in> set bs \<Longrightarrow>
     block_offset k2 = block_offset k + (klen k + len) \<Longrightarrow>
     free_effect off len (as @ k # bs) (as @ Key (block_offset k) (klen k + len + klen k2) # bs)
       (ExtendDelete k2)"
  unfolding free_effect_def by auto

text \<open>In one node: the next key of the node is also later in the in-order list.\<close>

lemma free_keys_effect:
  assumes "free_keys off len ks = (ks', a)" "cs = [] \<or> length cs = Suc (length ks)"
  shows "length ks' = length ks \<and> free_effect off len (weave cs ks) (weave cs ks') a"
  using assms
proof (induction off len ks arbitrary: ks' cs rule: free_keys.induct)
  case (1 off len)
  then show ?case by (auto simp: free_effect_def)
next
  case (2 off len k ks)
  define c where "c = (case cs of [] \<Rightarrow> [] | x # _ \<Rightarrow> x)"
  define ds where "ds = (case cs of [] \<Rightarrow> [] | _ # xs \<Rightarrow> xs)"
  have ds: "ds = [] \<or> length ds = Suc (length ks)" using "2.prems"(2) by (auto simp: ds_def split: list.splits)
  have w: "weave cs (x # xs) = c @ x # weave ds xs" for x xs
    using "2.prems"(2) by (cases cs) (auto simp: c_def ds_def)
  have sub: "set ks \<subseteq> set (weave ds ks)"
    using ds keys_subset_weave [of ds ks] by (cases "ds = []") auto
  let ?k' = "Key (block_offset k) (klen k + len)"
  show ?case
  proof (cases "off = block_offset k + klen k")
    case True
    show ?thesis
    proof (cases ks)
      case Nil
      with "2.prems"(1) True w show ?thesis by (auto simp: Let_def intro: free_effect_extend)
    next
      case (Cons k2 ks2)
      show ?thesis
      proof (cases "block_offset k2 = block_offset ?k' + klen ?k'")
        case True2: True
        with True Cons "2.prems"(1) have
          eq: "ks' = Key (block_offset k) (klen k + len + klen k2) # ks" "a = ExtendDelete k2"
          by (auto simp: Let_def)
        have "k2 \<in> set (weave ds ks)" using sub Cons by auto
        with True True2 eq w show ?thesis by (auto intro: free_effect_extend)
      next
        case False
        with True Cons "2.prems"(1) w show ?thesis by (auto simp: Let_def intro: free_effect_extend)
      qed
    qed
  next
    case False
    show ?thesis
    proof (cases "off + len = block_offset k")
      case True
      with False "2.prems"(1) w show ?thesis by (auto simp: free_effect_def)
    next
      case False2: False
      obtain ks1 where ks1: "free_keys off len ks = (ks1, a)" "ks' = k # ks1"
        using "2.prems"(1) False False2 by (auto split: prod.splits)
      with "2.IH" [OF False False2 ks1(1) ds] w free_effect_context [of off len "weave ds ks" "weave ds ks1" a "c @ [k]" "[]"]
      show ?thesis by simp
    qed
  qed
qed

lemma free_walk_spec:
  assumes "shape t n" "free_walk off len n = (n', a)"
  shows "free_effect off len (inorder n) (inorder n') a \<and> shape t n' \<and> level n' = level n \<and>
    nr_active n' = nr_active n"
  using assms
proof (induction off len n arbitrary: n' a rule: free_walk.induct)
  case (1 off len ty lv ks cs)
  obtain ks' a1 where fk: "free_keys off len ks = (ks', a1)" by fastforce
  have lens: "length cs = (if lv = 0 then 0 else Suc (length ks))" using shape_lengths [OF "1.prems"(1)] .
  then have fe: "length ks' = length ks" "free_effect off len (inorder (Node ty lv ks cs)) (inorder (Node ty lv ks' cs)) a1"
    using free_keys_effect [OF fk, of "map inorder cs"] by (auto split: if_splits)
  have sh': "shape t (Node ty lv ks' cs)"
    using "1.prems"(1) fe(1) by (simp add: shape_iff)
  show ?case
  proof (cases "a1 \<noteq> NoMatch \<or> ty = FSM_LEAF_NODE")
    case True
    with "1.prems"(2) fk have "n' = Node ty lv ks' cs" "a = a1" by (auto simp: free_walk.simps)
    with fe sh' show ?thesis by simp
  next
    case False
    then have ty: "ty = FSM_INDEX_NODE" "a1 = NoMatch" by (cases ty; simp)+
    with "1.prems"(1) have len: "length cs = Suc (length ks)" by (simp add: shape_index)
    obtain c a2 where fw: "free_walk off len (cs ! length ks) = (c, a2)" by fastforce
    have n': "n' = Node ty lv ks' (cs[length ks := c])" "a = a2"
      using "1.prems"(2) fk len fw ty by (auto simp: free_walk.simps [of off len FSM_INDEX_NODE])
    have mem: "cs ! length ks \<in> set cs" using len by simp
    then have wf: "wf_node t (cs ! length ks)"
      using "1.prems"(1) ty unfolding shape_iff by blast
    with "1.IH" [OF fk [symmetric] False _ _ fw] len
    have IH: "free_effect off len (inorder (cs ! length ks)) (inorder c) a2" "shape t c"
      "level c = level (cs ! length ks)" "nr_active c = nr_active (cs ! length ks)"
      by (auto simp: wf_node_def)
    have "wf_node t c" using IH wf by (simp add: wf_node_def)
    then have "shape t (Node ty lv ks' (cs[length ks := c]))"
      using sh' ty len IH(3) unfolding ty(1) by (intro shape_update) auto
    moreover have "ks' = ks"
    proof -
      have "free_keys off len ks = (ks', NoMatch) \<Longrightarrow> ks' = ks" for ks'
        by (induction off len ks arbitrary: ks' rule: free_keys.induct)
          (auto simp: Let_def split: if_splits list.splits prod.splits)
      with fk ty(2) show ?thesis by simp
    qed
    ultimately show ?thesis
      using free_effect_context [OF IH(1)] inorder_split [of "length ks" ks cs ty lv]
        inorder_update [of "length ks" ks cs ty lv c] len n' by (simp del: inorder.simps)
  qed
qed

text \<open>Some extents and the freed blocks become one extent.\<close>

lemma coalesce:
  assumes "extents_ok xs" "K \<subseteq> set xs" "valid_extent k" "R \<inter> free_blocks xs = {}"
    and "ext_blocks k = (\<Union>x\<in>K. ext_blocks x) \<union> R" "set xs' = insert k (set xs - K)"
  shows "extents_ok xs'" "free_blocks xs' = free_blocks xs \<union> R"
proof -
  have dis: "ext_blocks x \<inter> ext_blocks y = {}" if "x \<in> set xs - K" "y \<in> K" for x y
  proof -
    have "x \<in> set xs" "y \<in> set xs" "x \<noteq> y" using assms(2) that by auto
    with assms(1) show ?thesis unfolding extents_ok_def by blast
  qed
  then have "ext_blocks x \<inter> ext_blocks k = {}" if "x \<in> set xs - K" for x
    using that assms(4,5) unfolding free_blocks_def by blast
  then show "extents_ok xs'"
    using assms(1,3,6) unfolding extents_ok_def by (simp add: Int_commute)
  show "free_blocks xs' = free_blocks xs \<union> R"
    using assms(2,5,6) unfolding free_blocks_def by auto
qed

lemma relength_sorted:
  assumes "sorted_less (as @ k # bs)" "extents_ok (as @ k # bs)"
  shows "sorted_less (as @ Key (block_offset k) l # bs)"
proof -
  have d: "k \<notin> set as" "k \<notin> set bs" using sorted_less_distinct [OF assms(1)] by auto
  have ne: "block_offset y \<noteq> block_offset k" if "y \<in> set as \<union> set bs" for y
    using extents_ok_offset_inj [OF assms(2), of y k] that d by auto
  have "y < Key (block_offset k) l" if "y \<in> set as" for y
    using assms(1) that ne [of y] by (auto simp: sorted_wrt_append less_fsm_btree_key_def)
  moreover have "Key (block_offset k) l < y" if "y \<in> set bs" for y
    using assms(1) that ne [of y] by (auto simp: sorted_wrt_append less_fsm_btree_key_def)
  ultimately show ?thesis using assms(1) by (auto simp: sorted_wrt_append)
qed

text \<open>The freed blocks are put right behind an extent, and right before another.\<close>

definition frees :: "u64 \<Rightarrow> u64 \<Rightarrow> vdfs2_fsm_btree \<Rightarrow> vdfs2_fsm_btree \<Rightarrow> bool" where
  "frees off len b b' \<longleftrightarrow>
     fsm_btree_inv b' \<and> extents_ok (tree_keys b') \<and>
     free_blocks (tree_keys b') = free_blocks (tree_keys b) \<union> ext_blocks (Key off len)"

lemma unat_behind:
  assumes "valid_extent k" "valid_extent (Key (block_offset k + klen k) len)"
  shows "unat (block_offset k) + unat (klen k) + unat len < 2 ^ 64"
  using assms valid_extent_end [OF assms(1)] by (simp add: valid_extent_def)

lemma free_extend_only:
  assumes ok: "extents_ok xs" and R: "valid_extent (Key off len)" "ext_blocks (Key off len) \<inter> free_blocks xs = {}"
    and xs: "xs = as @ k # bs" "block_offset k + klen k = off" "sorted_less xs"
    and xs': "xs' = as @ Key (block_offset k) (klen k + len) # bs"
  shows "extents_ok xs'" "free_blocks xs' = free_blocks xs \<union> ext_blocks (Key off len)"
proof -
  have v: "valid_extent k" using ok xs by (simp add: extents_ok_def)
  note ext = ext_blocks_extend [OF v unat_behind [OF v R(1) [folded xs(2)]]]
  have "set xs' = insert (Key (block_offset k) (klen k + len)) (set xs - {k})"
    using xs xs' sorted_less_distinct [OF xs(3)] by auto
  from coalesce [OF ok _ ext(2) R(2) _ this] xs ext(1)
  show "extents_ok xs'" "free_blocks xs' = free_blocks xs \<union> ext_blocks (Key off len)" by auto
qed

lemma free_extend_delete:
  assumes ok: "extents_ok xs" and R: "valid_extent (Key off len)" "ext_blocks (Key off len) \<inter> free_blocks xs = {}"
    and xs: "xs = as @ k # bs" "block_offset k + klen k = off" "sorted_less xs"
    and k2: "k2 \<in> set bs" "block_offset k2 = block_offset k + (klen k + len)"
    and xs': "xs' = remove1 k2 (as @ Key (block_offset k) (klen k + len + klen k2) # bs)"
  shows "extents_ok xs'" "free_blocks xs' = free_blocks xs \<union> ext_blocks (Key off len)"
proof -
  let ?k' = "Key (block_offset k) (klen k + len)" and ?k'' = "Key (block_offset k) (klen k + len + klen k2)"
  have v: "valid_extent k" "valid_extent k2" using ok xs k2 by (auto simp: extents_ok_def)
  note e1 = ext_blocks_extend [OF v(1) unat_behind [OF v(1) R(1) [folded xs(2)]]]
  have k2': "Key (block_offset ?k' + klen ?k') (klen k2) = k2" using k2(2) by (cases k2) simp
  have "unat (block_offset ?k') + unat (klen ?k') + unat (klen k2) < 2 ^ 64"
    using unat_behind [OF e1(2)] v(2) k2' by metis
  note e2 = ext_blocks_extend [OF e1(2) this, unfolded k2', simplified]
  have d: "distinct (as @ k # bs)" using sorted_less_distinct [OF xs(3)] xs(1) by simp
  then have "k2 \<noteq> k" using k2(1) by auto
  then have "block_offset k2 \<noteq> block_offset k"
    using extents_ok_offset_inj [OF ok, of k2 k] xs(1) k2(1) by auto
  then have "k2 \<noteq> ?k''" by (metis fsm_btree_key.sel(1))
  with d k2(1) xs(1) have "set xs' = insert ?k'' (set xs - {k, k2})"
    unfolding xs' by (auto simp: remove1_append)
  from coalesce [OF ok _ e2(2) R(2) _ this] xs e1(1) e2(1) k2(1)
  show "extents_ok xs'" "free_blocks xs' = free_blocks xs \<union> ext_blocks (Key off len)" by auto
qed

lemma free_replace_before:
  assumes "valid_extent k" "valid_extent (Key off len)" "off + len = block_offset k"
  shows "valid_extent (Key off (len + klen k))"
    and "ext_blocks (Key off (len + klen k)) = ext_blocks (Key off len) \<union> ext_blocks k"
proof -
  have k: "Key (block_offset (Key off len) + klen (Key off len)) (klen k) = k" using assms(3) by (cases k) simp
  have "unat (block_offset (Key off len)) + unat (klen (Key off len)) + unat (klen k) < 2 ^ 64"
    using unat_behind [OF assms(2)] assms(1) k by metis
  from ext_blocks_extend [OF assms(2) this] k
  show "valid_extent (Key off (len + klen k))"
    and "ext_blocks (Key off (len + klen k)) = ext_blocks (Key off len) \<union> ext_blocks k" by auto
qed

lemma fsm_btree_free_spec:
  assumes inv: "fsm_btree_inv b" and ok: "extents_ok (tree_keys b)" and R: "valid_extent (Key off len)"
    "ext_blocks (Key off len) \<inter> free_blocks (tree_keys b) = {}"
    and run: "fsm_btree_free b off len [] = (r, m', b')"
  shows "r = Success \<and> m' = [] \<and> frees off len b b'"
proof (cases "root b")
  case Null
  with run have ins: "fsm_btree_insert b (Key off len) [] = (r, m', b')" by (simp add: fsm_btree_free_def)
  from fsm.ins_law [OF inv ins] fsm.ins_mem [OF inv ins] fsm.add_extent [OF inv ok R ins]
  show ?thesis by (auto simp: frees_def split: if_splits)
next
  case ErrPtr
  with inv show ?thesis by (simp add: fsm_btree_inv_def)
next
  case (Ptr n)
  then have n: "wf_root (order b) n" "sorted_less (inorder n)" "tree_keys b = inorder n" "2 \<le> order b"
    using inv by (auto simp: fsm_btree_inv_def tree_keys_def)
  obtain n' a where fw: "free_walk off len n = (n', a)" by fastforce
  define b1 where "b1 = b\<lparr>root := Ptr n'\<rparr>"
  have fe: "free_effect off len (tree_keys b) (tree_keys b1) a" and wf: "wf_root (order b1) n'"
    using free_walk_spec [OF _ fw, of "order b"] n by (auto simp: wf_root_def b1_def tree_keys_def)
  have inv1: "fsm_btree_inv b1 \<longleftrightarrow> sorted_less (tree_keys b1)"
    using n(4) wf by (simp add: fsm_btree_inv_def b1_def)
  have so: "sorted_less (tree_keys b)" using n by simp
  have run': "(case a of
      ExtendOnly \<Rightarrow> (Success, [], b1)
    | ExtendDelete k \<Rightarrow> fsm_btree_delete b1 k []
    | ReplaceBefore k \<Rightarrow>
        (case fsm_btree_delete b1 k [] of (_, m1, btree2) \<Rightarrow>
           (case fsm_btree_insert btree2 (Key off (len + klen k)) m1 of
              (_, m2, btree3) \<Rightarrow> (Success, m2, btree3)))
    | NoMatch \<Rightarrow>
        (case fsm_btree_insert b1 (Key off len) [] of (_, m1, btree2) \<Rightarrow> (Success, m1, btree2))
    | NoChild \<Rightarrow> (Oops, [], b1)) = (r, m', b')"
    using run [unfolded fsm_btree_free_def] unfolding Ptr fsm_ptr.case fw prod.case Let_def b1_def .
  show ?thesis
  proof (cases a)
    case ExtendOnly
    with fe obtain as k bs where k: "tree_keys b = as @ k # bs" "block_offset k + klen k = off"
      "tree_keys b1 = as @ Key (block_offset k) (klen k + len) # bs" by (auto simp: free_effect_def)
    note fo = free_extend_only [OF ok R k(1,2) so k(3)]
    have "fsm_btree_inv b1" using inv1 relength_sorted [of as k bs] so ok k by simp
    with fo ExtendOnly run' show ?thesis by (auto simp: frees_def)
  next
    case (ExtendDelete k2)
    with fe obtain as k bs where k: "tree_keys b = as @ k # bs" "block_offset k + klen k = off"
      "k2 \<in> set bs" "block_offset k2 = block_offset k + (klen k + len)"
      "tree_keys b1 = as @ Key (block_offset k) (klen k + len + klen k2) # bs" by (auto simp: free_effect_def)
    have i1: "fsm_btree_inv b1" using inv1 relength_sorted [of as k bs] so ok k by simp
    have del: "fsm_btree_delete b1 k2 [] = (r, m', b')" using ExtendDelete run' by simp
    from fsm.del_law [OF i1 del] have d: "r = Success" "fsm_btree_inv b'" "tree_keys b' = remove1 k2 (tree_keys b1)"
      by auto
    from free_extend_delete [OF ok R k(1,2) so k(3,4) d(3) [unfolded k(5)]] d fsm.del_mem [OF i1 del]
    show ?thesis by (simp add: frees_def)
  next
    case (ReplaceBefore k)
    with fe have k: "tree_keys b1 = tree_keys b" "k \<in> set (tree_keys b)" "off + len = block_offset k"
      by (auto simp: free_effect_def)
    have i1: "fsm_btree_inv b1" using inv1 so k(1) by simp
    obtain r1 m1 b2 where d: "fsm_btree_delete b1 k [] = (r1, m1, b2)" by (metis prod_cases3)
    obtain r2 m2 b3 where i: "fsm_btree_insert b2 (Key off (len + klen k)) m1 = (r2, m2, b3)" by (metis prod_cases3)
    have m1: "m1 = []" "r1 \<noteq> Fail ENOMEM" using fsm.del_mem [OF i1 d] fsm.del_law [OF i1 d] by auto
    note rm = fsm.remove_extent [OF i1 _ _ d m1(2), unfolded k(1), OF ok k(2)]
    have v: "valid_extent k" using ok k(2) by (simp add: extents_ok_def)
    note fb = free_replace_before [OF v R(1) k(3)]
    have dis: "ext_blocks (Key off (len + klen k)) \<inter> free_blocks (tree_keys b2) = {}"
      using fb(2) rm(4) R(2) by auto
    have "r2 \<noteq> Fail ENOMEM" "m2 = []" using fsm.ins_always fsm.ins_mem rm(2) i m1(1) by blast+
    note ad = fsm.add_extent [OF rm(2,3) fb(1) dis i this(1)] and m2 = this(2)
    have "ext_blocks k \<subseteq> free_blocks (tree_keys b)" using k(2) by (auto simp: free_blocks_def)
    with ad rm(4) fb(2) have "frees off len b b3" by (auto simp: frees_def)
    with ReplaceBefore run' d i m1(1) m2 show ?thesis by auto
  next
    case NoMatch
    with fe have k: "tree_keys b1 = tree_keys b" by (simp add: free_effect_def)
    have i1: "fsm_btree_inv b1" using inv1 so k by simp
    obtain r1 m1 b2 where i: "fsm_btree_insert b1 (Key off len) [] = (r1, m1, b2)" by (metis prod_cases3)
    have m1: "m1 = []" "r1 \<noteq> Fail ENOMEM" using fsm.ins_mem [OF i1 i] fsm.ins_always [OF i1 i] by auto
    from fsm.add_extent [OF i1 _ R(1) _ i m1(2)] k ok R(2) have "frees off len b b2"
      by (simp add: frees_def)
    with NoMatch run' i m1(1) show ?thesis by auto
  next
    case NoChild
    with fe show ?thesis by (simp add: free_effect_def)
  qed
qed

section \<open>Destroying the tree\<close>

lemma fsm_btree_destroy_spec:
  assumes "fsm_btree_inv b" "fsm_btree_destroy b = (freed, b')"
  shows "root b' = Null"
    and "mset freed = (case root b of Ptr n \<Rightarrow> mset (nodes n) | _ \<Rightarrow> {#})"
  using assms bfs_nodes_mset [of "[_]" "order b"]
  by (cases "root b"; auto simp: fsm_btree_destroy_def fsm_btree_inv_def wf_root_def)+

end
