(* ===== verification/Fsm.thy ===== *)
theory Fsm
  imports Bitmap Fsm_Btree_Space
begin

text \<open>
  The free-space manager (\<^verbatim>\<open>fsm.c\<close>): the tree of free extents in memory and the bitmap
  of used blocks that goes to disk. Taking blocks updates both; giving blocks back only
  clears their bits, and the tree is built again from the bitmap when a snapshot is
  committed (\<open>fsm_get_tree\<close>, called by \<^verbatim>\<open>vdfs2_sync_metadata\<close>), so that the blocks of the
  last committed state are not reused before.
\<close>

section \<open>State\<close>

text \<open>
  The geometry of the volume (fields of \<^verbatim>\<open>struct vdfs2_sb_info\<close>) and the state of the manager
  (\<^verbatim>\<open>struct vdfs2_fsm_info\<close> and the counters in \<^verbatim>\<open>struct vdfs2_sb_info\<close>). \<open>dirty\<close> lists the
  pages of the bitmap handed to \<^verbatim>\<open>vdfs2_add_chunk_bitmap\<close>.
\<close>

record sb_geometry =
  total_leb_count :: nat
  log_blocks_in_leb :: nat
  block_size_shift :: nat
  log_super_page_size :: nat
  log_erase_block_size :: nat
  log_erase_block_size_in_blocks :: nat

record vdfs2_fsm_info =
  tree :: vdfs2_fsm_btree
  data :: "u8 list"
  page_count :: nat
  length_in_bytes :: nat
  free_blocks_count :: int
  next_free_blocks :: u32
  erase_blocks_counters :: "u32 list"
  dirty :: "nat list"
  mount_finished :: bool

definition PAGE_SHIFT :: nat where
  "PAGE_SHIFT = 12"

abbreviation block_size :: "sb_geometry \<Rightarrow> nat" where
  "block_size g \<equiv> 2 ^ block_size_shift g"

abbreviation total_blocks :: "sb_geometry \<Rightarrow> nat" where
  "total_blocks g \<equiv> total_leb_count g * 2 ^ log_blocks_in_leb g"

text \<open>The page of the bitmap that holds the bit of a block.\<close>

definition bitmap_page :: "sb_geometry \<Rightarrow> nat \<Rightarrow> nat" where
  "bitmap_page g blk =
     (blk div VDFS2_BIT_BLKSIZE (block_size g) FSM_BMP_MAGIC_LEN) mod 2 ^ 32
       div 2 ^ (PAGE_SHIFT - block_size_shift g)"

text \<open>
  The loop over the pages that were changed. The last one is computed from the block
  behind the chunk; a page index at or above \<open>page_count\<close> is a read behind the array.
\<close>

definition mark_pages :: "vdfs2_fsm_info \<Rightarrow> nat \<Rightarrow> nat \<Rightarrow> vdfs2_fsm_info option" where
  "mark_pages s start_page end_page =
     (if start_page \<le> end_page \<and> page_count s \<le> end_page then None
      else Some (s\<lparr>dirty := dirty s @ [start_page..<Suc end_page]\<rparr>))"

section \<open>Taking blocks\<close>

text \<open>The loop over the erase blocks' counters of used blocks.\<close>

fun count_used :: "nat \<Rightarrow> nat \<Rightarrow> nat \<Rightarrow> u32 list \<Rightarrow> u32 list option" where
  "count_used log_eb blk 0 cnt = Some cnt"
| "count_used log_eb blk (Suc n) cnt =
     (let e = blk div 2 ^ log_eb in
      if length cnt \<le> e then None
      else if 2 ^ log_eb < unat (cnt ! e + 1) then None
      else count_used log_eb (blk + 1) n (cnt[e := cnt ! e + 1]))"

text \<open>
  The aligned request: a chunk longer by one superpage is taken and what is cut off at
  its two ends goes back to the tree. \<open>None\<close> is the failed \<^verbatim>\<open>VDFS2_BUG_ON\<close>.
\<close>

definition get_aligned ::
  "sb_geometry \<Rightarrow> vdfs2_fsm_btree \<Rightarrow> u64 \<Rightarrow> u32 \<Rightarrow> mem \<Rightarrow> (u64 \<times> mem \<times> vdfs2_fsm_btree) result" where
  "get_aligned g t boff len m =
     (let bps = (2 ^ (log_super_page_size g - block_size_shift g) :: u32) in
      if len AND (bps - 1) \<noteq> 0 then Bug
      else
        (case fsm_btree_lookup t boff (len + bps) False m of
           Ok (blk, length', m1, t1) \<Rightarrow>
             if blk = 0 then Ok (0, m1, t1)
             else if length' \<noteq> len + bps then Bug
             else
               (let additional_offset = (ucast blk :: u32) AND (bps - 1) in
                if additional_offset = 0 then
                  (case fsm_btree_free t1 (blk + ucast len) (ucast bps) m1 of
                     (_, m2, t2) \<Rightarrow> Ok (blk, m2, t2))
                else
                  (let cut_left = bps - additional_offset in
                   case fsm_btree_free t1 blk (ucast cut_left) m1 of (_, m2, t2) \<Rightarrow>
                     (case fsm_btree_free t2 (blk + ucast cut_left + ucast len) (ucast additional_offset) m2 of
                        (_, m3, t3) \<Rightarrow> Ok (blk + ucast cut_left, m3, t3))))
         | Err e \<Rightarrow> Err e
         | Bug \<Rightarrow> Bug))"

text \<open>
  \<^verbatim>\<open>vdfs2_fsm_get_free_block\<close>: the block number (0 for no space), the length granted and the
  new state. The tree is changed first; the bitmap, the counter of free blocks and the
  counters of the erase blocks follow.
\<close>

definition take_blocks ::
  "sb_geometry \<Rightarrow> vdfs2_fsm_info \<Rightarrow> u64 \<Rightarrow> u32 \<Rightarrow> bool \<Rightarrow> vdfs2_fsm_info result" where
  "take_blocks g s blk len da =
     (let s1 = (if da then s else s\<lparr>free_blocks_count := free_blocks_count s - uint len\<rparr>) in
      if length_in_bytes s1 * 8 < unat (blk + ucast len) then Bug
      else
        (case vdfs2_set_bits (data s1) (unat blk) (unat len) FSM_BMP_MAGIC_LEN (block_size g) of
           (r, data') \<Rightarrow>
             if r \<noteq> Success then Bug
             else
               (case count_used (log_erase_block_size_in_blocks g) (unat blk) (unat len) (erase_blocks_counters s1) of
                  None \<Rightarrow> Bug
                | Some cnt \<Rightarrow>
                    (case mark_pages (s1\<lparr>data := data', erase_blocks_counters := cnt\<rparr>)
                            (bitmap_page g (unat blk)) (bitmap_page g (unat (blk + ucast len))) of
                       None \<Rightarrow> Bug
                     | Some s2 \<Rightarrow> Ok s2))))"

definition tree_request ::
  "sb_geometry \<Rightarrow> vdfs2_fsm_btree \<Rightarrow> u64 \<Rightarrow> u32 \<Rightarrow> bool \<Rightarrow> mem \<Rightarrow>
   (u64 \<times> u32 \<times> mem \<times> vdfs2_fsm_btree) result" where
  "tree_request g t boff0 len alignment m =
     (let boff = (if of_nat (total_blocks g) \<le> boff0 + ucast len then 0 else boff0) in
      if alignment then
        (case get_aligned g t boff len m of
           Ok (blk, m1, t1) \<Rightarrow> Ok (blk, len, m1, t1) | Err e \<Rightarrow> Err e | Bug \<Rightarrow> Bug)
      else fsm_btree_lookup t boff len True m)"

definition vdfs2_fsm_get_free_block ::
  "sb_geometry \<Rightarrow> vdfs2_fsm_info \<Rightarrow> u64 \<Rightarrow> u32 \<Rightarrow> bool \<Rightarrow> bool \<Rightarrow> mem \<Rightarrow>
   (u64 \<times> u32 \<times> mem \<times> vdfs2_fsm_info) result" where
  "vdfs2_fsm_get_free_block g s boff0 len alignment da m =
     (if free_blocks_count s < uint len \<and> \<not> da then Ok (0, len, m, s)
      else
        (case tree_request g (tree s) boff0 len alignment m of
           Ok (blk, len', m1, t1) \<Rightarrow>
             (let s1 = s\<lparr>tree := t1\<rparr> in
              if blk = 0 then Ok (0, len', m1, s1)
              else (case take_blocks g s1 blk len' da of
                      Ok s2 \<Rightarrow> Ok (blk, len', m1, s2) | Err e \<Rightarrow> Err e | Bug \<Rightarrow> Bug))
         | Err e \<Rightarrow> Err e
         | Bug \<Rightarrow> Bug))"

section \<open>Giving blocks back\<close>

fun count_freed :: "nat \<Rightarrow> u64 \<Rightarrow> nat \<Rightarrow> nat \<Rightarrow> u32 list \<Rightarrow> u32 list option" where
  "count_freed log_eb blk i 0 cnt = Some cnt"
| "count_freed log_eb blk i (Suc n) cnt =
     (let e = unat (ucast (blk + of_nat i) :: u32) div 2 ^ log_eb in
      if length cnt \<le> e then None
      else count_freed log_eb blk (i + 1) n (cnt[e := cnt ! e - 1]))"

definition fsm_free_block_chunk ::
  "sb_geometry \<Rightarrow> vdfs2_fsm_info \<Rightarrow> u64 \<Rightarrow> u32 \<Rightarrow> ret \<times> vdfs2_fsm_info" where
  "fsm_free_block_chunk g s blk len =
     (if length_in_bytes s * 8 < unat (blk + ucast len) then
        (if mount_finished s then (Oops, s) else (Success, s))
      else
        (case vdfs2_clear_bits (data s) (unat blk) (unat len) FSM_BMP_MAGIC_LEN (block_size g) of
           (r, data') \<Rightarrow>
             if r \<noteq> Success then
               (if mount_finished s \<or> r = Oops then (Oops, s\<lparr>data := data'\<rparr>) else (r, s\<lparr>data := data'\<rparr>))
             else
               (case count_freed (log_erase_block_size_in_blocks g) blk 0 (unat len) (erase_blocks_counters s) of
                  None \<Rightarrow> (Oops, s\<lparr>data := data'\<rparr>)
                | Some cnt \<Rightarrow>
                    (case mark_pages (s\<lparr>data := data', next_free_blocks := next_free_blocks s + len,
                              erase_blocks_counters := cnt\<rparr>)
                            (bitmap_page g (unat blk)) (bitmap_page g (unat (blk + ucast len))) of
                       None \<Rightarrow> (Oops, s\<lparr>data := data', erase_blocks_counters := cnt\<rparr>)
                     | Some s2 \<Rightarrow> (Success, s2)))))"

definition vdfs2_fsm_put_free_block ::
  "sb_geometry \<Rightarrow> vdfs2_fsm_info \<Rightarrow> u64 \<Rightarrow> u32 \<Rightarrow> ret \<times> vdfs2_fsm_info" where
  "vdfs2_fsm_put_free_block g s offset len = fsm_free_block_chunk g s offset len"

text \<open>The preallocated blocks of a file go straight back to the tree: their bits were never set.\<close>

record prealloc =
  prealloc_start_block :: u64
  prealloc_block_count :: u32

definition vdfs2_fsm_discard_preallocation ::
  "vdfs2_fsm_info \<Rightarrow> prealloc \<Rightarrow> mem \<Rightarrow> mem \<times> vdfs2_fsm_info \<times> prealloc" where
  "vdfs2_fsm_discard_preallocation s fork m =
     (if prealloc_start_block fork \<noteq> 0 \<and> prealloc_block_count fork \<noteq> 0 then
        (case fsm_btree_free (tree s) (prealloc_start_block fork) (ucast (prealloc_block_count fork)) m of
           (_, m1, t) \<Rightarrow>
             (m1, s\<lparr>tree := t\<rparr>, fork\<lparr>prealloc_start_block := 0, prealloc_block_count := 0\<rparr>))
      else (m, s, fork))"

section \<open>Building the tree from the bitmap\<close>

definition fsm_insert ::
  "vdfs2_fsm_info \<Rightarrow> u64 \<Rightarrow> u64 \<Rightarrow> mem \<Rightarrow> ret \<times> mem \<times> vdfs2_fsm_info" where
  "fsm_insert s boff len m =
     (if len = 0 then (Oops, m, s)
      else
        (case fsm_btree_insert (tree s) (Key boff len) m of (r, m1, t) \<Rightarrow>
           if r \<noteq> Success then (Fail EPERM, m1, s\<lparr>tree := t\<rparr>)
           else (Success, m1, s\<lparr>tree := t, free_blocks_count := free_blocks_count s + sint len\<rparr>)))"

lemma fsm_insert_nonempty: "fsm_insert s b (of_nat d) m = (Success, m1, s1) \<Longrightarrow> 0 < d"
  by (cases d) (auto simp: fsm_insert_def)

fun count_erase :: "sb_geometry \<Rightarrow> nat \<Rightarrow> nat \<Rightarrow> u32 list \<Rightarrow> u32 list option" where
  "count_erase g i 0 cnt = Some cnt"
| "count_erase g i (Suc n) cnt =
     (let e = i * 2 ^ block_size_shift g div 2 ^ log_erase_block_size g in
      if length cnt \<le> e then None
      else count_erase g (i + 1) n (cnt[e := cnt ! e + 1]))"

datatype find_mode = FIND_CLEAR_BIT | FIND_SET_BIT

text \<open>
  The loop of \<^verbatim>\<open>fsm_get_tree\<close>. The two modes alternate; in mode \<open>FIND_SET_BIT\<close>
  \<^verbatim>\<open>free_start\<close> is the current position. An insertion of no blocks is a \<^verbatim>\<open>BUG_ON\<close>.
\<close>

function fsm_tree_loop ::
  "sb_geometry \<Rightarrow> nat \<Rightarrow> find_mode \<Rightarrow> nat \<Rightarrow> vdfs2_fsm_info \<Rightarrow> mem
   \<Rightarrow> ret \<times> find_mode \<times> nat \<times> mem \<times> vdfs2_fsm_info" where
  "fsm_tree_loop g bits_count mode pos s m =
     (if \<not> pos + 1 < bits_count then (Success, mode, pos, m, s)
      else
        (case mode of
           FIND_CLEAR_BIT \<Rightarrow>
             (let free_start = vdfs2_find_next_zero_bit (data s) bits_count pos (block_size g) FSM_BMP_MAGIC_LEN in
              case count_erase g pos (free_start - pos) (erase_blocks_counters s) of
                None \<Rightarrow> (Oops, mode, pos, m, s)
              | Some cnt \<Rightarrow>
                  fsm_tree_loop g bits_count FIND_SET_BIT (pos + (free_start - pos))
                    (s\<lparr>erase_blocks_counters := cnt\<rparr>) m)
         | FIND_SET_BIT \<Rightarrow>
             (let free_end = vdfs2_find_next_bit (data s) bits_count pos (block_size g) FSM_BMP_MAGIC_LEN in
              case fsm_insert s (of_nat pos) (of_nat (free_end - pos)) m of (r, m1, s1) \<Rightarrow>
                if r \<noteq> Success then (r, mode, pos + (free_end - pos), m1, s1)
                else fsm_tree_loop g bits_count FIND_CLEAR_BIT (pos + (free_end - pos)) s1 m1)))"
  by pat_completeness auto
termination
  by (relation "measure (\<lambda>(g, n, mode, pos, s, m). 2 * (n - pos) + (if mode = FIND_CLEAR_BIT then 1 else 0))")
    (auto dest!: fsm_insert_nonempty [OF sym])

declare fsm_tree_loop.simps [simp del]

definition fsm_get_tree ::
  "sb_geometry \<Rightarrow> vdfs2_fsm_info \<Rightarrow> mem \<Rightarrow> ret \<times> mem \<times> vdfs2_fsm_info" where
  "fsm_get_tree g s m =
     (let bits_count = total_blocks g;
          s0 = s\<lparr>erase_blocks_counters :=
            replicate (bits_count * 2 ^ block_size_shift g div 2 ^ log_erase_block_size g + 1) 0\<rparr> in
      case fsm_tree_loop g bits_count FIND_CLEAR_BIT 0 s0 m of (r, mode, pos, m1, s1) \<Rightarrow>
        if r \<noteq> Success then (r, m1, s1)
        else if mode = FIND_SET_BIT \<and> pos < bits_count then
          (case fsm_insert s1 (of_nat pos) (of_nat pos - 1 - of_nat pos) m1 of (r', m2, s2) \<Rightarrow>
             (if r' = Oops then Oops else Success, m2, s2))
        else (Success, m1, s1))"

text \<open>
  The part of \<^verbatim>\<open>vdfs2_sync_metadata\<close> that belongs to the free-space manager, after the
  metadata were written: the tree is thrown away and built again.
\<close>

definition fsm_rebuild ::
  "sb_geometry \<Rightarrow> vdfs2_fsm_info \<Rightarrow> mem \<Rightarrow> ret \<times> mem \<times> vdfs2_fsm_info" where
  "fsm_rebuild g s m =
     fsm_get_tree g (s\<lparr>tree := snd (fsm_btree_destroy (tree s)), free_blocks_count := 0,
       next_free_blocks := 0\<rparr>) m"

end
