(* ===== verification/Fsm_Inv.thy ===== *)
theory Fsm_Inv
  imports Fsm
begin

text \<open>
  Correctness of the free-space manager: the invariant that ties the tree, the bitmap and
  the erase block counters together, and its preservation when blocks are taken, given
  back, and when the tree is rebuilt.
\<close>

section \<open>The invariant\<close>

abbreviation used_bit :: "sb_geometry \<Rightarrow> vdfs2_fsm_info \<Rightarrow> nat \<Rightarrow> bool" where
  "used_bit g s \<equiv> bm_bit (block_size g) FSM_BMP_MAGIC_LEN (data s)"

abbreviation tree_free :: "vdfs2_fsm_info \<Rightarrow> nat set" where
  "tree_free s \<equiv> free_blocks (tree_keys (tree s))"

text \<open>What does not change after the volume is mounted.\<close>

definition fsm_geometry_ok :: "sb_geometry \<Rightarrow> vdfs2_fsm_info \<Rightarrow> bool" where
  "fsm_geometry_ok g s \<longleftrightarrow>
     good_layout (block_size g) FSM_BMP_MAGIC_LEN \<and> block_size_shift g \<le> PAGE_SHIFT \<and>
     0 < total_blocks g \<and> total_blocks g < 2 ^ 31 \<and>
     (\<forall>i<total_blocks g. bm_has (block_size g) FSM_BMP_MAGIC_LEN (data s) i) \<and>
     total_blocks g \<le> length_in_bytes s * 8 \<and>
     bitmap_page g (total_blocks g) < page_count s \<and>
     log_erase_block_size g = block_size_shift g + log_erase_block_size_in_blocks g \<and>
     log_erase_block_size_in_blocks g < 32"

text \<open>An erase block's counter is the number of its blocks that are in use.\<close>

definition counters_ok :: "nat \<Rightarrow> nat \<Rightarrow> (nat \<Rightarrow> bool) \<Rightarrow> u32 list \<Rightarrow> bool" where
  "counters_ok log_eb n used cnt \<longleftrightarrow> n div 2 ^ log_eb < length cnt \<and>
     (\<forall>e<length cnt. unat (cnt ! e) = card {i. i < n \<and> used i \<and> i div 2 ^ log_eb = e})"

definition fsm_inv :: "sb_geometry \<Rightarrow> vdfs2_fsm_info \<Rightarrow> bool" where
  "fsm_inv g s \<longleftrightarrow> fsm_geometry_ok g s \<and>
     fsm_btree_inv (tree s) \<and> extents_ok (tree_keys (tree s)) \<and>
     (\<forall>i\<in>tree_free s. 0 < i \<and> i < total_blocks g \<and> \<not> used_bit g s i) \<and>
     counters_ok (log_erase_block_size_in_blocks g) (total_blocks g) (used_bit g s) (erase_blocks_counters s)"

section \<open>Counters of erase blocks\<close>

lemma card_erase_block:
  fixes n e :: nat
  shows "card {i. i < n \<and> used i \<and> i div 2 ^ l = e} \<le> 2 ^ l"
proof -
  have "{i. i < n \<and> used i \<and> i div 2 ^ l = e} \<subseteq> {e * 2 ^ l ..< e * 2 ^ l + 2 ^ l}"
  proof
    fix i :: nat assume "i \<in> {i. i < n \<and> used i \<and> i div 2 ^ l = e}"
    then have "e = i div 2 ^ l" by simp
    with div_times_less_eq_dividend [of i "2 ^ l"] dividend_less_div_times [of "2 ^ l" i]
    show "i \<in> {e * 2 ^ l ..< e * 2 ^ l + 2 ^ l}" by (simp add: add.commute)
  qed
  then have "card {i. i < n \<and> used i \<and> i div 2 ^ l = e} \<le> card {e * 2 ^ l ..< e * 2 ^ l + 2 ^ l}"
    by (rule card_mono [rotated]) simp
  then show ?thesis by simp
qed

lemma card_mark:
  fixes n e :: nat
  assumes "b < n" "\<not> used b"
  shows "card {i. i < n \<and> (i = b \<or> used i) \<and> i div 2 ^ l = e} =
    (if b div 2 ^ l = e then 1 else 0) + card {i. i < n \<and> used i \<and> i div 2 ^ l = e}"
proof -
  let ?S = "{i. i < n \<and> used i \<and> i div 2 ^ l = e}"
  have "{i. i < n \<and> (i = b \<or> used i) \<and> i div 2 ^ l = e} = (if b div 2 ^ l = e then insert b ?S else ?S)"
    using assms by auto
  then show ?thesis using assms by simp
qed

lemma card_unmark:
  fixes n e :: nat
  assumes "b < n" "used b"
  shows "card {i. i < n \<and> used i \<and> i div 2 ^ l = e} =
    (if b div 2 ^ l = e then 1 else 0) + card {i. i < n \<and> (i \<noteq> b \<and> used i) \<and> i div 2 ^ l = e}"
proof -
  have "{i. i < n \<and> used i \<and> i div 2 ^ l = e} = {i. i < n \<and> (i = b \<or> i \<noteq> b \<and> used i) \<and> i div 2 ^ l = e}"
    using assms by auto
  then show ?thesis using card_mark [where used = "\<lambda>i. i \<noteq> b \<and> used i", OF assms(1)] by simp
qed

lemma div_index: "b < n \<Longrightarrow> n div 2 ^ l < len \<Longrightarrow> b div 2 ^ l < (len::nat)"
  using div_le_mono [of b n "2 ^ l"] by simp

lemma counters_bump:
  assumes ok: "counters_ok l n used cnt" and b: "b < n" "\<not> used b" and l: "l < 32"
  shows "b div 2 ^ l < length cnt" "unat (cnt ! (b div 2 ^ l) + 1) \<le> 2 ^ l"
    and "counters_ok l n (\<lambda>i. i = b \<or> used i) (cnt[b div 2 ^ l := cnt ! (b div 2 ^ l) + 1])"
proof -
  let ?e = "b div 2 ^ l"
  show e: "?e < length cnt" using ok div_index [OF b(1)] by (auto simp: counters_ok_def)
  have card: "card {i. i < n \<and> (i = b \<or> used i) \<and> i div 2 ^ l = ?e} = Suc (unat (cnt ! ?e))"
    using card_mark [where used = used, OF b, of l ?e] ok e by (simp add: counters_ok_def)
  have le: "Suc (unat (cnt ! ?e)) \<le> 2 ^ l" using card_erase_block [of n "\<lambda>i. i = b \<or> used i" l ?e] card by simp
  have "(2::nat) ^ l \<le> 2 ^ 31" using l by (intro power_increasing) auto
  with le have small: "Suc (unat (cnt ! ?e)) < 2 ^ 32" by simp
  then have plus: "unat (cnt ! ?e + 1) = Suc (unat (cnt ! ?e))" by (simp add: unat_word_ariths)
  with le show "unat (cnt ! ?e + 1) \<le> 2 ^ l" by simp
  show "counters_ok l n (\<lambda>i. i = b \<or> used i) (cnt[?e := cnt ! ?e + 1])"
    unfolding counters_ok_def
  proof (intro conjI allI impI)
    show "n div 2 ^ l < length (cnt[?e := cnt ! ?e + 1])" using ok by (simp add: counters_ok_def)
    fix e' assume "e' < length (cnt[?e := cnt ! ?e + 1])"
    then show "unat (cnt[?e := cnt ! ?e + 1] ! e') = card {i. i < n \<and> (i = b \<or> used i) \<and> i div 2 ^ l = e'}"
      using card plus card_mark [where used = used, OF b, of l e'] ok e by (auto simp: counters_ok_def nth_list_update)
  qed
qed

lemma count_used_ok:
  assumes "counters_ok l n used cnt" "b + c \<le> n" "\<forall>i. b \<le> i \<longrightarrow> i < b + c \<longrightarrow> \<not> used i" "l < 32"
  shows "\<exists>cnt'. count_used l b c cnt = Some cnt' \<and>
    counters_ok l n (\<lambda>i. b \<le> i \<and> i < b + c \<or> used i) cnt'"
  using assms
proof (induction c arbitrary: b used cnt)
  case 0
  have "(\<lambda>i. b \<le> i \<and> i < b + 0 \<or> used i) = used" by auto
  with 0 show ?case by simp
next
  case (Suc c)
  have b: "b < n" "\<not> used b" using Suc.prems by auto
  note bump = counters_bump [where used = used, OF Suc.prems(1) b Suc.prems(4)]
  from Suc.IH [OF bump(3), of "Suc b"] Suc.prems obtain cnt' where
    c': "count_used l (Suc b) c (cnt[b div 2 ^ l := cnt ! (b div 2 ^ l) + 1]) = Some cnt'"
      "counters_ok l n (\<lambda>i. Suc b \<le> i \<and> i < Suc b + c \<or> (i = b \<or> used i)) cnt'" by auto
  have "(\<lambda>i. Suc b \<le> i \<and> i < Suc b + c \<or> (i = b \<or> used i)) = (\<lambda>i. b \<le> i \<and> i < b + Suc c \<or> used i)"
    by (auto simp: fun_eq_iff)
  with c' bump(1,2) show ?case by (auto simp: Let_def)
qed

lemma count_freed_ok:
  assumes "counters_ok l n used cnt" "unat b + i + c \<le> n" "n < 2 ^ 31"
    and "\<forall>j. unat b + i \<le> j \<longrightarrow> j < unat b + i + c \<longrightarrow> used j"
  shows "\<exists>cnt'. count_freed l b i c cnt = Some cnt' \<and>
    counters_ok l n (\<lambda>j. used j \<and> \<not> (unat b + i \<le> j \<and> j < unat b + i + c)) cnt'"
  using assms
proof (induction c arbitrary: i used cnt)
  case 0
  have "(\<lambda>j. used j \<and> \<not> (unat b + i \<le> j \<and> j < unat b + i + 0)) = used" by auto
  with 0 show ?case by simp
next
  case (Suc c)
  let ?b = "unat b + i"
  have lt: "?b < n" "used ?b" using Suc.prems by auto
  have "unat (b + of_nat i) = ?b"
    using lt Suc.prems(3) by (simp add: unat_word_ariths unat_of_nat)
  then have idx: "unat (ucast (b + of_nat i) :: u32) = ?b"
    using lt Suc.prems(3) by (simp add: unsigned_ucast_eq take_bit_nat_eq_self)
  let ?e = "?b div 2 ^ l"
  have e: "?e < length cnt" using Suc.prems(1) div_index [OF lt(1)] by (auto simp: counters_ok_def)
  have card: "unat (cnt ! ?e) = Suc (card {i. i < n \<and> (i \<noteq> ?b \<and> used i) \<and> i div 2 ^ l = ?e})"
    using card_unmark [where used = used, OF lt, of l ?e] Suc.prems(1) e by (simp add: counters_ok_def)
  then have minus: "unat (cnt ! ?e - 1) = card {i. i < n \<and> (i \<noteq> ?b \<and> used i) \<and> i div 2 ^ l = ?e}"
    by (simp add: unat_sub word_le_nat_alt)
  have "counters_ok l n (\<lambda>i. i \<noteq> ?b \<and> used i) (cnt[?e := cnt ! ?e - 1])"
    unfolding counters_ok_def
  proof (intro conjI allI impI)
    show "n div 2 ^ l < length (cnt[?e := cnt ! ?e - 1])" using Suc.prems(1) by (simp add: counters_ok_def)
    fix e' assume "e' < length (cnt[?e := cnt ! ?e - 1])"
    then show "unat (cnt[?e := cnt ! ?e - 1] ! e') = card {i. i < n \<and> (i \<noteq> ?b \<and> used i) \<and> i div 2 ^ l = e'}"
      using minus card_unmark [where used = used, OF lt, of l e'] Suc.prems(1) e
      by (auto simp: counters_ok_def nth_list_update)
  qed
  from Suc.IH [OF this, of "i + 1"] Suc.prems obtain cnt' where
    c': "count_freed l b (i + 1) c (cnt[?e := cnt ! ?e - 1]) = Some cnt'"
      "counters_ok l n (\<lambda>j. (j \<noteq> ?b \<and> used j) \<and> \<not> (unat b + (i + 1) \<le> j \<and> j < unat b + (i + 1) + c)) cnt'"
    by auto
  have "(\<lambda>j. (j \<noteq> ?b \<and> used j) \<and> \<not> (unat b + (i + 1) \<le> j \<and> j < unat b + (i + 1) + c)) =
      (\<lambda>j. used j \<and> \<not> (?b \<le> j \<and> j < ?b + Suc c))"
    by (auto simp: fun_eq_iff)
  with c' e idx show ?case by (auto simp: Let_def)
qed

section \<open>Taking blocks\<close>

lemma bitmap_page_mono:
  assumes "good_layout (block_size g) FSM_BMP_MAGIC_LEN" "i \<le> j" "j < 2 ^ 31"
  shows "bitmap_page g i \<le> bitmap_page g j"
proof -
  let ?D = "VDFS2_BIT_BLKSIZE (block_size g) FSM_BMP_MAGIC_LEN"
  have "i div ?D \<le> i" "j div ?D \<le> j" by (rule div_le_dividend)+
  moreover have "i < 2 ^ 32" "j < 2 ^ 32" using assms(2,3) by simp_all
  ultimately have "i div ?D < 2 ^ 32" "j div ?D < 2 ^ 32" using le_less_trans by blast+
  then have "i div ?D mod 2 ^ 32 = i div ?D" "j div ?D mod 2 ^ 32 = j div ?D" using mod_less by blast+
  then show ?thesis using assms(2) by (simp add: bitmap_page_def div_le_mono)
qed

lemma granted_bounds:
  assumes "granted_blocks blk len \<subseteq> {i. i < n}" "len \<noteq> 0" "n < 2 ^ 31"
    "unat blk + unat len < 2 ^ 64"
  shows "unat blk + unat len \<le> n" "unat (blk + ucast len) = unat blk + unat len"
proof -
  have "0 < unat len" using assms(2) by (simp add: unat_gt_0)
  then have "unat blk + unat len - 1 \<in> granted_blocks blk len" by (auto simp: granted_blocks_def ext_blocks_def)
  with assms(1) show "unat blk + unat len \<le> n" by auto
  show "unat (blk + ucast len) = unat blk + unat len" using assms(4) by (simp add: unat_word_ariths)
qed

text \<open>Whatever free blocks the tree granted, the bitmap and the counters accept them.\<close>

lemma take_blocks_ok:
  assumes inv: "fsm_inv g s" and gr: "grants (tree s) blk len t" and len: "len \<noteq> 0"
    "unat blk + unat len < 2 ^ 64"
  shows "\<exists>s'. take_blocks g (s\<lparr>tree := t\<rparr>) blk len da = Ok s' \<and> fsm_inv g s' \<and>
    tree s' = t \<and> (\<forall>i. used_bit g s' i = (i \<in> granted_blocks blk len \<or> used_bit g s i)) \<and>
    free_blocks_count s' = free_blocks_count s - (if da then 0 else uint len) \<and>
    (\<forall>p. p \<in> set (dirty s') \<longleftrightarrow> p \<in> set (dirty s) \<or>
      bitmap_page g (unat blk) \<le> p \<and> p \<le> bitmap_page g (unat blk + unat len))"
proof -
  let ?N = "total_blocks g" and ?bs = "block_size g" and ?ml = FSM_BMP_MAGIC_LEN
  have geo: "fsm_geometry_ok g s" using inv by (simp add: fsm_inv_def)
  have gl: "good_layout ?bs ?ml" and N: "?N < 2 ^ 31" using geo by (auto simp: fsm_geometry_ok_def)
  have sub: "granted_blocks blk len \<subseteq> tree_free s" using gr by (simp add: grants_def)
  then have free: "\<forall>i\<in>granted_blocks blk len. i < ?N \<and> \<not> used_bit g s i" using inv by (auto simp: fsm_inv_def)
  note bnd = granted_bounds [of blk len ?N, OF _ len(1) N len(2)]
  have le: "unat blk + unat len \<le> ?N" and sum: "unat (blk + ucast len) = unat blk + unat len"
    using bnd free by auto
  have gb: "i \<in> granted_blocks blk len \<longleftrightarrow> unat blk \<le> i \<and> i < unat blk + unat len" for i
    by (auto simp: granted_blocks_def ext_blocks_def)
  have "\<forall>j. unat blk \<le> j \<longrightarrow> j < unat blk + unat len \<longrightarrow> bm_has ?bs ?ml (data s) j \<and> \<not> used_bit g s j"
    using free geo le gb by (auto simp: fsm_geometry_ok_def)
  from bitmap_layout.set_bits_ok [OF bitmap_layout.intro [OF gl] this] obtain d where
    d: "vdfs2_set_bits (data s) (unat blk) (unat len) ?ml ?bs = (Success, d)"
      "\<forall>j. bm_has ?bs ?ml d j = bm_has ?bs ?ml (data s) j \<and>
        bm_bit ?bs ?ml d j = (unat blk \<le> j \<and> j < unat blk + unat len \<or> used_bit g s j)" by blast
  have co: "counters_ok (log_erase_block_size_in_blocks g) ?N (used_bit g s) (erase_blocks_counters s)"
    using inv by (simp add: fsm_inv_def)
  from count_used_ok [OF co le] free gb geo obtain cnt where
    c: "count_used (log_erase_block_size_in_blocks g) (unat blk) (unat len) (erase_blocks_counters s) = Some cnt"
      "counters_ok (log_erase_block_size_in_blocks g) ?N
        (\<lambda>i. unat blk \<le> i \<and> i < unat blk + unat len \<or> used_bit g s i) cnt"
    by (auto simp: fsm_geometry_ok_def)
  have pg: "bitmap_page g (unat blk + unat len) < page_count s"
    using bitmap_page_mono [OF gl le N] geo by (auto simp: fsm_geometry_ok_def)
  have fin: "unat blk + unat len \<le> length_in_bytes s * 8" using le geo by (auto simp: fsm_geometry_ok_def)
  define s1 where "s1 = (if da then s\<lparr>tree := t\<rparr> else s\<lparr>tree := t, free_blocks_count := free_blocks_count s - uint len\<rparr>)"
  define s' where "s' = s1\<lparr>data := d, erase_blocks_counters := cnt,
    dirty := dirty s @ [bitmap_page g (unat blk)..<Suc (bitmap_page g (unat blk + unat len))]\<rparr>"
  have run: "take_blocks g (s\<lparr>tree := t\<rparr>) blk len da = Ok s'"
    using d(1) c(1) pg fin sum unfolding take_blocks_def s'_def s1_def
    by (cases da) (simp_all add: Let_def mark_pages_def)
  have used: "used_bit g s' i = (i \<in> granted_blocks blk len \<or> used_bit g s i)" for i
    using d(2) gb by (simp add: s'_def)
  have tr: "tree s' = t" by (simp add: s'_def s1_def)
  have geo': "fsm_geometry_ok g s'"
    using geo d(2) unfolding s'_def s1_def by (cases da) (simp_all add: fsm_geometry_ok_def)
  have cnt: "erase_blocks_counters s' = cnt" by (simp add: s'_def)
  have ubit: "used_bit g s' = (\<lambda>i. unat blk \<le> i \<and> i < unat blk + unat len \<or> used_bit g s i)"
    using used gb by (auto simp: fun_eq_iff)
  have "fsm_inv g s'"
    unfolding fsm_inv_def tr ubit cnt
    using geo' c(2) gr inv by (auto simp: grants_def fsm_inv_def gb)
  with run used tr show ?thesis
    by (auto simp: s'_def s1_def)
qed

text \<open>The lookup of the tree, seen as a grant.\<close>

lemma lookup_outcome:
  assumes "fsm_btree_inv b" "extents_ok (tree_keys b)" "0 \<notin> free_blocks (tree_keys b)"
  shows "\<exists>blk len' b'. fsm_btree_lookup b off len crl [] = Ok (blk, len', [], b') \<and>
    (blk = 0 \<and> b' = b \<and> len' = len \<or>
     blk \<noteq> 0 \<and> grants b blk len' b' \<and> unat len' \<le> unat len \<and> (\<not> crl \<longrightarrow> len' = len) \<and>
     (len \<noteq> 0 \<longrightarrow> len' \<noteq> 0) \<and> unat blk + unat len' < 2 ^ 64)"
proof (cases "\<exists>k\<in>set (tree_keys b). extent_fits len crl k")
  case True
  from fsm_btree_lookup_found [OF assms(1,2) True, of off "[]"] obtain k where
    k: "k \<in> set (tree_keys b)" "extent_fits len crl k"
      "fsm_btree_lookup b off len crl [] = Ok (lookup_take b k len [])" by blast
  obtain blk len' m' b' where r: "lookup_take b k len [] = (blk, len', m', b')" by (metis prod_cases4)
  have v: "valid_extent k" using assms(2) k(1) by (simp add: extents_ok_def)
  note g = lookup_take_granted [OF assms(1,2) k(1) r]
  have "m' = []"
  proof -
    obtain r1 m1 b1 where d: "fsm_btree_delete b k [] = (r1, m1, b1)" by (metis prod_cases3)
    have m1: "m1 = []" "r1 = Success" "fsm_btree_inv b1"
      using fsm.del_mem [OF assms(1) d] fsm.del_law [OF assms(1) d] by auto
    show ?thesis
    proof (cases "ucast len < klen k")
      case True
      obtain r2 m2 b2 where i: "fsm_btree_insert b1 (Key (block_offset k + ucast len) (klen k - ucast len)) []
          = (r2, m2, b2)" by (metis prod_cases3)
      from fsm.ins_mem [OF m1(3) i] r True d m1 i show ?thesis by (auto simp: lookup_take_def)
    next
      case False
      then have "Key (block_offset k) (ucast (ucast (klen k) :: u32)) = k"
        using ucast_down_up [of "klen k" len] by (cases k) simp
      with r False d m1 show ?thesis by (auto simp: lookup_take_def Let_def)
    qed
  qed
  moreover have "blk \<noteq> 0"
    using g v valid_extent_start [of k] k(1) assms(3) by (auto simp: free_blocks_def)
  moreover have "len' \<noteq> 0" if "len \<noteq> 0"
  proof -
    have "0 < unat (klen k)" using v by (simp add: valid_extent_def word_less_nat_alt)
    moreover have "0 < unat len" using that by (simp add: unat_gt_0)
    ultimately have "0 < unat len'" using g by simp
    then show ?thesis by auto
  qed
  moreover have "unat blk + unat len' < 2 ^ 64"
  proof -
    have "unat blk + unat len' \<le> unat (block_offset k) + unat (klen k)" using g by simp
    then show ?thesis using v unfolding valid_extent_def by linarith
  qed
  moreover have "\<not> crl \<longrightarrow> len' = len" using g extent_fits_len [of len k] k(2) by (auto simp: word_unat_eq_iff)
  ultimately show ?thesis using g k(3) r by auto
qed (use fsm_btree_lookup_none [OF assms(1)] in auto)

text \<open>The outcome of a request to the tree, and what the manager makes of it.\<close>

definition request_ok :: "vdfs2_fsm_btree \<Rightarrow> u32 \<Rightarrow> (u64 \<times> u32 \<times> mem \<times> vdfs2_fsm_btree) result \<Rightarrow> bool" where
  "request_ok t len res \<longleftrightarrow> (\<exists>blk len' t'. res = Ok (blk, len', [], t') \<and>
     (blk = 0 \<and> t' = t \<or>
      blk \<noteq> 0 \<and> grants t blk len' t' \<and> unat len' \<le> unat len \<and> len' \<noteq> 0 \<and> unat blk + unat len' < 2 ^ 64))"

definition block_granted ::
  "sb_geometry \<Rightarrow> vdfs2_fsm_info \<Rightarrow> u64 \<Rightarrow> u32 \<Rightarrow> bool \<Rightarrow> vdfs2_fsm_info \<Rightarrow> bool" where
  "block_granted g s blk len da s' \<longleftrightarrow>
     granted_blocks blk len \<subseteq> tree_free s \<and>
     tree_free s' = tree_free s - granted_blocks blk len \<and>
     (\<forall>i. used_bit g s' i = (i \<in> granted_blocks blk len \<or> used_bit g s i)) \<and>
     free_blocks_count s' = free_blocks_count s - (if da then 0 else uint len)"

lemma get_free_block_request:
  assumes inv: "fsm_inv g s"
    and req: "\<not> (free_blocks_count s < uint len \<and> \<not> da) \<Longrightarrow> request_ok (tree s) len (tree_request g (tree s) off len al [])"
  shows "\<exists>blk len' s'. vdfs2_fsm_get_free_block g s off len al da [] = Ok (blk, len', [], s') \<and> fsm_inv g s' \<and>
    (if blk = 0 then s' = s else unat len' \<le> unat len \<and> len' \<noteq> 0 \<and> block_granted g s blk len' da s')"
proof (cases "free_blocks_count s < uint len \<and> \<not> da")
  case True
  with inv show ?thesis by (simp add: vdfs2_fsm_get_free_block_def)
next
  case False
  with req obtain blk len' t where r: "tree_request g (tree s) off len al [] = Ok (blk, len', [], t)"
    "blk = 0 \<and> t = tree s \<or> blk \<noteq> 0 \<and> grants (tree s) blk len' t \<and> unat len' \<le> unat len \<and> len' \<noteq> 0 \<and>
       unat blk + unat len' < 2 ^ 64" unfolding request_ok_def by blast
  have run: "vdfs2_fsm_get_free_block g s off len al da [] =
      (if blk = 0 then Ok (0, len', [], s\<lparr>tree := t\<rparr>)
       else (case take_blocks g (s\<lparr>tree := t\<rparr>) blk len' da of
               Ok s2 \<Rightarrow> Ok (blk, len', [], s2) | Err e \<Rightarrow> Err e | Bug \<Rightarrow> Bug))"
    unfolding vdfs2_fsm_get_free_block_def r(1) if_not_P [OF False] by simp
  show ?thesis
  proof (cases "blk = 0")
    case True
    with r run inv show ?thesis by simp
  next
    case nz: False
    with r have g: "grants (tree s) blk len' t" "unat len' \<le> unat len" "len' \<noteq> 0"
      "unat blk + unat len' < 2 ^ 64" by auto
    from take_blocks_ok [OF inv g(1,3,4), of da] obtain s' where
      s': "take_blocks g (s\<lparr>tree := t\<rparr>) blk len' da = Ok s'" "fsm_inv g s'" "tree s' = t"
        "\<forall>i. used_bit g s' i = (i \<in> granted_blocks blk len' \<or> used_bit g s i)"
        "free_blocks_count s' = free_blocks_count s - (if da then 0 else uint len')" by blast
    with g nz run show ?thesis by (auto simp: grants_def block_granted_def)
  qed
qed

lemma plain_request_ok:
  assumes "fsm_inv g s" "len \<noteq> 0"
  shows "request_ok (tree s) len (tree_request g (tree s) off len False [])"
proof -
  have tr: "fsm_btree_inv (tree s)" "extents_ok (tree_keys (tree s))" "0 \<notin> tree_free s"
    using assms(1) by (auto simp: fsm_inv_def)
  show ?thesis
    using lookup_outcome [OF tr, of "if of_nat (total_blocks g) \<le> off + ucast len then 0 else off" len True] assms(2)
    unfolding request_ok_def tree_request_def Let_def if_False by blast
qed

section \<open>Aligned requests\<close>

lemma unat_pow2: "k < 32 \<Longrightarrow> unat (2 ^ k :: u32) = 2 ^ k"
proof -
  assume "k < 32"
  then have lt: "(2::nat) ^ k < 2 ^ 32" by (intro power_strict_increasing) auto
  have "unat (word_of_nat (2 ^ k) :: u32) = 2 ^ k mod 2 ^ 32"
    using unat_of_nat [where 'a = 32, of "2 ^ k"] by (simp only: len_of_numeral_defs) simp
  with lt show ?thesis by simp
qed

text \<open>Giving back a piece of what was just granted.\<close>

lemma free_again:
  assumes "fsm_btree_inv t" "extents_ok (tree_keys t)" "len \<noteq> 0" "unat off + unat len < 2 ^ 64"
    and "{unat off ..< unat off + unat len} \<inter> free_blocks (tree_keys t) = {}"
  shows "\<exists>r t'. fsm_btree_free t off len [] = (r, [], t') \<and> fsm_btree_inv t' \<and> extents_ok (tree_keys t') \<and>
    free_blocks (tree_keys t') = free_blocks (tree_keys t) \<union> {unat off ..< unat off + unat len}"
proof -
  have v: "valid_extent (Key off len)" using assms(3,4) by (simp add: valid_extent_def word_neq_0_conv [symmetric])
  have e: "ext_blocks (Key off len) = {unat off ..< unat off + unat len}" by (simp add: ext_blocks_def)
  obtain r m' t' where run: "fsm_btree_free t off len [] = (r, m', t')" by (metis prod_cases3)
  from fsm_btree_free_spec [OF assms(1,2) v _ run] assms(5) e run show ?thesis by (auto simp: frees_def)
qed

lemma cut_ends:
  fixes F :: "nat set"
  assumes "{B ..< B + L + K} \<subseteq> F" "c + a = K"
  shows "(F - {B ..< B + L + K}) \<union> {B ..< B + c} \<union> {B + c + L ..< B + c + L + a} = F - {B + c ..< B + c + L}"
  using assms by auto

lemma grants_range:
  "grants t blk len t' \<longleftrightarrow> fsm_btree_inv t' \<and> extents_ok (tree_keys t') \<and>
    {unat blk ..< unat blk + unat len} \<subseteq> free_blocks (tree_keys t) \<and>
    free_blocks (tree_keys t') = free_blocks (tree_keys t) - {unat blk ..< unat blk + unat len}"
  by (simp add: grants_def granted_blocks_def ext_blocks_def)

lemma get_aligned_ok:
  assumes t: "fsm_btree_inv t" "extents_ok (tree_keys t)" "0 \<notin> free_blocks (tree_keys t)"
    and k: "k = log_super_page_size g - block_size_shift g" "k < 32"
    and len: "2 ^ k dvd unat len" "len \<noteq> 0" "unat len + 2 ^ k < 2 ^ 32"
  shows "\<exists>blk t'. get_aligned g t off len [] = Ok (blk, [], t') \<and>
    (blk = 0 \<and> t' = t \<or> blk \<noteq> 0 \<and> grants t blk len t' \<and> 2 ^ k dvd unat blk \<and> unat blk + unat len < 2 ^ 64)"
proof -
  define bps where "bps = (2 ^ k :: u32)"
  have bps: "unat bps = 2 ^ k" using unat_pow2 [OF k(2)] by (simp add: bps_def)
  have sum: "unat (len + bps) = unat len + 2 ^ k" using len(3) bps by (simp add: unat_word_ariths)
  have al: "len AND (bps - 1) = 0"
    using and_mask_mod [of len] len(1) by (simp add: bps_def word_unat_eq_iff)
  have "len + bps \<noteq> 0" using sum by (auto simp: word_unat_eq_iff)
  with lookup_outcome [OF t, of off "len + bps" False] obtain blk t1 where
    l: "fsm_btree_lookup t off (len + bps) False [] = Ok (blk, len + bps, [], t1)"
      "blk = 0 \<and> t1 = t \<or> blk \<noteq> 0 \<and> grants t blk (len + bps) t1 \<and> unat blk + unat (len + bps) < 2 ^ 64"
    by auto
  show ?thesis
  proof (cases "blk = 0")
    case True
    with l al show ?thesis by (auto simp: get_aligned_def Let_def k(1) [symmetric] bps_def [symmetric])
  next
    case nz: False
    let ?B = "unat blk" and ?L = "unat len" and ?K = "(2::nat) ^ k" and ?F = "free_blocks (tree_keys t)"
    from nz l(2) have g: "fsm_btree_inv t1" "extents_ok (tree_keys t1)" "{?B ..< ?B + ?L + ?K} \<subseteq> ?F"
      "free_blocks (tree_keys t1) = ?F - {?B ..< ?B + ?L + ?K}" and big: "?B + ?L + ?K < 2 ^ 64"
      unfolding grants_range sum by (auto simp: add.assoc)
    define a where "a = (ucast blk :: u32) AND (bps - 1)"
    have am: "unat a = ?B mod ?K"
    proof -
      have "unat (ucast blk :: u32) = ?B mod 2 ^ 32" by (simp add: unsigned_ucast_eq take_bit_eq_mod)
      moreover have "?B mod 2 ^ 32 mod ?K = ?B mod ?K" using k(2) by (intro mod_mod_cancel le_imp_power_dvd) simp
      ultimately show ?thesis using and_mask_mod [of "ucast blk" k] by (simp add: a_def bps_def)
    qed
    show ?thesis
    proof (cases "a = 0")
      case True
      have off: "unat (blk + ucast len) = ?B + ?L" using big by (simp add: unat_word_ariths)
      have "\<exists>r t'. fsm_btree_free t1 (blk + ucast len) (ucast bps) [] = (r, [], t') \<and> fsm_btree_inv t' \<and>
        extents_ok (tree_keys t') \<and> free_blocks (tree_keys t') =
          free_blocks (tree_keys t1) \<union> {unat (blk + ucast len) ..< unat (blk + ucast len) + unat (ucast bps :: u64)}"
        using g big bps off by (intro free_again) (auto simp: word_unat_eq_iff)
      then obtain r t' where f: "fsm_btree_free t1 (blk + ucast len) (ucast bps) [] = (r, [], t')"
        "fsm_btree_inv t'" "extents_ok (tree_keys t')"
        "free_blocks (tree_keys t') = (?F - {?B ..< ?B + ?L + ?K}) \<union> {?B + ?L ..< ?B + ?L + ?K}"
        using g(4) off bps by auto
      have "get_aligned g t off len [] = Ok (blk, [], t')"
        using al l(1) nz True f(1)
        by (simp add: get_aligned_def Let_def k(1) [symmetric] bps_def [symmetric] a_def [symmetric])
      moreover have "grants t blk len t'"
        unfolding grants_range using f cut_ends [OF g(3), of 0 ?K] g(3) by auto
      moreover have "2 ^ k dvd ?B" using am True by (auto simp: dvd_eq_mod_eq_0)
      ultimately show ?thesis using nz big by auto
    next
      case False
      define cut where "cut = bps - a"
      have alt: "unat a < ?K" "0 < unat a" using am False by (auto simp: word_unat_eq_iff)
      then have cut: "unat cut = ?K - unat a" using bps by (simp add: cut_def unat_sub word_le_nat_alt)
      have cpos: "cut \<noteq> 0" "a \<noteq> 0" using cut alt by (auto simp: word_unat_eq_iff)
      have ca: "unat cut + unat a = ?K" using cut alt by simp
      have o1: "unat (blk + ucast cut) = ?B + unat cut" using big ca by (simp add: unat_word_ariths)
      have o2: "unat (blk + ucast cut + ucast len) = ?B + unat cut + ?L" using big ca
        by (simp add: unat_word_ariths)
      have "\<exists>r t'. fsm_btree_free t1 blk (ucast cut) [] = (r, [], t') \<and> fsm_btree_inv t' \<and>
        extents_ok (tree_keys t') \<and> free_blocks (tree_keys t') =
          free_blocks (tree_keys t1) \<union> {?B ..< ?B + unat (ucast cut :: u64)}"
        using g big ca cpos by (intro free_again) (auto simp: word_unat_eq_iff)
      then obtain r t2 where f: "fsm_btree_free t1 blk (ucast cut) [] = (r, [], t2)"
        "fsm_btree_inv t2" "extents_ok (tree_keys t2)"
        "free_blocks (tree_keys t2) = (?F - {?B ..< ?B + ?L + ?K}) \<union> {?B ..< ?B + unat cut}"
        using g(4) by auto
      have "\<exists>r t'. fsm_btree_free t2 (blk + ucast cut + ucast len) (ucast a) [] = (r, [], t') \<and> fsm_btree_inv t' \<and>
        extents_ok (tree_keys t') \<and> free_blocks (tree_keys t') = free_blocks (tree_keys t2) \<union>
          {unat (blk + ucast cut + ucast len) ..< unat (blk + ucast cut + ucast len) + unat (ucast a :: u64)}"
        using f big ca cpos o2 by (intro free_again) (auto simp: word_unat_eq_iff)
      then obtain r' t3 where f3: "fsm_btree_free t2 (blk + ucast cut + ucast len) (ucast a) [] = (r', [], t3)"
        "fsm_btree_inv t3" "extents_ok (tree_keys t3)"
        "free_blocks (tree_keys t3) = (?F - {?B ..< ?B + ?L + ?K}) \<union> {?B ..< ?B + unat cut} \<union>
           {?B + unat cut + ?L ..< ?B + unat cut + ?L + unat a}"
        using f(4) o2 by auto
      have "get_aligned g t off len [] = Ok (blk + ucast cut, [], t3)"
        using al l(1) nz False f(1) f3(1)
        by (simp add: get_aligned_def Let_def k(1) [symmetric] bps_def [symmetric] a_def [symmetric]
            cut_def [symmetric])
      moreover have "grants t (blk + ucast cut) len t3"
        unfolding grants_range o1 using f3 cut_ends [OF g(3) ca] g(3) ca by auto
      moreover have "2 ^ k dvd unat (blk + ucast cut)"
      proof -
        have "?B + (?K - ?B mod ?K) = ?B div ?K * ?K + ?K"
          using div_mult_mod_eq [of ?B ?K] alt(1) am by linarith
        then show ?thesis unfolding o1 cut am by simp
      qed
      moreover have "blk + ucast cut \<noteq> 0" using o1 nz by (auto simp: word_unat_eq_iff)
      ultimately show ?thesis using big ca o1 by auto
    qed
  qed
qed

lemma aligned_request_ok:
  assumes "fsm_inv g s" "k = log_super_page_size g - block_size_shift g" "k < 32"
    and "2 ^ k dvd unat len" "len \<noteq> 0" "unat len + 2 ^ k < 2 ^ 32"
  shows "request_ok (tree s) len (tree_request g (tree s) off len True [])"
    and "tree_request g (tree s) off len True [] = Ok (blk, len', m, t) \<Longrightarrow> len' = len \<and> 2 ^ k dvd unat blk"
proof -
  have tr: "fsm_btree_inv (tree s)" "extents_ok (tree_keys (tree s))" "0 \<notin> tree_free s"
    using assms(1) by (auto simp: fsm_inv_def)
  note ga = get_aligned_ok [OF tr assms(2-6), of "if of_nat (total_blocks g) \<le> off + ucast len then 0 else off"]
  then show "request_ok (tree s) len (tree_request g (tree s) off len True [])"
    using assms(5) by (auto simp: request_ok_def tree_request_def Let_def)
  show "len' = len \<and> 2 ^ k dvd unat blk" if "tree_request g (tree s) off len True [] = Ok (blk, len', m, t)"
    using ga that by (auto simp: tree_request_def Let_def)
qed

section \<open>Giving blocks back\<close>

text \<open>
  Freed blocks are not in the tree: their bits are cleared, so the next rebuild finds
  them, and until then nobody gets them.
\<close>

lemma free_chunk_ok:
  assumes inv: "fsm_inv g s" and rng: "unat blk + unat len \<le> total_blocks g"
    and used: "\<forall>i. unat blk \<le> i \<longrightarrow> i < unat blk + unat len \<longrightarrow> used_bit g s i"
  shows "\<exists>s'. fsm_free_block_chunk g s blk len = (Success, s') \<and> fsm_inv g s' \<and> tree s' = tree s \<and>
    (\<forall>i. used_bit g s' i = (used_bit g s i \<and> \<not> (unat blk \<le> i \<and> i < unat blk + unat len))) \<and>
    next_free_blocks s' = next_free_blocks s + len \<and> free_blocks_count s' = free_blocks_count s"
proof -
  let ?N = "total_blocks g" and ?bs = "block_size g" and ?ml = FSM_BMP_MAGIC_LEN
  have geo: "fsm_geometry_ok g s" using inv by (simp add: fsm_inv_def)
  have gl: "good_layout ?bs ?ml" and N: "?N < 2 ^ 31" using geo by (auto simp: fsm_geometry_ok_def)
  have sum: "unat (blk + ucast len) = unat blk + unat len" using rng N by (simp add: unat_word_ariths)
  have "\<forall>j. unat blk \<le> j \<longrightarrow> j < unat blk + unat len \<longrightarrow> bm_has ?bs ?ml (data s) j \<and> used_bit g s j"
    using used geo rng by (auto simp: fsm_geometry_ok_def)
  from bitmap_layout.clear_bits_ok [OF bitmap_layout.intro [OF gl] this] obtain d where
    d: "vdfs2_clear_bits (data s) (unat blk) (unat len) ?ml ?bs = (Success, d)"
      "\<forall>j. bm_has ?bs ?ml d j = bm_has ?bs ?ml (data s) j \<and>
        bm_bit ?bs ?ml d j = (used_bit g s j \<and> \<not> (unat blk \<le> j \<and> j < unat blk + unat len))" by blast
  have co: "counters_ok (log_erase_block_size_in_blocks g) ?N (used_bit g s) (erase_blocks_counters s)"
    using inv by (simp add: fsm_inv_def)
  from count_freed_ok [OF co, of blk 0 "unat len"] rng N used obtain cnt where
    c: "count_freed (log_erase_block_size_in_blocks g) blk 0 (unat len) (erase_blocks_counters s) = Some cnt"
      "counters_ok (log_erase_block_size_in_blocks g) ?N
        (\<lambda>j. used_bit g s j \<and> \<not> (unat blk \<le> j \<and> j < unat blk + unat len)) cnt" by auto
  have pg: "bitmap_page g (unat blk + unat len) < page_count s"
    using bitmap_page_mono [OF gl rng N] geo by (auto simp: fsm_geometry_ok_def)
  have fin: "unat blk + unat len \<le> length_in_bytes s * 8" using rng geo by (auto simp: fsm_geometry_ok_def)
  define s' where "s' = s\<lparr>data := d, next_free_blocks := next_free_blocks s + len, erase_blocks_counters := cnt,
    dirty := dirty s @ [bitmap_page g (unat blk)..<Suc (bitmap_page g (unat blk + unat len))]\<rparr>"
  have run: "fsm_free_block_chunk g s blk len = (Success, s')"
    using d(1) c(1) pg fin sum unfolding fsm_free_block_chunk_def s'_def by (simp add: mark_pages_def)
  have geo': "fsm_geometry_ok g s'" using geo d(2) unfolding s'_def by (simp add: fsm_geometry_ok_def)
  have ubit: "used_bit g s' = (\<lambda>j. used_bit g s j \<and> \<not> (unat blk \<le> j \<and> j < unat blk + unat len))"
    using d(2) by (auto simp: fun_eq_iff s'_def)
  have "fsm_inv g s'"
    unfolding fsm_inv_def ubit using geo' c(2) inv by (auto simp: fsm_inv_def s'_def)
  with run ubit show ?thesis by (auto simp: s'_def)
qed

section \<open>Building the tree\<close>

lemma unat_small: "n < 2 ^ 63 \<Longrightarrow> unat (of_nat n :: u64) = n"
  by (simp add: unat_of_nat)

lemma sint_small: "n < 2 ^ 63 \<Longrightarrow> sint (of_nat n :: u64) = int n"
  by (simp add: signed_of_nat signed_take_bit_int_eq_self)

lemma erase_index:
  fixes i :: nat
  shows "log_erase_block_size g = block_size_shift g + l \<Longrightarrow>
   i * 2 ^ block_size_shift g div 2 ^ log_erase_block_size g = i div 2 ^ l"
  by (simp add: power_add)

lemma count_erase_ok:
  assumes "log_erase_block_size g = block_size_shift g + l" "l < 32"
    and "counters_ok l n used cnt" "b + c \<le> n" "\<forall>i. b \<le> i \<longrightarrow> i < b + c \<longrightarrow> \<not> used i"
  shows "\<exists>cnt'. count_erase g b c cnt = Some cnt' \<and>
    counters_ok l n (\<lambda>i. b \<le> i \<and> i < b + c \<or> used i) cnt'"
  using assms(3-5)
proof (induction c arbitrary: b used cnt)
  case 0
  have "(\<lambda>i. b \<le> i \<and> i < b + 0 \<or> used i) = used" by auto
  with 0 show ?case by simp
next
  case (Suc c)
  have b: "b < n" "\<not> used b" using Suc.prems by auto
  note bump = counters_bump [where used = used, OF Suc.prems(1) b assms(2)]
  from Suc.IH [OF bump(3), of "Suc b"] Suc.prems obtain cnt' where
    c': "count_erase g (Suc b) c (cnt[b div 2 ^ l := cnt ! (b div 2 ^ l) + 1]) = Some cnt'"
      "counters_ok l n (\<lambda>i. Suc b \<le> i \<and> i < Suc b + c \<or> (i = b \<or> used i)) cnt'" by auto
  have "(\<lambda>i. Suc b \<le> i \<and> i < Suc b + c \<or> (i = b \<or> used i)) = (\<lambda>i. b \<le> i \<and> i < b + Suc c \<or> used i)"
    by (auto simp: fun_eq_iff)
  with c' bump(1) show ?case by (auto simp: Let_def erase_index [OF assms(1)])
qed

text \<open>The state of the loop at a position: everything before it is done.\<close>

definition tree_built :: "sb_geometry \<Rightarrow> vdfs2_fsm_info \<Rightarrow> nat \<Rightarrow> int \<Rightarrow> bool" where
  "tree_built g s pos c0 \<longleftrightarrow> fsm_geometry_ok g s \<and> pos \<le> total_blocks g \<and>
     fsm_btree_inv (tree s) \<and> extents_ok (tree_keys (tree s)) \<and>
     tree_free s = {i. i < pos \<and> \<not> used_bit g s i} \<and>
     free_blocks_count s = c0 + int (card (tree_free s)) \<and>
     counters_ok (log_erase_block_size_in_blocks g) (total_blocks g) (\<lambda>i. i < pos \<and> used_bit g s i)
       (erase_blocks_counters s)"

lemma fsm_insert_ok:
  assumes b: "tree_built g s pos c0" and fe: "pos < fe" "fe \<le> total_blocks g"
    and zero: "\<forall>i. pos \<le> i \<longrightarrow> i < fe \<longrightarrow> \<not> used_bit g s i"
  shows "\<exists>s'. fsm_insert s (of_nat pos) (of_nat (fe - pos)) [] = (Success, [], s') \<and> tree_built g s' fe c0 \<and>
    data s' = data s"
proof -
  have geo: "fsm_geometry_ok g s" and N: "total_blocks g < 2 ^ 31"
    using b by (auto simp: tree_built_def fsm_geometry_ok_def)
  define d where "d = fe - pos"
  let ?k = "Key (of_nat pos) (of_nat d)"
  have small: "d < 2 ^ 63" "pos < 2 ^ 63" using fe N by (auto simp: d_def)
  note u = unat_small [OF small(1)] unat_small [OF small(2)]
  have ext: "ext_blocks ?k = {pos ..< fe}" using u fe by (simp add: ext_blocks_def d_def)
  have dpos: "(of_nat d :: u64) \<noteq> 0" using u(1) fe by (auto simp: d_def word_unat_eq_iff)
  have v: "valid_extent ?k"
    using u fe N by (simp add: valid_extent_def word_less_nat_alt d_def)
  have free: "tree_free s = {i. i < pos \<and> \<not> used_bit g s i}" using b by (simp add: tree_built_def)
  have dis: "ext_blocks ?k \<inter> tree_free s = {}" unfolding ext free by auto
  obtain r m' t where ins: "fsm_btree_insert (tree s) ?k [] = (r, m', t)" by (metis prod_cases3)
  have inv: "fsm_btree_inv (tree s)" "extents_ok (tree_keys (tree s))" using b by (auto simp: tree_built_def)
  note ad = fsm.add_extent [OF inv v dis ins fsm.ins_always [OF inv(1) ins]]
  define s' where "s' = s\<lparr>tree := t, free_blocks_count := free_blocks_count s + sint (of_nat d :: u64)\<rparr>"
  have run: "fsm_insert s (of_nat pos) (of_nat d) [] = (Success, [], s')"
    using dpos ins ad(1) fsm.ins_mem [OF inv(1) ins] by (simp add: fsm_insert_def s'_def)
  have tf: "tree_free s' = tree_free s \<union> {pos ..< fe}" using ad(4) ext by (simp add: s'_def)
  then have tf': "tree_free s' = {i. i < fe \<and> \<not> used_bit g s' i}"
    using zero fe(1) unfolding free by (auto simp: s'_def)
  have "finite (tree_free s)" unfolding free by simp
  then have card: "card (tree_free s') = card (tree_free s) + d"
    unfolding tf using dis ext by (subst card_Un_disjoint) (auto simp: d_def)
  have ub: "(\<lambda>i. i < fe \<and> used_bit g s i) = (\<lambda>i. i < pos \<and> used_bit g s i)"
  proof
    fix i show "(i < fe \<and> used_bit g s i) = (i < pos \<and> used_bit g s i)"
      using zero fe(1) by (cases "i < pos") auto
  qed
  have "tree_built g s' fe c0"
    unfolding tree_built_def tf' [symmetric]
    using b fe(2) ad(2,3) card ub geo sint_small [OF small(1)]
    by (auto simp: tree_built_def s'_def fsm_geometry_ok_def)
  with run show ?thesis by (auto simp: d_def s'_def)
qed

text \<open>What is known of the bit at the position, and how the loop ends.\<close>

definition at_boundary :: "sb_geometry \<Rightarrow> vdfs2_fsm_info \<Rightarrow> find_mode \<Rightarrow> nat \<Rightarrow> bool" where
  "at_boundary g s mode pos \<longleftrightarrow>
     (case mode of
        FIND_CLEAR_BIT \<Rightarrow> pos = 0 \<or>
          pos = total_blocks g \<and> \<not> used_bit g s (total_blocks g - 1) \<and> \<not> used_bit g s (total_blocks g - 2) \<or>
          pos \<noteq> total_blocks g \<and> used_bit g s pos \<and> \<not> used_bit g s (pos - 1)
      | FIND_SET_BIT \<Rightarrow> pos = total_blocks g \<and> used_bit g s (total_blocks g - 1) \<or>
          pos \<noteq> total_blocks g \<and> \<not> used_bit g s pos \<and> (pos = 0 \<or> used_bit g s (pos - 1)))"

lemma find_bits:
  assumes "fsm_geometry_ok g s"
  shows "vdfs2_find_next_zero_bit (data s) (total_blocks g) pos (block_size g) FSM_BMP_MAGIC_LEN =
      find_from (\<lambda>j. \<not> used_bit g s j) (total_blocks g) pos"
    and "vdfs2_find_next_bit (data s) (total_blocks g) pos (block_size g) FSM_BMP_MAGIC_LEN =
      find_from (used_bit g s) (total_blocks g) pos"
proof -
  have "good_layout (block_size g) FSM_BMP_MAGIC_LEN" "0 < total_blocks g" "total_blocks g < 2 ^ 32"
    using assms by (auto simp: fsm_geometry_ok_def)
  then show "vdfs2_find_next_zero_bit (data s) (total_blocks g) pos (block_size g) FSM_BMP_MAGIC_LEN =
      find_from (\<lambda>j. \<not> used_bit g s j) (total_blocks g) pos"
    and "vdfs2_find_next_bit (data s) (total_blocks g) pos (block_size g) FSM_BMP_MAGIC_LEN =
      find_from (used_bit g s) (total_blocks g) pos"
    using bitmap_layout.find_zero bitmap_layout.find_one bitmap_layout.intro by blast+
qed

lemma count_step:
  assumes b: "tree_built g s pos c0" and fs: "pos \<le> fs" "fs \<le> total_blocks g"
    and ones: "\<forall>i. pos \<le> i \<longrightarrow> i < fs \<longrightarrow> used_bit g s i"
  shows "\<exists>cnt. count_erase g pos (fs - pos) (erase_blocks_counters s) = Some cnt \<and>
    tree_built g (s\<lparr>erase_blocks_counters := cnt\<rparr>) fs c0"
proof -
  let ?l = "log_erase_block_size_in_blocks g"
  have geo: "fsm_geometry_ok g s" using b by (simp add: tree_built_def)
  then have l: "log_erase_block_size g = block_size_shift g + ?l" "?l < 32" by (auto simp: fsm_geometry_ok_def)
  have co: "counters_ok ?l (total_blocks g) (\<lambda>i. i < pos \<and> used_bit g s i) (erase_blocks_counters s)"
    using b by (simp add: tree_built_def)
  have "pos + (fs - pos) \<le> total_blocks g" using fs by simp
  from count_erase_ok [OF l co this] obtain cnt where
    c: "count_erase g pos (fs - pos) (erase_blocks_counters s) = Some cnt"
      "counters_ok ?l (total_blocks g) (\<lambda>i. pos \<le> i \<and> i < pos + (fs - pos) \<or> (i < pos \<and> used_bit g s i)) cnt"
    by auto
  have "(\<lambda>i. pos \<le> i \<and> i < pos + (fs - pos) \<or> (i < pos \<and> used_bit g s i)) = (\<lambda>i. i < fs \<and> used_bit g s i)"
    using ones fs(1) by (auto simp: fun_eq_iff)
  moreover have "{i. i < fs \<and> \<not> used_bit g s i} = {i. i < pos \<and> \<not> used_bit g s i}"
    using ones fs(1) by (auto simp: not_le [symmetric])
  ultimately show ?thesis using b c fs(2) by (auto simp: tree_built_def fsm_geometry_ok_def)
qed

lemma tree_loop_ok:
  assumes "tree_built g s pos c0" "at_boundary g s mode pos"
  shows "\<exists>mode' pos' s'. fsm_tree_loop g (total_blocks g) mode pos s [] = (Success, mode', pos', [], s') \<and>
    tree_built g s' pos' c0 \<and> at_boundary g s' mode' pos' \<and> \<not> pos' + 1 < total_blocks g \<and> data s' = data s"
  using assms
proof (induction "2 * (total_blocks g - pos) + (if mode = FIND_CLEAR_BIT then 1 else 0)"
    arbitrary: mode pos s rule: less_induct)
  case less
  let ?N = "total_blocks g"
  have geo: "fsm_geometry_ok g s" and le: "pos \<le> ?N" using less.prems(1) by (auto simp: tree_built_def)
  show ?case
  proof (cases "pos + 1 < ?N")
    case False
    with less.prems show ?thesis by (auto simp: fsm_tree_loop.simps [of g ?N mode pos])
  next
    case lt: True
    show ?thesis
    proof (cases mode)
      case FIND_CLEAR_BIT
      define fs where "fs = find_from (\<lambda>j. \<not> used_bit g s j) ?N pos"
      have fs: "pos \<le> fs" "fs \<le> ?N" using find_from_le [OF le] by (auto simp: fs_def)
      have ones: "\<forall>i. pos \<le> i \<longrightarrow> i < fs \<longrightarrow> used_bit g s i" and z: "fs = ?N \<or> \<not> used_bit g s fs"
        using find_from_spec [of "\<lambda>j. \<not> used_bit g s j" ?N pos] unfolding fs_def by auto
      from count_step [OF less.prems(1) fs ones] obtain cnt where
        c: "count_erase g pos (fs - pos) (erase_blocks_counters s) = Some cnt"
          "tree_built g (s\<lparr>erase_blocks_counters := cnt\<rparr>) fs c0" by blast
      have "fs = 0 \<or> used_bit g s (fs - 1)" if "fs \<noteq> ?N"
      proof (cases "fs = pos")
        case True
        with z that less.prems(2) FIND_CLEAR_BIT lt show ?thesis by (auto simp: at_boundary_def)
      next
        case False
        with ones fs(1) show ?thesis by auto
      qed
      moreover have "used_bit g s (?N - 1)" if "fs = ?N" using ones lt that by simp
      ultimately have "at_boundary g (s\<lparr>erase_blocks_counters := cnt\<rparr>) FIND_SET_BIT fs"
        using z by (auto simp: at_boundary_def)
      from less.hyps [OF _ c(2) this] fs(1) FIND_CLEAR_BIT show ?thesis
        using lt c(1) find_bits(1) [OF geo, of pos]
        by (auto simp: fsm_tree_loop.simps [of g ?N FIND_CLEAR_BIT pos] fs_def [symmetric])
    next
      case FIND_SET_BIT
      define fe where "fe = find_from (used_bit g s) ?N pos"
      have z: "\<not> used_bit g s pos" using less.prems(2) FIND_SET_BIT lt by (auto simp: at_boundary_def)
      have fe: "pos \<le> fe" "fe \<le> ?N" using find_from_le [OF le] by (auto simp: fe_def)
      have zero: "\<forall>i. pos \<le> i \<longrightarrow> i < fe \<longrightarrow> \<not> used_bit g s i" and o: "fe = ?N \<or> used_bit g s fe"
        using find_from_spec [of "used_bit g s" ?N pos] unfolding fe_def by auto
      have gt: "pos < fe" using z o fe lt by (cases "fe = pos") auto
      from fsm_insert_ok [OF less.prems(1) gt fe(2) zero] obtain s' where
        s': "fsm_insert s (of_nat pos) (of_nat (fe - pos)) [] = (Success, [], s')" "tree_built g s' fe c0"
          "data s' = data s" by blast
      have "at_boundary g s' FIND_CLEAR_BIT fe"
        using o zero gt lt s'(3) by (auto simp: at_boundary_def)
      moreover have "2 * (?N - fe) + 1 < 2 * (?N - pos)" using gt fe(2) by simp
      ultimately obtain mode' pos' s'' where r:
        "fsm_tree_loop g ?N FIND_CLEAR_BIT fe s' [] = (Success, mode', pos', [], s'')"
        "tree_built g s'' pos' c0" "at_boundary g s'' mode' pos'" "\<not> pos' + 1 < ?N" "data s'' = data s'"
        using less.hyps [OF _ s'(2), of FIND_CLEAR_BIT] FIND_SET_BIT by auto
      have "fsm_tree_loop g ?N mode pos s [] = (Success, mode', pos', [], s'')"
        using lt r(1) s'(1) gt find_bits(2) [OF geo, of pos] FIND_SET_BIT
        by (simp add: fsm_tree_loop.simps [of g ?N FIND_SET_BIT pos] fe_def [symmetric])
      with r s'(3) show ?thesis by auto
    qed
  qed
qed

text \<open>
  The tree that comes out holds exactly the free blocks, provided the last two blocks of
  the volume have the same state.
\<close>

lemma empty_tree:
  assumes "2 \<le> order t" "root t = Null"
  shows "fsm_btree_inv t" "tree_keys t = []"
  using assms by (auto simp: fsm_btree_inv_def tree_keys_def)

lemma get_tree_start:
  assumes "fsm_geometry_ok g s" "2 \<le> order (tree s)" "root (tree s) = Null"
  shows "tree_built g (s\<lparr>erase_blocks_counters :=
    replicate (total_blocks g * 2 ^ block_size_shift g div 2 ^ log_erase_block_size g + 1) 0\<rparr>) 0 (free_blocks_count s)"
proof -
  have "log_erase_block_size g = block_size_shift g + log_erase_block_size_in_blocks g"
    using assms(1) by (simp add: fsm_geometry_ok_def)
  from erase_index [OF this] empty_tree [OF assms(2,3)] assms(1) show ?thesis
    by (auto simp: tree_built_def fsm_geometry_ok_def counters_ok_def extents_ok_def nth_Cons split: nat.splits)
qed

lemma fsm_get_tree_ok:
  assumes geo: "fsm_geometry_ok g s" and t: "2 \<le> order (tree s)" "root (tree s) = Null"
    and N: "2 \<le> total_blocks g" and last: "used_bit g s (total_blocks g - 1) = used_bit g s (total_blocks g - 2)"
    and blk0: "used_bit g s 0"
  shows "\<exists>s'. fsm_get_tree g s [] = (Success, [], s') \<and> fsm_inv g s' \<and> data s' = data s \<and>
    tree_free s' = {i. i < total_blocks g \<and> \<not> used_bit g s i} \<and>
    free_blocks_count s' = free_blocks_count s + int (card {i. i < total_blocks g \<and> \<not> used_bit g s i})"
proof -
  let ?N = "total_blocks g"
  define s0 where "s0 = s\<lparr>erase_blocks_counters :=
    replicate (?N * 2 ^ block_size_shift g div 2 ^ log_erase_block_size g + 1) 0\<rparr>"
  have b0: "tree_built g s0 0 (free_blocks_count s)" using get_tree_start [OF geo t] by (simp add: s0_def)
  have "at_boundary g s0 FIND_CLEAR_BIT 0" by (simp add: at_boundary_def)
  from tree_loop_ok [OF b0 this] obtain mode pos s' where
    r: "fsm_tree_loop g ?N FIND_CLEAR_BIT 0 s0 [] = (Success, mode, pos, [], s')"
      "tree_built g s' pos (free_blocks_count s)" "at_boundary g s' mode pos" "\<not> pos + 1 < ?N"
      "data s' = data s0" by blast
  have d: "data s' = data s" using r(5) by (simp add: s0_def)
  have le: "pos \<le> ?N" using r(2) by (simp add: tree_built_def)
  have eqN: "?N - 1 - 1 = ?N - 2" by simp
  have "pos = ?N"
  proof (rule ccontr)
    assume "pos \<noteq> ?N"
    with r(4) le have p: "pos = ?N - 1" "pos \<noteq> 0" using N by auto
    with r(3) last d N eqN show False by (auto simp: at_boundary_def split: find_mode.splits)
  qed
  with r(2) d blk0 have "fsm_inv g s'" "tree_free s' = {i. i < ?N \<and> \<not> used_bit g s i}"
    "free_blocks_count s' = free_blocks_count s + int (card {i. i < ?N \<and> \<not> used_bit g s i})"
    by (auto simp: tree_built_def fsm_inv_def counters_ok_def intro: gr0I)
  moreover have "fsm_get_tree g s [] = (Success, [], s')"
    unfolding fsm_get_tree_def Let_def s0_def [symmetric] r(1) using \<open>pos = ?N\<close> by simp
  ultimately show ?thesis using d by auto
qed

text \<open>
  A free last block behind a used one gets an extent of \<open>2 ^ 64 - 1\<close> blocks: the length is
  computed as \<^verbatim>\<open>pos - 1 - free_start\<close> with \<^verbatim>\<open>free_start\<close> equal to \<^verbatim>\<open>pos\<close>.
\<close>

lemma fsm_get_tree_last_block:
  assumes geo: "fsm_geometry_ok g s" and t: "2 \<le> order (tree s)" "root (tree s) = Null"
    and N: "2 \<le> total_blocks g" and last: "\<not> used_bit g s (total_blocks g - 1)" "used_bit g s (total_blocks g - 2)"
  shows "\<exists>s'. fsm_get_tree g s [] = (Success, [], s') \<and>
    Key (of_nat (total_blocks g - 1)) (2 ^ 64 - 1) \<in> set (tree_keys (tree s')) \<and>
    free_blocks_count s' = free_blocks_count s + int (card {i. i < total_blocks g - 1 \<and> \<not> used_bit g s i}) - 1"
proof -
  let ?N = "total_blocks g"
  define s0 where "s0 = s\<lparr>erase_blocks_counters :=
    replicate (?N * 2 ^ block_size_shift g div 2 ^ log_erase_block_size g + 1) 0\<rparr>"
  have b0: "tree_built g s0 0 (free_blocks_count s)" using get_tree_start [OF geo t] by (simp add: s0_def)
  have "at_boundary g s0 FIND_CLEAR_BIT 0" by (simp add: at_boundary_def)
  from tree_loop_ok [OF b0 this] obtain mode pos s' where
    r: "fsm_tree_loop g ?N FIND_CLEAR_BIT 0 s0 [] = (Success, mode, pos, [], s')"
      "tree_built g s' pos (free_blocks_count s)" "at_boundary g s' mode pos" "\<not> pos + 1 < ?N"
      "data s' = data s0" by blast
  have d: "data s' = data s" using r(5) by (simp add: s0_def)
  have le: "pos \<le> ?N" using r(2) by (simp add: tree_built_def)
  have "pos = ?N \<or> pos = ?N - 1" using r(4) le N by auto
  then have p: "pos = ?N - 1" "mode = FIND_SET_BIT"
    using r(3) last d N by (auto simp: at_boundary_def split: find_mode.splits)
  have inv: "fsm_btree_inv (tree s')" "extents_ok (tree_keys (tree s'))" using r(2) by (auto simp: tree_built_def)
  let ?k = "Key (of_nat pos) (2 ^ 64 - 1)"
  have minus: "(of_nat pos :: u64) - 1 - of_nat pos = 2 ^ 64 - 1" by simp
  obtain r' m t' where ins: "fsm_btree_insert (tree s') ?k [] = (r', m, t')" by (metis prod_cases3)
  have "?k \<notin> set (tree_keys (tree s'))"
  proof
    assume "?k \<in> set (tree_keys (tree s'))"
    with inv(2) have "valid_extent ?k" "ext_blocks ?k \<subseteq> tree_free s'" by (auto simp: extents_ok_def free_blocks_def)
    then have "unat (of_nat pos :: u64) < pos"
      using valid_extent_start [of ?k] r(2) by (auto simp: tree_built_def)
    moreover have "pos < 2 ^ 63" using geo p(1) by (auto simp: fsm_geometry_ok_def)
    ultimately show False using unat_small [of pos] by simp
  qed
  with fsm.ins_law [OF inv(1) ins] fsm.ins_mem [OF inv(1) ins] have
    i: "r' = Success" "m = []" "tree_keys t' = insort ?k (tree_keys (tree s'))" by auto
  have "tree_free s' = {i. i < ?N - 1 \<and> \<not> used_bit g s i}" using r(2) p(1) d by (simp add: tree_built_def)
  then have cnt: "free_blocks_count s' = free_blocks_count s + int (card {i. i < ?N - 1 \<and> \<not> used_bit g s i})"
    using r(2) by (simp add: tree_built_def)
  have "fsm_insert s' (of_nat pos) (of_nat pos - 1 - of_nat pos) [] =
      (Success, [], s'\<lparr>tree := t', free_blocks_count := free_blocks_count s' - 1\<rparr>)"
    unfolding minus fsm_insert_def using ins i by simp
  then have "fsm_get_tree g s [] = (Success, [], s'\<lparr>tree := t', free_blocks_count := free_blocks_count s' - 1\<rparr>)"
    unfolding fsm_get_tree_def Let_def s0_def [symmetric] r(1) using p N by simp
  with i(3) cnt p(1) show ?thesis by (auto simp: set_insort_key)
qed

end
