(* ===== verification/Fsm_Btree_Claims.thy ===== *)
theory Fsm_Btree_Claims
  imports Fsm_Btree_Space
begin

text \<open>
  The properties of the free-extent tree as its clients see them, and the runs of the
  tree: a sequence of requests and releases never hands out a block twice and never loses
  one.
\<close>

section \<open>Runs of allocations and releases\<close>

text \<open>
  A state is the tree and the set of blocks that are handed out. A step is a call of
  \<^verbatim>\<open>fsm_btree_lookup\<close> that granted blocks or found none, or a call of \<^verbatim>\<open>fsm_btree_free\<close>
  on blocks that were handed out, with memory available.
\<close>

inductive fsm_step :: "vdfs2_fsm_btree \<times> nat set \<Rightarrow> vdfs2_fsm_btree \<times> nat set \<Rightarrow> bool" where
  take: "fsm_btree_lookup b off len crl m = Ok (blk, len', m', b') \<Longrightarrow> blk \<noteq> 0 \<Longrightarrow>
    fsm_step (b, used) (b', used \<union> granted_blocks blk len')"
| none: "fsm_btree_lookup b off len crl [] = Ok (0, len', m', b') \<Longrightarrow> fsm_step (b, used) (b', used)"
| give: "fsm_btree_free b off len [] = (Success, m', b') \<Longrightarrow> valid_extent (Key off len) \<Longrightarrow>
    ext_blocks (Key off len) \<subseteq> used \<Longrightarrow> fsm_step (b, used) (b', used - ext_blocks (Key off len))"

inductive_cases fsm_stepE: "fsm_step (b, used) (b', used')"


lemma lookup_granted:
  assumes "fsm_btree_inv b" "extents_ok (tree_keys b)"
    and "fsm_btree_lookup b off len crl m = Ok (blk, len', m', b')" "blk \<noteq> 0"
  shows "grants b blk len' b' \<and> unat len' \<le> unat len \<and> (\<not> crl \<longrightarrow> len' = len)"
proof (cases "\<exists>k\<in>set (tree_keys b). extent_fits len crl k")
  case True
  from fsm_btree_lookup_found [OF assms(1,2) True, of off m] assms(3) obtain k where
    k: "k \<in> set (tree_keys b)" "extent_fits len crl k" "lookup_take b k len m = (blk, len', m', b')"
    by auto
  note g = lookup_take_granted [OF assms(1,2) k(1,3)]
  have "len' = len" if "\<not> crl"
    using g extent_fits_len [of len k] k(2) that assms(4) by (simp add: word_unat_eq_iff)
  with g assms(4) show ?thesis by auto
next
  case False
  with fsm_btree_lookup_none [OF assms(1) False, of off m] assms(3,4) show ?thesis by simp
qed



section \<open>Properties\<close>


text \<open>
  C11. Whatever the allocator of nodes does, a nonzero block number returned by
  \<open>fsm_btree_lookup\<close> names blocks that were all free; exactly these blocks leave the
  free set, the extents stay disjoint, the tree stays well-formed, and the grant is not
  longer than requested, and exactly as long when less is not allowed.
\<close>

theorem fsm_lookup_grants_free_blocks:
  assumes "fsm_btree_inv b" "extents_ok (tree_keys b)"
    and "fsm_btree_lookup b off len crl m = Ok (blk, len', m', b')" "blk \<noteq> 0"
  shows "granted_blocks blk len' \<subseteq> free_blocks (tree_keys b) \<and>
    free_blocks (tree_keys b') = free_blocks (tree_keys b) - granted_blocks blk len' \<and>
    extents_ok (tree_keys b') \<and> fsm_btree_inv b' \<and>
    unat len' \<le> unat len \<and> (\<not> crl \<longrightarrow> len' = len)"
  using lookup_granted [OF assms] by (auto simp: grants_def)

text \<open>
  C12. With memory available a request is answered completely: if some extent fits, its
  start is returned and an extent that starts at the wanted block is preferred;
  otherwise the answer is 0 and nothing changes.
\<close>

theorem fsm_lookup_complete:
  assumes "fsm_btree_inv b" "extents_ok (tree_keys b)"
  shows "if \<exists>k\<in>set (tree_keys b). extent_fits len crl k
    then \<exists>k\<in>set (tree_keys b). extent_fits len crl k \<and>
      (\<forall>k'\<in>set (tree_keys b). block_offset k' = off \<longrightarrow> extent_fits len crl k' \<longrightarrow> k' = k) \<and>
      (\<exists>len' m' b'. fsm_btree_lookup b off len crl [] = Ok (block_offset k, len', m', b') \<and>
        unat len' = min (unat len) (unat (klen k)))
    else fsm_btree_lookup b off len crl [] = Ok (0, len, [], b)"
proof (cases "\<exists>k\<in>set (tree_keys b). extent_fits len crl k")
  case True
  from fsm_btree_lookup_found [OF assms True, of off "[]"] obtain k where
    k: "k \<in> set (tree_keys b)" "extent_fits len crl k"
      "fsm_btree_lookup b off len crl [] = Ok (lookup_take b k len [])"
      "\<forall>k'\<in>set (tree_keys b). block_offset k' = off \<longrightarrow> extent_fits len crl k' \<longrightarrow> k' = k" by blast
  obtain blk len' m' b' where r: "lookup_take b k len [] = (blk, len', m', b')" by (metis prod_cases4)
  from lookup_take_granted [OF assms k(1) r] k r True show ?thesis by auto
qed (use fsm_btree_lookup_none [OF assms(1)] in simp)


text \<open>
  C14. Insertion refines insertion into a sorted list, for every outcome of the
  allocations: a key that is present is refused, a new one is put at its place, and an
  allocation failure leaves the keys as they were. Unless memory ran out the B-tree
  invariant holds afterwards.
\<close>

theorem fsm_insert_refines_sorted_list:
  assumes "fsm_btree_inv b" "fsm_btree_insert b key m = (r, m', b')"
  shows "(r = Fail EEXIST \<and> key \<in> set (tree_keys b) \<and> tree_keys b' = tree_keys b \<or>
      r = Success \<and> key \<notin> set (tree_keys b) \<and> tree_keys b' = insort key (tree_keys b) \<or>
      r = Fail ENOMEM \<and> m \<noteq> [] \<and> tree_keys b' = tree_keys b) \<and>
    (r \<noteq> Fail ENOMEM \<longrightarrow> fsm_btree_inv b') \<and> order b' = order b"
  using fsm_btree_insert_spec [OF assms] by (auto simp: insert_result_def)

text \<open>
  C15. Deletion refines removal from a sorted list: with memory available exactly the
  given key is gone and the B-tree invariant holds; when an allocation fails, no key is
  lost.
\<close>

theorem fsm_delete_refines_sorted_list:
  assumes "fsm_btree_inv b" "fsm_btree_delete b key m = (r, m', b')"
  shows "(r = Success \<and> tree_keys b' = remove1 key (tree_keys b) \<and> fsm_btree_inv b' \<or>
      r = Fail ENOMEM \<and> m \<noteq> [] \<and> mset (tree_keys b') = mset (tree_keys b)) \<and> order b' = order b"
  using fsm_btree_delete_spec [OF assms] by (auto simp: delete_result_def)

text \<open>
  C16. Destroying a tree frees every node of it exactly once and leaves a null root.
\<close>

theorem fsm_destroy_frees_every_node:
  assumes "fsm_btree_inv b" "fsm_btree_destroy b = (freed, b')"
  shows "root b' = Null \<and> mset freed = (case root b of Ptr n \<Rightarrow> mset (nodes n) | _ \<Rightarrow> {#})"
  using fsm_btree_destroy_spec [OF assms] by blast

text \<open>
  C17. An allocation failure of the first insertion poisons the tree: the error pointer
  stays in the root, every later insertion and deletion fails even with memory available,
  and a lookup dereferences it.
\<close>

theorem fsm_first_allocation_failure_poisons:
  assumes "fsm_btree_insert vdfs2_init_fsm_btree key (False # m) = (r, m', b)"
  shows "r = Fail ENOMEM \<and> fsm_btree_insert b key' [] = (Fail ENOMEM, [], b) \<and>
    fsm_btree_delete b key' [] = (Fail ENOMEM, [], b) \<and> fsm_btree_lookup b off len crl [] = Bug"
  using assms
  by (auto simp: fsm_btree_insert_def fsm_btree_delete_def fsm_btree_lookup_def vdfs2_init_fsm_btree_def
      allocate_btree_node_def)

section \<open>Witnesses\<close>

text \<open>A tree with the two extents [16, 24) and [40, 44).\<close>

definition sample_tree :: vdfs2_fsm_btree where
  "sample_tree = \<lparr>order = 32, root = Ptr (Node FSM_LEAF_NODE 0 [Key 16 8, Key 40 4] [])\<rparr>"

lemma sample_inv: "fsm_btree_inv sample_tree"
  by (simp add: sample_tree_def fsm_btree_inv_def wf_root_def shape_leaf tree_keys_def less_fsm_btree_key_def)

lemma sample_keys: "tree_keys sample_tree = [Key 16 8, Key 40 4]"
  by (simp add: sample_tree_def tree_keys_def)

lemma sample_ok: "extents_ok (tree_keys sample_tree)"
  unfolding sample_keys by (auto simp: extents_ok_def valid_extent_def ext_blocks_def)

theorem fsm_lookup_grants_free_blocks_witness:
  "granted_blocks 16 5 \<subseteq> free_blocks (tree_keys sample_tree) \<and>
   fsm_btree_lookup sample_tree 16 5 False [] =
     Ok (16, 5, [], sample_tree\<lparr>root := Ptr (Node FSM_LEAF_NODE 0 [Key 21 3, Key 40 4] [])\<rparr>)"
proof -
  have *: "fsm_btree_lookup sample_tree 16 5 False [] =
     Ok (16, 5, [], sample_tree\<lparr>root := Ptr (Node FSM_LEAF_NODE 0 [Key 21 3, Key 40 4] [])\<rparr>)"
    by code_simp
  with fsm_lookup_grants_free_blocks [OF sample_inv sample_ok *] show ?thesis by simp
qed

theorem fsm_lookup_complete_witness:
  "fsm_btree_lookup sample_tree 16 100 False [] = Ok (0, 100, [], sample_tree)"
  using fsm_lookup_complete [OF sample_inv sample_ok, of 100 False 16]
  by (simp add: sample_keys extent_fits_def)


theorem fsm_insert_refines_sorted_list_witness:
  "tree_keys (snd (snd (fsm_btree_insert sample_tree (Key 30 2) []))) = [Key 16 8, Key 30 2, Key 40 4]"
proof -
  have run: "fsm_btree_insert sample_tree (Key 30 2) [] = (Success, [],
      sample_tree\<lparr>root := Ptr (Node FSM_LEAF_NODE 0 [Key 16 8, Key 30 2, Key 40 4] [])\<rparr>)" by code_simp
  from fsm_insert_refines_sorted_list [OF sample_inv run] run show ?thesis
    by (simp add: tree_keys_def)
qed

theorem fsm_delete_refines_sorted_list_witness:
  "tree_keys (snd (snd (fsm_btree_delete sample_tree (Key 16 8) []))) = [Key 40 4]"
proof -
  have run: "fsm_btree_delete sample_tree (Key 16 8) [] = (Success, [],
      sample_tree\<lparr>root := Ptr (Node FSM_LEAF_NODE 0 [Key 40 4] [])\<rparr>)" by code_simp
  from fsm_delete_refines_sorted_list [OF sample_inv run] run show ?thesis by (simp add: tree_keys_def)
qed

theorem fsm_destroy_frees_every_node_witness:
  "root (snd (fsm_btree_destroy sample_tree)) = Null"
  using fsm_destroy_frees_every_node [OF sample_inv, of "fst (fsm_btree_destroy sample_tree)"
      "snd (fsm_btree_destroy sample_tree)"] by simp

theorem fsm_first_allocation_failure_poisons_witness:
  "fsm_btree_lookup (snd (snd (fsm_btree_insert vdfs2_init_fsm_btree (Key 16 8) [False]))) 1 1 True [] = Bug"
  using fsm_first_allocation_failure_poisons [of "Key 16 8" "[]"
      "fst (fsm_btree_insert vdfs2_init_fsm_btree (Key 16 8) [False])"
      "fst (snd (fsm_btree_insert vdfs2_init_fsm_btree (Key 16 8) [False]))"
      "snd (snd (fsm_btree_insert vdfs2_init_fsm_btree (Key 16 8) [False]))"] by simp


end
