(* ===== verification/Fsm_Claims.thy ===== *)
theory Fsm_Claims
  imports Fsm_Inv Fsm_Btree_Claims
begin

text \<open>
  The properties of the signed bitmaps and of the free-space manager, with a small volume
  on which each of them is applied.
\<close>

section \<open>Bitmaps\<close>



text \<open>
  C20. The two searches find the first bit with the wanted value from the given position
  on, across magic and checksum bytes, or return the size when there is none.
\<close>

theorem find_next_first:
  assumes "good_layout bs ml" "0 < sz" "sz < 2 ^ 32" "i \<le> sz" "r = find_next_bit_value buff sz i bs ml v"
  shows "i \<le> r \<and> r \<le> sz \<and> (r < sz \<longrightarrow> bm_bit bs ml buff r = v) \<and>
    (\<forall>j. i \<le> j \<longrightarrow> j < r \<longrightarrow> bm_bit bs ml buff j \<noteq> v)"
  unfolding assms(5) find_next_value [OF assms(1-3)]
  using find_from_spec [of "\<lambda>j. bm_bit bs ml buff j = v" sz i] assms(4) by auto

section \<open>The free-space manager\<close>


text \<open>
  C21. Giving back blocks that are in use succeeds, clears exactly their bits and keeps the
  state consistent; the tree is not touched.
\<close>

theorem fsm_put_free_block_correct:
  assumes "fsm_inv g s" "unat blk + unat len \<le> total_blocks g"
    and "\<forall>i. unat blk \<le> i \<longrightarrow> i < unat blk + unat len \<longrightarrow> used_bit g s i"
  shows "\<exists>s'. vdfs2_fsm_put_free_block g s blk len = (Success, s') \<and> fsm_inv g s' \<and> tree s' = tree s \<and>
    (\<forall>i. used_bit g s' i = (used_bit g s i \<and> \<not> (unat blk \<le> i \<and> i < unat blk + unat len))) \<and>
    next_free_blocks s' = next_free_blocks s + len"
  using free_chunk_ok [OF assms] by (auto simp: vdfs2_fsm_put_free_block_def)


text \<open>
  C23. Rebuilding the tree from the bitmap, as mounting and every commit do, yields a
  consistent state whose tree holds exactly the blocks with a clear bit, and the counter
  of free blocks is their number, provided the last two blocks of the volume have the same
  state.
\<close>

theorem fsm_rebuild_exact:
  assumes "fsm_geometry_ok g s" "fsm_btree_inv (tree s)" "2 \<le> total_blocks g" "used_bit g s 0"
    and "used_bit g s (total_blocks g - 1) = used_bit g s (total_blocks g - 2)"
  shows "\<exists>s'. fsm_rebuild g s [] = (Success, [], s') \<and> fsm_inv g s' \<and> data s' = data s \<and>
    tree_free s' = {i. i < total_blocks g \<and> \<not> used_bit g s i} \<and>
    free_blocks_count s' = int (card {i. i < total_blocks g \<and> \<not> used_bit g s i})"
proof -
  obtain freed t where d: "fsm_btree_destroy (tree s) = (freed, t)" by fastforce
  define s1 where "s1 = s\<lparr>tree := t, free_blocks_count := 0, next_free_blocks := 0\<rparr>"
  have t: "root t = Null" "2 \<le> order t"
    using fsm_btree_destroy_spec(1) [OF assms(2) d] d assms(2)
    by (auto simp: fsm_btree_destroy_def fsm_btree_inv_def split: fsm_ptr.splits)
  have geo: "fsm_geometry_ok g s1" using assms(1) by (simp add: fsm_geometry_ok_def s1_def)
  from fsm_get_tree_ok [OF geo] t assms(3-5) obtain s' where
    "fsm_get_tree g s1 [] = (Success, [], s')" "fsm_inv g s'" "data s' = data s"
    "tree_free s' = {i. i < total_blocks g \<and> \<not> used_bit g s i}"
    "free_blocks_count s' = int (card {i. i < total_blocks g \<and> \<not> used_bit g s i})"
    by (auto simp: s1_def)
  with d show ?thesis by (auto simp: fsm_rebuild_def s1_def)
qed

text \<open>
  C24. When only the last block of the volume is free behind a used one, the rebuild puts an
  extent of \<open>2 ^ 64 - 1\<close> blocks into the tree and subtracts one from the number of free
  blocks.
\<close>

theorem fsm_rebuild_last_block_wrong:
  assumes "fsm_geometry_ok g s" "2 \<le> order (tree s)" "root (tree s) = Null" "2 \<le> total_blocks g"
    and "\<not> used_bit g s (total_blocks g - 1)" "used_bit g s (total_blocks g - 2)"
  shows "\<exists>s'. fsm_get_tree g s [] = (Success, [], s') \<and>
    Key (of_nat (total_blocks g - 1)) (2 ^ 64 - 1) \<in> set (tree_keys (tree s')) \<and>
    free_blocks_count s' = free_blocks_count s + int (card {i. i < total_blocks g - 1 \<and> \<not> used_bit g s i}) - 1"
  using fsm_get_tree_last_block [OF assms] .

section \<open>A small volume\<close>

text \<open>
  64 blocks of 512 bytes, block 0 in use, the free extents of \<open>sample_tree\<close>, erase blocks
  of eight and superpages of four blocks.
\<close>

definition sample_geometry :: sb_geometry where
  "sample_geometry = \<lparr>total_leb_count = 1, log_blocks_in_leb = 6, block_size_shift = 9,
     log_super_page_size = 11, log_erase_block_size = 12, log_erase_block_size_in_blocks = 3\<rparr>"

definition sample_fsm :: "u8 list \<Rightarrow> vdfs2_fsm_btree \<Rightarrow> vdfs2_fsm_info" where
  "sample_fsm d t = \<lparr>tree = t, data = d, page_count = 1, length_in_bytes = 8, free_blocks_count = 12,
     next_free_blocks = 0, erase_blocks_counters = 1 # replicate 8 0, dirty = [], mount_finished = True\<rparr>"

definition sample_bitmap :: "u8 list" where
  "sample_bitmap = (replicate 512 0)[12 := 1]"

lemma sample_geo [simp]:
  "total_leb_count sample_geometry = 1" "log_blocks_in_leb sample_geometry = 6"
  "block_size_shift sample_geometry = 9" "log_super_page_size sample_geometry = 11"
  "log_erase_block_size sample_geometry = 12" "log_erase_block_size_in_blocks sample_geometry = 3"
  by (simp_all add: sample_geometry_def)

lemma sample_addr: "i < 3968 \<Longrightarrow> bit_addr 512 12 i = 12 + i div 8"
  by (simp add: bit_addr_def VDFS2_BIT_BLKSIZE_def CRC32_SIZE_def)

lemma sample_layout: "good_layout 512 FSM_BMP_MAGIC_LEN"
  by (simp add: good_layout_def FSM_BMP_MAGIC_LEN_def VERSION_SIZE_def CRC32_SIZE_def)

lemma sample_geometry_ok: "length d = 512 \<Longrightarrow> fsm_geometry_ok sample_geometry (sample_fsm d t)"
  using sample_layout
  by (auto simp: fsm_geometry_ok_def sample_fsm_def PAGE_SHIFT_def bm_has_def sample_addr bitmap_page_def
      VDFS2_BIT_BLKSIZE_def FSM_BMP_MAGIC_LEN_def VERSION_SIZE_def CRC32_SIZE_def)

lemma sample_bit: "i < 64 \<Longrightarrow> bm_bit 512 FSM_BMP_MAGIC_LEN sample_bitmap i \<longleftrightarrow> i = 0"
proof -
  assume i: "i < 64"
  then have "i div 8 < 8" by simp
  then have "sample_bitmap ! (12 + i div 8) = (if i div 8 = 0 then 1 else 0)"
    by (simp add: sample_bitmap_def nth_list_update)
  moreover have "i mod (496 * 8) = i" using i by simp
  ultimately show ?thesis using i
    by (auto simp: bm_bit_def sample_addr VDFS2_BIT_BLKSIZE_def FSM_BMP_MAGIC_LEN_def VERSION_SIZE_def
        CRC32_SIZE_def bit_1_iff)
qed

lemma sample_fsm_inv: "fsm_inv sample_geometry (sample_fsm sample_bitmap sample_tree)"
proof -
  have c: "card {i. i < (64::nat) \<and> bm_bit 512 FSM_BMP_MAGIC_LEN sample_bitmap i \<and> i div 8 = e} =
      (if e = 0 then 1 else 0)" for e
  proof -
    have "{i. i < (64::nat) \<and> bm_bit 512 FSM_BMP_MAGIC_LEN sample_bitmap i \<and> i div 8 = e} =
        (if e = 0 then {0} else {})" using sample_bit by auto
    then show ?thesis by simp
  qed
  have "fsm_geometry_ok sample_geometry (sample_fsm sample_bitmap sample_tree)"
    by (intro sample_geometry_ok) (simp add: sample_bitmap_def)
  moreover have "counters_ok 3 64 (bm_bit 512 FSM_BMP_MAGIC_LEN sample_bitmap) (1 # replicate 8 0)"
    using c by (auto simp: counters_ok_def nth_Cons less_Suc_eq_0_disj split: nat.splits)
  moreover have "free_blocks (tree_keys sample_tree) = {16..<24} \<union> {40..<44}"
    by (auto simp: sample_keys ext_blocks_def)
  ultimately show ?thesis
    using sample_inv sample_ok sample_bit by (auto simp: fsm_inv_def sample_fsm_def)
qed

section \<open>Witnesses\<close>

lemma magic_len: "FSM_BMP_MAGIC_LEN = 12"
  by (simp add: FSM_BMP_MAGIC_LEN_def VERSION_SIZE_def)




theorem find_next_first_witness: "find_next_bit_value sample_bitmap 64 0 512 12 False = 1"
proof -
  let ?r = "find_next_bit_value sample_bitmap 64 0 512 12 False"
  from find_next_first [of 512 12 64 0 ?r sample_bitmap False] sample_layout
  have r: "?r \<le> 64" "?r < 64 \<longrightarrow> \<not> bm_bit 512 12 sample_bitmap ?r"
    "\<forall>j. j < ?r \<longrightarrow> bm_bit 512 12 sample_bitmap j" by (auto simp: magic_len)
  have "\<not> 1 < ?r" using r(3) sample_bit [of 1] by (auto simp: magic_len)
  moreover have "?r \<noteq> 0"
  proof
    assume "?r = 0"
    with r(2) sample_bit [of 0] show False by (simp add: magic_len)
  qed
  ultimately show ?thesis by simp
qed

abbreviation "sample_state \<equiv> sample_fsm sample_bitmap sample_tree"


theorem fsm_put_free_block_correct_witness:
  "\<exists>s'. vdfs2_fsm_put_free_block sample_geometry sample_state 0 1 = (Success, s') \<and>
    fsm_inv sample_geometry s'"
  using fsm_put_free_block_correct [OF sample_fsm_inv, of 0 1] sample_bit [of 0]
  by (auto simp: sample_fsm_def)



theorem fsm_rebuild_exact_witness:
  "\<exists>s'. fsm_rebuild sample_geometry sample_state [] = (Success, [], s') \<and> tree_free s' = {1..<64}"
proof -
  have geo: "fsm_geometry_ok sample_geometry sample_state"
    by (intro sample_geometry_ok) (simp add: sample_bitmap_def)
  have "{i. i < (64::nat) \<and> \<not> bm_bit 512 FSM_BMP_MAGIC_LEN sample_bitmap i} = {1..<64}"
    using sample_bit by auto
  with fsm_rebuild_exact [OF geo] sample_inv sample_bit [of 0] sample_bit [of 63] sample_bit [of 62]
  show ?thesis by (auto simp: sample_fsm_def)
qed

text \<open>All blocks but the last one in use.\<close>

definition full_bitmap :: "u8 list" where
  "full_bitmap = (replicate 512 255)[19 := 127]"

lemma full_bit: "i < 64 \<Longrightarrow> bm_bit 512 12 full_bitmap i \<longleftrightarrow> i \<noteq> 63"
proof -
  assume i: "i < 64"
  have m: "i mod 8 < 8" by simp
  have "i div 8 < 8" using i by simp
  then have "full_bitmap ! (12 + i div 8) = (if i div 8 = 7 then 127 else 255)"
    by (simp add: full_bitmap_def nth_list_update)
  moreover have "bit (255 :: u8) (i mod 8)"
  proof -
    have "(255 :: u8) = mask 8" by (simp add: mask_eq_exp_minus_1)
    then show ?thesis using m by (simp only: bit_mask_iff) simp
  qed
  moreover have "bit (127 :: u8) (i mod 8) \<longleftrightarrow> i mod 8 < 7"
  proof -
    have "(127 :: u8) = mask 7" by (simp add: mask_eq_exp_minus_1)
    then show ?thesis using m by (simp only: bit_mask_iff) simp
  qed
  moreover have "i = 63 \<longleftrightarrow> i div 8 = 7 \<and> \<not> i mod 8 < 7" using i by presburger
  ultimately show ?thesis using i
    by (auto simp: bm_bit_def sample_addr VDFS2_BIT_BLKSIZE_def CRC32_SIZE_def)
qed

theorem fsm_rebuild_last_block_wrong_witness:
  "\<exists>s'. fsm_get_tree sample_geometry (sample_fsm full_bitmap vdfs2_init_fsm_btree) [] = (Success, [], s') \<and>
    Key 63 (2 ^ 64 - 1) \<in> set (tree_keys (tree s'))"
proof -
  have geo: "fsm_geometry_ok sample_geometry (sample_fsm full_bitmap vdfs2_init_fsm_btree)"
    by (intro sample_geometry_ok) (simp add: full_bitmap_def)
  from fsm_rebuild_last_block_wrong [OF geo] full_bit [of 63] full_bit [of 62] show ?thesis
    by (auto simp: sample_fsm_def vdfs2_init_fsm_btree_def VDFS2_FSM_BTREE_ORDER_def magic_len)
qed

end
