(* ===== verification/Bnode.thy ===== *)
theory Bnode
  imports Vdfs2_Prelude
begin

text \<open>
  The nodes of the metadata B-trees in memory, \<^verbatim>\<open>bnode.c\<close>: the bitmap of used
  node numbers, reading and creating nodes, and the cache, a hash table over an active and
  a passive list of recently used nodes.

  Nodes are shared between the hash table and the lists, so the model has a store that maps
  addresses to nodes, and the table and the lists hold addresses. Reading the pages of a
  node is the page cache's work and is a parameter; the optional checks (checksums, traces,
  sanity checks) are build options and are left out here.
\<close>

section \<open>Data\<close>

datatype vdfs2_get_bnode_mode = VDFS2_BNODE_MODE_RW | VDFS2_BNODE_MODE_RO

record vdfs2_bnode =
  node_id :: u32
  mode :: vdfs2_get_bnode_mode
  ref_count :: int
  state :: nat

text \<open>The bits are those of the memory area \<^verbatim>\<open>data\<close>, eight for each of its bytes.\<close>

record vdfs2_bnode_bitmap =
  bits :: "bool list"
  area_size :: u64
  start_id :: u32
  end_id :: u32
  first_free_id :: u32
  free_num :: u32
  bits_num :: u32

text \<open>
  What a tree keeps for its nodes. \<open>heap\<close> is the kernel heap as far as it holds nodes;
  \<open>next_addr\<close> is an address not used before. \<open>dirty_bnodes\<close> lists the nodes handed
  to the transaction.
\<close>

record vdfs2_btree =
  has_inode :: bool
  is_mounted :: bool
  is_pack :: bool
  pages_per_node :: u32
  tree_metadata_offset :: u64
  head_bnode :: nat
  bitmap :: vdfs2_bnode_bitmap
  heap :: "nat \<rightharpoonup> vdfs2_bnode"
  next_addr :: nat
  hash_table :: "nat list list"
  active_use_count :: int
  active_use :: "nat list"
  passive_use_count :: int
  passive_use :: "nat list"
  dirty_bnodes :: "u32 list"

text \<open>The page cache: whether the pages of a node can be read, and the word they start with.\<close>

record node_io =
  read_pages :: "u64 \<Rightarrow> ret"
  first_word :: "u64 \<Rightarrow> u16"

definition VDFS2_BNODE_HASH_SIZE :: nat where "VDFS2_BNODE_HASH_SIZE = 2 ^ 10"
definition VDFS2_BNODE_HASH_MASK :: u32 where "VDFS2_BNODE_HASH_MASK = 2 ^ 10 - 1"
definition VDFS2_ACTIVE_SIZE :: nat where "VDFS2_ACTIVE_SIZE = VDFS2_BNODE_HASH_SIZE"
definition VDFS2_PASSIVE_SIZE :: nat where "VDFS2_PASSIVE_SIZE = VDFS2_BNODE_HASH_SIZE"
definition VDFS2_NODE_DESCR_MAGIC :: u16 where "VDFS2_NODE_DESCR_MAGIC = 0x644E"
definition VDFS2_INVALID_NODE_ID :: u32 where "VDFS2_INVALID_NODE_ID = 0"

abbreviation bnode_at :: "vdfs2_btree \<Rightarrow> nat \<Rightarrow> vdfs2_bnode" where
  "bnode_at t a \<equiv> the (heap t a)"

definition set_bnode :: "nat \<Rightarrow> (vdfs2_bnode \<Rightarrow> vdfs2_bnode) \<Rightarrow> vdfs2_btree \<Rightarrow> vdfs2_btree" where
  "set_bnode a f t = t\<lparr>heap := (heap t)(a \<mapsto> f (bnode_at t a))\<rparr>"

section \<open>Reading a node\<close>

definition node_page_index :: "vdfs2_btree \<Rightarrow> u32 \<Rightarrow> u64" where
  "node_page_index t nid =
     ucast (nid * pages_per_node t) + (if is_pack t then tree_metadata_offset t else 0)"

definition get_bnode_raw ::
  "node_io \<Rightarrow> vdfs2_btree \<Rightarrow> u32 \<Rightarrow> bool \<Rightarrow> vdfs2_get_bnode_mode \<Rightarrow> mem \<Rightarrow> nat result \<times> mem \<times> vdfs2_btree" where
  "get_bnode_raw io t nid create md m =
     (if \<not> has_inode t then (if is_mounted t then Bug else Err EINVAL, m, t)
      else
        (case kmem_alloc m of (ok, m1) \<Rightarrow>
           if \<not> ok then (Err ENOMEM, m1, t)
           else
             (case kmem_alloc m1 of (ok, m2) \<Rightarrow>
                if \<not> ok then (Err ENOMEM, m2, t)
                else
                  (case read_pages io (node_page_index t nid) of
                     Fail e \<Rightarrow> (Err e, m2, t)
                   | Oops \<Rightarrow> (Bug, m2, t)
                   | Success \<Rightarrow>
                       (case kmem_alloc m2 of (ok, m3) \<Rightarrow>
                          if \<not> ok then (Err ENOMEM, m3, t)
                          else if \<not> create \<and> nid \<noteq> 0 \<and>
                              first_word io (node_page_index t nid) \<noteq> VDFS2_NODE_DESCR_MAGIC
                          then (Err ENOENT, m3, t)
                          else
                            (Ok (next_addr t), m3,
                             t\<lparr>heap := (heap t)(next_addr t \<mapsto>
                                 \<lparr>node_id = nid, mode = md, ref_count = 1, state = 0\<rparr>),
                               next_addr := next_addr t + 1\<rparr>))))))"

section \<open>The cache\<close>

definition bnode_hash_fn :: "u32 \<Rightarrow> nat" where
  "bnode_hash_fn nid = unat (nid AND VDFS2_BNODE_HASH_MASK)"

text \<open>\<^verbatim>\<open>list_del\<close> takes a node off the list it is on.\<close>

definition list_del :: "nat \<Rightarrow> vdfs2_btree \<Rightarrow> vdfs2_btree" where
  "list_del a t = t\<lparr>active_use := remove1 a (active_use t), passive_use := remove1 a (passive_use t)\<rparr>"

definition remove_from_lru :: "nat \<Rightarrow> vdfs2_btree \<Rightarrow> vdfs2_btree" where
  "remove_from_lru a t =
     (let t1 = list_del a t in
      if state (bnode_at t a) = 0 then t1\<lparr>passive_use_count := passive_use_count t1 - 1\<rparr>
      else t1\<lparr>active_use_count := active_use_count t1 - 1\<rparr>)"

definition unhash_bnode :: "nat \<Rightarrow> vdfs2_btree \<Rightarrow> vdfs2_btree" where
  "unhash_bnode a t =
     (let h = bnode_hash_fn (node_id (bnode_at t a)) in
      remove_from_lru a (t\<lparr>hash_table := (hash_table t)[h := remove1 a (hash_table t ! h)]\<rparr>))"

definition free_bnode :: "nat \<Rightarrow> vdfs2_btree \<Rightarrow> vdfs2_btree" where
  "free_bnode a t = t\<lparr>heap := (heap t)(a := None)\<rparr>"

definition put_bnode_cached :: "nat \<Rightarrow> bool \<Rightarrow> vdfs2_btree \<Rightarrow> vdfs2_btree" where
  "put_bnode_cached a keep_in_cache t =
     (if keep_in_cache then t else free_bnode a (unhash_bnode a t))"

definition vdfs2_put_cache_bnode :: "nat \<Rightarrow> vdfs2_btree \<Rightarrow> vdfs2_btree" where
  "vdfs2_put_cache_bnode a t = put_bnode_cached a False t"

definition add_to_passive :: "nat \<Rightarrow> vdfs2_btree \<Rightarrow> vdfs2_btree" where
  "add_to_passive a t =
     (let t1 = set_bnode a (\<lambda>b. b\<lparr>state := 0\<rparr>) (t\<lparr>passive_use := a # passive_use t\<rparr>);
          t2 = t1\<lparr>passive_use_count := passive_use_count t1 + 1\<rparr> in
      if int VDFS2_PASSIVE_SIZE < passive_use_count t2 then
        (let t3 = vdfs2_put_cache_bnode (last (passive_use t2)) t2 in
         t3\<lparr>passive_use_count := passive_use_count t3 - 1\<rparr>)
      else t2)"

text \<open>
  \<^verbatim>\<open>add_to_active\<close> and \<^verbatim>\<open>passive_to_active\<close> call each other when the oldest
  active node is the head node; \<open>None\<close> would be a recursion that does not end.
\<close>

partial_function (option) add_to_active :: "nat \<Rightarrow> vdfs2_btree \<Rightarrow> vdfs2_btree option" where
  "add_to_active a t =
     (let t1 = set_bnode a (\<lambda>b. b\<lparr>state := 1\<rparr>) (t\<lparr>active_use := a # active_use t\<rparr>);
          t2 = t1\<lparr>active_use_count := active_use_count t1 + 1\<rparr> in
      if int VDFS2_ACTIVE_SIZE < active_use_count t2 then
        (let deleting = last (active_use t2) in
         if node_id (bnode_at t2 deleting) = 0 then add_to_active deleting (remove_from_lru deleting t2)
         else
           (let t3 = add_to_passive deleting (list_del deleting t2) in
            Some (t3\<lparr>active_use_count := active_use_count t3 - 1\<rparr>)))
      else Some t2)"

definition passive_to_active :: "nat \<Rightarrow> vdfs2_btree \<Rightarrow> vdfs2_btree option" where
  "passive_to_active a t = add_to_active a (remove_from_lru a t)"

definition hash_bnode :: "nat \<Rightarrow> vdfs2_btree \<Rightarrow> vdfs2_btree option" where
  "hash_bnode a t =
     (let h = bnode_hash_fn (node_id (bnode_at t a));
          t1 = t\<lparr>hash_table := (hash_table t)[h := a # hash_table t ! h]\<rparr> in
      if node_id (bnode_at t a) = 0 then add_to_active a t1 else Some (add_to_passive a t1))"

text \<open>The inner option is the pointer, NULL when no node of the chain has the number.\<close>

definition get_bnode_from_hash ::
  "vdfs2_btree \<Rightarrow> u32 \<Rightarrow> vdfs2_get_bnode_mode \<Rightarrow> (nat option \<times> vdfs2_btree) option" where
  "get_bnode_from_hash t nid md =
     (case find (\<lambda>a. node_id (bnode_at t a) = nid) (hash_table t ! bnode_hash_fn nid) of
        None \<Rightarrow> Some (None, t)
      | Some a \<Rightarrow>
          (let t1 = set_bnode a (\<lambda>b. b\<lparr>mode := md\<rparr>) t in
           if state (bnode_at t1 a) = 0 then map_option (\<lambda>t2. (Some a, t2)) (passive_to_active a t1)
           else Some (Some a, t1)))"

section \<open>Getting and putting nodes\<close>

text \<open>Bit operations of the kernel; an access beyond the area is \<open>None\<close>.\<close>

definition test_bit :: "nat \<Rightarrow> bool list \<Rightarrow> bool option" where
  "test_bit n bs = (if n < length bs then Some (bs ! n) else None)"

definition vdfs2_get_bnode ::
  "node_io \<Rightarrow> vdfs2_btree \<Rightarrow> u32 \<Rightarrow> vdfs2_get_bnode_mode \<Rightarrow> mem \<Rightarrow> nat result \<times> mem \<times> vdfs2_btree" where
  "vdfs2_get_bnode io t nid md m =
     (if nid \<noteq> 0 \<and> bits_num (bitmap t) \<le> nid then (Err ENOENT, m, t)
      else if nid \<noteq> 0 \<and> test_bit (unat nid) (bits (bitmap t)) = Some False then (Err ENOENT, m, t)
      else if nid \<noteq> 0 \<and> test_bit (unat nid) (bits (bitmap t)) = None then (Bug, m, t)
      else
        (case get_bnode_from_hash t nid md of
           None \<Rightarrow> (Bug, m, t)
         | Some (None, t1) \<Rightarrow>
             (case get_bnode_raw io t1 nid False md m of
                (Ok a, m1, t2) \<Rightarrow>
                  (case hash_bnode a t2 of None \<Rightarrow> (Bug, m1, t2) | Some t3 \<Rightarrow> (Ok a, m1, t3))
              | (Err e, m1, t2) \<Rightarrow> (Err e, m1, t2)
              | (Bug, m1, t2) \<Rightarrow> (Bug, m1, t2))
         | Some (Some a, t1) \<Rightarrow>
             (let t2 = set_bnode a (\<lambda>b. b\<lparr>ref_count := ref_count b + 1\<rparr>) t1 in
              if md = VDFS2_BNODE_MODE_RW \<and> 2 < ref_count (bnode_at t2 a) then (Bug, m, t2)
              else (Ok a, m, t2))))"

definition vdfs2_put_bnode :: "nat \<Rightarrow> vdfs2_btree \<Rightarrow> vdfs2_btree result" where
  "vdfs2_put_bnode a t =
     (let t1 = set_bnode a (\<lambda>b. b\<lparr>ref_count := ref_count b - 1\<rparr>) t in
      if ref_count (bnode_at t1 a) < 0 then Bug else Ok (put_bnode_cached a True t1))"

definition vdfs2_mark_bnode_dirty :: "nat \<Rightarrow> vdfs2_btree \<Rightarrow> vdfs2_btree option" where
  "vdfs2_mark_bnode_dirty a t =
     (if mode (bnode_at t a) \<noteq> VDFS2_BNODE_MODE_RW then None
      else Some (t\<lparr>dirty_bnodes := dirty_bnodes t @ [node_id (bnode_at t a)]\<rparr>))"

section \<open>The bitmap of node numbers\<close>

function find_next_zero_bit :: "bool list \<Rightarrow> nat \<Rightarrow> nat \<Rightarrow> nat" where
  "find_next_zero_bit bs n i =
     (if i < n then (if bs ! i then find_next_zero_bit bs n (i + 1) else i) else n)"
  by pat_completeness auto
termination by (relation "measure (\<lambda>(bs, n, i). n - i)") auto

declare find_next_zero_bit.simps [simp del]

definition vdfs2_build_free_bnode_bitmap ::
  "bool list \<Rightarrow> u32 \<Rightarrow> u64 \<Rightarrow> nat option \<Rightarrow> mem \<Rightarrow> vdfs2_bnode_bitmap result \<times> mem" where
  "vdfs2_build_free_bnode_bitmap bs start_bnode_id size_in_bytes host m =
     (if host = None then (Err EINVAL, m)
      else
        (case kmem_alloc m of (ok, m1) \<Rightarrow>
           if \<not> ok then (Err ENOMEM, m1)
           else
             (let n = (ucast (size_in_bytes * 8) :: u32) in
              (Ok \<lparr>bits = bs, area_size = size_in_bytes, start_id = start_bnode_id,
                   end_id = start_bnode_id + n,
                   first_free_id = of_nat (find_next_zero_bit bs (unat n) 0) + start_bnode_id,
                   free_num = n - of_nat (length (filter (\<lambda>b. b) (take (unat n) bs))), bits_num = n\<rparr>, m1))))"

definition set_bitmap :: "(vdfs2_bnode_bitmap \<Rightarrow> vdfs2_bnode_bitmap) \<Rightarrow> vdfs2_btree \<Rightarrow> vdfs2_btree" where
  "set_bitmap f t = t\<lparr>bitmap := f (bitmap t)\<rparr>"

definition vdfs2_alloc_new_bnode ::
  "node_io \<Rightarrow> vdfs2_btree \<Rightarrow> mem \<Rightarrow> nat result \<times> mem \<times> vdfs2_btree" where
  "vdfs2_alloc_new_bnode io t m =
     (let i = first_free_id (bitmap t) in
      if free_num (bitmap t) = 0 then (Err ENOSPC, m, t)
      else if test_bit (unat i) (bits (bitmap t)) \<noteq> Some False then (Bug, m, t)
      else
        (let t1 = set_bitmap (\<lambda>b. b\<lparr>bits := (bits b)[unat i := True]\<rparr>) t in
         case vdfs2_mark_bnode_dirty (head_bnode t1) t1 of
           None \<Rightarrow> (Bug, m, t1)
         | Some t2 \<Rightarrow>
             (case get_bnode_raw io t2 i True VDFS2_BNODE_MODE_RW m of
                (Ok a, m1, t3) \<Rightarrow>
                  (let t4 = set_bitmap (\<lambda>b. b\<lparr>first_free_id := of_nat (find_next_zero_bit (bits b) (unat (bits_num b)) (unat i)),
                                free_num := free_num b - 1\<rparr>) t3 in
                   case vdfs2_mark_bnode_dirty (head_bnode t4) t4 of
                     None \<Rightarrow> (Bug, m1, t4)
                   | Some t5 \<Rightarrow>
                       (case hash_bnode a t5 of None \<Rightarrow> (Bug, m1, t5) | Some t6 \<Rightarrow> (Ok a, m1, t6)))
              | (Err e, m1, t3) \<Rightarrow> (Err e, m1, set_bitmap (\<lambda>b. b\<lparr>bits := (bits b)[unat i := False]\<rparr>) t3)
              | (Bug, m1, t3) \<Rightarrow> (Bug, m1, t3))))"

definition vdfs2_destroy_bnode :: "nat \<Rightarrow> vdfs2_btree \<Rightarrow> ret \<times> vdfs2_btree" where
  "vdfs2_destroy_bnode a t =
     (let nid = node_id (bnode_at t a) in
      if nid = VDFS2_INVALID_NODE_ID then (Oops, t)
      else
        (let t1 = set_bnode a (\<lambda>b. b\<lparr>ref_count := ref_count b - 1\<rparr>) t in
         if ref_count (bnode_at t1 a) \<noteq> 0 then (Oops, t1)
         else
           (let t2 = put_bnode_cached a False t1 in
            case test_bit (unat nid) (bits (bitmap t2)) of
              None \<Rightarrow> (Oops, t2)
            | Some False \<Rightarrow> (if is_mounted t2 then Oops else Fail EFAULT, t2)
            | Some True \<Rightarrow>
                (let t3 = set_bitmap (\<lambda>b. b\<lparr>bits := (bits b)[unat nid := False]\<rparr>) t2 in
                 case vdfs2_mark_bnode_dirty (head_bnode t3) t3 of
                   None \<Rightarrow> (Oops, t3)
                 | Some t4 \<Rightarrow>
                     (Success, set_bitmap (\<lambda>b. b\<lparr>first_free_id :=
                          if nid < first_free_id b then nid else first_free_id b,
                        free_num := free_num b + 1\<rparr>) t4)))))"

section \<open>The reserve for splitting\<close>

text \<open>
  The node is created and marked dirty, so that the commit gives it a place on the device,
  but it does not enter the cache. The contents of nodes are not part of this theory.
\<close>

definition vdfs2_prealloc_one_bnode_reserve ::
  "node_io \<Rightarrow> vdfs2_btree \<Rightarrow> u32 \<Rightarrow> mem \<Rightarrow> ret \<times> mem \<times> vdfs2_btree" where
  "vdfs2_prealloc_one_bnode_reserve io t nid m =
     (case get_bnode_raw io t nid True VDFS2_BNODE_MODE_RW m of
        (Err e, m1, t1) \<Rightarrow> (Fail e, m1, t1)
      | (Bug, m1, t1) \<Rightarrow> (Oops, m1, t1)
      | (Ok a, m1, t1) \<Rightarrow>
          (let t2 = set_bnode a (\<lambda>b. b\<lparr>ref_count := ref_count b - 1\<rparr>) t1 in
           if ref_count (bnode_at t2 a) \<noteq> 0 then (Oops, m1, t2)
           else (case vdfs2_mark_bnode_dirty a t2 of
                   None \<Rightarrow> (Oops, m1, t2)
                 | Some t3 \<Rightarrow> (Success, m1, free_bnode a t3))))"

fun reserve_loop :: "node_io \<Rightarrow> vdfs2_btree \<Rightarrow> nat \<Rightarrow> nat \<Rightarrow> mem \<Rightarrow> ret \<times> mem \<times> vdfs2_btree" where
  "reserve_loop io t i 0 m = (Success, m, t)"
| "reserve_loop io t i (Suc n) m =
     (case vdfs2_prealloc_one_bnode_reserve io t (of_nat i) m of (r, m1, t1) \<Rightarrow>
        if r \<noteq> Success then (r, m1, t1) else reserve_loop io t1 (i + 1) n m1)"

text \<open>
  \<open>available\<close> is the number of nodes the snapshot tables have a place for, and
  \<open>height\<close> the height of the tree.
\<close>

definition vdfs2_check_bnode_reserve ::
  "node_io \<Rightarrow> vdfs2_btree \<Rightarrow> nat \<Rightarrow> nat \<Rightarrow> mem \<Rightarrow> ret \<times> mem \<times> vdfs2_btree" where
  "vdfs2_check_bnode_reserve io t available height m =
     (let used = unat (bits_num (bitmap t) - free_num (bitmap t));
          deficit = int (height * 4) - (int available - int used) in
      if deficit \<le> 0 then (Success, m, t)
      else reserve_loop io t available (nat deficit) m)"

end
