(* ===== verification/Bnode_Cache.thy ===== *)
theory Bnode_Cache
  imports Bnode
begin

text \<open>
  The cache of nodes stays consistent: the hash table and the two lists hold the same
  nodes, no number is cached twice, and the node with number 0 (the head of the tree) is
  never thrown out. The states in the middle of an operation have nodes that are in the
  hash table and on no list; the invariant has the set of those as a parameter.
\<close>

definition cached :: "vdfs2_btree \<Rightarrow> nat set" where
  "cached t = set (active_use t) \<union> set (passive_use t)"

abbreviation id_at :: "vdfs2_btree \<Rightarrow> nat \<Rightarrow> u32" where
  "id_at t a \<equiv> node_id (bnode_at t a)"

definition cache_core :: "nat set \<Rightarrow> vdfs2_btree \<Rightarrow> bool" where
  "cache_core P t \<longleftrightarrow>
     length (hash_table t) = VDFS2_BNODE_HASH_SIZE \<and>
     distinct (active_use t @ passive_use t) \<and> P \<inter> cached t = {} \<and>
     (\<forall>h < VDFS2_BNODE_HASH_SIZE. distinct (hash_table t ! h) \<and>
        set (hash_table t ! h) = {a \<in> cached t \<union> P. bnode_hash_fn (id_at t a) = h}) \<and>
     cached t \<union> P \<subseteq> dom (heap t) \<and> inj_on (id_at t) (cached t \<union> P) \<and>
     (\<forall>a \<in> set (active_use t). state (bnode_at t a) = 1) \<and>
     (\<forall>a \<in> set (passive_use t). state (bnode_at t a) = 0 \<and> id_at t a \<noteq> 0) \<and>
     active_use_count t = int (length (active_use t)) \<and>
     passive_use_count t \<le> int (length (passive_use t)) \<and>
     (\<forall>a \<in> dom (heap t). a < next_addr t)"

definition cache_bounds :: "vdfs2_btree \<Rightarrow> bool" where
  "cache_bounds t \<longleftrightarrow>
     length (active_use t) \<le> VDFS2_ACTIVE_SIZE \<and> passive_use_count t \<le> int VDFS2_PASSIVE_SIZE"

definition cache_inv :: "vdfs2_btree \<Rightarrow> bool" where
  "cache_inv t \<longleftrightarrow> cache_core {} t \<and> cache_bounds t"

text \<open>
  What the cache's operations leave alone: everything but the lists, the table and the
  states of the nodes, and the nodes that were thrown out, which were passive.
\<close>

definition cache_frame :: "vdfs2_btree \<Rightarrow> vdfs2_btree \<Rightarrow> nat set \<Rightarrow> bool" where
  "cache_frame t t' E \<longleftrightarrow>
     (\<exists>h ht ac al pc pl. t' = t\<lparr>heap := h, hash_table := ht, active_use_count := ac, active_use := al,
        passive_use_count := pc, passive_use := pl\<rparr>) \<and>
     dom (heap t') = dom (heap t) - E \<and>
     (\<forall>a \<in> dom (heap t'). \<exists>s. bnode_at t' a = bnode_at t a\<lparr>state := s\<rparr>)"

lemmas cache_sizes = VDFS2_ACTIVE_SIZE_def VDFS2_PASSIVE_SIZE_def VDFS2_BNODE_HASH_SIZE_def

lemma hash_fn_bound [simp]: "bnode_hash_fn i < VDFS2_BNODE_HASH_SIZE"
  unfolding bnode_hash_fn_def VDFS2_BNODE_HASH_MASK_def VDFS2_BNODE_HASH_SIZE_def and_mask_mod by simp

lemma int_length_remove1: "x \<in> set xs \<Longrightarrow> int (length (remove1 x xs)) = int (length xs) - 1"
  by (induction xs) auto

lemma cache_frame_refl [simp]: "cache_frame t t {}"
proof -
  have "t = t\<lparr>heap := heap t, hash_table := hash_table t, active_use_count := active_use_count t,
      active_use := active_use t, passive_use_count := passive_use_count t, passive_use := passive_use t\<rparr>" by simp
  moreover have "\<exists>s. bnode_at t a = bnode_at t a\<lparr>state := s\<rparr>" for a
    by (rule exI [of _ "state (bnode_at t a)"]) simp
  ultimately show ?thesis unfolding cache_frame_def by blast
qed

lemma cache_frame_trans:
  assumes "cache_frame t u E" "cache_frame u v F"
  shows "cache_frame t v (E \<union> F)"
proof -
  from assms(1) obtain h ht ac al pc pl where u: "u = t\<lparr>heap := h, hash_table := ht, active_use_count := ac,
      active_use := al, passive_use_count := pc, passive_use := pl\<rparr>" unfolding cache_frame_def by blast
  from assms(2) obtain h' ht' ac' al' pc' pl' where v: "v = u\<lparr>heap := h', hash_table := ht', active_use_count := ac',
      active_use := al', passive_use_count := pc', passive_use := pl'\<rparr>" unfolding cache_frame_def by blast
  have "\<exists>s. bnode_at v a = bnode_at t a\<lparr>state := s\<rparr>" if a: "a \<in> dom (heap v)" for a
  proof -
    from a assms(2) obtain s where "bnode_at v a = bnode_at u a\<lparr>state := s\<rparr>" unfolding cache_frame_def by blast
    moreover from a assms obtain r where "bnode_at u a = bnode_at t a\<lparr>state := r\<rparr>" unfolding cache_frame_def by blast
    ultimately show ?thesis by auto
  qed
  moreover have "dom (heap v) = dom (heap t) - (E \<union> F)" using assms unfolding cache_frame_def by auto
  moreover have "v = t\<lparr>heap := h', hash_table := ht', active_use_count := ac',
      active_use := al', passive_use_count := pc', passive_use := pl'\<rparr>" using u v by simp
  ultimately show ?thesis unfolding cache_frame_def by blast
qed

lemma cache_frame_fields:
  assumes "cache_frame t t' E"
  shows "bitmap t' = bitmap t" "head_bnode t' = head_bnode t" "next_addr t' = next_addr t"
    "dirty_bnodes t' = dirty_bnodes t" "has_inode t' = has_inode t" "is_mounted t' = is_mounted t"
  using assms by (auto simp: cache_frame_def)

lemma cache_frame_node:
  assumes "cache_frame t t' E" "a \<in> dom (heap t')"
  shows "id_at t' a = id_at t a" "mode (bnode_at t' a) = mode (bnode_at t a)"
    "ref_count (bnode_at t' a) = ref_count (bnode_at t a)"
proof -
  from assms obtain s where "bnode_at t' a = bnode_at t a\<lparr>state := s\<rparr>" unfolding cache_frame_def by blast
  then show "id_at t' a = id_at t a" "mode (bnode_at t' a) = mode (bnode_at t a)"
    "ref_count (bnode_at t' a) = ref_count (bnode_at t a)" by simp_all
qed

section \<open>The operations on one list\<close>

lemma remove_from_lru_ok:
  assumes core: "cache_core P t" and a: "a \<in> cached t"
  shows "cache_core (insert a P) (remove_from_lru a t)" "cache_frame t (remove_from_lru a t) {}"
    "active_use (remove_from_lru a t) = remove1 a (active_use t)"
    "passive_use (remove_from_lru a t) = remove1 a (passive_use t)"
    "heap (remove_from_lru a t) = heap t"
    "a \<in> set (active_use t) \<Longrightarrow> passive_use_count (remove_from_lru a t) = passive_use_count t"
    "a \<in> set (passive_use t) \<Longrightarrow> passive_use_count (remove_from_lru a t) = passive_use_count t - 1"
proof -
  let ?t = "remove_from_lru a t"
  have d: "distinct (active_use t)" "distinct (passive_use t)" "set (active_use t) \<inter> set (passive_use t) = {}"
    using core by (auto simp: cache_core_def)
  have st: "state (bnode_at t a) = (if a \<in> set (active_use t) then 1 else 0)"
    using core a d(3) by (auto simp: cache_core_def cached_def)
  show l: "active_use ?t = remove1 a (active_use t)" "passive_use ?t = remove1 a (passive_use t)"
    and h: "heap ?t = heap t"
    by (simp_all add: remove_from_lru_def list_del_def Let_def)
  show "a \<in> set (active_use t) \<Longrightarrow> passive_use_count ?t = passive_use_count t"
    "a \<in> set (passive_use t) \<Longrightarrow> passive_use_count ?t = passive_use_count t - 1"
    using st d(3) by (auto simp: remove_from_lru_def list_del_def Let_def)
  have c: "cached ?t = cached t - {a}" "hash_table ?t = hash_table t" "next_addr ?t = next_addr t"
    using d by (auto simp: cached_def l) (simp_all add: remove_from_lru_def list_del_def Let_def)
  have cnt: "active_use_count ?t = int (length (active_use ?t)) \<and>
      passive_use_count ?t \<le> int (length (passive_use ?t))"
  proof (cases "a \<in> set (active_use t)")
    case True
    then have "a \<notin> set (passive_use t)" using d(3) by blast
    with True st core show ?thesis unfolding l
      by (simp add: cache_core_def remove_from_lru_def list_del_def Let_def int_length_remove1 remove1_idem)
  next
    case False
    with st core a show ?thesis unfolding l
      by (simp add: cache_core_def cached_def remove_from_lru_def list_del_def Let_def int_length_remove1 remove1_idem)
  qed
  have un: "cached ?t \<union> insert a P = cached t \<union> P" using a c by auto
  show "cache_core (insert a P) ?t"
    unfolding cache_core_def un c(2,3) h
    using core cnt c(1) d a
    by (auto simp: cache_core_def l dest: notin_set_remove1)
  show "cache_frame t ?t {}"
  proof -
    have "\<exists>s. bnode_at t x = bnode_at t x\<lparr>state := s\<rparr>" for x by (rule exI [of _ "state (bnode_at t x)"]) simp
    moreover have "?t = t\<lparr>heap := heap t, hash_table := hash_table t, active_use_count := active_use_count ?t,
      active_use := active_use ?t, passive_use_count := passive_use_count ?t, passive_use := passive_use ?t\<rparr>"
      by (simp add: remove_from_lru_def list_del_def Let_def)
    ultimately show ?thesis unfolding cache_frame_def h by blast
  qed
qed

section \<open>Throwing a node out\<close>

definition drop_node :: "nat \<Rightarrow> vdfs2_btree \<Rightarrow> vdfs2_btree" where
  "drop_node a t =
     (let h = bnode_hash_fn (id_at t a) in
      t\<lparr>hash_table := (hash_table t)[h := remove1 a (hash_table t ! h)], heap := (heap t)(a := None)\<rparr>)"

lemma put_cache_bnode_eq: "vdfs2_put_cache_bnode a t = drop_node a (remove_from_lru a t)"
  by (simp add: vdfs2_put_cache_bnode_def put_bnode_cached_def free_bnode_def unhash_bnode_def drop_node_def
      remove_from_lru_def list_del_def Let_def)

lemma drop_node_ok:
  assumes core: "cache_core (insert a P) t" and a: "a \<notin> P"
  shows "cache_core P (drop_node a t)" "cache_frame t (drop_node a t) {a}"
    "active_use (drop_node a t) = active_use t" "passive_use (drop_node a t) = passive_use t"
    "passive_use_count (drop_node a t) = passive_use_count t"
proof -
  let ?t = "drop_node a t"
  have na: "a \<notin> cached t" using core by (auto simp: cache_core_def)
  show l: "active_use ?t = active_use t" "passive_use ?t = passive_use t"
    and pc: "passive_use_count ?t = passive_use_count t" by (simp_all add: drop_node_def Let_def)
  have c: "cached ?t = cached t" by (simp add: cached_def l)
  have nd: "x \<noteq> a \<Longrightarrow> bnode_at ?t x = bnode_at t x" for x by (simp add: drop_node_def Let_def)
  have ida: "x \<in> cached t \<or> x \<in> P \<Longrightarrow> bnode_at ?t x = bnode_at t x" for x
    using na a nd by (cases "x = a") auto
  have len: "length (hash_table t) = VDFS2_BNODE_HASH_SIZE" using core by (simp add: cache_core_def)
  have buck: "distinct (hash_table ?t ! h) \<and>
      set (hash_table ?t ! h) = {x \<in> cached ?t \<union> P. bnode_hash_fn (id_at ?t x) = h}"
    if h: "h < VDFS2_BNODE_HASH_SIZE" for h
  proof -
    have o: "distinct (hash_table t ! h)"
      "set (hash_table t ! h) = {x \<in> cached t \<union> insert a P. bnode_hash_fn (id_at t x) = h}"
      using core h by (auto simp: cache_core_def)
    have n: "hash_table ?t ! h = remove1 a (hash_table t ! h)"
      using h len o(2) by (auto simp: drop_node_def Let_def nth_list_update remove1_idem)
    have "{x \<in> cached ?t \<union> P. bnode_hash_fn (id_at ?t x) = h} = set (hash_table t ! h) - {a}"
      unfolding o(2) c using na a by (auto simp: ida)
    then show ?thesis using o(1) n by simp
  qed
  have "inj_on (id_at ?t) (cached t \<union> P) = inj_on (id_at t) (cached t \<union> P)"
    by (intro inj_on_cong) (simp add: ida)
  moreover have "inj_on (id_at t) (cached t \<union> P)" using core by (auto simp: cache_core_def intro: inj_on_subset)
  moreover have "cached t \<union> P \<subseteq> dom (heap ?t)" using core na a by (auto simp: cache_core_def drop_node_def Let_def)
  moreover have "\<forall>x\<in>set (active_use t). state (bnode_at ?t x) = 1"
    "\<forall>x\<in>set (passive_use t). state (bnode_at ?t x) = 0 \<and> id_at ?t x \<noteq> 0"
    using core ida by (auto simp: cache_core_def cached_def)
  moreover have "length (hash_table ?t) = VDFS2_BNODE_HASH_SIZE" "active_use_count ?t = active_use_count t"
    "\<forall>x \<in> dom (heap ?t). x < next_addr ?t"
    using len core by (auto simp: drop_node_def Let_def cache_core_def)
  ultimately show "cache_core P ?t"
    unfolding cache_core_def l pc c using core buck c
    by (auto simp: cache_core_def)
  have "\<exists>s. bnode_at ?t x = bnode_at t x\<lparr>state := s\<rparr>" if "x \<in> dom (heap ?t)" for x
    using that by (intro exI [of _ "state (bnode_at t x)"]) (auto simp: drop_node_def Let_def split: if_splits)
  moreover have "?t = t\<lparr>heap := heap ?t, hash_table := hash_table ?t, active_use_count := active_use_count t,
      active_use := active_use t, passive_use_count := passive_use_count t, passive_use := passive_use t\<rparr>"
    "dom (heap ?t) = dom (heap t) - {a}"
    by (auto simp: drop_node_def Let_def)
  ultimately show "cache_frame t ?t {a}" unfolding cache_frame_def by blast
qed

lemma put_cache_bnode_ok:
  assumes core: "cache_core P t" and a: "a \<in> set (passive_use t)"
  shows "cache_core P (vdfs2_put_cache_bnode a t)" "cache_frame t (vdfs2_put_cache_bnode a t) {a}"
    "active_use (vdfs2_put_cache_bnode a t) = active_use t"
    "passive_use (vdfs2_put_cache_bnode a t) = remove1 a (passive_use t)"
    "passive_use_count (vdfs2_put_cache_bnode a t) = passive_use_count t - 1"
proof -
  have c: "a \<in> cached t" "a \<notin> P" "a \<notin> set (active_use t)" using core a by (auto simp: cache_core_def cached_def)
  note r = remove_from_lru_ok [OF core c(1)]
  note d = drop_node_ok [OF r(1) c(2)]
  show "cache_core P (vdfs2_put_cache_bnode a t)" "active_use (vdfs2_put_cache_bnode a t) = active_use t"
    "passive_use (vdfs2_put_cache_bnode a t) = remove1 a (passive_use t)"
    "passive_use_count (vdfs2_put_cache_bnode a t) = passive_use_count t - 1"
    using d r(3,4) r(7) [OF a] c(3) by (simp_all add: put_cache_bnode_eq remove1_idem)
  show "cache_frame t (vdfs2_put_cache_bnode a t) {a}"
    using cache_frame_trans [OF r(2) d(2)] by (simp add: put_cache_bnode_eq)
qed

section \<open>Putting a node on a list\<close>

text \<open>The part the two lists share: a floating node gets a state and goes to the front.\<close>

lemma place_passive_ok:
  assumes core: "cache_core P t" and a: "a \<in> P" "id_at t a \<noteq> 0"
  defines "t2 \<equiv> set_bnode a (\<lambda>b. b\<lparr>state := 0\<rparr>) (t\<lparr>passive_use := a # passive_use t\<rparr>)
      \<lparr>passive_use_count := passive_use_count t + 1\<rparr>"
  shows "cache_core (P - {a}) t2" "cache_frame t t2 {}"
proof -
  have na: "a \<notin> cached t" "a \<in> dom (heap t)" using core a by (auto simp: cache_core_def)
  have nd: "bnode_at t2 x = (if x = a then bnode_at t a\<lparr>state := 0\<rparr> else bnode_at t x)" for x
    by (simp add: t2_def set_bnode_def)
  have id: "id_at t2 x = id_at t x" for x by (simp add: nd)
  have c: "cached t2 = insert a (cached t)" by (auto simp: t2_def cached_def set_bnode_def)
  have un: "cached t2 \<union> (P - {a}) = cached t \<union> P" using c a by auto
  have f: "hash_table t2 = hash_table t" "dom (heap t2) = dom (heap t)" "active_use t2 = active_use t"
    "passive_use t2 = a # passive_use t" "active_use_count t2 = active_use_count t"
    "passive_use_count t2 = passive_use_count t + 1" "next_addr t2 = next_addr t"
    using na(2) by (auto simp: t2_def set_bnode_def)
  have "distinct (active_use t @ a # passive_use t)" "(P - {a}) \<inter> cached t2 = {}"
    using core na(1) c by (auto simp: cache_core_def cached_def)
  moreover have "\<forall>x\<in>set (active_use t). state (bnode_at t2 x) = 1"
    "\<forall>x\<in>set (a # passive_use t). state (bnode_at t2 x) = 0 \<and> id_at t2 x \<noteq> 0"
    using core na(1) a(2) by (auto simp: cache_core_def cached_def nd)
  ultimately show "cache_core (P - {a}) t2"
    unfolding cache_core_def un id f using core by (simp add: cache_core_def)
  have "\<exists>s. bnode_at t2 x = bnode_at t x\<lparr>state := s\<rparr>" for x
    by (cases "x = a") (auto simp: nd intro: exI [of _ "state (bnode_at t x)"])
  moreover have "t2 = t\<lparr>heap := heap t2, hash_table := hash_table t, active_use_count := active_use_count t,
      active_use := active_use t, passive_use_count := passive_use_count t2, passive_use := passive_use t2\<rparr>"
    by (simp add: t2_def set_bnode_def)
  ultimately show "cache_frame t t2 {}" unfolding cache_frame_def using f(2) by blast
qed

definition place_active :: "nat \<Rightarrow> vdfs2_btree \<Rightarrow> vdfs2_btree" where
  "place_active a t = set_bnode a (\<lambda>b. b\<lparr>state := 1\<rparr>) (t\<lparr>active_use := a # active_use t\<rparr>)
      \<lparr>active_use_count := active_use_count t + 1\<rparr>"

lemma add_to_active_unfold:
  "add_to_active a t =
     (let t2 = place_active a t; d = last (active_use t2) in
      if int VDFS2_ACTIVE_SIZE < active_use_count t2 then
        if id_at t2 d = 0 then add_to_active d (remove_from_lru d t2)
        else Some ((add_to_passive d (list_del d t2))
          \<lparr>active_use_count := active_use_count (add_to_passive d (list_del d t2)) - 1\<rparr>)
      else Some t2)"
  by (subst add_to_active.simps) (simp only: place_active_def Let_def set_bnode_def, simp)

lemma place_active_ok:
  assumes core: "cache_core P t" and a: "a \<in> P"
  defines "t2 \<equiv> place_active a t"
  shows "cache_core (P - {a}) t2" "cache_frame t t2 {}"
proof -
  have na: "a \<notin> cached t" "a \<in> dom (heap t)" using core a by (auto simp: cache_core_def)
  have nd: "bnode_at t2 x = (if x = a then bnode_at t a\<lparr>state := 1\<rparr> else bnode_at t x)" for x
    by (simp add: t2_def place_active_def set_bnode_def)
  have id: "id_at t2 x = id_at t x" for x by (simp add: nd)
  have c: "cached t2 = insert a (cached t)" by (auto simp: t2_def place_active_def cached_def set_bnode_def)
  have un: "cached t2 \<union> (P - {a}) = cached t \<union> P" using c a by auto
  have f: "hash_table t2 = hash_table t" "dom (heap t2) = dom (heap t)" "active_use t2 = a # active_use t"
    "passive_use t2 = passive_use t" "active_use_count t2 = active_use_count t + 1"
    "passive_use_count t2 = passive_use_count t" "next_addr t2 = next_addr t"
    using na(2) by (auto simp: t2_def place_active_def set_bnode_def)
  have "distinct ((a # active_use t) @ passive_use t)" "(P - {a}) \<inter> cached t2 = {}"
    using core na(1) c by (auto simp: cache_core_def cached_def)
  moreover have "\<forall>x\<in>set (a # active_use t). state (bnode_at t2 x) = 1"
    "\<forall>x\<in>set (passive_use t). state (bnode_at t2 x) = 0 \<and> id_at t2 x \<noteq> 0"
    using core na(1) by (auto simp: cache_core_def cached_def nd)
  ultimately show "cache_core (P - {a}) t2"
    unfolding cache_core_def un id f using core by (simp add: cache_core_def)
  have "\<exists>s. bnode_at t2 x = bnode_at t x\<lparr>state := s\<rparr>" for x
    by (cases "x = a") (auto simp: nd intro: exI [of _ "state (bnode_at t x)"])
  moreover have "t2 = t\<lparr>heap := heap t2, hash_table := hash_table t, active_use_count := active_use_count t2,
      active_use := active_use t2, passive_use_count := passive_use_count t, passive_use := passive_use t\<rparr>"
    by (simp add: t2_def place_active_def set_bnode_def)
  ultimately show "cache_frame t t2 {}" unfolding cache_frame_def using f(2) by blast
qed

lemma cache_core_count:
  "cache_core P t \<Longrightarrow> c \<le> int (length (passive_use t)) \<Longrightarrow> cache_core P (t\<lparr>passive_use_count := c\<rparr>)"
  by (simp add: cache_core_def cached_def)

lemma cache_frame_count:
  assumes "cache_frame t v E"
  shows "cache_frame t (v\<lparr>passive_use_count := c\<rparr>) E"
proof -
  from assms obtain h ht ac al pc pl where "v = t\<lparr>heap := h, hash_table := ht, active_use_count := ac,
      active_use := al, passive_use_count := pc, passive_use := pl\<rparr>" unfolding cache_frame_def by blast
  then have "v\<lparr>passive_use_count := c\<rparr> = t\<lparr>heap := h, hash_table := ht, active_use_count := ac,
      active_use := al, passive_use_count := c, passive_use := pl\<rparr>" by simp
  moreover have "heap (v\<lparr>passive_use_count := c\<rparr>) = heap v" by simp
  ultimately show ?thesis using assms unfolding cache_frame_def by metis
qed

lemma remove1_last: "distinct xs \<Longrightarrow> xs \<noteq> [] \<Longrightarrow> remove1 (last xs) xs = butlast xs"
  by (induction xs rule: rev_induct) (auto simp: remove1_append)

lemma add_to_passive_ok:
  assumes core: "cache_core P t" and a: "a \<in> P" "id_at t a \<noteq> 0"
    and le: "passive_use_count t \<le> int VDFS2_PASSIVE_SIZE"
  shows "cache_core (P - {a}) (add_to_passive a t) \<and> active_use (add_to_passive a t) = active_use t \<and>
    (if passive_use_count t < int VDFS2_PASSIVE_SIZE then
       passive_use (add_to_passive a t) = a # passive_use t \<and>
       passive_use_count (add_to_passive a t) = passive_use_count t + 1 \<and> cache_frame t (add_to_passive a t) {}
     else
       passive_use t \<noteq> [] \<and> passive_use (add_to_passive a t) = a # butlast (passive_use t) \<and>
       passive_use_count (add_to_passive a t) = passive_use_count t - 1 \<and>
       cache_frame t (add_to_passive a t) {last (passive_use t)})"
proof -
  define t2 where "t2 = set_bnode a (\<lambda>b. b\<lparr>state := 0\<rparr>) (t\<lparr>passive_use := a # passive_use t\<rparr>)
      \<lparr>passive_use_count := passive_use_count t + 1\<rparr>"
  have p: "cache_core (P - {a}) t2" "cache_frame t t2 {}"
    using place_passive_ok [OF core a] by (simp_all add: t2_def)
  have f: "active_use t2 = active_use t" "passive_use t2 = a # passive_use t"
    "passive_use_count t2 = passive_use_count t + 1" by (simp_all add: t2_def set_bnode_def)
  have run: "add_to_passive a t = (if int VDFS2_PASSIVE_SIZE < passive_use_count t2 then
      (vdfs2_put_cache_bnode (last (passive_use t2)) t2)
        \<lparr>passive_use_count := passive_use_count (vdfs2_put_cache_bnode (last (passive_use t2)) t2) - 1\<rparr> else t2)"
    by (simp add: add_to_passive_def Let_def t2_def set_bnode_def)
  show ?thesis
  proof (cases "passive_use_count t < int VDFS2_PASSIVE_SIZE")
    case True
    with f run p show ?thesis by simp
  next
    case False
    with le have eq: "passive_use_count t = int VDFS2_PASSIVE_SIZE" by simp
    have "passive_use_count t \<le> int (length (passive_use t))" using core by (simp add: cache_core_def)
    with eq have ne: "passive_use t \<noteq> []" by (auto simp: cache_sizes)
    define e where "e = last (passive_use t)"
    have e: "e \<in> set (passive_use t2)" "last (passive_use t2) = e" using ne f(2) by (auto simp: e_def)
    note ev = put_cache_bnode_ok [OF p(1) e(1)]
    let ?v = "vdfs2_put_cache_bnode e t2"
    let ?t = "?v\<lparr>passive_use_count := passive_use_count ?v - 1\<rparr>"
    have res: "add_to_passive a t = ?t" using run eq f(3) e(2) by simp
    have "distinct (passive_use t2)" using p(1) by (simp add: cache_core_def)
    then have pl: "passive_use ?v = a # butlast (passive_use t)"
      using ev(4) remove1_last [of "passive_use t2"] e(2) f(2) ne by (auto split: if_splits)
    have pc: "passive_use_count ?v = passive_use_count t" using ev(5) f(3) by simp
    have c: "cache_core (P - {a}) ?t"
    proof (rule cache_core_count [OF ev(1)])
      show "passive_use_count ?v - 1 \<le> int (length (passive_use ?v))" using ev(1) by (simp add: cache_core_def)
    qed
    have "cache_frame t ?t {e}"
      using cache_frame_count [OF cache_frame_trans [OF p(2) ev(2)]] by simp
    with False res ne pl pc c ev(3) f(1) show ?thesis by (simp add: e_def)
  qed
qed

lemma add_to_passive_evict:
  assumes core: "cache_core P t" and a: "a \<in> P" "id_at t a \<noteq> 0"
    and le: "passive_use_count t \<le> int VDFS2_PASSIVE_SIZE"
  obtains E where "cache_core (P - {a}) (add_to_passive a t)" "active_use (add_to_passive a t) = active_use t"
    "cache_frame t (add_to_passive a t) E" "E \<subseteq> set (passive_use t)"
    "passive_use_count (add_to_passive a t) \<le> int VDFS2_PASSIVE_SIZE"
    "set (passive_use (add_to_passive a t)) = insert a (set (passive_use t) - E)"
proof (cases "passive_use_count t < int VDFS2_PASSIVE_SIZE")
  case True
  with add_to_passive_ok [OF assms] that [of "{}"] show ?thesis by auto
next
  case False
  with add_to_passive_ok [OF assms] have
    ok: "cache_core (P - {a}) (add_to_passive a t)" "active_use (add_to_passive a t) = active_use t"
    "passive_use t \<noteq> []" "passive_use (add_to_passive a t) = a # butlast (passive_use t)"
    "passive_use_count (add_to_passive a t) = passive_use_count t - 1"
    "cache_frame t (add_to_passive a t) {last (passive_use t)}" by simp_all
  have dp: "distinct (passive_use t)" using core by (simp add: cache_core_def)
  have "set (butlast (passive_use t)) = set (passive_use t) - {last (passive_use t)}"
    using remove1_last [OF dp ok(3)] dp by (metis set_remove1_eq)
  then show ?thesis using that [of "{last (passive_use t)}"] ok le by auto
qed

lemma add_to_passive_active_count:
  "add_to_passive a (t\<lparr>active_use_count := c\<rparr>) =
    (add_to_passive a t)\<lparr>active_use_count := c + (active_use_count (add_to_passive a t) - active_use_count t)\<rparr>"
  by (simp add: add_to_passive_def vdfs2_put_cache_bnode_def put_bnode_cached_def free_bnode_def unhash_bnode_def
      remove_from_lru_def list_del_def set_bnode_def Let_def)

text \<open>Moving the oldest active node to the passive list.\<close>

lemma demote_eq:
  assumes "state (bnode_at t d) = 1"
  shows "(add_to_passive d (list_del d t))
      \<lparr>active_use_count := active_use_count (add_to_passive d (list_del d t)) - 1\<rparr> =
    add_to_passive d (remove_from_lru d t)"
  using add_to_passive_active_count [of d _ "list_del d t"] assms
  by (simp add: remove_from_lru_def Let_def list_del_def)

text \<open>What a node put on the active list finds: it is there, and at most passive nodes went.\<close>

definition activated :: "nat set \<Rightarrow> nat \<Rightarrow> vdfs2_btree \<Rightarrow> vdfs2_btree option \<Rightarrow> bool" where
  "activated P a t r \<longleftrightarrow> (\<exists>t' E. r = Some t' \<and> cache_core (P - {a}) t' \<and> cache_bounds t' \<and> cache_frame t t' E \<and>
     E \<subseteq> set (passive_use t) \<and> a \<in> set (active_use t') \<and> cached t' = insert a (cached t) - E \<and>
     (\<forall>x \<in> set (active_use t). id_at t x = 0 \<longrightarrow> x \<in> set (active_use t')))"

lemma add_to_active_room:
  assumes core: "cache_core P t" and a: "a \<in> P" and b: "cache_bounds t"
    and room: "length (active_use t) < VDFS2_ACTIVE_SIZE"
  shows "activated P a t (add_to_active a t)"
proof -
  define t2 where "t2 = place_active a t"
  have p: "cache_core (P - {a}) t2" "cache_frame t t2 {}"
    using place_active_ok [OF core a] by (simp_all add: t2_def)
  have f: "active_use t2 = a # active_use t" "passive_use t2 = passive_use t"
    "passive_use_count t2 = passive_use_count t" "active_use_count t2 = active_use_count t + 1"
    by (simp_all add: t2_def place_active_def set_bnode_def)
  have "active_use_count t = int (length (active_use t))" using core by (simp add: cache_core_def)
  then have "add_to_active a t = Some t2" using room f(4)
    by (subst add_to_active_unfold) (simp add: t2_def)
  moreover have "cache_bounds t2" "cached t2 = insert a (cached t) - {}"
    using b room f by (auto simp: cache_bounds_def cached_def)
  moreover have "a \<in> set (active_use t2)" "\<forall>x \<in> set (active_use t). x \<in> set (active_use t2)" by (simp_all add: f)
  ultimately show ?thesis unfolding activated_def using p by blast
qed

lemma add_to_active_demote:
  assumes core: "cache_core P t" and a: "a \<in> P" and b: "cache_bounds t"
    and full: "length (active_use t) = VDFS2_ACTIVE_SIZE" and nz: "id_at t (last (active_use t)) \<noteq> 0"
  shows "activated P a t (add_to_active a t)"
    "add_to_active a t = Some t' \<Longrightarrow> active_use t' = a # butlast (active_use t)"
proof -
  define t2 where "t2 = place_active a t"
  have p: "cache_core (P - {a}) t2" "cache_frame t t2 {}"
    using place_active_ok [OF core a] by (simp_all add: t2_def)
  have f: "active_use t2 = a # active_use t" "passive_use t2 = passive_use t"
    "passive_use_count t2 = passive_use_count t" "active_use_count t2 = active_use_count t + 1"
    by (simp_all add: t2_def place_active_def set_bnode_def)
  define d where "d = last (active_use t)"
  have ne: "active_use t \<noteq> []" using full by (auto simp: cache_sizes)
  then have d: "d \<in> set (active_use t)" "last (active_use t2) = d" by (simp_all add: d_def f)
  then have d2: "d \<in> set (active_use t2)" "d \<in> cached t2" "d \<notin> P" "d \<noteq> a"
    using core a by (auto simp: cache_core_def cached_def f)
  have st: "state (bnode_at t2 d) = 1" using p(1) d2(1) by (simp add: cache_core_def)
  have idd: "id_at t2 d = id_at t d" using d2(4) by (simp add: t2_def place_active_def set_bnode_def)
  have cnt: "active_use_count t = int (length (active_use t))" using core by (simp add: cache_core_def)
  define u where "u = remove_from_lru d t2"
  note r = remove_from_lru_ok [OF p(1) d2(2), folded u_def]
  have run: "add_to_active a t = Some (add_to_passive d u)"
  proof -
    have "add_to_active a t = Some ((add_to_passive d (list_del d t2))
      \<lparr>active_use_count := active_use_count (add_to_passive d (list_del d t2)) - 1\<rparr>)"
      using full f(4) cnt nz idd d(2)
      by (subst add_to_active_unfold) (simp add: t2_def [symmetric] Let_def d_def)
    then show ?thesis using demote_eq [OF st] by (simp add: u_def)
  qed
  have idu: "id_at u d \<noteq> 0" using r(5) idd nz by (simp add: d_def)
  have "d \<notin> set (passive_use t)" using core d(1) by (auto simp: cache_core_def)
  then have pu: "passive_use_count u = passive_use_count t" "passive_use u = passive_use t"
    using r(6) [OF d2(1)] r(4) f by (simp_all add: remove1_idem)
  have "distinct (active_use t2)" using p(1) by (simp add: cache_core_def)
  then have au: "active_use u = a # butlast (active_use t)"
    using r(3) remove1_last [of "active_use t2"] d(2) f(1) ne by (auto split: if_splits)
  have "passive_use_count u \<le> int VDFS2_PASSIVE_SIZE" using b pu by (simp add: cache_bounds_def)
  from add_to_passive_evict [OF r(1) _ idu this] obtain E where
    E: "cache_core (P - {a}) (add_to_passive d u)" "active_use (add_to_passive d u) = active_use u"
      "cache_frame u (add_to_passive d u) E" "E \<subseteq> set (passive_use t)"
      "passive_use_count (add_to_passive d u) \<le> int VDFS2_PASSIVE_SIZE"
      "set (passive_use (add_to_passive d u)) = insert d (set (passive_use t) - E)"
    using d2(3) pu by auto
  let ?v = "add_to_passive d u"
  have fr: "cache_frame t ?v E"
    using cache_frame_trans [OF cache_frame_trans [OF p(2) r(2)] E(3)] by simp
  have "cache_bounds ?v" using E(2,5) au full by (simp add: cache_bounds_def cache_sizes)
  moreover have "cached ?v = insert a (cached t) - E"
  proof -
    have "set (active_use t) = insert d (set (butlast (active_use t)))"
      using ne by (metis append_butlast_last_id d_def list.set(2) rotate1.simps(2) set_rotate1)
    moreover have "E \<inter> set (active_use t) = {}" "a \<notin> E" using E(4) core a by (auto simp: cache_core_def cached_def)
    ultimately show ?thesis by (auto simp: cached_def E(2,6) au)
  qed
  moreover have "x \<in> set (active_use ?v)" if "x \<in> set (active_use t)" "id_at t x = 0" for x
  proof -
    have "x \<noteq> d" using that(2) nz by (auto simp: d_def)
    moreover have "active_use t = butlast (active_use t) @ [d]" using ne by (simp add: d_def)
    ultimately show ?thesis using that(1) E(2) au by (metis UnE empty_iff insert_iff list.set(1,2) set_append)
  qed
  ultimately show "activated P a t (add_to_active a t)"
    unfolding activated_def run using E fr au by auto
  show "add_to_active a t = Some t' \<Longrightarrow> active_use t' = a # butlast (active_use t)"
    using run E(2) au by simp
qed

lemma activatedE:
  assumes "activated P a t r"
  obtains t' E where "r = Some t'" "cache_core (P - {a}) t'" "cache_bounds t'" "cache_frame t t' E"
    "E \<subseteq> set (passive_use t)" "a \<in> set (active_use t')" "cached t' = insert a (cached t) - E"
    "\<And>x. x \<in> set (active_use t) \<Longrightarrow> id_at t x = 0 \<Longrightarrow> x \<in> set (active_use t')"
  using assms unfolding activated_def by blast

text \<open>The recursion ends: the node number 0 is cached at most once.\<close>

lemma add_to_active_ok:
  assumes core: "cache_core P t" and a: "a \<in> P" and b: "cache_bounds t"
  shows "activated P a t (add_to_active a t)"
proof (cases "length (active_use t) = VDFS2_ACTIVE_SIZE \<and> id_at t (last (active_use t)) = 0")
  case False
  then show ?thesis
    using add_to_active_room [OF assms] add_to_active_demote(1) [OF assms] b
    by (cases "length (active_use t) = VDFS2_ACTIVE_SIZE") (auto simp: cache_bounds_def)
next
  case True
  define t2 where "t2 = place_active a t"
  have p: "cache_core (P - {a}) t2" "cache_frame t t2 {}"
    using place_active_ok [OF core a] by (simp_all add: t2_def)
  have f: "active_use t2 = a # active_use t" "passive_use t2 = passive_use t"
    "passive_use_count t2 = passive_use_count t" "active_use_count t2 = active_use_count t + 1"
    by (simp_all add: t2_def place_active_def set_bnode_def)
  define z where "z = last (active_use t)"
  have len: "2 \<le> length (active_use t)" using True by (simp add: cache_sizes)
  then have ne: "active_use t \<noteq> []" by auto
  then have z: "z \<in> set (active_use t)" "last (active_use t2) = z" by (simp_all add: z_def f)
  then have z2: "z \<in> set (active_use t2)" "z \<in> cached t2" "z \<notin> P" "z \<noteq> a"
    using core a by (auto simp: cache_core_def cached_def f)
  have id: "id_at t2 x = id_at t x" for x by (simp add: t2_def place_active_def set_bnode_def)
  have cnt: "active_use_count t = int (length (active_use t))" using core by (simp add: cache_core_def)
  define u where "u = remove_from_lru z t2"
  note r = remove_from_lru_ok [OF p(1) z2(2), folded u_def]
  have run: "add_to_active a t = add_to_active z u"
    using True f(4) cnt id z(2)
    by (subst add_to_active_unfold) (simp add: t2_def [symmetric] u_def Let_def z_def)
  have "distinct (active_use t2)" using p(1) by (simp add: cache_core_def)
  then have au: "active_use u = a # butlast (active_use t)"
    using r(3) remove1_last [of "active_use t2"] z(2) f(1) ne by (auto split: if_splits)
  have "z \<notin> set (passive_use t)" using core z(1) by (auto simp: cache_core_def)
  then have pu: "passive_use_count u = passive_use_count t" "passive_use u = passive_use t"
    using r(6) [OF z2(1)] r(4) f by (simp_all add: remove1_idem)
  have bu: "cache_bounds u" using b au pu True by (simp add: cache_bounds_def cache_sizes)
  have fu: "length (active_use u) = VDFS2_ACTIVE_SIZE" using au True by (simp add: cache_sizes)
  have idu: "id_at u x = id_at t x" for x using r(5) id by simp
  have unz: "x = z" if "x \<in> cached t \<union> P" "id_at t x = 0" for x
    using that True core z(1) by (auto simp: cache_core_def cached_def z_def inj_on_def)
  have lz: "id_at u (last (active_use u)) \<noteq> 0"
  proof
    assume 0: "id_at u (last (active_use u)) = 0"
    have "butlast (active_use t) \<noteq> []" using len by (cases "active_use t" rule: rev_cases) auto
    then have l: "last (active_use u) \<in> set (butlast (active_use t))" by (simp add: au)
    then have "last (active_use u) = z" using 0 unz idu in_set_butlastD by (fastforce simp: cached_def)
    with l have "z \<in> set (butlast (active_use t))" by simp
    moreover have "active_use t = butlast (active_use t) @ [z]" using ne by (simp add: z_def)
    moreover have "distinct (active_use t)" using core by (simp add: cache_core_def)
    ultimately show False by (metis disjoint_iff distinct_append list.set_intros(1))
  qed
  from add_to_active_demote(1) [OF r(1) _ bu fu lz, of z] obtain t' E where
    R: "add_to_active z u = Some t'" "cache_core (P - {a}) t'" "cache_bounds t'" "cache_frame u t' E"
    "E \<subseteq> set (passive_use u)" "z \<in> set (active_use t')" "cached t' = insert z (cached u) - E"
    using z2(3) by (auto elim!: activatedE)
  have fr: "cache_frame t t' E" using cache_frame_trans [OF cache_frame_trans [OF p(2) r(2)] R(4)] by simp
  have cu: "insert z (cached u) = insert a (cached t)"
  proof -
    have "set (active_use t) = insert z (set (butlast (active_use t)))"
      using ne by (metis append_butlast_last_id z_def list.set(2) rotate1.simps(2) set_rotate1)
    then show ?thesis by (auto simp: cached_def au pu)
  qed
  have "set (butlast (active_use u)) \<subseteq> set (active_use t')"
    using add_to_active_demote(2) [OF r(1) _ bu fu lz R(1)] by auto
  moreover have "butlast (active_use t) \<noteq> []" using len by (cases "active_use t" rule: rev_cases) auto
  ultimately have "a \<in> set (active_use t')" by (simp add: au)
  moreover have "x \<in> set (active_use t')" if "x \<in> set (active_use t)" "id_at t x = 0" for x
    using that unz [of x] R(6) by (simp add: cached_def)
  ultimately show ?thesis
    unfolding activated_def run using R cu fr pu by auto
qed

section \<open>Entering the hash table and finding a node\<close>

definition node_of :: "vdfs2_btree \<Rightarrow> u32 \<Rightarrow> nat option" where
  "node_of t nid = find (\<lambda>a. id_at t a = nid) (active_use t @ passive_use t)"

lemma find_SomeD: "find P xs = Some x \<Longrightarrow> x \<in> set xs \<and> P x"
  by (induction xs) (auto split: if_splits)

lemma find_Some_unique:
  assumes "x \<in> set xs" "P x" "\<And>y. y \<in> set xs \<Longrightarrow> P y \<Longrightarrow> y = x"
  shows "find P xs = Some x"
proof (cases "find P xs")
  case None
  with assms(1,2) show ?thesis by (auto simp: find_None_iff)
next
  case (Some y)
  then have "y \<in> set xs" "P y" by (auto dest: find_SomeD)
  with assms(3) Some show ?thesis by simp
qed

lemma node_of_Some:
  assumes "cache_core P t"
  shows "node_of t nid = Some a \<longleftrightarrow> a \<in> cached t \<and> id_at t a = nid"
proof
  assume "node_of t nid = Some a"
  then show "a \<in> cached t \<and> id_at t a = nid"
    by (auto simp: node_of_def cached_def dest: find_SomeD)
next
  assume a: "a \<in> cached t \<and> id_at t a = nid"
  have inj: "inj_on (id_at t) (cached t)" using assms by (auto simp: cache_core_def intro: inj_on_subset)
  show "node_of t nid = Some a"
    unfolding node_of_def using a inj by (intro find_Some_unique) (auto simp: cached_def inj_on_def)
qed

lemma node_of_None:
  assumes "cache_core P t"
  shows "node_of t nid = None \<longleftrightarrow> nid \<notin> id_at t ` cached t"
  by (auto simp: node_of_def find_None_iff cached_def)

text \<open>Looking only at one chain of the table finds what the search of all nodes would find.\<close>

lemma hash_chain_lookup:
  assumes "cache_core {} t"
  shows "find (\<lambda>a. id_at t a = nid) (hash_table t ! bnode_hash_fn nid) = node_of t nid"
proof -
  have s: "set (hash_table t ! bnode_hash_fn nid) = {a \<in> cached t. bnode_hash_fn (id_at t a) = bnode_hash_fn nid}"
    using assms hash_fn_bound [of nid] by (auto simp: cache_core_def)
  show ?thesis
  proof (cases "node_of t nid")
    case None
    then show ?thesis using node_of_None [OF assms, of nid] by (auto simp: find_None_iff s)
  next
    case (Some a)
    then have a: "a \<in> cached t" "id_at t a = nid" using node_of_Some [OF assms] by auto
    have "find (\<lambda>a. id_at t a = nid) (hash_table t ! bnode_hash_fn nid) = Some a"
    proof (rule find_Some_unique)
      show "y = a" if "y \<in> set (hash_table t ! bnode_hash_fn nid)" "id_at t y = nid" for y
        using that a assms by (auto simp: s cache_core_def inj_on_def)
    qed (use a in \<open>auto simp: s\<close>)
    then show ?thesis using Some by simp
  qed
qed

lemma hash_insert_core:
  assumes core: "cache_core {} t" and a: "a \<in> dom (heap t)" "a \<notin> cached t" "id_at t a \<notin> id_at t ` cached t"
  defines "h \<equiv> bnode_hash_fn (id_at t a)"
  shows "cache_core {a} (t\<lparr>hash_table := (hash_table t)[h := a # hash_table t ! h]\<rparr>)"
proof -
  let ?t = "t\<lparr>hash_table := (hash_table t)[h := a # hash_table t ! h]\<rparr>"
  have len: "length (hash_table t) = VDFS2_BNODE_HASH_SIZE" using core by (simp add: cache_core_def)
  have c: "cached ?t = cached t" by (simp add: cached_def)
  have "distinct (hash_table ?t ! i) \<and>
      set (hash_table ?t ! i) = {x \<in> cached ?t \<union> {a}. bnode_hash_fn (id_at ?t x) = i}"
    if i: "i < VDFS2_BNODE_HASH_SIZE" for i
  proof -
    have o: "distinct (hash_table t ! i)" "set (hash_table t ! i) = {x \<in> cached t. bnode_hash_fn (id_at t x) = i}"
      using core i by (auto simp: cache_core_def)
    have n: "hash_table ?t ! i = (if i = h then a # hash_table t ! i else hash_table t ! i)"
      using i len by (simp add: nth_list_update)
    show ?thesis unfolding n c using o a(2) by (auto simp: h_def)
  qed
  moreover have "inj_on (id_at ?t) (cached ?t \<union> {a})"
    using core a(2,3) unfolding c by (auto simp: cache_core_def)
  ultimately show ?thesis
    unfolding cache_core_def using core a len c by (auto simp: cache_core_def)
qed

text \<open>The outcome of entering a node, in the same form as for the active list.\<close>

definition entered :: "nat \<Rightarrow> vdfs2_btree \<Rightarrow> vdfs2_btree \<Rightarrow> bool" where
  "entered a t t' \<longleftrightarrow> cache_inv t' \<and> a \<in> cached t' \<and>
     (\<exists>E. cache_frame t t' E \<and> E \<subseteq> set (passive_use t) \<and> cached t' = insert a (cached t) - E) \<and>
     (\<forall>x \<in> set (active_use t). id_at t x = 0 \<longrightarrow> x \<in> set (active_use t'))"

lemma cache_frame_hash:
  assumes "cache_frame (t\<lparr>hash_table := ht\<rparr>) t' E"
  shows "cache_frame t t' E"
  using assms unfolding cache_frame_def by auto

lemma hash_bnode_ok:
  assumes inv: "cache_inv t" and a: "a \<in> dom (heap t)" "a \<notin> cached t" "id_at t a \<notin> id_at t ` cached t"
  shows "\<exists>t'. hash_bnode a t = Some t' \<and> entered a t t'"
proof -
  define t1 where "t1 = t\<lparr>hash_table := (hash_table t)[bnode_hash_fn (id_at t a) :=
      a # hash_table t ! bnode_hash_fn (id_at t a)]\<rparr>"
  have core: "cache_core {a} t1"
    using hash_insert_core [of t a] inv a by (simp add: cache_inv_def t1_def)
  have b: "cache_bounds t1" using inv by (simp add: cache_inv_def cache_bounds_def t1_def)
  have f: "active_use t1 = active_use t" "passive_use t1 = passive_use t" "heap t1 = heap t" "cached t1 = cached t"
    by (simp_all add: t1_def cached_def)
  show ?thesis
  proof (cases "id_at t a = 0")
    case True
    then have run: "hash_bnode a t = add_to_active a t1" by (simp add: hash_bnode_def Let_def t1_def)
    from add_to_active_ok [OF core _ b, of a] obtain t' E where
      R: "add_to_active a t1 = Some t'" "cache_core {} t'" "cache_bounds t'" "cache_frame t1 t' E"
        "E \<subseteq> set (passive_use t1)" "a \<in> set (active_use t')" "cached t' = insert a (cached t1) - E"
        "\<And>x. x \<in> set (active_use t1) \<Longrightarrow> id_at t1 x = 0 \<Longrightarrow> x \<in> set (active_use t')"
      by (auto elim!: activatedE)
    have "cache_frame t t' E" using R(4) unfolding t1_def by (rule cache_frame_hash)
    with R run f show ?thesis
      unfolding entered_def by (auto simp: cache_inv_def cached_def)
  next
    case False
    then have run: "hash_bnode a t = Some (add_to_passive a t1)" by (simp add: hash_bnode_def Let_def t1_def)
    have le: "passive_use_count t1 \<le> int VDFS2_PASSIVE_SIZE" using b by (simp add: cache_bounds_def)
    obtain E where E: "cache_core {} (add_to_passive a t1)" "active_use (add_to_passive a t1) = active_use t1"
      "cache_frame t1 (add_to_passive a t1) E" "E \<subseteq> set (passive_use t1)"
      "passive_use_count (add_to_passive a t1) \<le> int VDFS2_PASSIVE_SIZE"
      "set (passive_use (add_to_passive a t1)) = insert a (set (passive_use t1) - E)"
      using add_to_passive_evict [OF core _ _ le, of a] False f(3) by auto
    have "cache_frame t (add_to_passive a t1) E" using E(3) unfolding t1_def by (rule cache_frame_hash)
    moreover have "set (active_use t) \<inter> E = {}" "a \<notin> E"
      using E(4) a(2) f inv by (auto simp: cache_inv_def cache_core_def cached_def)
    moreover have "cache_bounds (add_to_passive a t1)" using E(2,5) b by (simp add: cache_bounds_def)
    ultimately show ?thesis
      unfolding entered_def run using E f by (auto simp: cache_inv_def cached_def)
  qed
qed

section \<open>Changing a node in place\<close>

lemma set_bnode_fields [simp]:
  "active_use (set_bnode a f t) = active_use t" "passive_use (set_bnode a f t) = passive_use t"
  "active_use_count (set_bnode a f t) = active_use_count t" "passive_use_count (set_bnode a f t) = passive_use_count t"
  "hash_table (set_bnode a f t) = hash_table t" "next_addr (set_bnode a f t) = next_addr t"
  "bitmap (set_bnode a f t) = bitmap t" "head_bnode (set_bnode a f t) = head_bnode t"
  "dirty_bnodes (set_bnode a f t) = dirty_bnodes t" "has_inode (set_bnode a f t) = has_inode t"
  "is_mounted (set_bnode a f t) = is_mounted t" "cached (set_bnode a f t) = cached t"
  "bnode_at (set_bnode a f t) x = (if x = a then f (bnode_at t a) else bnode_at t x)"
  "dom (heap (set_bnode a f t)) = insert a (dom (heap t))"
  by (auto simp: set_bnode_def cached_def)

lemma set_bnode_core:
  assumes core: "cache_core P t" and a: "a \<in> dom (heap t)"
    and f: "\<And>b. node_id (f b) = node_id b" "\<And>b. state (f b) = state b"
  shows "cache_core P (set_bnode a f t)"
proof -
  have i: "id_at (set_bnode a f t) x = id_at t x" for x by (simp add: f)
  have s: "state (bnode_at (set_bnode a f t) x) = state (bnode_at t x)" for x by (simp add: f)
  have "insert a (dom (heap t)) = dom (heap t)" using a by auto
  then show ?thesis
    using core unfolding cache_core_def set_bnode_fields(1-12,14) i s by simp
qed

lemma set_bnode_inv:
  "cache_inv t \<Longrightarrow> a \<in> dom (heap t) \<Longrightarrow> (\<And>b. node_id (f b) = node_id b) \<Longrightarrow> (\<And>b. state (f b) = state b) \<Longrightarrow>
   cache_inv (set_bnode a f t)"
  using set_bnode_core [of "{}" t a f] by (simp add: cache_inv_def cache_bounds_def)

lemma cached_live: "cache_core P t \<Longrightarrow> a \<in> cached t \<Longrightarrow> a \<in> dom (heap t)"
  by (auto simp: cache_core_def)

section \<open>Finding a cached node\<close>

lemma passive_to_active_ok:
  assumes inv: "cache_inv t" and a: "a \<in> set (passive_use t)"
  shows "\<exists>t' E. passive_to_active a t = Some t' \<and> cache_inv t' \<and> cache_frame t t' E \<and> a \<notin> E \<and>
    E \<subseteq> set (passive_use t) \<and> cached t' = cached t - E \<and>
    (\<forall>x \<in> set (active_use t). id_at t x = 0 \<longrightarrow> x \<in> set (active_use t'))"
proof -
  have core: "cache_core {} t" using inv by (simp add: cache_inv_def)
  have ca: "a \<in> cached t" using a by (simp add: cached_def)
  define u where "u = remove_from_lru a t"
  note r = remove_from_lru_ok [OF core ca, folded u_def]
  have na: "a \<notin> set (active_use t)" using core a by (auto simp: cache_core_def)
  then have au: "active_use u = active_use t" "passive_use_count u = passive_use_count t - 1"
    "set (passive_use u) = set (passive_use t) - {a}"
    using r(3,4) r(7) [OF a] core by (auto simp: remove1_idem cache_core_def)
  have "cache_bounds u" using inv au by (simp add: cache_inv_def cache_bounds_def)
  from add_to_active_ok [OF r(1) _ this, of a] obtain t' E where
    R: "add_to_active a u = Some t'" "cache_core {} t'" "cache_bounds t'" "cache_frame u t' E"
      "E \<subseteq> set (passive_use u)" "cached t' = insert a (cached u) - E"
      "\<And>x. x \<in> set (active_use u) \<Longrightarrow> id_at u x = 0 \<Longrightarrow> x \<in> set (active_use t')"
    by (auto elim!: activatedE)
  have "cache_frame t t' E" using cache_frame_trans [OF r(2) R(4)] by simp
  moreover have "insert a (cached u) = cached t" using ca au by (auto simp: cached_def)
  ultimately show ?thesis
    using R au r(5) by (auto simp: passive_to_active_def u_def [symmetric] cache_inv_def)
qed

lemma get_from_hash_none:
  "cache_inv t \<Longrightarrow> node_of t nid = None \<Longrightarrow> get_bnode_from_hash t nid md = Some (None, t)"
  using hash_chain_lookup [of t nid] by (simp add: get_bnode_from_hash_def cache_inv_def)

lemma get_from_hash_some:
  assumes inv: "cache_inv t" and n: "node_of t nid = Some a"
  shows "\<exists>t' E. get_bnode_from_hash t nid md = Some (Some a, t') \<and> cache_inv t' \<and>
    cache_frame (set_bnode a (\<lambda>b. b\<lparr>mode := md\<rparr>) t) t' E \<and> a \<notin> E \<and>
    E \<subseteq> set (passive_use t) \<and> cached t' = cached t - E \<and>
    (\<forall>x \<in> set (active_use t). id_at t x = 0 \<longrightarrow> x \<in> set (active_use t'))"
proof -
  have core: "cache_core {} t" using inv by (simp add: cache_inv_def)
  then have a: "a \<in> cached t" "id_at t a = nid" using node_of_Some n by auto
  define u where "u = set_bnode a (\<lambda>b. b\<lparr>mode := md\<rparr>) t"
  have iu: "cache_inv u" unfolding u_def using inv cached_live [OF core a(1)] by (intro set_bnode_inv) auto
  have run: "get_bnode_from_hash t nid md =
      (if state (bnode_at u a) = 0 then map_option (\<lambda>t2. (Some a, t2)) (passive_to_active a u) else Some (Some a, u))"
    using hash_chain_lookup [OF core, of nid] n by (simp add: get_bnode_from_hash_def u_def Let_def)
  have st: "state (bnode_at u a) = 0 \<longleftrightarrow> a \<in> set (passive_use u)"
    using core a by (auto simp: u_def cache_core_def cached_def)
  have idu: "id_at u x = id_at t x" for x by (simp add: u_def)
  show ?thesis
  proof (cases "a \<in> set (passive_use u)")
    case True
    from passive_to_active_ok [OF iu this] run st True idu show ?thesis
      by (auto simp: u_def)
  next
    case False
    with run st have "get_bnode_from_hash t nid md = Some (Some a, u)" by simp
    then show ?thesis
      using iu by (intro exI [of _ u] exI [of _ "{}"]) (auto simp: u_def)
  qed
qed

end
