(* ===== verification/Bnode_Bitmap.thy ===== *)
theory Bnode_Bitmap
  imports Bnode_Cache
begin

text \<open>
  The bitmap of node numbers: the remembered first free number is the least one and the
  counter is exact. Together with the cache's consistency this gives the invariant of a
  mounted tree, which getting, creating and destroying nodes keep.
\<close>

section \<open>Searching a clear bit\<close>

lemma find_next_zero_spec:
  assumes "i \<le> n"
  shows "i \<le> find_next_zero_bit bs n i" "find_next_zero_bit bs n i \<le> n"
    "find_next_zero_bit bs n i < n \<Longrightarrow> \<not> bs ! find_next_zero_bit bs n i"
    "i \<le> j \<Longrightarrow> j < find_next_zero_bit bs n i \<Longrightarrow> bs ! j"
proof -
  let ?r = "find_next_zero_bit bs n i"
  have "i \<le> ?r \<and> ?r \<le> n \<and> (?r < n \<longrightarrow> \<not> bs ! ?r) \<and> (\<forall>j. i \<le> j \<longrightarrow> j < ?r \<longrightarrow> bs ! j)"
    using assms
  proof (induction bs n i rule: find_next_zero_bit.induct)
    case (1 bs n i)
    show ?case
    proof (cases "i < n \<and> bs ! i")
      case True
      then have r: "find_next_zero_bit bs n i = find_next_zero_bit bs n (i + 1)"
        by (subst find_next_zero_bit.simps) simp
      have "bs ! j" if "i \<le> j" "j < find_next_zero_bit bs n (i + 1)" for j
        using that True 1 by (cases "i = j") auto
      then show ?thesis using 1 True unfolding r by auto
    next
      case False
      then have "find_next_zero_bit bs n i = i" using 1(2) by (subst find_next_zero_bit.simps) auto
      with False 1(2) show ?thesis by auto
    qed
  qed
  then show "i \<le> ?r" "?r \<le> n" "?r < n \<Longrightarrow> \<not> bs ! ?r" "i \<le> j \<Longrightarrow> j < ?r \<Longrightarrow> bs ! j" by blast+
qed

lemma find_next_zero_unique:
  assumes "i \<le> r" "r \<le> n" "r < n \<longrightarrow> \<not> bs ! r" "\<forall>j. i \<le> j \<longrightarrow> j < r \<longrightarrow> bs ! j"
  shows "find_next_zero_bit bs n i = r"
proof -
  have i: "i \<le> n" using assms(1,2) by simp
  note s = find_next_zero_spec [OF i, where bs = bs]
  show ?thesis
  proof (rule linorder_cases [of "find_next_zero_bit bs n i" r])
    assume "find_next_zero_bit bs n i < r"
    with s(1,3) assms(2,4) show ?thesis by auto
  next
    assume "r < find_next_zero_bit bs n i"
    with s(2) s(4) [OF assms(1)] assms(3) show ?thesis by auto
  qed
qed

section \<open>The invariant of the bitmap\<close>

definition bitmap_inv :: "vdfs2_bnode_bitmap \<Rightarrow> bool" where
  "bitmap_inv b \<longleftrightarrow>
     length (bits b) = unat (bits_num b) \<and>
     unat (first_free_id b) = find_next_zero_bit (bits b) (length (bits b)) 0 \<and>
     unat (free_num b) = length (filter Not (bits b))"

lemma count_clear_set:
  assumes "i < length bs" "\<not> bs ! i"
  shows "length (filter Not bs) = Suc (length (filter Not (bs[i := True])))"
proof -
  have "bs = take i bs @ bs ! i # drop (Suc i) bs" using assms(1) by (rule id_take_nth_drop)
  then have "length (filter Not bs) = length (filter Not (take i bs @ False # drop (Suc i) bs))"
    using assms(2) by simp
  then show ?thesis using assms(1) by (simp add: upd_conv_take_nth_drop)
qed

lemma bitmap_inv_first:
  assumes "bitmap_inv b" "free_num b \<noteq> 0"
  shows "unat (first_free_id b) < length (bits b)" "\<not> bits b ! unat (first_free_id b)"
    "\<forall>j < unat (first_free_id b). bits b ! j"
proof -
  let ?n = "length (bits b)" and ?r = "find_next_zero_bit (bits b) (length (bits b)) 0"
  have r: "unat (first_free_id b) = ?r" using assms(1) by (simp add: bitmap_inv_def)
  note s = find_next_zero_spec [where i = 0 and n = ?n and bs = "bits b", simplified]
  have "filter Not (bits b) \<noteq> []" using assms by (auto simp: bitmap_inv_def unat_eq_0)
  then obtain j where j: "j < ?n" "\<not> bits b ! j" by (auto simp: filter_empty_conv in_set_conv_nth)
  show lt: "unat (first_free_id b) < ?n"
  proof (rule ccontr)
    assume "\<not> ?thesis"
    with s(2) r have "?r = ?n" by simp
    with s(4) [of j] j show False by simp
  qed
  show "\<not> bits b ! unat (first_free_id b)" using s(3) lt r by simp
  show "\<forall>j < unat (first_free_id b). bits b ! j" using s(4) r by simp
qed

lemma u32_bound: "unat (w :: u32) < 2 ^ 32"
  using unsigned_less [of w] by simp

lemma unat_of_nat_small: "n < 2 ^ 32 \<Longrightarrow> unat (of_nat n :: u32) = n"
  by (simp add: unat_of_nat take_bit_nat_eq_self_iff)

text \<open>Taking the first free number.\<close>

lemma bitmap_inv_take:
  assumes inv: "bitmap_inv b" and nz: "free_num b \<noteq> 0"
  defines "i \<equiv> unat (first_free_id b)"
  defines "bs \<equiv> (bits b)[i := True]"
  shows "bitmap_inv (b\<lparr>bits := bs, first_free_id := of_nat (find_next_zero_bit bs (unat (bits_num b)) i),
    free_num := free_num b - 1\<rparr>)"
proof -
  note f = bitmap_inv_first [OF inv nz, folded i_def]
  have n: "length bs = unat (bits_num b)" using inv by (simp add: bs_def bitmap_inv_def)
  let ?r = "find_next_zero_bit bs (length bs) i"
  have i: "i \<le> length bs" using f(1) by (simp add: bs_def)
  note s = find_next_zero_spec [OF i, where bs = bs]
  have "bs ! j" if "j < ?r" for j
    using that s(4) [of j] f by (cases "i \<le> j") (auto simp: bs_def)
  then have "find_next_zero_bit bs (length bs) 0 = ?r"
    using s by (intro find_next_zero_unique) auto
  moreover have "?r < 2 ^ 32" using s(2) n u32_bound [of "bits_num b"] by simp
  moreover have "unat (free_num b - 1) = length (filter Not bs)"
  proof -
    have "unat (free_num b - 1) = unat (free_num b) - 1" using nz by (simp add: unat_minus_one)
    then show ?thesis using count_clear_set [of i "bits b"] f inv by (simp add: bs_def bitmap_inv_def)
  qed
  ultimately show ?thesis using n unat_of_nat_small [of ?r] by (simp add: bitmap_inv_def)
qed

text \<open>Giving a number back.\<close>

lemma bitmap_inv_give:
  assumes inv: "bitmap_inv b" and i: "unat k < length (bits b)" "bits b ! unat k"
  shows "bitmap_inv (b\<lparr>bits := (bits b)[unat k := False],
    first_free_id := if k < first_free_id b then k else first_free_id b, free_num := free_num b + 1\<rparr>)"
proof -
  let ?bs = "(bits b)[unat k := False]" and ?n = "length (bits b)"
  let ?ff = "if k < first_free_id b then k else first_free_id b"
  have r: "unat (first_free_id b) = find_next_zero_bit (bits b) ?n 0" using inv by (simp add: bitmap_inv_def)
  note s = find_next_zero_spec [where i = 0 and n = ?n and bs = "bits b", simplified, folded r]
  have ne: "unat k \<noteq> unat (first_free_id b)" using s(3) i by auto
  have "find_next_zero_bit ?bs ?n 0 = unat ?ff"
  proof (rule find_next_zero_unique)
    show "unat ?ff \<le> ?n" using s(2) i by simp
    show "unat ?ff < ?n \<longrightarrow> \<not> ?bs ! unat ?ff" using s(3) i by (auto simp: nth_list_update)
    show "\<forall>j. 0 \<le> j \<longrightarrow> j < unat ?ff \<longrightarrow> ?bs ! j"
    proof (intro allI impI)
      fix j assume j: "j < unat ?ff"
      then have "j < unat (first_free_id b)" "j \<noteq> unat k"
        using ne by (auto simp: word_less_nat_alt split: if_splits)
      with s(4) show "?bs ! j" by simp
    qed
  qed simp
  moreover have "unat (free_num b + 1) = length (filter Not ?bs)"
  proof -
    have c: "length (filter Not ?bs) = Suc (length (filter Not (bits b)))"
    proof -
      have "(bits b)[unat k := True] = bits b" using i by (metis list_update_id)
      then show ?thesis using count_clear_set [of "unat k" ?bs] i by simp
    qed
    have "length (filter Not ?bs) \<le> unat (bits_num b)"
      using length_filter_le [of Not ?bs] inv by (simp add: bitmap_inv_def)
    then have "Suc (unat (free_num b)) < 2 ^ 32"
      using c inv u32_bound [of "bits_num b"] by (simp add: bitmap_inv_def)
    then have "unat (free_num b + 1) = Suc (unat (free_num b))"
      by (simp add: unat_word_ariths mod_Suc)
    with c inv show ?thesis by (simp add: bitmap_inv_def)
  qed
  ultimately show ?thesis using inv by (simp add: bitmap_inv_def)
qed

lemma bitmap_inv_build:
  assumes "host \<noteq> None" "unat (size_in_bytes * 8) = length bs" "length bs < 2 ^ 32"
  shows "\<exists>b. vdfs2_build_free_bnode_bitmap bs 0 size_in_bytes host [] = (Ok b, []) \<and> bits b = bs \<and> bitmap_inv b"
proof -
  let ?n = "ucast (size_in_bytes * 8) :: u32"
  have n: "unat ?n = length bs" using assms(2,3) by (simp add: unsigned_ucast_eq take_bit_nat_eq_self_iff)
  have "find_next_zero_bit bs (length bs) 0 \<le> length bs" by (rule find_next_zero_spec) simp
  then have f: "unat (of_nat (find_next_zero_bit bs (length bs) 0) :: u32) = find_next_zero_bit bs (length bs) 0"
    using assms(3) by (intro unat_of_nat_small) simp
  have s: "length (filter (\<lambda>b. b) bs) + length (filter Not bs) = length bs"
    using sum_length_filter_compl [of "\<lambda>b. b" bs] by simp
  have "unat (?n - of_nat (length (filter (\<lambda>b. b) bs))) = length (filter Not bs)"
  proof -
    have w: "unat (of_nat (length (filter (\<lambda>b. b) bs)) :: u32) = length (filter (\<lambda>b. b) bs)"
      using s assms(3) by (intro unat_of_nat_small) simp
    have "of_nat (length (filter (\<lambda>b. b) bs)) \<le> ?n" unfolding word_le_nat_alt w n using s by simp
    then show ?thesis using unat_sub [of "of_nat (length (filter (\<lambda>b. b) bs))" ?n] w n s by simp
  qed
  with assms(1) n f show ?thesis
    by (auto simp: vdfs2_build_free_bnode_bitmap_def bitmap_inv_def Let_def)
qed

end
