(* ===== verification/Bnode_Claims.thy ===== *)
theory Bnode_Claims
  imports Bnode_Bitmap
begin

text \<open>
  The properties of the nodes' cache and of the bitmap of node numbers, with their
  witnesses.
\<close>

section \<open>The invariant of a mounted tree\<close>

definition bnode_inv :: "vdfs2_btree \<Rightarrow> bool" where
  "bnode_inv t \<longleftrightarrow>
     cache_inv t \<and> bitmap_inv (bitmap t) \<and> has_inode t \<and>
     (\<forall>a \<in> cached t. unat (id_at t a) < length (bits (bitmap t)) \<and> bits (bitmap t) ! unat (id_at t a)) \<and>
     head_bnode t \<in> set (active_use t) \<and> id_at t (head_bnode t) = 0 \<and>
     mode (bnode_at t (head_bnode t)) = VDFS2_BNODE_MODE_RW"

lemma bnode_inv_core: "bnode_inv t \<Longrightarrow> cache_core {} t"
  by (simp add: bnode_inv_def cache_inv_def)

lemma cached_used:
  "bnode_inv t \<Longrightarrow> node_of t nid = Some a \<Longrightarrow>
   a \<in> cached t \<and> a \<in> dom (heap t) \<and> id_at t a = nid \<and> unat nid < length (bits (bitmap t)) \<and> bits (bitmap t) ! unat nid"
  using node_of_Some [OF bnode_inv_core, of t nid a] cached_live [OF bnode_inv_core, of t a]
  by (auto simp: bnode_inv_def)

text \<open>A node that was read and is not in the cache yet.\<close>

definition fresh_node :: "vdfs2_btree \<Rightarrow> u32 \<Rightarrow> vdfs2_get_bnode_mode \<Rightarrow> vdfs2_btree" where
  "fresh_node t nid md = t\<lparr>heap := (heap t)(next_addr t \<mapsto>
     \<lparr>node_id = nid, mode = md, ref_count = 1, state = 0\<rparr>), next_addr := next_addr t + 1\<rparr>"

lemma get_bnode_raw_cases:
  assumes "has_inode t" "\<forall>p. read_pages io p \<noteq> Oops"
  shows "(\<exists>e m'. get_bnode_raw io t nid c md m = (Err e, m', t)) \<or>
    (\<exists>m'. get_bnode_raw io t nid c md m = (Ok (next_addr t), m', fresh_node t nid md) \<and>
      (c \<or> nid = 0 \<or> first_word io (node_page_index t nid) = VDFS2_NODE_DESCR_MAGIC))"
proof -
  obtain b1 m1 where 1: "kmem_alloc m = (b1, m1)" by fastforce
  obtain b2 m2 where 2: "kmem_alloc m1 = (b2, m2)" by fastforce
  obtain b3 m3 where 3: "kmem_alloc m2 = (b3, m3)" by fastforce
  have "read_pages io (node_page_index t nid) \<noteq> Oops" using assms(2) by simp
  with assms(1) 1 2 3 show ?thesis
    by (cases "read_pages io (node_page_index t nid)") (simp_all add: get_bnode_raw_def fresh_node_def)
qed

lemma fresh_node_fields [simp]:
  "bitmap (fresh_node t nid md) = bitmap t" "cached (fresh_node t nid md) = cached t"
  "active_use (fresh_node t nid md) = active_use t" "passive_use (fresh_node t nid md) = passive_use t"
  "head_bnode (fresh_node t nid md) = head_bnode t" "has_inode (fresh_node t nid md) = has_inode t"
  "dirty_bnodes (fresh_node t nid md) = dirty_bnodes t"
  "bnode_at (fresh_node t nid md) x = (if x = next_addr t then
     \<lparr>node_id = nid, mode = md, ref_count = 1, state = 0\<rparr> else bnode_at t x)"
  "dom (heap (fresh_node t nid md)) = insert (next_addr t) (dom (heap t))"
  by (auto simp: fresh_node_def cached_def)

lemma fresh_addr: "cache_core P t \<Longrightarrow> next_addr t \<notin> dom (heap t) \<and> next_addr t \<notin> cached t"
  by (auto simp: cache_core_def)

lemma fresh_node_inv:
  assumes "cache_inv t"
  shows "cache_inv (fresh_node t nid md)"
proof -
  have core: "cache_core {} t" using assms by (simp add: cache_inv_def)
  have nd: "a \<in> cached t \<Longrightarrow> bnode_at (fresh_node t nid md) a = bnode_at t a" for a
    using fresh_addr [OF core] by auto
  have inj: "inj_on (id_at (fresh_node t nid md)) (cached t) = inj_on (id_at t) (cached t)"
    by (rule inj_on_cong) (simp only: nd)
  have set: "{a \<in> cached t. bnode_hash_fn (id_at (fresh_node t nid md) a) = h} =
      {a \<in> cached t. bnode_hash_fn (id_at t a) = h}" for h
    using nd by (auto simp del: fresh_node_fields)
  have f: "hash_table (fresh_node t nid md) = hash_table t" "next_addr (fresh_node t nid md) = next_addr t + 1"
    "active_use_count (fresh_node t nid md) = active_use_count t"
    "passive_use_count (fresh_node t nid md) = passive_use_count t"
    by (simp_all add: fresh_node_def)
  have st: "\<forall>a\<in>set (active_use t). state (bnode_at (fresh_node t nid md) a) = 1"
    "\<forall>a\<in>set (passive_use t). state (bnode_at (fresh_node t nid md) a) = 0 \<and> id_at (fresh_node t nid md) a \<noteq> 0"
    using core nd by (simp_all add: cache_core_def cached_def del: fresh_node_fields)
  have "cache_core {} (fresh_node t nid md)"
    unfolding cache_core_def fresh_node_fields(2-4,9) f Un_empty_right set inj
    using core st by (auto simp: cache_core_def less_SucI simp del: fresh_node_fields(8))
  then show ?thesis using assms f by (simp add: cache_inv_def cache_bounds_def)
qed

lemma entered_nodes:
  assumes "entered a t t'" "cache_inv t"
  obtains E where "cache_inv t'" "a \<in> cached t'" "cache_frame t t' E" "E \<subseteq> set (passive_use t)"
    "cached t' = insert a (cached t) - E" "\<And>x. x \<in> set (active_use t) \<Longrightarrow> id_at t x = 0 \<Longrightarrow> x \<in> set (active_use t')"
    "\<And>x. x \<in> cached t' \<Longrightarrow> x \<in> dom (heap t')"
  using assms unfolding entered_def by (metis cache_inv_def cached_live)

section \<open>Getting a node\<close>

text \<open>
  What a caller of \<^verbatim>\<open>vdfs2_get_bnode\<close> may rely on. A node handed out has the number and the
  mode asked for, is the one node in the cache with the number, and has one more user; the
  nodes that disappear were on the passive list, and the others keep number, mode and users.
\<close>

definition got_bnode :: "vdfs2_btree \<Rightarrow> u32 \<Rightarrow> vdfs2_get_bnode_mode \<Rightarrow> nat \<Rightarrow> vdfs2_btree \<Rightarrow> bool" where
  "got_bnode t nid md a t' \<longleftrightarrow>
     cache_inv t' \<and> node_of t' nid = Some a \<and> mode (bnode_at t' a) = md \<and>
     ref_count (bnode_at t' a) = (case node_of t nid of Some b \<Rightarrow> ref_count (bnode_at t b) + 1 | None \<Rightarrow> 1) \<and>
     (case node_of t nid of Some b \<Rightarrow> a = b | None \<Rightarrow> a \<notin> dom (heap t)) \<and>
     bitmap t' = bitmap t \<and> head_bnode t' = head_bnode t \<and> has_inode t' = has_inode t \<and>
     (\<exists>E \<subseteq> set (passive_use t). a \<notin> E \<and> cached t' = insert a (cached t) - E \<and>
        dom (heap t') = insert a (dom (heap t)) - E) \<and>
     (\<forall>x \<in> dom (heap t'). x \<noteq> a \<longrightarrow> id_at t' x = id_at t x \<and> mode (bnode_at t' x) = mode (bnode_at t x) \<and>
        ref_count (bnode_at t' x) = ref_count (bnode_at t x)) \<and>
     (\<forall>x \<in> set (active_use t). id_at t x = 0 \<longrightarrow> x \<in> set (active_use t'))"

lemma entered_fresh_got:
  assumes inv: "cache_inv t" and n: "node_of t nid = None"
    and e: "entered (next_addr t) (fresh_node t nid md) t'"
  shows "got_bnode t nid md (next_addr t) t'"
proof -
  let ?a = "next_addr t" and ?f = "fresh_node t nid md"
  have core: "cache_core {} t" using inv by (simp add: cache_inv_def)
  have fr: "?a \<notin> dom (heap t)" "?a \<notin> cached t" using fresh_addr [OF core] by auto
  obtain E where E: "cache_inv t'" "?a \<in> cached t'" "cache_frame ?f t' E" "E \<subseteq> set (passive_use t)"
    "cached t' = insert ?a (cached t) - E" "\<And>x. x \<in> cached t' \<Longrightarrow> x \<in> dom (heap t')"
    "\<And>x. x \<in> set (active_use t) \<Longrightarrow> id_at ?f x = 0 \<Longrightarrow> x \<in> set (active_use t')"
    using entered_nodes [OF e fresh_node_inv [OF inv]] by (metis fresh_node_fields(2,3,4))
  have aE: "?a \<notin> E" using E(4) fr(2) by (auto simp: cached_def)
  have dh: "dom (heap t') = insert ?a (dom (heap t)) - E" using E(3) by (simp add: cache_frame_def)
  have nd: "id_at t' x = id_at ?f x" "mode (bnode_at t' x) = mode (bnode_at ?f x)"
    "ref_count (bnode_at t' x) = ref_count (bnode_at ?f x)" if "x \<in> dom (heap t')" for x
    using cache_frame_node [OF E(3) that] by auto
  have a': "?a \<in> dom (heap t')" using dh aE by auto
  have "node_of t' nid = Some ?a"
    using node_of_Some [of "{}" t' nid ?a] E(1,2) nd(1) [OF a'] by (simp add: cache_inv_def)
  moreover have "x \<in> set (active_use t')" if "x \<in> set (active_use t)" "id_at t x = 0" for x
    using E(7) [OF that(1)] that fr(2) by (cases "x = ?a") (auto simp: cached_def)
  moreover have "\<forall>x \<in> dom (heap t'). x \<noteq> ?a \<longrightarrow> id_at t' x = id_at t x \<and>
      mode (bnode_at t' x) = mode (bnode_at t x) \<and> ref_count (bnode_at t' x) = ref_count (bnode_at t x)"
    by (intro ballI impI) (simp add: nd)
  moreover have "\<exists>E \<subseteq> set (passive_use t). ?a \<notin> E \<and> cached t' = insert ?a (cached t) - E \<and>
      dom (heap t') = insert ?a (dom (heap t)) - E"
    using E(4,5) aE dh by blast
  ultimately show ?thesis
    using n E(1) fr(1) nd [OF a'] cache_frame_fields [OF E(3)]
    unfolding got_bnode_def by simp
qed

lemma enter_fresh:
  assumes inv: "cache_inv t" and n: "node_of t nid = None"
  shows "\<exists>t'. hash_bnode (next_addr t) (fresh_node t nid md) = Some t' \<and> got_bnode t nid md (next_addr t) t'"
proof -
  let ?f = "fresh_node t nid md" and ?a = "next_addr t"
  have core: "cache_core {} t" using inv by (simp add: cache_inv_def)
  have i: "id_at ?f ?a \<notin> id_at ?f ` cached ?f"
    using node_of_None [OF core, of nid] n fresh_addr [OF core] by (auto split: if_splits)
  have "?a \<in> dom (heap ?f)" "?a \<notin> cached ?f" using fresh_addr [OF core] by auto
  from hash_bnode_ok [OF fresh_node_inv [OF inv] this i] obtain t' where
    "hash_bnode ?a ?f = Some t'" "entered ?a ?f t'" by blast
  with entered_fresh_got [OF inv n] show ?thesis by blast
qed

lemma frame_found_got:
  assumes inv: "cache_inv t" and n: "node_of t nid = Some a"
    and R: "cache_inv t1" "cache_frame (set_bnode a (\<lambda>b. b\<lparr>mode := md\<rparr>) t) t1 E" "a \<notin> E"
      "E \<subseteq> set (passive_use t)" "cached t1 = cached t - E"
      "\<forall>x \<in> set (active_use t). id_at t x = 0 \<longrightarrow> x \<in> set (active_use t1)"
  shows "got_bnode t nid md a (set_bnode a (\<lambda>b. b\<lparr>ref_count := ref_count b + 1\<rparr>) t1)"
    "ref_count (bnode_at t1 a) = ref_count (bnode_at t a)"
proof -
  let ?m = "set_bnode a (\<lambda>b. b\<lparr>mode := md\<rparr>) t" and ?t = "set_bnode a (\<lambda>b. b\<lparr>ref_count := ref_count b + 1\<rparr>) t1"
  have core: "cache_core {} t" using inv by (simp add: cache_inv_def)
  have a: "a \<in> cached t" "id_at t a = nid" using node_of_Some [OF core] n by auto
  have al: "a \<in> dom (heap t)" using cached_live [OF core a(1)] .
  have ac: "a \<in> cached t1" using R(3,5) a(1) by simp
  then have al1: "a \<in> dom (heap t1)" using R(1) cached_live by (auto simp: cache_inv_def)
  have dh: "dom (heap t1) = dom (heap t) - E" using R(2) al by (auto simp: cache_frame_def)
  have nd: "id_at t1 x = id_at ?m x" "mode (bnode_at t1 x) = mode (bnode_at ?m x)"
    "ref_count (bnode_at t1 x) = ref_count (bnode_at ?m x)" if "x \<in> dom (heap t1)" for x
    using cache_frame_node [OF R(2) that] by auto
  show rc: "ref_count (bnode_at t1 a) = ref_count (bnode_at t a)" using nd(3) [OF al1] by simp
  have it: "cache_inv ?t" using R(1) al1 by (intro set_bnode_inv) auto
  have "node_of ?t nid = Some a"
    using node_of_Some [of "{}" ?t nid a] it ac a(2) nd(1) [OF al1] by (simp add: cache_inv_def)
  moreover have "insert a (dom (heap t1)) = insert a (dom (heap t)) - E" using dh R(3) by auto
  moreover have "\<forall>x \<in> dom (heap ?t). x \<noteq> a \<longrightarrow> id_at ?t x = id_at t x \<and>
      mode (bnode_at ?t x) = mode (bnode_at t x) \<and> ref_count (bnode_at ?t x) = ref_count (bnode_at t x)"
  proof (intro ballI impI)
    fix x assume x: "x \<in> dom (heap ?t)" "x \<noteq> a"
    then have "x \<in> dom (heap t1)" by auto
    from nd [OF this] x(2) show "id_at ?t x = id_at t x \<and>
      mode (bnode_at ?t x) = mode (bnode_at t x) \<and> ref_count (bnode_at ?t x) = ref_count (bnode_at t x)" by simp
  qed
  moreover have "\<exists>E \<subseteq> set (passive_use t). a \<notin> E \<and> cached ?t = insert a (cached t) - E \<and>
      dom (heap ?t) = insert a (dom (heap t)) - E"
    using R(3-5) dh a(1) al by (intro exI [of _ E]) auto
  moreover have "mode (bnode_at ?t a) = md" using nd(2) [OF al1] by simp
  ultimately show "got_bnode t nid md a ?t"
    using n it R(6) cache_frame_fields [OF R(2)] rc
    unfolding got_bnode_def by simp
qed

lemma got_bnode_inv:
  assumes inv: "bnode_inv t" and g: "got_bnode t nid md a t'"
    and used: "unat nid < length (bits (bitmap t)) \<and> bits (bitmap t) ! unat nid"
    and md: "nid \<noteq> 0 \<or> md = VDFS2_BNODE_MODE_RW"
  shows "bnode_inv t'"
proof -
  let ?h = "head_bnode t"
  have core: "cache_core {} t'" using g by (simp add: got_bnode_def cache_inv_def)
  have a: "a \<in> cached t'" "id_at t' a = nid"
    using node_of_Some [OF core, of nid a] g by (auto simp: got_bnode_def)
  obtain E where E: "cached t' = insert a (cached t) - E" using g by (auto simp: got_bnode_def)
  have u: "unat (id_at t' x) < length (bits (bitmap t)) \<and> bits (bitmap t) ! unat (id_at t' x)"
    if x: "x \<in> cached t'" for x
  proof (cases "x = a")
    case True
    then show ?thesis using a(2) used by simp
  next
    case False
    then have "id_at t' x = id_at t x" using g cached_live [OF core x] by (simp add: got_bnode_def)
    moreover have "x \<in> cached t" using E x False by simp
    ultimately show ?thesis using inv by (simp add: bnode_inv_def)
  qed
  have h: "?h \<in> set (active_use t')" using g inv by (simp add: got_bnode_def bnode_inv_def)
  then have hl: "?h \<in> dom (heap t')" using core by (auto simp: cache_core_def cached_def)
  have "id_at t' ?h = 0 \<and> mode (bnode_at t' ?h) = VDFS2_BNODE_MODE_RW"
  proof (cases "?h = a")
    case True
    have "nid = 0"
    proof (cases "node_of t nid")
      case None
      then show ?thesis using True g inv cached_live [OF bnode_inv_core [OF inv], of a]
        by (simp add: got_bnode_def bnode_inv_def cached_def)
    next
      case (Some b)
      then show ?thesis using True g inv cached_used [OF inv Some] by (simp add: got_bnode_def bnode_inv_def)
    qed
    with True a md g show ?thesis by (simp add: got_bnode_def)
  next
    case False
    with g hl inv show ?thesis by (simp add: got_bnode_def bnode_inv_def)
  qed
  with u h g inv show ?thesis by (simp add: got_bnode_def bnode_inv_def)
qed

text \<open>
  C25. Getting a node by its number. An unused number is refused; a node handed out has the
  number and the mode asked for, is the one cached node with this number, and has exactly one
  more user than before; nodes that leave the cache were passive, and the head of the tree
  never does; a failure leaves the tree as it was. The driver stops only when a third user
  asks for the node for writing.
\<close>

theorem get_bnode_correct:
  assumes inv: "bnode_inv t" and io: "\<forall>p. read_pages io p \<noteq> Oops"
    and md: "nid \<noteq> 0 \<or> md = VDFS2_BNODE_MODE_RW"
  shows "case vdfs2_get_bnode io t nid md m of
      (Ok a, m', t') \<Rightarrow> bits (bitmap t) ! unat nid \<and> got_bnode t nid md a t' \<and> bnode_inv t'
    | (Err e, m', t') \<Rightarrow> t' = t
    | (Bug, m', t') \<Rightarrow> md = VDFS2_BNODE_MODE_RW \<and>
        (\<exists>a. node_of t nid = Some a \<and> 2 \<le> ref_count (bnode_at t a))"
proof -
  have ci: "cache_inv t" "has_inode t" and len: "length (bits (bitmap t)) = unat (bits_num (bitmap t))"
    using inv by (simp_all add: bnode_inv_def bitmap_inv_def)
  have 0: "0 < length (bits (bitmap t)) \<and> bits (bitmap t) ! 0"
    using inv by (force simp: bnode_inv_def cached_def)
  show ?thesis
  proof (cases "nid \<noteq> 0 \<and> (bits_num (bitmap t) \<le> nid \<or> \<not> bits (bitmap t) ! unat nid)")
    case True
    then show ?thesis using len
      by (auto simp: vdfs2_get_bnode_def test_bit_def word_le_nat_alt)
  next
    case False
    then have used: "unat nid < length (bits (bitmap t)) \<and> bits (bitmap t) ! unat nid"
      using len 0 by (cases "nid = 0") (auto simp: word_le_nat_alt)
    have c: "\<not> (nid \<noteq> 0 \<and> bits_num (bitmap t) \<le> nid)"
      "\<not> (nid \<noteq> 0 \<and> test_bit (unat nid) (bits (bitmap t)) = Some False)"
      "\<not> (nid \<noteq> 0 \<and> test_bit (unat nid) (bits (bitmap t)) = None)"
      using False used by (auto simp: test_bit_def)
    have run: "vdfs2_get_bnode io t nid md m =
        (case get_bnode_from_hash t nid md of
           None \<Rightarrow> (Bug, m, t)
         | Some (None, t1) \<Rightarrow>
             (case get_bnode_raw io t1 nid False md m of
                (Ok a, m1, t2) \<Rightarrow>
                  (case hash_bnode a t2 of None \<Rightarrow> (Bug, m1, t2) | Some t3 \<Rightarrow> (Ok a, m1, t3))
              | (Err e, m1, t2) \<Rightarrow> (Err e, m1, t2)
              | (Bug, m1, t2) \<Rightarrow> (Bug, m1, t2))
         | Some (Some a, t1) \<Rightarrow>
             (let t2 = set_bnode a (\<lambda>b. b\<lparr>ref_count := ref_count b + 1\<rparr>) t1 in
              if md = VDFS2_BNODE_MODE_RW \<and> 2 < ref_count (bnode_at t2 a) then (Bug, m, t2)
              else (Ok a, m, t2)))"
      unfolding vdfs2_get_bnode_def using c by (simp only: if_False)
    show ?thesis
    proof (cases "node_of t nid")
      case None
      note h = get_from_hash_none [OF ci(1) None]
      from get_bnode_raw_cases [OF ci(2) io] consider e m' where "get_bnode_raw io t nid False md m = (Err e, m', t)"
        | m' where "get_bnode_raw io t nid False md m = (Ok (next_addr t), m', fresh_node t nid md)" by blast
      then show ?thesis
      proof cases
        case 1
        then show ?thesis using run h by simp
      next
        case 2
        from enter_fresh [OF ci(1) None] obtain t' where
          t': "hash_bnode (next_addr t) (fresh_node t nid md) = Some t'" and
          g: "got_bnode t nid md (next_addr t) t'" by blast
        show ?thesis using run h 2 t' g used got_bnode_inv [OF inv g used md] by simp
      qed
    next
      case (Some a)
      obtain t1 E where R: "get_bnode_from_hash t nid md = Some (Some a, t1)" "cache_inv t1"
          "cache_frame (set_bnode a (\<lambda>b. b\<lparr>mode := md\<rparr>) t) t1 E" "a \<notin> E"
          "E \<subseteq> set (passive_use t)" "cached t1 = cached t - E"
          "\<forall>x \<in> set (active_use t). id_at t x = 0 \<longrightarrow> x \<in> set (active_use t1)"
        using get_from_hash_some [OF ci(1) Some] by blast
      note g = frame_found_got [OF ci(1) Some R(2-7)]
      show ?thesis
        using run R(1) g Some used got_bnode_inv [OF inv g(1) used md] by (auto simp: Let_def)
    qed
  qed
qed

section \<open>Creating and destroying nodes\<close>

lemma cache_inv_other:
  "cache_inv (t\<lparr>bitmap := b, dirty_bnodes := d\<rparr>) = cache_inv t"
  "cached (t\<lparr>bitmap := b, dirty_bnodes := d\<rparr>) = cached t"
  "node_of (t\<lparr>bitmap := b, dirty_bnodes := d\<rparr>) nid = node_of t nid"
  by (simp_all add: cache_inv_def cache_core_def cache_bounds_def cached_def node_of_def)

lemma fresh_node_other:
  "(fresh_node t nid md)\<lparr>bitmap := b, dirty_bnodes := d\<rparr> = fresh_node (t\<lparr>bitmap := b, dirty_bnodes := d\<rparr>) nid md"
  by (simp add: fresh_node_def)

text \<open>The bitmap after taking its first free number.\<close>

definition taken_bitmap :: "vdfs2_bnode_bitmap \<Rightarrow> vdfs2_bnode_bitmap" where
  "taken_bitmap b = (let i = unat (first_free_id b); bs = (bits b)[i := True] in
     b\<lparr>bits := bs, first_free_id := of_nat (find_next_zero_bit bs (unat (bits_num b)) i), free_num := free_num b - 1\<rparr>)"

lemma alloc_new_bnode_run:
  assumes inv: "bnode_inv t" and nz: "free_num (bitmap t) \<noteq> 0" and io: "\<forall>p. read_pages io p \<noteq> Oops"
  defines "i \<equiv> first_free_id (bitmap t)"
  shows "(\<exists>e m' d. vdfs2_alloc_new_bnode io t m = (Err e, m', t\<lparr>dirty_bnodes := d\<rparr>)) \<or>
    (\<exists>m' t' d. vdfs2_alloc_new_bnode io t m = (Ok (next_addr t), m', t') \<and>
       got_bnode (t\<lparr>bitmap := taken_bitmap (bitmap t), dirty_bnodes := d\<rparr>) i VDFS2_BNODE_MODE_RW (next_addr t) t')"
proof -
  note f = bitmap_inv_first [of "bitmap t", folded i_def]
  have bi: "bitmap_inv (bitmap t)" and ci: "cache_inv t" using inv by (simp_all add: bnode_inv_def)
  note f = f [OF bi nz]
  let ?h = "head_bnode t"
  have core: "cache_core {} t" using inv by (rule bnode_inv_core)
  have hm: "mode (bnode_at t ?h) = VDFS2_BNODE_MODE_RW" "?h \<noteq> next_addr t"
    using inv fresh_addr [OF core] by (auto simp: bnode_inv_def cached_def)
  define b1 where "b1 = (bitmap t)\<lparr>bits := (bits (bitmap t))[unat i := True]\<rparr>"
  define d1 where "d1 = dirty_bnodes t @ [id_at t ?h]"
  define d2 where "d2 = d1 @ [id_at t ?h]"
  define t2 where "t2 = t\<lparr>bitmap := b1, dirty_bnodes := d1\<rparr>"
  have t2: "has_inode t2" "next_addr t2 = next_addr t" "bitmap t2 = b1" "head_bnode t2 = ?h" "heap t2 = heap t"
    "dirty_bnodes t2 = d1" using inv by (simp_all add: t2_def bnode_inv_def)
  define u where "u = t\<lparr>bitmap := taken_bitmap (bitmap t), dirty_bnodes := d2\<rparr>"
  have run: "vdfs2_alloc_new_bnode io t m =
     (case get_bnode_raw io t2 i True VDFS2_BNODE_MODE_RW m of
        (Ok a, m1, t3) \<Rightarrow>
          (let t4 = set_bitmap (\<lambda>b. b\<lparr>first_free_id := of_nat (find_next_zero_bit (bits b) (unat (bits_num b)) (unat i)),
                        free_num := free_num b - 1\<rparr>) t3 in
           case vdfs2_mark_bnode_dirty (head_bnode t4) t4 of
             None \<Rightarrow> (Bug, m1, t4)
           | Some t5 \<Rightarrow>
               (case hash_bnode a t5 of None \<Rightarrow> (Bug, m1, t5) | Some t6 \<Rightarrow> (Ok a, m1, t6)))
      | (Err e, m1, t3) \<Rightarrow> (Err e, m1, set_bitmap (\<lambda>b. b\<lparr>bits := (bits b)[unat i := False]\<rparr>) t3)
      | (Bug, m1, t3) \<Rightarrow> (Bug, m1, t3))"
    using nz f hm by (simp add: vdfs2_alloc_new_bnode_def i_def [symmetric] Let_def test_bit_def set_bitmap_def
        vdfs2_mark_bnode_dirty_def t2_def b1_def d1_def)
  from get_bnode_raw_cases [OF t2(1) io] consider
    e m' where "get_bnode_raw io t2 i True VDFS2_BNODE_MODE_RW m = (Err e, m', t2)"
    | m' where "get_bnode_raw io t2 i True VDFS2_BNODE_MODE_RW m =
        (Ok (next_addr t), m', fresh_node t2 i VDFS2_BNODE_MODE_RW)" unfolding t2(2) by blast
  then show ?thesis
  proof cases
    case 1
    have "(bits (bitmap t))[unat i := True, unat i := False] = bits (bitmap t)"
      using f(2) by (metis list_update_id list_update_overwrite)
    then have "set_bitmap (\<lambda>b. b\<lparr>bits := (bits b)[unat i := False]\<rparr>) t2 = t\<lparr>dirty_bnodes := d1\<rparr>"
      by (simp add: set_bitmap_def t2_def b1_def)
    with run 1 show ?thesis by auto
  next
    case 2
    let ?f = "fresh_node t2 i VDFS2_BNODE_MODE_RW"
    let ?g = "\<lambda>b. b\<lparr>first_free_id := of_nat (find_next_zero_bit (bits b) (unat (bits_num b)) (unat i)),
                        free_num := free_num b - 1\<rparr>"
    have b: "?g b1 = taken_bitmap (bitmap t)" by (simp add: b1_def taken_bitmap_def Let_def i_def)
    have "vdfs2_mark_bnode_dirty (head_bnode (set_bitmap ?g ?f)) (set_bitmap ?g ?f) =
        Some (?f\<lparr>bitmap := ?g b1, dirty_bnodes := d2\<rparr>)"
      using hm t2 by (simp add: vdfs2_mark_bnode_dirty_def set_bitmap_def d2_def fresh_node_def)
    then have md: "vdfs2_mark_bnode_dirty (head_bnode (set_bitmap ?g ?f)) (set_bitmap ?g ?f) =
        Some (fresh_node u i VDFS2_BNODE_MODE_RW)"
      unfolding b by (simp add: fresh_node_def t2_def u_def)
    have nu: "node_of u i = None"
    proof (rule ccontr)
      assume "node_of u i \<noteq> None"
      then obtain a where "node_of t i = Some a" by (auto simp: u_def cache_inv_other)
      from cached_used [OF inv this] f(2) show False by simp
    qed
    have "cache_inv u" using ci by (simp add: u_def cache_inv_other)
    from enter_fresh [OF this nu, of VDFS2_BNODE_MODE_RW] obtain t' where
      t': "hash_bnode (next_addr t) (fresh_node u i VDFS2_BNODE_MODE_RW) = Some t'"
        "got_bnode u i VDFS2_BNODE_MODE_RW (next_addr t) t'" by (auto simp: u_def)
    show ?thesis using run 2 md t' by (auto simp: u_def)
  qed
qed

lemma nth_update_True: "i < length xs \<Longrightarrow> xs ! i \<Longrightarrow> xs[k := True] ! i"
  by (cases "k = i") simp_all

lemma taken_bitmap_inv:
  assumes inv: "bnode_inv t" and nz: "free_num (bitmap t) \<noteq> 0"
  shows "bnode_inv (t\<lparr>bitmap := taken_bitmap (bitmap t), dirty_bnodes := d\<rparr>)"
proof -
  have "bits (taken_bitmap (bitmap t)) = (bits (bitmap t))[unat (first_free_id (bitmap t)) := True]"
    by (simp add: taken_bitmap_def Let_def)
  moreover have "bitmap_inv (taken_bitmap (bitmap t))"
    using bitmap_inv_take [of "bitmap t"] inv nz by (simp add: taken_bitmap_def Let_def bnode_inv_def)
  ultimately show ?thesis
    using inv by (simp add: bnode_inv_def cache_inv_other nth_update_True)
qed

text \<open>
  C26. Creating a node takes the least free number: its bit was clear and is set, the
  remembered first free number and the counter follow, and the new node is cached with one
  user. When no number is free the answer is ENOSPC; every failure leaves bitmap and cache as
  they were, and the driver's consistency checks never fail.
\<close>

theorem alloc_new_bnode_correct:
  assumes inv: "bnode_inv t" and io: "\<forall>p. read_pages io p \<noteq> Oops"
  shows "case vdfs2_alloc_new_bnode io t m of
      (Ok a, m', t') \<Rightarrow>
        (let i = first_free_id (bitmap t) in
         unat i < length (bits (bitmap t)) \<and> \<not> bits (bitmap t) ! unat i \<and> (\<forall>j < unat i. bits (bitmap t) ! j) \<and>
         bits (bitmap t') = (bits (bitmap t))[unat i := True] \<and> bnode_inv t' \<and>
         node_of t' i = Some a \<and> a \<notin> dom (heap t) \<and> ref_count (bnode_at t' a) = 1)
    | (Err e, m', t') \<Rightarrow> bitmap t' = bitmap t \<and> heap t' = heap t \<and> bnode_inv t' \<and>
        (free_num (bitmap t) = 0 \<longrightarrow> e = ENOSPC)
    | (Bug, m', t') \<Rightarrow> False"
proof (cases "free_num (bitmap t) = 0")
  case True
  then show ?thesis using inv by (simp add: vdfs2_alloc_new_bnode_def)
next
  case False
  let ?i = "first_free_id (bitmap t)"
  have bi: "bitmap_inv (bitmap t)" using inv by (simp add: bnode_inv_def)
  note f = bitmap_inv_first [OF bi False]
  from alloc_new_bnode_run [OF inv False io] consider
    e m' d where "vdfs2_alloc_new_bnode io t m = (Err e, m', t\<lparr>dirty_bnodes := d\<rparr>)"
    | m' t' d where "vdfs2_alloc_new_bnode io t m = (Ok (next_addr t), m', t')"
       "got_bnode (t\<lparr>bitmap := taken_bitmap (bitmap t), dirty_bnodes := d\<rparr>) ?i VDFS2_BNODE_MODE_RW (next_addr t) t'"
    by blast
  then show ?thesis
  proof cases
    case (1 e m' d)
    have "bnode_inv (t\<lparr>dirty_bnodes := d\<rparr>)"
      using inv cache_inv_other [where t = t and b = "bitmap t" and d = d] by (simp add: bnode_inv_def)
    with 1 False show ?thesis by simp
  next
    case (2 m' t' d)
    let ?u = "t\<lparr>bitmap := taken_bitmap (bitmap t), dirty_bnodes := d\<rparr>"
    have b: "bits (bitmap ?u) = (bits (bitmap t))[unat ?i := True]" by (simp add: taken_bitmap_def Let_def)
    have "bnode_inv t'"
      by (rule got_bnode_inv [OF taken_bitmap_inv [OF inv False] 2(2)]) (use b f(1) in simp_all)
    moreover have "node_of ?u ?i = None"
    proof (rule ccontr)
      assume "node_of ?u ?i \<noteq> None"
      then obtain a where "node_of t ?i = Some a" by (auto simp: cache_inv_other)
      from cached_used [OF inv this] f(2) show False by simp
    qed
    ultimately show ?thesis using 2 f b by (simp add: got_bnode_def Let_def)
  qed
qed

lemma destroy_bnode_run:
  assumes inv: "bnode_inv t" and a: "a \<in> cached t" "id_at t a \<noteq> 0" "ref_count (bnode_at t a) = 1"
  defines "k \<equiv> id_at t a"
  shows "\<exists>t'. vdfs2_destroy_bnode a t = (Success, t') \<and> bnode_inv t' \<and> heap t' = (heap t)(a := None) \<and>
    cached t' = cached t - {a} \<and>
    bitmap t' = (bitmap t)\<lparr>bits := (bits (bitmap t))[unat k := False],
      first_free_id := if k < first_free_id (bitmap t) then k else first_free_id (bitmap t),
      free_num := free_num (bitmap t) + 1\<rparr>"
proof -
  let ?h = "head_bnode t"
  have core: "cache_core {} t" and bi: "bitmap_inv (bitmap t)"
    using inv by (simp_all add: bnode_inv_def cache_inv_def)
  have k: "unat k < length (bits (bitmap t))" "bits (bitmap t) ! unat k"
    using inv a(1) by (simp_all add: bnode_inv_def k_def)
  have ha: "?h \<noteq> a" using inv a(2) by (auto simp: bnode_inv_def)
  define t1 where "t1 = set_bnode a (\<lambda>b. b\<lparr>ref_count := ref_count b - 1\<rparr>) t"
  have c1: "cache_core {} t1" "a \<in> cached t1"
    using set_bnode_core [OF core cached_live [OF core a(1)], of "\<lambda>b. b\<lparr>ref_count := ref_count b - 1\<rparr>"] a(1)
    by (simp_all add: t1_def)
  define t2 where "t2 = vdfs2_put_cache_bnode a t1"
  note r = remove_from_lru_ok [OF c1]
  note d = drop_node_ok [OF r(1), simplified, folded put_cache_bnode_eq t2_def]
  have l: "active_use t2 = remove1 a (active_use t)" "passive_use t2 = remove1 a (passive_use t)"
    using d(3,4) r(3,4) by (simp_all add: t1_def)
  have dis: "distinct (active_use t)" "distinct (passive_use t)" using core by (simp_all add: cache_core_def)
  have cc: "cached t2 = cached t - {a}" using dis by (auto simp: cached_def l)
  have hp: "heap t2 = (heap t)(a := None)"
    by (simp add: t2_def t1_def vdfs2_put_cache_bnode_def put_bnode_cached_def free_bnode_def unhash_bnode_def
        remove_from_lru_def list_del_def set_bnode_def Let_def)
  have fr: "cache_frame t1 t2 {a}" using cache_frame_trans [OF r(2) d(2)] by (simp add: put_cache_bnode_eq t2_def)
  have o: "bitmap t2 = bitmap t" "head_bnode t2 = ?h" "is_mounted t2 = is_mounted t" "has_inode t2 = has_inode t"
    "dirty_bnodes t2 = dirty_bnodes t"
    using cache_frame_fields [OF fr] by (simp_all add: t1_def)
  have nd: "x \<noteq> a \<Longrightarrow> bnode_at t2 x = bnode_at t x" for x by (simp add: hp)
  have hm: "mode (bnode_at t2 ?h) = VDFS2_BNODE_MODE_RW" using inv nd [OF ha] by (simp add: bnode_inv_def)
  define t' where "t' = t2\<lparr>bitmap := (bitmap t)\<lparr>bits := (bits (bitmap t))[unat k := False],
      first_free_id := if k < first_free_id (bitmap t) then k else first_free_id (bitmap t),
      free_num := free_num (bitmap t) + 1\<rparr>, dirty_bnodes := dirty_bnodes t @ [id_at t2 ?h]\<rparr>"
  have run: "vdfs2_destroy_bnode a t = (Success, t')"
    using a(2,3) k hm o by (simp add: vdfs2_destroy_bnode_def VDFS2_INVALID_NODE_ID_def Let_def t1_def [symmetric]
        t2_def [symmetric] vdfs2_put_cache_bnode_def [symmetric] test_bit_def set_bitmap_def
        vdfs2_mark_bnode_dirty_def t'_def k_def [symmetric])
      (simp add: t1_def)
  have b: "cache_bounds t2"
  proof -
    have "length (active_use t2) \<le> length (active_use t)" by (simp add: l(1) length_remove1)
    moreover have "passive_use_count t2 \<le> passive_use_count t"
      using d(5) r(6,7) a(1) by (cases "a \<in> set (active_use t)") (auto simp: t1_def cached_def)
    ultimately show ?thesis using inv by (simp add: bnode_inv_def cache_inv_def cache_bounds_def)
  qed
  have used: "unat (id_at t2 x) < length (bits (bitmap t)) \<and> (bits (bitmap t))[unat k := False] ! unat (id_at t2 x)"
    if x: "x \<in> cached t - {a}" for x
  proof -
    have "id_at t x \<noteq> k" using core a(1) x by (auto simp: cache_core_def inj_on_def k_def)
    then have "unat k \<noteq> unat (id_at t x)" by (simp add: word_unat_eq_iff)
    then show ?thesis using x inv nd [of x] by (simp add: bnode_inv_def)
  qed
  have "bnode_inv t'"
    using d(1) b used bitmap_inv_give [OF bi k] inv o nd [OF ha] ha cc dis
    by (simp add: t'_def bnode_inv_def cache_inv_other cache_inv_def [of t2] l)
  then show ?thesis using run hp cc cache_inv_other(2) by (auto simp: t'_def)
qed

text \<open>
  C27. Destroying a node that has no other user succeeds: its number is free again, the
  remembered first free number and the counter follow, the node is gone from cache and memory
  and every other node stays.
\<close>

theorem destroy_bnode_correct:
  assumes "bnode_inv t" "node_of t nid = Some a" "nid \<noteq> 0" "ref_count (bnode_at t a) = 1"
  shows "\<exists>t'. vdfs2_destroy_bnode a t = (Success, t') \<and> bnode_inv t' \<and>
    bits (bitmap t') = (bits (bitmap t))[unat nid := False] \<and>
    node_of t' nid = None \<and> heap t' = (heap t)(a := None)"
proof -
  note u = cached_used [OF assms(1,2)]
  have a: "a \<in> cached t" "id_at t a \<noteq> 0" using u assms(3) by auto
  obtain t' where t': "vdfs2_destroy_bnode a t = (Success, t')" "bnode_inv t'" "heap t' = (heap t)(a := None)"
    "bits (bitmap t') = (bits (bitmap t))[unat (id_at t a) := False]"
    using destroy_bnode_run [OF assms(1) a assms(4)] by auto
  have "node_of t' nid = None"
  proof (rule ccontr)
    assume "node_of t' nid \<noteq> None"
    then obtain x where "node_of t' nid = Some x" by blast
    from cached_used [OF t'(2) this] t'(4) u show False by simp
  qed
  with t' u show ?thesis by auto
qed

lemma bitmap_inv_unique:
  assumes "bitmap_inv b" "bitmap_inv c" "bits b = bits c" "bits_num b = bits_num c" "area_size b = area_size c"
    "start_id b = start_id c" "end_id b = end_id c"
  shows "b = c"
proof -
  have "first_free_id b = first_free_id c" "free_num b = free_num c"
    using assms by (simp_all add: bitmap_inv_def word_unat_eq_iff)
  with assms show ?thesis by (cases b, cases c) simp
qed

text \<open>
  C28. Creating a node and destroying it again gives back the bitmap bit for bit, with its
  counter and its first free number.
\<close>

theorem alloc_destroy_roundtrip:
  assumes inv: "bnode_inv t" and io: "\<forall>p. read_pages io p \<noteq> Oops" and nz: "0 < first_free_id (bitmap t)"
    and run: "vdfs2_alloc_new_bnode io t m = (Ok a, m', t')"
  shows "\<exists>t''. vdfs2_destroy_bnode a t' = (Success, t'') \<and> bitmap t'' = bitmap t \<and> bnode_inv t''"
proof -
  let ?i = "first_free_id (bitmap t)"
  have fn: "free_num (bitmap t) \<noteq> 0" using run by (auto simp: vdfs2_alloc_new_bnode_def Let_def)
  note f = bitmap_inv_first [of "bitmap t", OF _ fn]
  have bi: "bitmap_inv (bitmap t)" using inv by (simp add: bnode_inv_def)
  obtain d where g: "got_bnode (t\<lparr>bitmap := taken_bitmap (bitmap t), dirty_bnodes := d\<rparr>) ?i
      VDFS2_BNODE_MODE_RW a t'"
    using alloc_new_bnode_run [OF inv fn io, of m] run by auto
  let ?u = "t\<lparr>bitmap := taken_bitmap (bitmap t), dirty_bnodes := d\<rparr>"
  have bu: "bits (taken_bitmap (bitmap t)) = (bits (bitmap t))[unat ?i := True]" by (simp add: taken_bitmap_def Let_def)
  have it: "bnode_inv t'"
    by (rule got_bnode_inv [OF taken_bitmap_inv [OF inv fn] g]) (use bu f(1) [OF bi] in simp_all)
  have "node_of t ?i = None" using cached_used [OF inv] f(2) [OF bi] by (cases "node_of t ?i") auto
  then have n: "node_of t' ?i = Some a" "ref_count (bnode_at t' a) = 1" "bitmap t' = taken_bitmap (bitmap t)"
    using g by (simp_all add: got_bnode_def cache_inv_other)
  note u = cached_used [OF it n(1)]
  have "id_at t' a \<noteq> 0" using u nz by auto
  with destroy_bnode_run [OF it _ _ n(2)] u obtain t'' where
    t'': "vdfs2_destroy_bnode a t' = (Success, t'')" "bnode_inv t''"
      "bitmap t'' = (bitmap t')\<lparr>bits := (bits (bitmap t'))[unat ?i := False],
        first_free_id := if ?i < first_free_id (bitmap t') then ?i else first_free_id (bitmap t'),
        free_num := free_num (bitmap t') + 1\<rparr>" by auto
  have "bits (bitmap t'') = bits (bitmap t)"
    using f(2) [OF bi] by (simp add: t''(3) n(3) bu) (metis list_update_id)
  then have "bitmap t'' = bitmap t"
    using t''(2) bi by (intro bitmap_inv_unique) (simp_all add: bnode_inv_def t''(3) n(3) taken_bitmap_def Let_def)
  with t'' show ?thesis by blast
qed

section \<open>The passive list\<close>

text \<open>Pages that can be read and hold a node.\<close>

definition pages_ok :: "node_io \<Rightarrow> bool" where
  "pages_ok io \<longleftrightarrow> (\<forall>p. read_pages io p = Success \<and> first_word io p = VDFS2_NODE_DESCR_MAGIC)"

lemma get_new_node:
  assumes inv: "bnode_inv t" and io: "pages_ok io"
    and n: "nid \<noteq> 0" "nid < bits_num (bitmap t)" "bits (bitmap t) ! unat nid" "node_of t nid = None"
  shows "\<exists>t'. vdfs2_get_bnode io t nid md [] = (Ok (next_addr t), [], t') \<and> bnode_inv t' \<and>
    got_bnode t nid md (next_addr t) t' \<and>
    (if passive_use_count t < int VDFS2_PASSIVE_SIZE then
       passive_use t' = next_addr t # passive_use t \<and> passive_use_count t' = passive_use_count t + 1
     else
       passive_use t \<noteq> [] \<and> passive_use t' = next_addr t # butlast (passive_use t) \<and>
       passive_use_count t' = passive_use_count t - 1 \<and> heap t' (last (passive_use t)) = None)"
proof -
  let ?a = "next_addr t" and ?f = "fresh_node t nid md"
  have ci: "cache_inv t" and len: "length (bits (bitmap t)) = unat (bits_num (bitmap t))" and hi: "has_inode t"
    using inv by (simp_all add: bnode_inv_def bitmap_inv_def)
  have core: "cache_core {} t" using ci by (simp add: cache_inv_def)
  have lt: "unat nid < length (bits (bitmap t))" using n(2) len by (simp add: word_less_nat_alt)
  have raw: "get_bnode_raw io t nid False md [] = (Ok ?a, [], ?f)"
    using io hi by (simp add: get_bnode_raw_def fresh_node_def pages_ok_def)
  from enter_fresh [OF ci n(4), of md] obtain t' where
    t': "hash_bnode ?a ?f = Some t'" "got_bnode t nid md ?a t'" by blast
  have run: "vdfs2_get_bnode io t nid md [] = (Ok ?a, [], t')"
    using n lt get_from_hash_none [OF ci n(4)] raw t'(1)
    by (simp add: vdfs2_get_bnode_def test_bit_def word_le_nat_alt word_less_nat_alt)
  define t1 where "t1 = ?f\<lparr>hash_table := (hash_table ?f)[bnode_hash_fn nid := ?a # hash_table ?f ! bnode_hash_fn nid]\<rparr>"
  have eq: "t' = add_to_passive ?a t1" using t'(1) n(1) by (simp add: hash_bnode_def Let_def t1_def)
  have i: "id_at ?f ?a \<notin> id_at ?f ` cached ?f"
    using node_of_None [OF core, of nid] n(4) fresh_addr [OF core] by (auto split: if_splits)
  have c1: "cache_core {?a} t1"
    using hash_insert_core [of ?f ?a] fresh_node_inv [OF ci] i fresh_addr [OF core]
    by (simp add: cache_inv_def t1_def)
  have f1: "passive_use t1 = passive_use t" "passive_use_count t1 = passive_use_count t" "id_at t1 ?a = nid"
    by (simp_all add: t1_def fresh_node_def)
  have "passive_use_count t1 \<le> int VDFS2_PASSIVE_SIZE" using ci f1(2) by (simp add: cache_inv_def cache_bounds_def)
  note p = add_to_passive_ok [OF c1, of ?a, folded eq, simplified, unfolded f1, OF n(1) this [unfolded f1]]
  have "bnode_inv t'" using got_bnode_inv [OF inv t'(2)] lt n by simp
  moreover have "heap t' (last (passive_use t)) = None" if "\<not> passive_use_count t < int VDFS2_PASSIVE_SIZE"
    using p that by (auto simp: cache_frame_def dom_def)
  ultimately show ?thesis using run t'(2) p by auto
qed

text \<open>
  When the passive list is full, reading one more node frees the oldest passive node,
  whether it is in use or not: the user count is not looked at.
\<close>

theorem passive_eviction_ignores_users:
  assumes "bnode_inv t" "pages_ok io" "nid \<noteq> 0" "nid < bits_num (bitmap t)" "bits (bitmap t) ! unat nid"
    and "node_of t nid = None" "passive_use_count t = int VDFS2_PASSIVE_SIZE"
    and "0 < ref_count (bnode_at t (last (passive_use t)))"
  shows "\<exists>a t'. vdfs2_get_bnode io t nid md [] = (Ok a, [], t') \<and> bnode_inv t' \<and>
    last (passive_use t) \<in> dom (heap t) \<and> heap t' (last (passive_use t)) = None"
proof -
  obtain t' where t': "vdfs2_get_bnode io t nid md [] = (Ok (next_addr t), [], t')" "bnode_inv t'"
      "passive_use t \<noteq> []" "heap t' (last (passive_use t)) = None"
    using get_new_node [OF assms(1-6), of md] assms(7) by auto
  moreover have "last (passive_use t) \<in> dom (heap t)"
    by (rule cached_live [OF bnode_inv_core [OF assms(1)]]) (use t'(3) in \<open>simp add: cached_def\<close>)
  ultimately show ?thesis by blast
qed

text \<open>
  The limit of the passive list does not hold: the eviction takes two off the counter
  for one node, so with a full counter every two further nodes make the list longer by one
  while the counter comes back to the limit.
\<close>

theorem passive_list_outgrows_limit:
  assumes inv: "bnode_inv t" and io: "pages_ok io"
    and i: "i \<noteq> 0" "i < bits_num (bitmap t)" "bits (bitmap t) ! unat i" "node_of t i = None"
    and j: "j \<noteq> 0" "j < bits_num (bitmap t)" "bits (bitmap t) ! unat j" "node_of t j = None" "i \<noteq> j"
    and full: "passive_use_count t = int VDFS2_PASSIVE_SIZE"
  shows "\<exists>a t1 b t2. vdfs2_get_bnode io t i md [] = (Ok a, [], t1) \<and> vdfs2_get_bnode io t1 j md [] = (Ok b, [], t2) \<and>
    bnode_inv t2 \<and> passive_use_count t2 = int VDFS2_PASSIVE_SIZE \<and>
    length (passive_use t2) = Suc (length (passive_use t))"
proof -
  obtain t1 where t1: "vdfs2_get_bnode io t i md [] = (Ok (next_addr t), [], t1)" "bnode_inv t1"
      "got_bnode t i md (next_addr t) t1" "passive_use_count t1 = int VDFS2_PASSIVE_SIZE - 1"
      "passive_use t \<noteq> []" "passive_use t1 = next_addr t # butlast (passive_use t)"
    using get_new_node [OF inv io i, of md] full by auto
  have b: "bitmap t1 = bitmap t" using t1(3) by (simp add: got_bnode_def)
  have "node_of t1 j = None"
  proof (rule ccontr)
    assume "node_of t1 j \<noteq> None"
    then obtain x where x: "node_of t1 j = Some x" by blast
    note u = cached_used [OF t1(2) x]
    have xa: "x \<noteq> next_addr t" using t1(3) u j(5) cached_used [OF t1(2), of i "next_addr t"] by (auto simp: got_bnode_def)
    then have "x \<in> cached t" "id_at t x = j" using t1(3) u by (auto simp: got_bnode_def)
    then have "node_of t j = Some x" using node_of_Some [OF bnode_inv_core [OF inv]] by simp
    with j(4) show False by simp
  qed
  with get_new_node [OF t1(2) io j(1), of md] j b t1(4) obtain t2 where
    "vdfs2_get_bnode io t1 j md [] = (Ok (next_addr t1), [], t2)" "bnode_inv t2"
    "passive_use t2 = next_addr t1 # passive_use t1" "passive_use_count t2 = passive_use_count t1 + 1"
    by auto
  with t1 show ?thesis by (auto simp: Suc_leI length_greater_0_conv)
qed

section \<open>Witnesses\<close>

text \<open>
  A tree whose head is active and whose nodes 1 to \<open>n\<close> are passive, each at the address that
  is its number, in a bitmap of 2048 numbers of which the first 1027 are used.
\<close>

definition sample_map :: vdfs2_bnode_bitmap where
  "sample_map = \<lparr>bits = replicate 1027 True @ replicate 1021 False, area_size = 256, start_id = 0,
     end_id = 2048, first_free_id = 1027, free_num = 1021, bits_num = 2048\<rparr>"

definition sample_nodes :: "nat \<Rightarrow> vdfs2_btree" where
  "sample_nodes n = \<lparr>has_inode = True, is_mounted = True, is_pack = False, pages_per_node = 4,
     tree_metadata_offset = 0, head_bnode = 0, bitmap = sample_map,
     heap = (\<lambda>a. if a \<le> n then Some \<lparr>node_id = of_nat a, mode = VDFS2_BNODE_MODE_RW, ref_count = 1,
       state = (if a = 0 then 1 else 0)\<rparr> else None),
     next_addr = Suc n, hash_table = map (\<lambda>h. filter (\<lambda>a. a mod 1024 = h) [0..<Suc n]) [0..<1024],
     active_use_count = 1, active_use = [0], passive_use_count = int n, passive_use = [1..<Suc n],
     dirty_bnodes = []\<rparr>"

definition sample_io :: node_io where
  "sample_io = \<lparr>read_pages = (\<lambda>p. Success), first_word = (\<lambda>p. VDFS2_NODE_DESCR_MAGIC)\<rparr>"

lemma sample_map_inv: "bitmap_inv sample_map"
proof -
  let ?bs = "replicate 1027 True @ replicate 1021 False"
  have "find_next_zero_bit ?bs 2048 0 = 1027"
    by (rule find_next_zero_unique) (auto simp: nth_append)
  then show ?thesis by (simp add: bitmap_inv_def sample_map_def)
qed

lemma sample_bits: "i < 1027 \<Longrightarrow> bits sample_map ! i" "length (bits sample_map) = 2048"
  "bits_num sample_map = 2048" "\<not> bits sample_map ! 1027"
  by (simp_all add: sample_map_def nth_append)

lemma sample_hash: "a \<le> 1024 \<Longrightarrow> bnode_hash_fn (of_nat a) = a mod 1024"
  using and_mask_mod [of "of_nat a" 10] unat_of_nat_small [of a]
  by (simp add: bnode_hash_fn_def VDFS2_BNODE_HASH_MASK_def)

lemma sample_cached: "cached (sample_nodes n) = {..n}"
  by (auto simp: cached_def sample_nodes_def)

lemma u32_of_nat_inj: "i < 2 ^ 32 \<Longrightarrow> j < 2 ^ 32 \<Longrightarrow> (of_nat i :: u32) = of_nat j \<longleftrightarrow> i = j"
  by (metis unat_of_nat_small)

lemma sample_inj: "n \<le> 1024 \<Longrightarrow> inj_on (\<lambda>a. of_nat a :: u32) {..n}"
  by (rule inj_on_inverseI [where g = unat]) (simp add: unat_of_nat_small)

lemma sample_node: "a \<le> n \<Longrightarrow> bnode_at (sample_nodes n) a =
    \<lparr>node_id = of_nat a, mode = VDFS2_BNODE_MODE_RW, ref_count = 1, state = (if a = 0 then 1 else 0)\<rparr>"
  by (simp add: sample_nodes_def)

lemma sample_id: "a \<le> n \<Longrightarrow> id_at (sample_nodes n) a = of_nat a"
  by (simp add: sample_node)

lemma sample_core:
  assumes n: "n \<le> 1024"
  shows "cache_core {} (sample_nodes n)"
proof -
  let ?t = "sample_nodes n"
  have hid: "bnode_hash_fn (id_at ?t a) = a mod 1024" if "a \<le> n" for a
  proof -
    have "a \<le> 1024" using that n by (rule le_trans)
    then show ?thesis unfolding sample_id [OF that] by (rule sample_hash)
  qed
  have h: "distinct (hash_table ?t ! h) \<and> set (hash_table ?t ! h) = {a \<in> cached ?t \<union> {}. bnode_hash_fn (id_at ?t a) = h}"
    if "h < VDFS2_BNODE_HASH_SIZE" for h
  proof -
    have "hash_table ?t ! h = filter (\<lambda>a. a mod 1024 = h) [0..<Suc n]"
      using that by (simp add: sample_nodes_def VDFS2_BNODE_HASH_SIZE_def)
    moreover have "{a \<in> cached ?t \<union> {}. bnode_hash_fn (id_at ?t a) = h} = {a. a \<le> n \<and> a mod 1024 = h}"
    proof (rule Collect_cong)
      fix a
      show "(a \<in> cached ?t \<union> {} \<and> bnode_hash_fn (id_at ?t a) = h) = (a \<le> n \<and> a mod 1024 = h)"
      proof (cases "a \<le> n")
        case True
        then show ?thesis unfolding hid [OF True] sample_cached by simp
      next
        case False
        then show ?thesis unfolding sample_cached by simp
      qed
    qed
    moreover have "set (filter (\<lambda>a. a mod 1024 = h) [0..<Suc n]) = {a. a \<le> n \<and> a mod 1024 = h}"
      by (simp only: set_filter set_upt atLeastLessThan_iff less_Suc_eq_le) simp
    ultimately show ?thesis by (simp only: distinct_filter distinct_upt simp_thms)
  qed
  have inj: "inj_on (id_at ?t) (cached ?t \<union> {})"
    using sample_inj [OF n] by (simp add: sample_cached inj_on_def sample_id)
  have nz: "(of_nat a :: u32) \<noteq> 0" if "a \<noteq> 0" "a \<le> n" for a
  proof
    assume "(of_nat a :: u32) = 0"
    then have "unat (of_nat a :: u32) = 0" by simp
    with unat_of_nat_small [of a] that n show False by simp
  qed
  have s: "\<forall>a\<in>set (active_use ?t). state (bnode_at ?t a) = 1"
    "\<forall>a\<in>set (passive_use ?t). state (bnode_at ?t a) = 0 \<and> id_at ?t a \<noteq> 0"
    using nz by (auto simp: sample_nodes_def)
  have d: "cached ?t \<union> {} \<subseteq> dom (heap ?t)" "\<forall>a\<in>dom (heap ?t). a < next_addr ?t"
    unfolding sample_cached by (auto simp: sample_nodes_def split: if_splits)
  have "length (hash_table ?t) = VDFS2_BNODE_HASH_SIZE" "distinct (active_use ?t @ passive_use ?t)"
    "active_use_count ?t = int (length (active_use ?t))" "passive_use_count ?t \<le> int (length (passive_use ?t))"
    by (simp_all add: sample_nodes_def VDFS2_BNODE_HASH_SIZE_def)
  with h inj s d show ?thesis unfolding cache_core_def by blast
qed

lemma sample_nodes_inv:
  assumes n: "n \<le> 1024"
  shows "bnode_inv (sample_nodes n)"
proof -
  have b: "bitmap (sample_nodes n) = sample_map" "head_bnode (sample_nodes n) = 0" "has_inode (sample_nodes n)"
    "active_use (sample_nodes n) = [0]" by (simp_all add: sample_nodes_def)
  have "cache_bounds (sample_nodes n)" using n by (simp add: cache_bounds_def sample_nodes_def cache_sizes)
  moreover have "unat (of_nat a :: u32) < 1027" if "a \<le> n" for a
    using that n by (simp add: unat_of_nat_small)
  ultimately show ?thesis
    using sample_core [OF n] sample_map_inv
    by (auto simp: bnode_inv_def cache_inv_def b sample_cached sample_id sample_bits sample_node
        intro: less_trans [of _ 1027])
qed

lemma sample_uncached: "n \<le> 1024 \<Longrightarrow> n < i \<Longrightarrow> i < 1027 \<Longrightarrow> node_of (sample_nodes n) (of_nat i) = None"
  using node_of_None [OF sample_core, of n "of_nat i"]
  by (auto simp: sample_cached sample_id u32_of_nat_inj)

lemma sample_pages: "pages_ok sample_io" "\<forall>p. read_pages sample_io p \<noteq> Oops"
  by (simp_all add: pages_ok_def sample_io_def)

theorem get_bnode_correct_witness:
  "\<exists>a m t'. vdfs2_get_bnode sample_io (sample_nodes 2) 5 VDFS2_BNODE_MODE_RO [] = (Ok a, m, t') \<and>
    got_bnode (sample_nodes 2) 5 VDFS2_BNODE_MODE_RO a t' \<and> bnode_inv t'"
proof -
  have u: "node_of (sample_nodes 2) 5 = None" using sample_uncached [of 2 5] by simp
  obtain a t' where r: "vdfs2_get_bnode sample_io (sample_nodes 2) 5 VDFS2_BNODE_MODE_RO [] = (Ok a, [], t')"
    using get_new_node [OF sample_nodes_inv sample_pages(1), of 2 5 VDFS2_BNODE_MODE_RO] u sample_bits(1) [of 5]
    by (auto simp: sample_nodes_def sample_bits(3))
  with get_bnode_correct [OF sample_nodes_inv sample_pages(2), of 2 5 VDFS2_BNODE_MODE_RO "[]"]
  show ?thesis by auto
qed

lemma sample_alloc: "\<exists>a m t'. vdfs2_alloc_new_bnode sample_io (sample_nodes 2) [] = (Ok a, m, t')"
proof -
  have f: "free_num (bitmap (sample_nodes 2)) \<noteq> 0" "has_inode (sample_nodes 2)"
    by (simp_all add: sample_nodes_def sample_map_def)
  from alloc_new_bnode_run [OF sample_nodes_inv f(1) sample_pages(2), of "[]"]
  show ?thesis
    by (auto simp: f vdfs2_alloc_new_bnode_def get_bnode_raw_def Let_def sample_io_def set_bitmap_def
        vdfs2_mark_bnode_dirty_def split: if_splits option.splits)
qed

theorem alloc_new_bnode_correct_witness:
  "\<exists>a m t'. vdfs2_alloc_new_bnode sample_io (sample_nodes 2) [] = (Ok a, m, t') \<and>
    node_of t' 1027 = Some a \<and> bits (bitmap t') = (bits sample_map)[1027 := True]"
proof -
  obtain a m t' where r: "vdfs2_alloc_new_bnode sample_io (sample_nodes 2) [] = (Ok a, m, t')"
    using sample_alloc by blast
  have b: "bitmap (sample_nodes 2) = sample_map" "first_free_id sample_map = 1027"
    by (simp_all add: sample_nodes_def sample_map_def)
  from r alloc_new_bnode_correct [OF sample_nodes_inv sample_pages(2), of 2 "[]"]
  show ?thesis by (auto simp: Let_def b)
qed

theorem destroy_bnode_correct_witness:
  "\<exists>t'. vdfs2_destroy_bnode 1 (sample_nodes 2) = (Success, t') \<and> node_of t' 1 = None"
proof -
  have "node_of (sample_nodes 2) 1 = Some 1"
    using node_of_Some [OF sample_core, of 2 1 1] by (simp add: sample_cached sample_node)
  from destroy_bnode_correct [OF sample_nodes_inv this] show ?thesis by (auto simp: sample_node)
qed

theorem alloc_destroy_roundtrip_witness:
  "\<exists>a m t' t''. vdfs2_alloc_new_bnode sample_io (sample_nodes 2) [] = (Ok a, m, t') \<and>
    vdfs2_destroy_bnode a t' = (Success, t'') \<and> bitmap t'' = sample_map"
proof -
  obtain a m t' where r: "vdfs2_alloc_new_bnode sample_io (sample_nodes 2) [] = (Ok a, m, t')"
    using sample_alloc by blast
  have "0 < first_free_id (bitmap (sample_nodes 2))" "bitmap (sample_nodes 2) = sample_map"
    by (simp_all add: sample_nodes_def sample_map_def)
  with alloc_destroy_roundtrip [OF sample_nodes_inv sample_pages(2) _ r] r show ?thesis by auto
qed

lemma sample_full:
  "bitmap (sample_nodes 1024) = sample_map" "passive_use_count (sample_nodes 1024) = int VDFS2_PASSIVE_SIZE"
  "last (passive_use (sample_nodes 1024)) = 1024"
  by (simp_all add: sample_nodes_def cache_sizes)

theorem passive_eviction_ignores_users_witness:
  "\<exists>a t'. vdfs2_get_bnode sample_io (sample_nodes 1024) 1025 VDFS2_BNODE_MODE_RO [] = (Ok a, [], t') \<and>
    ref_count (bnode_at (sample_nodes 1024) 1024) = 1 \<and> heap t' 1024 = None"
proof -
  have u: "node_of (sample_nodes 1024) 1025 = None" using sample_uncached [of 1024 1025] by simp
  have r: "ref_count (bnode_at (sample_nodes 1024) 1024) = 1" by (simp add: sample_node)
  have "(1025 :: u32) < bits_num (bitmap (sample_nodes 1024))" "bits (bitmap (sample_nodes 1024)) ! unat (1025 :: u32)"
    using sample_bits(1) [of 1025] by (simp_all add: sample_full sample_bits(3))
  from passive_eviction_ignores_users [OF sample_nodes_inv sample_pages(1) _ this u sample_full(2), of VDFS2_BNODE_MODE_RO] r
  show ?thesis by (auto simp: sample_full(3))
qed

theorem passive_list_outgrows_limit_witness:
  "\<exists>a t1 b t2. vdfs2_get_bnode sample_io (sample_nodes 1024) 1025 VDFS2_BNODE_MODE_RO [] = (Ok a, [], t1) \<and>
    vdfs2_get_bnode sample_io t1 1026 VDFS2_BNODE_MODE_RO [] = (Ok b, [], t2) \<and> length (passive_use t2) = 1025"
proof -
  have u: "node_of (sample_nodes 1024) 1025 = None" "node_of (sample_nodes 1024) 1026 = None"
    using sample_uncached [of 1024 1025] sample_uncached [of 1024 1026] by simp_all
  have i: "(1025 :: u32) < bits_num (bitmap (sample_nodes 1024))" "bits (bitmap (sample_nodes 1024)) ! unat (1025 :: u32)"
    and j: "(1026 :: u32) < bits_num (bitmap (sample_nodes 1024))" "bits (bitmap (sample_nodes 1024)) ! unat (1026 :: u32)"
    using sample_bits(1) [of 1025] sample_bits(1) [of 1026] by (simp_all add: sample_full sample_bits(3))
  have "length (passive_use (sample_nodes 1024)) = 1024" by (simp add: sample_nodes_def)
  with passive_list_outgrows_limit [OF sample_nodes_inv sample_pages(1) _ i u(1) _ j u(2) _ sample_full(2),
      of VDFS2_BNODE_MODE_RO]
  show ?thesis by auto
qed

end
