(* ===== verification/Bytes.thy ===== *)
theory Bytes
  imports Vdfs2_Prelude
begin

text \<open>
  Memory areas as lists of bytes, with the reads and writes the driver's C code does on
  them: little-endian integers, \<^verbatim>\<open>memcpy\<close> and \<^verbatim>\<open>memmove\<close>. Integers read from an area are
  natural numbers below the power of two of their width; a write takes the number modulo
  that power.
\<close>

section \<open>Little-endian integers\<close>

fun le_val :: "u8 list \<Rightarrow> nat" where
  "le_val [] = 0"
| "le_val (b # bs) = unat b + 256 * le_val bs"

fun le_bytes :: "nat \<Rightarrow> nat \<Rightarrow> u8 list" where
  "le_bytes 0 v = []"
| "le_bytes (Suc n) v = of_nat v # le_bytes n (v div 256)"

lemma length_le_bytes [simp]: "length (le_bytes n v) = n"
  by (induction n arbitrary: v) simp_all

lemma u8_bound: "unat (b :: u8) < 256"
  using unsigned_less [of b] by simp

lemma u8_of_nat: "unat (of_nat v :: u8) = v mod 256"
  by (simp add: unat_of_nat take_bit_eq_mod)

lemma le_val_bytes: "le_val (le_bytes n v) = v mod 256 ^ n"
proof (induction n arbitrary: v)
  case (Suc n)
  have "v mod (256 * 256 ^ n) = 256 * (v div 256 mod 256 ^ n) + v mod 256" by (rule mod_mult2_eq)
  with Suc show ?case by (simp add: u8_of_nat)
qed simp

lemma le_val_bound: "le_val bs < 256 ^ length bs"
proof (induction bs)
  case (Cons b bs)
  have "unat b + 256 * le_val bs < 256 + 256 * le_val bs" using u8_bound [of b] by simp
  also have "\<dots> \<le> 256 * 256 ^ length bs" using Cons by simp
  finally show ?case by simp
qed simp

section \<open>Ranges of an area\<close>

definition rng :: "u8 list \<Rightarrow> nat \<Rightarrow> nat \<Rightarrow> u8 list" where
  "rng d p n = take n (drop p d)"

definition rd :: "nat \<Rightarrow> u8 list \<Rightarrow> nat \<Rightarrow> nat" where
  "rd w d p = le_val (rng d p w)"

definition put :: "u8 list \<Rightarrow> nat \<Rightarrow> u8 list \<Rightarrow> u8 list" where
  "put d p bs = take p d @ bs @ drop (p + length bs) d"

definition wr :: "nat \<Rightarrow> u8 list \<Rightarrow> nat \<Rightarrow> nat \<Rightarrow> u8 list" where
  "wr w d p v = put d p (le_bytes w v)"

text \<open>Copying inside one area; the ranges may overlap.\<close>

definition memmove :: "u8 list \<Rightarrow> nat \<Rightarrow> nat \<Rightarrow> nat \<Rightarrow> u8 list" where
  "memmove d dst src n = put d dst (rng d src n)"

lemma length_rng [simp]: "p + n \<le> length d \<Longrightarrow> length (rng d p n) = n"
  by (simp add: rng_def)

lemma length_put [simp]: "p + length bs \<le> length d \<Longrightarrow> length (put d p bs) = length d"
  by (simp add: put_def)

lemma length_wr [simp]: "p + w \<le> length d \<Longrightarrow> length (wr w d p v) = length d"
  by (simp add: wr_def)

lemma length_memmove [simp]:
  "dst + n \<le> length d \<Longrightarrow> src + n \<le> length d \<Longrightarrow> length (memmove d dst src n) = length d"
  by (simp add: memmove_def)

lemma nth_rng [simp]: "p + n \<le> length d \<Longrightarrow> i < n \<Longrightarrow> rng d p n ! i = d ! (p + i)"
  by (simp add: rng_def)

lemma nth_put:
  "p + length bs \<le> length d \<Longrightarrow> i < length d \<Longrightarrow>
   put d p bs ! i = (if p \<le> i \<and> i < p + length bs then bs ! (i - p) else d ! i)"
  by (auto simp: put_def nth_append min_def)

lemma rng_eqI:
  assumes "p + n \<le> length d" "q + n \<le> length e" "\<And>i. i < n \<Longrightarrow> d ! (p + i) = e ! (q + i)"
  shows "rng d p n = rng e q n"
  using assms by (intro nth_equalityI) auto

lemma rng_put_same: "p + length bs \<le> length d \<Longrightarrow> rng (put d p bs) p (length bs) = bs"
  by (intro nth_equalityI) (auto simp: nth_put)

lemma rng_put_other:
  assumes "p + length bs \<le> length d" "q + n \<le> length d" "q + n \<le> p \<or> p + length bs \<le> q"
  shows "rng (put d p bs) q n = rng d q n"
  using assms by (intro rng_eqI) (auto simp: nth_put)

lemma rng_put_inside:
  assumes "p + length bs \<le> length d" "p \<le> q" "q + n \<le> p + length bs"
  shows "rng (put d p bs) q n = rng bs (q - p) n"
  using assms by (intro rng_eqI) (auto simp: nth_put)

lemma rng_rng: "k + m \<le> n \<Longrightarrow> p + n \<le> length d \<Longrightarrow> rng (rng d p n) k m = rng d (p + k) m"
  by (intro rng_eqI) (auto simp: add.assoc)

lemma rng_append: "p + (m + n) \<le> length d \<Longrightarrow> rng d p (m + n) = rng d p m @ rng d (p + m) n"
  by (simp add: rng_def take_add add.commute)

lemma rng_full: "rng d 0 (length d) = d"
  by (simp add: rng_def)

section \<open>Reading what was written\<close>

lemma rd_wr_same: "p + w \<le> length d \<Longrightarrow> rd w (wr w d p v) p = v mod 256 ^ w"
  using rng_put_same [of p "le_bytes w v" d] by (simp add: rd_def wr_def le_val_bytes)

lemma rd_put_other:
  "p + length bs \<le> length d \<Longrightarrow> q + w \<le> length d \<Longrightarrow> q + w \<le> p \<or> p + length bs \<le> q \<Longrightarrow>
   rd w (put d p bs) q = rd w d q"
  by (simp add: rd_def rng_put_other)

lemma rd_wr_other:
  "p + w \<le> length d \<Longrightarrow> q + w' \<le> length d \<Longrightarrow> q + w' \<le> p \<or> p + w \<le> q \<Longrightarrow> rd w' (wr w d p v) q = rd w' d q"
  by (simp add: wr_def rd_put_other)

lemma rng_wr_other:
  "p + w \<le> length d \<Longrightarrow> q + n \<le> length d \<Longrightarrow> q + n \<le> p \<or> p + w \<le> q \<Longrightarrow> rng (wr w d p v) q n = rng d q n"
  by (simp add: wr_def rng_put_other)

lemma rd_bound: "p + w \<le> length d \<Longrightarrow> rd w d p < 256 ^ w"
  using le_val_bound [of "rng d p w"] by (simp add: rd_def)

lemma rd_rng: "k + w \<le> n \<Longrightarrow> p + n \<le> length d \<Longrightarrow> rd w (rng d p n) k = rd w d (p + k)"
  by (simp add: rd_def rng_rng)

lemma rng_memmove_dst:
  assumes "dst + n \<le> length d" "src + n \<le> length d" "k + m \<le> n"
  shows "rng (memmove d dst src n) (dst + k) m = rng d (src + k) m"
  using rng_put_inside [of dst "rng d src n" d "dst + k" m] assms by (simp add: memmove_def rng_rng)

lemma rng_memmove_other:
  "dst + n \<le> length d \<Longrightarrow> src + n \<le> length d \<Longrightarrow> q + m \<le> length d \<Longrightarrow> q + m \<le> dst \<or> dst + n \<le> q \<Longrightarrow>
   rng (memmove d dst src n) q m = rng d q m"
  by (simp add: memmove_def rng_put_other)

lemma rd_memmove_dst:
  "dst + n \<le> length d \<Longrightarrow> src + n \<le> length d \<Longrightarrow> k + w \<le> n \<Longrightarrow> rd w (memmove d dst src n) (dst + k) = rd w d (src + k)"
  by (simp add: rd_def rng_memmove_dst)

lemma rd_memmove_other:
  "dst + n \<le> length d \<Longrightarrow> src + n \<le> length d \<Longrightarrow> q + w \<le> length d \<Longrightarrow> q + w \<le> dst \<or> dst + n \<le> q \<Longrightarrow>
   rd w (memmove d dst src n) q = rd w d q"
  by (simp add: rd_def rng_memmove_other)

lemmas byte_simps = rd_wr_same rd_wr_other rng_wr_other rd_put_other rng_put_other rd_memmove_other rng_memmove_other

section \<open>Unsigned subtraction\<close>

definition sub32 :: "nat \<Rightarrow> nat \<Rightarrow> nat" where
  "sub32 a b = (a + 2 ^ 32 - b) mod 2 ^ 32"

lemma sub32_eq: "b \<le> a \<Longrightarrow> a < 2 ^ 32 \<Longrightarrow> sub32 a b = a - b"
proof -
  assume "b \<le> a" "a < 2 ^ 32"
  moreover from this have "a + 2 ^ 32 - b = (a - b) + 2 ^ 32" by simp
  ultimately show ?thesis unfolding sub32_def by (simp only: mod_add_self2) (simp add: mod_less)
qed

end
