(* ===== verification/Btree_Node.thy ===== *)
theory Btree_Node
  imports Bytes
begin

text \<open>
  One node of a metadata B-tree as it lies in memory and on the device, and the operations
  of \<^verbatim>\<open>btree.c\<close> on a single node. A node starts with a descriptor; the records follow one
  after the other, in the order they were added; a table of their offsets, in the order of
  the keys, grows from the end of the node towards them. The entry after the last record's
  is the offset of the free space.

  A node is the list of its bytes. The results are the new bytes or the position in the
  node; a stop of the kernel is \<open>Bug\<close>, which here also stands for an access outside the
  node's memory.
\<close>

section \<open>Layout\<close>

record node_host =
  node_size_bytes :: nat
  max_record_len :: nat
  mount_finished :: bool

definition VDFS2_BNODE_FIRST_OFFSET :: nat where "VDFS2_BNODE_FIRST_OFFSET = 4"
definition VDFS2_BT_INVALID_OFFSET :: nat where "VDFS2_BT_INVALID_OFFSET = 2 ^ 32 - 1"
definition VDFS2_MAX_BTREE_KEY_LEN :: nat where "VDFS2_MAX_BTREE_KEY_LEN = 280 + 1"
definition VDFS2_MAX_BTREE_REC_LEN :: nat where "VDFS2_MAX_BTREE_REC_LEN = 280 + 1 + 193 + 78"

text \<open>The sizes of the descriptor, of an entry of the table, of the common part of a key, of an index value.\<close>

definition DESCR_SIZE :: nat where "DESCR_SIZE = 29"
definition OFF_SIZE :: nat where "OFF_SIZE = 4"
definition GEN_KEY_SIZE :: nat where "GEN_KEY_SIZE = 12"
definition INDEX_VALUE_SIZE :: nat where "INDEX_VALUE_SIZE = 4"

text \<open>The fields of \<^verbatim>\<open>struct vdfs2_gen_node_descr\<close>.\<close>

definition descr_free_space :: "u8 list \<Rightarrow> nat" where "descr_free_space d = rd 2 d 12"
definition descr_recs_count :: "u8 list \<Rightarrow> nat" where "descr_recs_count d = rd 2 d 14"
definition descr_node_id :: "u8 list \<Rightarrow> nat" where "descr_node_id d = rd 4 d 16"
definition descr_prev :: "u8 list \<Rightarrow> nat" where "descr_prev d = rd 4 d 20"
definition descr_next :: "u8 list \<Rightarrow> nat" where "descr_next d = rd 4 d 24"
definition descr_type :: "u8 list \<Rightarrow> nat" where "descr_type d = rd 1 d 28"

definition set_free_space :: "nat \<Rightarrow> u8 list \<Rightarrow> u8 list" where "set_free_space v d = wr 2 d 12 v"
definition set_recs_count :: "nat \<Rightarrow> u8 list \<Rightarrow> u8 list" where "set_recs_count v d = wr 2 d 14 v"
definition set_node_id :: "nat \<Rightarrow> u8 list \<Rightarrow> u8 list" where "set_node_id v d = wr 4 d 16 v"
definition set_prev :: "nat \<Rightarrow> u8 list \<Rightarrow> u8 list" where "set_prev v d = wr 4 d 20 v"
definition set_next :: "nat \<Rightarrow> u8 list \<Rightarrow> u8 list" where "set_next v d = wr 4 d 24 v"
definition set_type :: "nat \<Rightarrow> u8 list \<Rightarrow> u8 list" where "set_type v d = wr 1 d 28 v"

lemmas descr_accessors [descr_defs] =
  descr_free_space_def descr_recs_count_def descr_node_id_def descr_prev_def descr_next_def descr_type_def
  set_free_space_def set_recs_count_def set_node_id_def set_prev_def set_next_def set_type_def

text \<open>The fields of \<^verbatim>\<open>struct vdfs2_generic_key\<close>, which every record starts with.\<close>

definition key_len :: "u8 list \<Rightarrow> nat" where "key_len r = rd 4 r 4"
definition record_len :: "u8 list \<Rightarrow> nat" where "record_len r = rd 4 r 8"

definition fault :: "node_host \<Rightarrow> 'a result" where
  "fault h = (if mount_finished h then Bug else Err EFAULT)"

section \<open>The offset table\<close>

definition vdfs2_get_offset_addr :: "node_host \<Rightarrow> nat \<Rightarrow> nat result" where
  "vdfs2_get_offset_addr h index =
     (if node_size_bytes h < VDFS2_BNODE_FIRST_OFFSET + OFF_SIZE * (index + 1) then fault h
      else Ok (node_size_bytes h - VDFS2_BNODE_FIRST_OFFSET - OFF_SIZE * (index + 1)))"

definition vdfs2_get_offset :: "node_host \<Rightarrow> u8 list \<Rightarrow> nat \<Rightarrow> nat result" where
  "vdfs2_get_offset h d index =
     (case vdfs2_get_offset_addr h index of
        Ok p \<Rightarrow> Ok (rd 4 d p) | Err e \<Rightarrow> Ok VDFS2_BT_INVALID_OFFSET | Bug \<Rightarrow> Bug)"

definition is_offset_correct :: "node_host \<Rightarrow> nat \<Rightarrow> bool" where
  "is_offset_correct h offset \<longleftrightarrow> offset \<noteq> 0 \<and> offset < node_size_bytes h"

fun offsets_correct :: "node_host \<Rightarrow> u8 list \<Rightarrow> nat \<Rightarrow> nat \<Rightarrow> bool result" where
  "offsets_correct h d i 0 = Ok True"
| "offsets_correct h d i (Suc n) =
     and_then (vdfs2_get_offset h d i) (\<lambda>offset.
       if is_offset_correct h offset then offsets_correct h d (i + 1) n else Ok False)"

definition check_bnode_offset_area :: "node_host \<Rightarrow> u8 list \<Rightarrow> bool result" where
  "check_bnode_offset_area h d = offsets_correct h d 0 (descr_recs_count d)"

text \<open>The position of a record in the node.\<close>

definition get_record :: "node_host \<Rightarrow> u8 list \<Rightarrow> nat \<Rightarrow> nat result" where
  "get_record h d index =
     (if descr_recs_count d < index then Err EINVAL
      else
        and_then (vdfs2_get_offset h d index) (\<lambda>offset.
          if is_offset_correct h offset then Ok offset else Err EINVAL))"

definition check_set_offset :: "node_host \<Rightarrow> u8 list \<Rightarrow> nat \<Rightarrow> nat \<Rightarrow> u8 list result" where
  "check_set_offset h d index new_val =
     (case vdfs2_get_offset_addr h index of
        Ok p \<Rightarrow> (if is_offset_correct h (new_val mod 2 ^ 32) then Ok (wr 4 d p new_val) else fault h)
      | Err e \<Rightarrow> fault h
      | Bug \<Rightarrow> Bug)"

section \<open>Filling a node\<close>

definition is_node_full :: "u8 list \<Rightarrow> u8 list \<Rightarrow> bool" where
  "is_node_full d gen_key \<longleftrightarrow> descr_free_space d < record_len gen_key + OFF_SIZE"

definition init_new_node_descr :: "node_host \<Rightarrow> u8 list \<Rightarrow> nat \<Rightarrow> nat \<Rightarrow> u8 list result" where
  "init_new_node_descr h d node_id type =
     (let d1 = wr 2 d 0 0x644E;
          d2 = set_free_space (sub32 (node_size_bytes h) (DESCR_SIZE + OFF_SIZE + VDFS2_BNODE_FIRST_OFFSET)) d1;
          d3 = set_next 0 (set_node_id node_id (set_type type (set_recs_count 0 d2)));
          d4 = set_prev 0 d3 in
      case check_set_offset h d4 0 DESCR_SIZE of Ok d5 \<Rightarrow> Ok d5 | Err e \<Rightarrow> Bug | Bug \<Rightarrow> Bug)"

text \<open>
  \<^verbatim>\<open>__place_into_node\<close>: the position of the new record and the node. \<open>new_key\<close> is the
  memory the key pointer points to. With \<open>place_only_key\<close> the space behind the key is left
  as it was.
\<close>

definition place_into_node ::
  "node_host \<Rightarrow> u8 list \<Rightarrow> u8 list \<Rightarrow> nat \<Rightarrow> nat \<Rightarrow> bool \<Rightarrow> (nat \<times> u8 list) result" where
  "place_into_node h d new_key new_rec_len insert_pos place_only_key =
     (let data_len = (if place_only_key then key_len new_key else new_rec_len mod 2 ^ 16);
          free_space = descr_free_space d;
          recs_count = descr_recs_count d in
      if free_space < new_rec_len + OFF_SIZE then Bug
      else
        and_then (vdfs2_get_offset_addr h recs_count) (\<lambda>offset.
          let new_record = rd 4 d offset in
          if \<not> is_offset_correct h new_record then Err EFAULT
          else if length new_key < data_len \<or> length d < new_record + data_len \<or>
              length d < new_record + GEN_KEY_SIZE then Bug
          else
            (let d1 = wr 4 (put d new_record (take data_len new_key)) (new_record + 8) new_rec_len;
                 d2 = (if insert_pos < recs_count
                       then memmove d1 offset (offset + OFF_SIZE) ((recs_count - insert_pos) * OFF_SIZE) else d1) in
             and_then (check_set_offset h d2 insert_pos new_record) (\<lambda>d3.
               let d4 = set_free_space (free_space - (new_rec_len + OFF_SIZE)) (set_recs_count (recs_count + 1) d3) in
               and_then (check_set_offset h d4 ((recs_count + 1) mod 2 ^ 16) (new_record + new_rec_len)) (\<lambda>d5.
                 Ok (new_record, d5))))))"

definition append_bnode :: "node_host \<Rightarrow> u8 list \<Rightarrow> u8 list \<Rightarrow> u8 list result" where
  "append_bnode h d append_record =
     and_then (place_into_node h d append_record (record_len append_record) (descr_recs_count d) False)
       (\<lambda>(p, d'). Ok d')"

text \<open>The address of the value in a record; the caller's error is EINVAL.\<close>

definition get_value_pointer :: "u8 list \<Rightarrow> nat \<Rightarrow> nat result" where
  "get_value_pointer d p =
     (if VDFS2_MAX_BTREE_KEY_LEN < rd 4 d (p + 4) then Err EINVAL else Ok (p + rd 4 d (p + 4)))"

definition insert_key_into_bnode ::
  "node_host \<Rightarrow> u8 list \<Rightarrow> u8 list \<Rightarrow> nat \<Rightarrow> nat \<Rightarrow> (nat \<times> u8 list) result" where
  "insert_key_into_bnode h d new_key new_rec_len insert_pos =
     place_into_node h d new_key new_rec_len insert_pos True"

text \<open>\<^verbatim>\<open>insert_into_node\<close>, the older way of adding a whole record.\<close>

definition insert_into_node :: "node_host \<Rightarrow> u8 list \<Rightarrow> u8 list \<Rightarrow> nat \<Rightarrow> u8 list result" where
  "insert_into_node h d new_record insert_pos =
     (let recs_count = descr_recs_count d; len = record_len new_record in
      if descr_free_space d < len then Bug
      else
        and_then (vdfs2_get_offset_addr h recs_count) (\<lambda>offset.
          let free_space = rd 4 d offset in
          if \<not> is_offset_correct h free_space then Err EFAULT
          else if length new_record < len \<or> length d < free_space + len then Bug
          else
            (let d1 = put d free_space (take len new_record);
                 d2 = (if insert_pos < recs_count
                       then memmove d1 offset (offset + OFF_SIZE) ((recs_count - insert_pos) * OFF_SIZE) else d1) in
             and_then (check_set_offset h d2 insert_pos free_space) (\<lambda>d3.
               if descr_free_space d3 < OFF_SIZE then Bug
               else
                 (let d4 = set_recs_count (recs_count + 1) d3;
                      d5 = set_free_space (sub32 (descr_free_space d4) (len + OFF_SIZE)) d4 in
                  check_set_offset h d5 ((recs_count + 1) mod 2 ^ 16) (free_space + len))))))"

text \<open>The index record for a node: the node's first key and the node's number.\<close>

definition form_new_adding_record :: "node_host \<Rightarrow> u8 list \<Rightarrow> nat \<Rightarrow> u8 list result" where
  "form_new_adding_record h d node_id =
     (case get_record h d 0 of
        Ok p \<Rightarrow>
          (let len = rd 4 d (p + 4) in
           if max_record_len h < rd 4 d (p + 8) then Bug
           else if max_record_len h < len + INDEX_VALUE_SIZE \<or> length d < p + len \<or> len < GEN_KEY_SIZE then Bug
           else
             (let r1 = put (replicate (max_record_len h) 0) 0 (rng d p len);
                  r2 = wr 4 r1 8 (len + INDEX_VALUE_SIZE) in
              Ok (wr 4 r2 len node_id)))
      | _ \<Rightarrow> Bug)"

section \<open>Deleting a record\<close>

text \<open>The first loop: offsets behind the deleted record move down by its length.\<close>

fun lower_offsets :: "node_host \<Rightarrow> u8 list \<Rightarrow> nat \<Rightarrow> nat \<Rightarrow> nat \<Rightarrow> nat \<Rightarrow> u8 list result" where
  "lower_offsets h d del_offset rec_len i 0 = Ok d"
| "lower_offsets h d del_offset rec_len i (Suc n) =
     and_then (vdfs2_get_offset h d i) (\<lambda>cur_offs.
       if del_offset < cur_offs then
         and_then (check_set_offset h d i (sub32 cur_offs rec_len)) (\<lambda>d'.
           lower_offsets h d' del_offset rec_len (i + 1) n)
       else lower_offsets h d del_offset rec_len (i + 1) n)"

text \<open>The second loop: the entries behind the deleted one move up.\<close>

fun shift_offsets :: "node_host \<Rightarrow> u8 list \<Rightarrow> nat \<Rightarrow> nat \<Rightarrow> u8 list result" where
  "shift_offsets h d i 0 = Ok d"
| "shift_offsets h d i (Suc n) =
     and_then (vdfs2_get_offset h d (i + 1)) (\<lambda>next_offset.
       and_then (check_set_offset h d i next_offset) (\<lambda>d'. shift_offsets h d' (i + 1) n))"

definition delete_from_node :: "node_host \<Rightarrow> u8 list \<Rightarrow> nat \<Rightarrow> u8 list result" where
  "delete_from_node h d del_index =
     (case get_record h d del_index of
        Bug \<Rightarrow> Bug
      | Err e \<Rightarrow> fault h
      | Ok del_key \<Rightarrow>
          (let recs_count = descr_recs_count d; rec_len = rd 4 d (del_key + 8) in
           and_then (vdfs2_get_offset h d recs_count) (\<lambda>free_space_offset.
           and_then (vdfs2_get_offset h d del_index) (\<lambda>del_offset.
             if \<not> is_offset_correct h free_space_offset \<or> \<not> is_offset_correct h del_offset then fault h
             else if VDFS2_MAX_BTREE_REC_LEN < rec_len then fault h
             else
               (let n = sub32 (sub32 free_space_offset del_offset) rec_len in
                if length d < del_key + rec_len + n then Bug
                else
                  and_then (lower_offsets h (memmove d del_key (del_key + rec_len) n) del_offset rec_len 0 recs_count) (\<lambda>d2.
                  and_then (shift_offsets h d2 del_index (recs_count - del_index)) (\<lambda>d3.
                    let d4 = set_recs_count (recs_count + 2 ^ 16 - 1) d3;
                        d5 = set_free_space (descr_free_space d4 + rec_len + OFF_SIZE) d4 in
                    check_set_offset h d5 (descr_recs_count d5) (sub32 free_space_offset rec_len))))))))"

section \<open>Searching a key\<close>

text \<open>
  \<^verbatim>\<open>comp_fn\<close> gets a pointer to the record, so the search passes the bytes from the record's
  position on. The position is an integer because the code sets it to -1 on an error; the
  fuel of the loop is the number of records, which the interval cannot exceed.
\<close>

fun search_loop ::
  "(u8 list \<Rightarrow> u8 list \<Rightarrow> int) \<Rightarrow> node_host \<Rightarrow> u8 list \<Rightarrow> u8 list \<Rightarrow> nat \<Rightarrow> nat \<Rightarrow> nat \<Rightarrow> nat \<Rightarrow> (int \<times> nat) result" where
  "search_loop comp_fn h d key 0 first last_pos first_record = Bug"
| "search_loop comp_fn h d key (Suc fuel) first last_pos first_record =
     (if first + 1 < last_pos then
        (let mid = first + (last_pos + 1 - first) div 2 in
         and_then (get_record h d mid) (\<lambda>record.
           let cmp_res = comp_fn (drop record d) key in
           if cmp_res = 0 then Ok (int mid, record)
           else if cmp_res < 0 then search_loop comp_fn h d key fuel mid last_pos record
           else search_loop comp_fn h d key fuel first mid first_record))
      else Ok (int first, first_record))"

definition binary_search ::
  "(u8 list \<Rightarrow> u8 list \<Rightarrow> int) \<Rightarrow> node_host \<Rightarrow> u8 list \<Rightarrow> u8 list \<Rightarrow> (int \<times> nat) result" where
  "binary_search comp_fn h d key =
     (let last_pos = int (descr_recs_count d) - 1 in
      and_then (get_record h d 0) (\<lambda>first_record.
        let cmp_res = comp_fn (drop first_record d) key in
        if 0 < cmp_res then Err ENOENT
        else if cmp_res = 0 \<or> last_pos = 0 then Ok (0, first_record)
        else if last_pos < 0 then Err EINVAL
        else
          and_then (get_record h d (nat last_pos)) (\<lambda>record.
            if comp_fn (drop record d) key \<le> 0 then Ok (last_pos, record)
            else search_loop comp_fn h d key (descr_recs_count d) 0 (nat last_pos) first_record)))"

end
