(* ===== verification/Btree_Node_Inv.thy ===== *)
theory Btree_Node_Inv
  imports Btree_Node
begin

text \<open>
  The contents of a well-formed node is the list of its records in the order of the offset
  table. Adding a record to the node inserts it into the list, deleting one removes it from
  the list, and the counters of records and of free space stay exact.
\<close>

lemmas node_sizes = VDFS2_BNODE_FIRST_OFFSET_def DESCR_SIZE_def OFF_SIZE_def GEN_KEY_SIZE_def INDEX_VALUE_SIZE_def

definition slot :: "node_host \<Rightarrow> nat \<Rightarrow> nat" where
  "slot h i = node_size_bytes h - 8 - 4 * i"

definition off :: "node_host \<Rightarrow> u8 list \<Rightarrow> nat \<Rightarrow> nat" where
  "off h d i = rd 4 d (slot h i)"

text \<open>The end of the records, and the place of a record.\<close>

definition recs_end :: "u8 list list \<Rightarrow> nat" where
  "recs_end rs = 29 + sum_list (map length rs)"

definition record_ok :: "u8 list \<Rightarrow> bool" where
  "record_ok r \<longleftrightarrow> 12 \<le> length r \<and> record_len r = length r"

definition node_ok :: "node_host \<Rightarrow> u8 list \<Rightarrow> u8 list list \<Rightarrow> bool" where
  "node_ok h d rs \<longleftrightarrow>
     length d = node_size_bytes h \<and> node_size_bytes h < 2 ^ 16 \<and>
     recs_end rs + 4 * length rs + 8 \<le> node_size_bytes h \<and>
     descr_recs_count d = length rs \<and>
     descr_free_space d = node_size_bytes h - 8 - 4 * length rs - recs_end rs \<and>
     off h d (length rs) = recs_end rs \<and>
     (\<forall>i < length rs. record_ok (rs ! i) \<and> 29 \<le> off h d i \<and> off h d i + length (rs ! i) \<le> recs_end rs \<and>
        rng d (off h d i) (length (rs ! i)) = rs ! i) \<and>
     (\<forall>i < length rs. \<forall>j < length rs. i \<noteq> j \<longrightarrow>
        off h d i + length (rs ! i) \<le> off h d j \<or> off h d j + length (rs ! j) \<le> off h d i)"

section \<open>Reading and writing the table\<close>

lemma slot_bounds:
  assumes "8 + 4 * i \<le> node_size_bytes h"
  shows "slot h i + 4 \<le> node_size_bytes h" "slot h i + (8 + 4 * i) = node_size_bytes h"
  using assms by (simp_all add: slot_def)

lemma offset_addr_ok:
  "8 + 4 * i \<le> node_size_bytes h \<Longrightarrow> vdfs2_get_offset_addr h i = Ok (slot h i)"
  by (simp add: vdfs2_get_offset_addr_def slot_def node_sizes)

lemma get_offset_ok: "8 + 4 * i \<le> node_size_bytes h \<Longrightarrow> vdfs2_get_offset h d i = Ok (off h d i)"
  by (simp add: vdfs2_get_offset_def offset_addr_ok off_def)

lemma set_offset_ok:
  "8 + 4 * i \<le> node_size_bytes h \<Longrightarrow> v \<noteq> 0 \<Longrightarrow> v < node_size_bytes h \<Longrightarrow> node_size_bytes h < 2 ^ 16 \<Longrightarrow>
   check_set_offset h d i v = Ok (wr 4 d (slot h i) v)"
  by (simp add: check_set_offset_def offset_addr_ok is_offset_correct_def)

lemma off_wr_slot:
  assumes "length d = node_size_bytes h" "8 + 4 * i \<le> node_size_bytes h" "8 + 4 * j \<le> node_size_bytes h" "v < 2 ^ 16"
  shows "off h (wr 4 d (slot h i) v) j = (if i = j then v else off h d j)"
proof (cases "i = j")
  case True
  then show ?thesis using assms slot_bounds [OF assms(2)] by (simp add: off_def rd_wr_same)
next
  case False
  then have "slot h j + 4 \<le> slot h i \<or> slot h i + 4 \<le> slot h j"
    using slot_bounds(2) [OF assms(2)] slot_bounds(2) [OF assms(3)] by linarith
  then show ?thesis using False assms slot_bounds(1) [OF assms(2)] slot_bounds(1) [OF assms(3)]
    by (simp add: off_def rd_wr_other)
qed

lemma off_put_low:
  assumes "p + length bs \<le> slot h j" "8 + 4 * j \<le> node_size_bytes h" "length d = node_size_bytes h"
  shows "off h (put d p bs) j = off h d j"
  using assms slot_bounds [OF assms(2)] by (simp add: off_def rd_put_other)

lemma off_wr_low:
  assumes "p + w \<le> slot h j" "8 + 4 * j \<le> node_size_bytes h" "length d = node_size_bytes h"
  shows "off h (wr w d p v) j = off h d j"
  using off_put_low [of p "le_bytes w v" h j d] assms by (simp add: wr_def)

text \<open>Making room for an entry of the table.\<close>

lemma off_open:
  assumes len: "length d = node_size_bytes h" and n: "8 + 4 * n \<le> node_size_bytes h" and pos: "pos < n"
    and j: "8 + 4 * j \<le> node_size_bytes h"
  defines "e \<equiv> memmove d (slot h n) (slot h n + 4) ((n - pos) * 4)"
  shows "length e = length d"
    "off h e j = (if pos < j \<and> j \<le> n then off h d (j - 1) else off h d j)"
    "q + m \<le> slot h n \<Longrightarrow> rng e q m = rng d q m"
proof -
  note sn = slot_bounds [OF n]
  note sj = slot_bounds [OF j]
  have sz: "slot h n + 4 + (n - pos) * 4 \<le> length d" using sn pos len by (simp add: diff_mult_distrib)
  show "length e = length d" unfolding e_def using sz by simp
  show "rng e q m = rng d q m" if "q + m \<le> slot h n" unfolding e_def using sz that by (intro rng_memmove_other) auto
  show "off h e j = (if pos < j \<and> j \<le> n then off h d (j - 1) else off h d j)"
  proof (cases "pos < j \<and> j \<le> n")
    case True
    define k where "k = 4 * (n - j)"
    have k: "slot h j = slot h n + k" "slot h (j - 1) = slot h n + 4 + k" "k + 4 \<le> (n - pos) * 4"
      using True sn sj by (auto simp: k_def slot_def)
    have "off h e j = rd 4 d (slot h n + 4 + k)"
      unfolding e_def off_def k(1) using sz k(3) by (intro rd_memmove_dst) auto
    then show ?thesis using True k(2) by (simp add: off_def)
  next
    case False
    then have "slot h j + 4 \<le> slot h n \<or> slot h n + (n - pos) * 4 \<le> slot h j"
      using sn sj pos by (auto simp: slot_def diff_mult_distrib)
    then have "off h e j = off h d j"
      unfolding e_def off_def using sz sj len by (intro rd_memmove_other) auto
    then show ?thesis by (simp only: False if_False)
  qed
qed

lemma count_fields:
  assumes "16 \<le> length d" "n < 2 ^ 16" "f < 2 ^ 16"
  shows "rd 2 (wr 2 (wr 2 d 14 n) 12 f) 14 = n" "rd 2 (wr 2 (wr 2 d 14 n) 12 f) 12 = f"
  using assms by (simp_all add: rd_wr_same rd_wr_other)

section \<open>The records of a node\<close>

lemma node_okD:
  assumes "node_ok h d rs"
  shows "length d = node_size_bytes h" "node_size_bytes h < 2 ^ 16" "recs_end rs + 4 * length rs + 8 \<le> node_size_bytes h"
    "descr_recs_count d = length rs" "descr_free_space d = node_size_bytes h - 8 - 4 * length rs - recs_end rs"
    "off h d (length rs) = recs_end rs"
    "i < length rs \<Longrightarrow> record_ok (rs ! i)" "i < length rs \<Longrightarrow> 29 \<le> off h d i"
    "i < length rs \<Longrightarrow> off h d i + length (rs ! i) \<le> recs_end rs"
    "i < length rs \<Longrightarrow> rng d (off h d i) (length (rs ! i)) = rs ! i"
    "i < length rs \<Longrightarrow> j < length rs \<Longrightarrow> i \<noteq> j \<Longrightarrow>
      off h d i + length (rs ! i) \<le> off h d j \<or> off h d j + length (rs ! j) \<le> off h d i"
  using assms unfolding node_ok_def by blast+

lemma recs_end_ge: "29 \<le> recs_end rs"
  by (simp add: recs_end_def)

lemma node_slot:
  assumes "node_ok h d rs" "i \<le> length rs"
  shows "8 + 4 * i \<le> node_size_bytes h" "recs_end rs \<le> slot h i" "slot h i + 4 \<le> length d"
proof -
  note k = node_okD(1,3) [OF assms(1)]
  show i: "8 + 4 * i \<le> node_size_bytes h" using k assms(2) by linarith
  show "recs_end rs \<le> slot h i" using slot_bounds(2) [OF i] k assms(2) by linarith
  show "slot h i + 4 \<le> length d" using slot_bounds(1) [OF i] k by linarith
qed

lemma get_record_ok:
  assumes ok: "node_ok h d rs" and i: "i < length rs"
  shows "get_record h d i = Ok (off h d i)" "rng d (off h d i) (length (rs ! i)) = rs ! i"
    "rd 4 d (off h d i + 8) = length (rs ! i)" "rd 4 d (off h d i + 4) = key_len (rs ! i)"
    "off h d i + length (rs ! i) \<le> length d"
proof -
  note k = node_okD [OF ok]
  have l: "12 \<le> length (rs ! i)" "record_len (rs ! i) = length (rs ! i)" using k(7) [OF i] by (simp_all add: record_ok_def)
  have o: "off h d i < node_size_bytes h" "off h d i \<noteq> 0" using k(3) k(8) [OF i] k(9) [OF i] l by linarith+
  show "get_record h d i = Ok (off h d i)"
    using k(4) i o node_slot(1) [OF ok, of i] by (simp add: get_record_def get_offset_ok is_offset_correct_def)
  show r: "rng d (off h d i) (length (rs ! i)) = rs ! i" using k(10) [OF i] .
  show b: "off h d i + length (rs ! i) \<le> length d" using k(1,3) k(9) [OF i] by linarith
  have "rd 4 (rs ! i) 8 = rd 4 d (off h d i + 8)" "rd 4 (rs ! i) 4 = rd 4 d (off h d i + 4)"
    using rd_rng [of 8 4 "length (rs ! i)" "off h d i" d] rd_rng [of 4 4 "length (rs ! i)" "off h d i" d] l b r by simp_all
  then show "rd 4 d (off h d i + 8) = length (rs ! i)" "rd 4 d (off h d i + 4) = key_len (rs ! i)"
    using l(2) by (simp_all add: record_len_def key_len_def)
qed

text \<open>Beyond the last record the function hands out the free space instead of an error.\<close>

lemma get_record_at_end:
  assumes ok: "node_ok h d rs"
  shows "get_record h d (length rs) = Ok (recs_end rs)"
proof -
  note k = node_okD [OF ok]
  have "recs_end rs < node_size_bytes h" "recs_end rs \<noteq> 0" using k(3) recs_end_ge [of rs] by linarith+
  then show ?thesis
    using k(4,6) node_slot(1) [OF ok, of "length rs"] by (simp add: get_record_def get_offset_ok is_offset_correct_def)
qed

lemma get_record_beyond: "node_ok h d rs \<Longrightarrow> length rs < i \<Longrightarrow> get_record h d i = Err EINVAL"
  by (simp add: get_record_def node_okD(4))

section \<open>An empty node\<close>

lemma init_node_ok:
  assumes len: "length d = node_size_bytes h" "37 \<le> node_size_bytes h" "node_size_bytes h < 2 ^ 16"
  shows "\<exists>d'. init_new_node_descr h d nid ty = Ok d' \<and> node_ok h d' [] \<and> descr_node_id d' = nid mod 2 ^ 32 \<and>
    descr_type d' = ty mod 256 \<and> descr_prev d' = 0 \<and> descr_next d' = 0"
proof -
  let ?N = "node_size_bytes h"
  define d4 where "d4 = wr 4 (wr 4 (wr 4 (wr 1 (wr 2 (wr 2 (wr 2 d 0 0x644E) 12 (?N - 37)) 14 0) 28 ty) 16 nid) 24 0) 20 0"
  have l: "length d4 = ?N" using len by (simp add: d4_def)
  have s: "8 + 4 * 0 \<le> ?N" "slot h 0 = ?N - 8" using len by (simp_all add: slot_def)
  have sub: "sub32 ?N 37 = ?N - 37" using len by (intro sub32_eq) auto
  have run: "init_new_node_descr h d nid ty = Ok (wr 4 d4 (slot h 0) 29)"
    using len s set_offset_ok [of 0 h 29 d4] sub
    by (simp add: init_new_node_descr_def Let_def node_sizes set_free_space_def set_next_def set_node_id_def
        set_type_def set_recs_count_def set_prev_def d4_def)
  let ?d = "wr 4 d4 (slot h 0) 29"
  have r: "rd 2 ?d 12 = ?N - 37" "rd 2 ?d 14 = 0" "rd 4 ?d 16 = nid mod 2 ^ 32" "rd 4 ?d 20 = 0" "rd 4 ?d 24 = 0"
    "rd 1 ?d 28 = ty mod 256"
  proof -
    have low: "rd w ?d q = rd w d4 q" if "q + w \<le> 29" for q w
      using that len s l by (intro rd_wr_other) auto
    show "rd 2 ?d 12 = ?N - 37" "rd 2 ?d 14 = 0" "rd 4 ?d 16 = nid mod 2 ^ 32" "rd 4 ?d 20 = 0" "rd 4 ?d 24 = 0"
      "rd 1 ?d 28 = ty mod 256"
      using len by (simp_all add: low, simp_all add: rd_wr_same rd_wr_other d4_def)
  qed
  have "off h ?d 0 = 29" using off_wr_slot [of d4 h 0 0 29] l s by simp
  then have "node_ok h ?d []"
    using len l r s by (simp add: node_ok_def recs_end_def descr_recs_count_def descr_free_space_def)
  with run r show ?thesis by (simp add: descr_node_id_def descr_type_def descr_prev_def descr_next_def)
qed

section \<open>Placing a record\<close>

lemma nth_insert_at:
  "pos \<le> length xs \<Longrightarrow> i \<le> length xs \<Longrightarrow>
   insert_at pos x xs ! i = (if i < pos then xs ! i else if i = pos then x else xs ! (i - 1))"
proof -
  assume a: "pos \<le> length xs" "i \<le> length xs"
  have "pos + (i - pos - 1) = i - 1" if "pos < i" using that by simp
  with a show ?thesis by (auto simp: insert_at_def nth_append min_def nth_Cons')
qed

lemma recs_end_insert_at [simp]: "recs_end (insert_at pos r rs) = recs_end rs + length r"
proof -
  have "sum_list (map length rs) = sum_list (map length (take pos rs)) + sum_list (map length (drop pos rs))"
    by (metis append_take_drop_id map_append sum_list_append)
  then show ?thesis by (simp add: recs_end_def insert_at_def)
qed

text \<open>The bytes of the new record: the copied key with the length filled in, then what was there.\<close>

lemma placed_bytes:
  assumes "F + len \<le> length d" "12 \<le> m" "m \<le> len" "m \<le> length key"
  defines "e \<equiv> wr 4 (put d F (take m key)) (F + 8) len"
  shows "length e = length d" "rng e F m = wr 4 (take m key) 8 len"
    "q + k \<le> length d \<Longrightarrow> q + k \<le> F \<or> F + m \<le> q \<Longrightarrow> rng e q k = rng d q k"
    "rd 4 e (F + 8) = len mod 2 ^ 32"
proof -
  have p: "length (put d F (take m key)) = length d" using assms(1,3,4) by simp
  show l: "length e = length d" using assms p by (simp add: e_def)
  show "rng e F m = wr 4 (take m key) 8 len"
  proof (rule nth_equalityI)
    show "length (rng e F m) = length (wr 4 (take m key) 8 len)" using assms l by simp
    fix i assume "i < length (rng e F m)"
    then have i: "i < m" using assms l by simp
    have "e ! (F + i) = (if F + 8 \<le> F + i \<and> F + i < F + 12 then le_bytes 4 len ! (i - 8) else take m key ! i)"
      unfolding e_def wr_def using assms i p by (simp add: nth_put)
    moreover have "wr 4 (take m key) 8 len ! i = (if 8 \<le> i \<and> i < 12 then le_bytes 4 len ! (i - 8) else take m key ! i)"
      unfolding wr_def using assms i by (simp add: nth_put)
    ultimately show "rng e F m ! i = wr 4 (take m key) 8 len ! i" using i assms l by simp
  qed
  show "rng e q k = rng d q k" if "q + k \<le> length d" "q + k \<le> F \<or> F + m \<le> q"
  proof -
    have "rng e q k = rng (put d F (take m key)) q k"
      unfolding e_def using that assms(1-4) p by (intro rng_wr_other) auto
    also have "\<dots> = rng d q k" using that assms(1,3,4) by (intro rng_put_other) auto
    finally show ?thesis .
  qed
  show "rd 4 e (F + 8) = len mod 2 ^ 32" unfolding e_def using assms p by (simp add: rd_wr_same)
qed

text \<open>The table after an entry for position \<open>F\<close> was put in at \<open>pos\<close>.\<close>

definition opened :: "node_host \<Rightarrow> u8 list \<Rightarrow> nat \<Rightarrow> nat \<Rightarrow> u8 list" where
  "opened h d n pos = (if pos < n then memmove d (slot h n) (slot h n + 4) ((n - pos) * 4) else d)"

lemma opened_ok:
  assumes "length d = node_size_bytes h" "8 + 4 * n \<le> node_size_bytes h" "pos \<le> n"
  shows "length (opened h d n pos) = length d"
    "8 + 4 * j \<le> node_size_bytes h \<Longrightarrow>
      off h (opened h d n pos) j = (if pos < j \<and> j \<le> n then off h d (j - 1) else off h d j)"
    "q + m \<le> slot h n \<Longrightarrow> rng (opened h d n pos) q m = rng d q m"
  using off_open [OF assms(1,2), of pos] assms(2,3) unfolding opened_def by (auto split: if_splits)

lemma place_into_node_ok:
  assumes ok: "node_ok h d rs" and pos: "pos \<le> length rs"
    and room: "len + 4 \<le> descr_free_space d"
    and m: "m = (if only_key then key_len key else len mod 2 ^ 16)" "12 \<le> m" "m \<le> len" "m \<le> length key"
  shows "\<exists>d' r. place_into_node h d key len pos only_key = Ok (recs_end rs, d') \<and>
    node_ok h d' (insert_at pos r rs) \<and> length r = len \<and> take m r = wr 4 (take m key) 8 len \<and>
    rng d' 16 13 = rng d 16 13 \<and> rng d' (recs_end rs) len = r \<and> off h d' pos = recs_end rs \<and>
    (\<forall>i < pos. off h d' i = off h d i)"
proof -
  let ?N = "node_size_bytes h" and ?n = "length rs" and ?F = "recs_end rs"
  note k = node_okD [OF ok]
  have room': "?F + len + 4 * ?n + 12 \<le> ?N" using room k(3,5) by linarith
  have sn: "8 + 4 * ?n \<le> ?N" "8 + 4 * (?n + 1) \<le> ?N" "8 + 4 * pos \<le> ?N" using room' pos by simp_all
  have s1: "?F + len \<le> slot h (?n + 1)" "slot h (?n + 1) + 4 = slot h ?n" "slot h (?n + 1) + 4 \<le> ?N"
    using room' by (simp_all add: slot_def)
  define d1 where "d1 = wr 4 (put d ?F (take m key)) (?F + 8) len"
  have Fd: "?F + len \<le> length d" using room' k(1) by simp
  note b = placed_bytes [OF Fd m(2-4), folded d1_def]
  define d2 where "d2 = opened h d1 ?n pos"
  have l1: "length d1 = ?N" using b(1) k(1) by simp
  note o = opened_ok [OF l1 sn(1) pos, folded d2_def]
  define d3 where "d3 = wr 4 d2 (slot h pos) ?F"
  define d4 where "d4 = wr 2 (wr 2 d3 14 (?n + 1)) 12 (descr_free_space d - (len + 4))"
  define d5 where "d5 = wr 4 d4 (slot h (?n + 1)) (?F + len)"
  have l: "length d2 = ?N" "length d3 = ?N" "length d4 = ?N" "length d5 = ?N"
  proof -
    show 2: "length d2 = ?N" using o(1) l1 by simp
    show 3: "length d3 = ?N" unfolding d3_def using 2 slot_bounds(1) [OF sn(3)] by simp
    have "41 \<le> ?N" using room' recs_end_ge [of rs] by linarith
    then show 4: "length d4 = ?N" unfolding d4_def using 3 by simp
    show "length d5 = ?N" unfolding d5_def using 4 s1(3) by simp
  qed
  have F: "?F \<noteq> 0" "?F < ?N" "?F + len \<noteq> 0" "?F + len < ?N" "?n + 1 < 2 ^ 16" "?F < 2 ^ 16" "?F + len < 2 ^ 16"
    using recs_end_ge [of rs] room' k(2) by simp_all
  have run: "place_into_node h d key len pos only_key = Ok (?F, d5)"
  proof -
    have a: "vdfs2_get_offset_addr h ?n = Ok (slot h ?n)" "rd 4 d (slot h ?n) = ?F"
      using k(6) offset_addr_ok [OF sn(1)] by (simp_all add: off_def)
    have "check_set_offset h d2 pos ?F = Ok d3"
      unfolding d3_def using sn(3) F(1,2) k(2) by (rule set_offset_ok)
    moreover have "check_set_offset h d4 ((?n + 1) mod 2 ^ 16) (?F + len) = Ok d5"
      unfolding d5_def using sn(2) F(3-5) k(2) by (simp add: set_offset_ok)
    moreover have "(if pos < ?n then memmove d1 (slot h ?n) (slot h ?n + 4) ((?n - pos) * 4) else d1) = d2"
      by (simp add: d2_def opened_def)
    moreover have "\<not> descr_free_space d < len + 4" "\<not> (length key < m \<or> length d < ?F + m \<or> length d < ?F + 12)"
      "is_offset_correct h ?F"
      using room m Fd F(1,2) by (auto simp: is_offset_correct_def)
    ultimately show ?thesis
      unfolding place_into_node_def Let_def m(1) [symmetric] k(4) a OFF_SIZE_def GEN_KEY_SIZE_def
        set_free_space_def set_recs_count_def and_then.simps
      by (simp only: d1_def [symmetric] d4_def [symmetric] if_False not_not and_then.simps simp_thms)
  qed
  have of5: "off h d5 i = (if i < pos then off h d i else if i = pos then ?F
      else if i \<le> ?n then off h d (i - 1) else ?F + len)" if i: "i \<le> ?n + 1" for i
  proof -
    have si: "8 + 4 * i \<le> ?N" using i sn(2) by simp
    have low: "29 \<le> slot h i" using s1(1) recs_end_ge [of rs] i by (simp add: slot_def)
    have "off h d5 i = (if ?n + 1 = i then ?F + len else off h d4 i)"
      unfolding d5_def using l(3) sn(2) si F(7) by (rule off_wr_slot)
    moreover have "off h d4 i = off h d3 i"
      unfolding d4_def using low si l(2) slot_bounds(1) [OF si] by (simp add: off_wr_low)
    moreover have "off h d3 i = (if pos = i then ?F else off h d2 i)"
      unfolding d3_def using l(1) sn(3) si F(6) by (rule off_wr_slot)
    moreover have "off h d2 i = (if pos < i \<and> i \<le> ?n then off h d1 (i - 1) else off h d1 i)" by (rule o(2) [OF si])
    moreover have "off h d1 j = off h d j" if "j \<le> ?n" for j
    proof -
      have sj: "8 + 4 * j \<le> ?N" "?F + len \<le> slot h j" using that sn(1) s1(1) by (auto simp: slot_def)
      have "rng d1 (slot h j) 4 = rng d (slot h j) 4"
        using sj slot_bounds(1) [OF sj(1)] k(1) m(3) by (intro b(3)) auto
      then show ?thesis by (simp add: off_def rd_def)
    qed
    ultimately show ?thesis using i pos by auto
  qed
  have rg: "rng d5 q j = rng d1 q j" if "16 \<le> q" "q + j \<le> slot h (?n + 1)" for q j
  proof -
    have "rng d5 q j = rng d4 q j" unfolding d5_def using that l s1 by (intro rng_wr_other) auto
    also have "\<dots> = rng d3 q j" unfolding d4_def using that l s1 by (simp add: rng_wr_other)
    also have "\<dots> = rng d2 q j"
      unfolding d3_def using that l pos slot_bounds [OF sn(3)] by (intro rng_wr_other) (auto simp: slot_def)
    also have "\<dots> = rng d1 q j" using that s1(2) by (intro o(3)) simp
    finally show ?thesis .
  qed
  define r where "r = rng d1 ?F len"
  have r: "length r = len" "rng d5 ?F len = r" using rg [of ?F len] recs_end_ge [of rs] s1(1) Fd b(1) by (simp_all add: r_def)
  have rok: "record_ok r"
  proof -
    have "record_len r = rd 4 d1 (?F + 8)" unfolding record_len_def r_def using m Fd b(1) by (intro rd_rng) auto
    then show ?thesis using b(4) F(7) m r(1) by (simp add: record_ok_def)
  qed
  have tr: "take m r = wr 4 (take m key) 8 len"
    using b(2) m(3) by (simp add: r_def rng_def min_def)
  have old: "rng d5 (off h d i) (length (rs ! i)) = rs ! i" if i: "i < ?n" for i
  proof -
    have "rng d5 (off h d i) (length (rs ! i)) = rng d1 (off h d i) (length (rs ! i))"
      using k(8) [OF i] k(9) [OF i] s1(1) by (intro rg) auto
    also have "\<dots> = rng d (off h d i) (length (rs ! i))"
      using k(9) [OF i] Fd by (intro b(3)) auto
    finally show ?thesis using k(10) [OF i] by simp
  qed
  have hd: "descr_recs_count d5 = ?n + 1" "descr_free_space d5 = descr_free_space d - (len + 4)"
  proof -
    have "rd 2 d5 q = rd 2 d4 q" if "q + 2 \<le> 16" for q
      unfolding d5_def using that l s1 recs_end_ge [of rs] by (intro rd_wr_other) auto
    moreover have "rd 2 d4 14 = ?n + 1" "rd 2 d4 12 = descr_free_space d - (len + 4)"
      unfolding d4_def using l(2) room' F(5) k(2,5) recs_end_ge [of rs] by (simp_all add: count_fields)
    ultimately show "descr_recs_count d5 = ?n + 1" "descr_free_space d5 = descr_free_space d - (len + 4)"
      by (simp_all add: descr_recs_count_def descr_free_space_def)
  qed
  have "rng d5 16 13 = rng d 16 13"
    using rg [of 16 13] b(3) [of 16 13] s1(1) recs_end_ge [of rs] Fd by simp
  moreover have "node_ok h d5 (insert_at pos r rs)"
    unfolding node_ok_def
  proof (intro conjI allI impI)
    let ?rs = "insert_at pos r rs"
    have at: "off h d5 i = (if i < pos then off h d i else if i = pos then ?F else off h d (i - 1)) \<and>
        ?rs ! i = (if i < pos then rs ! i else if i = pos then r else rs ! (i - 1))" if "i < length ?rs" for i
      using of5 [of i] nth_insert_at [of pos rs i r] pos that by auto
    show "length d5 = ?N" "?N < 2 ^ 16" "recs_end ?rs + 4 * length ?rs + 8 \<le> ?N" "descr_recs_count d5 = length ?rs"
      "descr_free_space d5 = ?N - 8 - 4 * length ?rs - recs_end ?rs" "off h d5 (length ?rs) = recs_end ?rs"
      using l(4) k(2,5) room' r(1) hd of5 [of "?n + 1"] pos by simp_all
    fix i assume i: "i < length ?rs"
    consider "i < pos" | "i = pos" | "pos < i" "i - 1 < ?n" using i by force
    then show "record_ok (?rs ! i)" "29 \<le> off h d5 i" "off h d5 i + length (?rs ! i) \<le> recs_end ?rs"
        "rng d5 (off h d5 i) (length (?rs ! i)) = ?rs ! i"
      using at [OF i] rok r recs_end_ge [of rs] pos k(7-9) [of i] k(7-9) [of "i - 1"] old [of i] old [of "i - 1"]
      by (cases; simp)+
    fix j assume j: "j < length ?rs" and ij: "i \<noteq> j"
    show "off h d5 i + length (?rs ! i) \<le> off h d5 j \<or> off h d5 j + length (?rs ! j) \<le> off h d5 i"
      using at [OF i] at [OF j] ij pos r(1) i j k(9) [of i] k(9) [of "i - 1"] k(9) [of j] k(9) [of "j - 1"]
        k(11) [of i j] k(11) [of "i - 1" j] k(11) [of i "j - 1"] k(11) [of "i - 1" "j - 1"]
      by (auto split: if_splits)
  qed
  moreover have "\<forall>i < pos. off h d5 i = off h d i" using of5 pos by simp
  ultimately show ?thesis using run r tr of5 [of pos] pos by auto
qed

section \<open>Deleting a record\<close>

lemma nth_remove_at:
  "i < length xs \<Longrightarrow> j < length xs - 1 \<Longrightarrow> remove_at i xs ! j = (if j < i then xs ! j else xs ! (j + 1))"
  by (auto simp: remove_at_def nth_append min_def)

lemma recs_end_remove_at:
  assumes "i < length rs"
  shows "recs_end rs = recs_end (remove_at i rs) + length (rs ! i)"
proof -
  have "rs = take i rs @ rs ! i # drop (Suc i) rs" using assms by (rule id_take_nth_drop)
  then have "sum_list (map length rs) = sum_list (map length (take i rs)) + (length (rs ! i) + sum_list (map length (drop (Suc i) rs)))"
    by (metis map_append list.simps(9) sum_list_append sum_list.Cons)
  then show ?thesis by (simp add: recs_end_def remove_at_def)
qed

lemma lower_offsets_ok:
  assumes "length d = node_size_bytes h" "node_size_bytes h < 2 ^ 16" "n = 0 \<or> 4 + 4 * (i + n) \<le> node_size_bytes h"
    and "\<forall>j. i \<le> j \<longrightarrow> j < i + n \<longrightarrow> D < off h d j \<longrightarrow> L < off h d j \<and> off h d j < node_size_bytes h"
  shows "\<exists>d'. lower_offsets h d D L i n = Ok d' \<and> length d' = node_size_bytes h \<and>
    (\<forall>j. 8 + 4 * j \<le> node_size_bytes h \<longrightarrow>
       off h d' j = (if i \<le> j \<and> j < i + n \<and> D < off h d j then off h d j - L else off h d j)) \<and>
    (\<forall>q m. (\<forall>j. i \<le> j \<longrightarrow> j < i + n \<longrightarrow> q + m \<le> slot h j) \<longrightarrow> rng d' q m = rng d q m)"
  using assms
proof (induction n arbitrary: d i)
  case 0
  then show ?case by simp
next
  case (Suc n)
  let ?N = "node_size_bytes h"
  have si: "8 + 4 * i \<le> ?N" using Suc.prems(3) by simp
  have nx: "n = 0 \<or> 4 + 4 * (i + 1 + n) \<le> ?N" using Suc.prems(3) by simp
  show ?case
  proof (cases "D < off h d i")
    case False
    have "\<forall>j. i + 1 \<le> j \<longrightarrow> j < i + 1 + n \<longrightarrow> D < off h d j \<longrightarrow> L < off h d j \<and> off h d j < ?N"
      using Suc.prems(4) by simp
    from Suc.IH [OF Suc.prems(1,2) nx this] obtain d' where
      d': "lower_offsets h d D L (i + 1) n = Ok d'" "length d' = ?N"
      "\<And>j. 8 + 4 * j \<le> ?N \<Longrightarrow>
        off h d' j = (if i + 1 \<le> j \<and> j < i + 1 + n \<and> D < off h d j then off h d j - L else off h d j)"
      "\<And>q m. \<forall>j. i + 1 \<le> j \<longrightarrow> j < i + 1 + n \<longrightarrow> q + m \<le> slot h j \<Longrightarrow> rng d' q m = rng d q m" by blast
    have "off h d' j = (if i \<le> j \<and> j < i + Suc n \<and> D < off h d j then off h d j - L else off h d j)"
      if "8 + 4 * j \<le> ?N" for j using d'(3) [OF that] False by (cases "j = i") auto
    moreover have "lower_offsets h d D L i (Suc n) = Ok d'" using False si d'(1) by (simp add: get_offset_ok)
    ultimately show ?thesis using d'(2,4) by auto
  next
    case True
    have o: "L < off h d i" "off h d i < ?N" using True Suc.prems(4) by auto
    have sub: "sub32 (off h d i) L = off h d i - L" using o Suc.prems(2) by (intro sub32_eq) auto
    define e where "e = wr 4 d (slot h i) (off h d i - L)"
    have le: "length e = ?N" unfolding e_def using Suc.prems(1) slot_bounds(1) [OF si] by simp
    have oe: "off h e j = (if i = j then off h d i - L else off h d j)" if "8 + 4 * j \<le> ?N" for j
      unfolding e_def using Suc.prems(1,2) si that o by (intro off_wr_slot) auto
    have "\<forall>j. i + 1 \<le> j \<longrightarrow> j < i + 1 + n \<longrightarrow> D < off h e j \<longrightarrow> L < off h e j \<and> off h e j < ?N"
      using Suc.prems(3,4) oe by auto
    from Suc.IH [OF le Suc.prems(2) nx this] obtain d' where
      d': "lower_offsets h e D L (i + 1) n = Ok d'" "length d' = ?N"
      "\<And>j. 8 + 4 * j \<le> ?N \<Longrightarrow>
        off h d' j = (if i + 1 \<le> j \<and> j < i + 1 + n \<and> D < off h e j then off h e j - L else off h e j)"
      "\<And>q m. \<forall>j. i + 1 \<le> j \<longrightarrow> j < i + 1 + n \<longrightarrow> q + m \<le> slot h j \<Longrightarrow> rng d' q m = rng e q m" by blast
    have set: "check_set_offset h d i (off h d i - L) = Ok e"
      unfolding e_def using si o Suc.prems(2) by (intro set_offset_ok) auto
    have "off h d' j = (if i \<le> j \<and> j < i + Suc n \<and> D < off h d j then off h d j - L else off h d j)"
      if "8 + 4 * j \<le> ?N" for j using d'(3) [OF that] oe [OF that] True by (cases "j = i") auto
    moreover have "rng d' q m = rng d q m" if q: "\<forall>j. i \<le> j \<longrightarrow> j < i + Suc n \<longrightarrow> q + m \<le> slot h j" for q m
    proof -
      have qi: "q + m \<le> slot h i" using q by simp
      have "rng d' q m = rng e q m" using q by (intro d'(4)) simp
      also have "\<dots> = rng d q m" unfolding e_def using qi Suc.prems(1) slot_bounds(1) [OF si] by (intro rng_wr_other) auto
      finally show ?thesis .
    qed
    moreover have "lower_offsets h d D L i (Suc n) = Ok d'" using True si sub set d'(1) by (simp add: get_offset_ok)
    ultimately show ?thesis using d'(2) by blast
  qed
qed

lemma shift_offsets_ok:
  assumes "length d = node_size_bytes h" "node_size_bytes h < 2 ^ 16" "8 + 4 * (i + n) \<le> node_size_bytes h"
    and "\<forall>j. i < j \<longrightarrow> j \<le> i + n \<longrightarrow> off h d j \<noteq> 0 \<and> off h d j < node_size_bytes h"
  shows "\<exists>d'. shift_offsets h d i n = Ok d' \<and> length d' = node_size_bytes h \<and>
    (\<forall>j. 8 + 4 * j \<le> node_size_bytes h \<longrightarrow> off h d' j = (if i \<le> j \<and> j < i + n then off h d (j + 1) else off h d j)) \<and>
    (\<forall>q m. (\<forall>j. i \<le> j \<longrightarrow> j < i + n \<longrightarrow> q + m \<le> slot h j) \<longrightarrow> rng d' q m = rng d q m)"
  using assms
proof (induction n arbitrary: d i)
  case 0
  then show ?case by simp
next
  case (Suc n)
  let ?N = "node_size_bytes h"
  have si: "8 + 4 * i \<le> ?N" "8 + 4 * (i + 1) \<le> ?N" "8 + 4 * (i + 1 + n) \<le> ?N" using Suc.prems(3) by simp_all
  have v: "off h d (i + 1) \<noteq> 0" "off h d (i + 1) < ?N" using Suc.prems(4) by auto
  define e where "e = wr 4 d (slot h i) (off h d (i + 1))"
  have le: "length e = ?N" unfolding e_def using Suc.prems(1) slot_bounds(1) [OF si(1)] by simp
  have oe: "off h e j = (if i = j then off h d (i + 1) else off h d j)" if "8 + 4 * j \<le> ?N" for j
    unfolding e_def using Suc.prems(1,2) si(1) that v by (intro off_wr_slot) auto
  have "\<forall>j. i + 1 < j \<longrightarrow> j \<le> i + 1 + n \<longrightarrow> off h e j \<noteq> 0 \<and> off h e j < ?N"
    using Suc.prems(3,4) oe by auto
  from Suc.IH [OF le Suc.prems(2) si(3) this] obtain d' where
    d': "shift_offsets h e (i + 1) n = Ok d'" "length d' = ?N"
    "\<And>j. 8 + 4 * j \<le> ?N \<Longrightarrow> off h d' j = (if i + 1 \<le> j \<and> j < i + 1 + n then off h e (j + 1) else off h e j)"
    "\<And>q m. \<forall>j. i + 1 \<le> j \<longrightarrow> j < i + 1 + n \<longrightarrow> q + m \<le> slot h j \<Longrightarrow> rng d' q m = rng e q m" by blast
  have set: "check_set_offset h d i (off h d (i + 1)) = Ok e"
    unfolding e_def using si v Suc.prems(2) by (intro set_offset_ok) auto
  have "off h d' j = (if i \<le> j \<and> j < i + Suc n then off h d (j + 1) else off h d j)" if "8 + 4 * j \<le> ?N" for j
    using d'(3) [OF that] oe [OF that] oe [of "j + 1"] Suc.prems(3) by (cases "j = i") auto
  moreover have "rng d' q m = rng d q m" if q: "\<forall>j. i \<le> j \<longrightarrow> j < i + Suc n \<longrightarrow> q + m \<le> slot h j" for q m
  proof -
    have qi: "q + m \<le> slot h i" using q by simp
    have "rng d' q m = rng e q m" using q by (intro d'(4)) simp
    also have "\<dots> = rng d q m" unfolding e_def using qi Suc.prems(1) slot_bounds(1) [OF si(1)] by (intro rng_wr_other) auto
    finally show ?thesis .
  qed
  moreover have "shift_offsets h d i (Suc n) = Ok d'" using si set d'(1) by (simp add: get_offset_ok)
  ultimately show ?case using d'(2) by blast
qed

text \<open>The table after both loops: the entry of the deleted record is gone and the others are lowered.\<close>

lemma delete_table_ok:
  assumes ok: "node_ok h d rs" and i: "i < length rs"
    and d1: "length d1 = node_size_bytes h" "\<And>j. j \<le> length rs \<Longrightarrow> off h d1 j = off h d j"
  defines "D \<equiv> off h d i" and "L \<equiv> length (rs ! i)"
  shows "\<exists>d2 d3. lower_offsets h d1 D L 0 (length rs) = Ok d2 \<and>
    shift_offsets h d2 i (length rs - i) = Ok d3 \<and> length d3 = node_size_bytes h \<and>
    (\<forall>j < length rs - 1. off h d3 j =
       (let x = off h d (if j < i then j else j + 1) in if D < x then x - L else x)) \<and>
    (\<forall>q m. q + m \<le> recs_end rs \<longrightarrow> rng d3 q m = rng d1 q m)"
proof -
  let ?N = "node_size_bytes h" and ?n = "length rs"
  note k = node_okD [OF ok]
  have sl: "8 + 4 * j \<le> ?N" "recs_end rs \<le> slot h j" if "j \<le> ?n" for j using node_slot [OF ok that] by simp_all
  have L: "12 \<le> L" using k(7) [OF i] by (simp add: L_def record_ok_def)
  have big: "D + L \<le> off h d j" if "j < ?n" "D < off h d j" for j
  proof -
    have "j \<noteq> i" using that by (auto simp: D_def)
    with k(11) [OF i that(1)] that(2) show ?thesis
      using k(7) [OF that(1)] by (auto simp: D_def L_def record_ok_def)
  qed
  have lt: "off h d j < ?N" "29 \<le> off h d j" if "j < ?n" for j
    using k(3) k(8) [OF that] k(9) [OF that] by linarith+
  have D: "29 \<le> D" using k(8) [OF i] by (simp add: D_def)
  have a: "\<forall>j. 0 \<le> j \<longrightarrow> j < 0 + ?n \<longrightarrow> D < off h d1 j \<longrightarrow> L < off h d1 j \<and> off h d1 j < ?N"
    using big lt d1(2) D by fastforce
  have "?n = 0 \<or> 4 + 4 * (0 + ?n) \<le> ?N" using k(3) by simp
  from lower_offsets_ok [OF d1(1) k(2) this a] obtain d2 where
    d2: "lower_offsets h d1 D L 0 ?n = Ok d2" "length d2 = ?N"
    "\<And>j. 8 + 4 * j \<le> ?N \<Longrightarrow> off h d2 j = (if j < ?n \<and> D < off h d1 j then off h d1 j - L else off h d1 j)"
    "\<And>q m. \<forall>j. j < ?n \<longrightarrow> q + m \<le> slot h j \<Longrightarrow> rng d2 q m = rng d1 q m" by auto
  have o2: "off h d2 j = (if j < ?n \<and> D < off h d j then off h d j - L else off h d j)" if "j \<le> ?n" for j
    using d2(3) [OF sl(1) [OF that]] d1(2) [OF that] by simp
  have "off h d2 j \<noteq> 0 \<and> off h d2 j < ?N" if "j \<le> ?n" for j
  proof (cases "j < ?n")
    case True
    then show ?thesis using o2 [OF that] lt [OF True] big [OF True] D by (auto split: if_splits)
  next
    case False
    then have "off h d2 j = recs_end rs" using o2 [OF that] that k(6) by simp
    then show ?thesis using k(3) recs_end_ge [of rs] by simp
  qed
  then have "\<forall>j. i < j \<longrightarrow> j \<le> i + (?n - i) \<longrightarrow> off h d2 j \<noteq> 0 \<and> off h d2 j < ?N" using i by simp
  moreover have "8 + 4 * (i + (?n - i)) \<le> ?N" using sl(1) [of ?n] i by simp
  ultimately obtain d3 where
    d3: "shift_offsets h d2 i (?n - i) = Ok d3" "length d3 = ?N"
    "\<And>j. 8 + 4 * j \<le> ?N \<Longrightarrow> off h d3 j = (if i \<le> j \<and> j < ?n then off h d2 (j + 1) else off h d2 j)"
    "\<And>q m. \<forall>j. i \<le> j \<longrightarrow> j < ?n \<longrightarrow> q + m \<le> slot h j \<Longrightarrow> rng d3 q m = rng d2 q m"
    using shift_offsets_ok [OF d2(2) k(2), of i "?n - i"] i by auto
  have "off h d3 j = (let x = off h d (if j < i then j else j + 1) in if D < x then x - L else x)"
    if j: "j < ?n - 1" for j
  proof -
    have "8 + 4 * j \<le> ?N" using sl(1) [of j] j by simp
    then show ?thesis using d3(3) [of j] o2 [of j] o2 [of "j + 1"] j by (auto simp: Let_def)
  qed
  moreover have "rng d3 q m = rng d1 q m" if "q + m \<le> recs_end rs" for q m
  proof -
    have "\<forall>j. j < ?n \<longrightarrow> q + m \<le> slot h j" using that sl(2) by (meson le_trans less_imp_le)
    then show ?thesis using d3(4) [of q m] d2(4) [of q m] by simp
  qed
  ultimately show ?thesis using d2(1) d3(1,2) by blast
qed

lemma closed_gap:
  fixes a b d k m l :: nat
  assumes "a + m \<le> b \<or> b + l \<le> a" "d + k \<le> a \<or> a + m \<le> d" "d + k \<le> b \<or> b + l \<le> d" "12 \<le> m" "12 \<le> l"
  shows "(if d < a then a - k else a) + m \<le> (if d < b then b - k else b) \<or>
    (if d < b then b - k else b) + l \<le> (if d < a then a - k else a)"
  using assms by (cases "d < a"; cases "d < b") auto

lemma delete_from_node_ok:
  assumes ok: "node_ok h d rs" and i: "i < length rs" and mx: "length (rs ! i) \<le> VDFS2_MAX_BTREE_REC_LEN"
  shows "\<exists>d'. delete_from_node h d i = Ok d' \<and> node_ok h d' (remove_at i rs) \<and> rng d' 16 13 = rng d 16 13"
proof -
  let ?N = "node_size_bytes h" and ?n = "length rs" and ?F = "recs_end rs" and ?rs = "remove_at i rs"
  define D where "D = off h d i"
  define L where "L = length (rs ! i)"
  note k = node_okD [OF ok]
  note g = get_record_ok [OF ok i]
  have L: "12 \<le> L" using k(7) [OF i] by (simp add: L_def record_ok_def)
  have D: "29 \<le> D" "D + L \<le> ?F" using k(8) [OF i] k(9) [OF i] by (simp_all add: D_def L_def)
  have FN: "?F + 4 * ?n + 8 \<le> ?N" "?F < 2 ^ 16" using k(2,3) by simp_all
  define d1 where "d1 = memmove d D (D + L) (?F - D - L)"
  have mv: "D + (?F - D - L) \<le> length d" "D + L + (?F - D - L) \<le> length d" using D FN k(1) by simp_all
  have l1: "length d1 = ?N" unfolding d1_def using mv k(1) by (simp add: add.assoc)
  have rg1: "rng d1 q m = rng d q m" if "q + m \<le> length d" "q + m \<le> D \<or> ?F \<le> q" for q m
    unfolding d1_def using mv that D by (intro rng_memmove_other) auto
  have o1: "off h d1 j = off h d j" if "j \<le> ?n" for j
    using rg1 [of "slot h j" 4] node_slot [OF ok that] by (simp add: off_def rd_def)
  from delete_table_ok [OF ok i l1 o1] obtain d2 d3 where
    t: "lower_offsets h d1 D L 0 ?n = Ok d2" "shift_offsets h d2 i (?n - i) = Ok d3" "length d3 = ?N"
    "\<And>j. j < ?n - 1 \<Longrightarrow> off h d3 j = (let x = off h d (if j < i then j else j + 1) in if D < x then x - L else x)"
    "\<And>q m. q + m \<le> ?F \<Longrightarrow> rng d3 q m = rng d1 q m" unfolding D_def L_def by blast
  have hd: "rng d3 q m = rng d q m" if "q + m \<le> 29" for q m
    using t(5) [of q m] rg1 [of q m] that D FN k(1) by simp
  define d5 where "d5 = wr 2 (wr 2 d3 14 (?n + 2 ^ 16 - 1)) 12 (descr_free_space d + L + 4)"
  define d6 where "d6 = wr 4 d5 (slot h (?n - 1)) (?F - L)"
  have N: "45 \<le> ?N" using FN D L i by linarith
  have sn: "8 + 4 * (?n - 1) \<le> ?N" "?F \<le> slot h (?n - 1)" "slot h (?n - 1) + 4 \<le> ?N"
    using node_slot [OF ok, of "?n - 1"] k(1) by simp_all
  have l5: "length d5 = ?N" unfolding d5_def using N t(3) by simp
  have l6: "length d6 = ?N" unfolding d6_def using l5 sn(3) by simp
  have n1: "(?n + 2 ^ 16 - 1) mod 2 ^ 16 = ?n - 1"
  proof -
    have "?n + 2 ^ 16 - 1 = (?n - 1) + 2 ^ 16" using i by simp
    then show ?thesis using FN k(2) by (simp only: mod_add_self2) simp
  qed
  have c5: "rd 2 d5 14 = ?n - 1" "rd 2 d5 12 = descr_free_space d + L + 4"
  proof -
    have "descr_free_space d + L + 4 < 2 ^ 16" using k(2,5) FN D by simp
    then show "rd 2 d5 14 = ?n - 1" "rd 2 d5 12 = descr_free_space d + L + 4"
      unfolding d5_def using n1 t(3) N by (simp_all add: rd_wr_same rd_wr_other)
  qed
  have fs3: "rd 2 (wr 2 d3 14 (?n + 2 ^ 16 - 1)) 12 = descr_free_space d"
  proof -
    have "rd 2 (wr 2 d3 14 (?n + 2 ^ 16 - 1)) 12 = rd 2 d3 12" using t(3) N by (intro rd_wr_other) auto
    then show ?thesis using hd [of 12 2] by (simp add: rd_def descr_free_space_def)
  qed
  have run: "delete_from_node h d i = Ok d6"
  proof -
    have s: "sub32 (sub32 ?F D) L = ?F - D - L" "sub32 ?F L = ?F - L"
      using D FN by (simp_all add: sub32_eq)
    have v: "is_offset_correct h ?F" "is_offset_correct h D"
      using D FN by (auto simp: is_offset_correct_def)
    let ?d4 = "set_recs_count (?n + 2 ^ 16 - 1) d3"
    have d5: "set_free_space (descr_free_space ?d4 + L + OFF_SIZE) ?d4 = d5"
      using fs3 by (simp only: d5_def set_free_space_def set_recs_count_def descr_free_space_def [of "wr 2 d3 14 (?n + 2 ^ 16 - 1)"]
          OFF_SIZE_def)
    have c: "check_set_offset h d5 (descr_recs_count d5) (?F - L) = Ok d6"
      unfolding d6_def descr_recs_count_def c5(1) using sn(1) D FN k(2) L by (intro set_offset_ok) auto
    have o: "vdfs2_get_offset h d ?n = Ok ?F" "vdfs2_get_offset h d i = Ok D"
      using node_slot(1) [OF ok, of ?n] node_slot(1) [OF ok, of i] i k(6) by (simp_all add: get_offset_ok D_def)
    have w: "\<not> VDFS2_MAX_BTREE_REC_LEN < L" "\<not> length d < D + L + (?F - D - L)" using mx mv by (simp_all add: L_def)
    show ?thesis
      unfolding delete_from_node_def Let_def g(1) D_def [symmetric] g(3) [folded D_def L_def] k(4) result.case o and_then.simps
        s d1_def [symmetric]
      using v w t(1,2) d5 c by (simp only: and_then.simps if_False simp_thms)
  qed
  have of6: "off h d6 j = (let x = off h d (if j < i then j else j + 1) in if D < x then x - L else x)"
    if j: "j < ?n - 1" for j
  proof -
    have "j \<le> ?n" using j by simp
    then have sj: "8 + 4 * j \<le> ?N" "29 \<le> slot h j"
      using node_slot(1,2) [OF ok, of j] recs_end_ge [of rs] by simp_all
    have "off h d6 j = off h d5 j" unfolding d6_def using off_wr_slot [OF l5 sn(1) sj(1), of "?F - L"] j FN by simp
    also have "\<dots> = off h d3 j" unfolding d5_def using sj t(3) N by (simp add: off_wr_low)
    finally show ?thesis using t(4) [OF j] by simp
  qed
  have rg6: "rng d6 q m = rng d1 q m" if "16 \<le> q" "q + m \<le> ?F" for q m
  proof -
    have "rng d6 q m = rng d5 q m" unfolding d6_def using that sn l5 by (intro rng_wr_other) auto
    also have "\<dots> = rng d3 q m" unfolding d5_def using that t(3) N FN by (simp add: rng_wr_other)
    finally show ?thesis using t(5) [OF that(2)] by simp
  qed
  have c6: "rd 2 d6 q = rd 2 d5 q" if "q + 2 \<le> 16" for q
    unfolding d6_def using that sn l5 recs_end_ge [of rs] by (intro rd_wr_other) auto
  have E: "recs_end ?rs = ?F - L" using recs_end_remove_at [OF i] by (simp add: L_def)
  have moved: "29 \<le> x' \<and> x' + length (rs ! j) \<le> ?F - L \<and> rng d6 x' (length (rs ! j)) = rs ! j"
    if j: "j < ?n" "j \<noteq> i" and x': "x' = (if D < off h d j then off h d j - L else off h d j)" for j x'
  proof -
    let ?l = "length (rs ! j)"
    have o: "29 \<le> off h d j" "off h d j + ?l \<le> ?F" "rng d (off h d j) ?l = rs ! j" "12 \<le> ?l"
      using k(7-10) [OF j(1)] by (simp_all add: record_ok_def)
    show ?thesis
    proof (cases "D < off h d j")
      case True
      then have b: "D + L \<le> off h d j" using k(11) [OF i j(1)] j(2) o(4) by (auto simp: D_def L_def)
      define e where "e = off h d j - D - L"
      have e: "x' = D + e" "off h d j = D + L + e" "e + ?l \<le> ?F - D - L"
        using True b x' o(2) by (simp_all add: e_def)
      have "rng d6 x' ?l = rng d1 x' ?l" using e D o(2) by (intro rg6) auto
      also have "\<dots> = rng d (D + L + e) ?l"
        unfolding d1_def e(1) using mv e(3) by (intro rng_memmove_dst) auto
      finally show ?thesis using e o D by auto
    next
      case False
      then have b: "off h d j + ?l \<le> D" using k(11) [OF i j(1)] j(2) L by (auto simp: D_def L_def)
      have "rng d6 x' ?l = rng d1 x' ?l" using False x' o by (intro rg6) auto
      also have "\<dots> = rng d x' ?l" using False x' b D FN k(1) by (intro rg1) auto
      finally show ?thesis using False x' o b D by auto
    qed
  qed
  have "node_ok h d6 ?rs"
    unfolding node_ok_def
  proof (intro conjI allI impI)
    have len: "length ?rs = ?n - 1" using i by simp
    let ?s = "\<lambda>j. if j < i then j else j + 1"
    have at: "off h d6 j = (if D < off h d (?s j) then off h d (?s j) - L else off h d (?s j)) \<and> ?rs ! j = rs ! ?s j \<and>
        ?s j < ?n \<and> ?s j \<noteq> i" if "j < length ?rs" for j
      using of6 [of j] nth_remove_at [OF i, of j] that len i by (auto simp: Let_def)
    show "length d6 = ?N" "?N < 2 ^ 16" "recs_end ?rs + 4 * length ?rs + 8 \<le> ?N" "descr_recs_count d6 = length ?rs"
      using l6 k(2) FN len E c6 [of 14] c5 by (simp_all add: descr_recs_count_def)
    show "descr_free_space d6 = ?N - 8 - 4 * length ?rs - recs_end ?rs"
      using c6 [of 12] c5 k(5) len E FN i D L by (simp add: descr_free_space_def)
    show "off h d6 (length ?rs) = recs_end ?rs"
      unfolding d6_def len E using off_wr_slot [OF l5 sn(1) sn(1), of "?F - L"] FN by simp
    fix j assume j: "j < length ?rs"
    show "record_ok (?rs ! j)" "29 \<le> off h d6 j" "off h d6 j + length (?rs ! j) \<le> recs_end ?rs"
      "rng d6 (off h d6 j) (length (?rs ! j)) = ?rs ! j"
      using at [OF j] moved [of "?s j" "off h d6 j"] k(7) [of "?s j"] E by metis+
    fix l assume l: "l < length ?rs" and jl: "j \<noteq> l"
    have "?s j \<noteq> ?s l" using jl by auto
    then have ab: "off h d (?s j) + length (rs ! ?s j) \<le> off h d (?s l) \<or> off h d (?s l) + length (rs ! ?s l) \<le> off h d (?s j)"
      using k(11) [of "?s j" "?s l"] at [OF j] at [OF l] by blast
    have di: "D + L \<le> off h d (?s x) \<or> off h d (?s x) + length (rs ! ?s x) \<le> D" "12 \<le> length (rs ! ?s x)"
      if "x < length ?rs" for x
      using k(11) [OF i, of "?s x"] k(7) [of "?s x"] at [OF that] by (auto simp: D_def L_def record_ok_def)
    have oj: "off h d6 j = (if D < off h d (?s j) then off h d (?s j) - L else off h d (?s j))" "?rs ! j = rs ! ?s j"
      and ol: "off h d6 l = (if D < off h d (?s l) then off h d (?s l) - L else off h d (?s l))" "?rs ! l = rs ! ?s l"
      using at [OF j] at [OF l] by blast+
    show "off h d6 j + length (?rs ! j) \<le> off h d6 l \<or> off h d6 l + length (?rs ! l) \<le> off h d6 j"
      unfolding oj ol using ab di(1) [OF j] di(1) [OF l] di(2) [OF j] di(2) [OF l] by (rule closed_gap)
  qed
  moreover have "rng d6 16 13 = rng d 16 13" using rg6 [of 16 13] rg1 [of 16 13] D FN k(1) by simp
  ultimately show ?thesis using run by blast
qed

end
