(* ===== verification/Btree_Keys.thy ===== *)
theory Btree_Keys
  imports Bytes "HOL-Library.List_Lexorder" "HOL-Library.Product_Lexorder"
begin

text \<open>
  The comparison functions of the four trees: hard links (\<^verbatim>\<open>hlinktree.c\<close>), extents
  (\<^verbatim>\<open>extents.c\<close>), catalog (\<^verbatim>\<open>cattree.c\<close>) and extended attributes (\<^verbatim>\<open>xattr.c\<close>). A key is
  the memory the key pointer points to; in a node the record's other bytes and the rest of
  the node follow it. The locale \<open>ranked_keys\<close> is what the tree code needs from a comparison
  function: that it compares the ranks of its arguments in a linear order.
\<close>

section \<open>The comparison functions\<close>

text \<open>The conversion to a 32-bit signed integer, as a C function with result type int does.\<close>

definition to_int32 :: "int \<Rightarrow> int" where
  "to_int32 x = (x + 2 ^ 31) mod 2 ^ 32 - 2 ^ 31"

definition cmp_2_le64 :: "nat \<Rightarrow> nat \<Rightarrow> int" where
  "cmp_2_le64 a b = (if a = b then 0 else if b < a then 1 else -1)"

definition vdfs2_hlinktree_cmpfn :: "u8 list \<Rightarrow> u8 list \<Rightarrow> int" where
  "vdfs2_hlinktree_cmpfn key1 key2 = cmp_2_le64 (rd 8 key1 12) (rd 8 key2 12)"

definition vdfs2_exttree_cmpfn :: "u8 list \<Rightarrow> u8 list \<Rightarrow> int" where
  "vdfs2_exttree_cmpfn key1 key2 =
     (if rd 8 key1 12 \<noteq> rd 8 key2 12 then cmp_2_le64 (rd 8 key1 12) (rd 8 key2 12)
      else cmp_2_le64 (rd 8 key1 20) (rd 8 key2 20))"

text \<open>
  The loop over the characters of two names. \<open>conv\<close> is what the loop applies to each
  character: nothing, or the kernel's \<^verbatim>\<open>tolower\<close>.
\<close>

fun name_diff :: "(u8 \<Rightarrow> u8) \<Rightarrow> u8 list \<Rightarrow> u8 list \<Rightarrow> nat \<Rightarrow> nat \<Rightarrow> int" where
  "name_diff conv key1 key2 p 0 = 0"
| "name_diff conv key1 key2 p (Suc i) =
     (let diff = int (unat (conv (of_nat (rd 1 key1 p)))) - int (unat (conv (of_nat (rd 1 key2 p)))) in
      if diff \<noteq> 0 then diff else name_diff conv key1 key2 (p + 1) i)"

definition cattree_cmp :: "(u8 \<Rightarrow> u8) \<Rightarrow> u8 list \<Rightarrow> u8 list \<Rightarrow> int" where
  "cattree_cmp conv key1 key2 =
     (if rd 8 key1 13 \<noteq> rd 8 key2 13 then to_int32 (int (rd 8 key1 13) - int (rd 8 key2 13))
      else
        (let len1 = rd 4 key1 21; len2 = rd 4 key2 21;
             diff = name_diff conv key1 key2 25 (nat (to_int32 (int (min len1 len2)))) in
         if diff \<noteq> 0 then diff else to_int32 (int len1 - int len2)))"

definition vdfs2_cattree_cmpfn :: "u8 list \<Rightarrow> u8 list \<Rightarrow> int" where
  "vdfs2_cattree_cmpfn key1 key2 = cattree_cmp (\<lambda>c. c) key1 key2"

definition vdfs2_cattree_cmpfn_ci :: "(u8 \<Rightarrow> u8) \<Rightarrow> u8 list \<Rightarrow> u8 list \<Rightarrow> int" where
  "vdfs2_cattree_cmpfn_ci tolower key1 key2 = cattree_cmp tolower key1 key2"

text \<open>\<^verbatim>\<open>memcmp\<close> returns the difference of the first bytes that differ.\<close>

definition vdfs2_xattrtree_cmpfn :: "u8 list \<Rightarrow> u8 list \<Rightarrow> int" where
  "vdfs2_xattrtree_cmpfn key1 key2 =
     (if rd 8 key1 12 \<noteq> rd 8 key2 12 then to_int32 (int (rd 8 key1 12) - int (rd 8 key2 12))
      else
        (let len1 = rd 1 key1 20; len2 = rd 1 key2 20; diff = name_diff (\<lambda>c. c) key1 key2 21 (min len1 len2) in
         if diff \<noteq> 0 then diff else int len1 - int len2))"

section \<open>What the trees need of a comparison function\<close>

locale ranked_keys =
  fixes cmp :: "u8 list \<Rightarrow> u8 list \<Rightarrow> int" and key_ok :: "u8 list \<Rightarrow> bool" and rank :: "u8 list \<Rightarrow> 'k::linorder"
  assumes cmp_less: "key_ok a \<Longrightarrow> key_ok b \<Longrightarrow> cmp a b < 0 \<longleftrightarrow> rank a < rank b"
    and cmp_equal: "key_ok a \<Longrightarrow> key_ok b \<Longrightarrow> cmp a b = 0 \<longleftrightarrow> rank a = rank b"
    and ok_append: "key_ok a \<Longrightarrow> key_ok (a @ t)"
    and rank_append: "key_ok a \<Longrightarrow> rank (a @ t) = rank a"
begin

lemma cmp_greater: "key_ok a \<Longrightarrow> key_ok b \<Longrightarrow> 0 < cmp a b \<longleftrightarrow> rank b < rank a"
  using cmp_less [of a b] cmp_equal [of a b] by (metis linorder_less_linear less_asym less_irrefl)

lemma cmp_le: "key_ok a \<Longrightarrow> key_ok b \<Longrightarrow> cmp a b \<le> 0 \<longleftrightarrow> rank a \<le> rank b"
  using cmp_greater [of a b] by (simp flip: not_less)

lemma antisymmetric: "key_ok a \<Longrightarrow> key_ok b \<Longrightarrow> cmp a b < 0 \<longleftrightarrow> 0 < cmp b a"
  by (simp add: cmp_less cmp_greater)

end

text \<open>
  What adding to a tree needs in addition: a key is at least as long as its common part, and
  the record length in it does not matter, because an index record has another one.
\<close>

locale stored_keys = ranked_keys +
  assumes ok_length: "key_ok a \<Longrightarrow> 12 \<le> length a"
    and ok_other_len: "key_ok a \<Longrightarrow> key_ok (wr 4 a 8 v)"
    and rank_other_len: "key_ok a \<Longrightarrow> rank (wr 4 a 8 v) = rank a"

section \<open>The trees' functions meet it\<close>

lemma rd_append: "p + w \<le> length a \<Longrightarrow> rd w (a @ t) p = rd w a p"
  by (simp add: rd_def rng_def)

lemma rng_append_left: "p + n \<le> length a \<Longrightarrow> rng (a @ t) p n = rng a p n"
  by (simp add: rng_def)

lemma cmp_2_le64_less [simp]: "cmp_2_le64 a b < 0 \<longleftrightarrow> a < b"
  by (auto simp: cmp_2_le64_def)

lemma cmp_2_le64_zero [simp]: "cmp_2_le64 a b = 0 \<longleftrightarrow> a = b"
  by (auto simp: cmp_2_le64_def)

definition hlink_key_ok :: "u8 list \<Rightarrow> bool" where "hlink_key_ok a \<longleftrightarrow> 20 \<le> length a"
definition hlink_rank :: "u8 list \<Rightarrow> nat" where "hlink_rank a = rd 8 a 12"

interpretation hlink_keys: stored_keys vdfs2_hlinktree_cmpfn hlink_key_ok hlink_rank
  by unfold_locales (simp_all add: vdfs2_hlinktree_cmpfn_def hlink_key_ok_def hlink_rank_def rd_append rd_wr_other)

definition ext_key_ok :: "u8 list \<Rightarrow> bool" where "ext_key_ok a \<longleftrightarrow> 28 \<le> length a"
definition ext_rank :: "u8 list \<Rightarrow> nat \<times> nat" where "ext_rank a = (rd 8 a 12, rd 8 a 20)"

interpretation ext_keys: stored_keys vdfs2_exttree_cmpfn ext_key_ok ext_rank
  by unfold_locales (auto simp: vdfs2_exttree_cmpfn_def ext_key_ok_def ext_rank_def rd_append rd_wr_other less_prod_def)

text \<open>Names are compared character by character; a prefix comes first.\<close>

fun list_diff :: "nat list \<Rightarrow> nat list \<Rightarrow> int" where
  "list_diff (x # xs) (y # ys) = (if x = y then list_diff xs ys else int x - int y)"
| "list_diff xs ys = int (length xs) - int (length ys)"

lemma Nil_less_nonempty: "[] < (ys :: nat list) \<Longrightarrow> \<exists>z zs. ys = z # zs"
  by (cases ys) auto

lemma list_diff_less: "list_diff xs ys < 0 \<longleftrightarrow> xs < ys"
  by (induction xs ys rule: list_diff.induct) (auto simp: neq_Nil_conv dest: Nil_less_nonempty)

lemma list_diff_zero: "list_diff xs ys = 0 \<longleftrightarrow> xs = ys"
  by (induction xs ys rule: list_diff.induct) auto

definition name_codes :: "(u8 \<Rightarrow> u8) \<Rightarrow> u8 list \<Rightarrow> nat \<Rightarrow> nat \<Rightarrow> nat list" where
  "name_codes conv a p n = map (\<lambda>c. unat (conv c)) (rng a p n)"

lemma rd_byte: "p < length a \<Longrightarrow> (of_nat (rd (Suc 0) a p) :: u8) = a ! p"
  by (simp add: rd_def rng_def take_Suc_conv_app_nth hd_drop_conv_nth take_Suc)

lemma name_codes_Suc:
  "p + Suc n \<le> length a \<Longrightarrow>
   name_codes conv a p (Suc n) = unat (conv (of_nat (rd 1 a p))) # name_codes conv a (p + 1) n"
  by (simp add: name_codes_def rng_def rd_byte take_Suc hd_drop_conv_nth drop_Suc tl_drop)

lemma name_diff_list:
  assumes "p + m \<le> length a" "p + n \<le> length b"
  shows "(let d = name_diff conv a b p (min m n) in if d \<noteq> 0 then d else int m - int n) =
    list_diff (name_codes conv a p m) (name_codes conv b p n)"
  using assms
proof (induction m arbitrary: n p)
  case 0
  then show ?case by (cases n) (simp_all add: name_codes_def rng_def)
next
  case (Suc m)
  show ?case
  proof (cases n)
    case 0
    then show ?thesis using Suc.prems by (simp add: name_codes_def rng_def)
  next
    case (Suc k)
    then show ?thesis
      using Suc.IH [of "p + 1" k] Suc.prems
      by (cases "unat (conv (of_nat (rd 1 a p))) = unat (conv (of_nat (rd 1 b p)))")
        (auto simp: name_codes_Suc Let_def simp del: of_nat_unat)
  qed
qed

lemma to_int32_id: "- (2 ^ 31) \<le> x \<Longrightarrow> x < 2 ^ 31 \<Longrightarrow> to_int32 x = x"
  by (simp add: to_int32_def)

definition cat_key_ok :: "u8 list \<Rightarrow> bool" where
  "cat_key_ok a \<longleftrightarrow> 25 + rd 4 a 21 \<le> length a \<and> rd 8 a 13 < 2 ^ 31 \<and> rd 4 a 21 < 2 ^ 31"

definition cat_rank :: "(u8 \<Rightarrow> u8) \<Rightarrow> u8 list \<Rightarrow> nat \<times> nat list" where
  "cat_rank conv a = (rd 8 a 13, name_codes conv a 25 (rd 4 a 21))"

lemma cattree_cmp_rank:
  assumes "cat_key_ok a" "cat_key_ok b"
  shows "cattree_cmp conv a b =
    (if rd 8 a 13 \<noteq> rd 8 b 13 then int (rd 8 a 13) - int (rd 8 b 13)
     else list_diff (name_codes conv a 25 (rd 4 a 21)) (name_codes conv b 25 (rd 4 b 21)))"
proof -
  have i: "to_int32 (int (rd 8 a 13) - int (rd 8 b 13)) = int (rd 8 a 13) - int (rd 8 b 13)"
    "to_int32 (int (rd 4 a 21) - int (rd 4 b 21)) = int (rd 4 a 21) - int (rd 4 b 21)"
    "nat (to_int32 (int (min (rd 4 a 21) (rd 4 b 21)))) = min (rd 4 a 21) (rd 4 b 21)"
    using assms by (simp_all add: cat_key_ok_def to_int32_id min_def)
  show ?thesis
    unfolding cattree_cmp_def Let_def i
    using name_diff_list [of 25 "rd 4 a 21" a "rd 4 b 21" b conv] assms by (simp add: Let_def cat_key_ok_def)
qed

lemma cat_keys_ranked: "stored_keys (cattree_cmp conv) cat_key_ok (cat_rank conv)"
proof
  fix a b t assume a: "cat_key_ok a"
  have l: "25 \<le> length a" using a by (simp add: cat_key_ok_def)
  then show "cat_key_ok (a @ t)" using a by (simp add: cat_key_ok_def rd_append)
  show "12 \<le> length a" using l by simp
  fix v show "cat_key_ok (wr 4 a 8 v)" "cat_rank conv (wr 4 a 8 v) = cat_rank conv a"
    using a l by (simp_all add: cat_key_ok_def cat_rank_def rd_wr_other name_codes_def rng_wr_other)
  show "cat_rank conv (a @ t) = cat_rank conv a"
    using a l by (simp add: cat_key_ok_def cat_rank_def rd_append name_codes_def rng_append_left)
  assume b: "cat_key_ok b"
  show "cattree_cmp conv a b < 0 \<longleftrightarrow> cat_rank conv a < cat_rank conv b"
    "cattree_cmp conv a b = 0 \<longleftrightarrow> cat_rank conv a = cat_rank conv b"
    using cattree_cmp_rank [OF a b, of conv]
    by (auto simp: cat_rank_def less_prod_def list_diff_less list_diff_zero)
qed

interpretation cat_keys: stored_keys vdfs2_cattree_cmpfn cat_key_ok "cat_rank (\<lambda>c. c)"
  unfolding vdfs2_cattree_cmpfn_def by (rule cat_keys_ranked)

interpretation cat_keys_ci: stored_keys "vdfs2_cattree_cmpfn_ci tolower" cat_key_ok "cat_rank tolower" for tolower
  unfolding vdfs2_cattree_cmpfn_ci_def by (rule cat_keys_ranked)

definition xattr_key_ok :: "u8 list \<Rightarrow> bool" where
  "xattr_key_ok a \<longleftrightarrow> 21 + rd 1 a 20 \<le> length a \<and> rd 8 a 12 < 2 ^ 31"

definition xattr_rank :: "u8 list \<Rightarrow> nat \<times> nat list" where
  "xattr_rank a = (rd 8 a 12, name_codes (\<lambda>c. c) a 21 (rd 1 a 20))"

lemma xattr_cmp_rank:
  assumes "xattr_key_ok a" "xattr_key_ok b"
  shows "vdfs2_xattrtree_cmpfn a b =
    (if rd 8 a 12 \<noteq> rd 8 b 12 then int (rd 8 a 12) - int (rd 8 b 12)
     else list_diff (name_codes (\<lambda>c. c) a 21 (rd 1 a 20)) (name_codes (\<lambda>c. c) b 21 (rd 1 b 20)))"
proof -
  have i: "to_int32 (int (rd 8 a 12) - int (rd 8 b 12)) = int (rd 8 a 12) - int (rd 8 b 12)"
    using assms by (simp add: xattr_key_ok_def to_int32_id)
  have "21 + rd 1 a 20 \<le> length a" "21 + rd 1 b 20 \<le> length b" using assms by (simp_all only: xattr_key_ok_def)
  from name_diff_list [OF this, of "\<lambda>c. c"] show ?thesis
    unfolding vdfs2_xattrtree_cmpfn_def i by (simp only: Let_def split: if_split)
qed

interpretation xattr_keys: stored_keys vdfs2_xattrtree_cmpfn xattr_key_ok xattr_rank
proof
  fix a b t assume a: "xattr_key_ok a"
  have l: "21 \<le> length a" using a by (simp add: xattr_key_ok_def)
  then show "xattr_key_ok (a @ t)" using a by (simp add: xattr_key_ok_def rd_append)
  show "12 \<le> length a" using l by simp
  fix v show "xattr_key_ok (wr 4 a 8 v)" "xattr_rank (wr 4 a 8 v) = xattr_rank a"
    using a l by (simp_all add: xattr_key_ok_def xattr_rank_def rd_wr_other name_codes_def rng_wr_other)
  show "xattr_rank (a @ t) = xattr_rank a"
    using a l by (simp add: xattr_key_ok_def xattr_rank_def rd_append name_codes_def rng_append_left)
  assume b: "xattr_key_ok b"
  show "vdfs2_xattrtree_cmpfn a b < 0 \<longleftrightarrow> xattr_rank a < xattr_rank b"
    "vdfs2_xattrtree_cmpfn a b = 0 \<longleftrightarrow> xattr_rank a = xattr_rank b"
    using xattr_cmp_rank [OF a b] by (auto simp: xattr_rank_def less_prod_def list_diff_less list_diff_zero)
qed

end
