(* ===== verification/Btree_Search.thy ===== *)
theory Btree_Search
  imports Btree_Node_Inv Btree_Keys
begin

text \<open>
  The binary search in a node finds the last record whose key is at most the searched key.
  It is proved once, for every comparison function with a rank, and holds for the functions
  of the four trees.
\<close>

definition count_le :: "('r \<Rightarrow> 'k::linorder) \<Rightarrow> 'r list \<Rightarrow> 'k \<Rightarrow> nat" where
  "count_le rank rs k = length (filter (\<lambda>r. rank r \<le> k) rs)"

lemma count_le_0: "rs \<noteq> [] \<Longrightarrow> sorted_less (map rank rs) \<Longrightarrow> count_le rank rs k = 0 \<longleftrightarrow> k < rank (rs ! 0)"
proof (cases rs)
  case (Cons r rs')
  moreover assume "sorted_less (map rank rs)"
  ultimately show ?thesis by (auto simp: count_le_def filter_empty_conv not_le dest: less_trans)
qed simp

lemma count_le_Suc:
  assumes "sorted_less (map rank rs)" "p < length rs" "rank (rs ! p) \<le> k" "p + 1 < length rs \<Longrightarrow> k < rank (rs ! (p + 1))"
  shows "count_le rank rs k = Suc p"
proof -
  have lt: "rank (rs ! i) < rank (rs ! j)" if "i < j" "j < length rs" for i j
    using assms(1) that by (simp add: sorted_wrt_iff_nth_less)
  have "\<forall>r\<in>set (take (Suc p) rs). rank r \<le> k"
  proof
    fix r assume "r \<in> set (take (Suc p) rs)"
    then obtain i where "i < Suc p" "r = rs ! i" using assms(2) by (auto simp: in_set_conv_nth)
    then show "rank r \<le> k" using lt [of i p] assms(2,3) by (cases "i = p") auto
  qed
  moreover have "\<forall>r\<in>set (drop (Suc p) rs). \<not> rank r \<le> k"
  proof
    fix r assume "r \<in> set (drop (Suc p) rs)"
    then obtain i where i: "i < length rs - Suc p" "r = rs ! (Suc p + i)" by (auto simp: in_set_conv_nth)
    then have "Suc (p + i) < length rs" by linarith
    then have "rank (rs ! (p + 1)) \<le> rank r" "k < rank (rs ! (p + 1))"
      using lt [of "p + 1" "Suc p + i"] i assms(4) by (cases "i = 0"; simp)+
    then show "\<not> rank r \<le> k" by (simp add: not_le)
  qed
  ultimately have "filter (\<lambda>r. rank r \<le> k) (take (Suc p) rs @ drop (Suc p) rs) = take (Suc p) rs"
    unfolding filter_append by (simp add: filter_id_conv filter_empty_conv)
  then show ?thesis using assms(2) by (simp add: count_le_def)
qed

lemma count_le_bounds:
  assumes so: "sorted_less (map rank rs)" and n: "n = count_le rank rs k" "n \<noteq> 0"
  shows "rank (rs ! (n - 1)) \<le> k" "n < length rs \<Longrightarrow> k < rank (rs ! n)"
proof -
  have l: "n \<le> length rs" by (simp add: n(1) count_le_def)
  have lt: "rank (rs ! i) < rank (rs ! j)" if "i < j" "j < length rs" for i j
    using so that by (simp add: sorted_wrt_iff_nth_less)
  show "rank (rs ! (n - 1)) \<le> k"
  proof (rule ccontr)
    assume c: "\<not> rank (rs ! (n - 1)) \<le> k"
    have "filter (\<lambda>x. rank x \<le> k) (drop (n - 1) rs) = []"
    proof (rule filter_False, rule ballI)
      fix x assume "x \<in> set (drop (n - 1) rs)"
      then obtain j where j: "j < length rs - (n - 1)" "x = rs ! (n - 1 + j)" using l by (auto simp: in_set_conv_nth)
      then have "n - 1 + j < length rs" by linarith
      then have "rank (rs ! (n - 1)) \<le> rank x" using lt [of "n - 1" "n - 1 + j"] j(2) by (cases "j = 0") auto
      with c show "\<not> rank x \<le> k" by simp
    qed
    then have "length (filter (\<lambda>x. rank x \<le> k) (take (n - 1) rs @ drop (n - 1) rs)) \<le> n - 1"
      unfolding filter_append by (simp add: order_trans [OF length_filter_le])
    then have "n \<le> n - 1" by (simp only: append_take_drop_id n(1) count_le_def)
    then show False using n(2) by simp
  qed
  assume nl: "n < length rs"
  show "k < rank (rs ! n)"
  proof (rule ccontr)
    assume c: "\<not> k < rank (rs ! n)"
    have "filter (\<lambda>x. rank x \<le> k) (take (Suc n) rs) = take (Suc n) rs"
    proof (rule filter_True, rule ballI)
      fix x assume "x \<in> set (take (Suc n) rs)"
      then obtain j where j: "j < Suc n" "x = rs ! j" using nl by (auto simp: in_set_conv_nth)
      then have "rank x \<le> rank (rs ! n)" using lt [of j n] nl by (cases "j = n") auto
      with c show "rank x \<le> k" by simp
    qed
    then have "Suc n \<le> length (filter (\<lambda>x. rank x \<le> k) (take (Suc n) rs @ drop (Suc n) rs))"
      unfolding filter_append using nl by simp
    then have "Suc n \<le> n" by (simp only: append_take_drop_id n(1) count_le_def)
    then show False by simp
  qed
qed

lemma node_record_at:
  assumes ok: "node_ok h d rs" and i: "i < length rs"
  shows "drop (off h d i) d = rs ! i @ drop (off h d i + length (rs ! i)) d"
proof -
  have "rng d (off h d i) (length (rs ! i)) = rs ! i" using node_okD(10) [OF ok i] by simp
  then have "take (length (rs ! i)) (drop (off h d i) d) = rs ! i" by (simp add: rng_def)
  then show ?thesis by (metis append_take_drop_id drop_drop add.commute)
qed

context ranked_keys
begin

lemma compare_at:
  assumes "node_ok h d rs" "i < length rs" "\<forall>r\<in>set rs. key_ok r" "key_ok key"
  shows "cmp (drop (off h d i) d) key < 0 \<longleftrightarrow> rank (rs ! i) < rank key"
    "cmp (drop (off h d i) d) key = 0 \<longleftrightarrow> rank (rs ! i) = rank key"
    "0 < cmp (drop (off h d i) d) key \<longleftrightarrow> rank key < rank (rs ! i)"
    "cmp (drop (off h d i) d) key \<le> 0 \<longleftrightarrow> rank (rs ! i) \<le> rank key"
  using assms
  by (simp_all add: node_record_at cmp_less cmp_equal cmp_greater cmp_le ok_append rank_append)

lemma search_loop_ok:
  assumes ok: "node_ok h d rs" and ks: "\<forall>r\<in>set rs. key_ok r" "key_ok key" and so: "sorted_less (map rank rs)"
  shows "first < lst \<Longrightarrow> lst < length rs \<Longrightarrow> rank (rs ! first) \<le> rank key \<Longrightarrow> rank key < rank (rs ! lst) \<Longrightarrow>
    lst - first \<le> fuel \<Longrightarrow>
    \<exists>p. search_loop cmp h d key fuel first lst (off h d first) = Ok (int p, off h d p) \<and> p + 1 < length rs \<and>
      rank (rs ! p) \<le> rank key \<and> rank key < rank (rs ! (p + 1))"
proof (induction fuel arbitrary: first lst)
  case (Suc fuel)
  show ?case
  proof (cases "first + 1 < lst")
    case False
    then have "lst = first + 1" using Suc.prems(1) by simp
    then show ?thesis using Suc.prems by auto
  next
    case True
    define mid where "mid = first + (lst + 1 - first) div 2"
    have m: "first < mid" "mid < lst" using True by (auto simp: mid_def)
    have g: "get_record h d mid = Ok (off h d mid)" using get_record_ok(1) [OF ok] m Suc.prems(2) by simp
    have lt: "rank (rs ! mid) < rank (rs ! (mid + 1))"
      using so m Suc.prems(2) by (simp add: sorted_wrt_iff_nth_less)
    have st: "search_loop cmp h d key (Suc fuel) first lst (off h d first) =
      (if cmp (drop (off h d mid) d) key = 0 then Ok (int mid, off h d mid)
       else if cmp (drop (off h d mid) d) key < 0 then search_loop cmp h d key fuel mid lst (off h d mid)
       else search_loop cmp h d key fuel first mid (off h d first))"
      unfolding search_loop.simps Let_def mid_def [symmetric] g using True by simp
    note c = compare_at [OF ok _ ks, of mid]
    consider "rank (rs ! mid) = rank key" | "rank (rs ! mid) < rank key" | "rank key < rank (rs ! mid)"
      by (rule linorder_cases)
    then show ?thesis
    proof cases
      case 1
      then have "search_loop cmp h d key (Suc fuel) first lst (off h d first) = Ok (int mid, off h d mid)"
        using c(2) st m Suc.prems(2) by simp
      then show ?thesis using 1 lt m Suc.prems(2) by auto
    next
      case 2
      then have "search_loop cmp h d key (Suc fuel) first lst (off h d first) = search_loop cmp h d key fuel mid lst (off h d mid)"
        using c(1,2) st m Suc.prems(2) by simp
      then show ?thesis using Suc.IH [of mid lst] 2 m Suc.prems by simp
    next
      case 3
      then have "\<not> cmp (drop (off h d mid) d) key < 0" "cmp (drop (off h d mid) d) key \<noteq> 0"
        using c(1,2) m Suc.prems(2) by auto
      then have "search_loop cmp h d key (Suc fuel) first lst (off h d first) = search_loop cmp h d key fuel first mid (off h d first)"
        using st by simp
      then show ?thesis using Suc.IH [of first mid] 3 m Suc.prems by simp
    qed
  qed
qed simp

lemma binary_search_ok:
  assumes ok: "node_ok h d rs" and ks: "\<forall>r\<in>set rs. key_ok r" "key_ok key" and so: "sorted_less (map rank rs)"
    and ne: "rs \<noteq> []"
  defines "n \<equiv> count_le rank rs (rank key)"
  shows "binary_search cmp h d key = (if n = 0 then Err ENOENT else Ok (int (n - 1), off h d (n - 1)))"
proof -
  have rc: "descr_recs_count d = length rs" using node_okD(4) [OF ok] by simp
  have l: "0 < length rs" using ne by simp
  have g0: "get_record h d 0 = Ok (off h d 0)" using get_record_ok(1) [OF ok] l by simp
  note c0 = compare_at [OF ok l ks]
  show ?thesis
  proof (cases "rank key < rank (rs ! 0)")
    case True
    then show ?thesis using count_le_0 [OF ne so] c0(3) g0 by (simp add: binary_search_def n_def)
  next
    case False
    let ?l = "length rs - 1"
    have ll: "?l < length rs" using l by simp
    have gl: "get_record h d ?l = Ok (off h d ?l)" using get_record_ok(1) [OF ok] l by simp
    have nl: "nat (int (length rs) - 1) = ?l" "int (length rs) - 1 = int ?l" using l by (simp_all add: of_nat_diff del: length_greater_0_conv)
    note cl = compare_at [OF ok ll ks]
    have "\<exists>p. binary_search cmp h d key = Ok (int p, off h d p) \<and> p < length rs \<and> rank (rs ! p) \<le> rank key \<and>
        (p + 1 < length rs \<longrightarrow> rank key < rank (rs ! (p + 1)))"
    proof (cases "rank (rs ! 0) = rank key \<or> length rs = 1")
      case True
      then have "binary_search cmp h d key = Ok (0, off h d 0)"
        using False c0(2,3) g0 rc l by (auto simp: binary_search_def Let_def)
      moreover have "rank key < rank (rs ! 1)" if "1 < length rs"
        using True that l sorted_wrt_nth_less [OF so, of 0 1] by (auto simp del: One_nat_def length_greater_0_conv)
      ultimately show ?thesis using l False by (intro exI [of _ 0]) auto
    next
      case two: False
      then have l2: "1 < length rs" using l by linarith
      have b: "binary_search cmp h d key =
        (if cmp (drop (off h d ?l) d) key \<le> 0 then Ok (int ?l, off h d ?l)
         else search_loop cmp h d key (length rs) 0 ?l (off h d 0))"
      proof -
        have "\<not> 0 < cmp (drop (off h d 0) d) key" "cmp (drop (off h d 0) d) key \<noteq> 0" using False two c0(2,3) by auto
        moreover have "int ?l \<noteq> 0" "\<not> int ?l < 0" using l2 by auto
        ultimately show ?thesis
          unfolding binary_search_def Let_def rc nl(2) g0 and_then.simps nat_int gl by (simp only: if_False simp_thms)
      qed
      show ?thesis
      proof (cases "rank (rs ! ?l) \<le> rank key")
        case True
        then show ?thesis using b cl(4) ll by (intro exI [of _ ?l]) auto
      next
        case gt: False
        have "0 < ?l" "rank (rs ! 0) \<le> rank key" using l2 False by auto
        from search_loop_ok [OF ok ks so this(1) ll this(2), of "length rs"] gt b cl(4) show ?thesis by fastforce
      qed
    qed
    then obtain p where p: "binary_search cmp h d key = Ok (int p, off h d p)" "p < length rs" "rank (rs ! p) \<le> rank key"
      "p + 1 < length rs \<Longrightarrow> rank key < rank (rs ! (p + 1))" by blast
    have "n = Suc p" unfolding n_def using count_le_Suc [OF so p(2-4)] by simp
    then show ?thesis using p(1) by simp
  qed
qed

end

end
