(* ===== verification/Btree_Node_Claims.thy ===== *)
theory Btree_Node_Claims
  imports Btree_Search
begin

text \<open>
  The properties of one B-tree node: its operations refine insertion into and removal from
  the list of its records, the search finds the right position, and a record that was added
  where the search pointed is found again.
\<close>

section \<open>Placing a whole record\<close>

lemma le_bytes_val: "length bs = n \<Longrightarrow> le_bytes n (le_val bs) = bs"
proof (induction bs arbitrary: n)
  case (Cons b bs)
  have "(unat b + 256 * le_val bs) div 256 = le_val bs" using u8_bound [of b] by simp
  moreover have "(of_nat (unat b + 256 * le_val bs) :: u8) = b"
  proof -
    have "unat (of_nat (unat b + 256 * le_val bs) :: u8) = unat b"
      using u8_bound [of b] unfolding u8_of_nat by simp
    then show ?thesis by (simp only: word_unat_eq_iff)
  qed
  ultimately show ?case using Cons by auto
qed simp

lemma wr_rd_same: "p + w \<le> length d \<Longrightarrow> wr w d p (rd w d p) = d"
  unfolding wr_def rd_def by (simp add: le_bytes_val) (simp add: put_def rng_def, metis append_take_drop_id drop_drop add.commute)

lemma place_record_ok:
  assumes ok: "node_ok h d rs" and pos: "pos \<le> length rs" and r: "record_ok r" "length r + 4 \<le> descr_free_space d"
  shows "\<exists>d'. place_into_node h d r (length r) pos False = Ok (recs_end rs, d') \<and> node_ok h d' (insert_at pos r rs) \<and>
    rng d' 16 13 = rng d 16 13 \<and> off h d' pos = recs_end rs"
proof -
  have "length r < 2 ^ 16" using r(2) node_okD(2,5) [OF ok] by linarith
  then have m: "length r = (if False then key_len r else length r mod 2 ^ 16)" by simp
  have r': "12 \<le> length r" "wr 4 r 8 (length r) = r"
    using r(1) wr_rd_same [of 8 4 r] by (auto simp: record_ok_def record_len_def)
  from place_into_node_ok [OF ok pos r(2) m r'(1) order_refl order_refl] r'(2) show ?thesis by fastforce
qed

context ranked_keys
begin

lemma sorted_insert_at:
  assumes so: "sorted_less (map rank rs)" and n: "n = count_le rank rs (rank r)" "0 < n" and ne: "rank (rs ! (n - 1)) \<noteq> rank r"
  shows "n \<le> length rs" "sorted_less (map rank (insert_at n r rs))" "count_le rank (insert_at n r rs) (rank r) = n + 1"
proof -
  show l: "n \<le> length rs" by (simp add: n(1) count_le_def)
  have lt: "rank (rs ! i) < rank (rs ! j)" if "i < j" "j < length rs" for i j
    using so that by (simp add: sorted_wrt_iff_nth_less)
  have b: "rank (rs ! (n - 1)) < rank r" "n < length rs \<Longrightarrow> rank r < rank (rs ! n)"
    using count_le_bounds [OF so n(1)] n(2) ne by auto
  have lo: "rank (rs ! i) < rank r" if "i < n" for i
  proof -
    have "i = n - 1 \<or> i < n - 1 \<and> n - 1 < length rs" using that l by linarith
    then show ?thesis using b(1) lt [of i "n - 1"] by (auto dest: less_trans)
  qed
  have hi: "rank r < rank (rs ! i)" if "n \<le> i" "i < length rs" for i
    using b(2) lt [of n i] that by (cases "i = n") (auto dest: less_trans)
  have t: "rank x < rank r" if "x \<in> set (take n rs)" for x using that lo l by (auto simp: in_set_conv_nth)
  have d: "rank r < rank x" if "x \<in> set (drop n rs)" for x
    using that hi by (auto simp: in_set_conv_nth less_diff_conv add.commute)
  have "sorted_less (map rank (take n rs))" "sorted_less (map rank (drop n rs))"
    using so by (simp_all add: sorted_wrt_take sorted_wrt_drop flip: take_map drop_map)
  then show s: "sorted_less (map rank (insert_at n r rs))"
    using t d by (auto simp: insert_at_def sorted_wrt_append dest: less_trans)
  have "filter (\<lambda>x. rank x \<le> rank r) (drop n rs) = []" using d by (auto simp: filter_empty_conv not_le)
  then have "count_le rank (insert_at n r rs) (rank r) = length (filter (\<lambda>x. rank x \<le> rank r) (take n rs)) + 1"
    by (simp add: count_le_def insert_at_def)
  also have "filter (\<lambda>x. rank x \<le> rank r) (take n rs) = take n rs" using t by (auto simp: filter_id_conv less_imp_le)
  finally show "count_le rank (insert_at n r rs) (rank r) = n + 1" using l by simp
qed

lemma insert_lookup:
  assumes ok: "node_ok h d rs" and ks: "\<forall>x\<in>set rs. key_ok x" "key_ok r" and so: "sorted_less (map rank rs)"
    and ne: "rs \<noteq> []" and r: "record_ok r" "length r + 4 \<le> descr_free_space d"
    and found: "binary_search cmp h d r = Ok (p, q)" and new: "cmp (drop q d) r \<noteq> 0"
  shows "\<exists>d'. place_into_node h d r (length r) (nat p + 1) False = Ok (recs_end rs, d') \<and>
    node_ok h d' (insert_at (nat p + 1) r rs) \<and> sorted_less (map rank (insert_at (nat p + 1) r rs)) \<and>
    binary_search cmp h d' r = Ok (p + 1, recs_end rs) \<and> rng d' (recs_end rs) (length r) = r"
proof -
  define n where "n = count_le rank rs (rank r)"
  have n0: "0 < n" and pq: "p = int (n - 1)" "q = off h d (n - 1)"
    using found binary_search_ok [OF ok ks so ne] by (auto simp: n_def split: if_splits)
  have nl: "n \<le> length rs" by (simp add: n_def count_le_def)
  then have "rank (rs ! (n - 1)) \<noteq> rank r" using new compare_at(2) [OF ok _ ks, of "n - 1"] n0 pq(2) by auto
  note s = sorted_insert_at [OF so n_def n0 this]
  have np: "nat p + 1 = n" using pq(1) n0 by simp
  obtain d' where d': "place_into_node h d r (length r) n False = Ok (recs_end rs, d')" "node_ok h d' (insert_at n r rs)"
    "off h d' n = recs_end rs"
    using place_record_ok [OF ok nl r] by blast
  have "\<forall>x\<in>set (insert_at n r rs). key_ok x" using ks by simp
  moreover have "insert_at n r rs \<noteq> []" by (simp add: insert_at_def)
  moreover note c = calculation
  from binary_search_ok [OF d'(2) c(1) ks(2) s(2) c(2)] have b: "binary_search cmp h d' r = Ok (int n, recs_end rs)"
    by (simp add: s(3) d'(3))
  have "rng d' (recs_end rs) (length r) = r"
    using node_okD(10) [OF d'(2), of n] d'(3) nl by simp
  then show ?thesis using d' b s(2) pq(1) n0 unfolding np by (intro exI [of _ d']) simp
qed

end

section \<open>The two ways of adding a record\<close>

lemma insert_into_node_eq_place:
  assumes ok: "node_ok h d rs" and pos: "pos \<le> length rs" and r: "record_ok r" "length r + 4 \<le> descr_free_space d"
  shows "insert_into_node h d r pos = and_then (place_into_node h d r (length r) pos False) (\<lambda>(p, d'). Ok d')"
proof -
  note k = node_okD [OF ok]
  let ?F = "recs_end rs" and ?n = "length rs" and ?L = "length r"
  have room: "?F + ?L + 4 * ?n + 12 \<le> node_size_bytes h" using r(2) k(3,5) by linarith
  have rl: "12 \<le> ?L" "record_len r = ?L" using r(1) by (simp_all add: record_ok_def)
  have sn: "8 + 4 * ?n \<le> node_size_bytes h" "8 + 4 * pos \<le> node_size_bytes h" using room pos by simp_all
  have Fd: "?F + ?L \<le> length d" using room k(1) by simp
  define d1 where "d1 = put d ?F r"
  have same: "wr 4 d1 (?F + 8) ?L = d1"
  proof -
    have "rd 4 d1 (?F + 8) = rd 4 r 8"
      unfolding d1_def rd_def using rng_put_inside [OF Fd, of "?F + 8" 4] rl(1) by simp
    then show ?thesis using wr_rd_same [of "?F + 8" 4 d1] rl Fd by (simp add: record_len_def d1_def)
  qed
  have l1: "length d1 = node_size_bytes h" using Fd k(1) by (simp add: d1_def)
  note o = opened_ok [OF l1 sn(1) pos]
  let ?d2 = "opened h d1 ?n pos"
  have open': "(if pos < ?n then memmove d1 (slot h ?n) (slot h ?n + OFF_SIZE) ((?n - pos) * OFF_SIZE) else d1) = ?d2"
    by (simp add: opened_def OFF_SIZE_def)
  have sF: "?F \<le> slot h pos" "slot h pos + 4 \<le> length d" "29 \<le> ?F" using node_slot(2,3) [OF ok pos] recs_end_ge [of rs] by simp_all
  let ?d3 = "wr 4 ?d2 (slot h pos) ?F"
  have c3: "check_set_offset h ?d2 pos ?F = Ok ?d3" using sn(2) room sF k(2) by (intro set_offset_ok) auto
  have fs: "descr_free_space ?d3 = descr_free_space d"
  proof -
    have "rng ?d3 12 2 = rng ?d2 12 2" using sF l1 o(1) k(1) by (intro rng_wr_other) auto
    also have "\<dots> = rng d1 12 2" using o(3) [of 12 2] sF node_slot(2) [OF ok order_refl] by simp
    also have "\<dots> = rng d 12 2" unfolding d1_def using Fd sF by (intro rng_put_other) auto
    finally show ?thesis by (simp add: descr_free_space_def rd_def)
  qed
  let ?d4 = "set_recs_count (?n + 1) ?d3"
  have l3: "length ?d3 = node_size_bytes h" using o(1) l1 sF k(1) by simp
  have "rd 2 (wr 2 ?d3 14 (?n + 1)) 12 = rd 2 ?d3 12" using l3 room sF(3) by (intro rd_wr_other) simp_all
  then have fs4: "descr_free_space ?d4 = descr_free_space d"
    using fs by (simp only: descr_free_space_def set_recs_count_def)
  have sb: "sub32 (descr_free_space d) (?L + OFF_SIZE) = descr_free_space d - (?L + OFF_SIZE)"
    using r(2) k(2,5) by (intro sub32_eq) (auto simp: OFF_SIZE_def)
  have ic: "is_offset_correct h ?F" "rd 4 d (slot h ?n) = ?F" "vdfs2_get_offset_addr h ?n = Ok (slot h ?n)"
    using room sF k(6) sn(1) by (simp_all add: is_offset_correct_def off_def offset_addr_ok)
  have md: "?L mod 2 ^ 16 = ?L" using room k(2) by simp
  have L: "insert_into_node h d r pos =
    check_set_offset h (set_free_space (descr_free_space d - (?L + OFF_SIZE)) ?d4) ((?n + 1) mod 2 ^ 16) (?F + ?L)"
    using r(2) Fd fs
    unfolding insert_into_node_def k(4) rl(2) Let_def ic and_then.simps take_all [OF order_refl] d1_def [symmetric] open' c3 fs fs4 sb
    by (simp add: ic OFF_SIZE_def)
  have P: "place_into_node h d r ?L pos False =
    and_then (check_set_offset h (set_free_space (descr_free_space d - (?L + OFF_SIZE)) ?d4) ((?n + 1) mod 2 ^ 16) (?F + ?L))
      (\<lambda>d'. Ok (?F, d'))"
    using r(2) Fd rl(1)
    unfolding place_into_node_def k(4) Let_def ic and_then.simps if_False md take_all [OF order_refl] d1_def [symmetric]
      same open' c3
    by (simp add: ic OFF_SIZE_def GEN_KEY_SIZE_def)
  show ?thesis unfolding L P
    by (cases "check_set_offset h (set_free_space (descr_free_space d - (?L + OFF_SIZE)) ?d4) ((?n + 1) mod 2 ^ 16) (?F + ?L)") simp_all
qed

lemma node_len: "node_ok h d rs \<Longrightarrow> 29 \<le> length d"
  using node_okD(1,3) [of h d rs] recs_end_ge [of rs] by simp

lemma descr_fields_same:
  assumes "rng d' 16 13 = rng d 16 13" "29 \<le> length d" "29 \<le> length d'"
  shows "descr_node_id d' = descr_node_id d" "descr_prev d' = descr_prev d" "descr_next d' = descr_next d"
    "descr_type d' = descr_type d"
proof -
  have "rd w d' (16 + q) = rd w d (16 + q)" if "q + w \<le> 13" for q w
    using rd_rng [of q w 13 16 d'] rd_rng [of q w 13 16 d] that assms by simp
  from this [of 0 4] this [of 4 4] this [of 8 4] this [of 12 1]
  show "descr_node_id d' = descr_node_id d" "descr_prev d' = descr_prev d" "descr_next d' = descr_next d"
    "descr_type d' = descr_type d"
    by (simp_all add: descr_node_id_def descr_prev_def descr_next_def descr_type_def)
qed

text \<open>The bytes of a catalog key.\<close>

definition cat_key :: "nat \<Rightarrow> u8 list \<Rightarrow> u8 list" where
  "cat_key parent name = replicate 13 0 @ le_bytes 8 parent @ le_bytes 4 (length name) @ name"

lemma cat_key_fields:
  "rd 8 (cat_key p name) 13 = p mod 2 ^ 64" "rd 4 (cat_key p name) 21 = length name mod 2 ^ 32"
  by (simp_all add: cat_key_def rd_def rng_def le_val_bytes)

section \<open>Properties\<close>

text \<open>
  C6. Adding a record to a well-formed node with room for it, at any position up to the end,
  succeeds. The node stays well-formed, its records are the old ones with the new one
  inserted at the position, and number, type and links of the node are unchanged. A freshly
  initialised node has no records.
\<close>

theorem place_record_correct:
  assumes "node_ok h d rs" "pos \<le> length rs" "record_ok r" "length r + OFF_SIZE \<le> descr_free_space d"
    and "length bytes = node_size_bytes h"
  shows "(\<exists>d'. place_into_node h d r (length r) pos False = Ok (recs_end rs, d') \<and> node_ok h d' (insert_at pos r rs) \<and>
      descr_node_id d' = descr_node_id d \<and> descr_prev d' = descr_prev d \<and> descr_next d' = descr_next d \<and>
      descr_type d' = descr_type d) \<and>
    (\<exists>d0. init_new_node_descr h bytes nid ty = Ok d0 \<and> node_ok h d0 [] \<and> descr_node_id d0 = nid mod 2 ^ 32 \<and>
      descr_prev d0 = 0 \<and> descr_next d0 = 0)"
proof
  from place_record_ok [OF assms(1-3)] assms(4) obtain d' where
    d': "place_into_node h d r (length r) pos False = Ok (recs_end rs, d')" "node_ok h d' (insert_at pos r rs)"
    "rng d' 16 13 = rng d 16 13" by (auto simp: OFF_SIZE_def)
  show "\<exists>d'. place_into_node h d r (length r) pos False = Ok (recs_end rs, d') \<and> node_ok h d' (insert_at pos r rs) \<and>
      descr_node_id d' = descr_node_id d \<and> descr_prev d' = descr_prev d \<and> descr_next d' = descr_next d \<and>
      descr_type d' = descr_type d"
    using d' descr_fields_same [OF d'(3)] node_len [OF assms(1)] node_len [OF d'(2)] by blast
  show "\<exists>d0. init_new_node_descr h bytes nid ty = Ok d0 \<and> node_ok h d0 [] \<and> descr_node_id d0 = nid mod 2 ^ 32 \<and>
      descr_prev d0 = 0 \<and> descr_next d0 = 0"
    using init_node_ok [OF assms(5), of nid ty] node_okD(2,3) [OF assms(1)] recs_end_ge [of rs] by fastforce
qed

text \<open>
  C29. Deleting a record of a well-formed node succeeds, keeps the node well-formed and
  removes exactly this record from its list, provided that the record is not longer than
  the limit \<^verbatim>\<open>VDFS2_MAX_BTREE_REC_LEN\<close>.
\<close>

theorem delete_record_correct:
  assumes "node_ok h d rs" "i < length rs" "length (rs ! i) \<le> VDFS2_MAX_BTREE_REC_LEN"
  shows "\<exists>d'. delete_from_node h d i = Ok d' \<and> node_ok h d' (remove_at i rs) \<and> descr_node_id d' = descr_node_id d \<and>
    descr_prev d' = descr_prev d \<and> descr_next d' = descr_next d \<and> descr_type d' = descr_type d"
proof -
  obtain d' where d': "delete_from_node h d i = Ok d'" "node_ok h d' (remove_at i rs)" "rng d' 16 13 = rng d 16 13"
    using delete_from_node_ok [OF assms] by blast
  then show ?thesis using descr_fields_same [OF d'(3)] node_len [OF assms(1)] node_len [OF d'(2)] by blast
qed

text \<open>
  When the room suffices for the record and an entry of the offset table, the older
  function for adding a record, which copies the whole record, does the same as the newer one.
\<close>

theorem insert_into_node_equivalent:
  assumes "node_ok h d rs" "pos \<le> length rs" "record_ok r" "length r + OFF_SIZE \<le> descr_free_space d"
  shows "insert_into_node h d r pos = and_then (place_into_node h d r (length r) pos False) (\<lambda>(p, d'). Ok d')"
  using insert_into_node_eq_place [OF assms(1-3)] assms(4) by (simp add: OFF_SIZE_def)

text \<open>
  The function that hands out a record checks the index against the number of records
  with the wrong comparison: at the first index behind the last record it returns the
  address of the free space as if it were a record. From the next index on it fails.
\<close>

theorem get_record_past_the_end:
  assumes "node_ok h d rs"
  shows "get_record h d (length rs) = Ok (recs_end rs) \<and> (\<forall>i > length rs. get_record h d i = Err EINVAL) \<and>
    (\<forall>i < length rs. \<exists>p. get_record h d i = Ok p \<and> rng d p (length (rs ! i)) = rs ! i)"
  using get_record_at_end [OF assms] get_record_beyond [OF assms] get_record_ok(1,2) [OF assms] by blast

text \<open>
  C30. In a node of the extents tree whose records are sorted by object and file block,
  the binary search finds the last record that is not greater than the key, and reports
  ENOENT exactly when the first record is greater.
\<close>

theorem exttree_search_correct:
  assumes "node_ok h d rs" "\<forall>r\<in>set rs. ext_key_ok r" "ext_key_ok key" "sorted_less (map ext_rank rs)" "rs \<noteq> []"
  shows "binary_search vdfs2_exttree_cmpfn h d key =
    (let n = count_le ext_rank rs (ext_rank key) in if n = 0 then Err ENOENT else Ok (int (n - 1), off h d (n - 1)))"
  using ext_keys.binary_search_ok [OF assms] by (simp only: Let_def)

text \<open>
  C31. Insertion and lookup in a node of the catalog tree. When the search for a record's key
  points to a record with another key, adding the record behind that one keeps the node
  sorted by parent and name, and the next search for the key finds the new record with all
  its bytes.
\<close>

theorem catalog_insert_lookup:
  assumes "node_ok h d rs" "\<forall>x\<in>set rs. cat_key_ok x" "cat_key_ok r" "sorted_less (map (cat_rank (\<lambda>c. c)) rs)"
    and "rs \<noteq> []" "record_ok r" "length r + OFF_SIZE \<le> descr_free_space d"
    and "binary_search vdfs2_cattree_cmpfn h d r = Ok (p, q)" "vdfs2_cattree_cmpfn (drop q d) r \<noteq> 0"
  shows "\<exists>d'. place_into_node h d r (length r) (nat p + 1) False = Ok (recs_end rs, d') \<and>
    node_ok h d' (insert_at (nat p + 1) r rs) \<and> sorted_less (map (cat_rank (\<lambda>c. c)) (insert_at (nat p + 1) r rs)) \<and>
    binary_search vdfs2_cattree_cmpfn h d' r = Ok (p + 1, recs_end rs) \<and> rng d' (recs_end rs) (length r) = r"
  using cat_keys.insert_lookup [OF assms(1-6) _ assms(8,9)] assms(7) by (simp add: OFF_SIZE_def)

text \<open>
  Beyond the range of a 32-bit integer the catalog's comparison is not an order: two keys
  with the same name whose parents differ by 2 to the power 32 compare as equal, and parents
  0 and 2 to the power 31 are each less than the other.
\<close>

theorem cattree_cmpfn_truncates:
  "vdfs2_cattree_cmpfn (cat_key 0 name) (cat_key (2 ^ 32) name) = 0 \<and>
   vdfs2_cattree_cmpfn (cat_key 0 name) (cat_key (2 ^ 31) name) < 0 \<and>
   vdfs2_cattree_cmpfn (cat_key (2 ^ 31) name) (cat_key 0 name) < 0"
proof -
  have r: "rd 8 (cat_key p name) 13 = p" if "p < 2 ^ 64" for p using cat_key_fields(1) that by simp
  show ?thesis by (simp add: vdfs2_cattree_cmpfn_def cattree_cmp_def r to_int32_def)
qed

section \<open>Instances\<close>

definition sample_host :: node_host where
  "sample_host = \<lparr>node_size_bytes = 256, max_record_len = 100, mount_finished = True\<rparr>"

definition sample_empty :: "u8 list" where
  "sample_empty = (case init_new_node_descr sample_host (replicate 256 0) 2 1 of Ok d \<Rightarrow> d | _ \<Rightarrow> [])"

definition sample_with :: "u8 list \<Rightarrow> u8 list" where
  "sample_with r = (case place_into_node sample_host sample_empty r (length r) 0 False of Ok (p, d) \<Rightarrow> d | _ \<Rightarrow> [])"

definition ext_rec :: "nat \<Rightarrow> nat \<Rightarrow> u8 list" where
  "ext_rec obj iblock = le_bytes 4 0 @ le_bytes 4 28 @ le_bytes 4 40 @ le_bytes 8 obj @ le_bytes 8 iblock @ replicate 12 0"

definition cat_rec :: "nat \<Rightarrow> u8 list \<Rightarrow> u8 list" where
  "cat_rec parent name =
     le_bytes 4 0 @ le_bytes 4 (25 + length name) @ le_bytes 4 (25 + length name) @ drop 12 (cat_key parent name)"

lemma sample_empty_ok: "node_ok sample_host sample_empty []"
proof -
  obtain d where "init_new_node_descr sample_host (replicate 256 0) 2 1 = Ok d" "node_ok sample_host d []"
    using init_node_ok [of "replicate 256 0" sample_host 2 1] by (auto simp: sample_host_def)
  then show ?thesis by (simp add: sample_empty_def)
qed

lemma sample_with_ok:
  assumes "record_ok r" "length r \<le> 200"
  shows "node_ok sample_host (sample_with r) [r]"
proof -
  have "length r + 4 \<le> descr_free_space sample_empty"
    using node_okD(5) [OF sample_empty_ok] assms(2) by (simp add: sample_host_def recs_end_def)
  from place_record_ok [OF sample_empty_ok _ assms(1) this, of 0] obtain d where
    "place_into_node sample_host sample_empty r (length r) 0 False = Ok (29, d)" "node_ok sample_host d [r]"
    by (auto simp: recs_end_def insert_at_def)
  then show ?thesis by (simp add: sample_with_def)
qed

lemma sample_with_next:
  assumes "record_ok r" "length r \<le> 200"
  shows "descr_next (sample_with r) = 0"
proof -
  obtain d where d: "init_new_node_descr sample_host (replicate 256 0) 2 1 = Ok d" "descr_next d = 0"
    using init_node_ok [of "replicate 256 0" sample_host 2 1] by (auto simp: sample_host_def)
  have "length r + 4 \<le> descr_free_space sample_empty"
    using node_okD(5) [OF sample_empty_ok] assms(2) by (simp add: sample_host_def recs_end_def)
  then obtain d' where "place_into_node sample_host sample_empty r (length r) 0 False = Ok (29, d')"
    "rng d' 16 13 = rng sample_empty 16 13" "node_ok sample_host d' [r]"
    using place_record_ok [OF sample_empty_ok _ assms(1), of 0] by (auto simp: recs_end_def insert_at_def)
  then show ?thesis
    using descr_fields_same(3) [of d' sample_empty] node_len [OF sample_empty_ok] node_len d
    by (simp add: sample_with_def sample_empty_def)
qed

lemma sample_with_free: "record_ok r \<Longrightarrow> length r \<le> 200 \<Longrightarrow> descr_free_space (sample_with r) = 215 - length r"
  using node_okD(5) [OF sample_with_ok, of r] by (simp add: sample_host_def recs_end_def)

lemma ext_rec_ok: "record_ok (ext_rec obj ib)" "length (ext_rec obj ib) = 40" "ext_key_ok (ext_rec obj ib)"
  "ext_rank (ext_rec obj ib) = (obj mod 2 ^ 64, ib mod 2 ^ 64)"
  by (simp_all add: record_ok_def ext_rec_def record_len_def rd_def rng_def le_val_bytes ext_key_ok_def ext_rank_def)

lemma cat_rec_ok:
  assumes "length name < 100" "p < 2 ^ 31"
  shows "record_ok (cat_rec p name)" "length (cat_rec p name) = 25 + length name" "cat_key_ok (cat_rec p name)"
    "cat_rank (\<lambda>c. c) (cat_rec p name) = (p, map unat name)"
  using assms
  by (simp_all add: record_ok_def cat_rec_def cat_key_def record_len_def rd_def rng_def le_val_bytes cat_key_ok_def cat_rank_def
      name_codes_def)

theorem place_record_correct_witness:
  "\<exists>d'. place_into_node sample_host sample_empty (ext_rec 5 0) 40 0 False = Ok (29, d') \<and>
    node_ok sample_host d' [ext_rec 5 0] \<and> descr_next d' = descr_next sample_empty"
proof -
  have "length (ext_rec 5 0) + OFF_SIZE \<le> descr_free_space sample_empty"
    using node_okD(5) [OF sample_empty_ok] by (simp add: sample_host_def recs_end_def ext_rec_ok OFF_SIZE_def)
  from place_record_correct [OF sample_empty_ok _ ext_rec_ok(1) this, of 0 sample_empty] node_okD(1) [OF sample_empty_ok]
  show ?thesis
    by (auto simp: recs_end_def insert_at_def ext_rec_ok)
qed

theorem delete_record_correct_witness:
  "\<exists>d'. delete_from_node sample_host (sample_with (ext_rec 5 0)) 0 = Ok d' \<and> node_ok sample_host d' []"
  using delete_record_correct [OF sample_with_ok [OF ext_rec_ok(1)], of 5 0 0]
  by (auto simp: ext_rec_ok VDFS2_MAX_BTREE_REC_LEN_def remove_at_def)

theorem insert_into_node_equivalent_witness:
  "insert_into_node sample_host (sample_with (ext_rec 5 0)) (ext_rec 6 0) 1 =
    and_then (place_into_node sample_host (sample_with (ext_rec 5 0)) (ext_rec 6 0) 40 1 False) (\<lambda>(p, d'). Ok d')"
  using insert_into_node_equivalent [OF sample_with_ok [OF ext_rec_ok(1)], of 5 0 1 "ext_rec 6 0"]
    sample_with_free [OF ext_rec_ok(1), of 5 0]
  by (simp add: ext_rec_ok OFF_SIZE_def)

theorem get_record_past_the_end_witness:
  "get_record sample_host (sample_with (ext_rec 5 0)) 1 = Ok 69 \<and> get_record sample_host (sample_with (ext_rec 5 0)) 2 = Err EINVAL"
  using get_record_past_the_end [OF sample_with_ok [OF ext_rec_ok(1)], of 5 0]
  by (simp add: ext_rec_ok recs_end_def)

theorem exttree_search_correct_witness:
  "binary_search vdfs2_exttree_cmpfn sample_host (sample_with (ext_rec 5 0)) (ext_rec 4 7) = Err ENOENT"
  using exttree_search_correct [OF sample_with_ok [OF ext_rec_ok(1)], of 5 0 "ext_rec 4 7"]
  by (simp add: ext_rec_ok count_le_def less_eq_prod_def Let_def)

theorem catalog_insert_lookup_witness:
  "\<exists>d'. place_into_node sample_host (sample_with (cat_rec 5 [97])) (cat_rec 5 [98]) 26 1 False = Ok (55, d') \<and>
    binary_search vdfs2_cattree_cmpfn sample_host d' (cat_rec 5 [98]) = Ok (1, 55)"
proof -
  let ?a = "cat_rec 5 [97]" and ?b = "cat_rec 5 [98]"
  have a: "record_ok ?a" "length ?a = 26" "cat_key_ok ?a" "cat_rank (\<lambda>c. c) ?a = (5, [97])"
    and b: "record_ok ?b" "length ?b = 26" "cat_key_ok ?b" "cat_rank (\<lambda>c. c) ?b = (5, [98])"
    using cat_rec_ok [of "[97]" 5] cat_rec_ok [of "[98]" 5] by simp_all
  have ok: "node_ok sample_host (sample_with ?a) [?a]" using a by (intro sample_with_ok) simp_all
  have s: "binary_search vdfs2_cattree_cmpfn sample_host (sample_with ?a) ?b = Ok (0, off sample_host (sample_with ?a) 0)"
    using cat_keys.binary_search_ok [OF ok _ b(3)] a b by (simp add: count_le_def less_eq_prod_def)
  have n: "vdfs2_cattree_cmpfn (drop (off sample_host (sample_with ?a) 0) (sample_with ?a)) ?b \<noteq> 0"
    using cat_keys.compare_at(2) [OF ok _ _ b(3), of 0] a b by simp
  have f: "length ?b + OFF_SIZE \<le> descr_free_space (sample_with ?a)"
    using sample_with_free [OF a(1)] a(2) b(2) by (simp add: OFF_SIZE_def)
  from catalog_insert_lookup [OF ok _ b(3) _ _ b(1) f s n] a b show ?thesis
    by (auto simp: recs_end_def)
qed

end
