(* ===== verification/Runtime_Extents.thy ===== *)
theory Runtime_Extents
  imports Vdfs2_Prelude
begin

text \<open>
  The runtime extents of \<^verbatim>\<open>extents.c\<close>: the list of file blocks that were written to the page
  cache and have space reserved but no place on the device yet. The operations are compared
  with insertion into and removal from the set of these blocks.

  Block numbers are \<^verbatim>\<open>sector_t\<close> (64 bits) and counts \<^verbatim>\<open>u32\<close>; sums are taken modulo these
  widths as in C.
\<close>

record vdfs2_runtime_extent_info =
  iblock :: nat
  alloc_hint :: nat
  block_count :: nat

definition ext_end :: "vdfs2_runtime_extent_info \<Rightarrow> nat" where
  "ext_end e = (iblock e + block_count e) mod 2 ^ 64"

fun vdfs2_runtime_extent_add ::
  "nat \<Rightarrow> nat \<Rightarrow> vdfs2_runtime_extent_info list \<Rightarrow> mem \<Rightarrow> ret \<times> vdfs2_runtime_extent_info list \<times> mem" where
  "vdfs2_runtime_extent_add b hint [] m =
     (case kmem_alloc m of (ok, m1) \<Rightarrow>
        if \<not> ok then (Fail ENOMEM, [], m1)
        else (Success, [\<lparr>iblock = b, alloc_hint = hint, block_count = 1\<rparr>], m1))"
| "vdfs2_runtime_extent_add b hint (entry # rest) m =
     (if ext_end entry = b then
        (let entry' = entry\<lparr>block_count := (block_count entry + 1) mod 2 ^ 32\<rparr> in
         case rest of
           [] \<Rightarrow> (Success, [entry'], m)
         | next_entry # rest' \<Rightarrow>
             if ext_end entry' = iblock next_entry then
               (Success, next_entry\<lparr>iblock := iblock entry',
                  block_count := (block_count next_entry + block_count entry') mod 2 ^ 32\<rparr> # rest', m)
             else (Success, entry' # rest, m))
      else if iblock entry = (b + 1) mod 2 ^ 64 then
        (Success, entry\<lparr>iblock := (iblock entry + (2 ^ 64 - 1)) mod 2 ^ 64,
           block_count := (block_count entry + 1) mod 2 ^ 32\<rparr> # rest, m)
      else if iblock entry \<le> b \<and> b < ext_end entry then (Fail EEXIST, entry # rest, m)
      else if b < iblock entry then
        (case kmem_alloc m of (ok, m1) \<Rightarrow>
           if \<not> ok then (Fail ENOMEM, entry # rest, m1)
           else (Success, \<lparr>iblock = b, alloc_hint = hint, block_count = 1\<rparr> # entry # rest, m1))
      else
        (case vdfs2_runtime_extent_add b hint rest m of (r, es, m1) \<Rightarrow> (r, entry # es, m1)))"

text \<open>The part behind the block is linked in front of the entry it was cut from.\<close>

fun vdfs2_runtime_extent_del ::
  "nat \<Rightarrow> vdfs2_runtime_extent_info list \<Rightarrow> mem \<Rightarrow> ret \<times> vdfs2_runtime_extent_info list \<times> mem" where
  "vdfs2_runtime_extent_del b [] m = (Oops, [], m)"
| "vdfs2_runtime_extent_del b (entry # rest) m =
     (if iblock entry = b then
        (let entry' = entry\<lparr>iblock := (iblock entry + 1) mod 2 ^ 64, block_count := (block_count entry + (2 ^ 32 - 1)) mod 2 ^ 32\<rparr> in
         (Success, if block_count entry' = 0 then rest else entry' # rest, m))
      else if ext_end entry = (b + 1) mod 2 ^ 64 then
        (Success, entry\<lparr>block_count := (block_count entry + (2 ^ 32 - 1)) mod 2 ^ 32\<rparr> # rest, m)
      else if iblock entry \<le> b \<and> b < ext_end entry then
        (case kmem_alloc m of (ok, m1) \<Rightarrow>
           if \<not> ok then (Fail ENOMEM, entry # rest, m1)
           else
             (let new_ext = \<lparr>iblock = (b + 1) mod 2 ^ 64, alloc_hint = 0,
                    block_count = (ext_end entry + 2 ^ 64 - (b + 1) mod 2 ^ 64) mod 2 ^ 32\<rparr> in
              (Success, new_ext # entry\<lparr>block_count :=
                 (block_count entry + 2 ^ 32 - (block_count new_ext + 1) mod 2 ^ 32) mod 2 ^ 32\<rparr> # rest, m1)))
      else
        (case vdfs2_runtime_extent_del b rest m of (r, es, m1) \<Rightarrow> (r, entry # es, m1)))"

fun vdfs2_truncate_runtime_blocks :: "nat \<Rightarrow> vdfs2_runtime_extent_info list \<Rightarrow> nat \<times> vdfs2_runtime_extent_info list" where
  "vdfs2_truncate_runtime_blocks new_size [] = (0, [])"
| "vdfs2_truncate_runtime_blocks new_size (entry # rest) =
     (case vdfs2_truncate_runtime_blocks new_size rest of (freed, es) \<Rightarrow>
        if new_size \<le> iblock entry then ((freed + block_count entry) mod 2 ^ 64, es)
        else if new_size \<le> ext_end entry then
          (let trunc_size = new_size - iblock entry in
           ((freed + (block_count entry + 2 ^ 64 - trunc_size)) mod 2 ^ 64, entry\<lparr>block_count := trunc_size mod 2 ^ 32\<rparr> # es))
        else (freed, entry # es))"

definition vdfs2_runtime_extent_exists :: "nat \<Rightarrow> vdfs2_runtime_extent_info list \<Rightarrow> bool" where
  "vdfs2_runtime_extent_exists b es \<longleftrightarrow> (\<exists>entry\<in>set es. iblock entry \<le> b \<and> b < ext_end entry)"

fun vdfs2_runtime_extent_count :: "vdfs2_runtime_extent_info list \<Rightarrow> nat" where
  "vdfs2_runtime_extent_count [] = 0"
| "vdfs2_runtime_extent_count (entry # rest) = (block_count entry + vdfs2_runtime_extent_count rest) mod 2 ^ 32"

section \<open>The set of blocks\<close>

definition entry_blocks :: "vdfs2_runtime_extent_info \<Rightarrow> nat set" where
  "entry_blocks e = {iblock e..<iblock e + block_count e}"

definition rt_blocks :: "vdfs2_runtime_extent_info list \<Rightarrow> nat set" where
  "rt_blocks es = (\<Union>e\<in>set es. entry_blocks e)"

definition rt_total :: "vdfs2_runtime_extent_info list \<Rightarrow> nat" where
  "rt_total es = sum_list (map block_count es)"

definition ext_ok :: "vdfs2_runtime_extent_info \<Rightarrow> bool" where
  "ext_ok e \<longleftrightarrow> 0 < block_count e \<and> iblock e + block_count e < 2 ^ 64"

text \<open>No block in two extents; extents in order, with a gap between neighbours.\<close>

definition rt_disjoint :: "vdfs2_runtime_extent_info list \<Rightarrow> bool" where
  "rt_disjoint es \<longleftrightarrow> (\<forall>e\<in>set es. ext_ok e) \<and> rt_total es < 2 ^ 32 \<and>
     sorted_wrt (\<lambda>e f. entry_blocks e \<inter> entry_blocks f = {}) es"

definition rt_ordered :: "vdfs2_runtime_extent_info list \<Rightarrow> bool" where
  "rt_ordered es \<longleftrightarrow> (\<forall>e\<in>set es. ext_ok e) \<and> rt_total es < 2 ^ 32 \<and>
     sorted_wrt (\<lambda>e f. iblock e + block_count e < iblock f) es"

lemma rt_simps [simp]:
  "rt_blocks [] = {}" "rt_blocks (e # es) = entry_blocks e \<union> rt_blocks es"
  "rt_total [] = 0" "rt_total (e # es) = block_count e + rt_total es"
  by (simp_all add: rt_blocks_def rt_total_def)

lemma ext_end_ok [simp]: "ext_ok e \<Longrightarrow> ext_end e = iblock e + block_count e"
  by (simp add: ext_end_def ext_ok_def)

lemma mem_entry_blocks [simp]: "b \<in> entry_blocks e \<longleftrightarrow> iblock e \<le> b \<and> b < iblock e + block_count e"
  by (auto simp: entry_blocks_def)

lemma rt_ordered_disjoint: "rt_ordered es \<Longrightarrow> rt_disjoint es"
  unfolding rt_ordered_def rt_disjoint_def by (auto elim!: sorted_wrt_mono_rel [rotated])

lemma rt_exists: "\<forall>e\<in>set es. ext_ok e \<Longrightarrow> vdfs2_runtime_extent_exists b es \<longleftrightarrow> b \<in> rt_blocks es"
  by (auto simp: vdfs2_runtime_extent_exists_def rt_blocks_def)

lemma rt_count: "rt_total es < 2 ^ 32 \<Longrightarrow> vdfs2_runtime_extent_count es = rt_total es"
  by (induction es) simp_all

lemma rt_total_card: "rt_disjoint es \<Longrightarrow> card (rt_blocks es) = rt_total es"
proof (induction es)
  case (Cons e es)
  then have d: "entry_blocks e \<inter> rt_blocks es = {}" "rt_disjoint es"
    by (auto simp: rt_disjoint_def rt_blocks_def)
  have "finite (rt_blocks es)" by (simp add: rt_blocks_def entry_blocks_def)
  then have "card (rt_blocks (e # es)) = card (entry_blocks e) + card (rt_blocks es)"
    using d by (simp add: card_Un_disjoint entry_blocks_def)
  then show ?case using Cons.IH [OF d(2)] by (simp add: entry_blocks_def)
qed simp

section \<open>Adding a block\<close>

lemma ordered_Cons:
  "rt_ordered (e # es) \<longleftrightarrow> ext_ok e \<and> block_count e + rt_total es < 2 ^ 32 \<and> rt_ordered es \<and>
     (\<forall>f\<in>set es. iblock e + block_count e < iblock f)"
  by (auto simp: rt_ordered_def)

lemma add_existing:
  "rt_ordered es \<Longrightarrow> b \<in> rt_blocks es \<Longrightarrow> vdfs2_runtime_extent_add b hint es m = (Fail EEXIST, es, m)"
proof (induction es)
  case (Cons e es)
  have e: "ext_ok e" "rt_ordered es" "\<forall>f\<in>set es. iblock e + block_count e < iblock f"
    using Cons.prems(1) by (simp_all add: ordered_Cons)
  show ?case
  proof (cases "b \<in> entry_blocks e")
    case True
    then show ?thesis using e(1) by (auto simp: ext_ok_def)
  next
    case False
    then have b: "b \<in> rt_blocks es" using Cons.prems(2) by auto
    then obtain f where "f \<in> set es" "iblock f \<le> b" "b < iblock f + block_count f" by (auto simp: rt_blocks_def)
    then have "iblock e + block_count e < b" "b + 1 < 2 ^ 64" using e(2,3) by (auto simp: rt_ordered_def ext_ok_def)
    then show ?thesis using Cons.IH [OF e(2) b] e(1) by (auto simp: ext_ok_def)
  qed
qed simp

lemma add_new:
  assumes "rt_ordered es" "b \<notin> rt_blocks es" "b + 1 < 2 ^ 64" "rt_total es + 1 < 2 ^ 32"
    "vdfs2_runtime_extent_add b hint es m = (r, es', m')"
  shows "(r = Success \<and> rt_ordered es' \<and> rt_blocks es' = insert b (rt_blocks es) \<and> rt_total es' = rt_total es + 1 \<and>
      (\<forall>x < b. (\<forall>f\<in>set es. x < iblock f) \<longrightarrow> (\<forall>f\<in>set es'. x < iblock f))) \<or>
    (r = Fail ENOMEM \<and> es' = es)"
  using assms
proof (induction es arbitrary: r es' m')
  case Nil
  then show ?case
    by (auto simp: rt_ordered_def ext_ok_def entry_blocks_def split: prod.splits if_splits)
next
  case (Cons e es)
  have e: "ext_ok e" "rt_ordered es" "\<forall>f\<in>set es. iblock e + block_count e < iblock f"
    "block_count e + rt_total es + 1 < 2 ^ 32"
    using Cons.prems(1,4) by (simp_all add: ordered_Cons)
  have nb: "b \<notin> entry_blocks e" "b \<notin> rt_blocks es" using Cons.prems(2) by simp_all
  let ?e1 = "e\<lparr>block_count := block_count e + 1\<rparr>"
  consider (last) "iblock e + block_count e = b" | (first) "iblock e = b + 1" | (before) "b + 1 < iblock e"
    | (beyond) "iblock e + block_count e < b"
    using nb(1) by fastforce
  then show ?case
  proof cases
    case last
    have e1: "ext_ok ?e1" "ext_end ?e1 = b + 1" using e(1,4) Cons.prems(3) last by (auto simp: ext_ok_def ext_end_def)
    show ?thesis
    proof (cases es)
      case Nil
      then have "es' = [?e1]" "r = Success" using Cons.prems(5) e(1,4) last by simp_all
      then show ?thesis using e e1 Nil last by (auto simp: rt_ordered_def)
    next
      case (Cons f fs)
      have f: "ext_ok f" "b < iblock f" "rt_ordered fs" "\<forall>g\<in>set fs. iblock f + block_count f < iblock g"
        using e(2,3) last Cons by (simp_all add: ordered_Cons)
      have c: "block_count f + (block_count e + 1) < 2 ^ 32" "block_count e + 1 < 2 ^ 32"
        using e(4) Cons by simp_all
      show ?thesis
      proof (cases "iblock f = b + 1")
        case True
        let ?f = "f\<lparr>iblock := iblock e, block_count := block_count f + (block_count e + 1)\<rparr>"
        have "es' = ?f # fs" "r = Success" using Cons.prems(5) Cons e(1) e1(2) last c True by (simp_all add: Let_def)
        moreover have "ext_ok ?f" "iblock e + (block_count f + (block_count e + 1)) = iblock f + block_count f"
          using f(1) True last by (auto simp: ext_ok_def)
        ultimately show ?thesis
          using e f c True last Cons by (auto simp: ordered_Cons)
      next
        case False
        then have "es' = ?e1 # es" "r = Success" using Cons.prems(5) Cons e(1) e1(2) last c by (simp_all add: Let_def)
        then show ?thesis using e e1 f False last Cons by (auto simp: ordered_Cons)
      qed
    qed
  next
    case first
    let ?e2 = "e\<lparr>iblock := b, block_count := block_count e + 1\<rparr>"
    have "es' = ?e2 # es" "r = Success" using Cons.prems(3,5) first e(1,4) by (auto simp: ext_ok_def)
    then show ?thesis using first e by (auto simp: ordered_Cons ext_ok_def)
  next
    case before
    then have "(r = Success \<and> es' = \<lparr>iblock = b, alloc_hint = hint, block_count = 1\<rparr> # e # es) \<or> (r = Fail ENOMEM \<and> es' = e # es)"
      using Cons.prems(3,5) e(1) by (auto simp: ext_ok_def split: prod.splits if_splits)
    moreover have "\<forall>f\<in>set es. b + 1 < iblock f" using before e(3) by fastforce
    ultimately show ?thesis using before e Cons.prems(1,3) by (auto simp: ordered_Cons ext_ok_def)
  next
    case beyond
    obtain r1 es1 m1 where a: "vdfs2_runtime_extent_add b hint es m = (r1, es1, m1)" by (metis prod_cases3)
    then have s: "es' = e # es1" "r = r1" using Cons.prems(3,5) beyond e(1) by (auto simp: ext_ok_def)
    from Cons.IH [OF e(2) nb(2) Cons.prems(3) _ a] e(4) show ?thesis
      using s e beyond by (auto simp: ordered_Cons)
  qed
qed

section \<open>Deleting a block\<close>

lemma disjoint_Cons:
  "rt_disjoint (e # es) \<longleftrightarrow> ext_ok e \<and> block_count e + rt_total es < 2 ^ 32 \<and> rt_disjoint es \<and> entry_blocks e \<inter> rt_blocks es = {}"
  by (auto simp: rt_disjoint_def rt_blocks_def)

lemma del_existing:
  assumes "rt_disjoint es" "b \<in> rt_blocks es" "vdfs2_runtime_extent_del b es m = (r, es', m')"
  shows "(r = Success \<and> rt_disjoint es' \<and> rt_blocks es' = rt_blocks es - {b} \<and> rt_total es' + 1 = rt_total es) \<or>
    (r = Fail ENOMEM \<and> es' = es)"
  using assms
proof (induction es arbitrary: r es' m')
  case (Cons e es)
  have e: "ext_ok e" "rt_disjoint es" "entry_blocks e \<inter> rt_blocks es = {}" "block_count e + rt_total es < 2 ^ 32"
    using Cons.prems(1) by (simp_all add: disjoint_Cons)
  obtain n where n: "block_count e = Suc n" using e(1) by (cases "block_count e") (auto simp: ext_ok_def)
  then have md: "(block_count e + (2 ^ 32 - 1)) mod 2 ^ 32 = n" using e(4) by simp
  consider (out) "b \<notin> entry_blocks e" | (first) "iblock e = b" | (last) "iblock e < b" "iblock e + block_count e = b + 1"
    | (mid) "iblock e < b" "b + 1 < iblock e + block_count e"
    by fastforce
  then show ?case
  proof cases
    case out
    then have b: "b \<in> rt_blocks es" using Cons.prems(2) by auto
    obtain r1 es1 m1 where a: "vdfs2_runtime_extent_del b es m = (r1, es1, m1)" by (metis prod_cases3)
    have ne: "iblock e \<noteq> b" "iblock e + block_count e \<noteq> b + 1" using out e(1) by (auto simp: ext_ok_def)
    moreover have "b < 2 ^ 64 - 1"
      using b e(2) by (auto simp: rt_blocks_def rt_disjoint_def ext_ok_def)
    ultimately have s: "es' = e # es1" "r = r1" using Cons.prems(3) out e(1) a by auto
    from Cons.IH [OF e(2) b a] show ?thesis
      using s e b out by (auto simp: disjoint_Cons)
  next
    case first
    then have s: "r = Success" "es' = (if n = 0 then es else e\<lparr>iblock := b + 1, block_count := n\<rparr> # es)"
      using Cons.prems(3) md e(1) n by (auto simp: Let_def ext_ok_def)
    have u: "entry_blocks (e\<lparr>iblock := b + 1, block_count := n\<rparr>) = entry_blocks e - {b}" "b \<in> entry_blocks e"
      using first n by (auto simp: entry_blocks_def)
    moreover have "b \<notin> rt_blocks es" using u(2) e(3) by blast
    moreover have "n = 0 \<Longrightarrow> entry_blocks e = {b}" using n first by (auto simp: entry_blocks_def)
    ultimately show ?thesis using s e n first by (auto simp: disjoint_Cons ext_ok_def)
  next
    case last
    have s: "r = Success" "es' = e\<lparr>block_count := n\<rparr> # es"
      using Cons.prems(3) last md e(1) by (auto simp: ext_ok_def)
    have "entry_blocks (e\<lparr>block_count := n\<rparr>) = entry_blocks e - {b}" "b \<in> entry_blocks e"
      using last n by (auto simp: entry_blocks_def)
    moreover from this(2) have "b \<notin> rt_blocks es" using e(3) by blast
    ultimately show ?thesis using s e n last by (auto simp: disjoint_Cons ext_ok_def)
  next
    case mid
    define k where "k = iblock e + block_count e - (b + 1)"
    have k: "b + 1 + k = iblock e + block_count e" "0 < k" "k < 2 ^ 32" "b + 1 < 2 ^ 64"
      using mid e(1,4) by (auto simp: k_def ext_ok_def)
    let ?a = "\<lparr>iblock = b + 1, alloc_hint = 0, block_count = k\<rparr>" and ?c = "e\<lparr>block_count := b - iblock e\<rparr>"
    have kk: "(ext_end e + 2 ^ 64 - (b + 1) mod 2 ^ 64) mod 2 ^ 32 = k"
    proof -
      have "ext_end e + 2 ^ 64 - (b + 1) mod 2 ^ 64 = k + 2 ^ 32 * 2 ^ 32" using k e(1) by simp
      then show ?thesis using k(3) by (simp only: mod_mult_self2 mod_less)
    qed
    have cc: "(block_count e + 2 ^ 32 - (k + 1) mod 2 ^ 32) mod 2 ^ 32 = b - iblock e"
    proof -
      have "k + 1 < 2 ^ 32" "block_count e + 2 ^ 32 - (k + 1) = (b - iblock e) + 2 ^ 32" "b - iblock e < 2 ^ 32"
        using k mid e(4) by linarith+
      then show ?thesis by simp
    qed
    have run: "(r = Success \<and> es' = ?a # ?c # es) \<or> (r = Fail ENOMEM \<and> es' = e # es)"
      using Cons.prems(3) mid e(1) kk cc k(4) by (auto simp: Let_def split: prod.splits if_splits)
    have u: "entry_blocks ?a \<union> entry_blocks ?c = entry_blocks e - {b}" "entry_blocks ?a \<inter> entry_blocks ?c = {}"
      using mid k by (auto simp: entry_blocks_def)
    have o: "ext_ok ?a" "ext_ok ?c" "k + (b - iblock e) + 1 = block_count e"
      using mid k e(1) by (auto simp: ext_ok_def)
    have b: "b \<in> entry_blocks e" using mid by simp
    then have nb: "b \<notin> rt_blocks es" using e(3) by blast
    have x: "entry_blocks ?a \<inter> rt_blocks es = {}" "entry_blocks ?c \<inter> rt_blocks es = {}" using u(1) e(3) by blast+
    have bl: "rt_blocks (?a # ?c # es) = rt_blocks (e # es) - {b}" using u(1) nb unfolding rt_simps by blast
    have "rt_disjoint (?a # ?c # es)"
      unfolding disjoint_Cons rt_simps using o e(2,4) x u(2) by (simp add: Int_Un_distrib)
    moreover have "rt_total (?a # ?c # es) + 1 = rt_total (e # es)" using o(3) by simp
    ultimately show ?thesis using run bl by blast
  qed
qed simp

lemma del_missing: "rt_disjoint es \<Longrightarrow> b \<notin> rt_blocks es \<Longrightarrow> b + 1 < 2 ^ 64 \<Longrightarrow> vdfs2_runtime_extent_del b es m = (Oops, es, m)"
  by (induction es) (auto simp: disjoint_Cons ext_ok_def)

section \<open>Truncating\<close>

lemma truncate_blocks:
  assumes "rt_disjoint es" "vdfs2_truncate_runtime_blocks n es = (freed, es')"
  shows "rt_disjoint es' \<and> rt_blocks es' = {b \<in> rt_blocks es. b < n} \<and> freed + rt_total es' = rt_total es"
  using assms
proof (induction es arbitrary: freed es')
  case (Cons e es)
  have e: "ext_ok e" "rt_disjoint es" "entry_blocks e \<inter> rt_blocks es = {}" "block_count e + rt_total es < 2 ^ 32"
    using Cons.prems(1) by (simp_all add: disjoint_Cons)
  obtain f1 es1 where t: "vdfs2_truncate_runtime_blocks n es = (f1, es1)" by fastforce
  from Cons.IH [OF e(2) t] have ih: "rt_disjoint es1" "rt_blocks es1 = {b \<in> rt_blocks es. b < n}" "f1 + rt_total es1 = rt_total es"
    by simp_all
  consider (all) "n \<le> iblock e" | (part) "iblock e < n" "n \<le> iblock e + block_count e" | (none) "iblock e + block_count e < n"
    by linarith
  then show ?case
  proof cases
    case all
    then have "freed = f1 + block_count e" "es' = es1" using Cons.prems(2) t e(4) ih(3) by auto
    then show ?thesis using all ih e by (auto simp: disjoint_Cons)
  next
    case part
    let ?e = "e\<lparr>block_count := n - iblock e\<rparr>"
    have c: "n - iblock e < 2 ^ 32" "block_count e + 2 ^ 64 - (n - iblock e) = (block_count e - (n - iblock e)) + 2 ^ 64"
      using part e(4) by auto
    have "(f1 + (block_count e + 2 ^ 64 - (n - iblock e))) mod 2 ^ 64 = f1 + (block_count e - (n - iblock e))"
      unfolding c(2) add.assoc [symmetric] mod_add_self2 using e(4) ih(3) by simp
    then have "freed = f1 + (block_count e - (n - iblock e))" "es' = ?e # es1"
      using Cons.prems(2) t part e(1) c(1) by (simp_all add: Let_def)
    moreover have "entry_blocks ?e = {b \<in> entry_blocks e. b < n}" "ext_ok ?e" using part e(1) by (auto simp: ext_ok_def)
    moreover have "{b \<in> entry_blocks e. b < n} \<inter> {b \<in> rt_blocks es. b < n} = {}" using e(3) by blast
    moreover have "{b \<in> rt_blocks (e # es). b < n} = {b \<in> entry_blocks e. b < n} \<union> {b \<in> rt_blocks es. b < n}" by auto
    ultimately show ?thesis using part ih e by (simp add: disjoint_Cons)
  next
    case none
    then have "freed = f1" "es' = e # es1" using Cons.prems(2) t e(1) by auto
    moreover have "entry_blocks e = {b \<in> entry_blocks e. b < n}" using none by auto
    ultimately show ?thesis using none ih e by (auto simp: disjoint_Cons)
  qed
qed simp

section \<open>Properties\<close>

text \<open>
  C32. On an ordered list of runtime extents, adding a block reports EEXIST when the block is
  already there and otherwise adds exactly this block, joining neighbours so that the list
  stays ordered with gaps; when no memory is left the list is unchanged.
\<close>

theorem runtime_extent_add_correct:
  assumes "rt_ordered es" "b + 1 < 2 ^ 64" "rt_total es + 1 < 2 ^ 32" "vdfs2_runtime_extent_add b hint es m = (r, es', m')"
  shows "if vdfs2_runtime_extent_exists b es then r = Fail EEXIST \<and> es' = es
    else (r = Success \<and> rt_ordered es' \<and> rt_blocks es' = insert b (rt_blocks es) \<and>
            vdfs2_runtime_extent_count es' = vdfs2_runtime_extent_count es + 1) \<or>
         (r = Fail ENOMEM \<and> es' = es)"
proof -
  have ok: "\<forall>e\<in>set es. ext_ok e" using assms(1) by (simp add: rt_ordered_def)
  show ?thesis
  proof (cases "b \<in> rt_blocks es")
    case True
    then show ?thesis using add_existing [OF assms(1), of b hint m] assms(4) rt_exists [OF ok] by simp
  next
    case False
    then show ?thesis using add_new [OF assms(1) _ assms(2-4)] rt_exists [OF ok] assms(3) by (auto simp: rt_count)
  qed
qed

text \<open>
  C33. On a list without overlaps, deleting a block of the list removes exactly this block and
  keeps the list free of overlaps, or changes nothing when memory is missing; truncating
  keeps exactly the blocks below the new size and returns how many were dropped. The counter
  function returns the number of blocks in the list.
\<close>

theorem runtime_extent_del_truncate_correct:
  assumes "rt_disjoint es" "b \<in> rt_blocks es"
    and "vdfs2_runtime_extent_del b es m = (r, es1, m')" "vdfs2_truncate_runtime_blocks n es = (freed, es2)"
  shows "((r = Success \<and> rt_disjoint es1 \<and> rt_blocks es1 = rt_blocks es - {b}) \<or> (r = Fail ENOMEM \<and> es1 = es)) \<and>
    rt_disjoint es2 \<and> rt_blocks es2 = {x \<in> rt_blocks es. x < n} \<and>
    freed = card {x \<in> rt_blocks es. n \<le> x} \<and> vdfs2_runtime_extent_count es = card (rt_blocks es)"
proof -
  from truncate_blocks [OF assms(1,4)] have t: "rt_disjoint es2" "rt_blocks es2 = {x \<in> rt_blocks es. x < n}"
    "freed + rt_total es2 = rt_total es" by simp_all
  have fin: "finite (rt_blocks es)" by (simp add: rt_blocks_def entry_blocks_def)
  have "card (rt_blocks es) = card {x \<in> rt_blocks es. x < n} + card {x \<in> rt_blocks es. n \<le> x}"
    using fin by (subst card_Un_disjoint [symmetric]) (auto intro!: arg_cong [of _ _ card])
  then have "freed = card {x \<in> rt_blocks es. n \<le> x}"
    using t rt_total_card [OF assms(1)] rt_total_card [OF t(1)] by simp
  moreover have "vdfs2_runtime_extent_count es = card (rt_blocks es)"
    using rt_total_card [OF assms(1)] assms(1) by (simp add: rt_count rt_disjoint_def)
  ultimately show ?thesis using del_existing [OF assms(1-3)] t by blast
qed

text \<open>
  Deleting a block from the middle of an extent links the part behind the block in front
  of the part before it, so the list is no longer ordered; adding a block of the first part
  again then succeeds instead of reporting EEXIST, and the block is counted twice.
\<close>

theorem runtime_extent_del_breaks_order:
  assumes "e = \<lparr>iblock = i, alloc_hint = hint, block_count = c\<rparr>" "i + 1 < b" "b + 1 < i + c" "i + c < 2 ^ 64" "c < 2 ^ 31"
  shows "\<exists>es1 es2. vdfs2_runtime_extent_del b [e] [] = (Success, es1, []) \<and> \<not> rt_ordered es1 \<and>
    vdfs2_runtime_extent_exists i es1 \<and> vdfs2_runtime_extent_add i hint es1 [] = (Success, es2, []) \<and>
    vdfs2_runtime_extent_count es2 = card (rt_blocks es2) + 1"
proof -
  let ?a = "\<lparr>iblock = b + 1, alloc_hint = 0, block_count = i + c - (b + 1)\<rparr>" and ?c = "\<lparr>iblock = i, alloc_hint = hint, block_count = b - i\<rparr>"
  let ?n = "\<lparr>iblock = i, alloc_hint = hint, block_count = 1\<rparr>"
  have ok: "rt_disjoint [e]" "b \<in> rt_blocks [e]" using assms by (auto simp: rt_disjoint_def ext_ok_def)
  define n where "n = b - i"
  define k where "k = i + c - (b + 1)"
  have n: "b = i + n" "1 < n" and k: "c = n + 1 + k" "0 < k" using assms(2,3) by (simp_all add: n_def k_def)
  have "(i + c + 2 ^ 64 - (b + 1)) mod 2 ^ 32 = i + c - (b + 1)"
  proof -
    have "i + c + 2 ^ 64 - (b + 1) = k + 2 ^ 32 * 2 ^ 32" "k < 2 ^ 32" "i + c - (b + 1) = k" using n k assms(5) by auto
    then show ?thesis by (simp only: mod_mult_self2 mod_less)
  qed
  moreover have "(c + 2 ^ 32 - (k + 1) mod 2 ^ 32) mod 2 ^ 32 = b - i" using n k assms(5) by simp
  ultimately have d: "vdfs2_runtime_extent_del b [e] [] = (Success, [?a, ?c], [])"
    using assms n k by (simp add: ext_end_def)
  have a: "vdfs2_runtime_extent_add i hint [?a, ?c] [] = (Success, [?n, ?a, ?c], [])"
    using assms n k by (simp add: ext_end_def)
  have "rt_blocks [?n, ?a, ?c] = rt_blocks [?a, ?c]" using n by (auto simp: entry_blocks_def)
  moreover have "rt_disjoint [?a, ?c]" using assms n k by (auto simp: rt_disjoint_def ext_ok_def)
  ultimately have "vdfs2_runtime_extent_count [?n, ?a, ?c] = card (rt_blocks [?n, ?a, ?c]) + 1"
    using rt_total_card [of "[?a, ?c]"] n k assms(5) by simp
  moreover have "\<not> rt_ordered [?a, ?c]" using n by (simp add: rt_ordered_def)
  moreover have "vdfs2_runtime_extent_exists i [?a, ?c]"
    using n assms by (simp add: vdfs2_runtime_extent_exists_def ext_end_def)
  ultimately show ?thesis using d a by blast
qed

section \<open>Instances\<close>

theorem runtime_extent_add_correct_witness:
  "\<exists>es'. vdfs2_runtime_extent_add 5 0 [\<lparr>iblock = 3, alloc_hint = 0, block_count = 2\<rparr>, \<lparr>iblock = 6, alloc_hint = 0, block_count = 2\<rparr>] []
     = (Success, es', []) \<and> rt_blocks es' = {3..<8}"
proof -
  let ?es = "[\<lparr>iblock = 3, alloc_hint = 0, block_count = 2\<rparr>, \<lparr>iblock = 6, alloc_hint = 0, block_count = 2\<rparr>]"
  have run: "vdfs2_runtime_extent_add 5 0 ?es [] = (Success, [\<lparr>iblock = 3, alloc_hint = 0, block_count = 5\<rparr>], [])"
    by (simp add: ext_end_def)
  have o: "rt_ordered ?es" by (simp add: rt_ordered_def ext_ok_def)
  have "\<not> vdfs2_runtime_extent_exists 5 ?es" by (simp add: vdfs2_runtime_extent_exists_def ext_end_def)
  with runtime_extent_add_correct [OF o _ _ run] have "rt_blocks [\<lparr>iblock = 3, alloc_hint = 0, block_count = 5\<rparr>] = insert 5 (rt_blocks ?es)"
    by simp
  also have "\<dots> = {3..<8}" by (auto simp: entry_blocks_def)
  finally show ?thesis using run by blast
qed

theorem runtime_extent_del_truncate_correct_witness:
  "\<exists>es1. vdfs2_runtime_extent_del 4 [\<lparr>iblock = 3, alloc_hint = 0, block_count = 4\<rparr>] [] = (Success, es1, []) \<and>
     rt_blocks es1 = rt_blocks [\<lparr>iblock = 3, alloc_hint = 0, block_count = 4\<rparr>] - {4} \<and>
     fst (vdfs2_truncate_runtime_blocks 5 [\<lparr>iblock = 3, alloc_hint = 0, block_count = 4\<rparr>]) = card {x \<in> {3..<7}. (5::nat) \<le> x}"
proof -
  let ?e = "\<lparr>iblock = 3, alloc_hint = 0, block_count = 4\<rparr> :: vdfs2_runtime_extent_info"
  let ?es = "[\<lparr>iblock = 5, alloc_hint = 0, block_count = 2\<rparr>, \<lparr>iblock = 3, alloc_hint = 0, block_count = 1\<rparr>]"
  have d: "vdfs2_runtime_extent_del 4 [?e] [] = (Success, ?es, [])" by (simp add: ext_end_def)
  have t: "vdfs2_truncate_runtime_blocks 5 [?e] = (2, [\<lparr>iblock = 3, alloc_hint = 0, block_count = 2\<rparr>])"
    by (simp add: ext_end_def)
  have o: "rt_disjoint [?e]" "4 \<in> rt_blocks [?e]" by (simp_all add: rt_disjoint_def ext_ok_def)
  have "rt_blocks [?e] = {3..<7}" by (auto simp: entry_blocks_def)
  with runtime_extent_del_truncate_correct [OF o d t] have "rt_blocks ?es = rt_blocks [?e] - {4}" "2 = card {x \<in> {3..<7}. (5::nat) \<le> x}"
    by (metis ret.distinct(1), metis)
  then show ?thesis unfolding d t fst_conv by blast
qed

theorem runtime_extent_del_breaks_order_witness:
  "\<exists>es1 es2. vdfs2_runtime_extent_del 5 [\<lparr>iblock = 0, alloc_hint = 0, block_count = 10\<rparr>] [] = (Success, es1, []) \<and>
    vdfs2_runtime_extent_exists 0 es1 \<and> vdfs2_runtime_extent_add 0 0 es1 [] = (Success, es2, [])"
proof -
  have "(0::nat) + 1 < 5" "(5::nat) + 1 < 0 + 10" "(0::nat) + 10 < 2 ^ 64" "(10::nat) < 2 ^ 31" by simp_all
  from runtime_extent_del_breaks_order [OF refl this, of 0] show ?thesis by blast
qed

end
