(* ===== verification/Btree_Tree.thy ===== *)
theory Btree_Tree
  imports Btree_Search
begin

text \<open>
  Searching a whole B-tree, \<^verbatim>\<open>btree.c\<close>: the descent from the root to a leaf, the record found
  there, and the walk to the next record. The tree is the set of its nodes by number, each
  with its bytes; node 0 is the head, which holds the number of the root and the height.

  Getting a node goes through the node cache, which the theory \<open>Bnode\<close> models. Here it is
  enough what the call returns for a number: the node's bytes, or an error, which the field
  \<open>unreadable\<close> gives for the nodes whose pages cannot be read. Reference counts and
  locks, which only protect the nodes, are left to that theory.

  For changing a tree the pool also has the number of node numbers, what the pages of an
  unused number hold (a new node starts with them), and what the check for a reserve of nodes
  before a split returns.
\<close>

record node_pool =
  pool_host :: node_host
  pool_nodes :: "nat \<rightharpoonup> u8 list"
  unreadable :: "nat \<rightharpoonup> errno"
  node_limit :: nat
  page_bytes :: "nat \<Rightarrow> u8 list"
  reserve_ret :: ret

definition pool_get :: "node_pool \<Rightarrow> nat \<Rightarrow> u8 list result" where
  "pool_get P nid =
     (case unreadable P nid of Some e \<Rightarrow> Err e | None \<Rightarrow> (case pool_nodes P nid of Some d \<Rightarrow> Ok d | None \<Rightarrow> Err ENOENT))"

definition pool_put :: "nat \<Rightarrow> u8 list \<Rightarrow> node_pool \<Rightarrow> node_pool" where
  "pool_put nid d P = P\<lparr>pool_nodes := (pool_nodes P)(nid \<mapsto> d)\<rparr>"

text \<open>A new node gets the lowest unused number; a destroyed one makes its number unused.\<close>

definition free_ids :: "node_pool \<Rightarrow> nat list" where
  "free_ids P = filter (\<lambda>i. pool_nodes P i = None) [0..<node_limit P]"

definition pool_alloc :: "node_pool \<Rightarrow> (nat \<times> u8 list) result \<times> node_pool" where
  "pool_alloc P =
     (case free_ids P of
        [] \<Rightarrow> (Err ENOSPC, P)
      | i # _ \<Rightarrow>
          (case unreadable P i of
             Some e \<Rightarrow> (Err e, P)
           | None \<Rightarrow> (Ok (i, page_bytes P i), pool_put i (page_bytes P i) P)))"

definition pool_destroy :: "nat \<Rightarrow> node_pool \<Rightarrow> node_pool result" where
  "pool_destroy nid P = (if nid = 0 then Bug else Ok (P\<lparr>pool_nodes := (pool_nodes P)(nid := None)\<rparr>))"

definition VDFS2_BTREE_LEAF_LVL :: nat where "VDFS2_BTREE_LEAF_LVL = 1"

text \<open>The head bnode is held from the mount on.\<close>

definition head_data :: "node_pool \<Rightarrow> u8 list" where
  "head_data P = the (pool_nodes P 0)"

definition vdfs2_btree_get_height :: "node_pool \<Rightarrow> nat" where
  "vdfs2_btree_get_height P = rd 2 (head_data P) 16"

definition vdfs2_btree_get_root_id :: "node_pool \<Rightarrow> nat" where
  "vdfs2_btree_get_root_id P = rd 4 (head_data P) 12"

definition vdfs2_btree_inc_height :: "node_pool \<Rightarrow> node_pool" where
  "vdfs2_btree_inc_height P =
     P\<lparr>pool_nodes := (pool_nodes P)(0 \<mapsto> wr 2 (head_data P) 16 (vdfs2_btree_get_height P + 1))\<rparr>"

definition vdfs2_btree_dec_height :: "node_pool \<Rightarrow> node_pool result" where
  "vdfs2_btree_dec_height P =
     (let btree_height = (vdfs2_btree_get_height P + 2 ^ 16 - 1) mod 2 ^ 16 in
      if btree_height = 0 then Bug
      else Ok (P\<lparr>pool_nodes := (pool_nodes P)(0 \<mapsto> wr 2 (head_data P) 16 btree_height)\<rparr>))"

definition vdfs2_btree_set_root_id :: "nat \<Rightarrow> node_pool \<Rightarrow> node_pool" where
  "vdfs2_btree_set_root_id nid P = P\<lparr>pool_nodes := (pool_nodes P)(0 \<mapsto> wr 4 (head_data P) 12 nid)\<rparr>"

section \<open>The descent\<close>

text \<open>
  The node and the position the key belongs to at one level. When the position is the last
  one, the next node is looked at: a key that belongs there would mean that the next node has
  no index record yet, which must not happen in the kernel.
\<close>

definition btree_traverse_level ::
  "(u8 list \<Rightarrow> u8 list \<Rightarrow> int) \<Rightarrow> node_pool \<Rightarrow> u8 list \<Rightarrow> nat \<Rightarrow> (u8 list \<times> int) result" where
  "btree_traverse_level comp_fn P gen_key start_bnode_id =
     and_then (pool_get P start_bnode_id) (\<lambda>bnode.
     and_then (binary_search comp_fn (pool_host P) bnode gen_key) (\<lambda>(pos, record).
       if pos = int (descr_recs_count bnode) - 1 \<and> descr_next bnode \<noteq> 0 then
         and_then (pool_get P (descr_next bnode)) (\<lambda>dang_bnode.
           case binary_search comp_fn (pool_host P) dang_bnode gen_key of
             Err e \<Rightarrow> (if e = ENOENT then Ok (bnode, pos) else Err e)
           | Ok _ \<Rightarrow> Bug
           | Bug \<Rightarrow> Bug)
       else Ok (bnode, pos)))"

record vdfs2_btree_traverse_stack =
  st_bnode_id :: nat
  st_pos :: int
  st_level :: nat

text \<open>
  The loop over the levels: the levels still to visit below this one, this level, its
  node, and the stack of the nodes passed, kept only when the caller wants it. The value is
  the node, its bytes, the position and the stack.
\<close>

fun traverse_levels ::
  "(u8 list \<Rightarrow> u8 list \<Rightarrow> int) \<Rightarrow> node_pool \<Rightarrow> u8 list \<Rightarrow> bool \<Rightarrow> nat \<Rightarrow> nat \<Rightarrow> nat \<Rightarrow> vdfs2_btree_traverse_stack list \<Rightarrow> mem \<Rightarrow>
     (nat \<times> u8 list \<times> int \<times> vdfs2_btree_traverse_stack list) result \<times> mem" where
  "traverse_levels comp_fn P gen_key want_stack below level curr_bnode_id stack m =
     (case btree_traverse_level comp_fn P gen_key curr_bnode_id of
        Err e \<Rightarrow> (Err e, m)
      | Bug \<Rightarrow> (Bug, m)
      | Ok (bnode, pos) \<Rightarrow>
          (case (if want_stack then kmem_alloc m else (True, m)) of (ok, m1) \<Rightarrow>
             if \<not> ok then (Err ENOMEM, m1)
             else
               (let stack1 = (if want_stack
                    then \<lparr>st_bnode_id = curr_bnode_id, st_pos = pos, st_level = level\<rparr> # stack else stack) in
                case below of
                  0 \<Rightarrow> (Ok (curr_bnode_id, bnode, pos, stack1), m1)
                | Suc n \<Rightarrow>
                    (case get_record (pool_host P) bnode (nat pos) of
                       Err e \<Rightarrow> (Err e, m1)
                     | Bug \<Rightarrow> (Bug, m1)
                     | Ok record \<Rightarrow>
                         (case get_value_pointer bnode record of
                            Err e \<Rightarrow> (Err e, m1)
                          | Bug \<Rightarrow> (Bug, m1)
                          | Ok index_val \<Rightarrow>
                              traverse_levels comp_fn P gen_key want_stack n (level - 1) (rd 4 bnode index_val) stack1 m1)))))"

declare traverse_levels.simps [simp del]

definition vdfs2_btree_traverse ::
  "(u8 list \<Rightarrow> u8 list \<Rightarrow> int) \<Rightarrow> node_pool \<Rightarrow> u8 list \<Rightarrow> bool \<Rightarrow> nat \<Rightarrow> mem \<Rightarrow>
     (nat \<times> u8 list \<times> int \<times> vdfs2_btree_traverse_stack list) result \<times> mem" where
  "vdfs2_btree_traverse comp_fn P gen_key want_stack till_level m =
     (let height = vdfs2_btree_get_height P in
      if height < till_level then (Bug, m)
      else traverse_levels comp_fn P gen_key want_stack (height - till_level) height (vdfs2_btree_get_root_id P) [] m)"

section \<open>Records\<close>

text \<open>A found record: its node, its position there, and the addresses of key and value in the node.\<close>

record vdfs2_btree_record_info =
  rec_bnode_id :: nat
  rec_bnode :: "u8 list"
  rec_pos :: int
  rec_key :: nat
  rec_val :: "nat result"

definition form_gen_record :: "nat \<Rightarrow> u8 list \<Rightarrow> nat \<Rightarrow> int \<Rightarrow> vdfs2_btree_record_info" where
  "form_gen_record nid bnode raw_record pos =
     \<lparr>rec_bnode_id = nid, rec_bnode = bnode, rec_pos = pos, rec_key = raw_record, rec_val = get_value_pointer bnode raw_record\<rparr>"

definition vdfs2_btree_find ::
  "(u8 list \<Rightarrow> u8 list \<Rightarrow> int) \<Rightarrow> node_pool \<Rightarrow> u8 list \<Rightarrow> mem \<Rightarrow> vdfs2_btree_record_info result \<times> mem" where
  "vdfs2_btree_find comp_fn P key m =
     (case kmem_alloc m of (ok, m1) \<Rightarrow>
        if \<not> ok then (Err ENOMEM, m1)
        else
          (case vdfs2_btree_traverse comp_fn P key False VDFS2_BTREE_LEAF_LVL m1 of
             (Err e, m2) \<Rightarrow> (Err e, m2)
           | (Bug, m2) \<Rightarrow> (Bug, m2)
           | (Ok (nid, bnode, pos, stack), m2) \<Rightarrow>
               (case get_record (pool_host P) bnode (nat pos) of
                  Err e \<Rightarrow> (Err e, m2)
                | Bug \<Rightarrow> (Bug, m2)
                | Ok raw_record \<Rightarrow>
                    (let rec_info = form_gen_record nid bnode raw_record pos in
                     case rec_val rec_info of Ok v \<Rightarrow> (Ok rec_info, m2) | Err e \<Rightarrow> (Err EINVAL, m2) | Bug \<Rightarrow> (Bug, m2)))))"

text \<open>The node after this one and the record after this one.\<close>

definition vdfs2_get_next_bnode :: "node_pool \<Rightarrow> u8 list \<Rightarrow> (nat \<times> u8 list) result" where
  "vdfs2_get_next_bnode P bnode =
     (if descr_next bnode = 0 then Err ENOENT
      else and_then (pool_get P (descr_next bnode)) (\<lambda>d. Ok (descr_next bnode, d)))"

definition next_btree_record ::
  "node_pool \<Rightarrow> nat \<Rightarrow> u8 list \<Rightarrow> int \<Rightarrow> (nat \<times> u8 list \<times> int \<times> nat) result" where
  "next_btree_record P nid bnode index =
     (if index + 1 < int (descr_recs_count bnode) then
        and_then (get_record (pool_host P) bnode (nat (index + 1))) (\<lambda>r. Ok (nid, bnode, index + 1, r))
      else
        and_then (vdfs2_get_next_bnode P bnode) (\<lambda>(nid', bnode').
        and_then (get_record (pool_host P) bnode' 0) (\<lambda>r. Ok (nid', bnode', 0, r))))"

definition vdfs2_get_next_btree_record ::
  "node_pool \<Rightarrow> vdfs2_btree_record_info \<Rightarrow> vdfs2_btree_record_info result" where
  "vdfs2_get_next_btree_record P rec_info =
     and_then (next_btree_record P (rec_bnode_id rec_info) (rec_bnode rec_info) (rec_pos rec_info))
       (\<lambda>(nid, bnode, pos, raw_record). Ok (form_gen_record nid bnode raw_record pos))"

definition vdfs2_btree_build_gen_record ::
  "node_pool \<Rightarrow> nat \<Rightarrow> nat \<Rightarrow> mem \<Rightarrow> vdfs2_btree_record_info result \<times> mem" where
  "vdfs2_btree_build_gen_record P bnode_id pos m =
     (case kmem_alloc m of (ok, m1) \<Rightarrow>
        if \<not> ok then (Err ENOMEM, m1)
        else
          (and_then (pool_get P bnode_id) (\<lambda>bnode.
             and_then (get_record (pool_host P) bnode pos) (\<lambda>raw_record.
               Ok (form_gen_record bnode_id bnode raw_record (int pos)))), m1))"

end
