(* ===== verification/Btree_Find.thy ===== *)
theory Btree_Find
  imports Btree_Tree
begin

text \<open>
  The search of a whole tree finds the last record of the leaf level that is not above the
  key. The tree is described level by level: the nodes of a level in the order of their links,
  with their records sorted across the whole level, and above each level an index record for
  each of its nodes, in the same order, with the key of the node's first record.
\<close>

section \<open>Concatenated lists\<close>

lemma length_concat_take_mono:
  assumes "i < length xss" "p < length (xss ! i)"
  shows "length (concat (take i xss)) + p < length (concat xss)"
proof -
  have "concat xss = concat (take i xss) @ xss ! i @ concat (drop (Suc i) xss)"
    using assms(1) by (metis id_take_nth_drop concat.simps(2) concat_append)
  then show ?thesis using assms(2) by simp
qed

lemma nth_concat_at:
  assumes "i < length xss" "p < length (xss ! i)"
  shows "concat xss ! (length (concat (take i xss)) + p) = xss ! i ! p"
proof -
  have "concat xss = concat (take i xss) @ xss ! i @ concat (drop (Suc i) xss)"
    using assms(1) by (metis id_take_nth_drop concat.simps(2) concat_append)
  then show ?thesis using assms(2) by (simp add: nth_append)
qed

lemma concat_next:
  assumes "\<forall>xs\<in>set xss. xs \<noteq> []" "i < length xss" "p < length (xss ! i)"
    and "length (concat (take i xss)) + p + 1 < length (concat xss)"
  shows "concat xss ! (length (concat (take i xss)) + p + 1) =
    (if p + 1 < length (xss ! i) then xss ! i ! (p + 1) else xss ! (i + 1) ! 0) \<and>
    (p + 1 < length (xss ! i) \<or> i + 1 < length xss)"
proof (cases "p + 1 < length (xss ! i)")
  case True
  then show ?thesis using nth_concat_at [OF assms(2) True] by simp
next
  case False
  then have p: "p + 1 = length (xss ! i)" using assms(3) by simp
  have t: "length (concat (take (i + 1) xss)) = length (concat (take i xss)) + p + 1"
    using assms(2) p by (simp add: take_Suc_conv_app_nth)
  have "i + 1 < length xss"
  proof (rule ccontr)
    assume "\<not> i + 1 < length xss"
    then have "take (i + 1) xss = xss" by simp
    then show False using t assms(4) by simp
  qed
  moreover from this have "0 < length (xss ! (i + 1))" using assms(1) nth_mem by fastforce
  ultimately show ?thesis using nth_concat_at [of "i + 1" xss 0] t False by simp
qed

lemma concat_position:
  assumes "g < length (concat xss)"
  obtains i p where "i < length xss" "p < length (xss ! i)" "g = length (concat (take i xss)) + p"
  using assms
proof (induction xss arbitrary: g thesis)
  case (Cons xs xss)
  show ?case
  proof (cases "g < length xs")
    case True
    then show ?thesis using Cons.prems(1) [of 0 g] by simp
  next
    case False
    then have "g - length xs < length (concat xss)" using Cons.prems(2) by simp
    from Cons.IH [OF _ this] obtain i p where "i < length xss" "p < length (xss ! i)"
      "g - length xs = length (concat (take i xss)) + p" by blast
    then show ?thesis using Cons.prems(1) [of "Suc i" p] False by simp
  qed
qed simp

section \<open>Well-formed trees\<close>

definition child_id :: "u8 list \<Rightarrow> nat" where
  "child_id r = rd 4 r (key_len r)"

definition level_ok ::
  "(u8 list \<Rightarrow> bool) \<Rightarrow> (u8 list \<Rightarrow> 'k::linorder) \<Rightarrow> node_pool \<Rightarrow> (nat \<Rightarrow> u8 list list) \<Rightarrow> nat list \<Rightarrow> bool" where
  "level_ok key_ok rank P recs ns \<longleftrightarrow>
     ns \<noteq> [] \<and> sorted_less (map rank (concat (map recs ns))) \<and>
     (\<forall>i < length ns. ns ! i \<noteq> 0 \<and> recs (ns ! i) \<noteq> [] \<and> (\<forall>r\<in>set (recs (ns ! i)). key_ok r \<and> key_len r \<le> VDFS2_MAX_BTREE_KEY_LEN) \<and>
        (\<exists>d. pool_get P (ns ! i) = Ok d \<and> node_ok (pool_host P) d (recs (ns ! i)) \<and>
           descr_next d = (if i + 1 < length ns then ns ! (i + 1) else 0)))"

definition index_ok :: "(u8 list \<Rightarrow> 'k::linorder) \<Rightarrow> (nat \<Rightarrow> u8 list list) \<Rightarrow> nat list \<Rightarrow> nat list \<Rightarrow> bool" where
  "index_ok rank recs upper lower \<longleftrightarrow>
     (let rs = concat (map recs upper) in
      length rs = length lower \<and>
      (\<forall>i < length lower. rank (rs ! i) = rank (recs (lower ! i) ! 0) \<and> child_id (rs ! i) = lower ! i \<and>
         key_len (rs ! i) + INDEX_VALUE_SIZE \<le> length (rs ! i)))"

text \<open>The levels from the root down to the leaves.\<close>

fun levels_ok ::
  "(u8 list \<Rightarrow> bool) \<Rightarrow> (u8 list \<Rightarrow> 'k::linorder) \<Rightarrow> node_pool \<Rightarrow> (nat \<Rightarrow> u8 list list) \<Rightarrow> nat list list \<Rightarrow> bool" where
  "levels_ok key_ok rank P recs [] = False"
| "levels_ok key_ok rank P recs [ns] = level_ok key_ok rank P recs ns"
| "levels_ok key_ok rank P recs (ns # ms # rest) =
     (level_ok key_ok rank P recs ns \<and> index_ok rank recs ns ms \<and> levels_ok key_ok rank P recs (ms # rest))"

definition tree_ok ::
  "(u8 list \<Rightarrow> bool) \<Rightarrow> (u8 list \<Rightarrow> 'k::linorder) \<Rightarrow> node_pool \<Rightarrow> (nat \<Rightarrow> u8 list list) \<Rightarrow> nat list list \<Rightarrow> bool" where
  "tree_ok key_ok rank P recs levels \<longleftrightarrow>
     levels_ok key_ok rank P recs levels \<and> length (hd levels) = 1 \<and>
     vdfs2_btree_get_root_id P = hd levels ! 0 \<and> vdfs2_btree_get_height P = length levels"

text \<open>The records of the tree, in order.\<close>

definition tree_records :: "(nat \<Rightarrow> u8 list list) \<Rightarrow> nat list list \<Rightarrow> u8 list list" where
  "tree_records recs levels = concat (map recs (last levels))"

text \<open>A record info that stands for the record with number \<open>g\<close> of a level.\<close>

definition record_at :: "node_pool \<Rightarrow> (nat \<Rightarrow> u8 list list) \<Rightarrow> nat list \<Rightarrow> nat \<Rightarrow> vdfs2_btree_record_info \<Rightarrow> bool" where
  "record_at P recs ns g r \<longleftrightarrow>
     (\<exists>j p. j < length ns \<and> p < length (recs (ns ! j)) \<and> g = length (concat (map recs (take j ns))) + p \<and>
        rec_bnode_id r = ns ! j \<and> rec_pos r = int p \<and> pool_get P (ns ! j) = Ok (rec_bnode r) \<and>
        node_ok (pool_host P) (rec_bnode r) (recs (ns ! j)) \<and>
        rec_key r = off (pool_host P) (rec_bnode r) p \<and>
        rng (rec_bnode r) (rec_key r) (length (concat (map recs ns) ! g)) = concat (map recs ns) ! g \<and>
        rec_val r = Ok (rec_key r + key_len (concat (map recs ns) ! g)))"

section \<open>One level\<close>

context ranked_keys
begin

lemma level_okD:
  assumes "level_ok key_ok rank P recs ns" "i < length ns"
  obtains d where "pool_get P (ns ! i) = Ok d" "node_ok (pool_host P) d (recs (ns ! i))"
    "descr_next d = (if i + 1 < length ns then ns ! (i + 1) else 0)" "ns ! i \<noteq> 0" "recs (ns ! i) \<noteq> []"
    "\<forall>r\<in>set (recs (ns ! i)). key_ok r" "\<forall>r\<in>set (recs (ns ! i)). key_len r \<le> VDFS2_MAX_BTREE_KEY_LEN"
    "sorted_less (map rank (recs (ns ! i)))"
proof -
  have "sorted_less (map rank (recs (ns ! i)))"
  proof -
    have "concat (map recs ns) = concat (take i (map recs ns)) @ recs (ns ! i) @ concat (drop (Suc i) (map recs ns))"
      using assms(2) by (metis id_take_nth_drop concat.simps(2) concat_append length_map nth_map)
    then show ?thesis using assms(1) by (simp add: level_ok_def sorted_wrt_append)
  qed
  then show ?thesis using assms that unfolding level_ok_def by blast
qed

lemma traverse_level_ok:
  assumes lv: "level_ok key_ok rank P recs ns" and i: "i < length ns" and key: "key_ok key"
    and lo: "rank (recs (ns ! i) ! 0) \<le> rank key"
    and hi: "i + 1 < length ns \<Longrightarrow> rank key < rank (recs (ns ! (i + 1)) ! 0)"
  shows "\<exists>d p. btree_traverse_level cmp P key (ns ! i) = Ok (d, int p) \<and> pool_get P (ns ! i) = Ok d \<and>
    node_ok (pool_host P) d (recs (ns ! i)) \<and> p < length (recs (ns ! i)) \<and>
    count_le rank (concat (map recs ns)) (rank key) = length (concat (map recs (take i ns))) + p + 1"
proof -
  obtain d where d: "pool_get P (ns ! i) = Ok d" "node_ok (pool_host P) d (recs (ns ! i))"
    "descr_next d = (if i + 1 < length ns then ns ! (i + 1) else 0)" "recs (ns ! i) \<noteq> []"
    "\<forall>r\<in>set (recs (ns ! i)). key_ok r" "sorted_less (map rank (recs (ns ! i)))"
    using level_okD [OF lv i] by metis
  define n where "n = count_le rank (recs (ns ! i)) (rank key)"
  have n0: "n \<noteq> 0" unfolding n_def using count_le_0 [OF d(4,6)] lo by (simp add: not_less)
  have nl: "n \<le> length (recs (ns ! i))" by (simp add: n_def count_le_def)
  have b: "binary_search cmp (pool_host P) d key = Ok (int (n - 1), off (pool_host P) d (n - 1))"
    using binary_search_ok [OF d(2,5) key d(6,4)] n0 by (simp add: n_def)
  have dang: "binary_search cmp (pool_host P) d' key = Err ENOENT"
    if nx: "i + 1 < length ns" "pool_get P (ns ! (i + 1)) = Ok d'" for d'
  proof -
    obtain d2 where d2: "pool_get P (ns ! (i + 1)) = Ok d2" "node_ok (pool_host P) d2 (recs (ns ! (i + 1)))"
      "recs (ns ! (i + 1)) \<noteq> []" "\<forall>r\<in>set (recs (ns ! (i + 1))). key_ok r" "sorted_less (map rank (recs (ns ! (i + 1))))"
      using level_okD [OF lv nx(1)] by metis
    then show ?thesis
      using binary_search_ok [OF d2(2,4) key d2(5,3)] count_le_0 [OF d2(3,5)] hi nx by simp
  qed
  have run: "btree_traverse_level cmp P key (ns ! i) = Ok (d, int (n - 1))"
  proof (cases "i + 1 < length ns")
    case True
    obtain d2 where d2: "pool_get P (ns ! (i + 1)) = Ok d2" using level_okD [OF lv True] by metis
    show ?thesis using b d(1,3) True d2 dang [OF True d2] by (simp add: btree_traverse_level_def)
  next
    case False
    then show ?thesis using b d(1,3) by (simp add: btree_traverse_level_def)
  qed
  let ?xss = "map recs ns" and ?p = "n - 1"
  have p: "?p < length (recs (ns ! i))" using n0 nl by linarith
  have i': "i < length ?xss" and p': "?p < length (?xss ! i)" using i p by simp_all
  have rp: "rank (recs (ns ! i) ! ?p) \<le> rank key \<and> (?p + 1 < length (recs (ns ! i)) \<longrightarrow> rank key < rank (recs (ns ! i) ! (?p + 1)))"
    using count_le_bounds [OF d(6) n_def n0] n0 by simp
  have "count_le rank (concat ?xss) (rank key) = Suc (length (concat (take i ?xss)) + ?p)"
  proof (rule count_le_Suc)
    show "sorted_less (map rank (concat ?xss))" using lv by (simp add: level_ok_def)
    show "length (concat (take i ?xss)) + ?p < length (concat ?xss)" by (rule length_concat_take_mono [OF i' p'])
    show "rank (concat ?xss ! (length (concat (take i ?xss)) + ?p)) \<le> rank key"
      using nth_concat_at [OF i' p'] rp i by simp
    assume g: "length (concat (take i ?xss)) + ?p + 1 < length (concat ?xss)"
    have ne: "\<forall>xs\<in>set ?xss. xs \<noteq> []" using lv by (auto simp: level_ok_def in_set_conv_nth)
    from concat_next [OF ne i' p' g] show "rank key < rank (concat ?xss ! (length (concat (take i ?xss)) + ?p + 1))"
      using rp i hi by (auto split: if_splits)
  qed
  then show ?thesis using run d(1,2) p by (auto simp: take_map)
qed

section \<open>The descent\<close>

lemma child_of_record:
  assumes ok: "node_ok h d rs" and p: "p < length rs" and k: "key_len (rs ! p) \<le> VDFS2_MAX_BTREE_KEY_LEN"
    "key_len (rs ! p) + INDEX_VALUE_SIZE \<le> length (rs ! p)"
  shows "get_value_pointer d (off h d p) = Ok (off h d p + key_len (rs ! p))"
    "rd 4 d (off h d p + key_len (rs ! p)) = child_id (rs ! p)"
proof -
  note g = get_record_ok [OF ok p]
  show "get_value_pointer d (off h d p) = Ok (off h d p + key_len (rs ! p))"
    using g(4) k(1) by (simp add: get_value_pointer_def)
  show "rd 4 d (off h d p + key_len (rs ! p)) = child_id (rs ! p)"
    using rd_rng [of "key_len (rs ! p)" 4 "length (rs ! p)" "off h d p" d] g(2,5) k(2) by (simp add: child_id_def INDEX_VALUE_SIZE_def)
qed

lemma traverse_levels_ok:
  assumes "levels_ok key_ok rank P recs (ns # rest)" "i < length ns" "key_ok key" "rank (recs (ns ! i) ! 0) \<le> rank key"
    "i + 1 < length ns \<Longrightarrow> rank key < rank (recs (ns ! (i + 1)) ! 0)"
  shows "\<exists>j d p. traverse_levels cmp P key False (length rest) lvl (ns ! i) [] m = (Ok (last (ns # rest) ! j, d, int p, []), m) \<and>
    j < length (last (ns # rest)) \<and> pool_get P (last (ns # rest) ! j) = Ok d \<and>
    node_ok (pool_host P) d (recs (last (ns # rest) ! j)) \<and> p < length (recs (last (ns # rest) ! j)) \<and>
    count_le rank (concat (map recs (last (ns # rest)))) (rank key) = length (concat (map recs (take j (last (ns # rest))))) + p + 1"
  using assms
proof (induction rest arbitrary: ns i lvl)
  case Nil
  then have lv: "level_ok key_ok rank P recs ns" by simp
  from traverse_level_ok [OF lv Nil.prems(2-5)] obtain d p where
    "btree_traverse_level cmp P key (ns ! i) = Ok (d, int p)" "pool_get P (ns ! i) = Ok d"
    "node_ok (pool_host P) d (recs (ns ! i))" "p < length (recs (ns ! i))"
    "count_le rank (concat (map recs ns)) (rank key) = length (concat (map recs (take i ns))) + p + 1" by blast
  then show ?case using Nil.prems(2)
    by (intro exI [of _ i] exI [of _ d] exI [of _ p]) (simp add: traverse_levels.simps [of _ _ _ _ 0])
next
  case (Cons ms rest)
  have lv: "level_ok key_ok rank P recs ns" and ix: "index_ok rank recs ns ms" and lo: "levels_ok key_ok rank P recs (ms # rest)"
    using Cons.prems(1) by simp_all
  from traverse_level_ok [OF lv Cons.prems(2-5)] obtain d p where
    t: "btree_traverse_level cmp P key (ns ! i) = Ok (d, int p)" and ok: "node_ok (pool_host P) d (recs (ns ! i))"
    and p: "p < length (recs (ns ! i))"
    and c: "count_le rank (concat (map recs ns)) (rank key) = length (concat (map recs (take i ns))) + p + 1" by blast
  let ?rs = "concat (map recs ns)"
  define g where "g = length (concat (map recs (take i ns))) + p"
  have rg: "?rs ! g = recs (ns ! i) ! p" "g < length ?rs"
    using nth_concat_at [of i "map recs ns" p] length_concat_take_mono [of i "map recs ns" p] Cons.prems(2) p
    by (simp_all add: g_def take_map)
  have g: "g < length ms" "rank (?rs ! g) = rank (recs (ms ! g) ! 0)" "child_id (?rs ! g) = ms ! g"
    "key_len (?rs ! g) + INDEX_VALUE_SIZE \<le> length (?rs ! g)" "length ?rs = length ms"
    using ix rg(2) by (auto simp: index_ok_def Let_def)
  have kl: "key_len (recs (ns ! i) ! p) \<le> VDFS2_MAX_BTREE_KEY_LEN"
    using level_okD [OF lv Cons.prems(2)] p nth_mem by metis
  note ch = child_of_record [OF ok p kl g(4) [unfolded rg(1)]]
  have step: "traverse_levels cmp P key False (length (ms # rest)) lvl (ns ! i) [] m =
      traverse_levels cmp P key False (length rest) (lvl - 1) (ms ! g) [] m"
    using t get_record_ok(1) [OF ok p] ch g(3) rg(1)
    by (simp add: traverse_levels.simps [of _ _ _ _ "Suc (length rest)"])
  have so: "sorted_less (map rank ?rs)" using lv by (simp add: level_ok_def)
  have cg: "g + 1 = count_le rank ?rs (rank key)" "g + 1 \<noteq> 0" using c by (simp_all add: g_def)
  have b: "rank (?rs ! g) \<le> rank key" "g + 1 < length ?rs \<Longrightarrow> rank key < rank (?rs ! (g + 1))"
    using count_le_bounds [OF so cg] by simp_all
  have hi: "g + 1 < length ms \<Longrightarrow> rank key < rank (recs (ms ! (g + 1)) ! 0)"
    using b(2) ix g(5) by (simp add: index_ok_def Let_def)
  from Cons.IH [OF lo g(1) Cons.prems(3) _ hi, of "lvl - 1"] b(1) g(2) step show ?case by simp
qed

text \<open>The first record of the leaves has the rank of the first record of the root.\<close>

lemma first_rank:
  assumes "levels_ok key_ok rank P recs (ns # rest)"
  shows "rank (concat (map recs ns) ! 0) = rank (concat (map recs (last (ns # rest))) ! 0)"
    "concat (map recs (last (ns # rest))) \<noteq> []" "level_ok key_ok rank P recs (last (ns # rest))"
  using assms
proof (induction rest arbitrary: ns)
  case Nil
  {
    case 1 then show ?case by simp
  next
    case 2 then show ?case by (auto simp: level_ok_def neq_Nil_conv)
  next
    case 3 then show ?case by simp
  }
next
  case (Cons ms rest)
  {
    case 1
    then have ix: "index_ok rank recs ns ms" and lv: "level_ok key_ok rank P recs ms" and lo: "levels_ok key_ok rank P recs (ms # rest)"
      by (cases rest; simp)+
    have m: "0 < length ms" "recs (ms ! 0) \<noteq> []" using lv by (auto simp: level_ok_def)
    then have "concat (map recs ms) ! 0 = recs (ms ! 0) ! 0" using nth_concat_at [of 0 "map recs ms" 0] by simp
    then show ?case using ix m(1) Cons.IH(1) [OF lo] by (simp add: index_ok_def Let_def)
  next
    case 2 then show ?case using Cons.IH(2) [of ms] by simp
  next
    case 3 then show ?case using Cons.IH(3) [of ms] by simp
  }
qed

section \<open>Records\<close>

lemma record_at_ok:
  assumes lv: "level_ok key_ok rank P recs ns" and j: "j < length ns" "pool_get P (ns ! j) = Ok d"
    and ok: "node_ok (pool_host P) d (recs (ns ! j))" and p: "p < length (recs (ns ! j))"
  shows "record_at P recs ns (length (concat (map recs (take j ns))) + p) (form_gen_record (ns ! j) d (off (pool_host P) d p) (int p))"
proof -
  let ?r = "recs (ns ! j) ! p"
  have a: "concat (map recs ns) ! (length (concat (map recs (take j ns))) + p) = ?r"
    using nth_concat_at [of j "map recs ns" p] j p by (simp add: take_map)
  have "key_len ?r \<le> VDFS2_MAX_BTREE_KEY_LEN" using level_okD [OF lv j(1)] p nth_mem by metis
  then have "get_value_pointer d (off (pool_host P) d p) = Ok (off (pool_host P) d p + key_len ?r)"
    using get_record_ok(4) [OF ok p] by (simp add: get_value_pointer_def)
  then show ?thesis
    using a j ok p get_record_ok(2) [OF ok p] unfolding record_at_def
    by (intro exI [of _ j] exI [of _ p]) (simp add: form_gen_record_def)
qed

lemma btree_find_ok:
  assumes t: "tree_ok key_ok rank P recs levels" and key: "key_ok key" and m: "kmem_alloc m = (True, m1)"
  defines "n \<equiv> count_le rank (tree_records recs levels) (rank key)"
  shows "if n = 0 then vdfs2_btree_find cmp P key m = (Err ENOENT, m1)
    else \<exists>r. vdfs2_btree_find cmp P key m = (Ok r, m1) \<and> record_at P recs (last levels) (n - 1) r"
proof -
  obtain ns rest where l: "levels = ns # rest" using t by (cases levels) (auto simp: tree_ok_def)
  have lo: "levels_ok key_ok rank P recs (ns # rest)" and n1: "length ns = 1"
    and h: "vdfs2_btree_get_root_id P = ns ! 0" "vdfs2_btree_get_height P = Suc (length rest)"
    using t by (simp_all add: tree_ok_def l)
  have lv: "level_ok key_ok rank P recs ns" using lo by (cases rest) simp_all
  have ns0: "concat (map recs ns) = recs (ns ! 0)" using n1 by (cases ns) auto
  note fr = first_rank [OF lo]
  have so: "sorted_less (map rank (tree_records recs levels))" using fr(3) by (simp add: level_ok_def tree_records_def l)
  have ne: "tree_records recs levels \<noteq> []" using fr(2) by (simp add: tree_records_def l)
  have r0: "rank (recs (ns ! 0) ! 0) = rank (tree_records recs levels ! 0)" using fr(1) ns0 by (simp add: tree_records_def l)
  have tr: "vdfs2_btree_traverse cmp P key False VDFS2_BTREE_LEAF_LVL m1 =
      traverse_levels cmp P key False (length rest) (Suc (length rest)) (ns ! 0) [] m1"
    by (simp add: vdfs2_btree_traverse_def h VDFS2_BTREE_LEAF_LVL_def)
  show ?thesis
  proof (cases "n = 0")
    case True
    then have lt: "rank key < rank (recs (ns ! 0) ! 0)" using count_le_0 [OF ne so] r0 by (simp add: n_def)
    obtain d where d: "pool_get P (ns ! 0) = Ok d" "node_ok (pool_host P) d (recs (ns ! 0))" "recs (ns ! 0) \<noteq> []"
      "\<forall>r\<in>set (recs (ns ! 0)). key_ok r" "sorted_less (map rank (recs (ns ! 0)))"
      using level_okD [OF lv, of 0] n1 by (metis zero_less_one)
    have "binary_search cmp (pool_host P) d key = Err ENOENT"
      using binary_search_ok [OF d(2,4) key d(5,3)] count_le_0 [OF d(3,5)] lt by simp
    then have "btree_traverse_level cmp P key (ns ! 0) = Err ENOENT" using d(1) by (simp add: btree_traverse_level_def)
    then show ?thesis
      using True m tr by (simp add: vdfs2_btree_find_def traverse_levels.simps [of _ _ _ _ "length rest"])
  next
    case False
    then have "rank (recs (ns ! 0) ! 0) \<le> rank key" using count_le_0 [OF ne so, of "rank key"] r0 by (simp add: n_def not_less)
    then obtain j d p where f:
      "traverse_levels cmp P key False (length rest) (Suc (length rest)) (ns ! 0) [] m1 = (Ok (last levels ! j, d, int p, []), m1)"
      "j < length (last levels)" "pool_get P (last levels ! j) = Ok d" "node_ok (pool_host P) d (recs (last levels ! j))"
      "p < length (recs (last levels ! j))" "n = length (concat (map recs (take j (last levels)))) + p + 1"
      using traverse_levels_ok [OF lo _ key, of 0] n1 unfolding n_def tree_records_def l by fastforce
    let ?r = "form_gen_record (last levels ! j) d (off (pool_host P) d p) (int p)"
    have ra: "record_at P recs (last levels) (n - 1) ?r"
      using record_at_ok [OF fr(3) [folded l] f(2-5)] f(6) by simp
    then have v: "rec_val ?r = Ok (off (pool_host P) d p + key_len (concat (map recs (last levels)) ! (n - 1)))"
      by (auto simp: record_at_def form_gen_record_def)
    have "vdfs2_btree_find cmp P key m = (Ok ?r, m1)"
      using m tr f(1) get_record_ok(1) [OF f(4,5)] v by (simp add: vdfs2_btree_find_def Let_def)
    then show ?thesis using False ra by auto
  qed
qed

lemma next_record_ok:
  assumes lv: "level_ok key_ok rank P recs ns" and r: "record_at P recs ns g r"
  shows "if g + 1 < length (concat (map recs ns))
    then \<exists>r'. vdfs2_get_next_btree_record P r = Ok r' \<and> record_at P recs ns (g + 1) r'
    else vdfs2_get_next_btree_record P r = Err ENOENT"
proof -
  from r obtain j p where j: "j < length ns" "p < length (recs (ns ! j))" "g = length (concat (map recs (take j ns))) + p"
    "rec_bnode_id r = ns ! j" "rec_pos r = int p" "pool_get P (ns ! j) = Ok (rec_bnode r)"
    "node_ok (pool_host P) (rec_bnode r) (recs (ns ! j))"
    unfolding record_at_def by blast
  let ?d = "rec_bnode r"
  have rc: "descr_recs_count ?d = length (recs (ns ! j))" using node_okD(4) [OF j(7)] by simp
  have nx: "descr_next ?d = (if j + 1 < length ns then ns ! (j + 1) else 0)" "ns ! j \<noteq> 0"
    using level_okD [OF lv j(1)] j(6) by (metis result.inject)+
  have tk: "length (concat (map recs (take (j + 1) ns))) = length (concat (map recs (take j ns))) + length (recs (ns ! j))"
    using j(1) by (simp add: take_Suc_conv_app_nth)
  consider (here) "p + 1 < length (recs (ns ! j))" | (next_node) "p + 1 = length (recs (ns ! j))" "j + 1 < length ns"
    | (none) "p + 1 = length (recs (ns ! j))" "j + 1 = length ns"
    using j(1,2) by linarith
  then show ?thesis
  proof cases
    case here
    have "g + 1 < length (concat (map recs ns))"
      using length_concat_take_mono [of j "map recs ns" "p + 1"] j(1,3) here by (simp add: take_map)
    moreover have "vdfs2_get_next_btree_record P r = Ok (form_gen_record (ns ! j) ?d (off (pool_host P) ?d (p + 1)) (int (p + 1)))"
      using here get_record_ok(1) [OF j(7) here] j(4,5) rc
      by (simp add: vdfs2_get_next_btree_record_def next_btree_record_def nat_add_distrib add.commute)
    ultimately show ?thesis using record_at_ok [OF lv j(1,6,7) here] j(3) by (simp add: add.assoc)
  next
    case next_node
    obtain d2 where d2: "pool_get P (ns ! (j + 1)) = Ok d2" "node_ok (pool_host P) d2 (recs (ns ! (j + 1)))"
      "recs (ns ! (j + 1)) \<noteq> []" "ns ! (j + 1) \<noteq> 0"
      using level_okD [OF lv next_node(2)] by metis
    have l0: "0 < length (recs (ns ! (j + 1)))" using d2(3) by simp
    have "g + 1 < length (concat (map recs ns))"
      using length_concat_take_mono [of "j + 1" "map recs ns" 0] next_node j(3) tk l0 by (simp add: take_map)
    moreover have "vdfs2_get_next_btree_record P r = Ok (form_gen_record (ns ! (j + 1)) d2 (off (pool_host P) d2 0) (int 0))"
      using next_node get_record_ok(1) [OF d2(2) l0] j(4,5) rc nx d2(1,4)
      by (simp add: vdfs2_get_next_btree_record_def next_btree_record_def vdfs2_get_next_bnode_def)
    moreover have "g + 1 = length (concat (map recs (take (j + 1) ns))) + 0" using j(3) next_node(1) tk by simp
    ultimately show ?thesis using record_at_ok [OF lv next_node(2) d2(1,2) l0] by auto
  next
    case none
    have "take (j + 1) ns = ns" using none(2) by simp
    then have "\<not> g + 1 < length (concat (map recs ns))" using tk j(3) none(1) by simp
    moreover have "vdfs2_get_next_btree_record P r = Err ENOENT"
      using none j(4,5) rc nx by (simp add: vdfs2_get_next_btree_record_def next_btree_record_def vdfs2_get_next_bnode_def)
    ultimately show ?thesis by simp
  qed
qed

end

end
