(* ===== verification/File_Extents.thy ===== *)
theory File_Extents
  imports Btree_Find
begin

text \<open>
  Where the blocks of a file are: nine extents in the file's own record, the fork, and the
  others in the extents overflow tree, keyed by file and first file block (\<^verbatim>\<open>extents.c\<close>,
  \<^verbatim>\<open>inode.c\<close>). This theory models the searches in the overflow tree, the search for the
  extent of a file block over fork and tree, and the conversion of forks from and to their
  form on the device.
\<close>

record vdfs2_extent_info =
  first_block :: nat
  ext_iblock :: nat
  ext_count :: nat

definition VDFS2_EXTENTS_COUNT_IN_FORK :: nat where "VDFS2_EXTENTS_COUNT_IN_FORK = 9"
definition IBLOCK_MAX_NUMBER :: nat where "IBLOCK_MAX_NUMBER = 0xFFFFFFFE"
definition VDFS2_FORK_MAGIC :: nat where "VDFS2_FORK_MAGIC = 0x46"

record vdfs2_fork_info =
  total_block_count :: nat
  prealloc_block_count :: nat
  prealloc_start_block :: nat
  fork_extents :: "vdfs2_extent_info list"
  used_extents :: nat

definition zero_extent :: vdfs2_extent_info where
  "zero_extent = \<lparr>first_block = 0, ext_iblock = 0, ext_count = 0\<rparr>"

section \<open>The overflow tree\<close>

text \<open>The key cache hands out keys whose generic part is zero.\<close>

definition exttree_key :: "nat \<Rightarrow> nat \<Rightarrow> u8 list" where
  "exttree_key object_id iblock = wr 8 (wr 8 (replicate 28 0) 12 object_id) 20 iblock"

definition vdfs2_exttree_find_record_nonstrict ::
  "node_pool \<Rightarrow> nat \<Rightarrow> nat \<Rightarrow> mem \<Rightarrow> vdfs2_btree_record_info result \<times> mem" where
  "vdfs2_exttree_find_record_nonstrict P object_id iblock m =
     (case kmem_alloc m of (ok, m1) \<Rightarrow>
        if \<not> ok then (Err ENOMEM, m1) else vdfs2_btree_find vdfs2_exttree_cmpfn P (exttree_key object_id iblock) m1)"

definition rec_object_id :: "vdfs2_btree_record_info \<Rightarrow> nat" where
  "rec_object_id r = rd 8 (rec_bnode r) (rec_key r + 12)"

definition rec_iblock :: "vdfs2_btree_record_info \<Rightarrow> nat" where
  "rec_iblock r = rd 8 (rec_bnode r) (rec_key r + 20)"

text \<open>The extent in a record of the tree, behind the key.\<close>

definition rec_extent :: "vdfs2_btree_record_info \<Rightarrow> vdfs2_extent_info" where
  "rec_extent r =
     (case rec_val r of
        Ok v \<Rightarrow> \<lparr>first_block = rd 8 (rec_bnode r) v, ext_iblock = rec_iblock r, ext_count = rd 4 (rec_bnode r) (v + 8)\<rparr>
      | _ \<Rightarrow> zero_extent)"

definition vdfs2_exttree_find_record_strict_obj ::
  "node_pool \<Rightarrow> nat \<Rightarrow> nat \<Rightarrow> mem \<Rightarrow> vdfs2_btree_record_info result \<times> mem" where
  "vdfs2_exttree_find_record_strict_obj P object_id iblock m =
     (case vdfs2_exttree_find_record_nonstrict P object_id iblock m of
        (Ok record, m1) \<Rightarrow> (if rec_object_id record \<noteq> object_id then (Err ENOENT, m1) else (Ok record, m1))
      | (Err e, m1) \<Rightarrow> (Err e, m1)
      | (Bug, m1) \<Rightarrow> (Bug, m1))"

definition vdfs2_exttree_find_first_record ::
  "node_pool \<Rightarrow> nat \<Rightarrow> mem \<Rightarrow> vdfs2_btree_record_info result \<times> mem" where
  "vdfs2_exttree_find_first_record P object_id m =
     (case vdfs2_exttree_find_record_nonstrict P object_id 0 m of
        (Ok record, m1) \<Rightarrow>
          (if rec_object_id record = object_id then (Ok record, m1)
           else
             (case vdfs2_get_next_btree_record P record of
                Ok record' \<Rightarrow> (if rec_object_id record' \<noteq> object_id then (Err ENOENT, m1) else (Ok record', m1))
              | Err e \<Rightarrow> (Err e, m1)
              | Bug \<Rightarrow> (Bug, m1)))
      | (Err e, m1) \<Rightarrow> (Err e, m1)
      | (Bug, m1) \<Rightarrow> (Bug, m1))"

definition vdfs2_find_last_extent :: "node_pool \<Rightarrow> nat \<Rightarrow> mem \<Rightarrow> vdfs2_btree_record_info result \<times> mem" where
  "vdfs2_find_last_extent P object_id m = vdfs2_exttree_find_record_strict_obj P object_id IBLOCK_MAX_NUMBER m"

definition vdfs2_exttree_get_extent ::
  "node_pool \<Rightarrow> nat \<Rightarrow> nat \<Rightarrow> mem \<Rightarrow> ret \<times> vdfs2_extent_info \<times> mem" where
  "vdfs2_exttree_get_extent P object_id iblock m =
     (case vdfs2_exttree_find_record_strict_obj P object_id iblock m of
        (Err e, m1) \<Rightarrow> (Fail e, zero_extent, m1)
      | (Bug, m1) \<Rightarrow> (Oops, zero_extent, m1)
      | (Ok record, m1) \<Rightarrow>
          (let res = rec_extent record;
               last_iblock = (ext_iblock res + ext_count res) mod 2 ^ 64 in
           (if ext_iblock res \<le> iblock \<and> iblock \<le> last_iblock then Success else Fail ENOENT, res, m1)))"

text \<open>The block number, 0 for none, and the number of blocks to the end of the extent.\<close>

definition vdfs2_exttree_get_block :: "node_pool \<Rightarrow> nat \<Rightarrow> nat \<Rightarrow> mem \<Rightarrow> nat \<times> nat option \<times> mem" where
  "vdfs2_exttree_get_block P object_id iblock m =
     (case vdfs2_exttree_get_extent P object_id iblock m of (ret, e, m1) \<Rightarrow>
        if ret \<noteq> Success then (0, None, m1)
        else ((first_block e + iblock + 2 ^ 64 - ext_iblock e) mod 2 ^ 64,
              Some ((ext_count e + 2 ^ 64 + ext_iblock e - iblock) mod 2 ^ 32), m1))"

text \<open>The record that \<^verbatim>\<open>vdfs2_exttree_add\<close> fills and hands to the tree for insertion.\<close>

definition VDFS2_EXTTREE_KEY_MAGIC :: "u8 list" where "VDFS2_EXTTREE_KEY_MAGIC = [0x45, 0x78, 0x74, 0x4B]"

definition exttree_lrecord :: "nat \<Rightarrow> vdfs2_extent_info \<Rightarrow> u8 list" where
  "exttree_lrecord object_id extent =
     (let r1 = put (replicate 40 0) 0 VDFS2_EXTTREE_KEY_MAGIC;
          r2 = wr 4 (wr 4 r1 4 28) 8 40;
          r3 = wr 8 (wr 8 r2 12 object_id) 20 (ext_iblock extent) in
      wr 4 (wr 8 r3 28 (first_block extent)) 36 (ext_count extent))"

section \<open>Fork and tree\<close>

text \<open>The first loop: the extent of the fork that holds the block.\<close>

definition holds_iblock :: "nat \<Rightarrow> vdfs2_extent_info \<Rightarrow> bool" where
  "holds_iblock iblock e \<longleftrightarrow> ext_iblock e \<le> iblock \<and> iblock \<le> (ext_iblock e + ext_count e + (2 ^ 64 - 1)) mod 2 ^ 64"

text \<open>The end of the function: no extent holds the block, and the last one looked at gives the hint.\<close>

definition extent_not_found :: "nat \<Rightarrow> vdfs2_extent_info \<Rightarrow> vdfs2_extent_info \<times> nat" where
  "extent_not_found iblock e =
     (e\<lparr>first_block := 0\<rparr>,
      if iblock = (ext_iblock e + ext_count e) mod 2 ^ 64 then (first_block e + ext_count e) mod 2 ^ 64 else 0)"

text \<open>
  The result, the extent and the hint, both given by reference and only written on some paths.
\<close>

definition vdfs2_get_iblock_extent ::
  "node_pool \<Rightarrow> nat \<Rightarrow> vdfs2_fork_info \<Rightarrow> nat \<Rightarrow> vdfs2_extent_info \<Rightarrow> nat \<Rightarrow> mem \<Rightarrow> ret \<times> vdfs2_extent_info \<times> nat \<times> mem" where
  "vdfs2_get_iblock_extent P i_ino fork iblock res hint_block m =
     (if total_block_count fork = 0 then (Success, res, hint_block, m)
      else
        (case find (holds_iblock iblock) (take (used_extents fork) (fork_extents fork)) of
           Some e \<Rightarrow> (Success, e, hint_block, m)
         | None \<Rightarrow>
             if used_extents fork < VDFS2_EXTENTS_COUNT_IN_FORK then
               (if used_extents fork = 0 then (Oops, res, hint_block, m)
                else
                  (case extent_not_found iblock (fork_extents fork ! (used_extents fork - 1)) of (e, hint) \<Rightarrow>
                     (Success, e, hint, m)))
             else
               (case vdfs2_exttree_get_extent P i_ino iblock m of (ret, e, m1) \<Rightarrow>
                  if ret \<noteq> Success \<and> ret \<noteq> Fail ENOENT then (ret, e, hint_block, m1)
                  else if first_block e = 0 then
                    (case extent_not_found iblock (fork_extents fork ! (VDFS2_EXTENTS_COUNT_IN_FORK - 1)) of (e', hint) \<Rightarrow>
                       (Success, e', hint, m1))
                  else if holds_iblock iblock e then (Success, e, hint_block, m1)
                  else (case extent_not_found iblock e of (e', hint) \<Rightarrow> (Success, e', hint, m1)))))"

text \<open>The translation of a block number that counts the blocks of the fork's extents one after the other.\<close>

fun old_block_in_fork :: "nat \<Rightarrow> vdfs2_extent_info list \<Rightarrow> (nat \<times> nat) option" where
  "old_block_in_fork iblock [] = None"
| "old_block_in_fork iblock (e # es) =
     (if iblock < ext_count e then Some ((first_block e + iblock) mod 2 ^ 64, ext_count e - iblock)
      else old_block_in_fork (iblock - ext_count e) es)"

definition vdfs2_find_old_block :: "node_pool \<Rightarrow> nat \<Rightarrow> vdfs2_fork_info \<Rightarrow> nat \<Rightarrow> mem \<Rightarrow> nat \<times> nat option \<times> mem" where
  "vdfs2_find_old_block P i_ino fork iblock m =
     (case old_block_in_fork iblock (take (used_extents fork) (fork_extents fork)) of
        Some (b, max_blocks) \<Rightarrow> (b, Some max_blocks, m)
      | None \<Rightarrow> vdfs2_exttree_get_block P i_ino iblock m)"

section \<open>Forks on the device\<close>

text \<open>
  \<^verbatim>\<open>struct vdfs2_fork\<close>: the magic number, the size, the number of blocks and the nine
  extents, each with first block, length and file block.
\<close>

definition FORK_SIZE :: nat where "FORK_SIZE = 193"

definition iextent_pos :: "nat \<Rightarrow> nat" where "iextent_pos i = 13 + 20 * i"

definition is_fork_valid :: "u8 list \<Rightarrow> bool" where
  "is_fork_valid lfork \<longleftrightarrow> rd 1 lfork 0 = VDFS2_FORK_MAGIC"

definition read_iextent :: "u8 list \<Rightarrow> nat \<Rightarrow> vdfs2_extent_info" where
  "read_iextent lfork i =
     \<lparr>first_block = rd 8 lfork (iextent_pos i), ext_iblock = rd 8 lfork (iextent_pos i + 12),
      ext_count = rd 4 lfork (iextent_pos i + 8)\<rparr>"

definition vdfs2_lfork_to_rfork :: "u8 list \<Rightarrow> vdfs2_fork_info \<Rightarrow> vdfs2_fork_info" where
  "vdfs2_lfork_to_rfork lfork rfork =
     (let es = map (read_iextent lfork) [0..<VDFS2_EXTENTS_COUNT_IN_FORK] in
      rfork\<lparr>fork_extents := es, used_extents := length (filter (\<lambda>e. first_block e \<noteq> 0) es)\<rparr>)"

text \<open>The fields of the inode that the fork functions use; the last is for device files.\<close>

record fork_inode =
  i_size :: nat
  is_device :: bool
  i_rdev :: nat
  i_blocks :: nat
  inode_fork :: vdfs2_fork_info

definition vdfs2_parse_fork :: "nat \<Rightarrow> u8 list \<Rightarrow> fork_inode \<Rightarrow> ret \<times> fork_inode" where
  "vdfs2_parse_fork block_size_shift lfork inode =
     (if \<not> is_fork_valid lfork then (Fail EINVAL, inode)
      else
        (let size = rd 8 lfork 1;
             inode1 = (if is_device inode then inode\<lparr>i_rdev := size mod 2 ^ 32, i_size := 0\<rparr> else inode\<lparr>i_size := size\<rparr>);
             ifork = (inode_fork inode)\<lparr>total_block_count := rd 4 lfork 9, prealloc_block_count := 0, prealloc_start_block := 0\<rparr> in
         (Success, inode1\<lparr>i_blocks := push_bit (block_size_shift - 9) (total_block_count ifork) mod 2 ^ 32,
            inode_fork := vdfs2_lfork_to_rfork lfork ifork\<rparr>)))"

definition write_iextent :: "vdfs2_extent_info \<Rightarrow> nat \<Rightarrow> u8 list \<Rightarrow> u8 list" where
  "write_iextent e i lfork =
     wr 8 (wr 4 (wr 8 lfork (iextent_pos i) (first_block e)) (iextent_pos i + 8) (ext_count e)) (iextent_pos i + 12) (ext_iblock e)"

fun write_iextents :: "vdfs2_extent_info list \<Rightarrow> nat \<Rightarrow> u8 list \<Rightarrow> u8 list" where
  "write_iextents [] i lfork = lfork"
| "write_iextents (e # es) i lfork = write_iextents es (i + 1) (write_iextent e i lfork)"

definition vdfs2_form_fork :: "fork_inode \<Rightarrow> u8 list" where
  "vdfs2_form_fork inode =
     (let ifork = inode_fork inode;
          lfork0 = replicate FORK_SIZE 0;
          lfork1 = (if is_device inode then wr 8 lfork0 1 (i_rdev inode)
             else write_iextents (take (used_extents ifork) (fork_extents ifork)) 0
               (wr 4 (wr 8 lfork0 1 (i_size inode)) 9 (total_block_count ifork))) in
      wr 1 lfork1 0 VDFS2_FORK_MAGIC)"

end
