(* ===== verification/File_Extents_Claims.thy ===== *)
theory File_Extents_Claims
  imports File_Extents Btree_Node_Claims
begin

text \<open>
  The properties of the extent searches: what the search in the overflow tree returns, that
  the search over fork and tree finds exactly the extent that holds a file block, and that a
  fork survives the way to the device and back.
\<close>

section \<open>Records of the overflow tree\<close>

definition rec_obj :: "u8 list \<Rightarrow> nat" where "rec_obj r = rd 8 r 12"

definition rec_ext :: "u8 list \<Rightarrow> vdfs2_extent_info" where
  "rec_ext r = \<lparr>first_block = rd 8 r 28, ext_iblock = rd 8 r 20, ext_count = rd 4 r 36\<rparr>"

definition ext_tree_ok :: "node_pool \<Rightarrow> (nat \<Rightarrow> u8 list list) \<Rightarrow> nat list list \<Rightarrow> bool" where
  "ext_tree_ok P recs levels \<longleftrightarrow>
     tree_ok ext_key_ok ext_rank P recs levels \<and> (\<forall>r\<in>set (tree_records recs levels). key_len r = 28 \<and> length r = 40)"

text \<open>The extents of a file in the tree, in the order of their file blocks.\<close>

definition tree_extents :: "(nat \<Rightarrow> u8 list list) \<Rightarrow> nat list list \<Rightarrow> nat \<Rightarrow> vdfs2_extent_info list" where
  "tree_extents recs levels obj = map rec_ext (filter (\<lambda>r. rec_obj r = obj) (tree_records recs levels))"

lemma record_fields:
  assumes r: "record_at P recs ns g r" and x: "x = concat (map recs ns) ! g" "key_len x = 28" "length x = 40"
  shows "rec_object_id r = rec_obj x" "rec_iblock r = ext_iblock (rec_ext x)" "rec_extent r = rec_ext x"
proof -
  from r obtain j p where "j < length ns" "p < length (recs (ns ! j))" "g = length (concat (map recs (take j ns))) + p"
    and ok: "node_ok (pool_host P) (rec_bnode r) (recs (ns ! j))"
    and k: "rec_key r = off (pool_host P) (rec_bnode r) p" "rng (rec_bnode r) (rec_key r) (length x) = x"
    "rec_val r = Ok (rec_key r + key_len x)"
    unfolding record_at_def x(1) by blast
  moreover from this have "x = recs (ns ! j) ! p"
    using nth_concat_at [of j "map recs ns" p] by (simp add: x(1) take_map)
  ultimately have len: "rec_key r + 40 \<le> length (rec_bnode r)"
    using get_record_ok(5) [OF ok] x(3) by metis
  have f: "rd w (rec_bnode r) (rec_key r + q) = rd w x q" if "q + w \<le> 40" for q w
    using rd_rng [of q w 40 "rec_key r" "rec_bnode r"] that k(2) x(3) len by simp
  show "rec_object_id r = rec_obj x" "rec_iblock r = ext_iblock (rec_ext x)"
    using f [of 12 8] f [of 20 8] by (simp_all add: rec_object_id_def rec_obj_def rec_iblock_def rec_ext_def)
  show "rec_extent r = rec_ext x"
    using f [of 28 8] f [of 20 8] f [of 36 4] x(2) k(3)
    by (simp add: rec_extent_def rec_iblock_def rec_ext_def add.assoc)
qed

lemma exttree_key_ok:
  "ext_key_ok (exttree_key obj ib)" "obj < 2 ^ 64 \<Longrightarrow> ib < 2 ^ 64 \<Longrightarrow> ext_rank (exttree_key obj ib) = (obj, ib)"
  by (simp_all add: ext_key_ok_def ext_rank_def exttree_key_def rd_wr_same rd_wr_other)

lemma alloc_all [simp]: "kmem_alloc [] = (True, [])"
  by simp

text \<open>What the search in the tree returns, by the number of records up to the key.\<close>

lemma find_nonstrict_ok:
  assumes t: "ext_tree_ok P recs levels" and b: "obj < 2 ^ 64" "ib < 2 ^ 64"
  defines "all \<equiv> tree_records recs levels"
  defines "n \<equiv> count_le ext_rank all (obj, ib)"
  shows "if n = 0 then vdfs2_exttree_find_record_nonstrict P obj ib [] = (Err ENOENT, [])
    else \<exists>r. vdfs2_exttree_find_record_nonstrict P obj ib [] = (Ok r, []) \<and> record_at P recs (last levels) (n - 1) r \<and>
      rec_object_id r = rec_obj (all ! (n - 1)) \<and> rec_extent r = rec_ext (all ! (n - 1)) \<and> n - 1 < length all"
proof -
  have tk: "tree_ok ext_key_ok ext_rank P recs levels" using t by (simp add: ext_tree_ok_def)
  note f = ext_keys.btree_find_ok [OF tk exttree_key_ok(1) alloc_all, of obj ib, folded all_def]
  have e: "vdfs2_exttree_find_record_nonstrict P obj ib [] = vdfs2_btree_find vdfs2_exttree_cmpfn P (exttree_key obj ib) []"
    by (simp add: vdfs2_exttree_find_record_nonstrict_def)
  show ?thesis
  proof (cases "n = 0")
    case True
    then show ?thesis using f e exttree_key_ok(2) [OF b] by (simp add: n_def)
  next
    case False
    then obtain r where r: "vdfs2_btree_find vdfs2_exttree_cmpfn P (exttree_key obj ib) [] = (Ok r, [])"
      "record_at P recs (last levels) (n - 1) r"
      using f exttree_key_ok(2) [OF b] by (auto simp: n_def)
    have l: "n - 1 < length all"
    proof -
      have "n \<le> length all" by (simp add: n_def count_le_def)
      then show ?thesis using False by linarith
    qed
    then have "key_len (all ! (n - 1)) = 28" "length (all ! (n - 1)) = 40"
      using t by (simp_all add: ext_tree_ok_def all_def)
    from record_fields [OF r(2) _ this] have "rec_object_id r = rec_obj (all ! (n - 1))" "rec_extent r = rec_ext (all ! (n - 1))"
      by (simp_all add: all_def tree_records_def)
    then show ?thesis using False r e l by simp
  qed
qed

lemma ext_tree_sorted: "ext_tree_ok P recs levels \<Longrightarrow> sorted_less (map ext_rank (tree_records recs levels))"
  unfolding ext_tree_ok_def tree_ok_def tree_records_def
  using ext_keys.first_rank(3) [of P recs "hd levels" "tl levels"] by (cases levels) (auto simp: level_ok_def)

text \<open>The last extent of the file that starts at or before the block.\<close>

definition last_before :: "nat \<Rightarrow> vdfs2_extent_info list \<Rightarrow> vdfs2_extent_info option" where
  "last_before ib es = (let fs = filter (\<lambda>e. ext_iblock e \<le> ib) es in if fs = [] then None else Some (last fs))"

lemma last_filter_prefix:
  assumes "\<forall>i < length xs. Q (xs ! i) \<longleftrightarrow> i < n" "n \<le> length xs"
  shows "filter Q xs = take n xs"
proof -
  have "\<forall>x\<in>set (take n xs). Q x" "\<forall>x\<in>set (drop n xs). \<not> Q x"
    using assms by (auto simp: in_set_conv_nth)
  then have "filter Q (take n xs @ drop n xs) = take n xs" unfolding filter_append by (simp add: filter_id_conv filter_empty_conv)
  then show ?thesis by simp
qed

lemma find_last_before:
  fixes obj ib :: nat
  assumes t: "ext_tree_ok P recs levels"
  defines "all \<equiv> tree_records recs levels"
  defines "n \<equiv> count_le ext_rank all (obj, ib)"
  shows "last_before ib (tree_extents recs levels obj) =
    (if n = 0 \<or> rec_obj (all ! (n - 1)) \<noteq> obj then None else Some (rec_ext (all ! (n - 1))))"
proof -
  have so: "sorted_less (map ext_rank all)" using ext_tree_sorted [OF t] by (simp add: all_def)
  have nl: "n \<le> length all" by (simp add: n_def count_le_def)
  have lt: "ext_rank (all ! i) < ext_rank (all ! j)" if "i < j" "j < length all" for i j
    using so that by (simp add: sorted_wrt_iff_nth_less)
  have le: "ext_rank (all ! i) \<le> (obj, ib) \<longleftrightarrow> i < n" if i: "i < length all" for i
  proof (cases "n = 0")
    case True
    then have "filter (\<lambda>r. ext_rank r \<le> (obj, ib)) all = []" by (simp add: n_def count_le_def)
    then show ?thesis using True i by (auto simp: filter_empty_conv)
  next
    case False
    note b = count_le_bounds [OF so meta_eq_to_obj_eq [OF n_def] False]
    show ?thesis
    proof (cases "i < n")
      case True
      then have "i = n - 1 \<or> i < n - 1 \<and> n - 1 < length all" using nl by linarith
      then have "ext_rank (all ! i) \<le> ext_rank (all ! (n - 1))" using lt [of i "n - 1"] by (auto simp: less_imp_le)
      then show ?thesis using b(1) True by (meson order_trans)
    next
      case ge: False
      then have "ext_rank (all ! n) \<le> ext_rank (all ! i)" using lt [of n i] i by (cases "i = n") auto
      then show ?thesis using b(2) ge i by (meson leD le_less_trans not_less order_trans less_le_trans)
    qed
  qed
  then have pre: "filter (\<lambda>r. ext_rank r \<le> (obj, ib)) all = take n all" using nl by (intro last_filter_prefix) auto
  have rk: "ext_rank r \<le> (obj, ib) \<longleftrightarrow> rec_obj r < obj \<or> rec_obj r = obj \<and> ext_iblock (rec_ext r) \<le> ib" for r
    by (auto simp: ext_rank_def rec_obj_def rec_ext_def less_eq_prod_def)
  have "filter (\<lambda>e. ext_iblock e \<le> ib) (tree_extents recs levels obj) =
      map rec_ext (filter (\<lambda>r. rec_obj r = obj \<and> ext_iblock (rec_ext r) \<le> ib) all)"
    by (simp add: tree_extents_def all_def filter_map o_def conj_commute)
  also have "filter (\<lambda>r. rec_obj r = obj \<and> ext_iblock (rec_ext r) \<le> ib) all = filter (\<lambda>r. rec_obj r = obj) (take n all)"
    unfolding pre [symmetric] filter_filter by (rule filter_cong) (auto simp: rk)
  finally have fs: "filter (\<lambda>e. ext_iblock e \<le> ib) (tree_extents recs levels obj) = map rec_ext (filter (\<lambda>r. rec_obj r = obj) (take n all))" .
  show ?thesis
  proof (cases "n = 0")
    case True
    then show ?thesis by (simp add: last_before_def fs)
  next
    case False
    then obtain k where k: "n = Suc k" by (cases n) auto
    then have tk: "take n all = take k all @ [all ! k]" using nl by (simp add: take_Suc_conv_app_nth)
    show ?thesis
    proof (cases "rec_obj (all ! k) = obj")
      case True
      then show ?thesis using k tk by (simp add: last_before_def fs Let_def)
    next
      case ne: False
      have kk: "ext_rank (all ! k) \<le> (obj, ib)" using le [of k] k nl by simp
      have "rec_obj r \<noteq> obj" if "r \<in> set (take k all)" for r
      proof -
        obtain i where i: "i < k" "r = all ! i" using \<open>r \<in> set (take k all)\<close> nl k by (auto simp: in_set_conv_nth)
        then have "ext_rank r < ext_rank (all ! k)" using lt [of i k] k nl by simp
        then show ?thesis using kk ne by (auto simp: ext_rank_def rec_obj_def less_prod_def less_eq_prod_def)
      qed
      then have "filter (\<lambda>r. rec_obj r = obj) (take n all) = []" using ne tk by (auto simp: filter_empty_conv)
      then show ?thesis using k ne by (simp add: last_before_def fs)
    qed
  qed
qed

lemma get_extent_ok:
  assumes t: "ext_tree_ok P recs levels" and b: "obj < 2 ^ 64" "ib < 2 ^ 64"
  shows "vdfs2_exttree_get_extent P obj ib [] =
    (case last_before ib (tree_extents recs levels obj) of
       None \<Rightarrow> (Fail ENOENT, zero_extent, [])
     | Some e \<Rightarrow> (if ib \<le> (ext_iblock e + ext_count e) mod 2 ^ 64 then Success else Fail ENOENT, e, []))"
proof -
  let ?all = "tree_records recs levels" and ?n = "count_le ext_rank (tree_records recs levels) (obj, ib)"
  note f = find_nonstrict_ok [OF t b] and l = find_last_before [OF t, of ib obj]
  show ?thesis
  proof (cases "?n = 0")
    case True
    then show ?thesis using f l by (simp add: vdfs2_exttree_get_extent_def vdfs2_exttree_find_record_strict_obj_def)
  next
    case False
    let ?x = "?all ! (?n - 1)"
    from False f obtain r where r: "vdfs2_exttree_find_record_nonstrict P obj ib [] = (Ok r, [])"
      "rec_object_id r = rec_obj ?x" "rec_extent r = rec_ext ?x" by auto
    show ?thesis
    proof (cases "rec_obj ?x = obj")
      case True
      then have lb: "last_before ib (tree_extents recs levels obj) = Some (rec_ext ?x)" using l False by simp
      then have "ext_iblock (rec_ext ?x) \<le> ib"
        by (auto simp: last_before_def Let_def split: if_splits dest: last_in_set [of "filter _ _"])
      then show ?thesis
        using r True lb by (simp add: vdfs2_exttree_get_extent_def vdfs2_exttree_find_record_strict_obj_def Let_def)
    next
      case ne: False
      then show ?thesis using r l False by (simp add: vdfs2_exttree_get_extent_def vdfs2_exttree_find_record_strict_obj_def)
    qed
  qed
qed

section \<open>The extents of a file\<close>

definition covers :: "nat \<Rightarrow> vdfs2_extent_info \<Rightarrow> bool" where
  "covers ib e \<longleftrightarrow> ext_iblock e \<le> ib \<and> ib < ext_iblock e + ext_count e"

definition file_extents :: "vdfs2_fork_info \<Rightarrow> vdfs2_extent_info list \<Rightarrow> vdfs2_extent_info list" where
  "file_extents fork overflow = take (used_extents fork) (fork_extents fork) @ overflow"

definition file_ok :: "vdfs2_fork_info \<Rightarrow> vdfs2_extent_info list \<Rightarrow> bool" where
  "file_ok fork overflow \<longleftrightarrow>
     length (fork_extents fork) = VDFS2_EXTENTS_COUNT_IN_FORK \<and> used_extents fork \<le> VDFS2_EXTENTS_COUNT_IN_FORK \<and>
     0 < used_extents fork \<and> (used_extents fork < VDFS2_EXTENTS_COUNT_IN_FORK \<longrightarrow> overflow = []) \<and>
     (\<forall>e\<in>set (file_extents fork overflow). 0 < ext_count e \<and> first_block e \<noteq> 0 \<and>
        ext_iblock e + ext_count e < 2 ^ 64 \<and> first_block e + ext_count e < 2 ^ 64) \<and>
     sorted_wrt (\<lambda>e f. ext_iblock e + ext_count e \<le> ext_iblock f) (file_extents fork overflow)"

lemma holds_covers: "0 < ext_count e \<Longrightarrow> ext_iblock e + ext_count e < 2 ^ 64 \<Longrightarrow> holds_iblock ib e \<longleftrightarrow> covers ib e"
proof -
  assume a: "0 < ext_count e" "ext_iblock e + ext_count e < 2 ^ 64"
  have "ext_iblock e + ext_count e + (2 ^ 64 - 1) = (ext_iblock e + ext_count e - 1) + 2 ^ 64" using a by simp
  moreover have "ext_iblock e + ext_count e - 1 < 2 ^ 64" using a by linarith
  ultimately have "(ext_iblock e + ext_count e + (2 ^ 64 - 1)) mod 2 ^ 64 = ext_iblock e + ext_count e - 1"
    by (simp only: mod_add_self2 mod_less)
  moreover have "ib \<le> ext_iblock e + ext_count e - 1 \<longleftrightarrow> ib < ext_iblock e + ext_count e" using a(1) by linarith
  ultimately show ?thesis by (simp only: holds_iblock_def covers_def)
qed

lemma find_only: "e \<in> set xs \<Longrightarrow> Q e \<Longrightarrow> (\<And>x. x \<in> set xs \<Longrightarrow> Q x \<Longrightarrow> x = e) \<Longrightarrow> find Q xs = Some e"
proof (induction xs)
  case (Cons y ys)
  show ?case
  proof (cases "Q y")
    case True
    then show ?thesis using Cons.prems(3) [of y] by simp
  next
    case False
    then have "e \<in> set ys" using Cons.prems(1,2) by auto
    then show ?thesis using Cons.IH [OF _ Cons.prems(2)] Cons.prems(3) False by simp
  qed
qed simp

lemma find_app: "find Q (xs @ ys) = (case find Q xs of None \<Rightarrow> find Q ys | Some x \<Rightarrow> Some x)"
  by (induction xs) auto

lemma cover_unique:
  assumes "sorted_wrt (\<lambda>e f. ext_iblock e + ext_count e \<le> ext_iblock f) xs" "x \<in> set xs" "y \<in> set xs" "covers ib x" "covers ib y"
  shows "x = y"
proof -
  obtain i j where "i < length xs" "x = xs ! i" "j < length xs" "y = xs ! j" using assms(2,3) by (metis in_set_conv_nth)
  then show ?thesis
    using sorted_wrt_nth_less [OF assms(1), of i j] sorted_wrt_nth_less [OF assms(1), of j i] assms(4,5)
    by (cases i j rule: linorder_cases) (auto simp: covers_def)
qed

lemma last_before_covers:
  assumes so: "sorted_wrt (\<lambda>e f. ext_iblock e + ext_count e \<le> ext_iblock f) xs" and ne: "\<forall>e\<in>set xs. 0 < ext_count e"
  shows "case last_before ib xs of
      None \<Rightarrow> find (covers ib) xs = None
    | Some e \<Rightarrow> e \<in> set xs \<and> find (covers ib) xs = (if covers ib e then Some e else None)"
proof (cases "filter (\<lambda>e. ext_iblock e \<le> ib) xs = []")
  case True
  then show ?thesis by (auto simp: last_before_def find_None_iff covers_def filter_empty_conv)
next
  case False
  define fs where "fs = filter (\<lambda>e. ext_iblock e \<le> ib) xs"
  let ?e = "last fs"
  have e: "?e \<in> set xs" "ext_iblock ?e \<le> ib" using last_in_set [of fs] False by (auto simp: fs_def)
  have sf: "sorted_wrt (\<lambda>e f. ext_iblock e + ext_count e \<le> ext_iblock f) fs" using so by (simp add: fs_def sorted_wrt_filter)
  have only: "x = ?e" if "x \<in> set xs" "covers ib x" for x
  proof (rule ccontr)
    assume "x \<noteq> ?e"
    moreover have "x \<in> set fs" using that by (simp add: fs_def covers_def)
    moreover obtain gs where gs: "fs = gs @ [?e]" using False by (metis append_butlast_last_id fs_def)
    then have "set fs = insert ?e (set gs)" by (metis set_append list.set(1,2) Un_insert_right sup_bot.right_neutral)
    ultimately have "x \<in> set gs" by blast
    moreover have "sorted_wrt (\<lambda>e f. ext_iblock e + ext_count e \<le> ext_iblock f) (gs @ [?e])" using sf gs by argo
    ultimately have "ext_iblock x + ext_count x \<le> ext_iblock ?e" unfolding sorted_wrt_append by simp
    then show False using that(2) e(2) by (simp add: covers_def)
  qed
  have "find (covers ib) xs = (if covers ib ?e then Some ?e else None)"
  proof (cases "covers ib ?e")
    case True
    then show ?thesis using find_only [of ?e xs "covers ib", OF e(1) True only] by simp
  next
    case nc: False
    then have "\<not> (\<exists>x. x \<in> set xs \<and> covers ib x)" using only by blast
    then show ?thesis using nc by (simp add: find_None_iff)
  qed
  then show ?thesis using False e(1) by (simp add: last_before_def fs_def Let_def)
qed

lemma not_found_hint:
  assumes "ext_iblock e + ext_count e < 2 ^ 64" "first_block e + ext_count e < 2 ^ 64" "extent_not_found ib e = (e', hint)"
  shows "first_block e' = 0" "hint = 0 \<or> ext_iblock e + ext_count e = ib \<and> hint = first_block e + ext_count e"
  using assms by (auto simp: extent_not_found_def split: if_splits)

section \<open>Forks on the device\<close>

lemma le_val_zeros [simp]: "le_val (replicate n 0) = 0"
  by (induction n) simp_all

definition extent_in_width :: "vdfs2_extent_info \<Rightarrow> bool" where
  "extent_in_width e \<longleftrightarrow> first_block e < 2 ^ 64 \<and> ext_iblock e < 2 ^ 64 \<and> ext_count e < 2 ^ 32"

lemma write_iextent_read:
  assumes l: "length l = FORK_SIZE" and k: "k < 9" "i < 9" and e: "extent_in_width e"
  shows "length (write_iextent e k l) = FORK_SIZE" "read_iextent (write_iextent e k l) i = (if i = k then e else read_iextent l i)"
    "q + w \<le> 13 \<Longrightarrow> rd w (write_iextent e k l) q = rd w l q"
proof -
  have sz: "13 + 20 * k + 20 \<le> FORK_SIZE" "13 + 20 * i + 20 \<le> FORK_SIZE" using k by (simp_all add: FORK_SIZE_def)
  show "length (write_iextent e k l) = FORK_SIZE" using l sz by (simp add: write_iextent_def iextent_pos_def)
  show "rd w (write_iextent e k l) q = rd w l q" if "q + w \<le> 13"
    using that l sz by (simp add: write_iextent_def iextent_pos_def rd_wr_other)
  show "read_iextent (write_iextent e k l) i = (if i = k then e else read_iextent l i)"
  proof (cases "i = k")
    case True
    then show ?thesis
      using l sz e by (simp add: write_iextent_def read_iextent_def iextent_pos_def rd_wr_other rd_wr_same extent_in_width_def)
  next
    case False
    then have "i + 1 \<le> k \<or> k + 1 \<le> i" by linarith
    then have "13 + 20 * i + 20 \<le> 13 + 20 * k \<or> 13 + 20 * k + 20 \<le> 13 + 20 * i" by linarith
    then show ?thesis using False l sz by (auto simp: write_iextent_def read_iextent_def iextent_pos_def rd_wr_other)
  qed
qed

lemma write_iextents_read:
  "length l = FORK_SIZE \<Longrightarrow> k + length es \<le> 9 \<Longrightarrow> \<forall>e\<in>set es. extent_in_width e \<Longrightarrow>
   length (write_iextents es k l) = FORK_SIZE \<and>
   (\<forall>i < 9. read_iextent (write_iextents es k l) i = (if k \<le> i \<and> i < k + length es then es ! (i - k) else read_iextent l i)) \<and>
   (\<forall>q w. q + w \<le> 13 \<longrightarrow> rd w (write_iextents es k l) q = rd w l q)"
proof (induction es arbitrary: k l)
  case (Cons e es)
  have e: "extent_in_width e" "k < 9" using Cons.prems by simp_all
  note w = write_iextent_read [OF Cons.prems(1) e(2) _ e(1)]
  have ih: "length (write_iextents es (k + 1) (write_iextent e k l)) = FORK_SIZE \<and>
     (\<forall>i < 9. read_iextent (write_iextents es (k + 1) (write_iextent e k l)) i =
        (if k + 1 \<le> i \<and> i < k + 1 + length es then es ! (i - (k + 1)) else read_iextent (write_iextent e k l) i)) \<and>
     (\<forall>q v. q + v \<le> 13 \<longrightarrow> rd v (write_iextents es (k + 1) (write_iextent e k l)) q = rd v (write_iextent e k l) q)"
    using Cons.prems w(1) [of 0] by (intro Cons.IH) auto
  have "read_iextent (write_iextents (e # es) k l) i = (if k \<le> i \<and> i < k + length (e # es) then (e # es) ! (i - k) else read_iextent l i)"
    if i: "i < 9" for i
  proof -
    have "(e # es) ! (i - k) = es ! (i - (k + 1))" if "k < i" using that by (simp add: nth_Cons')
    then show ?thesis using ih w(2) [OF i] i by (cases "i = k") auto
  qed
  then show ?case using ih w(3) [of 0] by simp
qed simp

definition fork_ok :: "fork_inode \<Rightarrow> bool" where
  "fork_ok inode \<longleftrightarrow>
     (let f = inode_fork inode in
      \<not> is_device inode \<and> i_size inode < 2 ^ 64 \<and> total_block_count f < 2 ^ 32 \<and>
      length (fork_extents f) = VDFS2_EXTENTS_COUNT_IN_FORK \<and> used_extents f \<le> VDFS2_EXTENTS_COUNT_IN_FORK \<and>
      (\<forall>i < 9. extent_in_width (fork_extents f ! i) \<and> (if i < used_extents f then first_block (fork_extents f ! i) \<noteq> 0
         else fork_extents f ! i = zero_extent)))"

lemma fork_roundtrip:
  assumes ok: "fork_ok inode" and d: "\<not> is_device inode0"
  shows "vdfs2_parse_fork s (vdfs2_form_fork inode) inode0 =
    (Success, inode0\<lparr>i_size := i_size inode, i_blocks := push_bit (s - 9) (total_block_count (inode_fork inode)) mod 2 ^ 32,
       inode_fork := (inode_fork inode)\<lparr>prealloc_block_count := 0, prealloc_start_block := 0\<rparr>\<rparr>)"
proof -
  let ?f = "inode_fork inode" and ?l = "vdfs2_form_fork inode"
  let ?es = "take (used_extents ?f) (fork_extents ?f)"
  have k: "\<not> is_device inode" "i_size inode < 2 ^ 64" "total_block_count ?f < 2 ^ 32" "length (fork_extents ?f) = 9" "used_extents ?f \<le> 9"
    and x: "\<And>i. i < 9 \<Longrightarrow> extent_in_width (fork_extents ?f ! i) \<and> (if i < used_extents ?f then first_block (fork_extents ?f ! i) \<noteq> 0
         else fork_extents ?f ! i = zero_extent)"
    using ok by (simp_all add: fork_ok_def Let_def VDFS2_EXTENTS_COUNT_IN_FORK_def)
  define l1 where "l1 = wr 4 (wr 8 (replicate FORK_SIZE 0) 1 (i_size inode)) 9 (total_block_count ?f)"
  have l1: "length l1 = FORK_SIZE" "rd 8 l1 1 = i_size inode" "rd 4 l1 9 = total_block_count ?f"
    using k by (simp_all add: l1_def FORK_SIZE_def rd_wr_same rd_wr_other)
  have z: "read_iextent l1 i = zero_extent" if "i < 9" for i
  proof -
    have "rd w l1 q = 0" if "13 \<le> q" "q + w \<le> FORK_SIZE" for q w
    proof -
      have "rd w l1 q = rd w (replicate FORK_SIZE 0) q"
        using that unfolding l1_def by (simp add: rd_wr_other FORK_SIZE_def)
      also have "rng (replicate FORK_SIZE 0) q w = replicate w (0 :: u8)"
        using that by (simp add: rng_def)
      then have "rd w (replicate FORK_SIZE 0) q = 0" by (simp add: rd_def le_val_zeros)
      finally show ?thesis .
    qed
    then show ?thesis using that by (simp add: read_iextent_def zero_extent_def iextent_pos_def FORK_SIZE_def)
  qed
  define l2 where "l2 = write_iextents ?es 0 l1"
  have "\<forall>e\<in>set ?es. extent_in_width e" using x k(4,5) by (auto simp: in_set_conv_nth)
  from write_iextents_read [OF l1(1) _ this, of 0] k(4,5) have l2: "length l2 = FORK_SIZE"
    "\<And>i. i < 9 \<Longrightarrow> read_iextent l2 i = (if i < used_extents ?f then fork_extents ?f ! i else read_iextent l1 i)"
    "\<And>q w. q + w \<le> 13 \<Longrightarrow> rd w l2 q = rd w l1 q"
    by (auto simp: l2_def)
  have l: "?l = wr 1 l2 0 VDFS2_FORK_MAGIC"
    using k(1) by (simp add: vdfs2_form_fork_def Let_def l2_def l1_def)
  have v: "is_fork_valid ?l" using l2(1) unfolding l is_fork_valid_def by (simp add: rd_wr_same [of 0 1, simplified] VDFS2_FORK_MAGIC_def FORK_SIZE_def)
  have o: "rd w ?l q = rd w l2 q" if "1 \<le> q" "q + w \<le> FORK_SIZE" for q w
    unfolding l using that l2(1) by (intro rd_wr_other) (simp_all add: FORK_SIZE_def)
  have r: "read_iextent ?l i = fork_extents ?f ! i" if "i < 9" for i
  proof -
    have "read_iextent ?l i = read_iextent l2 i" using that by (simp add: read_iextent_def iextent_pos_def o FORK_SIZE_def)
    then show ?thesis using l2(2) [OF that] z [OF that] x [OF that] by (simp split: if_splits)
  qed
  have es: "map (read_iextent ?l) [0..<VDFS2_EXTENTS_COUNT_IN_FORK] = fork_extents ?f"
    using r k(4) by (intro nth_equalityI) (simp_all add: VDFS2_EXTENTS_COUNT_IN_FORK_def)
  have "first_block (fork_extents ?f ! i) \<noteq> 0 \<longleftrightarrow> i < used_extents ?f" if "i < 9" for i
    using x [OF that] by (cases "i < used_extents ?f") (simp_all add: zero_extent_def)
  then have "filter (\<lambda>e. first_block e \<noteq> 0) (fork_extents ?f) = ?es"
    using k(4,5) by (intro last_filter_prefix) auto
  then have us: "length (filter (\<lambda>e. first_block e \<noteq> 0) (fork_extents ?f)) = used_extents ?f" using k(4,5) by simp
  have sz: "rd 8 ?l 1 = i_size inode" "rd 4 ?l 9 = total_block_count ?f"
    using o [of 1 8] o [of 9 4] l2(3) [of 1 8] l2(3) [of 9 4] l1 by (simp_all add: FORK_SIZE_def)
  have "vdfs2_lfork_to_rfork ?l ((inode_fork inode0)\<lparr>total_block_count := total_block_count ?f, prealloc_block_count := 0,
      prealloc_start_block := 0\<rparr>) = ?f\<lparr>prealloc_block_count := 0, prealloc_start_block := 0\<rparr>"
    unfolding vdfs2_lfork_to_rfork_def es Let_def us by simp
  then show ?thesis unfolding vdfs2_parse_fork_def Let_def sz using v d by simp
qed

section \<open>Properties\<close>

text \<open>
  C34. For a well-formed file, whose extents in fork and overflow tree are in order and do not
  overlap, the search for a file block over fork and tree succeeds. It returns the extent
  that holds the block when there is one; otherwise an extent with first block 0, and a hint
  that is 0 or the block behind the extent that ends right before the file block.
\<close>

theorem get_iblock_extent_correct:
  assumes t: "ext_tree_ok P recs levels" and f: "file_ok fork (tree_extents recs levels ino)"
    and b: "ino < 2 ^ 64" "ib < 2 ^ 64" "total_block_count fork \<noteq> 0"
  shows "\<exists>e hint'. vdfs2_get_iblock_extent P ino fork ib res hint [] = (Success, e, hint', []) \<and>
    (let exts = file_extents fork (tree_extents recs levels ino) in
     case find (covers ib) exts of
       Some x \<Rightarrow> e = x
     | None \<Rightarrow> first_block e = 0 \<and>
         (hint' = 0 \<or> (\<exists>x\<in>set exts. ext_iblock x + ext_count x = ib \<and> hint' = first_block x + ext_count x)))"
proof -
  let ?B = "tree_extents recs levels ino" and ?A = "take (used_extents fork) (fork_extents fork)" and ?N = VDFS2_EXTENTS_COUNT_IN_FORK
  have x: "\<And>e. e \<in> set ?A \<union> set ?B \<Longrightarrow> 0 < ext_count e \<and> first_block e \<noteq> 0 \<and> ext_iblock e + ext_count e < 2 ^ 64 \<and>
      first_block e + ext_count e < 2 ^ 64"
    using f by (auto simp: file_ok_def file_extents_def)
  have so: "sorted_wrt (\<lambda>e f. ext_iblock e + ext_count e \<le> ext_iblock f) ?B"
    using f by (simp add: file_ok_def file_extents_def sorted_wrt_append)
  have fd: "find (holds_iblock ib) ?A = find (covers ib) ?A" using x by (intro find_cong) (auto simp: holds_covers)
  have u: "used_extents fork \<le> ?N" "0 < used_extents fork" "length (fork_extents fork) = ?N" "used_extents fork < ?N \<Longrightarrow> ?B = []"
    using f by (auto simp: file_ok_def)
  have la: "fork_extents fork ! (used_extents fork - 1) \<in> set ?A"
    using u by (auto simp: in_set_conv_nth intro!: exI [of _ "used_extents fork - 1"])
  let ?goal = "\<lambda>e hint'. case find (covers ib) (?A @ ?B) of Some x \<Rightarrow> e = x
     | None \<Rightarrow> first_block e = 0 \<and> (hint' = 0 \<or> (\<exists>x\<in>set (?A @ ?B). ext_iblock x + ext_count x = ib \<and> hint' = first_block x + ext_count x))"
  have nf: "?goal e' h'" if "find (covers ib) (?A @ ?B) = None" "e \<in> set (?A @ ?B)" "extent_not_found ib e = (e', h')" for e e' h'
    using not_found_hint [OF _ _ that(3)] x [of e] that(1,2) by auto
  have "\<exists>e hint'. vdfs2_get_iblock_extent P ino fork ib res hint [] = (Success, e, hint', []) \<and> ?goal e hint'"
  proof (cases "find (covers ib) ?A")
    case (Some e)
    then show ?thesis using b(3) fd by (auto simp: vdfs2_get_iblock_extent_def find_app)
  next
    case None
    show ?thesis
    proof (cases "used_extents fork < ?N")
      case True
      obtain e' h' where n: "extent_not_found ib (fork_extents fork ! (used_extents fork - 1)) = (e', h')" by fastforce
      have "?goal e' h'" using nf [OF _ _ n] la None u(4) [OF True] by simp
      then show ?thesis using None b(3) fd u True n by (intro exI [of _ e'] exI [of _ h']) (simp add: vdfs2_get_iblock_extent_def)
    next
      case False
      then have eN: "used_extents fork = ?N" using u(1) by simp
      note ge = get_extent_ok [OF t b(1,2)] and lb = last_before_covers [OF so, of ib]
      show ?thesis
      proof (cases "last_before ib ?B")
        case none: None
        obtain e' h' where n: "extent_not_found ib (fork_extents fork ! (?N - 1)) = (e', h')" by fastforce
        have "find (covers ib) (?A @ ?B) = None" using lb none None x by (simp add: find_app)
        then have "?goal e' h'" using nf [OF _ _ n] la eN by simp
        then show ?thesis using None b(3) fd False n ge none
          by (intro exI [of _ e'] exI [of _ h']) (simp add: vdfs2_get_iblock_extent_def zero_extent_def)
      next
        case (Some e)
        have e: "e \<in> set ?B" "find (covers ib) ?B = (if covers ib e then Some e else None)" using lb Some x by auto
        have ex: "0 < ext_count e" "first_block e \<noteq> 0" "ext_iblock e + ext_count e < 2 ^ 64" using x e(1) by auto
        obtain e' h' where n: "extent_not_found ib e = (e', h')" by fastforce
        have run: "vdfs2_get_iblock_extent P ino fork ib res hint [] =
            (if covers ib e then (Success, e, hint, []) else (Success, e', h', []))"
          using None b(3) fd False n ge Some ex holds_covers [OF ex(1,3)]
          by (simp add: vdfs2_get_iblock_extent_def)
        show ?thesis
        proof (cases "covers ib e")
          case True
          then show ?thesis using run e(2) None by (intro exI [of _ e] exI [of _ hint]) (simp add: find_app)
        next
          case nc: False
          then have "?goal e' h'" using nf [OF _ _ n] e None by (simp add: find_app)
          then show ?thesis using run nc by auto
        qed
      qed
    qed
  qed
  then show ?thesis by (simp only: file_extents_def Let_def)
qed

text \<open>
  The translation of a block through the overflow tree accepts the block right behind an
  extent: for the file block at which an extent of the tree ends, when no other extent starts
  there, it returns the block behind the extent, with 0 blocks left, instead of no block.
\<close>

theorem exttree_get_block_past_extent:
  assumes t: "ext_tree_ok P recs levels" and b: "obj < 2 ^ 64"
    and e: "last_before (ext_iblock e + ext_count e) (tree_extents recs levels obj) = Some e"
    and w: "ext_iblock e + ext_count e < 2 ^ 64" "first_block e + ext_count e < 2 ^ 64" "0 < ext_count e"
  shows "\<not> covers (ext_iblock e + ext_count e) e \<and>
    vdfs2_exttree_get_block P obj (ext_iblock e + ext_count e) [] = (first_block e + ext_count e, Some 0, [])"
proof -
  have "vdfs2_exttree_get_extent P obj (ext_iblock e + ext_count e) [] = (Success, e, [])"
    using get_extent_ok [OF t b w(1)] e w(1) by simp
  moreover have "first_block e + (ext_iblock e + ext_count e) + 2 ^ 64 - ext_iblock e = (first_block e + ext_count e) + 2 ^ 64"
    "ext_count e + 2 ^ 64 + ext_iblock e - (ext_iblock e + ext_count e) = 0 + 2 ^ 32 * 2 ^ 32"
    by simp_all
  then have "(first_block e + (ext_iblock e + ext_count e) + 2 ^ 64 - ext_iblock e) mod 2 ^ 64 = first_block e + ext_count e"
    "(ext_count e + 2 ^ 64 + ext_iblock e - (ext_iblock e + ext_count e)) mod 2 ^ 32 = 0"
    using w(2) by (simp_all only: mod_add_self2 mod_mult_self2 mod_less mod_0)
  ultimately show ?thesis by (simp add: vdfs2_exttree_get_block_def covers_def)
qed

text \<open>
  C35. A fork written to the device and read back is the same: the extents, their number and
  the block counter are restored, the size of the file too, and the preallocation is reset.
\<close>

theorem fork_device_roundtrip:
  assumes "fork_ok inode" "\<not> is_device inode0"
  shows "\<exists>inode'. vdfs2_parse_fork shift (vdfs2_form_fork inode) inode0 = (Success, inode') \<and> i_size inode' = i_size inode \<and>
    inode_fork inode' = (inode_fork inode)\<lparr>prealloc_block_count := 0, prealloc_start_block := 0\<rparr>"
  using fork_roundtrip [OF assms, of shift] by simp

section \<open>Instances\<close>

definition sample_ext :: "nat \<Rightarrow> nat \<Rightarrow> nat \<Rightarrow> vdfs2_extent_info" where
  "sample_ext b ib n = \<lparr>first_block = b, ext_iblock = ib, ext_count = n\<rparr>"

definition sample_rec :: "u8 list" where
  "sample_rec = exttree_lrecord 5 (sample_ext 100 20 4)"

definition sample_pool :: node_pool where
  "sample_pool = \<lparr>pool_host = sample_host,
     pool_nodes = [0 \<mapsto> wr 2 (wr 4 (replicate 256 0) 12 2) 16 1, 2 \<mapsto> sample_with sample_rec], unreadable = Map.empty, node_limit = 64, page_bytes = (\<lambda>_. replicate 256 0), reserve_ret = Success\<rparr>"

definition sample_recs :: "nat \<Rightarrow> u8 list list" where
  "sample_recs nid = [sample_rec]"

lemma sample_rec_ok:
  "length sample_rec = 40" "record_ok sample_rec" "key_len sample_rec = 28" "ext_key_ok sample_rec" "rec_obj sample_rec = 5"
  "rec_ext sample_rec = sample_ext 100 20 4"
  by (simp_all add: sample_rec_def exttree_lrecord_def record_ok_def record_len_def key_len_def ext_key_ok_def rec_obj_def
      rec_ext_def sample_ext_def VDFS2_EXTTREE_KEY_MAGIC_def Let_def rd_wr_same rd_wr_other)

lemma sample_tree: "ext_tree_ok sample_pool sample_recs [[2]]" "tree_extents sample_recs [[2]] 5 = [sample_ext 100 20 4]"
  "tree_extents sample_recs [[2]] 7 = []"
proof -
  have "node_ok sample_host (sample_with sample_rec) [sample_rec]" using sample_rec_ok by (intro sample_with_ok) simp_all
  then show "ext_tree_ok sample_pool sample_recs [[2]]"
    using sample_rec_ok sample_with_next [of sample_rec]
    by (simp add: ext_tree_ok_def tree_ok_def level_ok_def sample_recs_def tree_records_def sample_pool_def pool_get_def
        vdfs2_btree_get_root_id_def vdfs2_btree_get_height_def head_data_def rd_wr_same rd_wr_other VDFS2_MAX_BTREE_KEY_LEN_def)
  show "tree_extents sample_recs [[2]] 5 = [sample_ext 100 20 4]" "tree_extents sample_recs [[2]] 7 = []"
    by (simp_all add: tree_extents_def tree_records_def sample_recs_def sample_rec_ok)
qed

definition sample_fork :: vdfs2_fork_info where
  "sample_fork = \<lparr>total_block_count = 4, prealloc_block_count = 0, prealloc_start_block = 0,
     fork_extents = sample_ext 50 0 4 # replicate 8 zero_extent, used_extents = 1\<rparr>"

theorem get_iblock_extent_correct_witness:
  "\<exists>hint'. vdfs2_get_iblock_extent sample_pool 7 sample_fork 2 zero_extent 0 [] = (Success, sample_ext 50 0 4, hint', [])"
proof -
  have "file_ok sample_fork (tree_extents sample_recs [[2]] 7)"
    by (simp add: sample_tree file_ok_def file_extents_def sample_fork_def VDFS2_EXTENTS_COUNT_IN_FORK_def sample_ext_def)
  from get_iblock_extent_correct [OF sample_tree(1) this, of 2 zero_extent 0] show ?thesis
    by (simp add: sample_tree file_extents_def sample_fork_def covers_def sample_ext_def)
qed

theorem exttree_get_block_past_extent_witness:
  "vdfs2_exttree_get_block sample_pool 5 24 [] = (104, Some 0, [])"
  using exttree_get_block_past_extent [OF sample_tree(1), of 5 "sample_ext 100 20 4"]
  by (simp add: sample_tree last_before_def sample_ext_def)

theorem fork_device_roundtrip_witness:
  "\<exists>inode'. vdfs2_parse_fork 12 (vdfs2_form_fork \<lparr>i_size = 9000, is_device = False, i_rdev = 0, i_blocks = 0, inode_fork = sample_fork\<rparr>)
     \<lparr>i_size = 0, is_device = False, i_rdev = 0, i_blocks = 0, inode_fork = sample_fork\<rparr> = (Success, inode') \<and>
     i_size inode' = 9000 \<and> fork_extents (inode_fork inode') = fork_extents sample_fork"
proof -
  have z: "\<forall>i < 9. extent_in_width (fork_extents sample_fork ! i) \<and> (if i < 1 then first_block (fork_extents sample_fork ! i) \<noteq> 0
         else fork_extents sample_fork ! i = zero_extent)"
    by (auto simp: sample_fork_def nth_Cons' extent_in_width_def sample_ext_def zero_extent_def)
  have "fork_ok \<lparr>i_size = 9000, is_device = False, i_rdev = 0, i_blocks = 0, inode_fork = sample_fork\<rparr>"
    using z unfolding fork_ok_def Let_def by (simp add: VDFS2_EXTENTS_COUNT_IN_FORK_def) (simp add: sample_fork_def sample_ext_def)
  from fork_device_roundtrip [OF this, of "\<lparr>i_size = 0, is_device = False, i_rdev = 0, i_blocks = 0, inode_fork = sample_fork\<rparr>" 12]
  show ?thesis by auto
qed

end
