(* ===== verification/Cattree.thy ===== *)
theory Cattree
  imports Btree_Find
begin

text \<open>
  The catalog tree, \<^verbatim>\<open>cattree.c\<close>: forming the records of files and directories, and the
  searches by parent and name. The comparison function is the tree's own, with or without
  regard to case.
\<close>

section \<open>Records\<close>

definition VDFS2_CATALOG_RECORD_DUMMY :: nat where "VDFS2_CATALOG_RECORD_DUMMY = 0"
definition VDFS2_CATALOG_FOLDER_RECORD :: nat where "VDFS2_CATALOG_FOLDER_RECORD = 1"
definition VDFS2_CATALOG_FILE_RECORD :: nat where "VDFS2_CATALOG_FILE_RECORD = 2"
definition VDFS2_CATALOG_HLINK_RECORD :: nat where "VDFS2_CATALOG_HLINK_RECORD = 3"
definition VDFS2_CATALOG_PTREE_ROOT :: nat where "VDFS2_CATALOG_PTREE_ROOT = 0x80"
definition VDFS2_UNICODE_STRING_MAX_LEN :: nat where "VDFS2_UNICODE_STRING_MAX_LEN = 255"

text \<open>The sizes of the packed structures of keys and values.\<close>

definition CATTREE_KEY_SIZE :: nat where "CATTREE_KEY_SIZE = 12 + 1 + 8 + (4 + 255)"
definition FOLDER_RECORD_SIZE :: nat where "FOLDER_RECORD_SIZE = 4 + 4 + 8 + 8 + 8 + (2 + 4 + 4) + 12 + 12 + 12"
definition FILE_RECORD_SIZE :: nat where "FILE_RECORD_SIZE = FOLDER_RECORD_SIZE + (1 + 8 + 4 + 9 * 20)"
definition HLINK_RECORD_SIZE :: nat where "HLINK_RECORD_SIZE = 8 + 2"
definition INSERT_POINT_SIZE :: nat where
  "INSERT_POINT_SIZE = (8 + 8 + 8 + (2 + 4 + 4) + 12 + 8 + 4 + 4) + (4 + 2 + 2 + 2 + 4 + 8 + 8 + 8 + 8) + 8 + 8 + (4 + 255)"

definition value_size :: "nat \<Rightarrow> nat option" where
  "value_size record_type =
     (if record_type = VDFS2_CATALOG_FILE_RECORD then Some FILE_RECORD_SIZE
      else if record_type = VDFS2_CATALOG_FOLDER_RECORD \<or> record_type = VDFS2_CATALOG_RECORD_DUMMY then Some FOLDER_RECORD_SIZE
      else if record_type = VDFS2_CATALOG_HLINK_RECORD then Some HLINK_RECORD_SIZE
      else if record_type = VDFS2_CATALOG_PTREE_ROOT then Some INSERT_POINT_SIZE
      else None)"

definition vdfs2_alloc_cattree_key :: "nat \<Rightarrow> nat \<Rightarrow> mem \<Rightarrow> u8 list result \<times> mem" where
  "vdfs2_alloc_cattree_key name_len record_type m =
     (let klen = (CATTREE_KEY_SIZE - (4 + VDFS2_UNICODE_STRING_MAX_LEN) + 4 + (name_len + 1)) mod 2 ^ 32 in
      case value_size record_type of
        None \<Rightarrow> (Bug, m)
      | Some vlen \<Rightarrow>
          (case kmem_alloc m of (ok, m1) \<Rightarrow>
             if \<not> ok then (Err ENOMEM, m1)
             else (Ok (wr 1 (wr 4 (wr 4 (replicate (klen + vlen) 0) 4 klen) 8 (klen + vlen)) 12 record_type), m1)))"

definition vdfs2_fill_cattree_key :: "u8 list \<Rightarrow> nat \<Rightarrow> u8 list \<Rightarrow> u8 list" where
  "vdfs2_fill_cattree_key fill_key parent_id name =
     wr 8 (put (wr 4 fill_key 21 (length name)) 25 name) 13 parent_id"

section \<open>Searching\<close>

text \<open>
  The key of a search is a whole key structure, zeroed, with parent and name filled in. A name
  that is longer than the array in the structure would be written behind it.
\<close>

definition search_key :: "nat \<Rightarrow> u8 list \<Rightarrow> u8 list result" where
  "search_key parent_id name =
     (if VDFS2_UNICODE_STRING_MAX_LEN < length name then Bug
      else Ok (put (wr 4 (wr 8 (replicate CATTREE_KEY_SIZE 0) 13 parent_id) 21 (length name)) 25 name))"

definition vdfs2_cattree_find ::
  "(u8 list \<Rightarrow> u8 list \<Rightarrow> int) \<Rightarrow> node_pool \<Rightarrow> nat \<Rightarrow> u8 list \<Rightarrow> mem \<Rightarrow> vdfs2_btree_record_info result \<times> mem" where
  "vdfs2_cattree_find comp_fn P parent_id name m =
     (case kmem_alloc m of (ok, m1) \<Rightarrow>
        if \<not> ok then (Err ENOMEM, m1)
        else
          (case search_key parent_id name of
             Ok key \<Rightarrow>
               (case vdfs2_btree_find comp_fn P key m1 of
                  (Ok record, m2) \<Rightarrow>
                    (if comp_fn (drop (rec_key record) (rec_bnode record)) key \<noteq> 0 then (Err ENOENT, m2) else (Ok record, m2))
                | (Err e, m2) \<Rightarrow> (Err e, m2)
                | (Bug, m2) \<Rightarrow> (Bug, m2))
           | _ \<Rightarrow> (Bug, m1)))"

definition vdfs2_cattree_get_first_child ::
  "(u8 list \<Rightarrow> u8 list \<Rightarrow> int) \<Rightarrow> node_pool \<Rightarrow> nat \<Rightarrow> mem \<Rightarrow> vdfs2_btree_record_info result \<times> mem" where
  "vdfs2_cattree_get_first_child comp_fn P catalog_id m =
     (case kmem_alloc m of (ok, m1) \<Rightarrow>
        if \<not> ok then (Err ENOMEM, m1)
        else
          (case search_key catalog_id [] of
             Ok key \<Rightarrow>
               (case vdfs2_btree_find comp_fn P key m1 of
                  (Ok record, m2) \<Rightarrow>
                    (if rd 8 (rec_bnode record) (rec_key record + 13) = catalog_id then (Ok record, m2)
                     else (vdfs2_get_next_btree_record P record, m2))
                | (Err e, m2) \<Rightarrow> (Err e, m2)
                | (Bug, m2) \<Rightarrow> (Bug, m2))
           | _ \<Rightarrow> (Bug, m1)))"

definition vdfs2_cattree_get_next_record :: "node_pool \<Rightarrow> vdfs2_btree_record_info \<Rightarrow> vdfs2_btree_record_info result" where
  "vdfs2_cattree_get_next_record P record =
     and_then (next_btree_record P (rec_bnode_id record) (rec_bnode record) (rec_pos record)) (\<lambda>(nid, bnode, pos, raw_record).
       case get_record (pool_host P) bnode (nat pos) of
         Ok key \<Rightarrow> Ok (form_gen_record nid bnode key pos) | _ \<Rightarrow> Bug)"

section \<open>The records formed by the driver\<close>

lemmas catalog_types = VDFS2_CATALOG_RECORD_DUMMY_def VDFS2_CATALOG_FOLDER_RECORD_def VDFS2_CATALOG_FILE_RECORD_def
  VDFS2_CATALOG_HLINK_RECORD_def VDFS2_CATALOG_PTREE_ROOT_def

lemmas catalog_sizes = CATTREE_KEY_SIZE_def FOLDER_RECORD_SIZE_def FILE_RECORD_SIZE_def HLINK_RECORD_SIZE_def INSERT_POINT_SIZE_def
  VDFS2_UNICODE_STRING_MAX_LEN_def

lemma value_size_bound: "value_size ty = Some v \<Longrightarrow> 10 \<le> v \<and> v \<le> 383"
  by (auto simp: value_size_def catalog_sizes split: if_splits)

lemma name_codes_put:
  assumes "25 + length name \<le> length d"
  shows "name_codes conv (put d 25 name) 25 (length name) = map (\<lambda>c. unat (conv c)) name"
  using rng_put_same [OF assms] by (simp add: name_codes_def)

lemma formed_record:
  assumes v: "value_size ty = Some v" and n: "length name \<le> 255" and p: "p < 2 ^ 31" and t: "ty < 256"
  defines "klen \<equiv> 26 + length name"
  defines "r \<equiv> vdfs2_fill_cattree_key (wr 1 (wr 4 (wr 4 (replicate (klen + v) 0) 4 klen) 8 (klen + v)) 12 ty) p name"
  shows "vdfs2_alloc_cattree_key (length name) ty [] = (Ok (wr 1 (wr 4 (wr 4 (replicate (klen + v) 0) 4 klen) 8 (klen + v)) 12 ty), [])"
    "length r = klen + v" "record_ok r" "key_len r = klen" "rd 1 r 12 = ty" "cat_key_ok r"
    "cat_rank conv r = (p, map (\<lambda>c. unat (conv c)) name)"
proof -
  note vb = value_size_bound [OF v]
  show "vdfs2_alloc_cattree_key (length name) ty [] = (Ok (wr 1 (wr 4 (wr 4 (replicate (klen + v) 0) 4 klen) 8 (klen + v)) 12 ty), [])"
    using v n by (simp add: vdfs2_alloc_cattree_key_def catalog_sizes klen_def Let_def)
  define a where "a = wr 1 (wr 4 (wr 4 (replicate (klen + v) 0) 4 klen) 8 (klen + v)) 12 ty"
  have la: "length a = klen + v" using vb by (simp add: a_def klen_def)
  have ra: "rd 4 a 4 = klen" "rd 4 a 8 = klen + v" "rd 1 a 12 = ty"
    using vb n t by (simp_all add: a_def klen_def rd_wr_other rd_wr_same [of _ 1, simplified] rd_wr_same)
  define b where "b = put (wr 4 a 21 (length name)) 25 name"
  have lb: "length b = klen + v" using la by (simp add: b_def klen_def)
  have bo: "rd w b q = rd w a q" if "q + w \<le> 21" for q w
  proof -
    have "rd w b q = rd w (wr 4 a 21 (length name)) q" unfolding b_def using that la by (intro rd_put_other) (simp_all add: klen_def)
    then show ?thesis using that la by (simp add: rd_wr_other klen_def)
  qed
  have bl: "rd 4 b 21 = length name"
  proof -
    have "rd 4 b 21 = rd 4 (wr 4 a 21 (length name)) 21" unfolding b_def using la by (intro rd_put_other) (simp_all add: klen_def)
    then show ?thesis using la n by (simp add: rd_wr_same klen_def)
  qed
  have r: "r = wr 8 b 13 p" by (simp add: r_def vdfs2_fill_cattree_key_def a_def b_def)
  show len: "length r = klen + v" using lb by (simp add: r klen_def)
  have f: "rd 4 r 4 = klen" "rd 4 r 8 = klen + v" "rd 1 r 12 = ty" "rd 4 r 21 = length name" "rd 8 r 13 = p"
    using bo [of 4 4] bo [of 8 4] bo [of 12 1] bl ra lb p by (simp_all add: r rd_wr_other rd_wr_same klen_def)
  show "record_ok r" "key_len r = klen" "rd 1 r 12 = ty" "cat_key_ok r"
    using f len n p vb by (simp_all add: record_ok_def record_len_def key_len_def cat_key_ok_def klen_def)
  have "rng r 25 (length name) = rng b 25 (length name)" unfolding r using lb by (intro rng_wr_other) (simp_all add: klen_def)
  then have "name_codes conv r 25 (length name) = name_codes conv b 25 (length name)" by (simp add: name_codes_def)
  also have "\<dots> = map (\<lambda>c. unat (conv c)) name" unfolding b_def using la by (intro name_codes_put) (simp add: klen_def)
  finally show "cat_rank conv r = (p, map (\<lambda>c. unat (conv c)) name)" by (simp add: cat_rank_def f)
qed

lemma search_key_ok:
  assumes "length name \<le> 255" "p < 2 ^ 31"
  shows "\<exists>k. search_key p name = Ok k \<and> cat_key_ok k \<and> cat_rank conv k = (p, map (\<lambda>c. unat (conv c)) name)"
proof -
  define a where "a = wr 4 (wr 8 (replicate CATTREE_KEY_SIZE 0) 13 p) 21 (length name)"
  have a: "length a = 280" "rd 8 a 13 = p" "rd 4 a 21 = length name"
    using assms by (simp_all add: a_def catalog_sizes rd_wr_same rd_wr_other)
  let ?k = "put a 25 name"
  have k: "length ?k = 280" "rd 8 ?k 13 = p" "rd 4 ?k 21 = length name"
    using a assms by (simp_all add: rd_put_other)
  have "search_key p name = Ok ?k" using assms by (simp add: search_key_def a_def catalog_sizes)
  moreover have "cat_key_ok ?k" using k assms by (simp add: cat_key_ok_def)
  moreover have "cat_rank conv ?k = (p, map (\<lambda>c. unat (conv c)) name)"
    using k name_codes_put [of name a conv] a assms by (simp add: cat_rank_def)
  ultimately show ?thesis by blast
qed

end
