(* ===== verification/Cattree_Claims.thy ===== *)
theory Cattree_Claims
  imports Cattree File_Extents_Claims
begin

text \<open>The properties of the catalog tree: what a search by parent and name finds, and the records the driver forms.\<close>

section \<open>Exact searches\<close>

context ranked_keys
begin

lemma exact_at:
  assumes lv: "level_ok key_ok rank P recs ns" and r: "record_at P recs ns g r" and key: "key_ok key"
  shows "cmp (drop (rec_key r) (rec_bnode r)) key = 0 \<longleftrightarrow> rank (concat (map recs ns) ! g) = rank key"
    "rng (rec_bnode r) (rec_key r) (length (concat (map recs ns) ! g)) = concat (map recs ns) ! g"
proof -
  from r obtain j p where j: "j < length ns" "p < length (recs (ns ! j))" "g = length (concat (map recs (take j ns))) + p"
    and ok: "node_ok (pool_host P) (rec_bnode r) (recs (ns ! j))" and k: "rec_key r = off (pool_host P) (rec_bnode r) p"
    and b: "rng (rec_bnode r) (rec_key r) (length (concat (map recs ns) ! g)) = concat (map recs ns) ! g"
    unfolding record_at_def by blast
  have x: "concat (map recs ns) ! g = recs (ns ! j) ! p" using nth_concat_at [of j "map recs ns" p] j by (simp add: take_map)
  have "\<forall>r\<in>set (recs (ns ! j)). key_ok r" using level_okD [OF lv j(1)] by metis
  then show "cmp (drop (rec_key r) (rec_bnode r)) key = 0 \<longleftrightarrow> rank (concat (map recs ns) ! g) = rank key"
    using compare_at(2) [OF ok j(2) _ key] k x by simp
  show "rng (rec_bnode r) (rec_key r) (length (concat (map recs ns) ! g)) = concat (map recs ns) ! g" by (rule b)
qed

lemma find_by_rank:
  fixes k :: 'k
  assumes so: "sorted_less (map rank rs)"
  defines "n \<equiv> count_le rank rs k"
  shows "find (\<lambda>r. rank r = k) rs = (if n \<noteq> 0 \<and> rank (rs ! (n - 1)) = k then Some (rs ! (n - 1)) else None)"
proof (cases "\<exists>x\<in>set rs. rank x = k")
  case True
  then obtain i where i: "i < length rs" "rank (rs ! i) = k" by (auto simp: in_set_conv_nth)
  have "i + 1 < length rs \<Longrightarrow> k < rank (rs ! (i + 1))" using sorted_wrt_nth_less [OF so, of i "i + 1"] i by simp
  then have n: "n = Suc i" unfolding n_def using count_le_Suc [OF so i(1)] i(2) by simp
  have "x = rs ! i" if "x \<in> set rs" "rank x = k" for x
    using that i so by (metis distinct_conv_nth in_set_conv_nth length_map nth_map sorted_less_distinct)
  then show ?thesis using find_only [of "rs ! i" rs "\<lambda>r. rank r = k"] i n by simp
next
  case False
  moreover have "n \<le> length rs" by (simp add: n_def count_le_def)
  then have "rs ! (n - 1) \<in> set rs" if "n \<noteq> 0" using that by simp
  ultimately have "find (\<lambda>r. rank r = k) rs = None" "\<not> (n \<noteq> 0 \<and> rank (rs ! (n - 1)) = k)" by (auto simp: find_None_iff)
  then show ?thesis by simp
qed

lemma tree_sorted:
  assumes "tree_ok key_ok rank P recs levels"
  shows "sorted_less (map rank (tree_records recs levels))" "level_ok key_ok rank P recs (last levels)"
  using assms first_rank(3) [of P recs "hd levels" "tl levels"]
  by (cases levels; auto simp: tree_ok_def level_ok_def tree_records_def)+

lemma exact_find:
  assumes t: "tree_ok key_ok rank P recs levels" and key: "key_ok key"
  shows "case find (\<lambda>x. rank x = rank key) (tree_records recs levels) of
      None \<Rightarrow> vdfs2_btree_find cmp P key [] = (Err ENOENT, []) \<or>
        (\<exists>r. vdfs2_btree_find cmp P key [] = (Ok r, []) \<and> cmp (drop (rec_key r) (rec_bnode r)) key \<noteq> 0)
    | Some x \<Rightarrow> \<exists>r. vdfs2_btree_find cmp P key [] = (Ok r, []) \<and> cmp (drop (rec_key r) (rec_bnode r)) key = 0 \<and>
        rng (rec_bnode r) (rec_key r) (length x) = x"
proof -
  let ?all = "tree_records recs levels" and ?n = "count_le rank (tree_records recs levels) (rank key)"
  note s = tree_sorted [OF t] and f = btree_find_ok [OF t key, of "[]" "[]"]
  show ?thesis
  proof (cases "?n = 0")
    case True
    then show ?thesis using f find_by_rank [OF s(1), of "rank key"] by simp
  next
    case False
    then obtain r where r: "vdfs2_btree_find cmp P key [] = (Ok r, [])" "record_at P recs (last levels) (?n - 1) r" using f by auto
    note e = exact_at [OF s(2) r(2) key, folded tree_records_def]
    show ?thesis using r(1) e find_by_rank [OF s(1), of "rank key"] False by (cases "rank (?all ! (?n - 1)) = rank key") auto
  qed
qed

end

section \<open>Properties\<close>


text \<open>
  C37. A catalog record that the driver allocates and fills for a parent and a name is
  well-formed, has the requested type and is ordered by this parent and name, so that it can
  be placed in a node and found again.
\<close>

theorem cattree_record_formed:
  assumes "value_size ty = Some v" "length name \<le> 255" "parent < 2 ^ 31" "ty < 256"
  shows "\<exists>a. vdfs2_alloc_cattree_key (length name) ty [] = (Ok a, []) \<and>
    (let r = vdfs2_fill_cattree_key a parent name in
     record_ok r \<and> cat_key_ok r \<and> rd 1 r 12 = ty \<and> key_len r = 26 + length name \<and> length r = key_len r + v \<and>
     cat_rank (\<lambda>c. c) r = (parent, map unat name))"
  using formed_record(1-6) [OF assms] formed_record(7) [OF assms, of "\<lambda>c. c"] by (simp add: Let_def)

text \<open>
  The record of a mounted pack tree whose name is longer than 143 bytes exceeds
  \<^verbatim>\<open>VDFS2_MAX_BTREE_REC_LEN\<close>: deleting it from a node stops the kernel.
\<close>

theorem long_ptree_record_not_deletable:
  assumes "143 < length name" "length name \<le> 255" "parent < 2 ^ 31"
    and "vdfs2_alloc_cattree_key (length name) VDFS2_CATALOG_PTREE_ROOT [] = (Ok a, [])"
    and "node_ok h d rs" "i < length rs" "rs ! i = vdfs2_fill_cattree_key a parent name" "mount_finished h"
  shows "delete_from_node h d i = Bug"
proof -
  have v: "value_size VDFS2_CATALOG_PTREE_ROOT = Some 383" by (simp add: value_size_def catalog_types catalog_sizes)
  have ty: "VDFS2_CATALOG_PTREE_ROOT < 256" by (simp add: catalog_types)
  note f = formed_record(1,2) [OF v assms(2,3) ty]
  have l: "length (rs ! i) = 26 + length name + 383" using f assms(4,7) by simp
  note g = get_record_ok [OF assms(5,6)] and k = node_okD [OF assms(5)]
  have o: "vdfs2_get_offset h d (descr_recs_count d) = Ok (recs_end rs)" "vdfs2_get_offset h d i = Ok (off h d i)"
    using node_slot(1) [OF assms(5), of "length rs"] node_slot(1) [OF assms(5), of i] assms(6) k(4,6) by (simp_all add: get_offset_ok)
  show ?thesis
    using g(1,3) o l assms(1,8) by (simp add: delete_from_node_def Let_def VDFS2_MAX_BTREE_REC_LEN_def fault_def)
qed

section \<open>Instances\<close>




theorem cattree_record_formed_witness:
  "\<exists>a. vdfs2_alloc_cattree_key 1 VDFS2_CATALOG_HLINK_RECORD [] = (Ok a, []) \<and>
    cat_rank (\<lambda>c. c) (vdfs2_fill_cattree_key a 5 [97]) = (5, [97])"
  using cattree_record_formed [of VDFS2_CATALOG_HLINK_RECORD 10 "[97]" 5]
  by (auto simp: value_size_def catalog_types catalog_sizes Let_def)

lemma ptree_node:
  assumes "record_ok r" "length r \<le> 4000"
  shows "\<exists>d. node_ok \<lparr>node_size_bytes = 4096, max_record_len = 600, mount_finished = True\<rparr> d [r]"
proof -
  let ?h = "\<lparr>node_size_bytes = 4096, max_record_len = 600, mount_finished = True\<rparr>"
  obtain d where d: "node_ok ?h d []" using init_node_ok [of "replicate 4096 0" ?h 2 1] by auto
  have "length r + 4 \<le> descr_free_space d" using node_okD(5) [OF d] assms(2) by (simp add: recs_end_def)
  from place_record_ok [OF d _ assms(1) this, of 0] show ?thesis by (auto simp: insert_at_def)
qed

theorem long_ptree_record_not_deletable_witness:
  "\<exists>a d. node_ok \<lparr>node_size_bytes = 4096, max_record_len = 600, mount_finished = True\<rparr> d
      [vdfs2_fill_cattree_key a 5 (replicate 150 97)] \<and>
    delete_from_node \<lparr>node_size_bytes = 4096, max_record_len = 600, mount_finished = True\<rparr> d 0 = Bug"
proof -
  let ?h = "\<lparr>node_size_bytes = 4096, max_record_len = 600, mount_finished = True\<rparr>" and ?n = "replicate 150 97 :: u8 list"
  have v: "value_size VDFS2_CATALOG_PTREE_ROOT = Some 383" by (simp add: value_size_def catalog_types catalog_sizes)
  have c: "length ?n \<le> 255" "(5::nat) < 2 ^ 31" "VDFS2_CATALOG_PTREE_ROOT < 256" "143 < length ?n" by (simp_all add: catalog_types)
  note f = formed_record(1-3) [OF v c(1-3)]
  obtain a where a: "vdfs2_alloc_cattree_key (length ?n) VDFS2_CATALOG_PTREE_ROOT [] = (Ok a, [])"
    and r: "record_ok (vdfs2_fill_cattree_key a 5 ?n)" "length (vdfs2_fill_cattree_key a 5 ?n) \<le> 4000"
    using f by auto
  obtain d where d: "node_ok ?h d [vdfs2_fill_cattree_key a 5 ?n]" using ptree_node [OF r] by blast
  have "delete_from_node ?h d 0 = Bug"
    using long_ptree_record_not_deletable [OF c(4,1,2) a d, of 0] by simp
  then show ?thesis using d by blast
qed

end
