(* ===== verification/Btree_Split.thy ===== *)
theory Btree_Split
  imports Btree_Tree
begin

text \<open>
  Splitting a full node, \<^verbatim>\<open>btree.c\<close>: the records of the node and the new one are distributed
  over the node and a new right neighbour, in order, and the links of the level are updated.
\<close>

text \<open>Where the new record went: the right node or not, its position there and its address.\<close>

record split_result =
  in_right :: bool
  new_pos :: nat
  new_addr :: nat

text \<open>
  The loop. \<open>orig\<close> is the copy of the node's old contents; \<open>used_space\<close> counts what was
  placed so far and \<open>part\<close> tells whether the right node is being filled. The fuel is the
  number of records and three more steps, which the loop cannot reach.
\<close>

fun split_loop ::
  "node_host \<Rightarrow> u8 list \<Rightarrow> u8 list \<Rightarrow> nat \<Rightarrow> nat \<Rightarrow> nat \<Rightarrow> nat \<Rightarrow> nat \<Rightarrow> bool \<Rightarrow> bool \<Rightarrow> nat \<Rightarrow> u8 list \<Rightarrow> u8 list \<Rightarrow> split_result option \<Rightarrow>
     (u8 list \<times> u8 list \<times> split_result option) result" where
  "split_loop h orig new_key new_rec_len insert_pos recs_count 0 i inserted part used_space left right res = Bug"
| "split_loop h orig new_key new_rec_len insert_pos recs_count (Suc fuel) i inserted part used_space left right res =
     (if i < recs_count \<or> \<not> inserted then
        (let new_rec_select = (i = insert_pos \<and> \<not> inserted) in
         and_then (if new_rec_select then Ok new_key else and_then (get_record h orig i) (\<lambda>p. Ok (drop p orig))) (\<lambda>key.
           let used = (used_space + record_len key + OFF_SIZE) mod 2 ^ 32;
               ins = (if part then right else left);
               part' = (part \<or> node_size_bytes h div 2 < used) in
           if new_rec_select then
             and_then (insert_key_into_bnode h ins key new_rec_len (descr_recs_count ins)) (\<lambda>(addr, ins').
               split_loop h orig new_key new_rec_len insert_pos recs_count fuel i True part' used
                 (if part then left else ins') (if part then ins' else right)
                 (Some \<lparr>in_right = part, new_pos = descr_recs_count ins, new_addr = addr\<rparr>))
           else
             and_then (append_bnode h ins key) (\<lambda>ins'.
               split_loop h orig new_key new_rec_len insert_pos recs_count fuel (i + 1) inserted part' used
                 (if part then left else ins') (if part then ins' else right) res)))
      else Ok (left, right, res))"

text \<open>
  The result, the two nodes, the next node when it was changed, and the place of the new
  record. An error restores the left node; the right node, which the caller then destroys, is
  given as it was before the loop. \<open>get_next\<close> is what getting the next node returns;
  when that fails the left node is restored and the result is still the 0 of the loop.
\<close>

definition split_bnode ::
  "node_host \<Rightarrow> nat \<Rightarrow> nat \<Rightarrow> u8 list \<Rightarrow> u8 list \<Rightarrow> u8 list \<Rightarrow> nat \<Rightarrow> nat \<Rightarrow> (nat \<Rightarrow> u8 list result) \<Rightarrow>
     ret \<times> u8 list \<times> u8 list \<times> u8 list option \<times> split_result option" where
  "split_bnode h left_id right_id left right new_key new_rec_len insert_pos get_next =
     (let bnode_type = descr_type left; recs_count = descr_recs_count left in
      case init_new_node_descr h right right_id bnode_type of
        Ok right0 \<Rightarrow>
          (case init_new_node_descr h left left_id bnode_type of
             Ok left0 \<Rightarrow>
               if recs_count = 0 then (Oops, left0, right0, None, None)
               else
                 (case split_loop h left new_key new_rec_len insert_pos recs_count (recs_count + 3) 0 False False
                         (node_size_bytes h - descr_free_space left0) left0 right0 None of
                    Ok (left1, right1, res) \<Rightarrow>
                      (let orig_prev = descr_prev left; orig_next = descr_next left;
                           left2 = set_next (descr_node_id right1) (set_prev orig_prev left1);
                           right2 = set_next orig_next (set_prev (descr_node_id left2) right1) in
                       if orig_next \<noteq> 0 then
                         (case get_next orig_next of
                            Ok next_right \<Rightarrow> (Success, left2, right2, Some (set_prev (descr_node_id right2) next_right), res)
                          | Err e \<Rightarrow> (Success, left, right2, None, res)
                          | Bug \<Rightarrow> (Oops, left2, right2, None, res))
                       else (Success, left2, right2, None, res))
                  | Err e \<Rightarrow> (Fail e, left, right0, None, None)
                  | Bug \<Rightarrow> (Oops, left, right0, None, None))
           | _ \<Rightarrow> (Oops, left, right0, None, None))
      | _ \<Rightarrow> (Oops, left, right, None, None))"

end
