(* ===== verification/Btree_Split_Inv.thy ===== *)
theory Btree_Split_Inv
  imports Btree_Split Btree_Node_Claims
begin

text \<open>Splitting a node loses no record, keeps their order and links the new node into its level.\<close>

section \<open>Adding at the end\<close>

definition recs_size :: "u8 list list \<Rightarrow> nat" where
  "recs_size rs = sum_list (map (\<lambda>r. length r + 4) rs)"

lemma recs_size_simps [simp]:
  "recs_size [] = 0" "recs_size (r # rs) = length r + 4 + recs_size rs" "recs_size (xs @ ys) = recs_size xs + recs_size ys"
  by (simp_all add: recs_size_def)

lemma recs_size_end: "recs_end rs + 4 * length rs = 29 + recs_size rs"
  by (induction rs) (simp_all add: recs_end_def)

lemma node_space:
  assumes "node_ok h d rs"
  shows "descr_free_space d = node_size_bytes h - 37 - recs_size rs" "37 + recs_size rs \<le> node_size_bytes h"
  using node_okD(3,5) [OF assms] recs_size_end [of rs] by linarith+

lemma append_old:
  assumes o: "node_ok h orig rs" "i < length rs" and ok: "node_ok h d L" and room: "37 + recs_size L + length (rs ! i) + 4 \<le> node_size_bytes h"
  shows "record_len (drop (off h orig i) orig) = length (rs ! i)"
    "\<exists>d'. append_bnode h d (drop (off h orig i) orig) = Ok d' \<and> node_ok h d' (L @ [rs ! i]) \<and> rng d' 16 13 = rng d 16 13 \<and>
       (\<forall>j < length L. off h d' j = off h d j)"
proof -
  let ?k = "drop (off h orig i) orig" and ?x = "rs ! i"
  note g = get_record_ok [OF o]
  show rl: "record_len ?k = length ?x" using g(3) by (simp add: record_len_def rd_def rng_def add.commute)
  have x: "12 \<le> length ?x" "wr 4 ?x 8 (length ?x) = ?x"
    using node_okD(7) [OF o] wr_rd_same [of 8 4 ?x] by (auto simp: record_ok_def record_len_def)
  have tk: "take (length ?x) ?k = ?x" "length ?x \<le> length ?k" using g(2,5) by (simp_all add: rng_def)
  have room': "length ?x + 4 \<le> descr_free_space d" using node_space [OF ok] room by simp
  then have m: "length ?x = (if False then key_len ?k else length ?x mod 2 ^ 16)" using node_okD(2) [OF ok] node_space [OF ok] by simp
  have rc: "descr_recs_count d = length L" using node_okD(4) [OF ok] by simp
  from place_into_node_ok [OF ok order_refl room' m x(1) order_refl tk(2)] obtain d' r where
    "place_into_node h d ?k (length ?x) (length L) False = Ok (recs_end L, d')" "node_ok h d' (insert_at (length L) r L)"
    "length r = length ?x" "take (length ?x) r = wr 4 (take (length ?x) ?k) 8 (length ?x)" "rng d' 16 13 = rng d 16 13"
    "\<forall>j < length L. off h d' j = off h d j" by blast
  then show "\<exists>d'. append_bnode h d ?k = Ok d' \<and> node_ok h d' (L @ [?x]) \<and> rng d' 16 13 = rng d 16 13 \<and>
      (\<forall>j < length L. off h d' j = off h d j)"
    using tk(1) x(2) rc rl by (auto simp: append_bnode_def insert_at_def)
qed

lemma insert_new:
  assumes ok: "node_ok h d L" and room: "37 + recs_size L + len + 4 \<le> node_size_bytes h"
    and k: "12 \<le> key_len key" "key_len key \<le> len" "key_len key \<le> length key"
  shows "\<exists>d' r. insert_key_into_bnode h d key len (descr_recs_count d) = Ok (recs_end L, d') \<and> node_ok h d' (L @ [r]) \<and>
    length r = len \<and> take (key_len key) r = wr 4 (take (key_len key) key) 8 len \<and> rng d' 16 13 = rng d 16 13 \<and>
    off h d' (length L) = recs_end L"
proof -
  have room': "len + 4 \<le> descr_free_space d" using node_space [OF ok] room by simp
  have rc: "descr_recs_count d = length L" using node_okD(4) [OF ok] by simp
  have "key_len key = (if True then key_len key else len mod 2 ^ 16)" by simp
  from place_into_node_ok [OF ok order_refl room' this k] show ?thesis
    unfolding insert_key_into_bnode_def rc by (auto simp: insert_at_def)
qed

lemma node_ok_header:
  assumes ok: "node_ok h d rs" and q: "16 \<le> q" "q + w \<le> 29"
  shows "node_ok h (wr w d q v) rs"
proof -
  note k = node_okD [OF ok]
  have len: "29 \<le> length d" using node_len [OF ok] .
  have o: "off h (wr w d q v) i = off h d i" if "i \<le> length rs" for i
    using node_slot(1,2) [OF ok that] recs_end_ge [of rs] q k(1) by (intro off_wr_low) auto
  have r: "rng (wr w d q v) p n = rng d p n" if "29 \<le> p" "p + n \<le> recs_end rs" for p n
    using that q len k(1,3) by (intro rng_wr_other) auto
  have c: "descr_recs_count (wr w d q v) = descr_recs_count d" "descr_free_space (wr w d q v) = descr_free_space d"
    using q len by (simp_all add: descr_recs_count_def descr_free_space_def rd_wr_other)
  have l: "length (wr w d q v) = length d" using q len by simp
  show ?thesis
    unfolding node_ok_def
  proof (intro conjI allI impI)
    fix i assume i: "i < length rs"
    show "record_ok (rs ! i)" "29 \<le> off h (wr w d q v) i" "off h (wr w d q v) i + length (rs ! i) \<le> recs_end rs"
      "rng (wr w d q v) (off h (wr w d q v) i) (length (rs ! i)) = rs ! i"
      using o [of i] r [OF k(8) [OF i] k(9) [OF i]] k(7-10) [OF i] i by simp_all
    fix j assume j: "j < length rs" "i \<noteq> j"
    show "off h (wr w d q v) i + length (rs ! i) \<le> off h (wr w d q v) j \<or> off h (wr w d q v) j + length (rs ! j) \<le> off h (wr w d q v) i"
      using k(11) [OF i j] o i j(1) by simp
  qed (use k c l o [of "length rs"] in simp_all)
qed

lemma node_ok_header_off:
  assumes ok: "node_ok h d rs" and q: "16 \<le> q" "q + w \<le> 29" and i: "i \<le> length rs"
  shows "off h (wr w d q v) i = off h d i"
  using node_slot(1,2) [OF ok i] recs_end_ge [of rs] q node_okD(1) [OF ok] by (intro off_wr_low) auto

section \<open>The loop\<close>

definition is_new :: "u8 list \<Rightarrow> nat \<Rightarrow> u8 list \<Rightarrow> bool" where
  "is_new key len r \<longleftrightarrow> length r = len \<and> take (key_len key) r = wr 4 (take (key_len key) key) 8 len"

text \<open>The place of the new record, as the split reports it.\<close>

definition placed_at :: "node_host \<Rightarrow> u8 list \<Rightarrow> u8 list list \<Rightarrow> u8 list \<Rightarrow> split_result \<Rightarrow> bool" where
  "placed_at h d X r res \<longleftrightarrow> new_pos res < length X \<and> X ! new_pos res = r \<and> off h d (new_pos res) = new_addr res"

lemma placed_at_append:
  "placed_at h d X r res \<Longrightarrow> \<forall>j < length X. off h d' j = off h d j \<Longrightarrow> placed_at h d' (X @ Y) r res"
  by (auto simp: placed_at_def nth_append)

text \<open>What the loop leaves behind, from nodes that hold the records \<open>L\<close> and none or some on the right.\<close>

definition split_done ::
  "node_host \<Rightarrow> u8 list \<Rightarrow> nat \<Rightarrow> nat \<Rightarrow> u8 list list \<Rightarrow> u8 list \<Rightarrow> u8 list list \<Rightarrow> u8 list \<Rightarrow>
     (u8 list \<times> u8 list \<times> split_result option) result \<Rightarrow> bool" where
  "split_done h key len pos rs left L right out \<longleftrightarrow>
     (\<exists>left' right' res L' R' r. out = Ok (left', right', Some res) \<and> node_ok h left' (L @ L') \<and> node_ok h right' R' \<and>
        is_new key len r \<and> (L @ L') @ R' = insert_at pos r rs \<and> L @ L' \<noteq> [] \<and> R' \<noteq> [] \<and>
        placed_at h (if in_right res then right' else left') (if in_right res then R' else L @ L') r res \<and>
        rng left' 16 13 = rng left 16 13 \<and> rng right' 16 13 = rng right 16 13)"

lemma split_done_step:
  assumes "split_done h key len pos rs left1 (L @ X) right1 out" "rng left1 16 13 = rng left 16 13" "rng right1 16 13 = rng right 16 13"
  shows "split_done h key len pos rs left L right out"
  using assms unfolding split_done_def by (metis append_assoc)

lemma recs_size_new:
  assumes "is_new key len r"
  shows "recs_size (insert_at pos r rs) = recs_size rs + len + 4"
proof -
  have "recs_size (take pos rs) + recs_size (drop pos rs) = recs_size rs" by (metis append_take_drop_id recs_size_simps(3))
  then show ?thesis using assms by (simp add: insert_at_def is_new_def)
qed

lemma split_loop_ok:
  assumes orig: "node_ok h orig rs" and pos: "pos \<le> length rs"
    and key: "12 \<le> key_len key" "key_len key \<le> len" "key_len key \<le> length key" "len \<le> record_len key"
    and sz: "record_len key + 40 \<le> node_size_bytes h div 2" "\<forall>r\<in>set rs. length r + 4 \<le> node_size_bytes h div 2"
    and big: "node_size_bytes h < 37 + recs_size rs + record_len key + 4"
  shows "node_ok h left L \<Longrightarrow> node_ok h right R \<Longrightarrow>
    used = 37 + recs_size L + recs_size R + (if inserted then record_len key - len else 0) \<Longrightarrow>
    (if part then node_size_bytes h div 2 < 37 + recs_size L + (record_len key - len) else R = [] \<and> used \<le> node_size_bytes h div 2) \<Longrightarrow>
    (if inserted then pos \<le> i \<and> (\<exists>r res0. is_new key len r \<and> L @ R = insert_at pos r (take i rs) \<and> res = Some res0 \<and>
        placed_at h (if in_right res0 then right else left) (if in_right res0 then R else L) r res0)
     else i \<le> pos \<and> L @ R = take i rs) \<Longrightarrow> i \<le> length rs \<Longrightarrow>
    (length rs - i) + (if inserted then 0 else 1) < fuel \<Longrightarrow> (R = [] \<Longrightarrow> used \<le> node_size_bytes h) \<Longrightarrow>
    split_done h key len pos rs left L right
      (split_loop h orig key len pos (length rs) fuel i inserted part used left right res)"
proof (induction fuel arbitrary: left L right R used part inserted i res)
  case (Suc fuel)
  let ?N = "node_size_bytes h"
  note k = node_okD [OF orig] and so = node_space [OF orig]
  have N: "?N < 2 ^ 16" using k(2) .
  have szL: "37 + recs_size L \<le> ?N" "37 + recs_size R \<le> ?N" using node_space(2) Suc.prems(1,2) by auto
  show ?case
  proof (cases "i < length rs \<or> \<not> inserted")
    case False
    then have e: "i = length rs" "inserted" using Suc.prems(6) by auto
    then obtain r r0 where r: "is_new key len r" "L @ R = insert_at pos r rs" "res = Some r0"
      "placed_at h (if in_right r0 then right else left) (if in_right r0 then R else L) r r0" using Suc.prems(5) by auto
    have "recs_size (L @ R) = recs_size rs + len + 4" unfolding r(2) using recs_size_new [OF r(1)] .
    then have u: "used = 37 + recs_size rs + record_len key + 4" using Suc.prems(3) e(2) key(4) by simp
    have R: "R \<noteq> []" using Suc.prems(8) u big by auto
    have L: "L \<noteq> []" using Suc.prems(4) R sz(1) by (auto split: if_splits)
    show ?thesis using False r L R Suc.prems(1,2) unfolding split_done_def
      by (intro exI [of _ left] exI [of _ right] exI [of _ r0] exI [of _ "[]"] exI [of _ R] exI [of _ r]) (simp cong: if_cong)
  next
    case True
    define ins where "ins = (if part then right else left)"
    define I where "I = (if part then R else L)"
    have insok: "node_ok h ins I" using Suc.prems(1,2) by (simp add: ins_def I_def)
    have tot: "recs_size L + recs_size R + recs_size (drop i rs) + (if inserted then 0 else len + 4) = recs_size rs + len + 4"
    proof -
      have "recs_size (take i rs) + recs_size (drop i rs) = recs_size rs"
        by (metis append_take_drop_id recs_size_simps(3))
      moreover have "recs_size (L @ R) = recs_size (take i rs) + (if inserted then len + 4 else 0)"
      proof (cases inserted)
        case True
        then obtain r where r: "pos \<le> i" "is_new key len r" "L @ R = insert_at pos r (take i rs)" using Suc.prems(5) by auto
        show ?thesis unfolding r(3) using recs_size_new [OF r(2)] True by simp
      next
        case False
        then have "L @ R = take i rs" using Suc.prems(5) by simp
        then show ?thesis using False by (simp only: if_False add_0_right)
      qed
      ultimately show ?thesis by (cases inserted) simp_all
    qed
    have fits: "37 + recs_size I + n + 4 \<le> ?N"
      if "n + 4 \<le> ?N div 2" "n + 4 \<le> recs_size (drop i rs) + (if inserted then 0 else len + 4)" for n
    proof (cases part)
      case True
      then have "?N div 2 < 37 + recs_size L + (record_len key - len)" using Suc.prems(4) by simp
      moreover have "recs_size L + recs_size R + (n + 4) \<le> recs_size rs + len + 4" using tot that(2) by simp
      ultimately show ?thesis using so(2) sz(1) key(4) True by (simp add: I_def)
    next
      case False
      then have "37 + recs_size L \<le> ?N div 2" using Suc.prems(3,4) by simp
      then show ?thesis using that(1) False by (simp add: I_def)
    qed
    let ?part' = "\<lambda>u. part \<or> ?N div 2 < u"
    have cont: "if ?part' (37 + recs_size L1 + recs_size R1 + x)
        then ?N div 2 < 37 + recs_size L1 + (record_len key - len) else R1 = [] \<and> 37 + recs_size L1 + recs_size R1 + x \<le> ?N div 2"
      if "if part then L1 = L else R1 = []" "x \<le> record_len key - len" for L1 R1 x
      using that Suc.prems(4) by (cases part) auto
    have small: "(used + n + OFF_SIZE) mod 2 ^ 32 = used + n + 4" if "n + 4 \<le> ?N div 2" for n
      using Suc.prems(3) szL that N sz(1) by (simp add: OFF_SIZE_def)
    show ?thesis
    proof (cases "i = pos \<and> \<not> inserted")
      case new: True
      let ?rl = "record_len key"
      have l4: "len + 4 \<le> ?N div 2" "?rl + 4 \<le> ?N div 2" using sz(1) key(4) by simp_all
      note f = fits [OF l4(1)] and u = small [OF l4(2)]
      obtain d' r where d': "insert_key_into_bnode h ins key len (descr_recs_count ins) = Ok (recs_end I, d')" "node_ok h d' (I @ [r])"
        "is_new key len r" "rng d' 16 13 = rng ins 16 13" "off h d' (length I) = recs_end I"
        using insert_new [OF insok f key(1-3)] new by (auto simp: is_new_def)
      define L1 where "L1 = (if part then L else L @ [r])"
      define R1 where "R1 = (if part then R @ [r] else R)"
      define left1 where "left1 = (if part then left else d')"
      define right1 where "right1 = (if part then d' else right)"
      define res0 where "res0 = \<lparr>in_right = part, new_pos = descr_recs_count ins, new_addr = recs_end I\<rparr>"
      have pl: "placed_at h (if in_right res0 then right1 else left1) (if in_right res0 then R1 else L1) r res0"
        using d'(5) node_okD(4) [OF insok] unfolding placed_at_def
        by (cases part) (simp_all add: res0_def left1_def right1_def L1_def R1_def I_def)
      have len: "length r = len" using d'(3) by (simp add: is_new_def)
      have ok1: "node_ok h left1 L1" "node_ok h right1 R1"
        using d'(2) Suc.prems(1,2) by (cases part; simp add: left1_def right1_def L1_def R1_def I_def)+
      have us: "used + ?rl + 4 = 37 + recs_size L1 + recs_size R1 + (?rl - len)"
        using Suc.prems(3) len new key(4) by (simp add: L1_def R1_def)
      have step: "split_loop h orig key len pos (length rs) (Suc fuel) i inserted part used left right res =
          split_loop h orig key len pos (length rs) fuel i True (?part' (used + ?rl + 4)) (used + ?rl + 4) left1 right1 (Some res0)"
        using new d'(1) u by (simp add: ins_def left1_def right1_def Let_def res0_def)
      have LR: "L1 @ R1 = insert_at pos r (take i rs)"
        using new Suc.prems(4,5) pos by (cases part) (simp_all add: L1_def R1_def insert_at_def)
      have c: "if ?part' (used + ?rl + 4) then ?N div 2 < 37 + recs_size L1 + (?rl - len) else R1 = [] \<and> used + ?rl + 4 \<le> ?N div 2"
        unfolding us by (rule cont) (use Suc.prems(4) in \<open>auto simp: L1_def R1_def split: if_splits\<close>)
      have ex: "if True then pos \<le> i \<and> (\<exists>r res1. is_new key len r \<and> L1 @ R1 = insert_at pos r (take i rs) \<and> Some res0 = Some res1 \<and>
          placed_at h (if in_right res1 then right1 else left1) (if in_right res1 then R1 else L1) r res1)
        else i \<le> pos \<and> L1 @ R1 = take i rs"
        using new d'(3) LR pl by auto
      have e0: "used + ?rl + 4 \<le> ?N" if "R1 = []"
      proof -
        have "\<not> part" using that by (auto simp: R1_def)
        then have "used \<le> ?N div 2" using Suc.prems(4) by simp
        then show ?thesis using l4(2) by linarith
      qed
      have ih: "split_done h key len pos rs left1 L1 right1
          (split_loop h orig key len pos (length rs) fuel i True (?part' (used + ?rl + 4)) (used + ?rl + 4) left1 right1 (Some res0))"
        using us Suc.prems(6,7) new e0 by (intro Suc.IH [OF ok1 _ c ex]) auto
      have "rng left1 16 13 = rng left 16 13" "rng right1 16 13 = rng right 16 13"
        using d'(4) by (simp_all add: left1_def right1_def ins_def split: if_splits)
      moreover have "L1 = L @ (if part then [] else drop (length L) L1)" by (simp add: L1_def)
      ultimately show ?thesis unfolding step using ih by (metis split_done_step)
    next
      case old: False
      then have i: "i < length rs" using True Suc.prems(5) pos by (auto split: if_splits)
      have inn: "\<not> (i = pos \<and> \<not> inserted)" using old .
      let ?x = "rs ! i"
      have lx: "length ?x + 4 \<le> ?N div 2" using sz(2) i by simp
      have dr: "drop i rs = ?x # drop (Suc i) rs" using i by (simp add: Cons_nth_drop_Suc)
      then have f: "37 + recs_size I + length ?x + 4 \<le> ?N" using fits [OF lx] by simp
      note u = small [OF lx]
      note a = append_old [OF orig i insok f]
      obtain d' where d': "append_bnode h ins (drop (off h orig i) orig) = Ok d'" "node_ok h d' (I @ [?x])" "rng d' 16 13 = rng ins 16 13"
        "\<forall>j < length I. off h d' j = off h ins j"
        using a(2) by blast
      define L1 where "L1 = (if part then L else L @ [?x])"
      define R1 where "R1 = (if part then R @ [?x] else R)"
      define left1 where "left1 = (if part then left else d')"
      define right1 where "right1 = (if part then d' else right)"
      have ok1: "node_ok h left1 L1" "node_ok h right1 R1"
        using d'(2) Suc.prems(1,2) by (cases part; simp add: left1_def right1_def L1_def R1_def I_def)+
      let ?sl = "if inserted then record_len key - len else 0"
      have us: "used + length ?x + 4 = 37 + recs_size L1 + recs_size R1 + ?sl" using Suc.prems(3) by (simp add: L1_def R1_def)
      have g: "get_record h orig i = Ok (off h orig i)" using get_record_ok(1) [OF orig i] .
      have step: "split_loop h orig key len pos (length rs) (Suc fuel) i inserted part used left right res =
          split_loop h orig key len pos (length rs) fuel (i + 1) inserted (?part' (used + length ?x + 4)) (used + length ?x + 4) left1 right1 res"
      proof -
        have sel: "(i = pos \<and> \<not> inserted) = False" using inn by blast
        show ?thesis unfolding split_loop.simps Let_def sel using True d'(1) u a(1) g
          by (cases part) (simp_all add: ins_def left1_def right1_def)
      qed
      have LR: "L1 @ R1 = (L @ R) @ [?x]" using Suc.prems(4) by (cases part) (simp_all add: L1_def R1_def)
      have tk: "take (i + 1) rs = take i rs @ [?x]" using i by (simp add: take_Suc_conv_app_nth)
      have c: "if ?part' (used + length ?x + 4) then ?N div 2 < 37 + recs_size L1 + (record_len key - len) else R1 = [] \<and> used + length ?x + 4 \<le> ?N div 2"
        unfolding us by (rule cont) (use Suc.prems(4) in \<open>auto simp: L1_def R1_def split: if_splits\<close>)
      have inv: "if inserted then pos \<le> i + 1 \<and> (\<exists>r res0. is_new key len r \<and> L1 @ R1 = insert_at pos r (take (i + 1) rs) \<and> res = Some res0 \<and>
            placed_at h (if in_right res0 then right1 else left1) (if in_right res0 then R1 else L1) r res0)
          else i + 1 \<le> pos \<and> L1 @ R1 = take (i + 1) rs"
      proof (cases inserted)
        case True
        then obtain r res0 where r: "pos \<le> i" "is_new key len r" "L @ R = insert_at pos r (take i rs)" "res = Some res0"
          "placed_at h (if in_right res0 then right else left) (if in_right res0 then R else L) r res0" using Suc.prems(5) by auto
        have "placed_at h (if in_right res0 then right1 else left1) (if in_right res0 then R1 else L1) r res0"
          using r(5) placed_at_append [of h ins I r res0 d' "[?x]"] d'(4)
          by (cases part; cases "in_right res0") (simp_all add: left1_def right1_def L1_def R1_def ins_def I_def)
        then show ?thesis using r True LR tk i by (auto simp: insert_at_def min_def)
      next
        case False
        then show ?thesis using Suc.prems(5) inn LR tk by auto
      qed
      have e0: "used + length ?x + 4 \<le> ?N" if "R1 = []"
      proof -
        have "\<not> part" using that by (auto simp: R1_def)
        then have "used \<le> ?N div 2" using Suc.prems(4) by simp
        then show ?thesis using lx by linarith
      qed
      have ih: "split_done h key len pos rs left1 L1 right1
          (split_loop h orig key len pos (length rs) fuel (i + 1) inserted (?part' (used + length ?x + 4)) (used + length ?x + 4) left1 right1 res)"
        using i Suc.prems(7) e0 by (intro Suc.IH [OF ok1 us c inv]) auto
      have "rng left1 16 13 = rng left 16 13" "rng right1 16 13 = rng right 16 13"
        using d'(3) by (simp_all add: left1_def right1_def ins_def split: if_splits)
      moreover have "L1 = L @ (if part then [] else drop (length L) L1)" by (simp add: L1_def)
      ultimately show ?thesis unfolding step using ih by (metis split_done_step)
    qed
  qed
qed simp

section \<open>The whole split\<close>

lemma split_bnode_run:
  assumes ok: "node_ok h left rs" and right: "length right = node_size_bytes h" and pos: "pos \<le> length rs" "rs \<noteq> []"
    and key: "12 \<le> key_len key" "key_len key \<le> len" "key_len key \<le> length key" "len \<le> record_len key"
    and full: "is_node_full left key"
    and sz: "record_len key + 40 \<le> node_size_bytes h div 2" "\<forall>r\<in>set rs. length r + 4 \<le> node_size_bytes h div 2"
    and ids: "left_id < 2 ^ 32" "right_id < 2 ^ 32"
  shows "\<exists>left' right' res L R r.
    split_bnode h left_id right_id left right key len pos get_next =
      (if descr_next left \<noteq> 0 then
         (case get_next (descr_next left) of
            Ok next_right \<Rightarrow> (Success, left', right', Some (set_prev (descr_node_id right') next_right), Some res)
          | Err e \<Rightarrow> (Success, left, right', None, Some res)
          | Bug \<Rightarrow> (Oops, left', right', None, Some res))
       else (Success, left', right', None, Some res)) \<and>
    node_ok h left' L \<and> node_ok h right' R \<and> L \<noteq> [] \<and> R \<noteq> [] \<and> L @ R = insert_at pos r rs \<and> is_new key len r \<and>
    placed_at h (if in_right res then right' else left') (if in_right res then R else L) r res \<and>
    descr_node_id left' = left_id \<and> descr_prev left' = descr_prev left \<and> descr_next left' = right_id \<and>
    descr_node_id right' = right_id \<and> descr_prev right' = left_id \<and> descr_next right' = descr_next left"
proof -
  let ?N = "node_size_bytes h"
  note k = node_okD [OF ok] and sp = node_space [OF ok]
  have N: "37 \<le> ?N" "?N < 2 ^ 16" using sp(2) k(2) by simp_all
  obtain left0 where l0: "init_new_node_descr h left left_id (descr_type left) = Ok left0" "node_ok h left0 []" "descr_node_id left0 = left_id"
    using init_node_ok [OF k(1) N] ids(1) by fastforce
  obtain right0 where r0: "init_new_node_descr h right right_id (descr_type left) = Ok right0" "node_ok h right0 []" "descr_node_id right0 = right_id"
    using init_node_ok [OF right N] ids(2) by fastforce
  have us: "?N - descr_free_space left0 = 37 + recs_size [] + recs_size [] + (if False then record_len key - len else 0)"
    using node_space(1) [OF l0(2)] N by simp
  have big: "?N < 37 + recs_size rs + record_len key + 4" using full sp by (simp add: is_node_full_def OFF_SIZE_def)
  have rc: "descr_recs_count left = length rs" "length rs \<noteq> 0" using k(4) pos(2) by simp_all
  have "split_done h key len pos rs left0 [] right0
      (split_loop h left key len pos (length rs) (length rs + 3) 0 False False (?N - descr_free_space left0) left0 right0 None)"
    using sz(1) us by (intro split_loop_ok [OF ok pos(1) key sz big l0(2) r0(2) us]) auto
  then obtain left1 right1 res L R r where s:
    "split_loop h left key len pos (length rs) (length rs + 3) 0 False False (?N - descr_free_space left0) left0 right0 None =
      Ok (left1, right1, Some res)" "node_ok h left1 L" "node_ok h right1 R" "is_new key len r" "L @ R = insert_at pos r rs"
    "rng left1 16 13 = rng left0 16 13" "rng right1 16 13 = rng right0 16 13" "L \<noteq> []" "R \<noteq> []"
    "placed_at h (if in_right res then right1 else left1) (if in_right res then R else L) r res"
    unfolding split_done_def append_Nil by auto
  have id1: "descr_node_id left1 = left_id" "descr_node_id right1 = right_id"
    using descr_fields_same(1) [OF s(6)] descr_fields_same(1) [OF s(7)] node_len l0(2,3) r0(2,3) s(2,3) by metis+
  define left2 where "left2 = set_next (descr_node_id right1) (set_prev (descr_prev left) left1)"
  define right2 where "right2 = set_next (descr_next left) (set_prev (descr_node_id left2) right1)"
  have pb: "descr_prev left < 2 ^ 32" "descr_next left < 2 ^ 32"
    using rd_bound [of 20 4 left] rd_bound [of 24 4 left] node_len [OF ok] by (simp_all add: descr_prev_def descr_next_def)
  note ll = node_len [OF s(2)] and rl = node_len [OF s(3)]
  have okl: "node_ok h left2 L" unfolding left2_def set_next_def set_prev_def by (intro node_ok_header s(2)) simp_all
  have okr: "node_ok h right2 R" unfolding right2_def set_next_def set_prev_def by (intro node_ok_header s(3)) simp_all
  have fl: "descr_node_id left2 = left_id" "descr_prev left2 = descr_prev left" "descr_next left2 = right_id"
    using ll id1 ids pb unfolding left2_def set_next_def set_prev_def descr_node_id_def [of "wr _ _ _ _"] descr_prev_def [of "wr _ _ _ _"]
      descr_next_def [of "wr _ _ _ _"]
    by (simp_all add: rd_wr_same rd_wr_other descr_node_id_def)
  have fr: "descr_node_id right2 = right_id" "descr_prev right2 = left_id" "descr_next right2 = descr_next left"
    using rl id1 ids pb fl(1) unfolding right2_def set_next_def set_prev_def descr_node_id_def [of "wr _ _ _ _"] descr_prev_def [of "wr _ _ _ _"]
      descr_next_def [of "wr _ _ _ _"]
    by (simp_all add: rd_wr_same rd_wr_other descr_node_id_def)
  have run: "split_bnode h left_id right_id left right key len pos get_next =
      (if descr_next left \<noteq> 0 then
         (case get_next (descr_next left) of
            Ok next_right \<Rightarrow> (Success, left2, right2, Some (set_prev (descr_node_id right2) next_right), Some res)
          | Err e \<Rightarrow> (Success, left, right2, None, Some res)
          | Bug \<Rightarrow> (Oops, left2, right2, None, Some res))
       else (Success, left2, right2, None, Some res))"
    unfolding split_bnode_def Let_def r0(1) l0(1) rc(1) result.case s(1) prod.case left2_def [symmetric] right2_def [symmetric]
    using rc(2) by simp
  have "placed_at h (if in_right res then right2 else left2) (if in_right res then R else L) r res"
  proof -
    have "off h left2 j = off h left1 j" if "j \<le> length L" for j
      unfolding left2_def set_next_def set_prev_def using node_ok_header_off [OF _ _ _ that] node_ok_header [OF s(2)] s(2) by simp
    moreover have "off h right2 j = off h right1 j" if "j \<le> length R" for j
      unfolding right2_def set_next_def set_prev_def using node_ok_header_off [OF _ _ _ that] node_ok_header [OF s(3)] s(3) by simp
    ultimately show ?thesis using s(10) by (simp add: placed_at_def split: if_splits)
  qed
  then show ?thesis using run okl okr s(4,5,8,9) fl fr by blast
qed

end
