(* ===== verification/Btree_Split_Claims.thy ===== *)
theory Btree_Split_Claims
  imports Btree_Split_Inv
begin

text \<open>The properties of splitting a node.\<close>

section \<open>Properties\<close>

text \<open>
  C38. Splitting a full node for a new record succeeds when no record takes about half a node.
  The new record may be shorter than its key says, as index records are.
  Both nodes are well-formed and not empty; the records of the left node followed by those of
  the right one are the old records with the new one at its position; the left node keeps its
  number, the new node takes its place between the left one and the old neighbour, and the
  old neighbour points back to it.
\<close>

theorem split_bnode_correct:
  assumes ok: "node_ok h left rs" and right: "length right = node_size_bytes h" and pos: "pos \<le> length rs" "rs \<noteq> []"
    and key: "12 \<le> key_len key" "key_len key \<le> len" "key_len key \<le> length key" "len \<le> record_len key"
    and full: "is_node_full left key"
    and sz: "record_len key + 40 \<le> node_size_bytes h div 2" "\<forall>r\<in>set rs. length r + 4 \<le> node_size_bytes h div 2"
    and ids: "left_id < 2 ^ 32" "right_id < 2 ^ 32"
    and nx: "descr_next left \<noteq> 0 \<longrightarrow> (\<exists>nd rn. get_next (descr_next left) = Ok nd \<and> node_ok h nd rn)"
  shows "\<exists>left' right' next' res L R r.
    split_bnode h left_id right_id left right key len pos get_next = (Success, left', right', next', Some res) \<and>
    node_ok h left' L \<and> node_ok h right' R \<and> L \<noteq> [] \<and> R \<noteq> [] \<and> L @ R = insert_at pos r rs \<and> is_new key len r \<and>
    descr_node_id left' = left_id \<and> descr_prev left' = descr_prev left \<and> descr_next left' = right_id \<and>
    descr_node_id right' = right_id \<and> descr_prev right' = left_id \<and> descr_next right' = descr_next left \<and>
    (if descr_next left = 0 then next' = None else \<exists>n. next' = Some n \<and> descr_prev n = right_id)"
proof -
  obtain left' right' res L R r where run: "split_bnode h left_id right_id left right key len pos get_next =
      (if descr_next left \<noteq> 0 then
         (case get_next (descr_next left) of
            Ok next_right \<Rightarrow> (Success, left', right', Some (set_prev (descr_node_id right') next_right), Some res)
          | Err e \<Rightarrow> (Success, left, right', None, Some res)
          | Bug \<Rightarrow> (Oops, left', right', None, Some res))
       else (Success, left', right', None, Some res))"
    and f: "node_ok h left' L \<and> node_ok h right' R \<and> L \<noteq> [] \<and> R \<noteq> [] \<and> L @ R = insert_at pos r rs \<and> is_new key len r \<and>
    descr_node_id left' = left_id \<and> descr_prev left' = descr_prev left \<and> descr_next left' = right_id \<and>
    descr_node_id right' = right_id \<and> descr_prev right' = left_id \<and> descr_next right' = descr_next left"
    using split_bnode_run [OF ok right pos key full sz ids, of get_next] by (elim exE conjE) (rule that, assumption, blast)
  have "\<exists>next'. split_bnode h left_id right_id left right key len pos get_next = (Success, left', right', next', Some res) \<and>
      (if descr_next left = 0 then next' = None else \<exists>n. next' = Some n \<and> descr_prev n = right_id)"
  proof (cases "descr_next left = 0")
    case True
    then show ?thesis using run by simp
  next
    case False
    then obtain nd rn where n: "get_next (descr_next left) = Ok nd" "node_ok h nd rn" using nx by blast
    have "descr_prev (set_prev (descr_node_id right') nd) = right_id"
      using node_len [OF n(2)] f ids(2) by (simp add: descr_prev_def set_prev_def rd_wr_same)
    then show ?thesis using run False n(1) by simp
  qed
  then show ?thesis using f by blast
qed

text \<open>
  When the neighbour that must be linked to the new node cannot be read, the split restores
  the left node but reports success: the new node holds records that are still in the left
  one as well, and a new record that went to the left half is in neither.
\<close>

theorem split_bnode_hides_error:
  assumes ok: "node_ok h left rs" and right: "length right = node_size_bytes h" and pos: "pos \<le> length rs" "rs \<noteq> []"
    and key: "12 \<le> key_len key" "key_len key \<le> len" "key_len key \<le> length key" "len \<le> record_len key"
    and full: "is_node_full left key"
    and sz: "record_len key + 40 \<le> node_size_bytes h div 2" "\<forall>r\<in>set rs. length r + 4 \<le> node_size_bytes h div 2"
    and ids: "left_id < 2 ^ 32" "right_id < 2 ^ 32"
    and nx: "descr_next left \<noteq> 0" "get_next (descr_next left) = Err e"
  shows "\<exists>right' res L R r. split_bnode h left_id right_id left right key len pos get_next = (Success, left, right', None, Some res) \<and>
    node_ok h right' R \<and> R \<noteq> [] \<and> L \<noteq> [] \<and> L @ R = insert_at pos r rs \<and> is_new key len r"
  using split_bnode_run [OF ok right pos key full sz ids, of get_next] nx by (elim exE conjE) (simp, blast)

section \<open>Examples\<close>

text \<open>A full node: four extent records in 256 bytes.\<close>

definition sample_add :: "u8 list \<Rightarrow> u8 list \<Rightarrow> u8 list" where
  "sample_add r d = (case place_into_node sample_host d r (length r) (descr_recs_count d) False of Ok (p, d') \<Rightarrow> d' | _ \<Rightarrow> [])"

definition sample_recs :: "u8 list list" where
  "sample_recs = map (\<lambda>obj. ext_rec obj 0) [10, 20, 30, 40]"

definition sample_full :: "u8 list" where
  "sample_full = fold sample_add sample_recs sample_empty"

lemma sample_add_ok:
  assumes ok: "node_ok sample_host d rs" and r: "record_ok r" "37 + recs_size rs + length r + 4 \<le> 256"
  shows "node_ok sample_host (sample_add r d) (rs @ [r])" "rng (sample_add r d) 16 13 = rng d 16 13"
proof -
  have "length r + 4 \<le> descr_free_space d" using node_space [OF ok] r(2) by (simp add: sample_host_def)
  from place_record_ok [OF ok order_refl r(1) this] obtain d' where
    "place_into_node sample_host d r (length r) (length rs) False = Ok (recs_end rs, d')" "node_ok sample_host d' (rs @ [r])"
    "rng d' 16 13 = rng d 16 13"
    by (auto simp: insert_at_def)
  then show "node_ok sample_host (sample_add r d) (rs @ [r])" "rng (sample_add r d) 16 13 = rng d 16 13"
    using node_okD(4) [OF ok] by (simp_all add: sample_add_def)
qed

lemma sample_full_ok: "node_ok sample_host sample_full sample_recs" "descr_next sample_full = 0"
  "descr_prev sample_full = 0" "descr_node_id sample_full = 2"
proof -
  let ?a = "sample_add (ext_rec 10 0) sample_empty"
  let ?b = "sample_add (ext_rec 20 0) ?a"
  let ?c = "sample_add (ext_rec 30 0) ?b"
  note a = sample_add_ok [OF sample_empty_ok ext_rec_ok(1) [of 10 0]]
  have a': "node_ok sample_host ?a [ext_rec 10 0]" using a(1) by (simp add: ext_rec_ok)
  note b = sample_add_ok [OF a' ext_rec_ok(1) [of 20 0]]
  have b': "node_ok sample_host ?b [ext_rec 10 0, ext_rec 20 0]" using b(1) by (simp add: ext_rec_ok)
  note c = sample_add_ok [OF b' ext_rec_ok(1) [of 30 0]]
  have c': "node_ok sample_host ?c [ext_rec 10 0, ext_rec 20 0, ext_rec 30 0]" using c(1) by (simp add: ext_rec_ok)
  note d = sample_add_ok [OF c' ext_rec_ok(1) [of 40 0]]
  have f: "sample_full = sample_add (ext_rec 40 0) ?c" by (simp add: sample_full_def sample_recs_def)
  show ok: "node_ok sample_host sample_full sample_recs" using d(1) by (simp add: ext_rec_ok f sample_recs_def)
  have r: "rng sample_full 16 13 = rng sample_empty 16 13" using a(2) b(2) c(2) d(2) by (simp add: f ext_rec_ok)
  obtain e where "init_new_node_descr sample_host (replicate 256 0) 2 1 = Ok e" "descr_next e = 0" "descr_prev e = 0" "descr_node_id e = 2"
    using init_node_ok [of "replicate 256 0" sample_host 2 1] by (auto simp: sample_host_def)
  then have "descr_next sample_empty = 0" "descr_prev sample_empty = 0" "descr_node_id sample_empty = 2"
    by (simp_all add: sample_empty_def)
  then show "descr_next sample_full = 0" "descr_prev sample_full = 0" "descr_node_id sample_full = 2"
    using descr_fields_same [OF r node_len [OF sample_empty_ok] node_len [OF ok]] by simp_all
qed

text \<open>What a split of such a node for one more extent record asks for.\<close>

lemma sample_split_facts:
  assumes ok: "node_ok sample_host d sample_recs"
  shows "is_node_full d (ext_rec 25 0)" "key_len (ext_rec 25 0) = 28" "record_len (ext_rec 25 0) = 40"
    "\<forall>r\<in>set sample_recs. length r + 4 \<le> node_size_bytes sample_host div 2"
    "record_len (ext_rec 25 0) + 40 \<le> node_size_bytes sample_host div 2" "length (replicate 256 (0 :: u8)) = node_size_bytes sample_host"
    "2 \<le> length sample_recs" "sample_recs \<noteq> []" "length (ext_rec 25 0) = 40"
    "40 \<le> record_len (ext_rec 25 0)"
proof -
  show l: "key_len (ext_rec 25 0) = 28" "record_len (ext_rec 25 0) = 40"
    by (simp_all add: ext_rec_def record_len_def key_len_def rd_def rng_def le_val_bytes)
  show "is_node_full d (ext_rec 25 0)" "\<forall>r\<in>set sample_recs. length r + 4 \<le> node_size_bytes sample_host div 2"
    "record_len (ext_rec 25 0) + 40 \<le> node_size_bytes sample_host div 2" "length (replicate 256 (0 :: u8)) = node_size_bytes sample_host"
    "2 \<le> length sample_recs" "sample_recs \<noteq> []" "length (ext_rec 25 0) = 40" "40 \<le> record_len (ext_rec 25 0)"
    using node_space [OF ok] l by (simp_all add: is_node_full_def sample_host_def sample_recs_def ext_rec_ok OFF_SIZE_def)
qed

theorem split_bnode_correct_witness:
  "\<exists>left' right' next' res L R r.
    split_bnode sample_host 2 3 sample_full (replicate 256 0) (ext_rec 25 0) 40 2 (\<lambda>_. Err EIO) = (Success, left', right', next', Some res) \<and>
    node_ok sample_host left' L \<and> node_ok sample_host right' R \<and> L @ R = insert_at 2 r sample_recs \<and> is_new (ext_rec 25 0) 40 r \<and>
    descr_next left' = 3 \<and> descr_prev right' = 2"
proof -
  note s = sample_split_facts [OF sample_full_ok(1)]
  have "12 \<le> key_len (ext_rec 25 0)" "key_len (ext_rec 25 0) \<le> 40" "key_len (ext_rec 25 0) \<le> length (ext_rec 25 0)"
    using s by simp_all
  from split_bnode_correct [OF sample_full_ok(1) s(6-8) this s(10,1,5,4), of 2 3 "\<lambda>_. Err EIO"] sample_full_ok(2)
  show ?thesis by simp blast
qed

theorem split_bnode_hides_error_witness:
  "\<exists>right' res L R r. split_bnode sample_host 2 3 (set_next 5 sample_full) (replicate 256 0) (ext_rec 25 0) 40 2 (\<lambda>_. Err EIO) =
      (Success, set_next 5 sample_full, right', None, Some res) \<and>
    node_ok sample_host right' R \<and> R \<noteq> [] \<and> L \<noteq> [] \<and> L @ R = insert_at 2 r sample_recs \<and> is_new (ext_rec 25 0) 40 r"
proof -
  have ok: "node_ok sample_host (set_next 5 sample_full) sample_recs"
    unfolding set_next_def by (rule node_ok_header [OF sample_full_ok(1)]) simp_all
  note s = sample_split_facts [OF ok]
  have "descr_next (set_next 5 sample_full) = 5"
    using node_len [OF sample_full_ok(1)] by (simp add: descr_next_def set_next_def rd_wr_same)
  then have n: "descr_next (set_next 5 sample_full) \<noteq> 0" by simp
  have "12 \<le> key_len (ext_rec 25 0)" "key_len (ext_rec 25 0) \<le> 40" "key_len (ext_rec 25 0) \<le> length (ext_rec 25 0)"
    using s by simp_all
  from split_bnode_hides_error [OF ok s(6-8) this s(10,1,5,4), of 2 3 "\<lambda>_. Err EIO" EIO] n
  show ?thesis by simp
qed

end
