(* ===== verification/Btree_Insert.thy ===== *)
theory Btree_Insert
  imports Btree_Split
begin

text \<open>
  Adding a record to a tree, \<^verbatim>\<open>btree.c\<close>: the record is placed in a leaf, which is split when it
  is full; for each new node an index record has to be placed one level higher, which is
  noted in a list of work and done afterwards; a second node at the root level gets a new root.
\<close>

section \<open>Pending index records\<close>

text \<open>
  \<^verbatim>\<open>traverse_data\<close> points into the list of the nodes passed on the way down, so it is the rest
  of that list from an entry on, or NULL when a new root is needed.
\<close>

record vdfs2_btree_todo_list =
  td_traverse_data :: "vdfs2_btree_traverse_stack list option"
  td_point_to_bnode_id :: nat
  td_current_root_id :: nat

definition put_add_index_work ::
  "vdfs2_btree_todo_list list \<Rightarrow> vdfs2_btree_traverse_stack list option \<Rightarrow> nat \<Rightarrow> nat \<Rightarrow> mem \<Rightarrow> vdfs2_btree_todo_list list \<times> mem" where
  "put_add_index_work todo traverse_data point_to_bnode_id current_root_id m =
     (case kmem_alloc m of (ok, m1) \<Rightarrow>
        if \<not> ok then (todo, m1)
        else (\<lparr>td_traverse_data = traverse_data, td_point_to_bnode_id = point_to_bnode_id,
               td_current_root_id = current_root_id\<rparr> # todo, m1))"

section \<open>Placing a key in a node\<close>

text \<open>The entry one level higher; behind the last entry the code would read the list head.\<close>

definition upper_traverse_data ::
  "node_pool \<Rightarrow> vdfs2_btree_traverse_stack list \<Rightarrow> vdfs2_btree_traverse_stack list option result" where
  "upper_traverse_data P traverse_data =
     (case traverse_data of
        [] \<Rightarrow> Bug
      | e # up \<Rightarrow>
          if st_level e = vdfs2_btree_get_height P then Ok None
          else if up = [] then Bug else Ok (Some up))"

text \<open>The nodes after a split: the two halves and the changed neighbour.\<close>

definition pool_after_split :: "nat \<Rightarrow> nat \<Rightarrow> u8 list \<Rightarrow> u8 list \<Rightarrow> u8 list option \<Rightarrow> node_pool \<Rightarrow> node_pool" where
  "pool_after_split nid rid left right next_right P =
     (let P1 = pool_put rid right (pool_put nid left P) in
      case next_right of None \<Rightarrow> P1 | Some d \<Rightarrow> pool_put (descr_next right) d P1)"

definition place_key_in_bnode ::
  "(u8 list \<Rightarrow> u8 list \<Rightarrow> int) \<Rightarrow> node_pool \<Rightarrow> vdfs2_btree_traverse_stack list \<Rightarrow> nat \<Rightarrow> int \<Rightarrow> u8 list \<Rightarrow> nat \<Rightarrow>
     vdfs2_btree_todo_list list \<Rightarrow> mem \<Rightarrow> vdfs2_btree_record_info result \<times> node_pool \<times> vdfs2_btree_todo_list list \<times> mem" where
  "place_key_in_bnode comp_fn P traverse_data nid pos gen_key new_rec_len todo m =
     (let h = pool_host P; bnode = the (pool_nodes P nid) in
      case kmem_alloc m of (ok, m1) \<Rightarrow>
        if \<not> ok then (Err ENOMEM, P, todo, m1)
        else
          (case get_record h bnode (nat pos) of
             Err e \<Rightarrow> (Err e, P, todo, m1)
           | Bug \<Rightarrow> (Bug, P, todo, m1)
           | Ok raw_record \<Rightarrow>
               if comp_fn (drop raw_record bnode) gen_key = 0 then (Err EEXIST, P, todo, m1)
               else if is_node_full bnode gen_key then
                 (case reserve_ret P of
                    Fail e \<Rightarrow> (Err e, P, todo, m1)
                  | Oops \<Rightarrow> (Bug, P, todo, m1)
                  | Success \<Rightarrow>
                      (case pool_alloc P of
                         (Err e, P1) \<Rightarrow> (Err e, P1, todo, m1)
                       | (Bug, P1) \<Rightarrow> (Bug, P1, todo, m1)
                       | (Ok (rid, right), P1) \<Rightarrow>
                           (case split_bnode h nid rid bnode right gen_key new_rec_len (nat (pos + 1)) (pool_get P1) of
                              (Fail e, left', right', next_right, res) \<Rightarrow>
                                (case pool_destroy rid (pool_put nid left' P1) of
                                   Ok P2 \<Rightarrow> (Err e, P2, todo, m1) | _ \<Rightarrow> (Bug, P1, todo, m1))
                            | (Oops, left', right', next_right, res) \<Rightarrow> (Bug, P1, todo, m1)
                            | (Success, left', right', next_right, None) \<Rightarrow> (Bug, P1, todo, m1)
                            | (Success, left', right', next_right, Some res) \<Rightarrow>
                                (let P2 = pool_after_split nid rid left' right' next_right P1 in
                                 case upper_traverse_data P2 traverse_data of
                                   Ok up \<Rightarrow>
                                     (case put_add_index_work todo up rid (vdfs2_btree_get_root_id P2) m1 of (todo1, m2) \<Rightarrow>
                                        (Ok (if in_right res then form_gen_record rid right' (new_addr res) (int (new_pos res))
                                             else form_gen_record nid left' (new_addr res) (int (new_pos res))), P2, todo1, m2))
                                 | _ \<Rightarrow> (Bug, P2, todo, m1)))))
               else
                 (case insert_key_into_bnode h bnode gen_key new_rec_len (nat (pos + 1)) of
                    Err e \<Rightarrow> (Err e, P, todo, m1)
                  | Bug \<Rightarrow> (Bug, P, todo, m1)
                  | Ok (addr, bnode') \<Rightarrow> (Ok (form_gen_record nid bnode' addr (pos + 1)), pool_put nid bnode' P, todo, m1))))"

section \<open>A new root\<close>

text \<open>
  The loop over the nodes of the old root level: an index record for each is added to the new
  root. Each step takes at least four bytes of the new root, or stops, so its free space is
  enough fuel. The value is the new root's bytes.
\<close>

fun new_root_loop :: "node_pool \<Rightarrow> nat \<Rightarrow> nat \<Rightarrow> u8 list \<Rightarrow> nat \<Rightarrow> u8 list \<Rightarrow> u8 list result" where
  "new_root_loop P 0 curr_id curr_bnode pos new_root = Bug"
| "new_root_loop P (Suc fuel) curr_id curr_bnode pos new_root =
     and_then (get_record (pool_host P) curr_bnode 0) (\<lambda>key.
       let gen_key = drop key curr_bnode; new_rec_len = key_len gen_key + INDEX_VALUE_SIZE in
       if is_node_full new_root gen_key then Ok new_root
       else
         and_then (insert_key_into_bnode (pool_host P) new_root gen_key new_rec_len pos) (\<lambda>(addr, new_root1).
         and_then (case get_value_pointer new_root1 addr of Ok v \<Rightarrow> Ok v | _ \<Rightarrow> Bug) (\<lambda>index_val.
           let new_root2 = wr 4 new_root1 index_val curr_id in
           case vdfs2_get_next_bnode P curr_bnode of
             Err e \<Rightarrow> (if e = ENOENT then Ok new_root2 else Err e)
           | Bug \<Rightarrow> Bug
           | Ok (next_id, next_bnode) \<Rightarrow> new_root_loop P fuel next_id next_bnode (pos + 1) new_root2)))"

definition VDFS2_NODE_INDEX :: nat where "VDFS2_NODE_INDEX = 1"

definition build_new_root :: "node_pool \<Rightarrow> nat \<Rightarrow> mem \<Rightarrow> ret \<times> node_pool \<times> mem" where
  "build_new_root P current_root_id m =
     (if current_root_id \<noteq> vdfs2_btree_get_root_id P then (Success, P, m)
      else
        (case kmem_alloc m of (ok, m1) \<Rightarrow>
           if \<not> ok then (Fail ENOMEM, P, m1)
           else
             (case pool_alloc P of
                (Err e, P1) \<Rightarrow> (Fail e, P1, m1)
              | (Bug, P1) \<Rightarrow> (Oops, P1, m1)
              | (Ok (rid, d), P1) \<Rightarrow>
                  (let leave = (\<lambda>r. case pool_destroy rid P1 of Ok P2 \<Rightarrow> (r, P2, m1) | _ \<Rightarrow> (Oops, P1, m1)) in
                   case init_new_node_descr (pool_host P1) d rid VDFS2_NODE_INDEX of
                     Ok new_root \<Rightarrow>
                       (case pool_get P1 (vdfs2_btree_get_root_id P1) of
                          Err e \<Rightarrow> leave (Fail e)
                        | Bug \<Rightarrow> (Oops, P1, m1)
                        | Ok curr_bnode \<Rightarrow>
                            if descr_next curr_bnode = 0 then leave Success
                            else
                              (case new_root_loop P1 (descr_free_space new_root + 1) (vdfs2_btree_get_root_id P1) curr_bnode 0 new_root of
                                 Err e \<Rightarrow> leave (Fail e)
                               | Bug \<Rightarrow> (Oops, P1, m1)
                               | Ok new_root' \<Rightarrow>
                                   (Success, vdfs2_btree_set_root_id rid (vdfs2_btree_inc_height (pool_put rid new_root' P1)), m1)))
                   | _ \<Rightarrow> (Oops, P1, m1)))))"

section \<open>Index records\<close>

definition place_index_record ::
  "(u8 list \<Rightarrow> u8 list \<Rightarrow> int) \<Rightarrow> node_pool \<Rightarrow> vdfs2_btree_traverse_stack list option \<Rightarrow> nat \<Rightarrow> nat \<Rightarrow>
     vdfs2_btree_todo_list list \<Rightarrow> mem \<Rightarrow> ret \<times> node_pool \<times> vdfs2_btree_todo_list list \<times> mem" where
  "place_index_record comp_fn P traverse_data point_to_bnode_id current_root_id todo m =
     (case traverse_data of
        None \<Rightarrow> (case build_new_root P current_root_id m of (r, P1, m1) \<Rightarrow> (r, P1, todo, m1))
      | Some [] \<Rightarrow> (Oops, P, todo, m)
      | Some (e # up) \<Rightarrow>
          (case and_then (pool_get P point_to_bnode_id) (\<lambda>point_to_bnode.
                and_then (get_record (pool_host P) point_to_bnode 0) (\<lambda>key.
                and_then (btree_traverse_level comp_fn P (drop key point_to_bnode) (st_bnode_id e)) (\<lambda>(bnode, pos).
                  Ok (drop key point_to_bnode, pos)))) of
             Err e \<Rightarrow> (Fail e, P, todo, m)
           | Bug \<Rightarrow> (Oops, P, todo, m)
           | Ok (gen_key, pos) \<Rightarrow>
               (case place_key_in_bnode comp_fn P (e # up) (st_bnode_id e) pos gen_key (key_len gen_key + INDEX_VALUE_SIZE) todo m of
                  (Err e, P1, todo1, m1) \<Rightarrow> (Fail e, P1, todo1, m1)
                | (Bug, P1, todo1, m1) \<Rightarrow> (Oops, P1, todo1, m1)
                | (Ok gen_record, P1, todo1, m1) \<Rightarrow>
                    (case rec_val gen_record of
                       Ok index_val \<Rightarrow>
                         (Success, pool_put (rec_bnode_id gen_record)
                            (wr 4 (the (pool_nodes P1 (rec_bnode_id gen_record))) index_val point_to_bnode_id) P1, todo1, m1)
                     | _ \<Rightarrow> (Oops, P1, todo1, m1)))))"

text \<open>
  The loop over the pending work. An index record adds at most one piece of work, for the
  level above, so a number of steps that exceeds the number of levels by two is enough.
  Errors are only printed; a stop of the kernel is not an error.
\<close>

fun do_index_work ::
  "(u8 list \<Rightarrow> u8 list \<Rightarrow> int) \<Rightarrow> nat \<Rightarrow> node_pool \<Rightarrow> vdfs2_btree_todo_list list \<Rightarrow> mem \<Rightarrow> ret \<times> node_pool \<times> mem" where
  "do_index_work comp_fn fuel P [] m = (Success, P, m)"
| "do_index_work comp_fn 0 P (task # todo) m = (Oops, P, m)"
| "do_index_work comp_fn (Suc fuel) P (task # todo) m =
     (case place_index_record comp_fn P (td_traverse_data task) (td_point_to_bnode_id task) (td_current_root_id task) todo m of
        (Oops, P1, todo1, m1) \<Rightarrow> (Oops, P1, m1)
      | (_, P1, todo1, m1) \<Rightarrow> do_index_work comp_fn fuel P1 todo1 m1)"

section \<open>Adding a record\<close>

definition place_data_at_level ::
  "(u8 list \<Rightarrow> u8 list \<Rightarrow> int) \<Rightarrow> node_pool \<Rightarrow> u8 list \<Rightarrow> nat \<Rightarrow> mem \<Rightarrow> vdfs2_btree_record_info result \<times> node_pool \<times> mem" where
  "place_data_at_level comp_fn P gen_key level m =
     (case vdfs2_btree_traverse comp_fn P gen_key True level m of
        (Err e, m1) \<Rightarrow> (Err e, P, m1)
      | (Bug, m1) \<Rightarrow> (Bug, P, m1)
      | (Ok (nid, bnode, pos, traverse_stack), m1) \<Rightarrow>
          (case place_key_in_bnode comp_fn P traverse_stack nid pos gen_key (record_len gen_key) [] m1 of
             (Bug, P1, todo, m2) \<Rightarrow> (Bug, P1, m2)
           | (record, P1, todo, m2) \<Rightarrow>
               (case do_index_work comp_fn (length traverse_stack + 2) P1 todo m2 of
                  (Oops, P2, m3) \<Rightarrow> (Bug, P2, m3)
                | (_, P2, m3) \<Rightarrow> (record, P2, m3))))"

definition vdfs2_btree_place_data ::
  "(u8 list \<Rightarrow> u8 list \<Rightarrow> int) \<Rightarrow> node_pool \<Rightarrow> u8 list \<Rightarrow> mem \<Rightarrow> vdfs2_btree_record_info result \<times> node_pool \<times> mem" where
  "vdfs2_btree_place_data comp_fn P gen_key m = place_data_at_level comp_fn P gen_key VDFS2_BTREE_LEAF_LVL m"

text \<open>The value is copied after the record was placed and the index records were added.\<close>

definition btree_insert_at_level ::
  "(u8 list \<Rightarrow> u8 list \<Rightarrow> int) \<Rightarrow> node_pool \<Rightarrow> u8 list \<Rightarrow> nat \<Rightarrow> mem \<Rightarrow> ret \<times> node_pool \<times> mem" where
  "btree_insert_at_level comp_fn P new_data level m =
     (case place_data_at_level comp_fn P new_data level m of
        (Err e, P1, m1) \<Rightarrow> (Fail e, P1, m1)
      | (Bug, P1, m1) \<Rightarrow> (Oops, P1, m1)
      | (Ok record, P1, m1) \<Rightarrow>
          (case (rec_val record, get_value_pointer new_data 0) of
             (Ok val, Ok src) \<Rightarrow>
               if record_len new_data < key_len new_data \<or> length new_data < record_len new_data then (Oops, P1, m1)
               else
                 (Success, pool_put (rec_bnode_id record)
                    (put (the (pool_nodes P1 (rec_bnode_id record))) val (rng new_data src (record_len new_data - key_len new_data))) P1, m1)
           | _ \<Rightarrow> (Oops, P1, m1)))"

definition vdfs2_btree_insert ::
  "(u8 list \<Rightarrow> u8 list \<Rightarrow> int) \<Rightarrow> node_pool \<Rightarrow> u8 list \<Rightarrow> mem \<Rightarrow> ret \<times> node_pool \<times> mem" where
  "vdfs2_btree_insert comp_fn P new_data m = btree_insert_at_level comp_fn P new_data VDFS2_BTREE_LEAF_LVL m"

end
