(* ===== verification/Btree_Remove.thy ===== *)
theory Btree_Remove
  imports Btree_Insert
begin

text \<open>
  Removing a record from a tree, \<^verbatim>\<open>btree.c\<close>: the record is deleted from its node; an empty
  node is taken out of its level and destroyed; when the first record of a node changed, the
  index record above is replaced; a node with much free space is merged with a neighbour under
  the same parent; a root with one record gives way to its only child.

  When a node cannot be changed for a bad offset while the volume is being mounted, the
  model keeps its old bytes.
\<close>

section \<open>Replacing an index record\<close>

text \<open>
  \<^verbatim>\<open>point_to\<close> is given by its number and bytes. Each call goes one level up; an insertion adds
  at most one level to the tree, so two steps more than the height are enough fuel.
\<close>

fun btree_update_key ::
  "(u8 list \<Rightarrow> u8 list \<Rightarrow> int) \<Rightarrow> nat \<Rightarrow> node_pool \<Rightarrow> u8 list \<Rightarrow> nat \<Rightarrow> u8 list \<Rightarrow> nat \<Rightarrow> mem \<Rightarrow> u8 list result \<times> node_pool \<times> mem" where
  "btree_update_key comp_fn 0 P key point_id point_to level m = (Bug, P, m)"
| "btree_update_key comp_fn (Suc fuel) P key point_id point_to level m =
     (case kmem_alloc m of (ok, m1) \<Rightarrow>
        if \<not> ok then (Err ENOMEM, P, m1)
        else
          (case form_new_adding_record (pool_host P) point_to point_id of
             Ok new_data \<Rightarrow>
               (case btree_insert_at_level comp_fn P new_data level m1 of
                  (Fail e, P1, m2) \<Rightarrow> (Err e, P1, m2)
                | (Oops, P1, m2) \<Rightarrow> (Bug, P1, m2)
                | (Success, P1, m2) \<Rightarrow>
                    (case vdfs2_btree_traverse comp_fn P1 key False level m2 of
                       (Err e, m3) \<Rightarrow> (Err EINVAL, P1, m3)
                     | (Bug, m3) \<Rightarrow> (Bug, P1, m3)
                     | (Ok (nid, bnode, pos, _), m3) \<Rightarrow>
                         (case get_record (pool_host P1) bnode (nat pos) of
                            Err e \<Rightarrow> (Err e, P1, m3)
                          | Bug \<Rightarrow> (Bug, P1, m3)
                          | Ok found_key \<Rightarrow>
                              if comp_fn key (drop found_key bnode) \<noteq> 0 then (Ok new_data, P1, m3)
                              else
                                (case delete_from_node (pool_host P1) bnode (nat pos) of
                                   Err e \<Rightarrow> (Err e, P1, m3)
                                 | Bug \<Rightarrow> (Bug, P1, m3)
                                 | Ok bnode' \<Rightarrow>
                                     (let P2 = pool_put nid bnode' P1 in
                                      if pos = 0 \<and> level < vdfs2_btree_get_height P2 then
                                        (case btree_update_key comp_fn fuel P2 key nid bnode' (level + 1) m3 of
                                           (Err e, P3, m4) \<Rightarrow> (Err e, P3, m4)
                                         | (Bug, P3, m4) \<Rightarrow> (Bug, P3, m4)
                                         | (Ok _, P3, m4) \<Rightarrow> (Ok new_data, P3, m4))
                                      else (Ok new_data, P2, m3))))))
           | _ \<Rightarrow> (Bug, P, m1)))"

section \<open>Merging two nodes\<close>

text \<open>The loop that sets the offsets of the records that came from the right node, and the end of the last.\<close>

fun merge_offsets :: "node_host \<Rightarrow> u8 list \<Rightarrow> u8 list \<Rightarrow> nat \<Rightarrow> nat \<Rightarrow> nat \<Rightarrow> nat \<Rightarrow> u8 list result" where
  "merge_offsets h left right count start_offset i 0 = Ok left"
| "merge_offsets h left right count start_offset i (Suc n) =
     and_then (vdfs2_get_offset h right i) (\<lambda>offset.
     and_then (check_set_offset h left (i + count) (sub32 (start_offset + offset) DESCR_SIZE)) (\<lambda>left'.
       merge_offsets h left' right count start_offset (i + 1) n))"

text \<open>The bytes of the left node with the records of the right one behind its own.\<close>

definition merge_bytes :: "node_host \<Rightarrow> u8 list \<Rightarrow> u8 list \<Rightarrow> u8 list result" where
  "merge_bytes h left right =
     and_then (check_bnode_offset_area h left) (\<lambda>l_ok.
     and_then (if l_ok then check_bnode_offset_area h right else Ok False) (\<lambda>r_ok.
       if \<not> r_ok then fault h
       else
         (let l_count = descr_recs_count left; r_count = descr_recs_count right in
          and_then (vdfs2_get_offset_addr h l_count) (\<lambda>l_free_space_addr.
          and_then (vdfs2_get_offset h right r_count) (\<lambda>r_end.
            let left_free_space = rd 4 left l_free_space_addr; len = sub32 r_end DESCR_SIZE in
            if length left < left_free_space + len \<or> length right < DESCR_SIZE + len then Bug
            else
              (let left1 = put left left_free_space (rng right DESCR_SIZE len) in
               and_then (vdfs2_get_offset h left1 l_count) (\<lambda>start_offset.
               and_then (merge_offsets h left1 right l_count start_offset 0 (r_count + 1)) (\<lambda>left2.
                 Ok (set_next (descr_next right)
                       (set_recs_count (l_count + r_count)
                          (set_free_space (sub32 (descr_free_space left2) (len + r_count * OFF_SIZE)) left2)))))))))))"

text \<open>The index record of the right node is removed by the caller's removal function, one level higher.\<close>

type_synonym remove_fn = "node_pool \<Rightarrow> u8 list \<Rightarrow> nat \<Rightarrow> mem \<Rightarrow> ret \<times> node_pool \<times> mem"

text \<open>
  The key of the right node's first record, in a buffer of its own. Setting the record
  length in a buffer shorter than the general key would write outside of it.
\<close>

definition right_key :: "node_host \<Rightarrow> u8 list \<Rightarrow> u8 list result" where
  "right_key h right =
     and_then (get_record h right 0) (\<lambda>record.
       let len = rd 4 right (record + 4) in
       if len < GEN_KEY_SIZE \<or> length right < record + len then Bug
       else Ok (wr 4 (rng right record len) 8 (len + INDEX_VALUE_SIZE)))"

text \<open>
  When the node behind the right one cannot be read, the code returns the pointer to the right
  node as if it were an error number; the model takes this as a stop.
\<close>

definition btree_merge ::
  "remove_fn \<Rightarrow> node_pool \<Rightarrow> nat \<Rightarrow> nat \<Rightarrow> nat \<Rightarrow> bool \<Rightarrow> mem \<Rightarrow> ret \<times> node_pool \<times> mem" where
  "btree_merge remove P left_id right_id level is_right_dangling m =
     (case and_then (pool_get P left_id) (\<lambda>left. and_then (pool_get P right_id) (\<lambda>right.
             and_then (merge_bytes (pool_host P) left right) (\<lambda>left'. Ok (left', right)))) of
        Err e \<Rightarrow> (Fail e, P, m)
      | Bug \<Rightarrow> (Oops, P, m)
      | Ok (left', right) \<Rightarrow>
          (let P1 = pool_put left_id left' P in
           case (if descr_next right = 0 then Ok P1
                 else and_then (pool_get P1 (descr_next right)) (\<lambda>next_bnode.
                        Ok (pool_put (descr_next right) (set_prev (descr_node_id left') next_bnode) P1))) of
             Ok P2 \<Rightarrow>
               (let finish = (\<lambda>P3 m3. case pool_destroy right_id P3 of
                      Ok P4 \<Rightarrow> (Success, P4, m3) | Err e \<Rightarrow> (Fail e, P3, m3) | Bug \<Rightarrow> (Oops, P3, m3)) in
                if is_right_dangling then finish P2 m
                else
                  (case right_key (pool_host P) right of
                     Err e \<Rightarrow> (Fail e, P2, m)
                   | Bug \<Rightarrow> (Oops, P2, m)
                   | Ok key \<Rightarrow>
                       (case kmem_alloc m of (ok, m1) \<Rightarrow>
                          if \<not> ok then (Fail ENOMEM, P2, m1)
                          else
                            (case remove P2 key (level + 1) m1 of
                               (Success, P3, m2) \<Rightarrow> finish P3 m2
                             | (r, P3, m2) \<Rightarrow> (r, P3, m2)))))
           | _ \<Rightarrow> (Oops, P1, m)))"

section \<open>Choosing the neighbour\<close>

text \<open>Neither a bad position nor a bad value is checked for before it is used.\<close>

definition is_bnode_dangling :: "node_host \<Rightarrow> u8 list \<Rightarrow> nat \<Rightarrow> nat \<Rightarrow> bool result" where
  "is_bnode_dangling h parent pos bnode_id =
     (case get_record h parent pos of
        Ok record \<Rightarrow> (case get_value_pointer parent record of Ok value \<Rightarrow> Ok (rd 4 parent value \<noteq> bnode_id) | _ \<Rightarrow> Bug)
      | _ \<Rightarrow> Bug)"

text \<open>The first step: whether to merge with the node before, and whether the right one of the two is dangling; None is no merge.\<close>

definition merge_direction ::
  "(u8 list \<Rightarrow> u8 list \<Rightarrow> int) \<Rightarrow> node_pool \<Rightarrow> u8 list \<Rightarrow> nat \<Rightarrow> nat \<Rightarrow> u8 list \<Rightarrow> mem \<Rightarrow> (bool \<times> bool) option result \<times> mem" where
  "merge_direction comp_fn P key level bnode_id cur m =
     (if level = vdfs2_btree_get_height P then
        (Ok (if descr_prev cur \<noteq> 0 then Some (True, True)
             else if descr_next cur \<noteq> 0 then Some (False, True) else None), m)
      else
        (case vdfs2_btree_traverse comp_fn P key False (level + 1) m of
           (Err e, m1) \<Rightarrow> (Err e, m1)
         | (Bug, m1) \<Rightarrow> (Bug, m1)
         | (Ok (parent_id, parent, pos, _), m1) \<Rightarrow>
             (if 0 < pos then
                and_then (is_bnode_dangling (pool_host P) parent (nat pos) bnode_id) (\<lambda>d. Ok (Some (True, d)))
              else if pos < int (descr_recs_count parent) - 1 then
                and_then (is_bnode_dangling (pool_host P) parent (nat (pos + 1)) (descr_next cur)) (\<lambda>d. Ok (Some (False, d)))
              else Ok None, m1)))"

definition rebalance ::
  "(u8 list \<Rightarrow> u8 list \<Rightarrow> int) \<Rightarrow> remove_fn \<Rightarrow> node_pool \<Rightarrow> u8 list \<Rightarrow> nat \<Rightarrow> nat \<Rightarrow> nat \<Rightarrow> mem \<Rightarrow> ret \<times> node_pool \<times> mem" where
  "rebalance comp_fn remove P key level bnode_id bnode_free_space m =
     (case pool_get P bnode_id of
        Err e \<Rightarrow> (Fail e, P, m)
      | Bug \<Rightarrow> (Oops, P, m)
      | Ok cur \<Rightarrow>
          (case merge_direction comp_fn P key level bnode_id cur m of
             (Err e, m1) \<Rightarrow> (Fail e, P, m1)
           | (Bug, m1) \<Rightarrow> (Oops, P, m1)
           | (Ok None, m1) \<Rightarrow> (Success, P, m1)
           | (Ok (Some (merge_with_prev, is_right_dangling)), m1) \<Rightarrow>
               (let neigh_id = (if merge_with_prev then descr_prev cur else descr_next cur);
                    left_id = (if merge_with_prev then neigh_id else descr_node_id cur);
                    right_id = (if merge_with_prev then descr_node_id cur else neigh_id) in
                case pool_get P neigh_id of
                  Err e \<Rightarrow> (Fail e, P, m1)
                | Bug \<Rightarrow> (Oops, P, m1)
                | Ok neigh \<Rightarrow>
                    if node_size_bytes (pool_host P) \<le> (bnode_free_space + descr_free_space neigh) mod 2 ^ 32
                    then btree_merge remove P left_id right_id level is_right_dangling m1
                    else (Success, P, m1))))"

section \<open>Removing a record\<close>

text \<open>The neighbours of an empty node are linked to each other; one that cannot be read stops the kernel.\<close>

definition unlink_bnode :: "u8 list \<Rightarrow> node_pool \<Rightarrow> node_pool result" where
  "unlink_bnode node P =
     (case (if descr_prev node = 0 then Ok P
            else and_then (pool_get P (descr_prev node)) (\<lambda>prev_bnode.
                   Ok (pool_put (descr_prev node) (set_next (descr_next node) prev_bnode) P))) of
        Ok P1 \<Rightarrow>
          (case (if descr_next node = 0 then Ok P1
                 else and_then (pool_get P1 (descr_next node)) (\<lambda>next_bnode.
                        Ok (pool_put (descr_next node) (set_prev (descr_prev node) next_bnode) P1))) of
             Ok P2 \<Rightarrow> Ok P2 | _ \<Rightarrow> Bug)
      | _ \<Rightarrow> Bug)"

definition get_child_bnode :: "node_pool \<Rightarrow> u8 list \<Rightarrow> nat result \<Rightarrow> nat result" where
  "get_child_bnode P bnode record =
     and_then record (\<lambda>key.
       let value = key + rd 4 bnode (key + 4) in
       if length bnode < value + INDEX_VALUE_SIZE then Bug
       else if rd 4 bnode value = 0 then fault (pool_host P)
       else and_then (pool_get P (rd 4 bnode value)) (\<lambda>child. Ok (rd 4 bnode value)))"

text \<open>The root has one record left: its only child is the new root.\<close>

definition drop_root :: "node_pool \<Rightarrow> nat \<Rightarrow> u8 list \<Rightarrow> ret \<times> node_pool" where
  "drop_root P nid node =
     (if vdfs2_btree_get_height P \<le> 1 then (Success, P)
      else
        (case get_child_bnode P node (get_record (pool_host P) node 0) of
           Err e \<Rightarrow> (Fail e, P)
         | Bug \<Rightarrow> (Oops, P)
         | Ok child_id \<Rightarrow>
             (case and_then (vdfs2_btree_dec_height (vdfs2_btree_set_root_id child_id P)) (pool_destroy nid) of
                Ok P1 \<Rightarrow> (Success, P1) | Err e \<Rightarrow> (Fail e, P) | Bug \<Rightarrow> (Oops, P))))"

text \<open>
  \<^verbatim>\<open>__vdfs2_btree_remove\<close>. Each nested call goes one level up; replacing an index record adds
  at most one level, so two steps more than the height are enough fuel. After an empty node
  was destroyed its number is read once more from the freed memory; the model reads the number.
\<close>

fun btree_remove ::
  "(u8 list \<Rightarrow> u8 list \<Rightarrow> int) \<Rightarrow> nat \<Rightarrow> node_pool \<Rightarrow> u8 list \<Rightarrow> nat \<Rightarrow> mem \<Rightarrow> ret \<times> node_pool \<times> mem" where
  "btree_remove comp_fn 0 P key level m = (Oops, P, m)"
| "btree_remove comp_fn (Suc fuel) P key level m =
     (if vdfs2_btree_get_height P < level then (Oops, P, m)
      else
        (case vdfs2_btree_traverse comp_fn P key False level m of
           (Err e, m1) \<Rightarrow> (Fail e, P, m1)
         | (Bug, m1) \<Rightarrow> (Oops, P, m1)
         | (Ok (nid, bnode, pos, _), m1) \<Rightarrow>
             (case get_record (pool_host P) bnode (nat pos) of
                Err e \<Rightarrow> (Fail e, P, m1)
              | Bug \<Rightarrow> (Oops, P, m1)
              | Ok record \<Rightarrow>
                  if comp_fn key (drop record bnode) \<noteq> 0 then (Fail ENOENT, P, m1)
                  else
                    (case delete_from_node (pool_host P) bnode (nat pos) of
                       Err e \<Rightarrow> (Fail e, P, m1)
                     | Bug \<Rightarrow> (Oops, P, m1)
                     | Ok node \<Rightarrow>
                         (let P1 = pool_put nid node P in
                          if descr_recs_count node = 0 then
                            (case and_then (unlink_bnode node P1) (pool_destroy nid) of
                               Ok P2 \<Rightarrow>
                                 if nid = vdfs2_btree_get_root_id P2 then (Oops, P2, m1)
                                 else if level \<noteq> vdfs2_btree_get_height P2 then
                                   (case btree_remove comp_fn fuel P2 key (level + 1) m1 of
                                      (Fail e, P3, m2) \<Rightarrow> (if e = ENOENT then Success else Fail e, P3, m2)
                                    | (r, P3, m2) \<Rightarrow> (r, P3, m2))
                                 else (Success, P2, m1)
                             | _ \<Rightarrow> (Oops, P1, m1))
                          else
                            (case (if pos = 0 \<and> level < vdfs2_btree_get_height P1
                                   then btree_update_key comp_fn (vdfs2_btree_get_height P1 + 2) P1 key nid node (level + 1) m1
                                   else (Ok key, P1, m1)) of
                               (Err e, P2, m2) \<Rightarrow> (Fail e, P2, m2)
                             | (Bug, P2, m2) \<Rightarrow> (Oops, P2, m2)
                             | (Ok key', P2, m2) \<Rightarrow>
                                 (let node' = the (pool_nodes P2 nid) in
                                  if node_size_bytes (pool_host P2) div 3 < descr_free_space node' then
                                    if nid \<noteq> vdfs2_btree_get_root_id P2 then
                                      (case rebalance comp_fn (btree_remove comp_fn fuel) P2 key' level nid (descr_free_space node') m2 of
                                         (Fail e, P3, m3) \<Rightarrow> (if mount_finished (pool_host P2) then (Oops, P3, m3) else (Fail e, P3, m3))
                                       | (r, P3, m3) \<Rightarrow> (r, P3, m3))
                                    else if descr_recs_count node' = 1 then
                                      (case drop_root P2 nid node' of (r, P3) \<Rightarrow> (r, P3, m2))
                                    else (Success, P2, m2)
                                  else (Success, P2, m2))))))))"

definition vdfs2_btree_remove ::
  "(u8 list \<Rightarrow> u8 list \<Rightarrow> int) \<Rightarrow> node_pool \<Rightarrow> u8 list \<Rightarrow> mem \<Rightarrow> ret \<times> node_pool \<times> mem" where
  "vdfs2_btree_remove comp_fn P key m = btree_remove comp_fn (vdfs2_btree_get_height P + 2) P key 1 m"

end
