(* ===== verification/Btree_Level.thy ===== *)
theory Btree_Level
  imports Btree_Insert Btree_Find Btree_Split_Inv
begin

text \<open>
  One level of a tree as a doubly linked chain of nodes with sorted records, and what adding
  a record, splitting a node and writing a value do to it. The chain form makes it easy to
  change one node and its neighbours; it implies the form by index that the search uses.
\<close>

section \<open>Nodes of a level\<close>

text \<open>
  A record has its whole key in the part the key length gives, room for a node number behind
  it, takes less than half a node, and is not longer than the limits for records.
\<close>

definition rec_fits :: "(u8 list \<Rightarrow> bool) \<Rightarrow> node_host \<Rightarrow> u8 list \<Rightarrow> bool" where
  "rec_fits key_ok h r \<longleftrightarrow>
     key_ok (take (key_len r) r) \<and> key_len r \<le> VDFS2_MAX_BTREE_KEY_LEN \<and> key_len r + INDEX_VALUE_SIZE \<le> length r \<and>
     length r + 40 \<le> node_size_bytes h div 2 \<and> length r \<le> max_record_len h \<and> length r \<le> VDFS2_MAX_BTREE_REC_LEN"

definition good_node ::
  "(u8 list \<Rightarrow> bool) \<Rightarrow> node_pool \<Rightarrow> (nat \<Rightarrow> u8 list list) \<Rightarrow> nat \<Rightarrow> nat \<Rightarrow> nat \<Rightarrow> bool" where
  "good_node key_ok P recs pv x nx \<longleftrightarrow>
     x \<noteq> 0 \<and> x < 2 ^ 32 \<and> recs x \<noteq> [] \<and> (\<forall>r\<in>set (recs x). rec_fits key_ok (pool_host P) r) \<and>
     (\<exists>d. pool_get P x = Ok d \<and> node_ok (pool_host P) d (recs x) \<and> descr_prev d = pv \<and> descr_next d = nx \<and> descr_node_id d = x)"

definition first_or :: "nat \<Rightarrow> nat list \<Rightarrow> nat" where
  "first_or n xs = (case xs of [] \<Rightarrow> n | y # ys \<Rightarrow> y)"

definition last_or :: "nat \<Rightarrow> nat list \<Rightarrow> nat" where
  "last_or n xs = (if xs = [] then n else last xs)"

lemma first_last_or [simp]:
  "first_or n [] = n" "first_or n (x # xs) = x" "last_or n [] = n" "last_or n (xs @ [x]) = x" "last_or n (x # xs) = last_or x xs"
  by (simp_all add: first_or_def last_or_def)

lemma first_or_append [simp]: "first_or n (xs @ ys) = first_or (first_or n ys) xs"
  by (cases xs) simp_all

fun chain ::
  "(u8 list \<Rightarrow> bool) \<Rightarrow> node_pool \<Rightarrow> (nat \<Rightarrow> u8 list list) \<Rightarrow> nat \<Rightarrow> nat \<Rightarrow> nat list \<Rightarrow> bool" where
  "chain key_ok P recs pv nx [] = True"
| "chain key_ok P recs pv nx (x # xs) =
     (good_node key_ok P recs pv x (first_or nx xs) \<and> chain key_ok P recs x nx xs)"

lemma chain_append:
  "chain key_ok P recs pv nx (xs @ ys) \<longleftrightarrow>
   chain key_ok P recs pv (first_or nx ys) xs \<and> chain key_ok P recs (last_or pv xs) nx ys"
  by (induction xs arbitrary: pv) auto

lemma chain_good: "chain key_ok P recs pv nx xs \<Longrightarrow> x \<in> set xs \<Longrightarrow> \<exists>a b. good_node key_ok P recs a x b"
  by (induction xs arbitrary: pv) auto

lemma chain_nth:
  "chain key_ok P recs pv nx xs \<Longrightarrow> i < length xs \<Longrightarrow>
   \<exists>a. good_node key_ok P recs a (xs ! i) (if i + 1 < length xs then xs ! (i + 1) else nx)"
proof (induction xs arbitrary: i pv)
  case (Cons x xs)
  show ?case
  proof (cases i)
    case 0
    then show ?thesis using Cons.prems by (cases xs) auto
  next
    case (Suc j)
    then show ?thesis using Cons.IH [of x j] Cons.prems by (auto split: if_splits)
  qed
qed simp

lemma good_node_cong:
  assumes "pool_host P' = pool_host P" "pool_get P' x = pool_get P x" "recs' x = recs x"
  shows "good_node key_ok P' recs' pv x nx = good_node key_ok P recs pv x nx"
  using assms by (simp add: good_node_def)

lemma chain_cong:
  assumes "pool_host P' = pool_host P" "\<And>x. x \<in> set xs \<Longrightarrow> pool_get P' x = pool_get P x" "\<And>x. x \<in> set xs \<Longrightarrow> recs' x = recs x"
  shows "chain key_ok P' recs' pv nx xs = chain key_ok P recs pv nx xs"
  using assms(2,3)
proof (induction xs arbitrary: pv)
  case (Cons x xs)
  then show ?case using good_node_cong [OF assms(1), of x recs' recs] by simp
qed simp

text \<open>A level: distinct nodes, linked both ways, sorted.\<close>

definition lvl ::
  "(u8 list \<Rightarrow> bool) \<Rightarrow> (u8 list \<Rightarrow> 'k::linorder) \<Rightarrow> node_pool \<Rightarrow> (nat \<Rightarrow> u8 list list) \<Rightarrow> nat list \<Rightarrow> bool" where
  "lvl key_ok rank P recs ns \<longleftrightarrow>
     ns \<noteq> [] \<and> distinct ns \<and> sorted_less (map rank (concat (map recs ns))) \<and> chain key_ok P recs 0 0 ns"

lemma lvl_cong:
  assumes "pool_host P' = pool_host P" "\<And>x. x \<in> set xs \<Longrightarrow> pool_get P' x = pool_get P x" "\<And>x. x \<in> set xs \<Longrightarrow> recs' x = recs x"
  shows "lvl key_ok rank P' recs' xs = lvl key_ok rank P recs xs"
proof -
  have "map recs' xs = map recs xs" using assms(3) by simp
  moreover have "chain key_ok P' recs' 0 0 xs = chain key_ok P recs 0 0 xs" by (rule chain_cong [OF assms])
  ultimately show ?thesis by (simp only: lvl_def)
qed

context stored_keys
begin

lemma rec_fits_key:
  assumes "rec_fits key_ok h r"
  shows "key_ok r" "rank r = rank (take (key_len r) r)" "12 \<le> key_len r" "key_len r \<le> length r"
proof -
  have k: "key_ok (take (key_len r) r)" using assms by (simp add: rec_fits_def)
  show "key_ok r" "rank r = rank (take (key_len r) r)"
    using ok_append [OF k, of "drop (key_len r) r"] rank_append [OF k, of "drop (key_len r) r"] by simp_all
  show "key_len r \<le> length r" using assms by (simp add: rec_fits_def)
  then show "12 \<le> key_len r" using ok_length [OF k] by simp
qed

lemma lvl_level_ok: "lvl key_ok rank P recs ns \<Longrightarrow> level_ok key_ok rank P recs ns"
  unfolding level_ok_def lvl_def
proof (elim conjE, intro conjI allI impI)
  fix i assume c: "chain key_ok P recs 0 0 ns" and i: "i < length ns"
  from chain_nth [OF this] obtain a where g: "good_node key_ok P recs a (ns ! i) (if i + 1 < length ns then ns ! (i + 1) else 0)" by blast
  then show "ns ! i \<noteq> 0" "recs (ns ! i) \<noteq> []" by (simp_all add: good_node_def)
  show "\<forall>r\<in>set (recs (ns ! i)). key_ok r \<and> key_len r \<le> VDFS2_MAX_BTREE_KEY_LEN"
  proof
    fix r assume "r \<in> set (recs (ns ! i))"
    then have f: "rec_fits key_ok (pool_host P) r" using g by (simp add: good_node_def)
    then show "key_ok r \<and> key_len r \<le> VDFS2_MAX_BTREE_KEY_LEN" using rec_fits_key(1) [OF f] by (simp add: rec_fits_def)
  qed
  show "\<exists>d. pool_get P (ns ! i) = Ok d \<and> node_ok (pool_host P) d (recs (ns ! i)) \<and>
      descr_next d = (if i + 1 < length ns then ns ! (i + 1) else 0)"
    using g unfolding good_node_def by blast
qed

end

section \<open>Writing into the value of a record\<close>

lemma put_in_record:
  assumes "o1 + length r \<le> length d" "rng d o1 (length r) = r" "k + length bs \<le> length r"
  shows "rng (put d (o1 + k) bs) o1 (length r) = put r k bs"
proof (rule nth_equalityI)
  show "length (rng (put d (o1 + k) bs) o1 (length r)) = length (put r k bs)" using assms by simp
  fix i assume "i < length (rng (put d (o1 + k) bs) o1 (length r))"
  then have i: "i < length r" using assms by simp
  have "d ! (o1 + i) = r ! i" using assms(1,2) i nth_rng [of o1 "length r" d i] by simp
  then show "rng (put d (o1 + k) bs) o1 (length r) ! i = put r k bs ! i"
    using assms i by (simp add: nth_put)
qed

lemma node_ok_value:
  assumes ok: "node_ok h d rs" and q: "q < length rs" and k: "12 \<le> k" "k + length bs \<le> length (rs ! q)"
  defines "d' \<equiv> put d (off h d q + k) bs"
  shows "node_ok h d' (rs[q := put (rs ! q) k bs])" "rng d' 16 13 = rng d 16 13" "\<And>i. i \<le> length rs \<Longrightarrow> off h d' i = off h d i"
proof -
  note n = node_okD [OF ok]
  let ?r = "rs ! q" and ?p = "off h d q + k"
  have b: "29 \<le> off h d q" "off h d q + length ?r \<le> recs_end rs" using n(8,9) [OF q] by simp_all
  have len: "length d' = length d" and pb: "?p + length bs \<le> recs_end rs" "recs_end rs \<le> length d"
    using b k n(1,3) by (simp_all add: d'_def)
  show o: "off h d' i = off h d i" if "i \<le> length rs" for i
    unfolding d'_def using node_slot(1,2) [OF ok that] pb n(1) by (intro off_put_low) auto
  show "rng d' 16 13 = rng d 16 13" unfolding d'_def using b pb by (intro rng_put_other) auto
  have fld: "descr_recs_count d' = descr_recs_count d" "descr_free_space d' = descr_free_space d"
    unfolding d'_def descr_defs using b pb by (simp_all add: rd_put_other)
  have lr: "length (put ?r k bs) = length ?r" using k by simp
  have rl: "length (rs[q := put ?r k bs] ! i) = length (rs ! i)" if "i < length rs" for i
    using that lr by (cases "i = q") simp_all
  have re: "recs_end (rs[q := put ?r k bs]) = recs_end rs"
    using lr q list_update_id [of "map length rs" q] by (simp add: recs_end_def map_update)
  have rec_q: "record_ok (put ?r k bs)"
    using n(7) [OF q] lr k by (simp add: record_ok_def record_len_def rd_put_other)
  have byt: "rng d' (off h d i) (length (rs ! i)) = rs[q := put ?r k bs] ! i" if i: "i < length rs" for i
  proof (cases "i = q")
    case True
    then show ?thesis using put_in_record [of "off h d q" ?r d k bs] b pb k n(10) [OF q] q by (simp add: d'_def)
  next
    case False
    have "rng d' (off h d i) (length (rs ! i)) = rng d (off h d i) (length (rs ! i))"
      unfolding d'_def using n(9) [OF i] n(11) [OF i q False] k pb by (intro rng_put_other) auto
    then show ?thesis using n(10) [OF i] False by simp
  qed
  show "node_ok h d' (rs[q := put ?r k bs])"
    unfolding node_ok_def
  proof (intro conjI allI impI)
    fix i assume "i < length (rs[q := put ?r k bs])"
    then have i: "i < length rs" by simp
    have oi: "off h d' i = off h d i" using o i by simp
    show "record_ok (rs[q := put ?r k bs] ! i)" using n(7) [OF i] rec_q i by (cases "i = q") simp_all
    show "29 \<le> off h d' i" "off h d' i + length (rs[q := put ?r k bs] ! i) \<le> recs_end (rs[q := put ?r k bs])"
      "rng d' (off h d' i) (length (rs[q := put ?r k bs] ! i)) = rs[q := put ?r k bs] ! i"
      unfolding oi rl [OF i] re using n(8,9) [OF i] byt [OF i] by simp_all
    fix j assume "j < length (rs[q := put ?r k bs])" "i \<noteq> j"
    then have j: "j < length rs" "i \<noteq> j" by simp_all
    have oj: "off h d' j = off h d j" using o j by simp
    show "off h d' i + length (rs[q := put ?r k bs] ! i) \<le> off h d' j \<or> off h d' j + length (rs[q := put ?r k bs] ! j) \<le> off h d' i"
      unfolding oi oj rl [OF i] rl [OF j(1)] using n(11) [OF i j] .
  qed (use n len fld re o [of "length rs"] in simp_all)
qed

section \<open>A pool with room\<close>

text \<open>Every node can be read, \<open>n\<close> numbers are unused, and the head node is there.\<close>

definition roomy :: "node_pool \<Rightarrow> nat \<Rightarrow> bool" where
  "roomy P n \<longleftrightarrow>
     unreadable P = Map.empty \<and> reserve_ret P = Success \<and> node_limit P \<le> 2 ^ 32 \<and>
     (\<forall>i. length (page_bytes P i) = node_size_bytes (pool_host P)) \<and>
     (\<exists>d. pool_nodes P 0 = Some d \<and> 18 \<le> length d) \<and> n \<le> length (free_ids P)"

lemma pool_put_simps [simp]:
  "pool_host (pool_put x d P) = pool_host P" "pool_nodes (pool_put x d P) = (pool_nodes P)(x \<mapsto> d)"
  "unreadable (pool_put x d P) = unreadable P" "node_limit (pool_put x d P) = node_limit P"
  "page_bytes (pool_put x d P) = page_bytes P" "reserve_ret (pool_put x d P) = reserve_ret P"
  by (simp_all add: pool_put_def)

lemma pool_get_roomy:
  "roomy P n \<Longrightarrow> pool_get P x = (case pool_nodes P x of None \<Rightarrow> Err ENOENT | Some d \<Rightarrow> Ok d)"
  by (simp add: roomy_def pool_get_def)

lemma pool_get_Ok: "roomy P n \<Longrightarrow> pool_get P x = Ok d \<longleftrightarrow> pool_nodes P x = Some d"
  by (simp add: pool_get_roomy split: option.splits)

lemma pool_get_put: "unreadable P x = None \<Longrightarrow> pool_get (pool_put x d P) x = Ok d"
  by (simp add: pool_get_def)

lemma pool_get_put_other: "y \<noteq> x \<Longrightarrow> pool_get (pool_put x d P) y = pool_get P y"
  by (simp add: pool_get_def split: option.split)

lemma roomy_unreadable: "roomy P n \<Longrightarrow> unreadable P = Map.empty"
  by (simp add: roomy_def)

lemma roomy_put:
  assumes "roomy P n" "pool_nodes P x \<noteq> None" "x = 0 \<Longrightarrow> 18 \<le> length d"
  shows "roomy (pool_put x d P) n"
proof -
  have "(\<lambda>i. pool_nodes (pool_put x d P) i = None) = (\<lambda>i. pool_nodes P i = None)" using assms(2) by auto
  then have "free_ids (pool_put x d P) = free_ids P" by (simp add: free_ids_def)
  then show ?thesis using assms(1,3) by (auto simp: roomy_def)
qed

lemma pool_alloc_ok:
  assumes "roomy P (Suc n)"
  obtains i where "pool_alloc P = (Ok (i, page_bytes P i), pool_put i (page_bytes P i) P)" "pool_nodes P i = None" "i \<noteq> 0" "i < 2 ^ 32"
    "\<And>d. roomy (pool_put i d P) n"
proof -
  obtain i js where f: "free_ids P = i # js" "n \<le> length js" using assms by (cases "free_ids P") (auto simp: roomy_def)
  have iset: "i \<in> set (free_ids P)" using f by simp
  then have i: "pool_nodes P i = None" "i < node_limit P" by (simp_all add: free_ids_def)
  have i0: "i \<noteq> 0" using i(1) assms by (cases "i = 0") (auto simp: roomy_def)
  have "roomy (pool_put i d P) n" for d
  proof -
    have "free_ids (pool_put i d P) = filter (\<lambda>j. j \<noteq> i) (free_ids P)"
      unfolding free_ids_def filter_filter by (rule filter_cong) auto
    also have "\<dots> = filter (\<lambda>j. j \<noteq> i) js" by (simp add: f(1))
    also have "\<dots> = js"
    proof -
      have "distinct (free_ids P)" by (simp add: free_ids_def)
      then show ?thesis using f(1) by (intro filter_True) auto
    qed
    finally show ?thesis using assms f i0 by (auto simp: roomy_def)
  qed
  moreover have "pool_alloc P = (Ok (i, page_bytes P i), pool_put i (page_bytes P i) P)"
    using f(1) roomy_unreadable [OF assms] by (simp add: pool_alloc_def)
  moreover have "i < 2 ^ 32" using i(2) assms unfolding roomy_def by linarith
  ultimately show ?thesis using that i(1) i0 by blast
qed

section \<open>The new record\<close>

context stored_keys
begin

text \<open>What a key must be to be placed with a record length \<open>len\<close>.\<close>

definition new_key :: "node_host \<Rightarrow> u8 list \<Rightarrow> nat \<Rightarrow> bool" where
  "new_key h k len \<longleftrightarrow>
     key_ok (take (key_len k) k) \<and> key_len k \<le> length k \<and> key_len k \<le> VDFS2_MAX_BTREE_KEY_LEN \<and>
     key_len k + INDEX_VALUE_SIZE \<le> len \<and> len \<le> record_len k \<and> record_len k + 40 \<le> node_size_bytes h div 2 \<and>
     record_len k \<le> max_record_len h \<and> record_len k \<le> VDFS2_MAX_BTREE_REC_LEN"

lemma new_keyD:
  assumes "new_key h k len"
  shows "12 \<le> key_len k" "key_len k \<le> len" "key_len k \<le> length k" "len \<le> record_len k"
    "record_len k + 40 \<le> node_size_bytes h div 2" "key_ok k" "rank k = rank (take (key_len k) k)"
proof -
  have k: "key_ok (take (key_len k) k)" "key_len k \<le> length k" using assms by (simp_all add: new_key_def)
  show "12 \<le> key_len k" using ok_length [OF k(1)] k(2) by simp
  show "key_len k \<le> len" "key_len k \<le> length k" "len \<le> record_len k" "record_len k + 40 \<le> node_size_bytes h div 2"
    using assms by (simp_all add: new_key_def)
  show "key_ok k" "rank k = rank (take (key_len k) k)"
    using ok_append [OF k(1), of "drop (key_len k) k"] rank_append [OF k(1), of "drop (key_len k) k"] by simp_all
qed

lemma new_record_fits:
  assumes k: "new_key h k len" and r: "is_new k len r"
  shows "rec_fits key_ok h r" "key_len r = key_len k" "rank r = rank k"
proof -
  note n = new_keyD [OF k]
  let ?kl = "key_len k"
  have t: "take ?kl r = wr 4 (take ?kl k) 8 len" and len: "length r = len" using r by (simp_all add: is_new_def)
  have "rd 4 (take ?kl r) 4 = rd 4 (take ?kl k) 4" unfolding t using n(1,3) by (simp add: rd_wr_other)
  moreover have "rd 4 (take ?kl z) 4 = rd 4 z 4" if "?kl \<le> length z" for z
    using rd_append [of 4 4 "take ?kl z" "drop ?kl z"] n(1) that by simp
  ultimately show kl: "key_len r = ?kl" using n(2,3) len by (simp add: key_len_def)
  have ok: "key_ok (take ?kl k)" using k by (simp add: new_key_def)
  have ok': "key_ok (take ?kl r)" "rank (take ?kl r) = rank (take ?kl k)"
    unfolding t using ok_other_len [OF ok] rank_other_len [OF ok] by simp_all
  show "rec_fits key_ok h r" using k ok' kl len n(4,5) by (simp add: rec_fits_def new_key_def)
  show "rank r = rank k" using rank_append [OF ok'(1), of "drop ?kl r"] ok'(2) n(7) by simp
qed

end

section \<open>Changing the nodes of a level\<close>

lemma chain_replace:
  assumes c: "chain key_ok P recs pv nx (A @ x # B)" and h: "pool_host P' = pool_host P"
    and f: "\<And>y. y \<in> set A \<union> set B \<Longrightarrow> pool_get P' y = pool_get P y \<and> recs' y = recs y"
    and x: "good_node key_ok P' recs' (last_or pv A) x (first_or nx B)"
  shows "chain key_ok P' recs' pv nx (A @ x # B)"
proof -
  have "chain key_ok P' recs' pv x A = chain key_ok P recs pv x A" "chain key_ok P' recs' x nx B = chain key_ok P recs x nx B"
    using f by (intro chain_cong [OF h]; simp)+
  then show ?thesis using c x by (simp add: chain_append)
qed

lemma good_node_set_prev:
  assumes g: "good_node key_ok P recs a y b" and h: "pool_host P' = pool_host P" and d: "pool_get P y = Ok d"
    and d': "pool_get P' y = Ok (set_prev v d)" and r: "recs' y = recs y" and v: "v < 2 ^ 32"
  shows "good_node key_ok P' recs' v y b"
proof -
  have n: "node_ok (pool_host P) d (recs y)" "descr_next d = b" "descr_node_id d = y" using g d by (auto simp: good_node_def)
  have "node_ok (pool_host P) (set_prev v d) (recs y)" unfolding set_prev_def by (rule node_ok_header [OF n(1)]) simp_all
  moreover have "descr_prev (set_prev v d) = v" "descr_next (set_prev v d) = b" "descr_node_id (set_prev v d) = y"
    using node_len [OF n(1)] v n(2,3) by (simp_all add: descr_defs rd_wr_same rd_wr_other)
  ultimately show ?thesis using g h d' r by (simp add: good_node_def)
qed

text \<open>Node \<open>x\<close> became \<open>x\<close> and \<open>rid\<close>, and the node behind it points back to \<open>rid\<close>.\<close>

lemma chain_split:
  assumes c: "chain key_ok P recs pv 0 (A @ x # B)" and h: "pool_host P' = pool_host P" and v: "rid < 2 ^ 32"
    and fA: "\<And>y. y \<in> set A \<Longrightarrow> pool_get P' y = pool_get P y" and fB: "\<And>y. y \<in> set (tl B) \<Longrightarrow> pool_get P' y = pool_get P y"
    and fr: "\<And>y. y \<in> set A \<union> set B \<Longrightarrow> recs' y = recs y"
    and nB: "\<And>y B' d. B = y # B' \<Longrightarrow> pool_get P y = Ok d \<Longrightarrow> pool_get P' y = Ok (set_prev rid d)"
    and x: "good_node key_ok P' recs' (last_or pv A) x rid" "good_node key_ok P' recs' x rid (first_or 0 B)"
  shows "chain key_ok P' recs' pv 0 (A @ x # rid # B)"
proof -
  have a: "chain key_ok P' recs' pv x A"
    using c chain_cong [OF h, of A recs' recs] fA fr by (simp add: chain_append)
  have "chain key_ok P' recs' rid 0 B"
  proof (cases B)
    case (Cons y B')
    have g: "good_node key_ok P recs x y (first_or 0 B')" "chain key_ok P recs y 0 B'" using c Cons by (simp_all add: chain_append)
    obtain d where d: "pool_get P y = Ok d" using g(1) by (auto simp: good_node_def)
    have "good_node key_ok P' recs' rid y (first_or 0 B')"
      using nB [OF Cons d] fr Cons v by (intro good_node_set_prev [OF g(1) h d]) simp_all
    moreover have "chain key_ok P' recs' y 0 B'"
      using g(2) chain_cong [OF h, of B' recs' recs] fB fr Cons by simp
    ultimately show ?thesis using Cons by simp
  qed simp
  then show ?thesis using a x by (simp add: chain_append)
qed

lemma concat_insert:
  assumes "p \<le> length (recs x)"
  shows "insert_at (length (concat (map recs A)) + p) r (concat (map recs (A @ x # B))) =
    concat (map recs A) @ insert_at p r (recs x) @ concat (map recs B)"
  using assms by (simp add: insert_at_def)

section \<open>Placing a key at a level\<close>

definition split_level :: "nat list \<Rightarrow> nat \<Rightarrow> nat list \<Rightarrow> nat option \<Rightarrow> nat list" where
  "split_level A x B new = A @ x # (case new of None \<Rightarrow> [] | Some rid \<Rightarrow> [rid]) @ B"

text \<open>
  What placing a key does to a level: the new level, the place of the new record in it, and
  the work that is left. \<open>x\<close> is the node the key belongs to, between \<open>A\<close> and \<open>B\<close>.
\<close>

context stored_keys
begin

definition level_placed ::
  "node_pool \<Rightarrow> (nat \<Rightarrow> u8 list list) \<Rightarrow> nat list \<Rightarrow> nat \<Rightarrow> nat list \<Rightarrow> nat \<Rightarrow> u8 list \<Rightarrow> nat \<Rightarrow> vdfs2_btree_record_info \<Rightarrow>
     node_pool \<Rightarrow> (nat \<Rightarrow> u8 list list) \<Rightarrow> nat option \<Rightarrow> bool" where
  "level_placed P recs A x B p k len info P' recs' new \<longleftrightarrow>
     (let ns' = split_level A x B new in
      pool_host P' = pool_host P \<and> pool_nodes P' 0 = pool_nodes P 0 \<and>
      (\<forall>rid. new = Some rid \<longrightarrow> pool_nodes P rid = None \<and> rid \<noteq> 0) \<and>
      (\<forall>y. y \<notin> set ns' \<longrightarrow> pool_nodes P' y = pool_nodes P y \<and> recs' y = recs y) \<and>
      (\<forall>y \<in> set (A @ x # B). recs' y \<noteq> [] \<and> recs' y ! 0 = recs y ! 0) \<and>
      lvl key_ok rank P' recs' ns' \<and>
      (\<exists>r y q d. concat (map recs' ns') =
          insert_at (length (concat (map recs A)) + p + 1) r (concat (map recs (A @ x # B))) \<and>
         is_new k len r \<and> rank r = rank k \<and> rec_fits key_ok (pool_host P) r \<and> key_len r = key_len k \<and>
         y \<in> set ns' \<and> q < length (recs' y) \<and> recs' y ! q = r \<and> pool_nodes P' y = Some d \<and>
         rec_bnode_id info = y \<and> rec_val info = Ok (off (pool_host P) d q + key_len k)))"

lemma placed_value:
  assumes "node_ok h d rs" "q < length rs" "key_len (rs ! q) \<le> VDFS2_MAX_BTREE_KEY_LEN"
  shows "rec_val (form_gen_record nid d (off h d q) pos) = Ok (off h d q + key_len (rs ! q))"
  using get_record_ok(4) [OF assms(1,2)] assms(3) by (simp add: form_gen_record_def get_value_pointer_def)

text \<open>A node with room takes the key behind the position.\<close>

lemma place_room:
  assumes l: "lvl key_ok rank P recs (A @ x # B)" and p: "p < length (recs x)" and k: "new_key (pool_host P) k len"
    and c: "count_le rank (concat (map recs (A @ x # B))) (rank k) = length (concat (map recs A)) + p + 1"
    and ne: "rank (recs x ! p) \<noteq> rank k" and rm: "roomy P n" and d: "pool_nodes P x = Some d" and full: "\<not> is_node_full d k"
  shows "\<exists>d' r. place_key_in_bnode cmp P td x (int p) k len todo [] =
      (Ok (form_gen_record x d' (off (pool_host P) d' (p + 1)) (int p + 1)), pool_put x d' P, todo, []) \<and>
    roomy (pool_put x d' P) n \<and> is_new k len r \<and> lvl key_ok rank (pool_put x d' P) (recs(x := insert_at (p + 1) r (recs x))) (A @ x # B) \<and>
    concat (map (recs(x := insert_at (p + 1) r (recs x))) (A @ x # B)) =
      insert_at (length (concat (map recs A)) + p + 1) r (concat (map recs (A @ x # B))) \<and>
    rec_val (form_gen_record x d' (off (pool_host P) d' (p + 1)) (int p + 1)) = Ok (off (pool_host P) d' (p + 1) + key_len k)"
proof -
  let ?h = "pool_host P" and ?ns = "A @ x # B"
  note kk = new_keyD [OF k]
  have ch: "chain key_ok P recs 0 0 ?ns" and dst: "distinct ?ns" and so: "sorted_less (map rank (concat (map recs ?ns)))"
    using l by (simp_all add: lvl_def)
  have g: "good_node key_ok P recs (last_or 0 A) x (first_or 0 B)" using ch by (simp add: chain_append)
  have pg: "pool_get P x = Ok d" using d pool_get_Ok [OF rm] by simp
  have ok: "node_ok ?h d (recs x)" and ds: "descr_prev d = last_or 0 A" "descr_next d = first_or 0 B" "descr_node_id d = x"
    and fit: "\<forall>r\<in>set (recs x). rec_fits key_ok ?h r" and x0: "x \<noteq> 0" "x < 2 ^ 32"
    using g pg by (auto simp: good_node_def)
  have fs: "rec_fits key_ok ?h (recs x ! p)" using fit p by simp
  have cmp0: "cmp (drop (off ?h d p) d) k \<noteq> 0"
  proof -
    have "\<forall>r\<in>set (recs x). key_ok r" using fit rec_fits_key(1) by blast
    from compare_at(2) [OF ok p this kk(6)] show ?thesis using ne by simp
  qed
  have room: "len + 4 \<le> descr_free_space d" using full kk(4) by (simp add: is_node_full_def OFF_SIZE_def)
  have m: "key_len k = (if True then key_len k else len mod 2 ^ 16)" by simp
  have p1: "p + 1 \<le> length (recs x)" using p by simp
  from place_into_node_ok [OF ok p1 room m kk(1-3)] obtain d' r where
    pl: "place_into_node ?h d k len (p + 1) True = Ok (recs_end (recs x), d')" "node_ok ?h d' (insert_at (p + 1) r (recs x))"
      "length r = len" "take (key_len k) r = wr 4 (take (key_len k) k) 8 len" "rng d' 16 13 = rng d 16 13"
      "off ?h d' (p + 1) = recs_end (recs x)" by blast
  have nr: "is_new k len r" using pl(3,4) by (simp add: is_new_def)
  note nf = new_record_fits [OF k nr]
  define P' where "P' = pool_put x d' P"
  define recs' where "recs' = recs(x := insert_at (p + 1) r (recs x))"
  have run: "place_key_in_bnode cmp P td x (int p) k len todo [] =
      (Ok (form_gen_record x d' (recs_end (recs x)) (int p + 1)), P', todo, [])"
    using d get_record_ok(1) [OF ok p] cmp0 full pl(1)
    by (simp add: place_key_in_bnode_def Let_def insert_key_into_bnode_def P'_def nat_add_distrib)
  have rm': "roomy P' n" unfolding P'_def using roomy_put [OF rm, of x d'] d x0 by simp
  have xA: "x \<notin> set A" "x \<notin> set B" using dst by simp_all
  have mp: "concat (map recs' A) = concat (map recs A)" "concat (map recs' B) = concat (map recs B)"
    using xA by (auto simp: recs'_def intro!: arg_cong [where f = concat])
  have cc: "concat (map recs' ?ns) = insert_at (length (concat (map recs A)) + p + 1) r (concat (map recs ?ns))"
  proof -
    have "recs' x = insert_at (p + 1) r (recs x)" by (simp add: recs'_def)
    then show ?thesis using concat_insert [of "p + 1" recs x A r B] p1 mp by (simp add: add.assoc)
  qed
  have gx: "good_node key_ok P' recs' (last_or 0 A) x (first_or 0 B)"
  proof -
    have "pool_get P' x = Ok d'" unfolding P'_def using roomy_unreadable [OF rm] by (simp add: pool_get_put)
    moreover have "descr_prev d' = descr_prev d" "descr_next d' = descr_next d" "descr_node_id d' = descr_node_id d"
      using descr_fields_same [OF pl(5) node_len [OF ok] node_len [OF pl(2)]] by simp_all
    ultimately show ?thesis using pl(2) ds fit nf(1) x0 unfolding good_node_def
      by (auto simp: recs'_def P'_def insert_at_def dest: in_set_takeD in_set_dropD)
  qed
  have ch': "chain key_ok P' recs' 0 0 ?ns"
    using xA by (intro chain_replace [OF ch _ _ gx]) (auto simp: P'_def recs'_def pool_get_put_other)
  have so': "sorted_less (map rank (concat (map recs' ?ns)))"
  proof -
    have "concat (map recs ?ns) ! (length (concat (map recs A)) + p) = recs x ! p" using p by (simp add: nth_append)
    then show ?thesis unfolding cc
      using sorted_insert_at(2) [OF so, of "length (concat (map recs A)) + p + 1" r] c ne nf(3) by simp
  qed
  have "lvl key_ok rank P' recs' ?ns" using ch' so' dst by (simp add: lvl_def)
  moreover have "rec_val (form_gen_record x d' (recs_end (recs x)) (int p + 1)) = Ok (off ?h d' (p + 1) + key_len k)"
    using placed_value [OF pl(2), of "p + 1" x "int p + 1"] pl(6) p1 nf(2) k by (simp add: new_key_def)
  ultimately show ?thesis using run rm' nr cc pl(6) unfolding P'_def recs'_def by metis
qed

lemma place_no_split:
  assumes l: "lvl key_ok rank P recs (A @ x # B)" and p: "p < length (recs x)" and k: "new_key (pool_host P) k len"
    and c: "count_le rank (concat (map recs (A @ x # B))) (rank k) = length (concat (map recs A)) + p + 1"
    and ne: "rank (recs x ! p) \<noteq> rank k" and rm: "roomy P n" and d: "pool_nodes P x = Some d" and full: "\<not> is_node_full d k"
  shows "\<exists>info P' recs'. place_key_in_bnode cmp P td x (int p) k len todo [] = (Ok info, P', todo, []) \<and> roomy P' n \<and>
    level_placed P recs A x B p k len info P' recs' None"
proof -
  let ?ns = "A @ x # B"
  from place_room [OF assms, of td todo] obtain d' r where pr:
    "place_key_in_bnode cmp P td x (int p) k len todo [] =
      (Ok (form_gen_record x d' (off (pool_host P) d' (p + 1)) (int p + 1)), pool_put x d' P, todo, [])"
    "roomy (pool_put x d' P) n" "is_new k len r" "lvl key_ok rank (pool_put x d' P) (recs(x := insert_at (p + 1) r (recs x))) ?ns"
    "concat (map (recs(x := insert_at (p + 1) r (recs x))) ?ns) =
      insert_at (length (concat (map recs A)) + p + 1) r (concat (map recs ?ns))"
    "rec_val (form_gen_record x d' (off (pool_host P) d' (p + 1)) (int p + 1)) = Ok (off (pool_host P) d' (p + 1) + key_len k)" by blast
  define P' where "P' = pool_put x d' P"
  define recs' where "recs' = recs(x := insert_at (p + 1) r (recs x))"
  note nf = new_record_fits [OF k pr(3)]
  have ch: "chain key_ok P recs 0 0 ?ns" using l by (simp add: lvl_def)
  have x0: "x \<noteq> 0" using chain_good [OF ch, of x] by (auto simp: good_node_def)
  have "recs' x ! 0 = recs x ! 0" "recs' x \<noteq> []" "p + 1 \<le> length (recs x)" using p by (simp_all add: recs'_def insert_at_def nth_append)
  moreover have "\<forall>y\<in>set ?ns. y \<noteq> x \<longrightarrow> recs y \<noteq> []" using chain_good [OF ch] by (auto simp: good_node_def)
  ultimately have "level_placed P recs A x B p k len (form_gen_record x d' (off (pool_host P) d' (p + 1)) (int p + 1)) P' recs' None"
    unfolding level_placed_def Let_def split_level_def using pr(3-6) nf x0 k
    by (auto simp: P'_def recs'_def form_gen_record_def new_key_def intro!: exI [of _ r] exI [of _ "p + 1"])
  then show ?thesis using pr(1,2) unfolding P'_def by blast
qed

end

context stored_keys
begin

lemma place_split:
  assumes l: "lvl key_ok rank P recs (A @ x # B)" and p: "p < length (recs x)" and k: "new_key (pool_host P) k len"
    and c: "count_le rank (concat (map recs (A @ x # B))) (rank k) = length (concat (map recs A)) + p + 1"
    and ne: "rank (recs x ! p) \<noteq> rank k" and rm: "roomy P (Suc n)" and d: "pool_nodes P x = Some d" and full: "is_node_full d k"
    and up: "st_level e = vdfs2_btree_get_height P \<or> up \<noteq> []"
  shows "\<exists>info P' recs' rid. place_key_in_bnode cmp P (e # up) x (int p) k len todo [] =
      (Ok info, P', \<lparr>td_traverse_data = (if st_level e = vdfs2_btree_get_height P then None else Some up),
        td_point_to_bnode_id = rid, td_current_root_id = vdfs2_btree_get_root_id P\<rparr> # todo, []) \<and> roomy P' n \<and>
    level_placed P recs A x B p k len info P' recs' (Some rid)"
proof -
  let ?h = "pool_host P" and ?ns = "A @ x # B"
  note kk = new_keyD [OF k]
  have ch: "chain key_ok P recs 0 0 ?ns" and dst: "distinct ?ns" and so: "sorted_less (map rank (concat (map recs ?ns)))"
    using l by (simp_all add: lvl_def)
  have g: "good_node key_ok P recs (last_or 0 A) x (first_or 0 B)" using ch by (simp add: chain_append)
  have pg: "pool_get P x = Ok d" using d pool_get_Ok [OF rm] by simp
  have ok: "node_ok ?h d (recs x)" and ds: "descr_prev d = last_or 0 A" "descr_next d = first_or 0 B"
    and fit: "\<forall>r\<in>set (recs x). rec_fits key_ok ?h r" and x0: "x \<noteq> 0" "x < 2 ^ 32" and rne: "recs x \<noteq> []"
    using g pg by (auto simp: good_node_def)
  have cmp0: "cmp (drop (off ?h d p) d) k \<noteq> 0"
  proof -
    have "\<forall>r\<in>set (recs x). key_ok r" using fit rec_fits_key(1) by blast
    from compare_at(2) [OF ok p this kk(6)] show ?thesis using ne by simp
  qed
  have p1: "p + 1 \<le> length (recs x)" using p by simp
  obtain rid where al: "pool_alloc P = (Ok (rid, page_bytes P rid), pool_put rid (page_bytes P rid) P)" "pool_nodes P rid = None"
    "rid \<noteq> 0" "rid < 2 ^ 32" "\<And>d. roomy (pool_put rid d P) n"
    using pool_alloc_ok [OF rm] by blast
  define P1 where "P1 = pool_put rid (page_bytes P rid) P"
  have inpool: "pool_nodes P y \<noteq> None" if "y \<in> set ?ns" for y
    using chain_good [OF ch that] pool_get_Ok [OF rm] by (auto simp: good_node_def)
  have rns: "rid \<notin> set ?ns" using inpool al(2) by blast
  have sz2: "\<forall>r\<in>set (recs x). length r + 4 \<le> node_size_bytes ?h div 2" using fit by (auto simp: rec_fits_def)
  have pl: "length (page_bytes P rid) = node_size_bytes ?h" using rm by (simp add: roomy_def)
  from split_bnode_run [OF ok pl p1 rne kk(1-4) full kk(5) sz2 x0(2) al(4), of "pool_get P1"]
  obtain left' right' res L R r where sp: "split_bnode ?h x rid d (page_bytes P rid) k len (p + 1) (pool_get P1) =
      (if descr_next d \<noteq> 0 then
         (case pool_get P1 (descr_next d) of
            Ok next_right \<Rightarrow> (Success, left', right', Some (set_prev (descr_node_id right') next_right), Some res)
          | Err e \<Rightarrow> (Success, d, right', None, Some res)
          | Bug \<Rightarrow> (Oops, left', right', None, Some res))
       else (Success, left', right', None, Some res))"
    and LR: "node_ok ?h left' L" "node_ok ?h right' R" "L \<noteq> []" "R \<noteq> []" "L @ R = insert_at (p + 1) r (recs x)" "is_new k len r"
      "placed_at ?h (if in_right res then right' else left') (if in_right res then R else L) r res"
    and ids: "descr_node_id left' = x" "descr_prev left' = descr_prev d" "descr_next left' = rid"
      "descr_node_id right' = rid" "descr_prev right' = x" "descr_next right' = descr_next d"
    by blast
  note nf = new_record_fits [OF k LR(6)]
  define nxt where "nxt = (case B of [] \<Rightarrow> None | y # _ \<Rightarrow> Some (set_prev rid (the (pool_nodes P y))))"
  define P' where "P' = pool_after_split x rid left' right' nxt P1"
  define recs' where "recs' = recs(x := L, rid := R)"
  have By: "pool_get P1 y = Ok (the (pool_nodes P y))" "y \<noteq> 0" if "B = y # B'" for y B'
  proof -
    have y: "y \<in> set ?ns" "y \<noteq> rid" using that rns by auto
    then show "pool_get P1 y = Ok (the (pool_nodes P y))"
      using inpool [OF y(1)] pool_get_roomy [OF rm, of y] by (auto simp: P1_def pool_get_put_other)
    show "y \<noteq> 0" using chain_good [OF ch y(1)] by (auto simp: good_node_def)
  qed
  have sp': "split_bnode ?h x rid d (page_bytes P rid) k len (p + 1) (pool_get P1) = (Success, left', right', nxt, Some res)"
    unfolding sp using ds(2) By ids(4) by (cases B) (simp_all add: nxt_def)
  have nodes': "pool_nodes P' y = (if y = rid then Some right' else if y = x then Some left'
      else if B \<noteq> [] \<and> y = hd B then Some (set_prev rid (the (pool_nodes P y))) else pool_nodes P y)" for y
  proof (cases B)
    case (Cons z B')
    then have "z \<noteq> rid" "z \<noteq> x" using rns dst by auto
    then show ?thesis using Cons ds(2) ids(6) by (simp add: P'_def nxt_def pool_after_split_def Let_def P1_def)
  qed (simp add: P'_def nxt_def pool_after_split_def Let_def P1_def)
  have host': "pool_host P' = ?h" "unreadable P' = unreadable P"
    by (simp_all add: P'_def pool_after_split_def Let_def P1_def split: option.splits)
  have unr: "unreadable P' = Map.empty" using host'(2) roomy_unreadable [OF rm] by simp
  have get': "pool_get P' y = (case pool_nodes P' y of None \<Rightarrow> Err ENOENT | Some d \<Rightarrow> Ok d)" for y
    using unr by (simp add: pool_get_def)
  have rm': "roomy P' n"
  proof -
    have 1: "roomy (pool_put rid right' (pool_put x left' P1)) n"
    proof -
      have "pool_put rid right' (pool_put x left' P1) = pool_put x left' (pool_put rid right' P)"
        using rns by (simp add: P1_def pool_put_def fun_upd_twist)
      then show ?thesis using roomy_put [OF al(5) [of right'], of x left'] d x0 rns by simp
    qed
    show ?thesis
    proof (cases B)
      case Nil
      then show ?thesis using 1 by (simp add: P'_def nxt_def pool_after_split_def)
    next
      case (Cons y B')
      have "y \<in> set ?ns" "y \<noteq> rid" "y \<noteq> x" using Cons rns dst by auto
      then show ?thesis using 1 Cons ds(2) ids(6) By [OF Cons] inpool [of y]
        by (auto simp: P'_def nxt_def pool_after_split_def Let_def P1_def intro!: roomy_put)
    qed
  qed
  have z: "pool_nodes P' 0 = pool_nodes P 0"
    using nodes' [of 0] al(3) x0(1) By(2) by (cases B) auto
  have hr: "vdfs2_btree_get_height P' = vdfs2_btree_get_height P" "vdfs2_btree_get_root_id P' = vdfs2_btree_get_root_id P"
    using z by (simp_all add: vdfs2_btree_get_height_def vdfs2_btree_get_root_id_def head_data_def)
  define info where "info = (if in_right res then form_gen_record rid right' (new_addr res) (int (new_pos res))
    else form_gen_record x left' (new_addr res) (int (new_pos res)))"
  have run: "place_key_in_bnode cmp P (e # up) x (int p) k len todo [] =
      (Ok info, P', \<lparr>td_traverse_data = (if st_level e = vdfs2_btree_get_height P then None else Some up),
        td_point_to_bnode_id = rid, td_current_root_id = vdfs2_btree_get_root_id P\<rparr> # todo, [])"
    using d get_record_ok(1) [OF ok p] cmp0 full sp' al(1) up hr rm
    by (simp add: place_key_in_bnode_def Let_def nat_add_distrib P1_def [symmetric] P'_def [symmetric] info_def
        upper_traverse_data_def put_add_index_work_def roomy_def) blast
  have frame: "pool_nodes P' y = pool_nodes P y \<and> recs' y = recs y" if "y \<notin> set (A @ x # rid # B)" for y
    using that nodes' [of y] by (cases B) (auto simp: recs'_def)
  have ch': "chain key_ok P' recs' 0 0 (A @ x # rid # B)"
  proof (rule chain_split [OF ch host'(1) al(4)])
    fix y assume y: "y \<in> set A"
    then have "y \<noteq> rid" "y \<noteq> x" "\<not> (B \<noteq> [] \<and> y = hd B)" using rns dst by (auto simp: neq_Nil_conv)
    then show "pool_get P' y = pool_get P y" unfolding get' nodes' pool_get_roomy [OF rm] by auto
  next
    fix y assume y: "y \<in> set (tl B)"
    then have "y \<noteq> rid" "y \<noteq> x" "\<not> (B \<noteq> [] \<and> y = hd B)" using rns dst by (cases B; auto)+
    then show "pool_get P' y = pool_get P y" unfolding get' nodes' pool_get_roomy [OF rm] by auto
  next
    fix y assume "y \<in> set A \<union> set B"
    then show "recs' y = recs y" using rns dst by (auto simp: recs'_def)
  next
    fix y B' d assume B: "B = y # B'" and "pool_get P y = Ok d"
    then have "pool_nodes P y = Some d" "y \<noteq> rid" "y \<noteq> x" using rns dst pool_get_Ok [OF rm] by auto
    then show "pool_get P' y = Ok (set_prev rid d)" unfolding get' nodes' using B by simp
  next
    have f: "\<forall>r\<in>set L \<union> set R. rec_fits key_ok ?h r"
    proof -
      have "set L \<union> set R = insert r (set (recs x))" using LR(5) by (metis set_append set_insert_at)
      then show ?thesis using fit nf(1) by simp
    qed
    show "good_node key_ok P' recs' (last_or 0 A) x rid"
      using LR ids ds x0 f host' rns unfolding good_node_def get' nodes' by (auto simp: recs'_def)
    show "good_node key_ok P' recs' x rid (first_or 0 B)"
      using LR ids ds al(3,4) f host' rns unfolding good_node_def get' nodes' by (auto simp: recs'_def)
  qed
  have cc: "concat (map recs' (A @ x # rid # B)) = insert_at (length (concat (map recs A)) + p + 1) r (concat (map recs ?ns))"
  proof -
    have "concat (map recs' A) = concat (map recs A)" "concat (map recs' B) = concat (map recs B)"
      using rns dst by (auto simp: recs'_def intro!: arg_cong [where f = concat])
    moreover have "recs' x = L" "recs' rid = R" using rns by (auto simp: recs'_def)
    ultimately show ?thesis using concat_insert [of "p + 1" recs x A r B] p1
      arg_cong [OF LR(5), of "\<lambda>z. z @ concat (map recs B)"] by (simp add: add.assoc)
  qed
  have so': "sorted_less (map rank (concat (map recs' (A @ x # rid # B))))"
  proof -
    have "concat (map recs ?ns) ! (length (concat (map recs A)) + p) = recs x ! p" using p by (simp add: nth_append)
    then show ?thesis unfolding cc
      using sorted_insert_at(2) [OF so, of "length (concat (map recs A)) + p + 1" r] c ne nf(3) by simp
  qed
  have lv: "lvl key_ok rank P' recs' (A @ x # rid # B)" using ch' so' dst rns by (simp add: lvl_def)
  have first: "recs' y \<noteq> [] \<and> recs' y ! 0 = recs y ! 0" if y: "y \<in> set ?ns" for y
  proof (cases "y = x")
    case True
    have "L ! 0 = insert_at (p + 1) r (recs x) ! 0" using LR(3,5) by (metis nth_append length_greater_0_conv)
    then show ?thesis using True LR(3) p rns by (simp add: recs'_def insert_at_def nth_append)
  next
    case False
    have "y \<noteq> rid" using y rns by auto
    then show ?thesis using False y chain_good [OF ch y] by (auto simp: recs'_def good_node_def)
  qed
  have loc: "\<exists>y q d. y \<in> set (A @ x # rid # B) \<and> q < length (recs' y) \<and> recs' y ! q = r \<and> pool_nodes P' y = Some d \<and>
      rec_bnode_id info = y \<and> rec_val info = Ok (off ?h d q + key_len k)"
  proof -
    have kl: "key_len r \<le> VDFS2_MAX_BTREE_KEY_LEN" using nf(1) by (simp add: rec_fits_def)
    show ?thesis
    proof (cases "in_right res")
      case True
      then have "new_pos res < length R" "R ! new_pos res = r" "off ?h right' (new_pos res) = new_addr res"
        using LR(7) by (simp_all add: placed_at_def)
      then show ?thesis using True placed_value [OF LR(2), of "new_pos res" rid "int (new_pos res)"] kl nf(2) nodes' [of rid]
        by (intro exI [of _ rid] exI [of _ "new_pos res"] exI [of _ right']) (simp add: info_def recs'_def form_gen_record_def)
    next
      case False
      then have "new_pos res < length L" "L ! new_pos res = r" "off ?h left' (new_pos res) = new_addr res"
        using LR(7) by (simp_all add: placed_at_def)
      then show ?thesis using False placed_value [OF LR(1), of "new_pos res" x "int (new_pos res)"] kl nf(2) nodes' [of x] rns
        by (intro exI [of _ x] exI [of _ "new_pos res"] exI [of _ left']) (simp add: info_def recs'_def form_gen_record_def)
    qed
  qed
  have "level_placed P recs A x B p k len info P' recs' (Some rid)"
    unfolding level_placed_def Let_def split_level_def
    using host'(1) z al(2,3) frame first lv cc LR(6) nf loc by simp blast
  then show ?thesis using run rm' by blast
qed

end

section \<open>Writing the value\<close>

lemma insert_at_update: "i \<le> length xs \<Longrightarrow> (insert_at i x xs)[i := y] = insert_at i y xs"
  by (simp add: insert_at_def list_update_append)

lemma sorted_less_index:
  assumes "sorted_less (map f xs)" "i < length xs" "j < length xs" "f (xs ! i) = f (xs ! j)"
  shows "i = j"
proof (rule ccontr)
  assume "i \<noteq> j"
  then consider "i < j" | "j < i" by linarith
  moreover have "f (xs ! a) < f (xs ! b)" if "a < b" "b < length xs" for a b
    using assms(1) that by (simp add: sorted_wrt_iff_nth_less)
  ultimately show False using assms(2-4) by cases fastforce+
qed

context stored_keys
begin

lemma key_of_put:
  assumes "rec_fits key_ok h r" "key_len r + length bs \<le> length r"
  shows "rec_fits key_ok h (put r (key_len r) bs)" "rank (put r (key_len r) bs) = rank r"
    "key_len (put r (key_len r) bs) = key_len r" "take (key_len r) (put r (key_len r) bs) = take (key_len r) r"
proof -
  note f = rec_fits_key [OF assms(1)]
  show k: "key_len (put r (key_len r) bs) = key_len r"
    unfolding key_len_def [of "put _ _ _"] using assms(2) f(3) by (subst rd_put_other) (auto simp: key_len_def)
  show t: "take (key_len r) (put r (key_len r) bs) = take (key_len r) r"
    using f(4) by (simp add: put_def)
  show fp: "rec_fits key_ok h (put r (key_len r) bs)"
    using assms k t by (simp add: rec_fits_def)
  show "rank (put r (key_len r) bs) = rank r"
    using rec_fits_key(2) [OF fp] f(2) k t by simp
qed

text \<open>A level after a record was added: \<open>ns\<close> became \<open>ns'\<close>, the record is the one after number \<open>g\<close>.\<close>

definition level_added ::
  "node_pool \<Rightarrow> (nat \<Rightarrow> u8 list list) \<Rightarrow> nat list \<Rightarrow> nat \<Rightarrow> node_pool \<Rightarrow> (nat \<Rightarrow> u8 list list) \<Rightarrow> nat list \<Rightarrow> u8 list \<Rightarrow> bool" where
  "level_added P recs ns g P' recs' ns' r \<longleftrightarrow>
     pool_host P' = pool_host P \<and> pool_nodes P' 0 = pool_nodes P 0 \<and>
     (\<forall>y. y \<notin> set ns' \<longrightarrow> pool_nodes P' y = pool_nodes P y \<and> recs' y = recs y) \<and>
     (\<forall>y \<in> set ns. recs' y \<noteq> [] \<and> rank (recs' y ! 0) = rank (recs y ! 0)) \<and>
     lvl key_ok rank P' recs' ns' \<and> rec_fits key_ok (pool_host P) r \<and>
     concat (map recs' ns') = insert_at (g + 1) r (concat (map recs ns))"

text \<open>Writing the value of a record keeps a level.\<close>

lemma level_value:
  assumes l: "lvl key_ok rank P recs (A @ y # B)" and d: "pool_nodes P y = Some d" and rm: "roomy P n"
    and q: "q < length (recs y)" and bs: "key_len (recs y ! q) + length bs \<le> length (recs y ! q)"
  defines "r \<equiv> recs y ! q"
  defines "P' \<equiv> pool_put y (put d (off (pool_host P) d q + key_len r) bs) P"
  defines "recs' \<equiv> recs(y := (recs y)[q := put r (key_len r) bs])"
  shows "lvl key_ok rank P' recs' (A @ y # B)" "roomy P' n" "y \<noteq> 0" "rec_fits key_ok (pool_host P) r"
    "concat (map recs' (A @ y # B)) = (concat (map recs (A @ y # B)))[length (concat (map recs A)) + q := put r (key_len r) bs]"
    "\<And>i. i < length (recs y) \<Longrightarrow> rank (recs' y ! i) = rank (recs y ! i)"
proof -
  let ?h = "pool_host P" and ?ns = "A @ y # B"
  have ch: "chain key_ok P recs 0 0 ?ns" and dst: "distinct ?ns" and so: "sorted_less (map rank (concat (map recs ?ns)))"
    using l by (simp_all add: lvl_def)
  have g: "good_node key_ok P recs (last_or 0 A) y (first_or 0 B)" using ch by (simp add: chain_append)
  have pg: "pool_get P y = Ok d" using d pool_get_Ok [OF rm] by simp
  have ok: "node_ok ?h d (recs y)" and ds: "descr_prev d = last_or 0 A" "descr_next d = first_or 0 B" "descr_node_id d = y"
    and fit: "\<forall>r\<in>set (recs y). rec_fits key_ok ?h r"
    using g pg by (auto simp: good_node_def)
  show y0: "y \<noteq> 0" using g by (simp add: good_node_def)
  show rf: "rec_fits key_ok ?h r" using fit q by (simp add: r_def)
  have bs': "key_len r + length bs \<le> length r" using bs by (simp add: r_def)
  note kp = key_of_put [OF rf bs']
  show rp: "rank (recs' y ! i) = rank (recs y ! i)" if "i < length (recs y)" for i
    using that kp(2) by (cases "i = q") (simp_all add: recs'_def r_def)
  show rm': "roomy P' n" unfolding P'_def using roomy_put [OF rm] d y0 by simp
  note nv = node_ok_value [OF ok q rec_fits_key(3) [OF rf, unfolded r_def] bs, folded r_def]
  have yA: "y \<notin> set A" "y \<notin> set B" using dst by simp_all
  have mp: "concat (map recs' A) = concat (map recs A)" "concat (map recs' B) = concat (map recs B)"
    using yA by (auto simp: recs'_def intro!: arg_cong [where f = concat])
  have gy: "good_node key_ok P' recs' (last_or 0 A) y (first_or 0 B)"
  proof -
    let ?d = "put d (off ?h d q + key_len r) bs"
    have "pool_get P' y = Ok ?d" unfolding P'_def using roomy_unreadable [OF rm] by (simp add: pool_get_put)
    moreover have "descr_prev ?d = descr_prev d" "descr_next ?d = descr_next d" "descr_node_id ?d = descr_node_id d"
      using descr_fields_same [OF nv(2) node_len [OF ok] node_len [OF nv(1)]] by simp_all
    moreover have "\<forall>r\<in>set (recs' y). rec_fits key_ok ?h r"
      using fit kp(1) by (auto simp: recs'_def dest!: set_update_subset_insert [THEN subsetD])
    moreover have "recs' y \<noteq> []" using q by (auto simp: recs'_def)
    ultimately show ?thesis using nv(1) ds y0 g unfolding good_node_def by (simp add: recs'_def P'_def)
  qed
  have ch': "chain key_ok P' recs' 0 0 ?ns"
    using yA by (intro chain_replace [OF ch _ _ gy]) (auto simp: P'_def recs'_def pool_get_put_other)
  show cc: "concat (map recs' ?ns) = (concat (map recs ?ns))[length (concat (map recs A)) + q := put r (key_len r) bs]"
  proof -
    have "recs' y = (recs y)[q := put r (key_len r) bs]" by (simp add: recs'_def)
    then show ?thesis using q mp by (simp add: list_update_append)
  qed
  have "map rank (concat (map recs' ?ns)) = map rank (concat (map recs ?ns))"
    unfolding cc map_update kp(2) using q
    by (intro list_update_same_conv [THEN iffD2]) (simp_all add: nth_append r_def)
  then show "lvl key_ok rank P' recs' ?ns" using ch' so dst by (simp add: lvl_def)
qed

text \<open>The value of a record that was added: number \<open>g + 1\<close> of the level, at \<open>q\<close> in node \<open>y\<close>.\<close>

lemma level_write:
  assumes l: "lvl key_ok rank P recs ns" and c: "concat (map recs ns) = insert_at (g + 1) r C" and g: "g < length C"
    and y: "y \<in> set ns" "q < length (recs y)" "recs y ! q = r" "pool_nodes P y = Some d" and rm: "roomy P n"
    and bs: "key_len r + length bs \<le> length r"
  shows "\<exists>recs'. lvl key_ok rank (pool_put y (put d (off (pool_host P) d q + key_len r) bs) P) recs' ns \<and>
    roomy (pool_put y (put d (off (pool_host P) d q + key_len r) bs) P) n \<and> y \<noteq> 0 \<and>
    rec_fits key_ok (pool_host P) (put r (key_len r) bs) \<and> rank (put r (key_len r) bs) = rank r \<and>
    key_len (put r (key_len r) bs) = key_len r \<and>
    concat (map recs' ns) = insert_at (g + 1) (put r (key_len r) bs) C \<and> (\<forall>z. z \<noteq> y \<longrightarrow> recs' z = recs z) \<and>
    (\<forall>z. recs z \<noteq> [] \<longrightarrow> recs' z \<noteq> [] \<and> rank (recs' z ! 0) = rank (recs z ! 0))"
proof -
  obtain A B where ab: "ns = A @ y # B" using y(1) by (meson split_list)
  have bs': "key_len (recs y ! q) + length bs \<le> length (recs y ! q)" using bs y(3) by simp
  note v = level_value [OF l [unfolded ab] y(4) rm y(2) bs', unfolded y(3)]
  let ?recs = "recs(y := (recs y)[q := put r (key_len r) bs])"
  have pos: "length (concat (map recs A)) + q = g + 1"
  proof (rule sorted_less_index)
    show "sorted_less (map rank (concat (map recs ns)))" using l by (simp add: lvl_def)
    have "concat (map recs ns) ! (length (concat (map recs A)) + q) = r" unfolding ab using y(2,3) by (simp add: nth_append)
    moreover have "concat (map recs ns) ! (g + 1) = r" unfolding c using g by (intro nth_insert_at_eq) simp
    ultimately show "rank (concat (map recs ns) ! (length (concat (map recs A)) + q)) = rank (concat (map recs ns) ! (g + 1))" by simp
    show "length (concat (map recs A)) + q < length (concat (map recs ns))" unfolding ab using y(2) by simp
    show "g + 1 < length (concat (map recs ns))" unfolding c using g by simp
  qed
  have "concat (map ?recs ns) = (concat (map recs ns))[g + 1 := put r (key_len r) bs]"
    using v(5) unfolding ab [symmetric] pos .
  also have "\<dots> = insert_at (g + 1) (put r (key_len r) bs) C" unfolding c using g by (intro insert_at_update) simp
  finally have cc: "concat (map ?recs ns) = insert_at (g + 1) (put r (key_len r) bs) C" .
  have first: "?recs z \<noteq> [] \<and> rank (?recs z ! 0) = rank (recs z ! 0)" if z: "recs z \<noteq> []" for z
    using v(6) [of 0] z by (cases "z = y") auto
  have "lvl key_ok rank (pool_put y (put d (off (pool_host P) d q + key_len r) bs) P) ?recs ns" using v(1) ab by simp
  then show ?thesis using v(2,3) key_of_put(1-3) [OF v(4) bs] cc first
    by (intro exI [of _ ?recs]) simp
qed

lemma level_placed_write:
  assumes pl: "level_placed P recs A x B p k len info P1 recs1 new" and rm: "roomy P1 n" and bs: "key_len k + length bs \<le> len"
    and g: "g = length (concat (map recs A)) + p" "g < length (concat (map recs (A @ x # B)))"
  shows "\<exists>y v d recs' r. rec_bnode_id info = y \<and> rec_val info = Ok v \<and> pool_nodes P1 y = Some d \<and>
    roomy (pool_put y (put d v bs) P1) n \<and> y \<in> set (split_level A x B new) \<and> is_new k len r \<and>
    level_added P recs (A @ x # B) g (pool_put y (put d v bs) P1) recs' (split_level A x B new) (put r (key_len k) bs) \<and>
    key_len (put r (key_len k) bs) = key_len k \<and> rank (put r (key_len k) bs) = rank k"
proof -
  let ?ns = "split_level A x B new"
  from pl obtain r y q d where f: "pool_host P1 = pool_host P" "pool_nodes P1 0 = pool_nodes P 0"
      "\<forall>y. y \<notin> set ?ns \<longrightarrow> pool_nodes P1 y = pool_nodes P y \<and> recs1 y = recs y"
      "\<forall>y \<in> set (A @ x # B). recs1 y \<noteq> [] \<and> recs1 y ! 0 = recs y ! 0" "lvl key_ok rank P1 recs1 ?ns"
      "concat (map recs1 ?ns) = insert_at (g + 1) r (concat (map recs (A @ x # B)))"
      "is_new k len r" "rank r = rank k" "rec_fits key_ok (pool_host P) r" "key_len r = key_len k"
      "y \<in> set ?ns" "q < length (recs1 y)" "recs1 y ! q = r" "pool_nodes P1 y = Some d"
      "rec_bnode_id info = y" "rec_val info = Ok (off (pool_host P) d q + key_len k)"
    unfolding level_placed_def Let_def g(1) [symmetric] by (elim conjE exE) (rule that; assumption)
  have bsr: "key_len r + length bs \<le> length r" using f(7,10) bs by (simp add: is_new_def)
  let ?P = "pool_put y (put d (off (pool_host P) d q + key_len k) bs) P1" and ?r = "put r (key_len k) bs"
  from level_write [OF f(5,6) g(2) f(11-14) rm bsr, unfolded f(1) f(10)] obtain recs' where w:
    "lvl key_ok rank ?P recs' ?ns" "roomy ?P n" "y \<noteq> 0" "rec_fits key_ok (pool_host P) ?r" "rank ?r = rank r" "key_len ?r = key_len k"
    "concat (map recs' ?ns) = insert_at (g + 1) ?r (concat (map recs (A @ x # B)))" "\<forall>z. z \<noteq> y \<longrightarrow> recs' z = recs1 z"
    "\<forall>z. recs1 z \<noteq> [] \<longrightarrow> recs' z \<noteq> [] \<and> rank (recs' z ! 0) = rank (recs1 z ! 0)"
    by (elim conjE exE) (rule that; assumption)
  have first: "recs' z \<noteq> [] \<and> rank (recs' z ! 0) = rank (recs z ! 0)" if z: "z \<in> set (A @ x # B)" for z
    using w(9) bspec [OF f(4) z] by simp
  have "level_added P recs (A @ x # B) g ?P recs' ?ns ?r"
    unfolding level_added_def using f(1-3,11) w(1,3,4,7,8) first by auto
  then show ?thesis using f(7,11,14-16) w(2,5,6) f(8) by fastforce
qed

end

end
