(* ===== verification/Btree_Merge.thy ===== *)
theory Btree_Merge
  imports Btree_Remove Btree_Level
begin

text \<open>
  What removing a record does to the nodes of one level: deleting a record, taking an
  empty node out of the chain, and joining two neighbours.
\<close>

section \<open>The bytes of two merged nodes\<close>

lemma offsets_correct_ok:
  "(\<And>j. i \<le> j \<Longrightarrow> j < i + n \<Longrightarrow> 8 + 4 * j \<le> node_size_bytes h \<and> off h d j \<noteq> 0 \<and> off h d j < node_size_bytes h) \<Longrightarrow>
   offsets_correct h d i n = Ok True"
proof (induction n arbitrary: i)
  case (Suc n)
  then show ?case using Suc.prems [of i] Suc.IH [of "i + 1"] by (simp add: get_offset_ok is_offset_correct_def)
qed simp

lemma check_offset_area_ok:
  assumes "node_ok h d rs"
  shows "check_bnode_offset_area h d = Ok True"
proof -
  have "8 + 4 * j \<le> node_size_bytes h \<and> off h d j \<noteq> 0 \<and> off h d j < node_size_bytes h" if "j < length rs" for j
    using node_slot(1) [OF assms, of j] node_okD(3) [OF assms] node_okD(7-9) [OF assms that] that by (auto simp: record_ok_def)
  then show ?thesis unfolding check_bnode_offset_area_def node_okD(4) [OF assms] by (intro offsets_correct_ok) simp
qed

lemma merge_offsets_ok:
  assumes "length l = node_size_bytes h" "node_size_bytes h < 2 ^ 16" "29 \<le> s"
    and "\<forall>j. i \<le> j \<longrightarrow> j < i + n \<longrightarrow> 8 + 4 * (j + c) \<le> node_size_bytes h \<and> 29 \<le> off h r j \<and> s + off h r j - 29 < node_size_bytes h"
  shows "\<exists>l'. merge_offsets h l r c s i n = Ok l' \<and> length l' = node_size_bytes h \<and>
    (\<forall>j. 8 + 4 * j \<le> node_size_bytes h \<longrightarrow> off h l' j = (if c + i \<le> j \<and> j < c + i + n then s + off h r (j - c) - 29 else off h l j)) \<and>
    (\<forall>q m. (\<forall>j. c + i \<le> j \<longrightarrow> j < c + i + n \<longrightarrow> q + m \<le> slot h j) \<longrightarrow> rng l' q m = rng l q m)"
  using assms
proof (induction n arbitrary: l i)
  case 0
  then show ?case by simp
next
  case (Suc n)
  let ?N = "node_size_bytes h"
  have i: "8 + 4 * (i + c) \<le> ?N" "29 \<le> off h r i" "s + off h r i - 29 < ?N" "8 + 4 * i \<le> ?N" using Suc.prems(4) [rule_format, of i] by simp_all
  define v where "v = s + off h r i - 29"
  define e where "e = wr 4 l (slot h (i + c)) v"
  have le: "length e = ?N" unfolding e_def using Suc.prems(1) slot_bounds(1) [OF i(1)] by simp
  have oe: "off h e j = (if i + c = j then v else off h l j)" if "8 + 4 * j \<le> ?N" for j
    unfolding e_def using Suc.prems(1,2) i(1,3) that by (intro off_wr_slot) (auto simp: v_def)
  have "sub32 (s + off h r i) DESCR_SIZE = v"
    using i(2,3) Suc.prems(2) by (subst sub32_eq) (auto simp: v_def DESCR_SIZE_def)
  then have step: "merge_offsets h l r c s i (Suc n) = merge_offsets h e r c s (i + 1) n"
    using i Suc.prems(2,3) set_offset_ok [OF i(1), of v l] by (simp add: get_offset_ok e_def v_def)
  from Suc.IH [OF le Suc.prems(2,3), of "i + 1"] Suc.prems(4) obtain l' where
    l': "merge_offsets h e r c s (i + 1) n = Ok l'" "length l' = ?N"
    "\<And>j. 8 + 4 * j \<le> ?N \<Longrightarrow> off h l' j = (if c + (i + 1) \<le> j \<and> j < c + (i + 1) + n then s + off h r (j - c) - 29 else off h e j)"
    "\<And>q m. \<forall>j. c + (i + 1) \<le> j \<longrightarrow> j < c + (i + 1) + n \<longrightarrow> q + m \<le> slot h j \<Longrightarrow> rng l' q m = rng e q m" by auto
  have "off h l' j = (if c + i \<le> j \<and> j < c + i + Suc n then s + off h r (j - c) - 29 else off h l j)" if "8 + 4 * j \<le> ?N" for j
    using l'(3) [OF that] oe [OF that] by (cases "j = i + c") (auto simp: v_def)
  moreover have "rng l' q m = rng l q m" if q: "\<forall>j. c + i \<le> j \<longrightarrow> j < c + i + Suc n \<longrightarrow> q + m \<le> slot h j" for q m
  proof -
    have qi: "q + m \<le> slot h (i + c)" using q by simp
    have "rng l' q m = rng e q m" using q by (intro l'(4)) simp
    also have "\<dots> = rng l q m" unfolding e_def using qi Suc.prems(1) slot_bounds(1) [OF i(1)] by (intro rng_wr_other) auto
    finally show ?thesis .
  qed
  ultimately show ?case using step l'(1,2) by auto
qed

lemma recs_end_append: "recs_end (ls @ rs) = recs_end ls + (recs_end rs - 29)"
  by (simp add: recs_end_def)

lemma merge_bytes_ok:
  assumes l: "node_ok h l ls" and r: "node_ok h r rs"
    and fits: "recs_end (ls @ rs) + 4 * length (ls @ rs) + 8 \<le> node_size_bytes h"
  shows "\<exists>d. merge_bytes h l r = Ok d \<and> node_ok h d (ls @ rs) \<and> descr_prev d = descr_prev l \<and>
    descr_next d = descr_next r \<and> descr_node_id d = descr_node_id l"
proof -
  let ?N = "node_size_bytes h" and ?a = "length ls" and ?b = "length rs" and ?E = "recs_end ls" and ?L = "recs_end rs - 29"
  note kl = node_okD [OF l] and kr = node_okD [OF r]
  have e29: "29 \<le> ?E" "29 \<le> recs_end rs" by (rule recs_end_ge)+
  have fit: "?E + ?L + 4 * ?a + 4 * ?b + 8 \<le> ?N" using fits by (simp add: recs_end_append)
  have sa: "8 + 4 * ?a \<le> ?N" "8 + 4 * ?b \<le> ?N" "8 + 4 * ?a + 4 * ?b \<le> ?N" using fit by simp_all
  have len_r: "DESCR_SIZE + ?L \<le> length r" using kr(1,3) e29 by (simp add: DESCR_SIZE_def)
  have sub: "sub32 (off h r ?b) DESCR_SIZE = ?L" using kr(2,3,6) e29 by (simp add: sub32_eq DESCR_SIZE_def)
  have lfs: "rd 4 l (slot h ?a) = ?E" using kl(6) by (simp add: off_def)
  define bs where "bs = rng r 29 ?L"
  have lb: "length bs = ?L" using len_r by (simp add: bs_def DESCR_SIZE_def)
  define l1 where "l1 = put l ?E bs"
  have l1: "length l1 = ?N" unfolding l1_def using lb fit kl(1) by simp
  have o1: "off h l1 j = off h l j" if "j \<le> ?a + ?b" for j
  proof -
    have s: "8 + 4 * j \<le> ?N" using that sa(3) by linarith
    then have "?E + length bs \<le> slot h j" using slot_bounds(2) [OF s] lb fit that by linarith
    then show ?thesis unfolding l1_def using s kl(1) by (intro off_put_low) auto
  qed
  have start: "off h l1 ?a = ?E" using o1 [of ?a] kl(6) by simp
  have roff: "29 \<le> off h r j \<and> ?E + off h r j - 29 < ?N \<and> off h r j \<le> recs_end rs" if "j \<le> ?b" for j
  proof (cases "j < ?b")
    case True
    then show ?thesis using kr(7-9) [OF True] fit by (auto simp: record_ok_def)
  next
    case False
    then have "off h r j = recs_end rs" using kr(6) that by simp
    then show ?thesis using e29 fit by linarith
  qed
  have "\<forall>j. 0 \<le> j \<longrightarrow> j < 0 + (?b + 1) \<longrightarrow> 8 + 4 * (j + ?a) \<le> ?N \<and> 29 \<le> off h r j \<and> ?E + off h r j - 29 < ?N"
    using roff sa(3) by auto
  from merge_offsets_ok [OF l1 kl(2) e29(1) this] obtain l2 where
    l2: "merge_offsets h l1 r ?a ?E 0 (?b + 1) = Ok l2" "length l2 = ?N"
    "\<And>j. 8 + 4 * j \<le> ?N \<Longrightarrow> off h l2 j = (if ?a \<le> j \<and> j \<le> ?a + ?b then ?E + off h r (j - ?a) - 29 else off h l1 j)"
    "\<And>q m. \<forall>j. ?a \<le> j \<longrightarrow> j \<le> ?a + ?b \<longrightarrow> q + m \<le> slot h j \<Longrightarrow> rng l2 q m = rng l1 q m" by (auto simp: less_Suc_eq_le)
  have low: "rng l2 q m = rng l1 q m" if "q + m \<le> ?E + ?L" for q m
  proof (rule l2(4), intro allI impI)
    fix j assume "?a \<le> j" "j \<le> ?a + ?b"
    then have "8 + 4 * j \<le> ?N" using sa(3) by linarith
    then show "q + m \<le> slot h j" using slot_bounds(2) [of j h] that fit \<open>j \<le> ?a + ?b\<close> by linarith
  qed
  have inl: "rng l1 q m = rng l q m" if "q + m \<le> ?E" for q m
    unfolding l1_def using that lb fit kl(1) by (intro rng_put_other) auto
  have inr: "rng l1 (?E + q - 29) m = rng r q m" if "29 \<le> q" "q + m \<le> recs_end rs" for q m
  proof -
    have "rng l1 (?E + q - 29) m = rng bs (q - 29) m"
      unfolding l1_def using that lb fit kl(1) by (subst rng_put_inside) auto
    then show ?thesis unfolding bs_def using that kr(1,3) by (simp add: rng_rng)
  qed
  have hd: "rd w l2 q = rd w l q" if "q + w \<le> 29" for q w
    using low [of q w] inl [of q w] that e29 by (simp add: rd_def)
  define f where "f = sub32 (descr_free_space l2) (?L + ?b * 4)"
  have fs2: "descr_free_space l2 = ?N - 8 - 4 * ?a - ?E" using hd [of 12 2] kl(5) by (simp add: descr_defs)
  have f: "f = ?N - 8 - (4 * ?a + 4 * ?b) - (?E + ?L)" unfolding f_def fs2 using fit kl(2) by (subst sub32_eq) auto
  define d where "d = set_next (descr_next r) (set_recs_count (?a + ?b) (set_free_space f l2))"
  have run: "merge_bytes h l r = Ok d"
    using check_offset_area_ok [OF l] check_offset_area_ok [OF r] kl(4) kr(4) sa lfs sub lb fit kl(1) kr(1) len_r l2(1) start
    by (simp add: merge_bytes_def Let_def offset_addr_ok get_offset_ok l1_def [unfolded bs_def, symmetric] DESCR_SIZE_def OFF_SIZE_def d_def f_def)
  have len2: "29 \<le> length l2" using l2(2) fit e29 by linarith
  have ld: "length d = ?N" using len2 l2(2) by (simp add: d_def descr_defs)
  have hi: "rng d q m = rng l2 q m" if "29 \<le> q" "q + m \<le> ?N" for q m
    using that len2 l2(2) by (simp add: d_def descr_defs rng_wr_other)
  have od: "off h d j = off h l2 j" if "8 + 4 * j \<le> ?N" "29 \<le> slot h j" for j
    using hi [of "slot h j" 4] slot_bounds(1) [OF that(1)] that(2) by (simp add: off_def rd_def)
  have sl: "8 + 4 * j \<le> ?N" "29 \<le> slot h j" if "j \<le> ?a + ?b" for j
  proof -
    show s: "8 + 4 * j \<le> ?N" using that sa(3) by linarith
    show "29 \<le> slot h j" using slot_bounds(2) [OF s] that fit e29 by linarith
  qed
  have offs: "off h d j = (if j < ?a then off h l j else ?E + off h r (j - ?a) - 29)" if "j \<le> ?a + ?b" for j
    using od [OF sl [OF that]] l2(3) [OF sl(1) [OF that]] o1 [OF that] that by auto
  have dn: "descr_next r < 256 ^ 4" unfolding descr_next_def by (rule rd_bound) (use kr(1,3) e29 in linarith)
  have cnt: "?a + ?b < 2 ^ 16" "f < 2 ^ 16" using sa(3) kl(2) f by linarith+
  have fld: "descr_recs_count d = ?a + ?b" "descr_free_space d = f" "descr_next d = descr_next r" "descr_prev d = descr_prev l"
    "descr_node_id d = descr_node_id l"
    using len2 cnt dn hd [of 20 4] hd [of 16 4] unfolding d_def descr_defs by (simp_all add: rd_wr_same rd_wr_other)
  have nth: "(ls @ rs) ! j = (if j < ?a then ls ! j else rs ! (j - ?a))" for j by (simp add: nth_append)
  have seg: "record_ok ((ls @ rs) ! j) \<and> 29 \<le> off h d j \<and> off h d j + length ((ls @ rs) ! j) \<le> ?E + ?L \<and>
      rng d (off h d j) (length ((ls @ rs) ! j)) = (ls @ rs) ! j \<and>
      (if j < ?a then off h d j + length ((ls @ rs) ! j) \<le> ?E else ?E \<le> off h d j)" if j: "j < ?a + ?b" for j
  proof (cases "j < ?a")
    case True
    have "rng d (off h l j) (length (ls ! j)) = ls ! j"
      using hi [of "off h l j" "length (ls ! j)"] low [of "off h l j" "length (ls ! j)"] inl [of "off h l j" "length (ls ! j)"]
        kl(8-10) [OF True] fit by simp
    then show ?thesis using True offs [of j] j kl(7-9) [OF True] by (simp add: nth)
  next
    case False
    then have k: "j - ?a < ?b" using j by simp
    let ?o = "?E + off h r (j - ?a) - 29"
    have "rng d ?o (length (rs ! (j - ?a))) = rs ! (j - ?a)"
      using hi [of ?o "length (rs ! (j - ?a))"] low [of ?o "length (rs ! (j - ?a))"] inr [of "off h r (j - ?a)" "length (rs ! (j - ?a))"]
        kr(8-10) [OF k] fit e29 by simp
    then show ?thesis using False offs [of j] j kr(7-9) [OF k] e29 by (simp add: nth) (intro conjI; linarith)
  qed
  have dis: "off h d i + length ((ls @ rs) ! i) \<le> off h d j \<or> off h d j + length ((ls @ rs) ! j) \<le> off h d i"
    if ij: "i < ?a + ?b" "j < ?a + ?b" "i \<noteq> j" for i j
  proof -
    have oi: "off h d i = (if i < ?a then off h l i else ?E + off h r (i - ?a) - 29)"
      and oj: "off h d j = (if j < ?a then off h l j else ?E + off h r (j - ?a) - 29)" using offs ij by simp_all
    consider "i < ?a" "j < ?a" | "\<not> i < ?a" "\<not> j < ?a" | "i < ?a \<longleftrightarrow> \<not> j < ?a" by blast
    then show ?thesis
    proof cases
      case 1
      then show ?thesis using kl(11) [of i j] ij oi oj by (simp add: nth)
    next
      case 2
      then have "i - ?a < ?b" "j - ?a < ?b" "i - ?a \<noteq> j - ?a" using ij by auto
      then show ?thesis using 2 kr(11) [of "i - ?a" "j - ?a"] kr(8) [of "i - ?a"] kr(8) [of "j - ?a"] oi oj by (simp add: nth) linarith
    next
      case 3
      then show ?thesis using seg [OF ij(1)] seg [OF ij(2)] by (auto split: if_splits)
    qed
  qed
  have "node_ok h d (ls @ rs)"
    unfolding node_ok_def recs_end_append
  proof (intro conjI allI impI)
    show "off h d (length (ls @ rs)) = ?E + ?L" using offs [of "?a + ?b"] kr(6) e29 by simp
    show "descr_free_space d = ?N - 8 - 4 * length (ls @ rs) - (?E + ?L)" using fld(2) f by simp
    fix i assume i: "i < length (ls @ rs)"
    then show "record_ok ((ls @ rs) ! i)" "29 \<le> off h d i" "off h d i + length ((ls @ rs) ! i) \<le> ?E + ?L"
      "rng d (off h d i) (length ((ls @ rs) ! i)) = (ls @ rs) ! i" using seg [of i] by simp_all
    fix j assume "j < length (ls @ rs)" "i \<noteq> j"
    then show "off h d i + length ((ls @ rs) ! i) \<le> off h d j \<or> off h d j + length ((ls @ rs) ! j) \<le> off h d i"
      using dis [of i j] i by simp
  qed (use ld kl(2) fit fld in simp_all)
  then show ?thesis using run fld by blast
qed

section \<open>What stays\<close>

text \<open>Outside of a set of nodes nothing changed.\<close>

definition frame :: "node_pool \<Rightarrow> (nat \<Rightarrow> u8 list list) \<Rightarrow> node_pool \<Rightarrow> (nat \<Rightarrow> u8 list list) \<Rightarrow> nat set \<Rightarrow> bool" where
  "frame P recs P' recs' S \<longleftrightarrow>
     pool_host P' = pool_host P \<and> (\<forall>z. z \<notin> S \<longrightarrow> pool_nodes P' z = pool_nodes P z \<and> recs' z = recs z)"

lemma frame_refl: "frame P recs P recs S"
  by (simp add: frame_def)

lemma frame_trans:
  "frame P recs P1 recs1 S \<Longrightarrow> frame P1 recs1 P2 recs2 T \<Longrightarrow> S \<subseteq> U \<Longrightarrow> T \<subseteq> U \<Longrightarrow> frame P recs P2 recs2 U"
  unfolding frame_def by (metis subset_iff)

lemma frame_mono: "frame P recs P' recs' S \<Longrightarrow> S \<subseteq> T \<Longrightarrow> frame P recs P' recs' T"
  by (auto simp: frame_def)

lemma frame_head:
  assumes "frame P recs P' recs' S" "0 \<notin> S"
  shows "vdfs2_btree_get_height P' = vdfs2_btree_get_height P" "vdfs2_btree_get_root_id P' = vdfs2_btree_get_root_id P"
  using assms by (simp_all add: frame_def vdfs2_btree_get_height_def vdfs2_btree_get_root_id_def head_data_def)

section \<open>Chains\<close>

lemma good_node_set_next:
  assumes g: "good_node key_ok P recs a y b" and h: "pool_host P' = pool_host P" and d: "pool_get P y = Ok d"
    and d': "pool_get P' y = Ok (set_next v d)" and r: "recs' y = recs y" and v: "v < 2 ^ 32"
  shows "good_node key_ok P' recs' a y v"
proof -
  have n: "node_ok (pool_host P) d (recs y)" "descr_prev d = a" "descr_node_id d = y" using g d by (auto simp: good_node_def)
  have "node_ok (pool_host P) (set_next v d) (recs y)" unfolding set_next_def by (rule node_ok_header [OF n(1)]) simp_all
  moreover have "descr_next (set_next v d) = v" "descr_prev (set_next v d) = a" "descr_node_id (set_next v d) = y"
    using node_len [OF n(1)] v n(2,3) by (simp_all add: descr_defs rd_wr_same rd_wr_other)
  ultimately show ?thesis using g h d' r by (simp add: good_node_def)
qed

lemma chain_first:
  assumes c: "chain key_ok P recs pv nx B" and h: "pool_host P' = pool_host P" and v: "v < 2 ^ 32"
    and f: "\<And>y. y \<in> set (tl B) \<Longrightarrow> pool_get P' y = pool_get P y" "\<And>y. y \<in> set B \<Longrightarrow> recs' y = recs y"
    and y: "\<And>y B' d. B = y # B' \<Longrightarrow> pool_get P y = Ok d \<Longrightarrow> pool_get P' y = Ok (set_prev v d)"
  shows "chain key_ok P' recs' v nx B"
proof (cases B)
  case (Cons y B')
  have g: "good_node key_ok P recs pv y (first_or nx B')" "chain key_ok P recs y nx B'" using c Cons by simp_all
  obtain d where d: "pool_get P y = Ok d" using g(1) by (auto simp: good_node_def)
  have "good_node key_ok P' recs' v y (first_or nx B')"
    using y [OF Cons d] f(2) Cons by (intro good_node_set_prev [OF g(1) h d _ _ v]) simp_all
  moreover have "chain key_ok P' recs' y nx B'" using g(2) chain_cong [OF h, of B' recs' recs] f Cons by simp
  ultimately show ?thesis using Cons by simp
qed simp

lemma chain_last:
  assumes c: "chain key_ok P recs pv nx A" and h: "pool_host P' = pool_host P" and v: "v < 2 ^ 32"
    and f: "\<And>y. y \<in> set (butlast A) \<Longrightarrow> pool_get P' y = pool_get P y" "\<And>y. y \<in> set A \<Longrightarrow> recs' y = recs y"
    and y: "\<And>y A' d. A = A' @ [y] \<Longrightarrow> pool_get P y = Ok d \<Longrightarrow> pool_get P' y = Ok (set_next v d)"
  shows "chain key_ok P' recs' pv v A"
proof (cases A rule: rev_cases)
  case (snoc A' y)
  have g: "good_node key_ok P recs (last_or pv A') y nx" "chain key_ok P recs pv y A'" using c snoc by (simp_all add: chain_append)
  obtain d where d: "pool_get P y = Ok d" using g(1) by (auto simp: good_node_def)
  have "good_node key_ok P' recs' (last_or pv A') y v"
    using y [OF snoc d] f(2) snoc by (intro good_node_set_next [OF g(1) h d _ _ v]) simp_all
  moreover have "chain key_ok P' recs' pv y A'" using g(2) chain_cong [OF h, of A' recs' recs] f snoc by simp
  ultimately show ?thesis using snoc by (simp add: chain_append)
qed simp

section \<open>Deleting a record\<close>

context stored_keys
begin

lemma lvl_frame_set:
  assumes "lvl key_ok rank P recs ns" "roomy P n" "roomy P' m" "frame P recs P' recs' S" "set ns \<inter> S = {}"
  shows "lvl key_ok rank P' recs' ns"
proof -
  have "pool_get P' y = pool_get P y \<and> recs' y = recs y" if "y \<in> set ns" for y
    using assms(4,5) that by (auto simp: frame_def pool_get_roomy [OF assms(2)] pool_get_roomy [OF assms(3)])
  then show ?thesis using lvl_cong [of P' P ns recs' recs] assms(1,4) by (auto simp: frame_def)
qed

lemma concat_delete:
  assumes "q < length (recs x)"
  shows "concat (map recs A) @ remove_at q (recs x) @ concat (map recs B) =
    remove_at (length (concat (map recs A)) + q) (concat (map recs (A @ x # B)))"
  using assms by (simp add: remove_at_def)

lemma sorted_remove_at:
  assumes "sorted_less (map f xs)"
  shows "sorted_less (map f (remove_at i xs))"
proof -
  have "sorted_less (map f (take i xs) @ map f (drop i xs))" using assms by (simp add: map_append [symmetric] del: map_append)
  moreover have "drop (Suc i) xs = drop 1 (drop i xs)" by simp
  ultimately show ?thesis
    using set_drop_subset [of 1 "drop i xs"] sorted_wrt_drop [of "(<)" "map f (drop i xs)" 1]
    by (auto simp: remove_at_def sorted_wrt_append drop_map)
qed

lemma level_delete:
  assumes l: "lvl key_ok rank P recs (A @ x # B)" and d: "pool_nodes P x = Some d" and rm: "roomy P n"
    and q: "q < length (recs x)" and two: "2 \<le> length (recs x)"
  shows "\<exists>d'. delete_from_node (pool_host P) d q = Ok d' \<and> node_ok (pool_host P) d' (remove_at q (recs x)) \<and>
    lvl key_ok rank (pool_put x d' P) (recs(x := remove_at q (recs x))) (A @ x # B) \<and> roomy (pool_put x d' P) n \<and>
    concat (map (recs(x := remove_at q (recs x))) (A @ x # B)) =
      remove_at (length (concat (map recs A)) + q) (concat (map recs (A @ x # B)))"
proof -
  let ?h = "pool_host P" and ?rs = "remove_at q (recs x)"
  have ch: "chain key_ok P recs 0 0 (A @ x # B)" and dst: "distinct (A @ x # B)"
    and so: "sorted_less (map rank (concat (map recs (A @ x # B))))" using l by (simp_all add: lvl_def)
  have g: "good_node key_ok P recs (last_or 0 A) x (first_or 0 B)" using ch by (simp add: chain_append)
  have pg: "pool_get P x = Ok d" using d pool_get_Ok [OF rm] by simp
  have n: "node_ok ?h d (recs x)" "descr_prev d = last_or 0 A" "descr_next d = first_or 0 B" "descr_node_id d = x"
    "x \<noteq> 0" "x < 2 ^ 32" "\<forall>r\<in>set (recs x). rec_fits key_ok ?h r" using g pg by (auto simp: good_node_def)
  have "length (recs x ! q) \<le> VDFS2_MAX_BTREE_REC_LEN" using n(7) q by (simp add: rec_fits_def)
  from delete_from_node_ok [OF n(1) q this] obtain d' where
    d': "delete_from_node ?h d q = Ok d'" "node_ok ?h d' ?rs" "rng d' 16 13 = rng d 16 13" by blast
  note fld = descr_fields_same [OF d'(3) node_len [OF n(1)] node_len [OF d'(2)]]
  let ?P = "pool_put x d' P" and ?recs = "recs(x := ?rs)"
  have ne: "?rs \<noteq> []" using two q by (cases "recs x") (auto simp: remove_at_def)
  have sub: "set ?rs \<subseteq> set (recs x)" by (rule set_remove_at_subset)
  have "good_node key_ok ?P ?recs (last_or 0 A) x (first_or 0 B)"
    using n d'(2) fld ne sub pool_get_put [of P x d'] roomy_unreadable [OF rm] by (auto simp: good_node_def)
  then have ch': "chain key_ok ?P ?recs 0 0 (A @ x # B)"
    using dst by (intro chain_replace [OF ch]) (auto simp: pool_get_put_other)
  have "concat (map ?recs A) = concat (map recs A)" "concat (map ?recs B) = concat (map recs B)"
    using dst by (auto intro!: arg_cong [where f = concat])
  then have cc: "concat (map ?recs (A @ x # B)) = remove_at (length (concat (map recs A)) + q) (concat (map recs (A @ x # B)))"
    using concat_delete [of q recs x A B] q by simp
  have "sorted_less (map rank (concat (map ?recs (A @ x # B))))" unfolding cc by (rule sorted_remove_at [OF so])
  then have "lvl key_ok rank ?P ?recs (A @ x # B)" using ch' dst by (simp add: lvl_def)
  moreover have "roomy ?P n" using rm d n(5) by (intro roomy_put) auto
  ultimately show ?thesis using d'(1,2) cc by blast
qed

section \<open>Taking an empty node out\<close>

lemma roomy_destroy:
  assumes "roomy P n" "x \<noteq> 0"
  shows "roomy (P\<lparr>pool_nodes := (pool_nodes P)(x := None)\<rparr>) n"
proof -
  let ?P = "P\<lparr>pool_nodes := (pool_nodes P)(x := None)\<rparr>"
  have "free_ids P = filter (\<lambda>i. pool_nodes P i = None) (free_ids ?P)"
    unfolding free_ids_def filter_filter by (rule filter_cong) auto
  then have "length (free_ids P) \<le> length (free_ids ?P)" by (metis length_filter_le)
  then show ?thesis using assms by (auto simp: roomy_def)
qed

text \<open>A pool in which one more node has new bytes.\<close>

lemma roomy_update:
  assumes "roomy P n" "pool_nodes P y = Some d" "y \<noteq> 0"
  shows "roomy (pool_put y d' P) n" "pool_get (pool_put y d' P) z = (if z = y then Ok d' else pool_get P z)"
  using roomy_put [OF assms(1)] roomy_unreadable [OF assms(1)] assms(2,3) by (auto simp: pool_get_def)

lemma chain_end:
  assumes "chain key_ok P recs pv nx (A' @ [y])" "roomy P n"
  obtains d where "pool_nodes P y = Some d" "pool_get P y = Ok d" "y \<noteq> 0" "y < 2 ^ 32"
  using assms pool_get_Ok [OF assms(2)] by (auto simp: chain_append good_node_def)

lemma chain_start:
  assumes "chain key_ok P recs pv nx (y # B')" "roomy P n"
  obtains d where "pool_nodes P y = Some d" "pool_get P y = Ok d" "y \<noteq> 0" "y < 2 ^ 32"
  using assms pool_get_Ok [OF assms(2)] by (auto simp: good_node_def)

text \<open>Setting the link of the last node of a part of the chain, and of the first one.\<close>

definition relink_last :: "nat list \<Rightarrow> nat \<Rightarrow> node_pool \<Rightarrow> node_pool" where
  "relink_last A v P = (if A = [] then P else pool_put (last A) (set_next v (the (pool_nodes P (last A)))) P)"

definition relink_first :: "nat list \<Rightarrow> nat \<Rightarrow> node_pool \<Rightarrow> node_pool" where
  "relink_first B v P = (if B = [] then P else pool_put (hd B) (set_prev v (the (pool_nodes P (hd B)))) P)"

lemma relink_last_ok:
  assumes c: "chain key_ok P recs pv nx A" and rm: "roomy P n" and v: "v < 2 ^ 32" and dst: "distinct A"
  shows "chain key_ok (relink_last A v P) recs pv v A" "roomy (relink_last A v P) n" "frame P recs (relink_last A v P) recs (set A)"
    "(if last_or 0 A = 0 then Ok P else and_then (pool_get P (last_or 0 A)) (\<lambda>b. Ok (pool_put (last_or 0 A) (set_next v b) P))) =
      Ok (relink_last A v P)"
proof -
  consider "A = []" | A' y d where "A = A' @ [y]" "pool_nodes P y = Some d" "pool_get P y = Ok d" "y \<noteq> 0"
    using c chain_end [OF _ rm] by (metis rev_exhaust)
  then have "chain key_ok (relink_last A v P) recs pv v A \<and> roomy (relink_last A v P) n \<and> frame P recs (relink_last A v P) recs (set A) \<and>
    (if last_or 0 A = 0 then Ok P else and_then (pool_get P (last_or 0 A)) (\<lambda>b. Ok (pool_put (last_or 0 A) (set_next v b) P))) =
      Ok (relink_last A v P)"
  proof cases
    case 1
    then show ?thesis using rm by (simp add: relink_last_def frame_refl)
  next
    case 2
    have r: "relink_last A v P = pool_put y (set_next v d) P" using 2 by (simp add: relink_last_def)
    note u = roomy_update [OF rm 2(2,4), of "set_next v d"]
    have "chain key_ok (pool_put y (set_next v d) P) recs pv v A"
      using 2 u(2) dst by (intro chain_last [OF c _ v]) auto
    then show ?thesis unfolding r using 2 u(1) by (auto simp: frame_def)
  qed
  then show "chain key_ok (relink_last A v P) recs pv v A" "roomy (relink_last A v P) n" "frame P recs (relink_last A v P) recs (set A)"
    "(if last_or 0 A = 0 then Ok P else and_then (pool_get P (last_or 0 A)) (\<lambda>b. Ok (pool_put (last_or 0 A) (set_next v b) P))) =
      Ok (relink_last A v P)" by blast+
qed

lemma relink_first_ok:
  assumes c: "chain key_ok P recs pv nx B" and rm: "roomy P n" and v: "v < 2 ^ 32" and dst: "distinct B"
  shows "chain key_ok (relink_first B v P) recs v nx B" "roomy (relink_first B v P) n" "frame P recs (relink_first B v P) recs (set B)"
    "(if first_or 0 B = 0 then Ok P else and_then (pool_get P (first_or 0 B)) (\<lambda>b. Ok (pool_put (first_or 0 B) (set_prev v b) P))) =
      Ok (relink_first B v P)"
proof -
  consider "B = []" | B' y d where "B = y # B'" "pool_nodes P y = Some d" "pool_get P y = Ok d" "y \<noteq> 0"
    using c chain_start [OF _ rm] by (metis list.exhaust)
  then have "chain key_ok (relink_first B v P) recs v nx B \<and> roomy (relink_first B v P) n \<and> frame P recs (relink_first B v P) recs (set B) \<and>
    (if first_or 0 B = 0 then Ok P else and_then (pool_get P (first_or 0 B)) (\<lambda>b. Ok (pool_put (first_or 0 B) (set_prev v b) P))) =
      Ok (relink_first B v P)"
  proof cases
    case 1
    then show ?thesis using rm by (simp add: relink_first_def frame_refl)
  next
    case 2
    have r: "relink_first B v P = pool_put y (set_prev v d) P" using 2 by (simp add: relink_first_def)
    note u = roomy_update [OF rm 2(2,4), of "set_prev v d"]
    have "chain key_ok (pool_put y (set_prev v d) P) recs v nx B"
      using 2 u(2) dst by (intro chain_first [OF c _ v]) auto
    then show ?thesis unfolding r using 2 u(1) by (auto simp: frame_def)
  qed
  then show "chain key_ok (relink_first B v P) recs v nx B" "roomy (relink_first B v P) n" "frame P recs (relink_first B v P) recs (set B)"
    "(if first_or 0 B = 0 then Ok P else and_then (pool_get P (first_or 0 B)) (\<lambda>b. Ok (pool_put (first_or 0 B) (set_prev v b) P))) =
      Ok (relink_first B v P)" by blast+
qed

lemma chain_frame:
  assumes "chain key_ok P recs pv nx A" "roomy P n" "roomy P' m" "frame P recs P' recs' S" "set A \<inter> S = {}"
  shows "chain key_ok P' recs' pv nx A"
proof -
  have "pool_get P' y = pool_get P y \<and> recs' y = recs y" if "y \<in> set A" for y
    using assms(4,5) that by (auto simp: frame_def pool_get_roomy [OF assms(2)] pool_get_roomy [OF assms(3)])
  then show ?thesis using chain_cong [of P' P A recs' recs] assms(1,4) by (auto simp: frame_def)
qed

lemma chain_ids: "chain key_ok P recs pv nx A \<Longrightarrow> y \<in> set A \<Longrightarrow> y \<noteq> 0 \<and> y < 2 ^ 32"
  using chain_good [of key_ok P recs pv nx A y] by (auto simp: good_node_def)

lemma chain_or_bounds:
  assumes "chain key_ok P recs pv nx A"
  shows "last_or 0 A < 2 ^ 32" "first_or 0 A < 2 ^ 32"
proof -
  show "last_or 0 A < 2 ^ 32" using chain_ids [OF assms] by (cases A rule: rev_cases) auto
  show "first_or 0 A < 2 ^ 32" using chain_ids [OF assms] by (cases A) auto
qed

lemma level_unlink:
  assumes l: "lvl key_ok rank P recs (A @ x # B)" and ne: "A @ B \<noteq> []" and rm: "roomy P n"
    and d: "descr_prev d = last_or 0 A" "descr_next d = first_or 0 B"
  shows "\<exists>P'. and_then (unlink_bnode d (pool_put x d P)) (pool_destroy x) = Ok P' \<and> lvl key_ok rank P' recs (A @ B) \<and> roomy P' n \<and>
    frame P recs P' recs (set (A @ x # B))"
proof -
  have ch: "chain key_ok P recs 0 0 (A @ x # B)" and dst: "distinct (A @ x # B)"
    and so: "sorted_less (map rank (concat (map recs (A @ x # B))))" using l by (simp_all add: lvl_def)
  have x0: "x \<noteq> 0" using chain_ids [OF ch, of x] by simp
  obtain b where b: "pool_nodes P x = Some b" using ch pool_get_Ok [OF rm] by (auto simp: chain_append good_node_def)
  have cA: "chain key_ok P recs 0 x A" and cB: "chain key_ok P recs x 0 B" using ch by (simp_all add: chain_append)
  define P1 where "P1 = pool_put x d P"
  have r1: "roomy P1 n" unfolding P1_def by (rule roomy_update(1) [OF rm b x0])
  have f1: "frame P recs P1 recs {x}" by (simp add: frame_def P1_def)
  have A1: "chain key_ok P1 recs 0 x A" "chain key_ok P1 recs x 0 B"
    using chain_frame [OF cA rm r1 f1] chain_frame [OF cB rm r1 f1] dst by simp_all
  define P2 where "P2 = relink_last A (first_or 0 B) P1"
  note k2 = relink_last_ok [OF A1(1) r1 chain_or_bounds(2) [OF A1(2)], folded P2_def]
  have dA: "distinct A" "distinct B" "set A \<inter> set B = {}" "x \<notin> set A" "x \<notin> set B" using dst by auto
  have B2: "chain key_ok P2 recs x 0 B" using chain_frame [OF A1(2) r1 k2(2) [OF dA(1)] k2(3) [OF dA(1)]] dA(3) by (simp add: Int_commute)
  define P3 where "P3 = relink_first B (last_or 0 A) P2"
  note k3 = relink_first_ok [OF B2 k2(2) [OF dA(1)] chain_or_bounds(1) [OF A1(1)] dA(2), folded P3_def]
  have A3: "chain key_ok P3 recs 0 (first_or 0 B) A"
    using chain_frame [OF k2(1) [OF dA(1)] k2(2) [OF dA(1)] k3(2,3)] dA(3) by simp
  have un: "unlink_bnode d P1 = Ok P3" unfolding unlink_bnode_def d using k2(4) [OF dA(1)] k3(4) by simp
  define P4 where "P4 = P3\<lparr>pool_nodes := (pool_nodes P3)(x := None)\<rparr>"
  have run: "and_then (unlink_bnode d (pool_put x d P)) (pool_destroy x) = Ok P4"
    using un x0 by (simp add: P1_def pool_destroy_def P4_def)
  have r4: "roomy P4 n" unfolding P4_def by (rule roomy_destroy [OF k3(2) x0])
  have f4: "frame P3 recs P4 recs {x}" by (simp add: frame_def P4_def)
  have "chain key_ok P4 recs 0 0 (A @ B)"
    using chain_frame [OF A3 k3(2) r4 f4] chain_frame [OF k3(1,2) r4 f4] dA(4,5) by (simp add: chain_append)
  moreover have "sorted_less (map rank (concat (map recs (A @ B))))" using so by (simp add: sorted_wrt_append ball_Un)
  ultimately have "lvl key_ok rank P4 recs (A @ B)" using ne dA by (simp add: lvl_def)
  moreover have "frame P recs P4 recs (set (A @ x # B))"
  proof -
    have "frame P recs P2 recs (set (A @ x # B))" by (rule frame_trans [OF f1 k2(3) [OF dA(1)]]) auto
    then have "frame P recs P3 recs (set (A @ x # B))" by (rule frame_trans [OF _ k3(3)]) auto
    then show ?thesis by (rule frame_trans [OF _ f4]) auto
  qed
  ultimately show ?thesis using run r4 by blast
qed

section \<open>Joining two neighbours\<close>

lemma level_merge:
  assumes l: "lvl key_ok rank P recs (A @ x # y # B)" and rm: "roomy P n"
    and d: "pool_nodes P x = Some dl" "pool_nodes P y = Some dr"
    and fits: "node_size_bytes (pool_host P) \<le> descr_free_space dl + descr_free_space dr"
  shows "\<exists>dm. merge_bytes (pool_host P) dl dr = Ok dm \<and> descr_node_id dm = x \<and> descr_next dr = first_or 0 B \<and>
    lvl key_ok rank (relink_first B x (pool_put x dm P)) (recs(x := recs x @ recs y)) (A @ x # B) \<and>
    roomy (relink_first B x (pool_put x dm P)) n \<and>
    (if first_or 0 B = 0 then Ok (pool_put x dm P)
     else and_then (pool_get (pool_put x dm P) (first_or 0 B)) (\<lambda>b. Ok (pool_put (first_or 0 B) (set_prev x b) (pool_put x dm P)))) =
      Ok (relink_first B x (pool_put x dm P)) \<and>
    frame P recs (relink_first B x (pool_put x dm P)) (recs(x := recs x @ recs y)) (set (A @ x # B))"
proof -
  let ?h = "pool_host P" and ?recs = "recs(x := recs x @ recs y)"
  have ch: "chain key_ok P recs 0 0 (A @ x # y # B)" and dst: "distinct (A @ x # y # B)"
    and so: "sorted_less (map rank (concat (map recs (A @ x # y # B))))" using l by (simp_all add: lvl_def)
  have g: "good_node key_ok P recs (last_or 0 A) x y" "good_node key_ok P recs x y (first_or 0 B)"
    and cA: "chain key_ok P recs 0 x A" and cB: "chain key_ok P recs y 0 B" using ch by (simp_all add: chain_append)
  have n: "node_ok ?h dl (recs x)" "descr_prev dl = last_or 0 A" "descr_node_id dl = x" "x \<noteq> 0" "x < 2 ^ 32" "recs x \<noteq> []"
    "\<forall>r\<in>set (recs x). rec_fits key_ok ?h r" "node_ok ?h dr (recs y)" "descr_next dr = first_or 0 B" "\<forall>r\<in>set (recs y). rec_fits key_ok ?h r"
    using g d pool_get_Ok [OF rm] by (auto simp: good_node_def)
  have "recs_end (recs x @ recs y) + 4 * length (recs x @ recs y) + 8 \<le> node_size_bytes ?h"
    using fits node_okD(3,5) [OF n(1)] node_okD(3,5) [OF n(8)] recs_end_ge [of "recs x"] recs_end_ge [of "recs y"]
    unfolding recs_end_append length_append distrib_left by linarith
  from merge_bytes_ok [OF n(1,8) this] obtain dm where
    m: "merge_bytes ?h dl dr = Ok dm" "node_ok ?h dm (recs x @ recs y)" "descr_prev dm = descr_prev dl"
      "descr_next dm = descr_next dr" "descr_node_id dm = descr_node_id dl" by blast
  define P1 where "P1 = pool_put x dm P"
  have r1: "roomy P1 n" unfolding P1_def by (rule roomy_update(1) [OF rm d(1) n(4)])
  have f1: "frame P recs P1 ?recs {x}" by (simp add: frame_def P1_def)
  have dA: "distinct A" "distinct B" "set A \<inter> set B = {}" "x \<notin> set A" "x \<notin> set B" using dst by auto
  have A1: "chain key_ok P1 ?recs 0 x A" "chain key_ok P1 ?recs y 0 B"
    using chain_frame [OF cA rm r1 f1] chain_frame [OF cB rm r1 f1] dA(4,5) by simp_all
  have g1: "good_node key_ok P1 ?recs (last_or 0 A) x (first_or 0 B)"
    using n m pool_get_put [of P x dm] roomy_unreadable [OF rm] by (auto simp: good_node_def P1_def)
  define P2 where "P2 = relink_first B x P1"
  note k2 = relink_first_ok [OF A1(2) r1 n(5) dA(2), folded P2_def]
  have A2: "chain key_ok P2 ?recs 0 x A" using chain_frame [OF A1(1) r1 k2(2,3)] dA(3) by simp
  have "chain key_ok P1 ?recs (last_or 0 A) (first_or 0 B) [x]" using g1 by simp
  from chain_frame [OF this r1 k2(2,3)] have g2: "good_node key_ok P2 ?recs (last_or 0 A) x (first_or 0 B)" using dA(5) by simp
  have cc: "concat (map ?recs (A @ x # B)) = concat (map recs (A @ x # y # B))"
  proof -
    have "concat (map ?recs A) = concat (map recs A)" "concat (map ?recs B) = concat (map recs B)"
      using dA(4,5) by (auto intro!: arg_cong [where f = concat])
    then show ?thesis by simp
  qed
  have "lvl key_ok rank P2 ?recs (A @ x # B)"
    unfolding lvl_def cc using A2 g2 k2(1) so dA by (simp add: chain_append)
  moreover have "frame P recs P2 ?recs (set (A @ x # B))" by (rule frame_trans [OF f1 k2(3)]) auto
  ultimately show ?thesis using m(1,5) n(3,9) k2(2,4) unfolding P2_def P1_def by simp
qed

end

end
