(* ===== verification/Btree_Insert_Inv.thy ===== *)
theory Btree_Insert_Inv
  imports Btree_Level
begin

text \<open>
  Adding a record keeps a tree well-formed and adds exactly this record. The levels are taken
  from the leaves upwards, the way the index records are added.
\<close>

section \<open>Index levels\<close>

lemma index_ok_cong:
  assumes "index_ok rank recs ns ms" "\<And>x. x \<in> set ns \<Longrightarrow> recs' x = recs x" "\<And>y. y \<in> set ms \<Longrightarrow> rank (recs' y ! 0) = rank (recs y ! 0)"
  shows "index_ok rank recs' ns ms"
proof -
  have "concat (map recs' ns) = concat (map recs ns)" using assms(2) by (auto intro!: arg_cong [where f = concat])
  then show ?thesis using assms(1,3) by (simp add: index_ok_def Let_def)
qed

lemma index_ok_insert:
  assumes ix: "index_ok rank recs ns ms" and c: "concat (map recs' ns') = insert_at (g + 1) r (concat (map recs ns))"
    and g: "g < length ms" and r: "rank r = rank (recs' rid ! 0)" "child_id r = rid" "key_len r + INDEX_VALUE_SIZE \<le> length r"
    and f: "\<And>y. y \<in> set ms \<Longrightarrow> rank (recs' y ! 0) = rank (recs y ! 0)"
  shows "index_ok rank recs' ns' (insert_at (g + 1) rid ms)"
proof -
  let ?rs = "concat (map recs ns)"
  have l: "length ?rs = length ms" and m: "\<And>i. i < length ms \<Longrightarrow> rank (?rs ! i) = rank (recs (ms ! i) ! 0) \<and> child_id (?rs ! i) = ms ! i \<and>
      key_len (?rs ! i) + INDEX_VALUE_SIZE \<le> length (?rs ! i)"
    using ix by (simp_all add: index_ok_def Let_def)
  have m': "rank (?rs ! i) = rank (recs' (ms ! i) ! 0)" if "i < length ms" for i
    using m [OF that] f [of "ms ! i"] that by simp
  have g': "g < length ?rs" using g l by simp
  show ?thesis
    unfolding index_ok_def Let_def c
  proof (intro conjI allI impI)
    show "length (insert_at (g + 1) r ?rs) = length (insert_at (g + 1) rid ms)" using l by simp
    fix i assume i: "i < length (insert_at (g + 1) rid ms)"
    then have i': "i < length (insert_at (g + 1) r ?rs)" using l by simp
    let ?a = "insert_at (g + 1) r ?rs ! i" and ?b = "insert_at (g + 1) rid ms ! i"
    have "?a = (if i < g + 1 then ?rs ! i else if i = g + 1 then r else ?rs ! (i - 1))"
      "?b = (if i < g + 1 then ms ! i else if i = g + 1 then rid else ms ! (i - 1))"
      using i i' g g' by (intro nth_insert_at; simp)+
    moreover have "i < g + 1 \<or> i = g + 1 \<or> g + 1 < i \<and> i - 1 < length ms" using i by auto
    ultimately consider "i < length ms" "?a = ?rs ! i" "?b = ms ! i" | "?a = r" "?b = rid"
      | "i - 1 < length ms" "?a = ?rs ! (i - 1)" "?b = ms ! (i - 1)"
      using g by fastforce
    then show "rank ?a = rank (recs' ?b ! 0)" "child_id ?a = ?b" "key_len ?a + INDEX_VALUE_SIZE \<le> length ?a"
      using m m' r g by (cases; simp)+
  qed
qed

section \<open>The path to a record\<close>

text \<open>
  The nodes passed on the way down, the lowest first, for the record number \<open>g\<close> of the lowest
  level. The number of a node in its level is the number of its index record above.
\<close>

fun stack_for :: "(nat \<Rightarrow> u8 list list) \<Rightarrow> nat \<Rightarrow> nat list list \<Rightarrow> nat \<Rightarrow> vdfs2_btree_traverse_stack list \<Rightarrow> bool" where
  "stack_for recs level [] g st \<longleftrightarrow> st = []"
| "stack_for recs level (ns # up) g st \<longleftrightarrow>
     (\<exists>i p st'. st = \<lparr>st_bnode_id = ns ! i, st_pos = int p, st_level = level\<rparr> # st' \<and> i < length ns \<and> p < length (recs (ns ! i)) \<and>
        g = length (concat (map recs (take i ns))) + p \<and> stack_for recs (level + 1) up i st')"

lemma stack_for_cong:
  "(\<And>ns x. ns \<in> set up \<Longrightarrow> x \<in> set ns \<Longrightarrow> recs' x = recs x) \<Longrightarrow> stack_for recs' level up g st = stack_for recs level up g st"
proof (induction up arbitrary: level g st)
  case (Cons ns up)
  have a: "recs' x = recs x" if "x \<in> set ns" for x using Cons.prems [of ns x] that by simp
  have b: "concat (map recs' (take i ns)) = concat (map recs (take i ns))" for i
    using a in_set_takeD [of _ i ns] by (intro arg_cong [where f = concat] map_cong) auto
  have c: "stack_for recs' l up i st = stack_for recs l up i st" for l i st using Cons.prems by (intro Cons.IH) auto
  show ?case unfolding stack_for.simps b c using a by (metis nth_mem)
qed simp

lemma stack_for_length: "stack_for recs level up g st \<Longrightarrow> length st = length up"
  by (induction up arbitrary: level g st) auto

context stored_keys
begin

fun idx_up :: "(nat \<Rightarrow> u8 list list) \<Rightarrow> nat list \<Rightarrow> nat list list \<Rightarrow> bool" where
  "idx_up recs ms [] \<longleftrightarrow> True"
| "idx_up recs ms (ns # up) \<longleftrightarrow> index_ok rank recs ns ms \<and> idx_up recs ns up"

lemma idx_up_cong:
  assumes "idx_up recs ms up" "\<And>ns x. ns \<in> set up \<Longrightarrow> x \<in> set ns \<Longrightarrow> recs' x = recs x"
    "\<And>y. y \<in> set ms \<Longrightarrow> rank (recs' y ! 0) = rank (recs y ! 0)"
  shows "idx_up recs' ms up"
  using assms
proof (induction up arbitrary: ms)
  case (Cons ns up)
  have ix: "index_ok rank recs ns ms" "idx_up recs ns up" using Cons.prems(1) by simp_all
  have e: "recs' x = recs x" if "x \<in> set ns" for x using Cons.prems(2) [of ns x] that by simp
  have "idx_up recs' ns up" by (rule Cons.IH [OF ix(2)]) (use Cons.prems(2) e in \<open>meson list.set_intros(2), simp\<close>)
  then show ?case using index_ok_cong [OF ix(1) e Cons.prems(3)] by simp
qed simp

section \<open>One index record\<close>

lemma roomy_mono: "roomy P n \<Longrightarrow> m \<le> n \<Longrightarrow> roomy P m"
  by (auto simp: roomy_def)

lemma place_key_ok:
  assumes l: "lvl key_ok rank P recs ns" and i: "i < length ns" and p: "p < length (recs (ns ! i))" and k: "new_key (pool_host P) k len"
    and c: "count_le rank (concat (map recs ns)) (rank k) = length (concat (map recs (take i ns))) + p + 1"
    and ne: "rank (recs (ns ! i) ! p) \<noteq> rank k" and rm: "roomy P (Suc n)"
    and up: "st_level e = vdfs2_btree_get_height P \<or> up \<noteq> []"
  shows "\<exists>info P' recs' new. place_key_in_bnode cmp P (e # up) (ns ! i) (int p) k len todo [] =
      (Ok info, P', (case new of None \<Rightarrow> todo | Some rid \<Rightarrow>
        \<lparr>td_traverse_data = (if st_level e = vdfs2_btree_get_height P then None else Some up),
         td_point_to_bnode_id = rid, td_current_root_id = vdfs2_btree_get_root_id P\<rparr> # todo), []) \<and> roomy P' n \<and>
    level_placed P recs (take i ns) (ns ! i) (drop (Suc i) ns) p k len info P' recs' new"
proof -
  let ?A = "take i ns" and ?x = "ns ! i" and ?B = "drop (Suc i) ns"
  have ns: "ns = ?A @ ?x # ?B" using i by (rule id_take_nth_drop)
  have l': "lvl key_ok rank P recs (?A @ ?x # ?B)" using l ns by simp
  have c': "count_le rank (concat (map recs (?A @ ?x # ?B))) (rank k) = length (concat (map recs ?A)) + p + 1" using c ns by simp
  obtain d where d: "pool_nodes P ?x = Some d"
    using l i pool_get_Ok [OF rm] chain_good [of key_ok P recs 0 0 ns ?x] by (auto simp: lvl_def good_node_def)
  show ?thesis
  proof (cases "is_node_full d k")
    case True
    from place_split [OF l' p k c' ne rm d True up] show ?thesis by (metis option.case(2))
  next
    case False
    have "roomy P n" using rm by (rule roomy_mono) simp
    from place_no_split [OF l' p k c' ne this d False] show ?thesis by (metis option.case(1))
  qed
qed

text \<open>The key of the first record of a node, as it is used for the index record.\<close>

lemma first_key:
  assumes ok: "node_ok h d rs" and rs: "rs \<noteq> []" and f: "rec_fits key_ok h (rs ! 0)"
  defines "k \<equiv> drop (off h d 0) d"
  shows "get_record h d 0 = Ok (off h d 0)" "new_key h k (key_len k + INDEX_VALUE_SIZE)" "rank k = rank (rs ! 0)" "key_ok k"
proof -
  have r0: "0 < length rs" using rs by simp
  note g = get_record_ok [OF ok r0]
  note fk = rec_fits_key [OF f]
  let ?r = "rs ! 0"
  show "get_record h d 0 = Ok (off h d 0)" by (rule g(1))
  have tk: "take (length ?r) k = ?r" "length ?r \<le> length k" using g(2,5) by (simp_all add: k_def rng_def)
  have kk: "k = ?r @ drop (length ?r) k" using tk(1) append_take_drop_id [of "length ?r" k] by simp
  have kl: "key_len k = key_len ?r" unfolding key_len_def by (subst kk) (use fk(3,4) in \<open>simp add: rd_append\<close>)
  have rl: "record_len k = length ?r"
    unfolding record_len_def by (subst kk) (use fk(3,4) node_okD(7) [OF ok r0] in \<open>simp add: rd_append record_ok_def record_len_def\<close>)
  have "take (key_len k) k = take (key_len ?r) ?r" unfolding kl using tk fk(4) by (metis take_take min_absorb1)
  then show "new_key h k (key_len k + INDEX_VALUE_SIZE)"
    using f kl rl fk(4) tk(2) by (simp add: new_key_def rec_fits_def)
  show "rank k = rank ?r" by (subst kk) (rule rank_append [OF fk(1)])
  show "key_ok k" by (subst kk) (rule ok_append [OF fk(1)])
qed

end

section \<open>A new root\<close>

context stored_keys
begin

lemma child_id_put:
  assumes "rec_fits key_ok h r"
  shows "child_id (put r (key_len r) (le_bytes 4 v)) = v mod 2 ^ 32"
proof -
  have b: "key_len r + length (le_bytes 4 v) \<le> length r" using assms by (simp add: rec_fits_def INDEX_VALUE_SIZE_def)
  have "child_id (put r (key_len r) (le_bytes 4 v)) = rd 4 (wr 4 r (key_len r) v) (key_len r)"
    using key_of_put(3) [OF assms b] by (simp add: child_id_def wr_def)
  also have "\<dots> = v mod 256 ^ 4" using b by (intro rd_wr_same) simp
  finally show ?thesis by simp
qed

lemma new_root_step:
  assumes ok: "node_ok (pool_host P) d rs" and cok: "node_ok (pool_host P) c rc" "rc \<noteq> []" "rec_fits key_ok (pool_host P) (rc ! 0)"
    and room: "37 + recs_size rs + length (rc ! 0) + 4 \<le> node_size_bytes (pool_host P)"
  shows "\<exists>d2 r. new_root_loop P (Suc fuel) cid c (length rs) d =
      (case vdfs2_get_next_bnode P c of
         Err e \<Rightarrow> (if e = ENOENT then Ok d2 else Err e) | Bug \<Rightarrow> Bug
       | Ok (next_id, next_bnode) \<Rightarrow> new_root_loop P fuel next_id next_bnode (length rs + 1) d2) \<and>
    node_ok (pool_host P) d2 (rs @ [r]) \<and> rank r = rank (rc ! 0) \<and> child_id r = cid mod 2 ^ 32 \<and> rec_fits key_ok (pool_host P) r \<and>
    length r \<le> length (rc ! 0) \<and> rng d2 16 13 = rng d 16 13"
proof -
  let ?h = "pool_host P"
  define k where "k = drop (off ?h c 0) c"
  note fk = first_key [OF cok, folded k_def]
  note kk = new_keyD [OF fk(2)]
  let ?len = "key_len k + INDEX_VALUE_SIZE"
  have c0: "0 < length rc" using cok(2) by simp
  have "record_len k = length (rc ! 0)"
    using get_record_ok(3) [OF cok(1) c0] by (simp add: k_def record_len_def rd_def rng_def add.commute)
  then have rl: "record_len k = length (rc ! 0)" "?len \<le> length (rc ! 0)" using kk(4) by simp_all
  have nf: "\<not> is_node_full d k" using node_space [OF ok] room rl(1) by (simp add: is_node_full_def OFF_SIZE_def)
  have room': "37 + recs_size rs + ?len + 4 \<le> node_size_bytes ?h" using room rl(2) by simp
  have rc: "descr_recs_count d = length rs" using node_okD(4) [OF ok] by simp
  from insert_new [OF ok room' kk(1-3)] obtain d1 r where i: "insert_key_into_bnode ?h d k ?len (length rs) = Ok (recs_end rs, d1)"
    "node_ok ?h d1 (rs @ [r])" "is_new k ?len r" "rng d1 16 13 = rng d 16 13" "off ?h d1 (length rs) = recs_end rs"
    unfolding rc is_new_def by blast
  note nr = new_record_fits [OF fk(2) i(3)]
  have q: "length rs < length (rs @ [r])" by simp
  have v: "get_value_pointer d1 (recs_end rs) = Ok (recs_end rs + key_len k)"
    using placed_value [OF i(2) q, of 0 0] i(5) nr by (simp add: form_gen_record_def rec_fits_def)
  define d2 where "d2 = wr 4 d1 (recs_end rs + key_len k) cid"
  have b: "key_len k + length (le_bytes 4 cid) \<le> length ((rs @ [r]) ! length rs)" "12 \<le> key_len k"
    using i(3) kk(1) by (simp_all add: is_new_def INDEX_VALUE_SIZE_def)
  define r' where "r' = put r (key_len k) (le_bytes 4 cid)"
  note nv = node_ok_value [OF i(2) q b(2,1), unfolded i(5) nth_append_length]
  have d2: "node_ok ?h d2 (rs @ [r'])" "rng d2 16 13 = rng d1 16 13" using nv(1,2) by (simp_all add: d2_def r'_def wr_def)
  have b': "key_len r + length (le_bytes 4 cid) \<le> length r" using b nr(2) by simp
  note kp = key_of_put [OF nr(1) b', unfolded nr(2), folded r'_def]
  have "length r' \<le> length (rc ! 0)" using rl(2) i(3) b' nr(2) by (simp add: r'_def is_new_def)
  moreover have "child_id r' = cid mod 2 ^ 32" using child_id_put [OF nr(1), of cid] nr(2) by (simp add: r'_def)
  moreover have "new_root_loop P (Suc fuel) cid c (length rs) d =
      (case vdfs2_get_next_bnode P c of
         Err e \<Rightarrow> (if e = ENOENT then Ok d2 else Err e) | Bug \<Rightarrow> Bug
       | Ok (next_id, next_bnode) \<Rightarrow> new_root_loop P fuel next_id next_bnode (length rs + 1) d2)"
    unfolding d2_def using fk(1) nf i(1) v by (simp add: k_def [symmetric] Let_def)
  ultimately show ?thesis using d2 i(4) kp nr(3) fk(3) by (intro exI [of _ d2] exI [of _ r']) simp
qed

lemma build_new_root_ok:
  assumes l: "lvl key_ok rank P recs [x, y]" and rm: "roomy P (Suc n)" and rt: "vdfs2_btree_get_root_id P = x"
    and ht: "vdfs2_btree_get_height P + 1 < 2 ^ 16"
  shows "\<exists>P' nr rs. build_new_root P x [] = (Success, P', []) \<and> roomy P' n \<and> pool_host P' = pool_host P \<and>
    pool_nodes P nr = None \<and> nr \<noteq> 0 \<and> lvl key_ok rank P' (recs(nr := rs)) [nr] \<and> index_ok rank (recs(nr := rs)) [nr] [x, y] \<and>
    vdfs2_btree_get_root_id P' = nr \<and> vdfs2_btree_get_height P' = vdfs2_btree_get_height P + 1 \<and>
    (\<forall>z. z \<noteq> 0 \<longrightarrow> z \<noteq> nr \<longrightarrow> pool_nodes P' z = pool_nodes P z)"
proof -
  let ?h = "pool_host P"
  have g: "good_node key_ok P recs 0 x y" "good_node key_ok P recs x y 0" and xy: "x \<noteq> y"
    and so: "sorted_less (map rank (recs x @ recs y))"
    using l by (simp_all add: lvl_def)
  obtain c1 where c1: "pool_get P x = Ok c1" "node_ok ?h c1 (recs x)" "descr_next c1 = y" using g(1) by (auto simp: good_node_def)
  obtain c2 where c2: "pool_get P y = Ok c2" "node_ok ?h c2 (recs y)" "descr_next c2 = 0" using g(2) by (auto simp: good_node_def)
  have x: "x \<noteq> 0" "recs x \<noteq> []" "rec_fits key_ok ?h (recs x ! 0)" "x < 2 ^ 32" and y: "y \<noteq> 0" "recs y \<noteq> []" "rec_fits key_ok ?h (recs y ! 0)" "y < 2 ^ 32"
    using g by (simp_all add: good_node_def)
  obtain nr where al: "pool_alloc P = (Ok (nr, page_bytes P nr), pool_put nr (page_bytes P nr) P)" "pool_nodes P nr = None"
    "nr \<noteq> 0" "nr < 2 ^ 32" "\<And>d. roomy (pool_put nr d P) n"
    using pool_alloc_ok [OF rm] by blast
  define P1 where "P1 = pool_put nr (page_bytes P nr) P"
  have nxy: "nr \<noteq> x" "nr \<noteq> y" using al(2) c1(1) c2(1) pool_get_Ok [OF rm] by auto
  have get1: "pool_get P1 x = Ok c1" "pool_get P1 y = Ok c2" using nxy c1(1) c2(1) by (simp_all add: P1_def pool_get_put_other)
  have h1: "pool_host P1 = ?h" by (simp add: P1_def)
  have root1: "vdfs2_btree_get_root_id P1 = x"
    using rt al(3) by (simp add: P1_def vdfs2_btree_get_root_id_def head_data_def)
  have pl: "length (page_bytes P nr) = node_size_bytes ?h" using rm by (simp add: roomy_def)
  have N: "37 \<le> node_size_bytes ?h" "node_size_bytes ?h < 2 ^ 16" using node_space(2) [OF c1(2)] node_okD(2) [OF c1(2)] by simp_all
  obtain d0 where d0: "init_new_node_descr ?h (page_bytes P nr) nr VDFS2_NODE_INDEX = Ok d0" "node_ok ?h d0 []" "descr_node_id d0 = nr"
    "descr_prev d0 = 0" "descr_next d0 = 0"
    using init_node_ok [OF pl N, of nr VDFS2_NODE_INDEX] al(4) by auto
  have sz: "length (recs x ! 0) + 40 \<le> node_size_bytes ?h div 2" "length (recs y ! 0) + 40 \<le> node_size_bytes ?h div 2"
    using x(3) y(3) by (simp_all add: rec_fits_def)
  have r1: "37 + recs_size [] + length (recs x ! 0) + 4 \<le> node_size_bytes (pool_host P1)" using sz h1 by simp
  obtain f where f: "descr_free_space d0 + 1 = Suc (Suc f)"
  proof -
    have "0 < descr_free_space d0" using node_space [OF d0(2)] sz by simp
    then show ?thesis using that [of "descr_free_space d0 - 1"] by simp
  qed
  from new_root_step [of P1 d0 "[]" c1 "recs x" "Suc f" x] obtain d1 a where s1:
    "new_root_loop P1 (Suc (Suc f)) x c1 0 d0 = new_root_loop P1 (Suc f) y c2 1 d1" "node_ok ?h d1 [a]" "rank a = rank (recs x ! 0)"
    "child_id a = x" "rec_fits key_ok ?h a" "length a \<le> length (recs x ! 0)" "rng d1 16 13 = rng d0 16 13"
    using d0(2) c1 x y(1) get1 r1 h1 by (auto simp: vdfs2_get_next_bnode_def)
  have r2: "37 + recs_size [a] + length (recs y ! 0) + 4 \<le> node_size_bytes (pool_host P1)" using sz s1(6) h1 by simp
  from new_root_step [of P1 d1 "[a]" c2 "recs y" f y] obtain d2 b where s2:
    "new_root_loop P1 (Suc f) y c2 1 d1 = Ok d2" "node_ok ?h d2 [a, b]" "rank b = rank (recs y ! 0)"
    "child_id b = y" "rec_fits key_ok ?h b" "rng d2 16 13 = rng d1 16 13"
    using s1(2) c2 y r2 h1 by (auto simp: vdfs2_get_next_bnode_def)
  define P' where "P' = vdfs2_btree_set_root_id nr (vdfs2_btree_inc_height (pool_put nr d2 P1))"
  have run: "build_new_root P x [] = (Success, P', [])"
    using rt al(1) d0(1) root1 get1(1) c1(3) y(1) f s1(1) s2(1) h1
    by (simp add: build_new_root_def Let_def P1_def [symmetric] P'_def)
  obtain hd0 where hd0: "pool_nodes P 0 = Some hd0" "18 \<le> length hd0" using rm by (auto simp: roomy_def)
  have nodes': "pool_nodes P' z = (if z = 0 then Some (wr 4 (wr 2 hd0 16 (vdfs2_btree_get_height P + 1)) 12 nr)
      else if z = nr then Some d2 else pool_nodes P z)" for z
    using al(3) hd0 by (auto simp: P'_def P1_def vdfs2_btree_set_root_id_def vdfs2_btree_inc_height_def head_data_def
        vdfs2_btree_get_height_def)
  have h': "pool_host P' = ?h" "unreadable P' = unreadable P"
    by (simp_all add: P'_def P1_def vdfs2_btree_set_root_id_def vdfs2_btree_inc_height_def)
  have hdlen: "18 \<le> length (wr 4 (wr 2 hd0 16 v) 12 nr)" for v using hd0 by simp
  have P'eq: "P' = pool_put 0 (wr 4 (wr 2 hd0 16 (vdfs2_btree_get_height P + 1)) 12 nr) (pool_put nr d2 P)"
    using al(3) hd0 by (auto simp: P'_def P1_def vdfs2_btree_set_root_id_def vdfs2_btree_inc_height_def head_data_def
        vdfs2_btree_get_height_def pool_put_def)
  have rm': "roomy P' n" unfolding P'eq using hd0 al(3) hdlen by (intro roomy_put [OF al(5)]) auto
  have hr: "vdfs2_btree_get_root_id P' = nr" "vdfs2_btree_get_height P' = vdfs2_btree_get_height P + 1"
    using hd0(2) al(4) ht by (simp_all add: vdfs2_btree_get_root_id_def vdfs2_btree_get_height_def head_data_def nodes' rd_wr_same rd_wr_other)
  let ?recs = "recs(nr := [a, b])"
  have lt: "rank a < rank b"
  proof -
    have "recs x ! 0 \<in> set (recs x)" "recs y ! 0 \<in> set (recs y)" using x(2) y(2) by simp_all
    then show ?thesis using so s1(3) s2(3) by (auto simp: sorted_wrt_append)
  qed
  have "descr_prev d2 = 0" "descr_next d2 = 0" "descr_node_id d2 = nr"
    using descr_fields_same [OF trans [OF s2(6) s1(7)] node_len [OF d0(2)] node_len [OF s2(2)]] d0(3-5) by simp_all
  then have lv: "lvl key_ok rank P' ?recs [nr]"
    using al(3,4) s1(5) s2(2,5) h' roomy_unreadable [OF rm] lt unfolding lvl_def good_node_def
    by (simp add: good_node_def pool_get_def nodes')
  have "index_ok rank ?recs [nr] [x, y]"
    unfolding index_ok_def Let_def using nxy s1(3-5) s2(3-5) by (auto simp: nth_Cons' rec_fits_def)
  then show ?thesis using run rm' h'(1) al(2,3) lv hr nodes' by (intro exI [of _ P'] exI [of _ nr] exI [of _ "[a, b]"]) simp
qed

end

section \<open>One index record\<close>

context stored_keys
begin

lemma set_split_level:
  assumes "i < length ns"
  shows "set (split_level (take i ns) (ns ! i) (drop (Suc i) ns) new) = set ns \<union> set_option new"
proof -
  have "set ns = set (take i ns @ ns ! i # drop (Suc i) ns)" using id_take_nth_drop [OF assms] by simp
  then show ?thesis by (auto simp: split_level_def split: option.splits)
qed

text \<open>Between the first keys of the two nodes around it a key has its place in the index level.\<close>

lemma index_count:
  assumes l: "lvl key_ok rank P recs ns" and ix: "index_ok rank recs ns (A @ x # B)"
    and lo: "rank (recs x ! 0) \<le> key" and hi: "B \<noteq> [] \<Longrightarrow> key < rank (recs (hd B) ! 0)"
  shows "count_le rank (concat (map recs ns)) key = length A + 1"
proof -
  let ?rs = "concat (map recs ns)" and ?ms = "A @ x # B"
  have m: "length ?rs = length ?ms" "\<And>i. i < length ?ms \<Longrightarrow> rank (?rs ! i) = rank (recs (?ms ! i) ! 0)"
    using ix by (simp_all add: index_ok_def Let_def)
  have "count_le rank ?rs key = Suc (length A)"
  proof (rule count_le_Suc)
    show "sorted_less (map rank ?rs)" using l by (simp add: lvl_def)
    show "length A < length ?rs" using m(1) by simp
    show "rank (?rs ! length A) \<le> key" using m(2) [of "length A"] lo by simp
    assume "length A + 1 < length ?rs"
    then have "B \<noteq> []" "length A + 1 < length ?ms" using m(1) by auto
    then show "key < rank (?rs ! (length A + 1))"
      using m(2) [of "length A + 1"] hi by (simp add: nth_append hd_conv_nth)
  qed
  then show ?thesis by simp
qed

text \<open>The node of a level that holds the record number \<open>g\<close> is the one the search looks into.\<close>

lemma level_search:
  assumes l: "lvl key_ok rank P recs ns" and i: "i < length ns" and p: "p < length (recs (ns ! i))" and key: "key_ok k"
    and c: "count_le rank (concat (map recs ns)) (rank k) = length (concat (map recs (take i ns))) + p + 1"
  shows "\<exists>d. btree_traverse_level cmp P k (ns ! i) = Ok (d, int p)"
proof -
  let ?xss = "map recs ns" and ?rs = "concat (map recs ns)"
  let ?b = "length (concat (take i ?xss))"
  have lv: "level_ok key_ok rank P recs ns" using l by (rule lvl_level_ok)
  have so: "sorted_less (map rank ?rs)" using l by (simp add: lvl_def)
  have ne: "\<forall>xs\<in>set ?xss. xs \<noteq> []" using lv by (auto simp: level_ok_def in_set_conv_nth)
  have i': "i < length ?xss" and p': "p < length (?xss ! i)" using i p by simp_all
  have lt: "rank (?rs ! a) \<le> rank (?rs ! b)" if "a \<le> b" "b < length ?rs" for a b
    using so that by (cases "a = b") (auto simp: sorted_wrt_iff_nth_less intro: less_imp_le)
  have bp: "?b + p < length ?rs" using length_concat_take_mono [OF i' p'] .
  have cb: "?b + p + 1 = count_le rank ?rs (rank k)" "?b + p + 1 \<noteq> 0" using c by (simp_all add: take_map)
  note cl = count_le_bounds [OF so cb]
  have r0: "rank (recs (ns ! i) ! 0) \<le> rank k"
  proof -
    have "0 < length (recs (ns ! i))" using p by (rule le_less_trans [OF le0])
    then have "rank (recs (ns ! i) ! 0) = rank (?rs ! ?b)" using nth_concat_at [OF i', of 0] i by simp
    also have "\<dots> \<le> rank (?rs ! (?b + p))" using bp by (intro lt) simp_all
    also have "\<dots> \<le> rank k" using cl(1) by simp
    finally show ?thesis .
  qed
  have hi: "rank k < rank (recs (ns ! (i + 1)) ! 0)" if i1: "i + 1 < length ns"
  proof -
    have j: "i + 1 < length ?xss" "0 < length (?xss ! (i + 1))" using i1 ne by auto
    have t: "length (concat (take (i + 1) ?xss)) = ?b + length (recs (ns ! i))" using i by (simp add: take_Suc_conv_app_nth)
    have a: "?rs ! (?b + length (recs (ns ! i))) = recs (ns ! (i + 1)) ! 0" "?b + length (recs (ns ! i)) < length ?rs"
      using nth_concat_at [OF j] length_concat_take_mono [OF j] t i1 by simp_all
    have "?b + p + 1 < length ?rs" "?b + p + 1 \<le> ?b + length (recs (ns ! i))" using a(2) p by simp_all
    then have "rank k < rank (?rs ! (?b + length (recs (ns ! i))))" using cl(2) lt a(2) by (meson less_le_trans)
    then show ?thesis using a(1) by simp
  qed
  from traverse_level_ok [OF lv i key r0 hi] obtain d p2 where
    "btree_traverse_level cmp P k (ns ! i) = Ok (d, int p2)"
    "count_le rank ?rs (rank k) = length (concat (map recs (take i ns))) + p2 + 1" by blast
  then show ?thesis using c by simp
qed

lemma index_step:
  assumes l: "lvl key_ok rank P recs ns" and lm: "lvl key_ok rank P recs (A @ x # rid # B)"
    and ix: "index_ok rank recs ns (A @ x # B)" and dj: "set ns \<inter> set (A @ x # rid # B) = {}"
    and i: "i < length ns" and p: "p < length (recs (ns ! i))" and j: "length A = length (concat (map recs (take i ns))) + p"
    and e: "st_bnode_id e = ns ! i" and rm: "roomy P (Suc n)" and up: "st_level e = vdfs2_btree_get_height P \<or> st \<noteq> []"
  shows "\<exists>P' recs' new r. place_index_record cmp P (Some (e # st)) rid root todo [] =
      (Success, P', (case new of None \<Rightarrow> todo | Some r2 \<Rightarrow>
        \<lparr>td_traverse_data = (if st_level e = vdfs2_btree_get_height P then None else Some st),
         td_point_to_bnode_id = r2, td_current_root_id = vdfs2_btree_get_root_id P\<rparr> # todo), []) \<and> roomy P' n \<and>
    (\<forall>r2. new = Some r2 \<longrightarrow> pool_nodes P r2 = None \<and> r2 \<noteq> 0) \<and>
    level_added P recs ns (length A) P' recs' (split_level (take i ns) (ns ! i) (drop (Suc i) ns) new) r \<and>
    index_ok rank recs' (split_level (take i ns) (ns ! i) (drop (Suc i) ns) new) (A @ x # rid # B)"
proof -
  let ?h = "pool_host P" and ?C = "take i ns" and ?D = "drop (Suc i) ns"
  have ns: "ns = ?C @ ns ! i # ?D" using i by (rule id_take_nth_drop)
  have chm: "chain key_ok P recs 0 0 (A @ x # rid # B)" and som: "sorted_less (map rank (concat (map recs (A @ x # rid # B))))"
    using lm by (simp_all add: lvl_def)
  have gr: "good_node key_ok P recs x rid (first_or 0 B)" using chm by (simp add: chain_append)
  obtain dr where dr: "pool_get P rid = Ok dr" "node_ok ?h dr (recs rid)" "recs rid \<noteq> []" "rec_fits key_ok ?h (recs rid ! 0)" "rid < 2 ^ 32"
    using gr by (auto simp: good_node_def)
  define k where "k = drop (off ?h dr 0) dr"
  note fk = first_key [OF dr(2-4), folded k_def]
  have ranks: "rank (recs x ! 0) < rank k" "B \<noteq> [] \<Longrightarrow> rank k < rank (recs (hd B) ! 0)"
  proof -
    have ne: "recs x \<noteq> []" "B \<noteq> [] \<Longrightarrow> recs (hd B) \<noteq> []"
      using chain_good [OF chm, of x] chain_good [OF chm, of "hd B"] by (auto simp: good_node_def)
    have "recs x ! 0 \<in> set (recs x)" "recs rid ! 0 \<in> set (recs rid)" using ne(1) dr(3) by simp_all
    then show "rank (recs x ! 0) < rank k" using som fk(3) by (auto simp: sorted_wrt_append)
    assume B: "B \<noteq> []"
    then have "recs (hd B) ! 0 \<in> set (concat (map recs B))" using ne(2) by (cases B) auto
    then show "rank k < rank (recs (hd B) ! 0)" using som fk(3) \<open>recs rid ! 0 \<in> set (recs rid)\<close> by (auto simp: sorted_wrt_append)
  qed
  have c: "count_le rank (concat (map recs ns)) (rank k) = length (concat (map recs ?C)) + p + 1"
    using index_count [OF l ix less_imp_le [OF ranks(1)] ranks(2)] j by simp
  obtain dd where t: "btree_traverse_level cmp P k (ns ! i) = Ok (dd, int p)" using level_search [OF l i p fk(4) c] by blast
  have g: "length A < length (concat (map recs ns))" using ix by (simp add: index_ok_def Let_def)
  have gA: "concat (map recs ns) ! length A = recs (ns ! i) ! p"
    using nth_concat_at [of i "map recs ns" p] i p j by (simp add: take_map)
  have ne: "rank (recs (ns ! i) ! p) \<noteq> rank k"
  proof -
    have "rank (concat (map recs ns) ! length A) = rank (recs x ! 0)" using ix by (simp add: index_ok_def Let_def)
    then show ?thesis using ranks(1) gA by simp
  qed
  from place_key_ok [OF l i p fk(2) c ne rm up, where todo = todo] obtain info P1 recs1 new where
    pk: "place_key_in_bnode cmp P (e # st) (ns ! i) (int p) k (key_len k + INDEX_VALUE_SIZE) todo [] =
      (Ok info, P1, (case new of None \<Rightarrow> todo | Some rid \<Rightarrow>
        \<lparr>td_traverse_data = (if st_level e = vdfs2_btree_get_height P then None else Some st),
         td_point_to_bnode_id = rid, td_current_root_id = vdfs2_btree_get_root_id P\<rparr> # todo), [])" "roomy P1 n"
      "level_placed P recs ?C (ns ! i) ?D p k (key_len k + INDEX_VALUE_SIZE) info P1 recs1 new" by blast
  have bs: "key_len k + length (le_bytes 4 rid) \<le> key_len k + INDEX_VALUE_SIZE" by (simp add: INDEX_VALUE_SIZE_def)
  have g': "length A < length (concat (map recs (?C @ ns ! i # ?D)))" using g ns by simp
  from level_placed_write [OF pk(3,2) bs j g'] obtain y v d recs' r where
    w: "rec_bnode_id info = y" "rec_val info = Ok v" "pool_nodes P1 y = Some d" "roomy (pool_put y (put d v (le_bytes 4 rid)) P1) n"
      "is_new k (key_len k + INDEX_VALUE_SIZE) r"
      "level_added P recs ns (length A) (pool_put y (put d v (le_bytes 4 rid)) P1) recs' (split_level ?C (ns ! i) ?D new) (put r (key_len k) (le_bytes 4 rid))"
      "key_len (put r (key_len k) (le_bytes 4 rid)) = key_len k" "rank (put r (key_len k) (le_bytes 4 rid)) = rank k"
    unfolding ns [symmetric] by blast
  let ?P = "pool_put y (put d v (le_bytes 4 rid)) P1" and ?ns = "split_level ?C (ns ! i) ?D new" and ?r = "put r (key_len k) (le_bytes 4 rid)"
  have run: "place_index_record cmp P (Some (e # st)) rid root todo [] =
      (Success, ?P, (case new of None \<Rightarrow> todo | Some r2 \<Rightarrow>
        \<lparr>td_traverse_data = (if st_level e = vdfs2_btree_get_height P then None else Some st),
         td_point_to_bnode_id = r2, td_current_root_id = vdfs2_btree_get_root_id P\<rparr> # todo), [])"
    using dr(1) fk(1) t e pk(1) w(1-3) by (simp add: place_index_record_def k_def [symmetric] wr_def)
  have fresh: "\<forall>r2. new = Some r2 \<longrightarrow> pool_nodes P r2 = None \<and> r2 \<noteq> 0" using pk(3) by (simp add: level_placed_def Let_def)
  have nm: "recs' z = recs z" if z: "z \<in> set (A @ x # rid # B)" for z
  proof -
    have "pool_nodes P z \<noteq> None" using chain_good [OF chm z] pool_get_Ok [OF rm] by (auto simp: good_node_def)
    then have "z \<notin> set ?ns" using fresh dj z unfolding set_split_level [OF i] by auto
    then show ?thesis using w(6) by (simp add: level_added_def)
  qed
  note nr = new_record_fits [OF fk(2) w(5)]
  have "index_ok rank recs' ?ns (insert_at (length A + 1) rid (A @ x # B))"
  proof (rule index_ok_insert [OF ix])
    show "concat (map recs' ?ns) = insert_at (length A + 1) ?r (concat (map recs ns))" using w(6) by (simp add: level_added_def)
    show "rank ?r = rank (recs' rid ! 0)" using w(8) fk(3) nm by simp
    show "child_id ?r = rid" using child_id_put [OF nr(1), of rid] nr(2) dr(5) by simp
    show "key_len ?r + INDEX_VALUE_SIZE \<le> length ?r" using w(5,7) by (simp add: is_new_def INDEX_VALUE_SIZE_def)
  qed (use nm in auto)
  then have "index_ok rank recs' ?ns (A @ x # rid # B)" by (simp add: insert_at_def)
  then show ?thesis using run w(4,6) fresh by blast
qed

end

section \<open>The index records of all levels\<close>

context stored_keys
begin

lemma lvl_in_pool:
  assumes "lvl key_ok rank P recs ns" "roomy P n" "y \<in> set ns"
  shows "pool_nodes P y \<noteq> None" "y \<noteq> 0"
  using chain_good [of key_ok P recs 0 0 ns y] assms pool_get_Ok [OF assms(2)] by (auto simp: lvl_def good_node_def)

lemma lvl_frame:
  assumes "lvl key_ok rank P recs ns" "roomy P n" "roomy P' m" "pool_host P' = pool_host P"
    and "\<And>y. y \<in> set ns \<Longrightarrow> pool_nodes P' y = pool_nodes P y" "\<And>y. y \<in> set ns \<Longrightarrow> recs' y = recs y"
  shows "lvl key_ok rank P' recs' ns"
proof -
  have "pool_get P' y = pool_get P y" if "y \<in> set ns" for y
    using assms(5) [OF that] by (simp add: pool_get_roomy [OF assms(2)] pool_get_roomy [OF assms(3)])
  then have "lvl key_ok rank P' recs' ns = lvl key_ok rank P recs ns" by (rule lvl_cong [OF assms(4) _ assms(6)])
  then show ?thesis using assms(1) by simp
qed

lemma head_same:
  "pool_nodes P' 0 = pool_nodes P 0 \<Longrightarrow> vdfs2_btree_get_height P' = vdfs2_btree_get_height P"
  "pool_nodes P' 0 = pool_nodes P 0 \<Longrightarrow> vdfs2_btree_get_root_id P' = vdfs2_btree_get_root_id P"
  by (simp_all add: vdfs2_btree_get_height_def vdfs2_btree_get_root_id_def head_data_def)

text \<open>The levels \<open>up\<close> above \<open>ms\<close> became \<open>up'\<close>, and the rest of the pool is as before.\<close>

definition work_done ::
  "node_pool \<Rightarrow> (nat \<Rightarrow> u8 list list) \<Rightarrow> nat list \<Rightarrow> nat list list \<Rightarrow> nat \<Rightarrow> nat \<Rightarrow> node_pool \<Rightarrow> (nat \<Rightarrow> u8 list list) \<Rightarrow> nat list list \<Rightarrow> bool" where
  "work_done P recs ms up l n P' recs' up' \<longleftrightarrow>
     roomy P' n \<and> pool_host P' = pool_host P \<and>
     (\<forall>ns\<in>set up'. lvl key_ok rank P' recs' ns) \<and> idx_up recs' ms up' \<and> distinct (concat (ms # up')) \<and>
     last (ms # up') = [vdfs2_btree_get_root_id P'] \<and> vdfs2_btree_get_height P' = l + length up' \<and>
     (\<forall>y. y \<noteq> 0 \<longrightarrow> y \<notin> set (concat up') \<longrightarrow> pool_nodes P' y = pool_nodes P y \<and> recs' y = recs y) \<and>
     (\<forall>y\<in>set (concat up'). y \<in> set (concat up) \<or> pool_nodes P y = None)"

lemma index_work_ok:
  assumes "lvl key_ok rank P recs (A @ x # rid # B)" "\<forall>ns\<in>set up. lvl key_ok rank P recs ns" "idx_up recs (A @ x # B) up"
    "distinct (concat ((A @ x # rid # B) # up))" "last ((A @ x # B) # up) = [vdfs2_btree_get_root_id P]"
    "vdfs2_btree_get_height P = l + length up" "l + length up + 1 < 2 ^ 16" "stack_for recs (l + 1) up (length A) st"
    "roomy P (length up + 1 + n)" "length up + 1 \<le> fuel"
  shows "\<exists>P' recs' up'. do_index_work cmp fuel P [\<lparr>td_traverse_data = (if up = [] then None else Some st), td_point_to_bnode_id = rid,
        td_current_root_id = vdfs2_btree_get_root_id P\<rparr>] [] = (Success, P', []) \<and>
      work_done P recs (A @ x # rid # B) up l n P' recs' up'"
  using assms
proof (induction up arbitrary: P recs A x rid B l st fuel)
  case Nil
  have AB: "A = []" "B = []" "x = vdfs2_btree_get_root_id P" using Nil.prems(5) by (cases A; simp)+
  have l2: "lvl key_ok rank P recs [x, rid]" and rm: "roomy P (Suc n)" using Nil.prems(1,9) AB by simp_all
  have ht: "vdfs2_btree_get_height P + 1 < 2 ^ 16" using Nil.prems(6,7) by simp
  from build_new_root_ok [OF l2 rm AB(3) [symmetric] ht] obtain P' nr rs where b:
    "build_new_root P x [] = (Success, P', [])" "roomy P' n" "pool_host P' = pool_host P" "pool_nodes P nr = None" "nr \<noteq> 0"
    "lvl key_ok rank P' (recs(nr := rs)) [nr]" "index_ok rank (recs(nr := rs)) [nr] [x, rid]"
    "vdfs2_btree_get_root_id P' = nr" "vdfs2_btree_get_height P' = vdfs2_btree_get_height P + 1"
    "\<forall>z. z \<noteq> 0 \<longrightarrow> z \<noteq> nr \<longrightarrow> pool_nodes P' z = pool_nodes P z" by blast
  have nx: "nr \<noteq> x" "nr \<noteq> rid" using b(4) lvl_in_pool(1) [OF l2 rm, of x] lvl_in_pool(1) [OF l2 rm, of rid] by auto
  obtain f where f: "fuel = Suc f" using Nil.prems(10) by (cases fuel) auto
  define recs' where "recs' = recs(nr := rs)"
  have r: "\<forall>z. z \<noteq> nr \<longrightarrow> recs' z = recs z" by (simp add: recs'_def)
  note b' = b(6,7) [folded recs'_def]
  show ?case using b(1-5,8-10) b' r nx f AB Nil.prems(4,6)
    by (intro exI [of _ P'] exI [of _ recs'] exI [of _ "[[nr]]"]) (auto simp: place_index_record_def work_done_def)
next
  case (Cons ns up)
  let ?ms = "A @ x # rid # B"
  obtain i p st' where st: "st = \<lparr>st_bnode_id = ns ! i, st_pos = int p, st_level = l + 1\<rparr> # st'" and i: "i < length ns"
    and p: "p < length (recs (ns ! i))" and j: "length A = length (concat (map recs (take i ns))) + p" and sf: "stack_for recs (l + 1 + 1) up i st'"
    using Cons.prems(8) by auto
  let ?e = "\<lparr>st_bnode_id = ns ! i, st_pos = int p, st_level = l + 1\<rparr>"
  obtain f where f: "fuel = Suc f" "length up + 1 \<le> f" using Cons.prems(10) by (cases fuel) auto
  have ln: "lvl key_ok rank P recs ns" and lu: "\<forall>us\<in>set up. lvl key_ok rank P recs us" using Cons.prems(2) by simp_all
  have ix: "index_ok rank recs ns (A @ x # B)" and iu: "idx_up recs ns up" using Cons.prems(3) by simp_all
  have dst: "distinct ?ms" "distinct ns" "distinct (concat up)" "set ?ms \<inter> set ns = {}" "set ?ms \<inter> set (concat up) = {}" "set ns \<inter> set (concat up) = {}"
    using Cons.prems(4) by auto
  have rm: "roomy P (Suc (length up + 1 + n))" using Cons.prems(9) by simp
  have top: "st_level ?e = vdfs2_btree_get_height P \<longleftrightarrow> up = []" using Cons.prems(6) by simp
  have e: "st_level ?e = vdfs2_btree_get_height P \<or> st' \<noteq> []" using top stack_for_length [OF sf] by auto
  from index_step [OF ln Cons.prems(1) ix _ i p j _ rm e, where root = "vdfs2_btree_get_root_id P" and todo = "[]"] dst(4)
  obtain P1 recs1 new r where s: "place_index_record cmp P (Some st) rid (vdfs2_btree_get_root_id P) [] [] =
      (Success, P1, (case new of None \<Rightarrow> [] | Some r2 \<Rightarrow>
        [\<lparr>td_traverse_data = (if up = [] then None else Some st'), td_point_to_bnode_id = r2,
          td_current_root_id = vdfs2_btree_get_root_id P\<rparr>]), [])" "roomy P1 (length up + 1 + n)"
    "\<forall>r2. new = Some r2 \<longrightarrow> pool_nodes P r2 = None \<and> r2 \<noteq> 0"
    "level_added P recs ns (length A) P1 recs1 (split_level (take i ns) (ns ! i) (drop (Suc i) ns) new) r"
    "index_ok rank recs1 (split_level (take i ns) (ns ! i) (drop (Suc i) ns) new) ?ms"
    unfolding top st by (auto simp: Int_commute)
  let ?ns = "split_level (take i ns) (ns ! i) (drop (Suc i) ns) new"
  have a: "pool_host P1 = pool_host P" "pool_nodes P1 0 = pool_nodes P 0"
    "\<And>y. y \<notin> set ?ns \<Longrightarrow> pool_nodes P1 y = pool_nodes P y \<and> recs1 y = recs y"
    "\<And>y. y \<in> set ns \<Longrightarrow> rank (recs1 y ! 0) = rank (recs y ! 0)" "lvl key_ok rank P1 recs1 ?ns"
    using s(4) by (auto simp: level_added_def)
  note hd = head_same [OF a(2)]
  have sns: "set ?ns = set ns \<union> set_option new" by (rule set_split_level [OF i])
  have other: "y \<notin> set ?ns" if "y \<in> set (concat up)" for y
  proof -
    obtain us where "us \<in> set up" "y \<in> set us" using \<open>y \<in> set (concat up)\<close> by auto
    then have "pool_nodes P y \<noteq> None" using lu lvl_in_pool(1) [OF _ rm] by blast
    then show ?thesis using s(3) dst(6) that unfolding sns by (auto elim: option.set_cases)
  qed
  have msn: "y \<notin> set ?ns" if "y \<in> set ?ms" for y
    using s(3) dst(4) that lvl_in_pool(1) [OF Cons.prems(1) rm that] unfolding sns by (auto elim: option.set_cases)
  have lu1: "\<forall>us\<in>set up. lvl key_ok rank P1 recs1 us"
  proof
    fix us assume us: "us \<in> set up"
    have "y \<notin> set ?ns" if "y \<in> set us" for y using other that us by auto
    then show "lvl key_ok rank P1 recs1 us" using lu us a(1,3) by (intro lvl_frame [OF _ rm s(2)]) auto
  qed
  have upr: "recs1 y = recs y" if "us \<in> set up" "y \<in> set us" for us y
  proof -
    have "y \<in> set (concat up)" using that by auto
    then show ?thesis using a(3) other by blast
  qed
  have iu1: "idx_up recs1 ns up" by (rule idx_up_cong [OF iu upr a(4)])
  show ?case
  proof (cases new)
    case None
    have ns: "?ns = ns" using None id_take_nth_drop [OF i] by (simp add: split_level_def)
    have run: "do_index_work cmp fuel P [\<lparr>td_traverse_data = (if ns # up = [] then None else Some st), td_point_to_bnode_id = rid,
        td_current_root_id = vdfs2_btree_get_root_id P\<rparr>] [] = (Success, P1, [])"
      using f s(1) None by simp
    have "roomy P1 n" using s(2) by (rule roomy_mono) simp
    moreover have "\<forall>us\<in>set (ns # up). lvl key_ok rank P1 recs1 us" "idx_up recs1 ?ms (ns # up)" using a(5) lu1 s(5) iu1 ns by simp_all
    moreover have "last (?ms # ns # up) = [vdfs2_btree_get_root_id P1]" "vdfs2_btree_get_height P1 = l + length (ns # up)"
      using Cons.prems(5,6) hd by simp_all
    moreover have "\<forall>y. y \<noteq> 0 \<longrightarrow> y \<notin> set (concat (ns # up)) \<longrightarrow> pool_nodes P1 y = pool_nodes P y \<and> recs1 y = recs y"
      using a(3) ns by simp
    ultimately show ?thesis using run a(1) Cons.prems(4)
      by (intro exI [of _ P1] exI [of _ recs1] exI [of _ "ns # up"]) (simp add: work_done_def)
  next
    case (Some r2)
    have ns: "?ns = take i ns @ ns ! i # r2 # drop (Suc i) ns" using Some by (simp add: split_level_def)
    have ns0: "take i ns @ ns ! i # drop (Suc i) ns = ns" using id_take_nth_drop [OF i] by simp
    have nsl: "distinct ?ns" using a(5) by (simp add: lvl_def)
    have IH: "\<exists>P' recs' up'. do_index_work cmp f P1 [\<lparr>td_traverse_data = (if up = [] then None else Some st'), td_point_to_bnode_id = r2,
        td_current_root_id = vdfs2_btree_get_root_id P1\<rparr>] [] = (Success, P', []) \<and>
      work_done P1 recs1 (take i ns @ ns ! i # r2 # drop (Suc i) ns) up (l + 1) n P' recs' up'"
    proof (rule Cons.IH)
      show "lvl key_ok rank P1 recs1 (take i ns @ ns ! i # r2 # drop (Suc i) ns)" using a(5) ns by simp
      show "idx_up recs1 (take i ns @ ns ! i # drop (Suc i) ns) up" using iu1 ns0 by simp
      show "distinct (concat ((take i ns @ ns ! i # r2 # drop (Suc i) ns) # up))"
        using nsl dst(3) other unfolding ns [symmetric] by auto
      show "last ((take i ns @ ns ! i # drop (Suc i) ns) # up) = [vdfs2_btree_get_root_id P1]"
        unfolding ns0 using Cons.prems(5) hd by simp
      show "stack_for recs1 (l + 1 + 1) up (length (take i ns)) st'"
        using sf stack_for_cong [of up recs1 recs, OF upr] i by simp
    qed (use lu1 Cons.prems(6,7) hd s(2) f in simp_all)
    then obtain P' recs' up' where h1: "do_index_work cmp f P1 [\<lparr>td_traverse_data = (if up = [] then None else Some st'), td_point_to_bnode_id = r2,
        td_current_root_id = vdfs2_btree_get_root_id P1\<rparr>] [] = (Success, P', [])" and wd: "work_done P1 recs1 ?ns up (l + 1) n P' recs' up'"
      unfolding ns by blast
    have h: "roomy P' n" "roomy P' n" "pool_host P' = pool_host P1"
      "\<forall>ns\<in>set up'. lvl key_ok rank P' recs' ns" "idx_up recs' ?ns up'" "distinct (concat (?ns # up'))"
      "last (?ns # up') = [vdfs2_btree_get_root_id P']" "vdfs2_btree_get_height P' = (l + 1) + length up'"
      "\<forall>y. y \<noteq> 0 \<longrightarrow> y \<notin> set (concat up') \<longrightarrow> pool_nodes P' y = pool_nodes P1 y \<and> recs' y = recs1 y"
      "\<forall>y\<in>set (concat up'). y \<in> set (concat up) \<or> pool_nodes P1 y = None"
      by (insert wd [unfolded work_done_def], (elim conjE, assumption)+)
    have run: "do_index_work cmp fuel P [\<lparr>td_traverse_data = (if ns # up = [] then None else Some st), td_point_to_bnode_id = rid,
        td_current_root_id = vdfs2_btree_get_root_id P\<rparr>] [] = (Success, P', [])"
      using f s(1) Some h1 hd by simp
    have sepm: "y \<notin> set (concat up')" if y: "y \<in> set ?ms" for y
    proof -
      have "pool_nodes P1 y \<noteq> None" using a(3) [OF msn [OF y]] lvl_in_pool(1) [OF Cons.prems(1) rm y] by simp
      then have "y \<notin> set (concat up')" if "y \<in> set (concat up')" using bspec [OF h(10) that] dst(5) y by auto
      then show ?thesis by blast
    qed
    have sepn: "y \<notin> set (concat up')" if "y \<in> set ?ns" for y using h(6) that by auto
    have eqn: "pool_nodes P' y = pool_nodes P1 y \<and> recs' y = recs1 y" if "y \<in> set ?ns \<union> set ?ms" for y
    proof -
      have "y \<noteq> 0" using that lvl_in_pool(2) [OF a(5) s(2)] lvl_in_pool(2) [OF Cons.prems(1) rm] by auto
      then show ?thesis using h(9) that sepm sepn by blast
    qed
    have lvn: "lvl key_ok rank P' recs' ?ns" using eqn h(3) by (intro lvl_frame [OF a(5) s(2) h(2)]) auto
    have "index_ok rank recs' ?ns ?ms" using eqn by (intro index_ok_cong [OF s(5)]) auto
    then have iu': "idx_up recs' ?ms (?ns # up')" using h(5) by simp
    have "y \<notin> set (concat (?ns # up'))" if "y \<in> set ?ms" for y using msn [OF that] sepm [OF that] by simp
    then have "set ?ms \<inter> set (concat (?ns # up')) = {}" by (meson disjoint_iff)
    then have d': "distinct (concat (?ms # ?ns # up'))"
      unfolding concat.simps(2) [of ?ms] distinct_append using dst(1) h(6) by simp
    have fr: "pool_nodes P' y = pool_nodes P y \<and> recs' y = recs y" if "y \<noteq> 0" "y \<notin> set (concat (?ns # up'))" for y
      using h(9) a(3) [of y] that by simp
    have ori: "y \<in> set (concat (ns # up)) \<or> pool_nodes P y = None" if y: "y \<in> set (concat (?ns # up'))" for y
    proof (cases "y \<in> set ?ns")
      case True
      then show ?thesis using s(3) unfolding sns by (auto elim: option.set_cases)
    next
      case False
      then have "y \<in> set (concat up')" using y by simp
      from bspec [OF h(10) this] show ?thesis using a(3) [OF False] by auto
    qed
    have "work_done P recs ?ms (ns # up) l n P' recs' (?ns # up')"
      unfolding work_done_def
    proof (intro conjI allI impI ballI)
      show "pool_host P' = pool_host P" using h(3) a(1) by simp
      fix us assume "us \<in> set (?ns # up')"
      then show "lvl key_ok rank P' recs' us" using lvn h(4) by (metis set_ConsD)
    next
      show "last (?ms # ?ns # up') = [vdfs2_btree_get_root_id P']" using h(7) by simp
      show "vdfs2_btree_get_height P' = l + length (?ns # up')" using h(8) by simp
      fix y
      show "pool_nodes P' y = pool_nodes P y" "recs' y = recs y" if "y \<noteq> 0" "y \<notin> set (concat (?ns # up'))"
        using fr [OF that] by simp_all
      assume "y \<in> set (concat (?ns # up'))"
      then show "y \<in> set (concat (ns # up)) \<or> pool_nodes P y = None" by (rule ori)
    qed (rule h(2) iu' d')+
    then show ?thesis using run by blast
  qed
qed

end

end
