(* ===== verification/Btree_Insert_Tree.thy ===== *)
theory Btree_Insert_Tree
  imports Btree_Insert_Inv
begin

text \<open>
  A whole tree, from the leaves upwards, and what adding a record to it does.
\<close>

section \<open>The tree\<close>

text \<open>
  The part of a tree above its lowest \<open>b\<close> levels is itself a tree, with index records for
  the lower nodes as its records; the operations at a level work on this part.
\<close>

definition tree_from ::
  "(u8 list \<Rightarrow> bool) \<Rightarrow> (u8 list \<Rightarrow> 'k::linorder) \<Rightarrow> node_pool \<Rightarrow> (nat \<Rightarrow> u8 list list) \<Rightarrow> nat \<Rightarrow> nat list list \<Rightarrow> bool" where
  "tree_from key_ok rank P recs b levels \<longleftrightarrow>
     levels \<noteq> [] \<and> (\<forall>ns\<in>set levels. lvl key_ok rank P recs ns) \<and>
     (\<forall>i. i + 1 < length levels \<longrightarrow> index_ok rank recs (levels ! (i + 1)) (levels ! i)) \<and>
     distinct (concat levels) \<and> last levels = [vdfs2_btree_get_root_id P] \<and> vdfs2_btree_get_height P = b + length levels"

definition tree_inv ::
  "(u8 list \<Rightarrow> bool) \<Rightarrow> (u8 list \<Rightarrow> 'k::linorder) \<Rightarrow> node_pool \<Rightarrow> (nat \<Rightarrow> u8 list list) \<Rightarrow> nat list list \<Rightarrow> bool" where
  "tree_inv key_ok rank P recs levels \<longleftrightarrow> tree_from key_ok rank P recs 0 levels"

lemma levels_ok_snoc:
  "levels_ok key_ok rank P recs (xs @ [ns, ms]) \<longleftrightarrow>
   levels_ok key_ok rank P recs (xs @ [ns]) \<and> index_ok rank recs ns ms \<and> level_ok key_ok rank P recs ms"
proof (induction xs)
  case (Cons x xs)
  then show ?case by (cases xs) auto
qed simp

context stored_keys
begin

lemma idx_up_nth: "idx_up recs ms up \<longleftrightarrow> (\<forall>i < length up. index_ok rank recs (up ! i) ((ms # up) ! i))"
proof (induction up arbitrary: ms)
  case (Cons ns up)
  have "(\<forall>i < length (ns # up). index_ok rank recs ((ns # up) ! i) ((ms # ns # up) ! i)) \<longleftrightarrow>
      index_ok rank recs ns ms \<and> (\<forall>i < length up. index_ok rank recs (up ! i) ((ns # up) ! i))"
    by (auto simp: less_Suc_eq_0_disj)
  then show ?case using Cons by simp
qed simp

lemma tree_from_Cons:
  "tree_from key_ok rank P recs b (leaf # up) \<longleftrightarrow>
     lvl key_ok rank P recs leaf \<and> (\<forall>ns\<in>set up. lvl key_ok rank P recs ns) \<and> idx_up recs leaf up \<and>
     distinct (concat (leaf # up)) \<and> last (leaf # up) = [vdfs2_btree_get_root_id P] \<and> vdfs2_btree_get_height P = b + 1 + length up"
  unfolding tree_from_def idx_up_nth by auto

lemma tree_inv_Cons:
  "tree_inv key_ok rank P recs (leaf # up) \<longleftrightarrow>
     lvl key_ok rank P recs leaf \<and> (\<forall>ns\<in>set up. lvl key_ok rank P recs ns) \<and> idx_up recs leaf up \<and>
     distinct (concat (leaf # up)) \<and> last (leaf # up) = [vdfs2_btree_get_root_id P] \<and> vdfs2_btree_get_height P = 1 + length up"
  unfolding tree_inv_def tree_from_Cons by simp

lemma inv_levels_ok:
  "lvl key_ok rank P recs leaf \<Longrightarrow> \<forall>ns\<in>set up. lvl key_ok rank P recs ns \<Longrightarrow> idx_up recs leaf up \<Longrightarrow>
   levels_ok key_ok rank P recs (rev (leaf # up))"
proof (induction up arbitrary: leaf)
  case (Cons ns up)
  then have "levels_ok key_ok rank P recs (rev (ns # up))" by simp
  then show ?case using Cons.prems levels_ok_snoc [of key_ok rank P recs "rev up" ns leaf] lvl_level_ok by simp
qed (simp add: lvl_level_ok)

lemma tree_inv_ok:
  assumes "tree_inv key_ok rank P recs levels"
  shows "tree_ok key_ok rank P recs (rev levels)"
proof -
  obtain leaf up where l: "levels = leaf # up" using assms by (cases levels) (auto simp: tree_inv_def tree_from_def)
  note t = assms [unfolded l tree_inv_Cons]
  have "levels_ok key_ok rank P recs (rev (leaf # up))" using t by (intro inv_levels_ok) auto
  moreover have "hd (rev (leaf # up)) = last (leaf # up)" by (simp add: hd_rev)
  ultimately show ?thesis unfolding tree_ok_def l using t by simp
qed

section \<open>The descent with its stack\<close>

lemma traverse_stack_ok:
  assumes "levels_ok key_ok rank P recs (ns # rest)" "i < length ns" "key_ok key" "rank (recs (ns ! i) ! 0) \<le> rank key"
    "i + 1 < length ns \<Longrightarrow> rank key < rank (recs (ns ! (i + 1)) ! 0)" "stack_for recs (b + Suc (length rest) + 1) acc i st"
  shows "\<exists>d e st' G. traverse_levels cmp P key True (length rest) (b + Suc (length rest)) (ns ! i) st [] = (Ok (st_bnode_id e, d, st_pos e, e # st'), []) \<and>
    stack_for recs (b + 1) (rev (ns # rest) @ acc) G (e # st') \<and> count_le rank (concat (map recs (last (ns # rest)))) (rank key) = G + 1"
  using assms
proof (induction rest arbitrary: ns i acc st)
  case Nil
  then have lv: "level_ok key_ok rank P recs ns" by simp
  from traverse_level_ok [OF lv Nil.prems(2-5)] obtain d p where t:
    "btree_traverse_level cmp P key (ns ! i) = Ok (d, int p)" "p < length (recs (ns ! i))"
    "count_le rank (concat (map recs ns)) (rank key) = length (concat (map recs (take i ns))) + p + 1" by blast
  let ?e = "\<lparr>st_bnode_id = ns ! i, st_pos = int p, st_level = b + 1\<rparr>"
  show ?case using t Nil.prems(2,6)
    by (intro exI [of _ d] exI [of _ ?e] exI [of _ st] exI [of _ "length (concat (map recs (take i ns))) + p"])
      (simp add: traverse_levels.simps [of _ _ _ _ 0], blast)
next
  case (Cons ms rest)
  have lv: "level_ok key_ok rank P recs ns" and ix: "index_ok rank recs ns ms" and lo: "levels_ok key_ok rank P recs (ms # rest)"
    using Cons.prems(1) by simp_all
  from traverse_level_ok [OF lv Cons.prems(2-5)] obtain d p where
    t: "btree_traverse_level cmp P key (ns ! i) = Ok (d, int p)" and ok: "node_ok (pool_host P) d (recs (ns ! i))"
    and p: "p < length (recs (ns ! i))"
    and c: "count_le rank (concat (map recs ns)) (rank key) = length (concat (map recs (take i ns))) + p + 1" by blast
  let ?rs = "concat (map recs ns)"
  define g where "g = length (concat (map recs (take i ns))) + p"
  have rg: "?rs ! g = recs (ns ! i) ! p" "g < length ?rs"
    using nth_concat_at [of i "map recs ns" p] length_concat_take_mono [of i "map recs ns" p] Cons.prems(2) p
    by (simp_all add: g_def take_map)
  have g: "g < length ms" "rank (?rs ! g) = rank (recs (ms ! g) ! 0)" "child_id (?rs ! g) = ms ! g"
    "key_len (?rs ! g) + INDEX_VALUE_SIZE \<le> length (?rs ! g)" "length ?rs = length ms"
    using ix rg(2) by (auto simp: index_ok_def Let_def)
  have kl: "key_len (recs (ns ! i) ! p) \<le> VDFS2_MAX_BTREE_KEY_LEN"
    using level_okD [OF lv Cons.prems(2)] p nth_mem by metis
  note ch = child_of_record [OF ok p kl g(4) [unfolded rg(1)]]
  let ?e = "\<lparr>st_bnode_id = ns ! i, st_pos = int p, st_level = b + Suc (Suc (length rest))\<rparr>"
  have step: "traverse_levels cmp P key True (length (ms # rest)) (b + Suc (length (ms # rest))) (ns ! i) st [] =
      traverse_levels cmp P key True (length rest) (b + Suc (length rest)) (ms ! g) (?e # st) []"
    using t get_record_ok(1) [OF ok p] ch g(3) rg(1)
    by (simp add: traverse_levels.simps [of _ _ _ _ "Suc (length rest)"])
  have so: "sorted_less (map rank ?rs)" using lv by (simp add: level_ok_def)
  have cg: "g + 1 = count_le rank ?rs (rank key)" "g + 1 \<noteq> 0" using c by (simp_all add: g_def)
  have b: "rank (?rs ! g) \<le> rank key" "g + 1 < length ?rs \<Longrightarrow> rank key < rank (?rs ! (g + 1))"
    using count_le_bounds [OF so cg] by simp_all
  have hi: "g + 1 < length ms \<Longrightarrow> rank key < rank (recs (ms ! (g + 1)) ! 0)"
    using b(2) ix g(5) by (simp add: index_ok_def Let_def)
  have lo': "rank (recs (ms ! g) ! 0) \<le> rank key" using b(1) g(2) by simp
  have st: "stack_for recs (b + Suc (length rest) + 1) (ns # acc) g (?e # st)"
    using Cons.prems(2,6) p by (auto simp: g_def)
  from Cons.IH [OF lo g(1) Cons.prems(3) lo' hi st] step show ?case by simp
qed

text \<open>Without a stack the descent finds the same node.\<close>

lemma traverse_no_stack:
  "traverse_levels cmp P key False n l x s0 [] =
     (case traverse_levels cmp P key True n l x st [] of
        (Ok (y, d, p, _), m) \<Rightarrow> (Ok (y, d, p, s0), m) | (Err e, m) \<Rightarrow> (Err e, m) | (Bug, m) \<Rightarrow> (Bug, m))"
proof (induction n arbitrary: l x st)
  case 0
  show ?case by (simp add: traverse_levels.simps [of _ _ _ _ 0] split: result.split)
next
  case (Suc n)
  show ?case
    by (simp add: traverse_levels.simps [of _ _ _ _ "Suc n"] Suc.IH [symmetric] split: result.split)
qed

end

section \<open>Adding a record\<close>

context stored_keys
begin

lemma whole_record_key:
  assumes "record_ok r" "rec_fits key_ok h r"
  shows "new_key h r (length r)"
  using assms rec_fits_key [OF assms(2)] by (simp add: new_key_def rec_fits_def record_ok_def)

text \<open>The key with the value behind it is the record that was to be added.\<close>

lemma whole_record_value:
  assumes r: "record_ok r" "rec_fits key_ok h r" and n: "is_new r (length r) r'"
  shows "put r' (key_len r) (rng r (key_len r) (length r - key_len r)) = r"
proof -
  note f = rec_fits_key [OF r(2)]
  let ?k = "key_len r"
  have t: "take ?k r' = take ?k r"
  proof -
    have "rd 4 (take ?k r) 8 = length r"
      using rd_append [of 8 4 "take ?k r" "drop ?k r"] f(3,4) r(1) by (simp add: record_ok_def record_len_def)
    then have "wr 4 (take ?k r) 8 (length r) = take ?k r" using wr_rd_same [of 8 4 "take ?k r"] f(3,4) by simp
    then show ?thesis using n by (simp add: is_new_def)
  qed
  have "rng r ?k (length r - ?k) = drop ?k r" by (simp add: rng_def)
  moreover have "length r' = length r" using n by (simp add: is_new_def)
  ultimately show ?thesis using t f(4) by (simp add: put_def)
qed

lemma descent_ok:
  assumes t: "tree_from key_ok rank P recs b (leaf # up)" and key: "key_ok k"
    and n: "n = count_le rank (concat (map recs leaf)) (rank k)"
  shows "if n = 0 then vdfs2_btree_traverse cmp P k True (b + 1) [] = (Err ENOENT, [])
    else \<exists>d e st. vdfs2_btree_traverse cmp P k True (b + 1) [] = (Ok (st_bnode_id e, d, st_pos e, e # st), []) \<and>
      stack_for recs (b + 1) (leaf # up) (n - 1) (e # st)"
proof -
  note ti = t [unfolded tree_from_Cons]
  obtain ns rest where l: "rev (leaf # up) = ns # rest" by (cases "rev (leaf # up)") auto
  have lo: "levels_ok key_ok rank P recs (ns # rest)" using inv_levels_ok [of P recs leaf up] ti l by simp
  have lst: "last (ns # rest) = leaf" by (metis l last_rev list.sel(1) rev.simps(2) snoc_eq_iff_butlast)
  have ns: "ns = [vdfs2_btree_get_root_id P]" using ti l by (metis hd_rev list.sel(1))
  have ht: "vdfs2_btree_get_height P = b + Suc (length rest)" using ti arg_cong [OF l, of length] by simp
  have lv: "level_ok key_ok rank P recs ns" using lo by (cases rest) simp_all
  note fr = first_rank [OF lo, unfolded lst]
  have so: "sorted_less (map rank (concat (map recs leaf)))" using ti by (simp add: lvl_def)
  have r0: "rank (recs (ns ! 0) ! 0) = rank (concat (map recs leaf) ! 0)" using fr(1) ns by simp
  have tr: "vdfs2_btree_traverse cmp P k True (b + 1) [] = traverse_levels cmp P k True (length rest) (b + Suc (length rest)) (ns ! 0) [] []"
    using ht ns by (simp add: vdfs2_btree_traverse_def)
  show ?thesis
  proof (cases "n = 0")
    case True
    then have lt: "rank k < rank (recs (ns ! 0) ! 0)" using count_le_0 [OF fr(2) so] r0 n by simp
    obtain d where d: "pool_get P (ns ! 0) = Ok d" "node_ok (pool_host P) d (recs (ns ! 0))" "recs (ns ! 0) \<noteq> []"
      "\<forall>r\<in>set (recs (ns ! 0)). key_ok r" "sorted_less (map rank (recs (ns ! 0)))"
      using level_okD [OF lv, of 0] ns by (metis length_Cons zero_less_Suc)
    have "binary_search cmp (pool_host P) d k = Err ENOENT"
      using binary_search_ok [OF d(2,4) key d(5,3)] count_le_0 [OF d(3,5)] lt by simp
    then have "btree_traverse_level cmp P k (ns ! 0) = Err ENOENT" using d(1) by (simp add: btree_traverse_level_def)
    then show ?thesis using True tr by (simp add: traverse_levels.simps [of _ _ _ _ "length rest"])
  next
    case False
    then have le: "rank (recs (ns ! 0) ! 0) \<le> rank k" using count_le_0 [OF fr(2) so, of "rank k"] r0 n by (simp add: not_less)
    have st: "stack_for recs (b + Suc (length rest) + 1) [] 0 []" by simp
    have i: "0 < length ns" "0 + 1 < length ns \<Longrightarrow> rank k < rank (recs (ns ! (0 + 1)) ! 0)" using ns by simp_all
    from traverse_stack_ok [OF lo i(1) key le i(2) st] obtain d e st' G where
      "traverse_levels cmp P k True (length rest) (b + Suc (length rest)) (ns ! 0) [] [] = (Ok (st_bnode_id e, d, st_pos e, e # st'), [])"
      "stack_for recs (b + 1) (rev (ns # rest) @ []) G (e # st')" "n = G + 1" unfolding lst n by blast
    moreover have "rev (ns # rest) @ [] = leaf # up" using l by (metis append_Nil2 rev_rev_ident)
    ultimately show ?thesis using False tr by auto
  qed
qed

lemma leaf_descent:
  assumes t: "tree_inv key_ok rank P recs (leaf # up)" and key: "key_ok k"
    and n: "n = count_le rank (concat (map recs leaf)) (rank k)"
  shows "if n = 0 then vdfs2_btree_traverse cmp P k True VDFS2_BTREE_LEAF_LVL [] = (Err ENOENT, [])
    else \<exists>d e st. vdfs2_btree_traverse cmp P k True VDFS2_BTREE_LEAF_LVL [] = (Ok (st_bnode_id e, d, st_pos e, e # st), []) \<and>
      stack_for recs 1 (leaf # up) (n - 1) (e # st)"
  using descent_ok [OF t [unfolded tree_inv_def] key n] unfolding VDFS2_BTREE_LEAF_LVL_def add_0 .

lemma insert_exists:
  assumes t: "tree_inv key_ok rank P recs (leaf # up)" and rm: "roomy P m" and r: "record_ok r" "rec_fits key_ok (pool_host P) r"
    and n: "n = count_le rank (concat (map recs leaf)) (rank r)" and n0: "n \<noteq> 0" and eq: "rank (concat (map recs leaf) ! (n - 1)) = rank r"
  shows "vdfs2_btree_insert cmp P r [] = (Fail EEXIST, P, [])"
proof -
  have lv: "lvl key_ok rank P recs leaf" using t by (simp add: tree_inv_Cons)
  have kr: "key_ok r" using rec_fits_key(1) [OF r(2)] .
  obtain d e st where d: "vdfs2_btree_traverse cmp P r True VDFS2_BTREE_LEAF_LVL [] = (Ok (st_bnode_id e, d, st_pos e, e # st), [])"
    "stack_for recs 1 (leaf # up) (n - 1) (e # st)"
    using leaf_descent [OF t kr n, unfolded if_not_P [OF n0]] by blast
  obtain i p where i: "st_bnode_id e = leaf ! i" "st_pos e = int p" "i < length leaf" "p < length (recs (leaf ! i))"
    "n - 1 = length (concat (map recs (take i leaf))) + p" using d(2) by auto
  have rp: "recs (leaf ! i) ! p = concat (map recs leaf) ! (n - 1)"
    using nth_concat_at [of i "map recs leaf" p] i by (simp add: take_map)
  obtain b where b: "pool_get P (leaf ! i) = Ok b" "node_ok (pool_host P) b (recs (leaf ! i))" "\<forall>r\<in>set (recs (leaf ! i)). rec_fits key_ok (pool_host P) r"
    using lv i(3) chain_nth [of key_ok P recs 0 0 leaf i] by (auto simp: lvl_def good_node_def)
  have pb: "pool_nodes P (leaf ! i) = Some b" using b(1) pool_get_Ok [OF rm] by simp
  have "\<forall>r\<in>set (recs (leaf ! i)). key_ok r" using b(3) rec_fits_key(1) by blast
  from compare_at(2) [OF b(2) i(4) this kr] have "cmp (drop (off (pool_host P) b p) b) r = 0" using eq rp by simp
  then have "place_key_in_bnode cmp P (e # st) (leaf ! i) (int p) r (record_len r) [] [] = (Err EEXIST, P, [], [])"
    using pb get_record_ok(1) [OF b(2) i(4)] by (simp add: place_key_in_bnode_def Let_def)
  then show ?thesis using d(1) i(1,2)
    by (simp add: vdfs2_btree_insert_def btree_insert_at_level_def place_data_at_level_def)
qed

lemma insert_success:
  assumes t: "tree_inv key_ok rank P recs (leaf # up)" and rm: "roomy P (length up + 2 + m)" and hb: "length up + 2 < 2 ^ 16"
    and r: "record_ok r" "rec_fits key_ok (pool_host P) r"
    and n: "n = count_le rank (concat (map recs leaf)) (rank r)" and n0: "n \<noteq> 0" and ne: "rank (concat (map recs leaf) ! (n - 1)) \<noteq> rank r"
  shows "\<exists>P' recs' leaf' up'. vdfs2_btree_insert cmp P r [] = (Success, P', []) \<and> tree_inv key_ok rank P' recs' (leaf' # up') \<and>
    roomy P' m \<and> pool_host P' = pool_host P \<and> concat (map recs' leaf') = insert_at n r (concat (map recs leaf))"
proof -
  note ti = t [unfolded tree_inv_Cons]
  have lv: "lvl key_ok rank P recs leaf" using ti by simp
  have kr: "key_ok r" using rec_fits_key(1) [OF r(2)] .
  have rl: "record_len r = length r" using r(1) by (simp add: record_ok_def)
  note nk = whole_record_key [OF r]
  obtain d e st where d: "vdfs2_btree_traverse cmp P r True VDFS2_BTREE_LEAF_LVL [] = (Ok (st_bnode_id e, d, st_pos e, e # st), [])"
    "stack_for recs 1 (leaf # up) (n - 1) (e # st)"
    using leaf_descent [OF t kr n, unfolded if_not_P [OF n0]] by blast
  obtain i p where e: "e = \<lparr>st_bnode_id = leaf ! i, st_pos = int p, st_level = 1\<rparr>" and i: "i < length leaf" and p: "p < length (recs (leaf ! i))"
    and g: "n - 1 = length (concat (map recs (take i leaf))) + p" and sf: "stack_for recs (1 + 1) up i st" using d(2) by auto
  let ?A = "take i leaf" and ?x = "leaf ! i" and ?B = "drop (Suc i) leaf"
  have leaf: "?A @ ?x # ?B = leaf" using id_take_nth_drop [OF i] by simp
  have c: "count_le rank (concat (map recs leaf)) (rank r) = length (concat (map recs ?A)) + p + 1" using n n0 g by simp
  have rp: "recs ?x ! p = concat (map recs leaf) ! (n - 1)"
    using nth_concat_at [of i "map recs leaf" p] i p g by (simp add: take_map)
  have ne': "rank (recs ?x ! p) \<noteq> rank r" using ne rp by simp
  have top: "st_level e = vdfs2_btree_get_height P \<longleftrightarrow> up = []" using ti e by auto
  have upc: "st_level e = vdfs2_btree_get_height P \<or> st \<noteq> []" using top stack_for_length [OF sf] by auto
  have rm1: "roomy P (Suc (length up + 1 + m))" using rm by simp
  from place_key_ok [OF lv i p nk c ne' rm1 upc, where todo = "[]"] obtain info P1 recs1 new where
    pk: "place_key_in_bnode cmp P (e # st) ?x (int p) r (length r) [] [] =
      (Ok info, P1, (case new of None \<Rightarrow> [] | Some rid \<Rightarrow>
        [\<lparr>td_traverse_data = (if up = [] then None else Some st), td_point_to_bnode_id = rid,
          td_current_root_id = vdfs2_btree_get_root_id P\<rparr>]), [])" "roomy P1 (length up + 1 + m)"
      "level_placed P recs ?A ?x ?B p r (length r) info P1 recs1 new" unfolding top by blast
  let ?ns = "split_level ?A ?x ?B new"
  from pk(3) obtain r1 y q dd where f: "pool_host P1 = pool_host P" "pool_nodes P1 0 = pool_nodes P 0"
      "\<forall>rid. new = Some rid \<longrightarrow> pool_nodes P rid = None \<and> rid \<noteq> 0"
      "\<forall>y. y \<notin> set ?ns \<longrightarrow> pool_nodes P1 y = pool_nodes P y \<and> recs1 y = recs y"
      "\<forall>y \<in> set (?A @ ?x # ?B). recs1 y \<noteq> [] \<and> recs1 y ! 0 = recs y ! 0" "lvl key_ok rank P1 recs1 ?ns"
      "concat (map recs1 ?ns) = insert_at (n - 1 + 1) r1 (concat (map recs (?A @ ?x # ?B)))"
      "is_new r (length r) r1" "rank r1 = rank r" "rec_fits key_ok (pool_host P) r1" "key_len r1 = key_len r"
      "y \<in> set ?ns" "q < length (recs1 y)" "recs1 y ! q = r1" "pool_nodes P1 y = Some dd"
      "rec_bnode_id info = y" "rec_val info = Ok (off (pool_host P) dd q + key_len r)"
    unfolding level_placed_def Let_def g [symmetric] by (elim conjE exE) (rule that; assumption)
  have sns: "set ?ns = set leaf \<union> set_option new" by (rule set_split_level [OF i])
  have upn: "z \<notin> set ?ns" if "us \<in> set up" "z \<in> set us" for us z
  proof -
    have "pool_nodes P z \<noteq> None" using ti that lvl_in_pool(1) [OF _ rm] by blast
    moreover have "z \<notin> set leaf" using ti that by auto
    ultimately show ?thesis unfolding sns using f(3) by (auto elim: option.set_cases)
  qed
  have upr: "recs1 z = recs z" "pool_nodes P1 z = pool_nodes P z" if "us \<in> set up" "z \<in> set us" for us z
    using f(4) upn [OF that] by blast+
  have lu1: "lvl key_ok rank P1 recs1 us" if us: "us \<in> set up" for us
    by (rule lvl_frame [OF _ rm pk(2) f(1)]) (use ti us upr [OF us] in auto)
  have first1: "rank (recs1 z ! 0) = rank (recs z ! 0)" if "z \<in> set leaf" for z
    using f(5) that unfolding leaf by simp
  have iu1: "idx_up recs1 leaf up" by (rule idx_up_cong [OF _ upr(1) first1]) (use ti in blast)+
  note hd1 = head_same [OF f(2)]
  have work: "\<exists>P2 recs2 up2. do_index_work cmp (length (e # st) + 2) P1 (case new of None \<Rightarrow> [] | Some rid \<Rightarrow>
        [\<lparr>td_traverse_data = (if up = [] then None else Some st), td_point_to_bnode_id = rid,
          td_current_root_id = vdfs2_btree_get_root_id P\<rparr>]) [] = (Success, P2, []) \<and> work_done P1 recs1 ?ns up 1 m P2 recs2 up2"
  proof (cases new)
    case None
    then have "?ns = leaf" using leaf by (simp add: split_level_def)
    moreover have "roomy P1 m" using pk(2) by (rule roomy_mono) simp
    ultimately have "work_done P1 recs1 ?ns up 1 m P1 recs1 up"
      unfolding work_done_def using ti lu1 iu1 hd1 by auto
    then show ?thesis using None by auto
  next
    case (Some rid)
    have ns: "?ns = ?A @ ?x # rid # ?B" using Some by (simp add: split_level_def)
    show ?thesis unfolding Some option.case hd1(2) [symmetric] ns [unfolded Some]
    proof (rule index_work_ok)
      show "lvl key_ok rank P1 recs1 (?A @ ?x # rid # ?B)" using f(6) ns by simp
      show "idx_up recs1 (?A @ ?x # ?B) up" using iu1 leaf by simp
      have "distinct ?ns" using f(6) by (simp add: lvl_def)
      moreover have "set ?ns \<inter> set (concat up) = {}" using upn by auto
      ultimately show "distinct (concat ((?A @ ?x # rid # ?B) # up))" unfolding ns [symmetric] using ti by simp
      show "last ((?A @ ?x # ?B) # up) = [vdfs2_btree_get_root_id P1]" unfolding leaf using ti hd1 by simp
      show "stack_for recs1 (1 + 1) up (length ?A) st" using sf stack_for_cong [of up recs1 recs, OF upr(1)] i by simp
    qed (use lu1 ti hd1 hb pk(2) stack_for_length [OF sf] in simp_all)
  qed
  then obtain P2 recs2 up2 where w: "do_index_work cmp (length (e # st) + 2) P1 (case new of None \<Rightarrow> [] | Some rid \<Rightarrow>
        [\<lparr>td_traverse_data = (if up = [] then None else Some st), td_point_to_bnode_id = rid,
          td_current_root_id = vdfs2_btree_get_root_id P\<rparr>]) [] = (Success, P2, [])" "work_done P1 recs1 ?ns up 1 m P2 recs2 up2" by blast
  have h: "roomy P2 m" "pool_host P2 = pool_host P1"
      "\<forall>ns\<in>set up2. lvl key_ok rank P2 recs2 ns" "idx_up recs2 ?ns up2" "distinct (concat (?ns # up2))"
      "last (?ns # up2) = [vdfs2_btree_get_root_id P2]" "vdfs2_btree_get_height P2 = 1 + length up2"
      "\<forall>y. y \<noteq> 0 \<longrightarrow> y \<notin> set (concat up2) \<longrightarrow> pool_nodes P2 y = pool_nodes P1 y \<and> recs2 y = recs1 y"
    by (insert w(2) [unfolded work_done_def], (elim conjE, assumption)+)
  have same: "pool_nodes P2 z = pool_nodes P1 z \<and> recs2 z = recs1 z" if "z \<in> set ?ns" for z
  proof -
    have "z \<notin> set (concat up2)" using h(5) that by auto
    then show ?thesis using h(8) lvl_in_pool(2) [OF f(6) pk(2) that] by blast
  qed
  have l2: "lvl key_ok rank P2 recs2 ?ns" by (rule lvl_frame [OF f(6) pk(2) h(1,2)]) (use same in blast)+
  have map2: "concat (map recs2 ?ns) = insert_at (n - 1 + 1) r1 (concat (map recs leaf))"
  proof -
    have "concat (map recs2 ?ns) = concat (map recs1 ?ns)" using same by (intro arg_cong [where f = concat]) simp
    then show ?thesis using f(7) leaf by simp
  qed
  have "n \<le> length (concat (map recs leaf))" unfolding n count_le_def by (rule length_filter_le)
  then have n1: "n - 1 < length (concat (map recs leaf))" using n0 by linarith
  let ?bs = "rng r (key_len r) (length r - key_len r)"
  have bs: "key_len r1 + length ?bs \<le> length r1"
    using f(8,11) rec_fits_key(4) [OF r(2)] by (simp add: is_new_def rng_def)
  have y2: "q < length (recs2 y)" "recs2 y ! q = r1" "pool_nodes P2 y = Some dd" using same [OF f(12)] f(13-15) by simp_all
  let ?P = "pool_put y (put dd (off (pool_host P) dd q + key_len r) ?bs) P2"
  have hP2: "pool_host P2 = pool_host P" using h(2) f(1) by simp
  from level_write [OF l2 map2 n1 f(12) y2 h(1) bs, unfolded hP2 f(11) whole_record_value [OF r f(8)]] obtain recs3 where
    v: "lvl key_ok rank ?P recs3 ?ns" "roomy ?P m" "y \<noteq> 0" "concat (map recs3 ?ns) = insert_at (n - 1 + 1) r (concat (map recs leaf))"
      "\<forall>z. z \<noteq> y \<longrightarrow> recs3 z = recs2 z" "\<forall>z. recs2 z \<noteq> [] \<longrightarrow> recs3 z \<noteq> [] \<and> rank (recs3 z ! 0) = rank (recs2 z ! 0)"
    by blast
  have yup: "z \<noteq> y" if "us \<in> set up2" "z \<in> set us" for us z using h(5) f(12) that by auto
  have "tree_inv key_ok rank ?P recs3 (?ns # up2)"
    unfolding tree_inv_Cons
  proof (intro conjI ballI)
    fix us assume us: "us \<in> set up2"
    show "lvl key_ok rank ?P recs3 us"
      by (rule lvl_frame [OF _ h(1) v(2)]) (use h(3) us yup [OF us] v(5) in auto)
  next
    show "idx_up recs3 ?ns up2"
    proof (rule idx_up_cong [OF h(4)])
      show "recs3 z = recs2 z" if "us \<in> set up2" "z \<in> set us" for us z using v(5) yup [OF that] by blast
      fix z assume "z \<in> set ?ns"
      then have "recs2 z \<noteq> []" using chain_good [of key_ok P2 recs2 0 0 ?ns z] l2 by (auto simp: lvl_def good_node_def)
      then show "rank (recs3 z ! 0) = rank (recs2 z ! 0)" using v(6) by blast
    qed
    have "pool_nodes ?P 0 = pool_nodes P2 0" using v(3) by simp
    note hd = head_same [OF this]
    show "last (?ns # up2) = [vdfs2_btree_get_root_id ?P]" "vdfs2_btree_get_height ?P = 1 + length up2" using h(6,7) hd by simp_all
  qed (use v(1) h(5) in simp_all)
  moreover have "vdfs2_btree_insert cmp P r [] = (Success, ?P, [])"
  proof -
    have "place_data_at_level cmp P r VDFS2_BTREE_LEAF_LVL [] = (Ok info, P2, [])"
      using d(1) e pk(1) w(1) rl by (simp add: place_data_at_level_def)
    moreover have "get_value_pointer r 0 = Ok (key_len r)"
      using r(2) by (simp add: get_value_pointer_def rec_fits_def key_len_def)
    ultimately show ?thesis using f(16,17) y2(3) rl rec_fits_key(4) [OF r(2)]
      by (simp add: vdfs2_btree_insert_def btree_insert_at_level_def)
  qed
  ultimately show ?thesis using v(2,4) n0 hP2
    by (intro exI [of _ ?P] exI [of _ recs3] exI [of _ ?ns] exI [of _ up2]) simp
qed

lemma tree_insert_below:
  assumes "tree_inv key_ok rank P recs (leaf # up)" "key_ok r" "count_le rank (concat (map recs leaf)) (rank r) = 0"
  shows "vdfs2_btree_insert cmp P r [] = (Fail ENOENT, P, [])"
  using leaf_descent [OF assms(1,2) refl] assms(3)
  by (simp add: vdfs2_btree_insert_def btree_insert_at_level_def place_data_at_level_def)

end

end
