(* ===== verification/Btree_Update_Key.thy ===== *)
theory Btree_Update_Key
  imports Btree_Merge Btree_Insert_Tree
begin

text \<open>
  Replacing an index record of a whole tree. The operations at a level see the part of the tree from
  this level upwards as a tree of its own, so what is done one level higher
  is the same theorem for a smaller tree.
\<close>

section \<open>Positions\<close>

lemma position_unique:
  assumes "length (concat (take i xss)) + p = length (concat (take j xss)) + q"
    "i < length xss" "p < length (xss ! i)" "j < length xss" "q < length (xss ! j)"
  shows "i = j \<and> p = q"
proof -
  have less: "length (concat (take a xss)) + length (xss ! a) \<le> length (concat (take c xss))" if "a < c" "c \<le> length xss" for a c
  proof -
    have "take c xss = take (Suc a) xss @ take (c - Suc a) (drop (Suc a) xss)"
      using that take_add [of "Suc a" "c - Suc a" xss] by simp
    then show ?thesis using that by (simp add: take_Suc_conv_app_nth)
  qed
  have "\<not> i < j" "\<not> j < i" using less [of i j] less [of j i] assms by auto
  then show ?thesis using assms(1) by simp
qed

lemma level_position:
  assumes "length (concat (map recs (take i ns))) + p = length (concat (map recs (take j ns))) + q"
    "i < length ns" "p < length (recs (ns ! i))" "j < length ns" "q < length (recs (ns ! j))"
  shows "i = j \<and> p = q"
  using position_unique [of i "map recs ns" p j q] assms by (simp add: take_map)

lemma remove_insert: "g < length xs \<Longrightarrow> remove_at g (insert_at (g + 1) r xs) = xs[g := r]"
  by (simp add: remove_at_def insert_at_def upd_conv_take_nth_drop)

context stored_keys
begin

lemma traverse_level_bytes: "btree_traverse_level cmp P k x = Ok (d, p) \<Longrightarrow> pool_get P x = Ok d"
  by (cases "pool_get P x"; cases "binary_search cmp (pool_host P) (case pool_get P x of Ok d \<Rightarrow> d) k")
    (auto simp: btree_traverse_level_def split: if_splits result.splits elim!: and_then.elims)

lemma traverse_bytes: "traverse_levels cmp P key ws n l x st m = (Ok (y, d, p, st'), m') \<Longrightarrow> pool_get P y = Ok d"
proof (induction n arbitrary: l x st m)
  case 0
  then show ?case using traverse_level_bytes
    by (auto simp: traverse_levels.simps [of _ _ _ _ 0] split: result.splits prod.splits if_splits)
next
  case (Suc n)
  then show ?case
    by (auto simp: traverse_levels.simps [of _ _ _ _ "Suc n"] Let_def split: result.splits prod.splits if_splits)
qed

lemma locate:
  assumes t: "tree_from key_ok rank P recs b (ns # up)" and rm: "roomy P n" and k: "key_ok k"
    and c: "count_le rank (concat (map recs ns)) (rank k) = Suc g"
  shows "\<exists>i p d st. i < length ns \<and> p < length (recs (ns ! i)) \<and> g = length (concat (map recs (take i ns))) + p \<and>
    pool_nodes P (ns ! i) = Some d \<and>
    vdfs2_btree_traverse cmp P k True (b + 1) [] =
      (Ok (ns ! i, d, int p, \<lparr>st_bnode_id = ns ! i, st_pos = int p, st_level = b + 1\<rparr> # st), []) \<and>
    vdfs2_btree_traverse cmp P k False (b + 1) [] = (Ok (ns ! i, d, int p, []), [])"
proof -
  obtain d e st where d: "vdfs2_btree_traverse cmp P k True (b + 1) [] = (Ok (st_bnode_id e, d, st_pos e, e # st), [])"
    "stack_for recs (b + 1) (ns # up) g (e # st)"
    using descent_ok [OF t k c [symmetric]] unfolding if_not_P [OF Suc_not_Zero] diff_Suc_1 by blast
  obtain i p where e: "e = \<lparr>st_bnode_id = ns ! i, st_pos = int p, st_level = b + 1\<rparr>" "i < length ns" "p < length (recs (ns ! i))"
    "g = length (concat (map recs (take i ns))) + p" using d(2) by auto
  have ht: "\<not> vdfs2_btree_get_height P < b + 1" using t by (simp add: tree_from_Cons)
  note tr = d(1) [unfolded vdfs2_btree_traverse_def Let_def if_not_P [OF ht]]
  have "vdfs2_btree_traverse cmp P k False (b + 1) [] = (Ok (ns ! i, d, int p, []), [])"
    unfolding vdfs2_btree_traverse_def Let_def if_not_P [OF ht]
    using tr traverse_no_stack [of P k _ _ _ "[]" "[]"] e(1) by simp
  moreover have "pool_nodes P (ns ! i) = Some d" using traverse_bytes [OF tr] pool_get_Ok [OF rm] e(1) by simp
  ultimately show ?thesis using d(1) e by auto
qed

text \<open>A record found by its number, with the bytes around it.\<close>

lemma level_node:
  assumes l: "lvl key_ok rank P recs ns" and rm: "roomy P n" and i: "i < length ns" and d: "pool_nodes P (ns ! i) = Some d"
  shows "node_ok (pool_host P) d (recs (ns ! i))" "\<forall>r\<in>set (recs (ns ! i)). rec_fits key_ok (pool_host P) r"
    "ns ! i \<noteq> 0" "ns ! i < 2 ^ 32" "descr_node_id d = ns ! i" "recs (ns ! i) \<noteq> []"
    "descr_prev d = last_or 0 (take i ns)" "descr_next d = first_or 0 (drop (Suc i) ns)"
proof -
  have "chain key_ok P recs 0 0 (take i ns @ ns ! i # drop (Suc i) ns)" using l id_take_nth_drop [OF i] by (simp add: lvl_def)
  then have g: "good_node key_ok P recs (last_or 0 (take i ns)) (ns ! i) (first_or 0 (drop (Suc i) ns))" by (simp add: chain_append)
  have "pool_get P (ns ! i) = Ok d" using d pool_get_Ok [OF rm] by simp
  then show "node_ok (pool_host P) d (recs (ns ! i))" "\<forall>r\<in>set (recs (ns ! i)). rec_fits key_ok (pool_host P) r"
    "ns ! i \<noteq> 0" "ns ! i < 2 ^ 32" "descr_node_id d = ns ! i" "recs (ns ! i) \<noteq> []"
    "descr_prev d = last_or 0 (take i ns)" "descr_next d = first_or 0 (drop (Suc i) ns)"
    using g by (auto simp: good_node_def)
qed

lemma record_compare:
  assumes l: "lvl key_ok rank P recs ns" and rm: "roomy P n" and i: "i < length ns" and d: "pool_nodes P (ns ! i) = Some d"
    and p: "p < length (recs (ns ! i))" and k: "key_ok k"
  shows "get_record (pool_host P) d p = Ok (off (pool_host P) d p)"
    "cmp k (drop (off (pool_host P) d p) d) = 0 \<longleftrightarrow> rank (recs (ns ! i) ! p) = rank k"
proof -
  note n = level_node [OF l rm i d]
  show "get_record (pool_host P) d p = Ok (off (pool_host P) d p)" by (rule get_record_ok(1) [OF n(1) p])
  have r: "key_ok (recs (ns ! i) ! p)" using n(2) p rec_fits_key(1) nth_mem by blast
  show "cmp k (drop (off (pool_host P) d p) d) = 0 \<longleftrightarrow> rank (recs (ns ! i) ! p) = rank k"
    unfolding node_record_at [OF n(1) p] using cmp_equal [OF k ok_append [OF r]] rank_append [OF r] by auto
qed

section \<open>Parts of a tree\<close>

lemma tree_upper:
  assumes t: "tree_from key_ok rank P recs b (ns # us # up)" and rm: "roomy P n" "roomy P' m"
    and f: "frame P recs P' recs' S" and S: "S \<inter> set (concat (us # up)) = {}" "0 \<notin> S"
  shows "tree_from key_ok rank P' recs' (b + 1) (us # up)"
proof -
  note ti = t [unfolded tree_from_Cons]
  have lv: "lvl key_ok rank P' recs' ms" if "ms \<in> set (us # up)" for ms
    using ti that S(1) by (intro lvl_frame_set [OF _ rm f]) auto
  have eq: "recs' x = recs x" if "ms \<in> set (us # up)" "x \<in> set ms" for ms x
    using f S(1) that by (auto simp: frame_def)
  have "idx_up recs us up" using ti by simp
  then have "idx_up recs' us up" by (rule idx_up_cong) (use eq eq [of us] in auto)
  then show ?thesis unfolding tree_from_Cons using ti lv frame_head [OF f S(2)] by auto
qed

lemma tree_join:
  assumes "lvl key_ok rank P recs ns" "tree_from key_ok rank P recs (b + 1) (us # up)" "index_ok rank recs us ns"
    "set ns \<inter> set (concat (us # up)) = {}"
  shows "tree_from key_ok rank P recs b (ns # us # up)"
  using assms unfolding tree_from_Cons by (simp add: lvl_def)

lemma tree_single:
  "lvl key_ok rank P recs [x] \<Longrightarrow> vdfs2_btree_get_root_id P = x \<Longrightarrow> vdfs2_btree_get_height P = b + 1 \<Longrightarrow>
   tree_from key_ok rank P recs b [[x]]"
  unfolding tree_from_Cons by simp

text \<open>A change within the lowest level that keeps the first keys.\<close>

lemma tree_same_first:
  assumes t: "tree_from key_ok rank P recs b (ns # up)" and rm: "roomy P n" "roomy P' m"
    and f: "frame P recs P' recs' (set ns)" and l: "lvl key_ok rank P' recs' ns"
    and first: "up \<noteq> [] \<Longrightarrow> \<forall>y\<in>set ns. rank (recs' y ! 0) = rank (recs y ! 0)"
  shows "tree_from key_ok rank P' recs' b (ns # up)"
proof -
  note ti = t [unfolded tree_from_Cons]
  have n0: "0 \<notin> set ns" using lvl_in_pool(2) [OF l rm(2)] by blast
  show ?thesis
  proof (cases up)
    case Nil
    then show ?thesis unfolding tree_from_Cons using ti l frame_head [OF f n0] by simp
  next
    case (Cons us up')
    have dj: "set ns \<inter> set (concat (us # up')) = {}" using ti Cons by auto
    have "tree_from key_ok rank P' recs' (b + 1) (us # up')" by (rule tree_upper [OF t [unfolded Cons] rm f dj n0])
    moreover have "index_ok rank recs' us ns"
      by (rule index_ok_cong [of rank recs]) (use ti Cons f dj first in \<open>auto simp: frame_def\<close>)
    ultimately show ?thesis using tree_join [OF l _ _ dj] Cons by simp
  qed
qed

section \<open>Adding an index record to a node with room\<close>

text \<open>The index record for a node: the first key of the node, and the node's number as the value.\<close>

lemma new_index_record:
  assumes ok: "node_ok h d rs" and rs: "rs \<noteq> []" and f: "rec_fits key_ok h (rs ! 0)"
  shows "\<exists>k. form_new_adding_record h d x = Ok k \<and> new_key h k (record_len k) \<and> record_len k \<le> length k \<and>
    rank k = rank (rs ! 0) \<and> child_id (take (record_len k) k) = x mod 2 ^ 32 \<and> key_len k = key_len (rs ! 0) \<and>
    record_len k = key_len (rs ! 0) + 4"
proof -
  let ?r = "rs ! 0" and ?p = "off h d 0" and ?M = "max_record_len h"
  have r0: "0 < length rs" using rs by simp
  note g = get_record_ok [OF ok r0] and fk = rec_fits_key [OF f]
  let ?n = "key_len ?r"
  have b: "?n + 4 \<le> length ?r" "length ?r \<le> ?M" "length ?r + 40 \<le> node_size_bytes h div 2" "?n \<le> VDFS2_MAX_BTREE_KEY_LEN"
    "length ?r \<le> VDFS2_MAX_BTREE_REC_LEN" "key_ok (take ?n ?r)"
    using f by (simp_all add: rec_fits_def INDEX_VALUE_SIZE_def)
  have key: "rng d ?p ?n = take ?n ?r"
  proof -
    have "take ?n (rng d ?p (length ?r)) = rng d ?p ?n" using fk(4) by (simp add: rng_def min_absorb1)
    then show ?thesis using g(2) by simp
  qed
  define r1 where "r1 = put (replicate ?M 0) 0 (take ?n ?r)"
  define r2 where "r2 = wr 4 r1 8 (?n + 4)"
  define k where "k = wr 4 r2 ?n x"
  have l1: "length r1 = ?M" using b fk(4) by (simp add: r1_def)
  have l2: "length r2 = ?M" using b fk(3) l1 by (simp add: r2_def)
  have lk: "length k = ?M" using b l2 by (simp add: k_def)
  have run: "form_new_adding_record h d x = Ok k"
    using g(1,3,4,5) key b fk(3,4) by (simp add: form_new_adding_record_def Let_def INDEX_VALUE_SIZE_def GEN_KEY_SIZE_def k_def r2_def r1_def)
  have t1: "take ?n r1 = take ?n ?r" using fk(4) b by (simp add: r1_def put_def)
  have t2: "take ?n r2 = wr 4 (take ?n ?r) 8 (?n + 4)"
  proof -
    have "take ?n r2 = wr 4 (take ?n r1) 8 (?n + 4)" unfolding r2_def wr_def put_def using fk(3) l1 b by (simp add: min_def drop_take)
    then show ?thesis using t1 by simp
  qed
  have tk: "take ?n k = wr 4 (take ?n ?r) 8 (?n + 4)"
  proof -
    have "take ?n k = take ?n r2" unfolding k_def wr_def put_def using l2 b by simp
    then show ?thesis using t2 by simp
  qed
  have rd: "rd w k q = rd w (take ?n k) q" if "q + w \<le> ?n" for w q
    using rd_append [of q w "take ?n k" "drop ?n k"] that lk b by simp
  have ln: "length (take ?n ?r) = ?n" using fk(4) by simp
  have "rd 4 (take ?n ?r) 4 = rd 4 ?r 4" using rd_append [of 4 4 "take ?n ?r" "drop ?n ?r"] ln fk(3) by simp
  then have kl: "key_len k = ?n" unfolding key_len_def [of k] using rd [of 4 4] tk fk(3) ln by (simp add: rd_wr_other key_len_def)
  have "?n + 4 < 2 ^ 32" using b(4) by (simp add: VDFS2_MAX_BTREE_KEY_LEN_def)
  then have rl: "record_len k = ?n + 4" unfolding record_len_def using rd [of 8 4] tk fk(3) ln by (simp add: rd_wr_same)
  have ok': "key_ok (take ?n k)" "rank (take ?n k) = rank (take ?n ?r)" unfolding tk using ok_other_len [OF b(6)] rank_other_len [OF b(6)] by simp_all
  have nk: "new_key h k (record_len k)" unfolding new_key_def kl rl using ok'(1) lk b by (simp add: INDEX_VALUE_SIZE_def)
  have rk: "rank k = rank ?r" using new_keyD(7) [OF nk] kl ok'(2) fk(2) by simp
  have "child_id (take (record_len k) k) = rd 4 (take (?n + 4) k) ?n"
  proof -
    have "key_len (take (?n + 4) k) = key_len k"
      using rd_append [of 4 4 "take (?n + 4) k" "drop (?n + 4) k"] lk b fk(3) by (simp add: key_len_def)
    then show ?thesis by (simp add: child_id_def rl kl)
  qed
  also have "\<dots> = rd 4 k ?n" using rd_append [of ?n 4 "take (?n + 4) k" "drop (?n + 4) k"] lk b by simp
  also have "\<dots> = x mod 2 ^ 32" unfolding k_def using l2 b by (simp add: rd_wr_same)
  finally show ?thesis using run nk rk kl rl lk b by (intro exI [of _ k]) simp
qed

text \<open>The key with the value behind it is the first part of the data.\<close>

lemma written_record:
  assumes k: "new_key h k (record_len k)" and l: "record_len k \<le> length k" and n: "is_new k (record_len k) r"
  shows "put r (key_len k) (rng k (key_len k) (record_len k - key_len k)) = take (record_len k) k"
proof -
  note kk = new_keyD [OF k]
  let ?n = "key_len k" and ?l = "record_len k"
  have "rd 4 (take ?n k) 8 = ?l" using rd_append [of 8 4 "take ?n k" "drop ?n k"] kk(1,3) by (simp add: record_len_def)
  then have "wr 4 (take ?n k) 8 ?l = take ?n k" using wr_rd_same [of 8 4 "take ?n k"] kk(1,3) by simp
  then have "take ?n r = take ?n k" "length r = ?l" using n by (simp_all add: is_new_def)
  moreover have "take ?n k @ take (?l - ?n) (drop ?n k) = take ?l k" using take_add [of ?n "?l - ?n" k] kk(2) by simp
  ultimately show ?thesis using kk(2) l by (simp add: put_def rng_def)
qed

lemma insert_room:
  assumes t: "tree_from key_ok rank P recs b (ns # up)" and rm: "roomy P n"
    and k: "new_key (pool_host P) k (record_len k)" "record_len k \<le> length k"
    and c: "count_le rank (concat (map recs ns)) (rank k) = Suc g"
    and i: "i < length ns" "p < length (recs (ns ! i))" "g = length (concat (map recs (take i ns))) + p"
    and d: "pool_nodes P (ns ! i) = Some d" "\<not> is_node_full d k" and ne: "rank (recs (ns ! i) ! p) \<noteq> rank k"
  defines "recs' \<equiv> recs(ns ! i := insert_at (p + 1) (take (record_len k) k) (recs (ns ! i)))"
  shows "\<exists>d'. btree_insert_at_level cmp P k (b + 1) [] = (Success, pool_put (ns ! i) d' P, []) \<and> roomy (pool_put (ns ! i) d' P) n \<and>
    lvl key_ok rank (pool_put (ns ! i) d' P) recs' ns \<and> concat (map recs' ns) = insert_at (g + 1) (take (record_len k) k) (concat (map recs ns))"
proof -
  let ?h = "pool_host P" and ?x = "ns ! i" and ?A = "take i ns" and ?B = "drop (Suc i) ns" and ?len = "record_len k"
  have ns: "?A @ ?x # ?B = ns" using id_take_nth_drop [OF i(1)] by simp
  have lv: "lvl key_ok rank P recs (?A @ ?x # ?B)" using t by (simp add: ns tree_from_Cons)
  note kk = new_keyD [OF k(1)]
  obtain i' p' d1 st where lo: "i' < length ns" "p' < length (recs (ns ! i'))" "g = length (concat (map recs (take i' ns))) + p'"
    "vdfs2_btree_traverse cmp P k True (b + 1) [] =
      (Ok (ns ! i', d1, int p', \<lparr>st_bnode_id = ns ! i', st_pos = int p', st_level = b + 1\<rparr> # st), [])"
    using locate [OF t rm kk(6) c] by blast
  have "i' = i \<and> p' = p" using position_unique [of i' "map recs ns" p' i p] lo(1-3) i by (simp add: take_map)
  then have tr: "vdfs2_btree_traverse cmp P k True (b + 1) [] =
      (Ok (?x, d1, int p, \<lparr>st_bnode_id = ?x, st_pos = int p, st_level = b + 1\<rparr> # st), [])" using lo(4) by simp
  have c': "count_le rank (concat (map recs (?A @ ?x # ?B))) (rank k) = length (concat (map recs ?A)) + p + 1"
    unfolding ns c i(3) by simp
  let ?td = "\<lparr>st_bnode_id = ?x, st_pos = int p, st_level = b + 1\<rparr> # st"
  from place_room [OF lv i(2) k(1) c' ne rm d, of ?td "[]", unfolded ns] obtain d' r where pr:
    "place_key_in_bnode cmp P ?td ?x (int p) k ?len [] [] =
      (Ok (form_gen_record ?x d' (off ?h d' (p + 1)) (int p + 1)), pool_put ?x d' P, [], [])"
    "roomy (pool_put ?x d' P) n" "is_new k ?len r" "lvl key_ok rank (pool_put ?x d' P) (recs(?x := insert_at (p + 1) r (recs ?x))) ns"
    "concat (map (recs(?x := insert_at (p + 1) r (recs ?x))) ns) = insert_at (length (concat (map recs ?A)) + p + 1) r (concat (map recs ns))"
    "rec_val (form_gen_record ?x d' (off ?h d' (p + 1)) (int p + 1)) = Ok (off ?h d' (p + 1) + key_len k)" by blast
  define P1 where "P1 = pool_put ?x d' P"
  define recs1 where "recs1 = recs(?x := insert_at (p + 1) r (recs ?x))"
  let ?bs = "rng k (key_len k) (?len - key_len k)"
  have nr: "key_len r = key_len k" "length r = ?len" using new_record_fits(2) [OF k(1) pr(3)] pr(3) by (simp_all add: is_new_def)
  have q: "p + 1 < length (recs1 ?x)" "recs1 ?x ! (p + 1) = r"
    using i(2) by (simp_all add: recs1_def insert_at_def nth_append)
  have lb: "length ?bs = ?len - key_len k" using kk(2) k(2) by simp
  have bs: "key_len (recs1 ?x ! (p + 1)) + length ?bs \<le> length (recs1 ?x ! (p + 1))" unfolding q(2) nr lb using kk(2) by simp
  have lv1: "lvl key_ok rank P1 recs1 (?A @ ?x # ?B)" using pr(4) by (simp add: ns P1_def recs1_def)
  have r1: "roomy P1 n" "pool_host P1 = ?h" using pr(2) by (simp_all add: P1_def)
  have px: "pool_nodes P1 ?x = Some d'" by (simp add: P1_def)
  have w: "put r (key_len k) ?bs = take ?len k" by (rule written_record [OF k pr(3)])
  let ?d2 = "put d' (off ?h d' (p + 1) + key_len k) ?bs"
  have r2: "recs1(?x := (recs1 ?x)[p + 1 := take ?len k]) = recs'"
    using i(2) insert_at_update [of "p + 1" "recs ?x" r "take ?len k"] by (simp add: recs'_def recs1_def)
  have P2: "pool_put ?x ?d2 P1 = pool_put ?x ?d2 P" by (simp add: pool_put_def P1_def)
  note lvv = level_value [OF lv1 px r1(1) q(1) bs, unfolded q(2) nr(1) w r2 r1(2) P2]
  have cc: "concat (map recs' ns) = insert_at (g + 1) (take ?len k) (concat (map recs ns))"
  proof -
    have "concat (map recs1 ?A) = concat (map recs ?A)"
      using lv by (auto simp: recs1_def lvl_def intro!: arg_cong [where f = concat])
    then have "concat (map recs' ns) = (insert_at (g + 1) r (concat (map recs ns)))[g + 1 := take ?len k]"
      using lvv(5) pr(5) i(3) unfolding ns recs1_def [symmetric] by (simp add: add.assoc)
    also have "\<dots> = insert_at (g + 1) (take ?len k) (concat (map recs ns))"
    proof (rule insert_at_update)
      have "length (concat (map recs ns)) = length (concat (map recs ?A)) + length (recs ?x) + length (concat (map recs ?B))"
        by (subst ns [symmetric]) simp
      then show "g + 1 \<le> length (concat (map recs ns))" using i(2,3) by simp
    qed
    finally show ?thesis .
  qed
  have "place_data_at_level cmp P k (b + 1) [] = (Ok (form_gen_record ?x d' (off ?h d' (p + 1)) (int p + 1)), P1, [])"
    using tr pr(1) by (simp add: place_data_at_level_def P1_def)
  moreover have "get_value_pointer k 0 = Ok (key_len k)" using k(1) by (simp add: get_value_pointer_def new_key_def key_len_def)
  ultimately have "btree_insert_at_level cmp P k (b + 1) [] = (Success, pool_put ?x ?d2 P, [])"
    using pr(6) kk(2) k(2) P2 px by (simp add: btree_insert_at_level_def form_gen_record_def)
  then show ?thesis using lvv(1,2) cc unfolding ns by blast
qed

end

section \<open>Replacing an index record\<close>

text \<open>A node with room for one more index record.\<close>

definition has_room :: "node_host \<Rightarrow> u8 list list \<Rightarrow> bool" where
  "has_room h rs \<longleftrightarrow> recs_end rs + 4 * length rs + VDFS2_MAX_BTREE_KEY_LEN + 16 \<le> node_size_bytes h"

text \<open>The nodes in which the index record of a changed first key is replaced have room.\<close>

fun room_path :: "node_host \<Rightarrow> (nat \<Rightarrow> u8 list list) \<Rightarrow> nat list list \<Rightarrow> nat \<Rightarrow> bool" where
  "room_path h recs [] g \<longleftrightarrow> True"
| "room_path h recs (ns # up) g \<longleftrightarrow>
     (\<forall>i p. i < length ns \<longrightarrow> p < length (recs (ns ! i)) \<longrightarrow> g = length (concat (map recs (take i ns))) + p \<longrightarrow>
        has_room h (recs (ns ! i)) \<and> (p = 0 \<longrightarrow> room_path h recs up i))"

lemma room_path_cong:
  "(\<And>ns x. ns \<in> set up \<Longrightarrow> x \<in> set ns \<Longrightarrow> recs' x = recs x) \<Longrightarrow> room_path h recs' up g = room_path h recs up g"
proof (induction up arbitrary: g)
  case (Cons ns up)
  have a: "recs' x = recs x" if "x \<in> set ns" for x using Cons.prems [of ns x] that by simp
  have b: "concat (map recs' (take i ns)) = concat (map recs (take i ns))" for i
    using a in_set_takeD [of _ i ns] by (intro arg_cong [where f = concat] map_cong) auto
  have c: "room_path h recs' up i = room_path h recs up i" for i using Cons.prems by (intro Cons.IH) auto
  have d: "recs' (ns ! i) = recs (ns ! i)" if "i < length ns" for i using a that by simp
  show ?case unfolding room_path.simps b c using d by (metis (lifting))
qed simp

lemma room_path_all: "(\<forall>ns\<in>set up. \<forall>x\<in>set ns. has_room h (recs x)) \<Longrightarrow> room_path h recs up g"
  by (induction up arbitrary: g) auto

lemma has_room_not_full:
  assumes "has_room h rs" "node_ok h d rs" "record_len k \<le> VDFS2_MAX_BTREE_KEY_LEN + 4"
  shows "\<not> is_node_full d k"
  using assms node_okD(5) [OF assms(2)] by (simp add: has_room_def is_node_full_def OFF_SIZE_def)

lemma index_ok_update:
  assumes ix: "index_ok rank recs us ns" and c: "concat (map recs' us) = (concat (map recs us))[i := r]" and i: "i < length ns"
    and r: "rank r = rank (recs' (ns ! i) ! 0)" "child_id r = ns ! i" "key_len r + INDEX_VALUE_SIZE \<le> length r"
    and f: "\<And>j. j < length ns \<Longrightarrow> j \<noteq> i \<Longrightarrow> rank (recs' (ns ! j) ! 0) = rank (recs (ns ! j) ! 0)"
  shows "index_ok rank recs' us ns"
  unfolding index_ok_def Let_def c
proof (intro conjI allI impI)
  have l: "length (concat (map recs us)) = length ns" using ix by (simp add: index_ok_def Let_def)
  then show "length ((concat (map recs us))[i := r]) = length ns" by simp
  fix j assume j: "j < length ns"
  show "rank ((concat (map recs us))[i := r] ! j) = rank (recs' (ns ! j) ! 0)" "child_id ((concat (map recs us))[i := r] ! j) = ns ! j"
    "key_len ((concat (map recs us))[i := r] ! j) + INDEX_VALUE_SIZE \<le> length ((concat (map recs us))[i := r] ! j)"
    using ix j i l r f [OF j] by (cases "j = i"; simp add: index_ok_def Let_def)+
qed

context stored_keys
begin

text \<open>The first record of the next node comes after a record.\<close>

lemma sorted_next_first:
  assumes l: "lvl key_ok rank P recs ns" and i: "i + 1 < length ns" and p: "p < length (recs (ns ! i))"
  shows "rank (recs (ns ! i) ! p) < rank (recs (ns ! (i + 1)) ! 0)"
proof -
  have ne: "recs (ns ! (i + 1)) \<noteq> []"
    using l i chain_good [of key_ok P recs 0 0 ns "ns ! (i + 1)"] by (auto simp: lvl_def good_node_def)
  have a: "concat (map recs ns) ! (length (concat (take i (map recs ns))) + p) = recs (ns ! i) ! p"
    "length (concat (take i (map recs ns))) + p < length (concat (take (i + 1) (map recs ns)))"
    using nth_concat_at [of i "map recs ns" p] i p by (simp_all add: take_Suc_conv_app_nth)
  have b: "concat (map recs ns) ! (length (concat (take (i + 1) (map recs ns)))) = recs (ns ! (i + 1)) ! 0"
    "length (concat (take (i + 1) (map recs ns))) < length (concat (map recs ns))"
    using nth_concat_at [of "i + 1" "map recs ns" 0] length_concat_take_mono [of "i + 1" "map recs ns" 0] i ne by simp_all
  have so: "sorted_less (map rank (concat (map recs ns)))" using l by (simp add: lvl_def)
  show ?thesis using sorted_wrt_nth_less [OF so a(2)] a b by simp
qed

lemma take_new_key:
  assumes "new_key h k (record_len k)" "record_len k \<le> length k"
  shows "rec_fits key_ok h (take (record_len k) k)" "rank (take (record_len k) k) = rank k" "key_len (take (record_len k) k) = key_len k"
proof -
  note kk = new_keyD [OF assms(1)]
  let ?r = "take (record_len k) k"
  show kl: "key_len ?r = key_len k"
    using rd_append [of 4 4 ?r "drop (record_len k) k"] assms(2) kk(1,2) by (simp add: key_len_def)
  have t: "take (key_len k) ?r = take (key_len k) k" using kk(2) by (simp add: min_absorb1)
  show f: "rec_fits key_ok h ?r" using assms t kl by (simp add: rec_fits_def new_key_def)
  show "rank ?r = rank k" using rec_fits_key(2) [OF f] kl t kk(7) by simp
qed

lemma update_step:
  assumes t: "tree_from key_ok rank P recs b (ns # up)" and rm: "roomy P n" and K: "key_ok K"
    and i: "i < length ns" "p < length (recs (ns ! i))" "g = length (concat (map recs (take i ns))) + p"
    and g: "rank (recs (ns ! i) ! p) = rank K" and room: "has_room (pool_host P) (recs (ns ! i))"
    and pd: "node_ok (pool_host P) pd prs" "prs \<noteq> []" "rec_fits key_ok (pool_host P) (prs ! 0)" "pid < 2 ^ 32"
    and pr: "rank K < rank (prs ! 0)" "g + 1 < length (concat (map recs ns)) \<Longrightarrow> rank (prs ! 0) < rank (concat (map recs ns) ! (g + 1))"
  shows "\<exists>k r d2. btree_update_key cmp (Suc fuel) P K pid pd (b + 1) [] =
      (let P2 = pool_put (ns ! i) d2 P in
       if p = 0 \<and> b + 1 < vdfs2_btree_get_height P2
       then (case btree_update_key cmp fuel P2 K (ns ! i) d2 (b + 1 + 1) [] of
               (Err e, P3, m4) \<Rightarrow> (Err e, P3, m4) | (Bug, P3, m4) \<Rightarrow> (Bug, P3, m4) | (Ok _, P3, m4) \<Rightarrow> (Ok k, P3, m4))
       else (Ok k, P2, [])) \<and>
    key_ok k \<and> rank k = rank (prs ! 0) \<and> roomy (pool_put (ns ! i) d2 P) n \<and>
    lvl key_ok rank (pool_put (ns ! i) d2 P) (recs(ns ! i := (recs (ns ! i))[p := r])) ns \<and>
    node_ok (pool_host P) d2 ((recs (ns ! i))[p := r]) \<and>
    concat (map (recs(ns ! i := (recs (ns ! i))[p := r])) ns) = (concat (map recs ns))[g := r] \<and>
    rank r = rank (prs ! 0) \<and> child_id r = pid \<and> rec_fits key_ok (pool_host P) r"
proof -
  let ?h = "pool_host P" and ?x = "ns ! i" and ?L = "concat (map recs ns)"
  have lv: "lvl key_ok rank P recs ns" using t by (simp add: tree_from_Cons)
  have so: "sorted_less (map rank ?L)" using lv by (simp add: lvl_def)
  have Lg: "?L ! g = recs ?x ! p" "g < length ?L"
    using nth_concat_at [of i "map recs ns" p] length_concat_take_mono [of i "map recs ns" p] i by (simp_all add: take_map)
  obtain k where k: "form_new_adding_record ?h pd pid = Ok k" "new_key ?h k (record_len k)" "record_len k \<le> length k" "rank k = rank (prs ! 0)"
    "child_id (take (record_len k) k) = pid" "record_len k = key_len (prs ! 0) + 4"
    using new_index_record [OF pd(1-3), of pid] pd(4) by auto
  define r where "r = take (record_len k) k"
  note fr = take_new_key [OF k(2,3), folded r_def]
  have c: "count_le rank ?L (rank k) = Suc g" using count_le_Suc [OF so Lg(2), of "rank k"] g pr k(4) Lg(1) by simp
  obtain d where d: "pool_nodes P ?x = Some d"
    using lv i(1) chain_good [of key_ok P recs 0 0 ns ?x] pool_get_Ok [OF rm] by (auto simp: lvl_def good_node_def)
  have nf: "\<not> is_node_full d k"
    using has_room_not_full [OF room level_node(1) [OF lv rm i(1) d], of k] k(6) pd(3) by (simp add: rec_fits_def)
  have ne: "rank (recs ?x ! p) \<noteq> rank k" using g pr(1) k(4) by simp
  define recs1 where "recs1 = recs(?x := insert_at (p + 1) r (recs ?x))"
  have "\<exists>d1. btree_insert_at_level cmp P k (b + 1) [] = (Success, pool_put ?x d1 P, []) \<and> roomy (pool_put ?x d1 P) n \<and>
      lvl key_ok rank (pool_put ?x d1 P) recs1 ns \<and> concat (map recs1 ns) = insert_at (g + 1) r ?L"
    unfolding recs1_def r_def by (rule insert_room [OF t rm k(2,3) c i d nf ne])
  then obtain d1 where ins: "btree_insert_at_level cmp P k (b + 1) [] = (Success, pool_put ?x d1 P, [])" "roomy (pool_put ?x d1 P) n"
      "lvl key_ok rank (pool_put ?x d1 P) recs1 ns" "concat (map recs1 ns) = insert_at (g + 1) r ?L"
    by (elim exE conjE) (rule that; assumption)
  define P1 where "P1 = pool_put ?x d1 P"
  note ins' = ins [folded P1_def]
  have x0: "?x \<noteq> 0" by (rule level_node(3) [OF lv rm i(1) d])
  have f1: "frame P recs P1 recs1 (set ns)" using i(1) by (auto simp: frame_def P1_def recs1_def)
  have fst1: "rank (recs1 y ! 0) = rank (recs y ! 0)" for y using i(2) by (simp add: recs1_def insert_at_def nth_append)
  have t1: "tree_from key_ok rank P1 recs1 b (ns # up)" by (rule tree_same_first [OF t rm ins'(2) f1 ins'(3)]) (simp add: fst1)
  have i1: "p < length (recs1 ?x)" "recs1 ?x ! p = recs ?x ! p" "2 \<le> length (recs1 ?x)"
    using i(2) by (simp_all add: recs1_def insert_at_def nth_append)
  have off1: "concat (map recs1 (take i ns)) = concat (map recs (take i ns))"
  proof -
    have "?x \<notin> set (take i ns)" using lv i(1) id_take_nth_drop [OF i(1)] by (metis distinct_append distinct.simps(2) lvl_def disjoint_iff list.set_intros(1))
    then show ?thesis by (auto simp: recs1_def intro!: arg_cong [where f = concat])
  qed
  have so1: "sorted_less (map rank (concat (map recs1 ns)))" using ins'(3) by (simp add: lvl_def)
  have L1: "concat (map recs1 ns) ! g = recs ?x ! p" "concat (map recs1 ns) ! (g + 1) = r" "g + 1 < length (concat (map recs1 ns))"
    unfolding ins'(4) using Lg by (simp_all add: insert_at_def nth_append)
  have c1: "count_le rank (concat (map recs1 ns)) (rank K) = Suc g"
    using count_le_Suc [OF so1, of g "rank K"] L1 g pr(1) fr(2) k(4) by simp
  obtain i' p' d' where lo: "i' < length ns" "p' < length (recs1 (ns ! i'))" "g = length (concat (map recs1 (take i' ns))) + p'"
    "pool_nodes P1 (ns ! i') = Some d'" "vdfs2_btree_traverse cmp P1 K False (b + 1) [] = (Ok (ns ! i', d', int p', []), [])"
    using locate [OF t1 ins'(2) K c1] by blast
  have eq: "i' = i" "p' = p" using position_unique [of i' "map recs1 ns" p' i p] lo(1-3) i i1(1) off1 by (simp_all add: take_map)
  have d': "d' = d1" using lo(4) eq by (simp add: P1_def)
  have tr: "vdfs2_btree_traverse cmp P1 K False (b + 1) [] = (Ok (?x, d1, int p, []), [])" using lo(5) eq d' by simp
  have px: "pool_nodes P1 ?x = Some d1" by (simp add: P1_def)
  note cmp0 = record_compare [OF ins'(3,2) i(1) px i1(1) K]
  have h1: "pool_host P1 = ?h" by (simp add: P1_def)
  have lv1: "lvl key_ok rank P1 recs1 (take i ns @ ?x # drop (Suc i) ns)" using ins'(3) id_take_nth_drop [OF i(1)] by simp
  from level_delete [OF lv1 px ins'(2) i1(1,3)] obtain d2 where
    del: "delete_from_node ?h d1 p = Ok d2" "node_ok ?h d2 (remove_at p (recs1 ?x))"
      "lvl key_ok rank (pool_put ?x d2 P1) (recs1(?x := remove_at p (recs1 ?x))) ns" "roomy (pool_put ?x d2 P1) n"
      "concat (map (recs1(?x := remove_at p (recs1 ?x))) ns) = remove_at g (concat (map recs1 ns))"
    unfolding id_take_nth_drop [OF i(1), symmetric] off1 h1 i(3) [symmetric] by blast
  have rr: "remove_at p (recs1 ?x) = (recs ?x)[p := r]" using remove_insert [OF i(2), of r] by (simp add: recs1_def)
  have r2: "recs1(?x := (recs ?x)[p := r]) = recs(?x := (recs ?x)[p := r])" by (simp add: recs1_def)
  have P2: "pool_put ?x d2 P1 = pool_put ?x d2 P" by (simp add: P1_def pool_put_def)
  have LL: "remove_at g (concat (map recs1 ns)) = ?L[g := r]" unfolding ins'(4) by (rule remove_insert [OF Lg(2)])
  note del' = del [unfolded rr r2 P2 LL]
  have run: "btree_update_key cmp (Suc fuel) P K pid pd (b + 1) [] =
      (let P2 = pool_put ?x d2 P in
       if p = 0 \<and> b + 1 < vdfs2_btree_get_height P2
       then (case btree_update_key cmp fuel P2 K ?x d2 (b + 1 + 1) [] of
               (Err e, P3, m4) \<Rightarrow> (Err e, P3, m4) | (Bug, P3, m4) \<Rightarrow> (Bug, P3, m4) | (Ok _, P3, m4) \<Rightarrow> (Ok k, P3, m4))
       else (Ok k, P2, []))"
    using k(1) ins'(1) tr cmp0 i1(2) g del(1) h1 P2 by (simp add: Let_def)
  show ?thesis using run del'(2-5) new_keyD(6) [OF k(2)] k(4,5) fr r_def
    by (intro exI [of _ k] exI [of _ r] exI [of _ d2]) simp
qed

lemma update_key_ok:
  assumes "tree_from key_ok rank P recs b (ns # up)" "roomy P n" "key_ok K" "g < length (concat (map recs ns))"
    "rank (concat (map recs ns) ! g) = rank K" "room_path (pool_host P) recs (ns # up) g"
    "node_ok (pool_host P) pd prs" "prs \<noteq> []" "rec_fits key_ok (pool_host P) (prs ! 0)" "pid < 2 ^ 32"
    "rank K < rank (prs ! 0)" "g + 1 < length (concat (map recs ns)) \<Longrightarrow> rank (prs ! 0) < rank (concat (map recs ns) ! (g + 1))"
    "length up < fuel"
  shows "\<exists>P' recs' k r. btree_update_key cmp fuel P K pid pd (b + 1) [] = (Ok k, P', []) \<and> key_ok k \<and> rank k = rank (prs ! 0) \<and>
    tree_from key_ok rank P' recs' b (ns # up) \<and> roomy P' n \<and> frame P recs P' recs' (set (concat (ns # up))) \<and>
    concat (map recs' ns) = (concat (map recs ns))[g := r] \<and> rank r = rank (prs ! 0) \<and> child_id r = pid \<and>
    rec_fits key_ok (pool_host P) r"
  using assms
proof (induction up arbitrary: P recs b ns g pd prs pid fuel)
  case Nil
  obtain i p where i: "i < length ns" "p < length (recs (ns ! i))" "g = length (concat (map recs (take i ns))) + p"
    using concat_position [OF Nil.prems(4)] by (auto simp: take_map)
  have Lg: "recs (ns ! i) ! p = concat (map recs ns) ! g" using nth_concat_at [of i "map recs ns" p] i by (simp add: take_map)
  have room: "has_room (pool_host P) (recs (ns ! i))" using Nil.prems(6) i by simp
  obtain f where f: "fuel = Suc f" using Nil.prems(13) by (cases fuel) auto
  from update_step [OF Nil.prems(1-3) i, of pd prs pid f] Nil.prems(5,7-12) Lg room obtain k r d2 where u:
    "btree_update_key cmp (Suc f) P K pid pd (b + 1) [] =
      (let P2 = pool_put (ns ! i) d2 P in
       if p = 0 \<and> b + 1 < vdfs2_btree_get_height P2
       then (case btree_update_key cmp f P2 K (ns ! i) d2 (b + 1 + 1) [] of
               (Err e, P3, m4) \<Rightarrow> (Err e, P3, m4) | (Bug, P3, m4) \<Rightarrow> (Bug, P3, m4) | (Ok _, P3, m4) \<Rightarrow> (Ok k, P3, m4))
       else (Ok k, P2, []))"
    "key_ok k" "rank k = rank (prs ! 0)" "roomy (pool_put (ns ! i) d2 P) n"
    "lvl key_ok rank (pool_put (ns ! i) d2 P) (recs(ns ! i := (recs (ns ! i))[p := r])) ns"
    "concat (map (recs(ns ! i := (recs (ns ! i))[p := r])) ns) = (concat (map recs ns))[g := r]"
    "rank r = rank (prs ! 0)" "child_id r = pid" "rec_fits key_ok (pool_host P) r" by auto
  have fr: "frame P recs (pool_put (ns ! i) d2 P) (recs(ns ! i := (recs (ns ! i))[p := r])) (set ns)" using i(1) by (auto simp: frame_def)
  have t': "tree_from key_ok rank (pool_put (ns ! i) d2 P) (recs(ns ! i := (recs (ns ! i))[p := r])) b [ns]"
    by (rule tree_same_first [OF Nil.prems(1,2) u(4) fr u(5)]) simp
  then have "vdfs2_btree_get_height (pool_put (ns ! i) d2 P) = b + 1" by (simp add: tree_from_Cons)
  then have "btree_update_key cmp fuel P K pid pd (b + 1) [] = (Ok k, pool_put (ns ! i) d2 P, [])" using u(1) f by (simp add: Let_def)
  then show ?case using u(2-4,6-9) t' fr by auto
next
  case (Cons us up)
  note ti = Cons.prems(1) [unfolded tree_from_Cons]
  obtain i p where i: "i < length ns" "p < length (recs (ns ! i))" "g = length (concat (map recs (take i ns))) + p"
    using concat_position [OF Cons.prems(4)] by (auto simp: take_map)
  have Lg: "recs (ns ! i) ! p = concat (map recs ns) ! g" using nth_concat_at [of i "map recs ns" p] i by (simp add: take_map)
  have room: "has_room (pool_host P) (recs (ns ! i))" "p = 0 \<Longrightarrow> room_path (pool_host P) recs (us # up) i"
    using Cons.prems(6) i unfolding room_path.simps(2) [of _ _ ns] by blast+
  obtain f where f: "fuel = Suc f" "length up < f" using Cons.prems(13) by (cases fuel) auto
  have lv: "lvl key_ok rank P recs ns" using ti by simp
  let ?x = "ns ! i"
  from update_step [OF Cons.prems(1-3) i, of pd prs pid f] Cons.prems(5,7-12) Lg room(1) obtain k r d2 where u0:
    "btree_update_key cmp (Suc f) P K pid pd (b + 1) [] =
      (let P2 = pool_put ?x d2 P in
       if p = 0 \<and> b + 1 < vdfs2_btree_get_height P2
       then (case btree_update_key cmp f P2 K ?x d2 (b + 1 + 1) [] of
               (Err e, P3, m4) \<Rightarrow> (Err e, P3, m4) | (Bug, P3, m4) \<Rightarrow> (Bug, P3, m4) | (Ok _, P3, m4) \<Rightarrow> (Ok k, P3, m4))
       else (Ok k, P2, []))"
    "key_ok k" "rank k = rank (prs ! 0)" "roomy (pool_put ?x d2 P) n"
    "lvl key_ok rank (pool_put ?x d2 P) (recs(?x := (recs ?x)[p := r])) ns" "node_ok (pool_host P) d2 ((recs ?x)[p := r])"
    "concat (map (recs(?x := (recs ?x)[p := r])) ns) = (concat (map recs ns))[g := r]"
    "rank r = rank (prs ! 0)" "child_id r = pid" "rec_fits key_ok (pool_host P) r" by auto
  define P2 where "P2 = pool_put ?x d2 P"
  define recs2 where "recs2 = recs(?x := (recs ?x)[p := r])"
  note u = u0(2,3) u0(4-7) [folded P2_def recs2_def] u0(8-10)
  have fr: "frame P recs P2 recs2 (set ns)" using i(1) by (auto simp: frame_def P2_def recs2_def)
  have n0: "0 \<notin> set ns" using lvl_in_pool(2) [OF lv Cons.prems(2)] by blast
  have h2: "pool_host P2 = pool_host P" "vdfs2_btree_get_height P2 = b + 1 + length (us # up)"
    using ti frame_head(1) [OF fr n0] by (simp_all add: P2_def)
  have dj: "set ns \<inter> set (concat (us # up)) = {}" using ti by auto
  show ?case
  proof (cases "p = 0")
    case False
    have "\<forall>y\<in>set ns. rank (recs2 y ! 0) = rank (recs y ! 0)" using False by (simp add: recs2_def nth_list_update)
    then have "tree_from key_ok rank P2 recs2 b (ns # us # up)" by (intro tree_same_first [OF Cons.prems(1,2) u(3) fr u(4)])
    moreover have "btree_update_key cmp fuel P K pid pd (b + 1) [] = (Ok k, P2, [])" using u0(1) f False by (simp add: P2_def Let_def)
    moreover have "frame P recs P2 recs2 (set (concat (ns # us # up)))" by (rule frame_mono [OF fr]) auto
    ultimately show ?thesis using u by blast
  next
    case True
    have ix: "index_ok rank recs us ns" using ti by simp
    have t2: "tree_from key_ok rank P2 recs2 (b + 1) (us # up)"
      using dj by (intro tree_upper [OF Cons.prems(1,2) u(3) fr _ n0]) auto
    have rs: "recs2 y = recs y" if "ms \<in> set (us # up)" "y \<in> set ms" for ms y
      using fr dj that by (auto simp: frame_def)
    have U: "concat (map recs2 us) = concat (map recs us)" using rs [of us] by (auto intro!: arg_cong [where f = concat])
    have lu: "length (concat (map recs us)) = length ns" using ix by (simp add: index_ok_def Let_def)
    have iu: "rank (concat (map recs us) ! j) = rank (recs (ns ! j) ! 0)" if "j < length ns" for j
      using ix that by (simp add: index_ok_def Let_def)
    have x: "(recs ?x)[p := r] ! 0 = r" "(recs ?x)[p := r] \<noteq> []" using True i(2) by (auto simp: nth_list_update)
    have rp: "room_path (pool_host P2) recs2 (us # up) i"
    proof -
      have "room_path (pool_host P) recs2 (us # up) i = room_path (pool_host P) recs (us # up) i" by (rule room_path_cong [OF rs])
      then show ?thesis using room(2) [OF True] h2(1) by (simp only:)
    qed
    have nx: "rank ((recs ?x)[p := r] ! 0) < rank (concat (map recs2 us) ! (i + 1))" if "i + 1 < length (concat (map recs2 us))"
    proof -
      have j: "i + 1 < length ns" using that U lu by simp
      have "ns ! (i + 1) \<noteq> ?x" using ti j i(1) by (simp add: lvl_def nth_eq_iff_index_eq)
      then have "rank (recs2 ?x ! 0) < rank (recs (ns ! (i + 1)) ! 0)"
        using sorted_next_first [OF u(4) j, of 0] x(2) by (simp add: recs2_def)
      then show ?thesis using iu [OF j] U by (simp add: recs2_def)
    qed
    have x32: "?x < 2 ^ 32" using lv chain_ids [of P recs 0 0 ns ?x] i(1) by (simp add: lvl_def)
    have K1: "rank (concat (map recs2 us) ! i) = rank K" using iu [OF i(1)] U Lg Cons.prems(5) True by simp
    have "i < length (concat (map recs2 us))" using i(1) U lu by simp
    from Cons.IH [OF t2 u(3) Cons.prems(3) this K1 rp, of d2 "(recs ?x)[p := r]" ?x f] u(5) x h2(1) u(7,9) Cons.prems(11) nx f(2) x32
    obtain P' recs' k' r' where v: "btree_update_key cmp f P2 K ?x d2 (b + 1 + 1) [] = (Ok k', P', [])"
      "tree_from key_ok rank P' recs' (b + 1) (us # up)" "roomy P' n" "frame P2 recs2 P' recs' (set (concat (us # up)))"
      "concat (map recs' us) = (concat (map recs2 us))[i := r']" "rank r' = rank r" "child_id r' = ?x" "rec_fits key_ok (pool_host P) r'"
      by auto
    have eq: "recs' y = recs2 y" if "y \<in> set ns" for y using v(4) dj that unfolding frame_def by (meson disjoint_iff)
    have l': "lvl key_ok rank P' recs' ns" by (rule lvl_frame_set [OF u(4,3) v(3,4)]) (use dj in auto)
    have "index_ok rank recs' us ns"
    proof (rule index_ok_update [OF ix _ i(1), of _ r'])
      show "rank r' = rank (recs' ?x ! 0)" using v(6) eq [of ?x] i(1) x(1) by (simp add: recs2_def)
      show "key_len r' + INDEX_VALUE_SIZE \<le> length r'" using v(8) by (simp add: rec_fits_def)
      fix j assume j: "j < length ns" "j \<noteq> i"
      then have "ns ! j \<noteq> ?x" using ti i(1) by (simp add: lvl_def nth_eq_iff_index_eq)
      then show "rank (recs' (ns ! j) ! 0) = rank (recs (ns ! j) ! 0)" using eq [of "ns ! j"] j(1) by (simp add: recs2_def)
    qed (use v(5,7) U in simp_all)
    from tree_join [OF l' v(2) this dj] have "tree_from key_ok rank P' recs' b (ns # us # up)" .
    moreover have "btree_update_key cmp fuel P K pid pd (b + 1) [] = (Ok k, P', [])"
      using u0(1) f True v(1) h2 by (simp add: P2_def Let_def)
    moreover have "frame P recs P' recs' (set (concat (ns # us # up)))" by (rule frame_trans [OF fr v(4)]) auto
    moreover have "concat (map recs' ns) = (concat (map recs ns))[g := r]"
    proof -
      have "concat (map recs' ns) = concat (map recs2 ns)" using eq by (auto intro!: arg_cong [where f = concat])
      then show ?thesis using u(6) by simp
    qed
    ultimately show ?thesis using u v(3) by blast
  qed
qed

end

end
