(* ===== verification/Btree_Remove_Tree.thy ===== *)
theory Btree_Remove_Tree
  imports Btree_Update_Key
begin

text \<open>
  Removing a record from a whole tree: empty nodes, merged nodes and the root that gives
  way to its only child. The removal of an index record one level higher is the same
  theorem for the part of the tree from that level upwards.
\<close>

section \<open>What is left of a part of a tree\<close>

lemma index_ok_remove:
  assumes ix: "index_ok rank recs us ns" and c: "concat (map recs' us') = remove_at j (concat (map recs us))" and j: "j < length ns"
    and f: "\<And>y. y \<in> set (remove_at j ns) \<Longrightarrow> rank (recs' y ! 0) = rank (recs y ! 0)"
  shows "index_ok rank recs' us' (remove_at j ns)"
proof -
  let ?U = "concat (map recs us)"
  have l: "length ?U = length ns" and m: "\<And>i. i < length ns \<Longrightarrow> rank (?U ! i) = rank (recs (ns ! i) ! 0) \<and> child_id (?U ! i) = ns ! i \<and>
      key_len (?U ! i) + INDEX_VALUE_SIZE \<le> length (?U ! i)"
    using ix by (simp_all add: index_ok_def Let_def)
  show ?thesis
    unfolding index_ok_def Let_def c
  proof (intro conjI allI impI)
    show "length (remove_at j ?U) = length (remove_at j ns)" using l j by simp
    fix i assume i: "i < length (remove_at j ns)"
    then have i': "i < length ns - 1" using j by simp
    have "remove_at j ns ! i \<in> set (remove_at j ns)" using i by simp
    note fi = f [OF this]
    have n: "remove_at j ns ! i = ns ! (if i < j then i else i + 1)" "remove_at j ?U ! i = ?U ! (if i < j then i else i + 1)"
      using nth_remove_at [of j ns i] nth_remove_at [of j ?U i] j i' l by simp_all
    have "(if i < j then i else i + 1) < length ns" using i' by auto
    note mi = m [OF this]
    show "rank (remove_at j ?U ! i) = rank (recs' (remove_at j ns ! i) ! 0)" using mi fi n by simp
    show "child_id (remove_at j ?U ! i) = remove_at j ns ! i" using mi n by simp
    show "key_len (remove_at j ?U ! i) + INDEX_VALUE_SIZE \<le> length (remove_at j ?U ! i)" using mi n by simp
  qed
qed

context stored_keys
begin

lemma tree_frame:
  assumes t: "tree_from key_ok rank P recs b levels" and rm: "roomy P n" "roomy P' m"
    and f: "frame P recs P' recs' S" and S: "S \<inter> set (concat levels) = {}" "0 \<notin> S"
  shows "tree_from key_ok rank P' recs' b levels"
proof -
  obtain ns up where l: "levels = ns # up" using t by (cases levels) (auto simp: tree_from_def)
  note ti = t [unfolded l tree_from_Cons]
  have lv: "lvl key_ok rank P' recs' ms" if "ms \<in> set (ns # up)" for ms
    using ti that S(1) l by (intro lvl_frame_set [OF _ rm f]) auto
  have eq: "recs' x = recs x" if "ms \<in> set (ns # up)" "x \<in> set ms" for ms x
    using f S(1) that l by (auto simp: frame_def)
  have "idx_up recs ns up" using ti by simp
  then have "idx_up recs' ns up" by (rule idx_up_cong) (use eq eq [of ns] in auto)
  then show ?thesis unfolding l tree_from_Cons using ti lv frame_head [OF f S(2)] by auto
qed

text \<open>
  After a removal the part of the tree above \<open>b\<close> levels holds the records \<open>L\<close>, or it is gone and the
  child of its last record is the root.
\<close>

definition tree_left :: "node_pool \<Rightarrow> (nat \<Rightarrow> u8 list list) \<Rightarrow> nat \<Rightarrow> nat set \<Rightarrow> u8 list list \<Rightarrow> nat list list \<Rightarrow> bool" where
  "tree_left P recs b S L levels \<longleftrightarrow>
     (if levels = [] then 0 < b \<and> (\<exists>r. L = [r] \<and> vdfs2_btree_get_root_id P = child_id r) \<and> vdfs2_btree_get_height P = b
      else tree_from key_ok rank P recs b levels \<and> concat (map recs (hd levels)) = L \<and> set (concat levels) \<subseteq> S)"

lemma tree_left_mono: "tree_left P recs b S L levels \<Longrightarrow> S \<subseteq> T \<Longrightarrow> tree_left P recs b T L levels"
  unfolding tree_left_def by (auto split: if_splits)

lemma tree_left_frame:
  assumes t: "tree_left P recs b S L levels" and rm: "roomy P n" "roomy P' m" and f: "frame P recs P' recs' T" "T \<inter> S = {}" "0 \<notin> T"
  shows "tree_left P' recs' b S L levels"
proof (cases "levels = []")
  case True
  then show ?thesis using t frame_head [OF f(1,3)] by (simp add: tree_left_def)
next
  case False
  then have a: "tree_from key_ok rank P recs b levels" "concat (map recs (hd levels)) = L" "set (concat levels) \<subseteq> S"
    using t by (simp_all add: tree_left_def)
  have dj: "T \<inter> set (concat levels) = {}" using a(3) f(2) by blast
  have "recs' x = recs x" if "x \<in> set (hd levels)" for x
  proof -
    have "x \<in> set (concat levels)" using that False by (metis UN_I hd_in_set set_concat)
    then show ?thesis using f(1) dj by (auto simp: frame_def)
  qed
  then have "concat (map recs' (hd levels)) = concat (map recs (hd levels))" by (auto intro!: arg_cong [where f = concat])
  then show ?thesis using False a tree_frame [OF a(1) rm f(1) dj f(3)] by (simp add: tree_left_def)
qed

text \<open>A level below from which the node with number \<open>j\<close> was taken out, under the part without the index record.\<close>

lemma join_left:
  assumes l: "lvl key_ok rank P' recs' (remove_at j ns)" and t: "tree_left P' recs' (b + 1) S (remove_at j (concat (map recs us))) levels"
    and ix: "index_ok rank recs us ns" and j: "j < length ns"
    and f: "\<And>y. y \<in> set (remove_at j ns) \<Longrightarrow> rank (recs' y ! 0) = rank (recs y ! 0)" and dj: "set (remove_at j ns) \<inter> S = {}"
  shows "tree_left P' recs' b (set (remove_at j ns) \<union> S) (concat (map recs' (remove_at j ns))) (remove_at j ns # levels)"
proof (cases levels)
  case Nil
  let ?U = "concat (map recs us)"
  have lu: "length ?U = length ns" using ix by (simp add: index_ok_def Let_def)
  from t Nil obtain r where r: "remove_at j ?U = [r]" "vdfs2_btree_get_root_id P' = child_id r" "vdfs2_btree_get_height P' = b + 1"
    by (auto simp: tree_left_def)
  have "length (remove_at j ns) = 1" using arg_cong [OF r(1), of length] lu j by simp
  then obtain y where y: "remove_at j ns = [y]" by (auto simp: length_Suc_conv)
  have "child_id r = y"
  proof -
    define q where "q = (if j = 0 then (1 :: nat) else 0)"
    have two: "length ns = 2" using \<open>length (remove_at j ns) = 1\<close> j by simp
    then have q: "q < length ns" "remove_at j ns ! 0 = ns ! q" "remove_at j ?U ! 0 = ?U ! q"
      using nth_remove_at [of j ns 0] nth_remove_at [of j ?U 0] j lu by (auto simp: q_def)
    then show ?thesis using ix y r(1) by (simp add: index_ok_def Let_def)
  qed
  then have "tree_from key_ok rank P' recs' b [[y]]" using l y r by (intro tree_single) simp_all
  then show ?thesis using Nil y by (simp add: tree_left_def)
next
  case (Cons us' up')
  have a: "tree_from key_ok rank P' recs' (b + 1) (us' # up')" "concat (map recs' us') = remove_at j (concat (map recs us))"
    "set (concat (us' # up')) \<subseteq> S" using t Cons by (simp_all add: tree_left_def)
  have "index_ok rank recs' us' (remove_at j ns)" by (rule index_ok_remove [OF ix a(2) j f])
  moreover have "set (remove_at j ns) \<inter> set (concat (us' # up')) = {}" using dj a(3) by blast
  ultimately have "tree_from key_ok rank P' recs' b (remove_at j ns # us' # up')" using tree_join [OF l a(1)] by blast
  then show ?thesis using Cons a(3) by (auto simp: tree_left_def)
qed

section \<open>Merging\<close>

lemma right_key_ok:
  assumes ok: "node_ok h d rs" and rs: "rs \<noteq> []" and f: "rec_fits key_ok h (rs ! 0)"
  shows "\<exists>k. right_key h d = Ok k \<and> key_ok k \<and> rank k = rank (rs ! 0)"
proof -
  let ?r = "rs ! 0" and ?p = "off h d 0"
  have r0: "0 < length rs" using rs by simp
  note g = get_record_ok [OF ok r0] and fk = rec_fits_key [OF f]
  have "take (key_len ?r) (rng d ?p (length ?r)) = rng d ?p (key_len ?r)" using fk(4) by (simp add: rng_def min_absorb1)
  then have key: "rng d ?p (key_len ?r) = take (key_len ?r) ?r" using g(2) by simp
  have ko: "key_ok (take (key_len ?r) ?r)" using f by (simp add: rec_fits_def)
  have "right_key h d = Ok (wr 4 (take (key_len ?r) ?r) 8 (key_len ?r + INDEX_VALUE_SIZE))"
    using g(1,4,5) fk(3,4) key by (simp add: right_key_def Let_def GEN_KEY_SIZE_def)
  then show ?thesis using ok_other_len [OF ko] rank_other_len [OF ko] fk(2) by simp
qed

text \<open>
  A call succeeded and left the records \<open>L\<close> in the part of the tree above \<open>b\<close> levels, whose
  nodes were \<open>S\<close>; besides these it changed the head of the tree only.
\<close>

definition outcome ::
  "ret \<times> node_pool \<times> mem \<Rightarrow> node_pool \<Rightarrow> (nat \<Rightarrow> u8 list list) \<Rightarrow> nat \<Rightarrow> nat set \<Rightarrow> u8 list list \<Rightarrow> nat \<Rightarrow> bool" where
  "outcome res P recs b S L n \<longleftrightarrow>
     (\<exists>P' recs' levels. res = (Success, P', []) \<and> roomy P' n \<and> frame P recs P' recs' (insert 0 S) \<and> tree_left P' recs' b S L levels)"

lemma outcomeI:
  "roomy P' n \<Longrightarrow> frame P recs P' recs' (insert 0 S) \<Longrightarrow> tree_left P' recs' b S L levels \<Longrightarrow> outcome (Success, P', []) P recs b S L n"
  unfolding outcome_def by blast

lemma outcomeE:
  assumes "outcome res P recs b S L n"
  obtains P' recs' levels where "res = (Success, P', [])" "roomy P' n" "frame P recs P' recs' (insert 0 S)" "tree_left P' recs' b S L levels"
  using assms unfolding outcome_def by blast

lemma outcome_self:
  assumes "tree_from key_ok rank P recs b (ns # up)" "roomy P n"
  shows "outcome (Success, P, []) P recs b (set (concat (ns # up))) (concat (map recs ns)) n"
proof (rule outcomeI [OF assms(2) frame_refl])
  show "tree_left P recs b (set (concat (ns # up))) (concat (map recs ns)) (ns # up)" using assms(1) by (simp add: tree_left_def)
qed

lemma outcome_trans:
  assumes "outcome res P1 recs1 b S L n" "frame P recs P1 recs1 (insert 0 S)"
  shows "outcome res P recs b S L n"
  using assms(1)
proof (rule outcomeE)
  fix P' recs' levels assume a: "res = (Success, P', [])" "roomy P' n" "frame P1 recs1 P' recs' (insert 0 S)" "tree_left P' recs' b S L levels"
  show ?thesis unfolding a(1) by (rule outcomeI [OF a(2) frame_trans [OF assms(2) a(3)] a(4)]) simp_all
qed

lemma merge_at:
  assumes t: "tree_from key_ok rank P recs b (ns # us # up)" and rm: "roomy P n" and j: "j + 1 < length ns"
    and d: "pool_nodes P (ns ! j) = Some dl" "pool_nodes P (ns ! (j + 1)) = Some dr"
    and fits: "node_size_bytes (pool_host P) \<le> descr_free_space dl + descr_free_space dr"
    and rem: "\<And>P2 recs2 k. roomy P2 n \<Longrightarrow> frame P recs P2 recs2 (set ns) \<Longrightarrow> \<forall>y\<in>set ns. pool_nodes P2 y \<noteq> None \<Longrightarrow> key_ok k \<Longrightarrow>
      rank k = rank (recs (ns ! (j + 1)) ! 0) \<Longrightarrow> outcome (remove P2 k (b + 1 + 1) []) P2 recs2 (b + 1) (set (concat (us # up))) (remove_at (j + 1) (concat (map recs2 us))) n"
  shows "outcome (btree_merge remove P (ns ! j) (ns ! (j + 1)) (b + 1) False []) P recs b (set (concat (ns # us # up))) (concat (map recs ns)) n"
proof -
  let ?h = "pool_host P" and ?A = "take j ns" and ?x = "ns ! j" and ?y = "ns ! (j + 1)" and ?B = "drop (Suc (j + 1)) ns"
  note ti = t [unfolded tree_from_Cons]
  have lv: "lvl key_ok rank P recs ns" and ix: "index_ok rank recs us ns" using ti by simp_all
  have j0: "j < length ns" using j by simp
  have ns: "?A @ ?x # ?y # ?B = ns"
    using id_take_nth_drop [OF j0] id_take_nth_drop [of 0 "drop (Suc j) ns"] j by (simp add: Cons_nth_drop_Suc)
  have ns': "remove_at (j + 1) ns = ?A @ ?x # ?B" using j0 by (simp add: remove_at_def take_Suc_conv_app_nth)
  have dst: "distinct ns" using lv by (simp add: lvl_def)
  have yn: "?y \<notin> set (?A @ ?x # ?B)" and dAB: "?x \<notin> set ?A" "?x \<notin> set ?B" using dst by (subst (asm) ns [symmetric]; simp)+
  have sub: "set (?A @ ?x # ?B) \<subseteq> set ns" by (subst (2) ns [symmetric]) auto
  have dj: "set ns \<inter> set (concat (us # up)) = {}" using ti by auto
  have n0: "0 \<notin> set ns" using lvl_in_pool(2) [OF lv rm] by blast
  note ny = level_node [OF lv rm j d(2)]
  have lv': "lvl key_ok rank P recs (?A @ ?x # ?y # ?B)" using lv ns by simp
  define recs2 where "recs2 = recs(?x := recs ?x @ recs ?y)"
  from level_merge [OF lv' rm d fits, folded recs2_def] obtain dm where m:
    "merge_bytes ?h dl dr = Ok dm" "descr_node_id dm = ?x" "descr_next dr = first_or 0 ?B"
    "lvl key_ok rank (relink_first ?B ?x (pool_put ?x dm P)) recs2 (?A @ ?x # ?B)"
    "roomy (relink_first ?B ?x (pool_put ?x dm P)) n"
    "(if first_or 0 ?B = 0 then Ok (pool_put ?x dm P)
      else and_then (pool_get (pool_put ?x dm P) (first_or 0 ?B)) (\<lambda>b. Ok (pool_put (first_or 0 ?B) (set_prev ?x b) (pool_put ?x dm P)))) =
      Ok (relink_first ?B ?x (pool_put ?x dm P))"
    "frame P recs (relink_first ?B ?x (pool_put ?x dm P)) recs2 (set (?A @ ?x # ?B))" by blast
  define P2 where "P2 = relink_first ?B ?x (pool_put ?x dm P)"
  note m' = m(4-7) [folded P2_def]
  have f2: "frame P recs P2 recs2 (set ns)" by (rule frame_mono [OF m'(4) sub])
  have in2: "\<forall>z\<in>set ns. pool_nodes P2 z \<noteq> None"
  proof
    fix z assume z: "z \<in> set ns"
    show "pool_nodes P2 z \<noteq> None"
    proof (cases "z = ?y")
      case True
      then show ?thesis using m'(4) yn d(2) by (simp add: frame_def)
    next
      case False
      have "z \<in> set (?A @ ?x # ?B)" using z False by (subst (asm) ns [symmetric]) auto
      then show ?thesis by (rule lvl_in_pool(1) [OF m'(1,2)])
    qed
  qed
  obtain k where k: "right_key ?h dr = Ok k" "key_ok k" "rank k = rank (recs ?y ! 0)"
    using right_key_ok [OF ny(1,6)] ny(2,6) by auto
  from rem [OF m'(2) f2 in2 k(2,3)] obtain P3 recs3 levels where r:
    "remove P2 k (b + 1 + 1) [] = (Success, P3, [])" "roomy P3 n" "frame P2 recs2 P3 recs3 (insert 0 (set (concat (us # up))))"
    "tree_left P3 recs3 (b + 1) (set (concat (us # up))) (remove_at (j + 1) (concat (map recs2 us))) levels"
    by (rule outcomeE)
  have U: "concat (map recs2 us) = concat (map recs us)"
  proof -
    have "recs2 z = recs z" if "z \<in> set us" for z
    proof -
      have "z \<notin> set ns" using dj that by auto
      then show ?thesis using f2 by (simp add: frame_def)
    qed
    then show ?thesis by (auto intro!: arg_cong [where f = concat])
  qed
  define P4 where "P4 = P3\<lparr>pool_nodes := (pool_nodes P3)(?y := None)\<rparr>"
  have r4: "roomy P4 n" unfolding P4_def by (rule roomy_destroy [OF r(2) ny(3)])
  have f4: "frame P3 recs3 P4 recs3 {?y}" by (simp add: frame_def P4_def)
  have yU: "?y \<notin> set (concat (us # up))" using dj nth_mem [OF j] by (meson disjoint_iff)
  have t4: "tree_left P4 recs3 (b + 1) (set (concat (us # up))) (remove_at (j + 1) (concat (map recs us))) levels"
    by (rule tree_left_frame [OF r(4) [unfolded U] r(2) r4 f4]) (use yU ny(3) in auto)
  have sepn: "z \<notin> insert 0 (set (concat (us # up)))" if "z \<in> set ns" for z
  proof -
    have "z \<noteq> 0" using that n0 by metis
    moreover have "z \<notin> set (concat (us # up))" using that dj by (meson disjoint_iff)
    ultimately show ?thesis by simp
  qed
  have l3: "lvl key_ok rank P3 recs3 (?A @ ?x # ?B)"
  proof (rule lvl_frame_set [OF m'(1,2) r(2,3)])
    show "set (?A @ ?x # ?B) \<inter> insert 0 (set (concat (us # up))) = {}" using sub sepn by (meson disjoint_iff subsetD)
  qed
  have l4: "lvl key_ok rank P4 recs3 (?A @ ?x # ?B)" by (rule lvl_frame_set [OF l3 r(2) r4 f4]) (use yn in auto)
  have e3: "recs3 z = recs2 z" if "z \<in> set ns" for z using r(3) sepn [OF that] by (simp add: frame_def)
  have first: "rank (recs3 z ! 0) = rank (recs z ! 0)" if "z \<in> set (?A @ ?x # ?B)" for z
  proof -
    have "z \<in> set ns" using that sub by blast
    moreover have "recs ?x \<noteq> []" by (rule level_node(6) [OF lv rm j0 d(1)])
    ultimately show ?thesis using e3 [of z] by (cases "z = ?x") (simp_all add: recs2_def nth_append)
  qed
  have "tree_left P4 recs3 b (set (remove_at (j + 1) ns) \<union> set (concat (us # up))) (concat (map recs3 (remove_at (j + 1) ns)))
      (remove_at (j + 1) ns # levels)"
  proof (rule join_left [OF _ t4 ix j])
    show "lvl key_ok rank P4 recs3 (remove_at (j + 1) ns)" using l4 ns' by simp
    show "rank (recs3 z ! 0) = rank (recs z ! 0)" if "z \<in> set (remove_at (j + 1) ns)" for z using first that ns' by simp
    show "set (remove_at (j + 1) ns) \<inter> set (concat (us # up)) = {}" unfolding ns' using sub dj by blast
  qed
  moreover have "concat (map recs3 (remove_at (j + 1) ns)) = concat (map recs ns)"
  proof -
    have "concat (map recs3 (?A @ ?x # ?B)) = concat (map recs2 (?A @ ?x # ?B))"
      using e3 sub by (intro arg_cong [where f = concat] map_cong) auto
    also have "\<dots> = concat (map recs (?A @ ?x # ?y # ?B))"
    proof -
      have "concat (map recs2 ?A) = concat (map recs ?A)" "concat (map recs2 ?B) = concat (map recs ?B)"
        using dAB by (auto simp: recs2_def intro!: arg_cong [where f = concat])
      then show ?thesis by (simp add: recs2_def)
    qed
    finally show ?thesis unfolding ns ns' .
  qed
  ultimately have tl: "tree_left P4 recs3 b (set (?A @ ?x # ?B) \<union> set (concat (us # up))) (concat (map recs ns)) (remove_at (j + 1) ns # levels)"
    using ns' by simp
  have tl': "tree_left P4 recs3 b (set (concat (ns # us # up))) (concat (map recs ns)) (remove_at (j + 1) ns # levels)"
    by (rule tree_left_mono [OF tl]) (use sub in auto)
  have fr: "frame P recs P4 recs3 (insert 0 (set (concat (ns # us # up))))"
  proof -
    have "frame P recs P3 recs3 (insert 0 (set (concat (ns # us # up))))" by (rule frame_trans [OF f2 r(3)]) auto
    then show ?thesis by (rule frame_trans [OF _ f4]) (use j in auto)
  qed
  have g: "pool_get P ?x = Ok dl" "pool_get P ?y = Ok dr" using d pool_get_Ok [OF rm] by simp_all
  have "btree_merge remove P ?x ?y (b + 1) False [] = (Success, P4, [])"
    unfolding btree_merge_def Let_def g and_then.simps m(1) result.case prod.case m(2,3,6) P2_def [symmetric] if_False k(1)
    using r(1) ny(3) by (simp add: pool_destroy_def P4_def)
  then show ?thesis using outcomeI [OF r4 fr tl'] by simp
qed

end

section \<open>Choosing the neighbour\<close>

text \<open>A record that is not the first one of its node.\<close>

definition inner :: "(nat \<Rightarrow> u8 list list) \<Rightarrow> nat list \<Rightarrow> nat \<Rightarrow> bool" where
  "inner recs us g \<longleftrightarrow>
     (\<forall>j q. j < length us \<longrightarrow> q < length (recs (us ! j)) \<longrightarrow> g = length (concat (map recs (take j us))) + q \<longrightarrow> q \<noteq> 0)"

lemma innerI:
  assumes "j < length us" "q < length (recs (us ! j))" "g = length (concat (map recs (take j us))) + q" "q \<noteq> 0"
  shows "inner recs us g"
  unfolding inner_def
proof (intro allI impI)
  fix j' q' assume a: "j' < length us" "q' < length (recs (us ! j'))" "g = length (concat (map recs (take j' us))) + q'"
  have "j' = j \<and> q' = q" using position_unique [of j' "map recs us" q' j q] assms(1-3) a by (simp add: take_map)
  then show "q' \<noteq> 0" using assms(4) by simp
qed

context stored_keys
begin

lemma not_dangling:
  assumes l: "lvl key_ok rank P recs us" and rm: "roomy P n" and ix: "index_ok rank recs us ns"
    and j: "j < length us" "q < length (recs (us ! j))" "pool_nodes P (us ! j) = Some d"
  shows "is_bnode_dangling (pool_host P) d q (ns ! (length (concat (map recs (take j us))) + q)) = Ok False"
    "length (concat (map recs (take j us))) + q < length ns"
proof -
  note nd = level_node [OF l rm j(1,3)]
  let ?g = "length (concat (map recs (take j us))) + q"
  have U: "concat (map recs us) ! ?g = recs (us ! j) ! q" "?g < length (concat (map recs us))"
    using nth_concat_at [of j "map recs us" q] length_concat_take_mono [of j "map recs us" q] j by (simp_all add: take_map)
  then show g: "?g < length ns" using ix by (simp add: index_ok_def Let_def)
  have c: "child_id (recs (us ! j) ! q) = ns ! ?g"
  proof -
    have "child_id (concat (map recs us) ! ?g) = ns ! ?g" using ix g unfolding index_ok_def Let_def by blast
    then show ?thesis using U(1) by simp
  qed
  have f: "rec_fits key_ok (pool_host P) (recs (us ! j) ! q)" using nd(2) j(2) by simp
  then have "key_len (recs (us ! j) ! q) \<le> VDFS2_MAX_BTREE_KEY_LEN" "key_len (recs (us ! j) ! q) + INDEX_VALUE_SIZE \<le> length (recs (us ! j) ! q)"
    by (simp_all add: rec_fits_def)
  from child_of_record [OF nd(1) j(2) this] show "is_bnode_dangling (pool_host P) d q (ns ! ?g) = Ok False"
    using get_record_ok(1) [OF nd(1) j(2)] c by (simp add: is_bnode_dangling_def)
qed

lemma level_neighbours:
  assumes l: "lvl key_ok rank P recs ns" and rm: "roomy P n" and i: "i < length ns" and d: "pool_nodes P (ns ! i) = Some d"
  shows "0 < i \<Longrightarrow> descr_prev d = ns ! (i - 1)" "i + 1 < length ns \<Longrightarrow> descr_next d = ns ! (i + 1)"
proof -
  note n = level_node(7,8) [OF l rm i d]
  show "descr_prev d = ns ! (i - 1)" if "0 < i"
  proof -
    have "take i ns = take (i - 1) ns @ [ns ! (i - 1)]" using that i take_Suc_conv_app_nth [of "i - 1" ns] by simp
    then show ?thesis using n(1) by simp
  qed
  show "descr_next d = ns ! (i + 1)" if "i + 1 < length ns"
    using n(2) that by (simp add: Cons_nth_drop_Suc [symmetric])
qed

lemma direction_ok:
  assumes t: "tree_from key_ok rank P recs b (ns # us # up)" and rm: "roomy P n" and k: "key_ok k"
    and c: "count_le rank (concat (map recs us)) (rank k) = Suc i" and i: "i < length ns" and d: "pool_nodes P (ns ! i) = Some cur"
  shows "\<exists>dir. merge_direction cmp P k (b + 1) (ns ! i) cur [] = (Ok dir, []) \<and>
    (dir = None \<or> dir = Some (True, False) \<and> 0 < i \<and> inner recs us i \<or> dir = Some (False, False) \<and> i + 1 < length ns \<and> inner recs us (i + 1))"
proof -
  note ti = t [unfolded tree_from_Cons]
  have ht: "vdfs2_btree_get_height P \<noteq> b + 1" using ti by simp
  have lv: "lvl key_ok rank P recs ns" and lu: "lvl key_ok rank P recs us" and ix: "index_ok rank recs us ns" using ti by simp_all
  have tu: "tree_from key_ok rank P recs (b + 1) (us # up)" using ti unfolding tree_from_Cons by simp
  obtain j q pd where lo: "j < length us" "q < length (recs (us ! j))" "i = length (concat (map recs (take j us))) + q"
    "pool_nodes P (us ! j) = Some pd" "vdfs2_btree_traverse cmp P k False (b + 1 + 1) [] = (Ok (us ! j, pd, int q, []), [])"
    using locate [OF tu rm k c] by blast
  have cnt: "descr_recs_count pd = length (recs (us ! j))" by (rule node_okD(4) [OF level_node(1) [OF lu rm lo(1,4)]])
  show ?thesis
  proof (cases "0 < q")
    case True
    then have "merge_direction cmp P k (b + 1) (ns ! i) cur [] = (Ok (Some (True, False)), [])"
      using ht lo(5) not_dangling(1) [OF lu rm ix lo(1,2,4)] lo(3) by (simp add: merge_direction_def)
    moreover have "inner recs us i" using innerI [OF lo(1-3)] True by simp
    ultimately show ?thesis using True lo(3) by auto
  next
    case q0: False
    show ?thesis
    proof (cases "q + 1 < length (recs (us ! j))")
      case True
      have i1: "i + 1 < length ns" using not_dangling(2) [OF lu rm ix lo(1) True lo(4)] lo(3) by simp
      have "is_bnode_dangling (pool_host P) pd (q + 1) (descr_next cur) = Ok False"
        using not_dangling(1) [OF lu rm ix lo(1) True lo(4)] lo(3) level_neighbours(2) [OF lv rm i d i1] by simp
      moreover have "nat (int q + 1) = q + 1" by simp
      ultimately have "merge_direction cmp P k (b + 1) (ns ! i) cur [] = (Ok (Some (False, False)), [])"
        using ht lo(5) q0 True cnt by (simp add: merge_direction_def)
      moreover have "inner recs us (i + 1)" using innerI [of j us "q + 1" recs "i + 1"] lo(1,3) True by simp
      ultimately show ?thesis using i1 by auto
    next
      case False
      then have "merge_direction cmp P k (b + 1) (ns ! i) cur [] = (Ok None, [])"
        using ht lo(5) q0 cnt by (simp add: merge_direction_def)
      then show ?thesis by blast
    qed
  qed
qed

lemma rebalance_ok:
  assumes t: "tree_from key_ok rank P recs b (ns # us # up)" and rm: "roomy P n" and k: "key_ok k"
    and c: "count_le rank (concat (map recs us)) (rank k) = Suc i" and i: "i < length ns" and d: "pool_nodes P (ns ! i) = Some cur"
    and rem: "\<And>j P2 recs2 k. j + 1 < length ns \<Longrightarrow> inner recs us (j + 1) \<Longrightarrow> roomy P2 n \<Longrightarrow> frame P recs P2 recs2 (set ns) \<Longrightarrow>
      \<forall>y\<in>set ns. pool_nodes P2 y \<noteq> None \<Longrightarrow> key_ok k \<Longrightarrow> rank k = rank (recs (ns ! (j + 1)) ! 0) \<Longrightarrow> outcome (remove P2 k (b + 1 + 1) []) P2 recs2 (b + 1) (set (concat (us # up))) (remove_at (j + 1) (concat (map recs2 us))) n"
  shows "outcome (rebalance cmp remove P k (b + 1) (ns ! i) (descr_free_space cur) []) P recs b (set (concat (ns # us # up))) (concat (map recs ns)) n"
proof -
  let ?h = "pool_host P"
  have lv: "lvl key_ok rank P recs ns" using t by (simp add: tree_from_Cons)
  have pg: "pool_get P (ns ! i) = Ok cur" using d pool_get_Ok [OF rm] by simp
  note n = level_node [OF lv rm i d]
  note self = outcome_self [OF t rm]
  obtain dir where dir: "merge_direction cmp P k (b + 1) (ns ! i) cur [] = (Ok dir, [])"
    "dir = None \<or> dir = Some (True, False) \<and> 0 < i \<and> inner recs us i \<or> dir = Some (False, False) \<and> i + 1 < length ns \<and> inner recs us (i + 1)"
    using direction_ok [OF t rm k c i d] by blast
  have nd: "\<exists>dn. pool_nodes P (ns ! m) = Some dn \<and> pool_get P (ns ! m) = Ok dn \<and> descr_free_space dn < 2 ^ 16" if m: "m < length ns" for m
  proof -
    obtain dn where dn: "pool_nodes P (ns ! m) = Some dn" using lvl_in_pool(1) [OF lv rm nth_mem [OF m]] by blast
    then show ?thesis using pool_get_Ok [OF rm] node_okD(2,5) [OF level_node(1) [OF lv rm m dn]] by simp
  qed
  have cf: "descr_free_space cur < 2 ^ 16" using nd [OF i] d by auto
  from dir(2) consider "dir = None" | "dir = Some (True, False)" "0 < i" "inner recs us i" | "dir = Some (False, False)" "i + 1 < length ns" "inner recs us (i + 1)"
    by blast
  then show ?thesis
  proof cases
    case 1
    then have "rebalance cmp remove P k (b + 1) (ns ! i) (descr_free_space cur) [] = (Success, P, [])"
      using pg dir(1) by (simp add: rebalance_def)
    then show ?thesis using self by (simp only:)
  next
    case 2
    define m where "m = i - 1"
    have m: "m + 1 = i" "m + 1 < length ns" "m < length ns" using 2(2) i by (simp_all add: m_def)
    obtain dn where dn: "pool_nodes P (ns ! m) = Some dn" "pool_get P (ns ! m) = Ok dn" "descr_free_space dn < 2 ^ 16" using nd [OF m(3)] by blast
    have pv: "descr_prev cur = ns ! m" using level_neighbours(1) [OF lv rm i d 2(2)] by (simp add: m_def)
    have run: "rebalance cmp remove P k (b + 1) (ns ! i) (descr_free_space cur) [] =
        (if node_size_bytes ?h \<le> descr_free_space cur + descr_free_space dn
         then btree_merge remove P (ns ! m) (ns ! (m + 1)) (b + 1) False [] else (Success, P, []))"
      using pg dir(1) 2(1) pv dn(2,3) n(5) cf m(1) by (simp add: rebalance_def Let_def)
    show ?thesis
    proof (cases "node_size_bytes ?h \<le> descr_free_space cur + descr_free_space dn")
      case True
      have d': "pool_nodes P (ns ! (m + 1)) = Some cur" using d m(1) by simp
      have fits: "node_size_bytes ?h \<le> descr_free_space dn + descr_free_space cur" using True by simp
      have inn: "inner recs us (m + 1)" using 2(3) m(1) by simp
      show ?thesis unfolding run if_P [OF True] by (rule merge_at [OF t rm m(2) dn(1) d' fits]) (rule rem [OF m(2) inn]; assumption)
    next
      case False
      then show ?thesis unfolding run using self by (simp only: if_False)
    qed
  next
    case 3
    obtain dn where dn: "pool_nodes P (ns ! (i + 1)) = Some dn" "pool_get P (ns ! (i + 1)) = Ok dn" "descr_free_space dn < 2 ^ 16"
      using nd [OF 3(2)] by blast
    have nx: "descr_next cur = ns ! (i + 1)" by (rule level_neighbours(2) [OF lv rm i d 3(2)])
    have run: "rebalance cmp remove P k (b + 1) (ns ! i) (descr_free_space cur) [] =
        (if node_size_bytes ?h \<le> descr_free_space cur + descr_free_space dn
         then btree_merge remove P (ns ! i) (ns ! (i + 1)) (b + 1) False [] else (Success, P, []))"
      using pg dir(1) 3(1) nx dn(2,3) n(5) cf by (simp add: rebalance_def Let_def)
    show ?thesis
    proof (cases "node_size_bytes ?h \<le> descr_free_space cur + descr_free_space dn")
      case True
      show ?thesis unfolding run if_P [OF True] by (rule merge_at [OF t rm 3(2) d dn(1) True]) (rule rem [OF 3(2,3)]; assumption)
    next
      case False
      then show ?thesis unfolding run using self by (simp only: if_False)
    qed
  qed
qed

section \<open>Giving up a root\<close>

lemma drop_root_ok:
  assumes t: "tree_from key_ok rank P recs b [[x]]" and rm: "roomy P n" and d: "pool_nodes P x = Some d" and r: "recs x = [r]"
    and kid: "0 < b \<Longrightarrow> child_id r \<noteq> 0 \<and> pool_nodes P (child_id r) \<noteq> None"
  shows "outcome (case drop_root P x d of (r, P') \<Rightarrow> (r, P', [])) P recs b {x} [r] n"
proof -
  note ti = t [unfolded tree_from_Cons]
  have lv: "lvl key_ok rank P recs [x]" using ti by blast
  have ht: "vdfs2_btree_get_height P = b + 1" using ti by simp
  have dx: "pool_nodes P ([x] ! 0) = Some d" using d by simp
  have i0: "0 < length [x]" by simp
  note n = level_node [OF lv rm i0 dx, unfolded nth_Cons_0 r]
  show ?thesis
  proof (cases "b = 0")
    case True
    then show ?thesis using outcome_self [OF t rm] ht r by (simp add: drop_root_def)
  next
    case False
    let ?h = "pool_host P"
    have q: "0 < length [r]" by simp
    have f: "key_len r \<le> VDFS2_MAX_BTREE_KEY_LEN" "key_len r + INDEX_VALUE_SIZE \<le> length r" using n(2) by (simp_all add: rec_fits_def)
    note g = get_record_ok [OF n(1) q, unfolded nth_Cons_0]
    note c = child_of_record(2) [OF n(1) q, unfolded nth_Cons_0, OF f]
    obtain dc where dc: "pool_get P (child_id r) = Ok dc" using kid False pool_get_Ok [OF rm] by auto
    have b32: "child_id r < 2 ^ 32"
      using rd_bound [of "key_len r" 4 r] f(2) by (simp add: child_id_def INDEX_VALUE_SIZE_def)
    have gc: "get_child_bnode P d (get_record ?h d 0) = Ok (child_id r)"
      using g(1,4,5) c f dc kid False by (simp add: get_child_bnode_def Let_def)
    obtain hd0 where hd0: "pool_nodes P 0 = Some hd0" "18 \<le> length hd0" using rm by (auto simp: roomy_def)
    define hd1 where "hd1 = wr 4 hd0 12 (child_id r)"
    define hd2 where "hd2 = wr 2 hd1 16 b"
    have l1: "length hd1 = length hd0" "length hd2 = length hd0" using hd0(2) by (simp_all add: hd1_def hd2_def)
    have hb: "b + 1 < 2 ^ 16" using rd_bound [of 16 2 hd0] hd0 ht by (simp add: vdfs2_btree_get_height_def head_data_def)
    have ht1: "rd 2 hd1 16 = b + 1" using ht hd0 by (simp add: hd1_def rd_wr_other vdfs2_btree_get_height_def head_data_def)
    have s1: "vdfs2_btree_set_root_id (child_id r) P = pool_put 0 hd1 P"
      using hd0(1) by (simp add: vdfs2_btree_set_root_id_def head_data_def hd1_def pool_put_def)
    have s2: "vdfs2_btree_dec_height (pool_put 0 hd1 P) = Ok (pool_put 0 hd2 P)"
      using ht1 False hb by (simp add: vdfs2_btree_dec_height_def vdfs2_btree_get_height_def head_data_def Let_def hd2_def pool_put_def)
    define P1 where "P1 = pool_put 0 hd2 P"
    define P2 where "P2 = P1\<lparr>pool_nodes := (pool_nodes P1)(x := None)\<rparr>"
    have run: "drop_root P x d = (Success, P2)"
      using ht False gc s1 s2 n(3) by (simp add: drop_root_def pool_destroy_def P2_def P1_def)
    have r1: "roomy P1 n" unfolding P1_def using roomy_put [OF rm, of 0 hd2] hd0 l1 by simp
    have r2: "roomy P2 n" unfolding P2_def by (rule roomy_destroy [OF r1 n(3)])
    have fr: "frame P recs P2 recs (insert 0 {x})" by (simp add: frame_def P2_def P1_def)
    have "pool_nodes P2 0 = Some hd2" using n(3) by (simp add: P2_def P1_def)
    then have "vdfs2_btree_get_root_id P2 = child_id r" "vdfs2_btree_get_height P2 = b"
      using hd0(2) l1 b32 hb by (simp_all add: vdfs2_btree_get_root_id_def vdfs2_btree_get_height_def head_data_def hd2_def hd1_def rd_wr_same rd_wr_other)
    then have "tree_left P2 recs b {x} [r] []" using False by (simp add: tree_left_def)
    then show ?thesis using run outcomeI [OF r2 fr] by simp
  qed
qed

section \<open>The record and the index record above\<close>

lemma index_count:
  assumes l: "lvl key_ok rank P recs us" and ix: "index_ok rank recs us ns" and i: "i < length ns"
    and k: "rank (recs (ns ! i) ! 0) \<le> k" "i + 1 < length ns \<Longrightarrow> k < rank (recs (ns ! (i + 1)) ! 0)"
  shows "count_le rank (concat (map recs us)) k = Suc i"
proof (rule count_le_Suc)
  show "sorted_less (map rank (concat (map recs us)))" using l by (simp add: lvl_def)
qed (use ix i k in \<open>simp_all add: index_ok_def Let_def\<close>)

lemma delete_stage:
  assumes t: "tree_from key_ok rank P recs b (ns # up)" and rm: "roomy P n" and K: "key_ok K"
    and i: "i < length ns" "p < length (recs (ns ! i))" "g = length (concat (map recs (take i ns))) + p"
    and g: "rank (recs (ns ! i) ! p) = rank K" and two: "2 \<le> length (recs (ns ! i))" and d: "pool_nodes P (ns ! i) = Some d"
    and room: "p = 0 \<Longrightarrow> room_path (pool_host P) recs up i" and fuel: "length up \<le> fuel"
  shows "\<exists>d1 k P2 recs2. delete_from_node (pool_host P) d p = Ok d1 \<and> descr_recs_count d1 \<noteq> 0 \<and>
    (if p = 0 \<and> b + 1 < vdfs2_btree_get_height (pool_put (ns ! i) d1 P)
     then btree_update_key cmp fuel (pool_put (ns ! i) d1 P) K (ns ! i) d1 (b + 1 + 1) [] else (Ok K, pool_put (ns ! i) d1 P, [])) = (Ok k, P2, []) \<and>
    tree_from key_ok rank P2 recs2 b (ns # up) \<and> roomy P2 n \<and> frame P recs P2 recs2 (set (concat (ns # up))) \<and>
    concat (map recs2 ns) = remove_at g (concat (map recs ns)) \<and> key_ok k \<and>
    (\<forall>us up'. up = us # up' \<longrightarrow> count_le rank (concat (map recs2 us)) (rank k) = Suc i)"
proof -
  let ?h = "pool_host P" and ?x = "ns ! i" and ?L = "concat (map recs ns)"
  note ti = t [unfolded tree_from_Cons]
  have lv: "lvl key_ok rank P recs ns" using ti by simp
  note nx = level_node [OF lv rm i(1) d]
  have lv': "lvl key_ok rank P recs (take i ns @ ?x # drop (Suc i) ns)" using lv id_take_nth_drop [OF i(1)] by simp
  define recs1 where "recs1 = recs(?x := remove_at p (recs ?x))"
  from level_delete [OF lv' d rm i(2) two, unfolded id_take_nth_drop [OF i(1), symmetric] i(3) [symmetric], folded recs1_def]
  obtain d1 where d1: "delete_from_node ?h d p = Ok d1" "node_ok ?h d1 (remove_at p (recs ?x))" "lvl key_ok rank (pool_put ?x d1 P) recs1 ns"
    "roomy (pool_put ?x d1 P) n" "concat (map recs1 ns) = remove_at g ?L" by blast
  define P1 where "P1 = pool_put ?x d1 P"
  note d1' = d1(3,4) [folded P1_def]
  have cnt: "descr_recs_count d1 \<noteq> 0" using node_okD(4) [OF d1(2)] i(2) two by simp
  have fr: "frame P recs P1 recs1 (set ns)" using i(1) by (auto simp: frame_def P1_def recs1_def)
  have n0: "0 \<notin> set ns" using lvl_in_pool(2) [OF lv rm] by blast
  have ht: "vdfs2_btree_get_height P1 = b + 1 + length up" using ti frame_head(1) [OF fr n0] by simp
  have other: "ns ! j \<noteq> ?x" if "j < length ns" "j \<noteq> i" for j using lv i(1) that by (simp add: lvl_def nth_eq_iff_index_eq)
  show ?thesis
  proof (cases "p = 0 \<and> up \<noteq> []")
    case False
    have first: "up \<noteq> [] \<Longrightarrow> \<forall>y\<in>set ns. rank (recs1 y ! 0) = rank (recs y ! 0)"
      using False i(2) by (simp add: recs1_def remove_at_def nth_append)
    have t1: "tree_from key_ok rank P1 recs1 b (ns # up)" by (rule tree_same_first [OF t rm d1'(2) fr d1'(1) first])
    have run: "(if p = 0 \<and> b + 1 < vdfs2_btree_get_height (pool_put ?x d1 P)
        then btree_update_key cmp fuel (pool_put ?x d1 P) K ?x d1 (b + 1 + 1) [] else (Ok K, pool_put ?x d1 P, [])) = (Ok K, P1, [])"
      using ht False unfolding P1_def [symmetric] by auto
    have cc: "count_le rank (concat (map recs1 us)) (rank K) = Suc i" if u: "up = us # up'" for us up'
    proof (rule index_count [OF _ _ i(1)])
      show "lvl key_ok rank P1 recs1 us" "index_ok rank recs1 us ns" using t1 u by (simp_all add: tree_from_Cons)
      have p0: "0 < p" using False u by simp
      have so: "sorted_less (map rank (recs ?x))"
        using lv' by (simp add: lvl_def sorted_wrt_append)
      have "rank (recs ?x ! 0) < rank (recs ?x ! p)" using sorted_wrt_nth_less [OF so p0] i(2) nx(6) by simp
      then show "rank (recs1 ?x ! 0) \<le> rank K" using first u g i(1) by simp
      show "rank K < rank (recs1 (ns ! (i + 1)) ! 0)" if "i + 1 < length ns"
        using sorted_next_first [OF lv that i(2)] g first u that by simp
    qed
    have frr: "frame P recs P1 recs1 (set (concat (ns # up)))" by (rule frame_mono [OF fr]) simp
    show ?thesis
      by (rule exI [of _ d1], rule exI [of _ K], rule exI [of _ P1], rule exI [of _ recs1])
        (intro conjI allI impI d1(1,5) cnt run t1 d1'(2) frr K cc)
  next
    case True
    then obtain us up' where up: "up = us # up'" by (cases up) auto
    have dj: "set ns \<inter> set (concat (us # up')) = {}" using ti up by auto
    have ix: "index_ok rank recs us ns" using ti up by simp
    have t1: "tree_from key_ok rank P1 recs1 (b + 1) (us # up')"
      by (rule tree_upper [OF t [unfolded up] rm d1'(2) fr dj n0])
    have rs: "recs1 y = recs y" if "ms \<in> set (us # up')" "y \<in> set ms" for ms y
    proof -
      have "y \<notin> set ns" using dj that by auto
      then show ?thesis using fr by (simp add: frame_def)
    qed
    have U: "concat (map recs1 us) = concat (map recs us)" using rs [of us] by (auto intro!: arg_cong [where f = concat])
    have lu: "length (concat (map recs us)) = length ns" using ix by (simp add: index_ok_def Let_def)
    have iu: "rank (concat (map recs us) ! j) = rank (recs (ns ! j) ! 0)" if "j < length ns" for j
      using ix that by (simp add: index_ok_def Let_def)
    have x1: "recs1 ?x = remove_at 0 (recs ?x)" "recs1 ?x \<noteq> []" "recs1 ?x ! 0 = recs ?x ! 1"
      using True two by (auto simp: recs1_def remove_at_def nth_append)
    have ok1: "node_ok (pool_host P1) d1 (recs1 ?x)" "rec_fits key_ok (pool_host P1) (recs1 ?x ! 0)"
      using d1(2) nx(2) two by (simp_all add: P1_def recs1_def [symmetric] x1(3)) (simp add: recs1_def)
    have so: "sorted_less (map rank (recs ?x))" using lv' by (simp add: lvl_def sorted_wrt_append)
    have K1: "rank K < rank (recs1 ?x ! 0)" using sorted_wrt_nth_less [OF so, of 0 1] two g True x1(3) nx(6) by simp
    have nxt: "rank (recs1 ?x ! 0) < rank (concat (map recs1 us) ! (i + 1))" if "i + 1 < length (concat (map recs1 us))"
    proof -
      have j: "i + 1 < length ns" using that U lu by simp
      then show ?thesis using sorted_next_first [OF lv j, of 1] two iu [OF j] U x1(3) by simp
    qed
    have rp: "room_path (pool_host P1) recs1 (us # up') i"
    proof -
      have "room_path ?h recs1 (us # up') i = room_path ?h recs (us # up') i" by (rule room_path_cong [OF rs])
      then show ?thesis using room True up by (simp add: P1_def del: room_path.simps)
    qed
    have iU: "i < length (concat (map recs1 us))" "rank (concat (map recs1 us) ! i) = rank K"
      using i(1) U lu iu [OF i(1)] g True by simp_all
    have fu: "length up' < fuel" using fuel up by simp
    have "\<exists>P' recs' k r. btree_update_key cmp fuel P1 K ?x d1 (b + 1 + 1) [] = (Ok k, P', []) \<and> key_ok k \<and> rank k = rank (recs1 ?x ! 0) \<and>
        tree_from key_ok rank P' recs' (b + 1) (us # up') \<and> roomy P' n \<and> frame P1 recs1 P' recs' (set (concat (us # up'))) \<and>
        concat (map recs' us) = (concat (map recs1 us))[i := r] \<and> rank r = rank (recs1 ?x ! 0) \<and> child_id r = ?x \<and>
        rec_fits key_ok (pool_host P1) r"
      by (rule update_key_ok [OF t1 d1'(2) K iU rp ok1(1) x1(2) ok1(2) nx(4) K1 _ fu]) (rule nxt)
    then obtain P2 recs2 k r where v:
      "btree_update_key cmp fuel P1 K ?x d1 (b + 1 + 1) [] = (Ok k, P2, [])" "key_ok k" "rank k = rank (recs1 ?x ! 0)"
      "tree_from key_ok rank P2 recs2 (b + 1) (us # up')" "roomy P2 n" "frame P1 recs1 P2 recs2 (set (concat (us # up')))"
      "concat (map recs2 us) = (concat (map recs1 us))[i := r]" "rank r = rank (recs1 ?x ! 0)" "child_id r = ?x" "rec_fits key_ok (pool_host P1) r"
      by (elim exE conjE) (rule that; assumption)
    have eq: "recs2 y = recs1 y" if "y \<in> set ns" for y using v(6) dj that unfolding frame_def by (meson disjoint_iff)
    have l2: "lvl key_ok rank P2 recs2 ns" by (rule lvl_frame_set [OF d1' v(5,6) dj])
    have ix2: "index_ok rank recs2 us ns"
    proof (rule index_ok_update [OF ix _ i(1), of _ r])
      show "concat (map recs2 us) = (concat (map recs us))[i := r]" using v(7) U by simp
      show "rank r = rank (recs2 ?x ! 0)" using v(8) eq [of ?x] i(1) by simp
      show "key_len r + INDEX_VALUE_SIZE \<le> length r" using v(10) by (simp add: rec_fits_def)
      fix j assume j: "j < length ns" "j \<noteq> i"
      then show "rank (recs2 (ns ! j) ! 0) = rank (recs (ns ! j) ! 0)" using eq [of "ns ! j"] other [OF j] by (simp add: recs1_def)
    qed (rule v(9))
    have t2: "tree_from key_ok rank P2 recs2 b (ns # up)" unfolding up by (rule tree_join [OF l2 v(4) ix2 dj])
    have run: "(if p = 0 \<and> b + 1 < vdfs2_btree_get_height (pool_put ?x d1 P)
        then btree_update_key cmp fuel (pool_put ?x d1 P) K ?x d1 (b + 1 + 1) [] else (Ok K, pool_put ?x d1 P, [])) = (Ok k, P2, [])"
      using ht True up v(1) unfolding P1_def [symmetric] by simp
    have cc: "count_le rank (concat (map recs2 vs)) (rank k) = Suc i" if "up = vs # vp" for vs vp
    proof (rule index_count [OF _ _ i(1)])
      show "lvl key_ok rank P2 recs2 vs" "index_ok rank recs2 vs ns" using t2 that by (simp_all add: tree_from_Cons)
      show "rank (recs2 ?x ! 0) \<le> rank k" using v(3) eq [of ?x] i(1) by simp
      show "rank k < rank (recs2 (ns ! (i + 1)) ! 0)" if j: "i + 1 < length ns"
        using sorted_next_first [OF l2 j, of 0] x1(2) v(3) eq [of ?x] i(1) by simp
    qed
    have frr: "frame P recs P2 recs2 (set (concat (ns # up)))" unfolding up by (rule frame_trans [OF fr v(6)]) auto
    have cl: "concat (map recs2 ns) = remove_at g ?L"
    proof -
      have "concat (map recs2 ns) = concat (map recs1 ns)" using eq by (auto intro!: arg_cong [where f = concat])
      then show ?thesis using d1(5) by simp
    qed
    show ?thesis
      by (rule exI [of _ d1], rule exI [of _ k], rule exI [of _ P2], rule exI [of _ recs2])
        (intro conjI allI impI d1(1) cnt run t2 v(5) frr v(2) cl cc)
  qed
qed

section \<open>Removing a record at a level\<close>

text \<open>
  What is asked for removing record \<open>g\<close> of the level above \<open>b\<close> levels: another record is left, the
  nodes whose index records change have room, and the children of the other records are there.
\<close>

definition removable ::
  "node_pool \<Rightarrow> (nat \<Rightarrow> u8 list list) \<Rightarrow> nat \<Rightarrow> nat list \<Rightarrow> nat list list \<Rightarrow> u8 list \<Rightarrow> nat \<Rightarrow> nat \<Rightarrow> bool" where
  "removable P recs b ns up K g n \<longleftrightarrow>
     tree_from key_ok rank P recs b (ns # up) \<and> roomy P n \<and> key_ok K \<and> g < length (concat (map recs ns)) \<and>
     rank (concat (map recs ns) ! g) = rank K \<and> 2 \<le> length (concat (map recs ns)) \<and>
     (inner recs ns g \<or> (\<forall>i p. i < length ns \<longrightarrow> p < length (recs (ns ! i)) \<longrightarrow> g = length (concat (map recs (take i ns))) + p \<longrightarrow>
        room_path (pool_host P) recs up i)) \<and>
     (0 < b \<longrightarrow> (\<forall>r\<in>set (remove_at g (concat (map recs ns))). child_id r \<noteq> 0 \<and> pool_nodes P (child_id r) \<noteq> None))"

text \<open>The children of the index records that are left when the node with number \<open>j\<close> goes.\<close>

lemma children_left:
  assumes ix: "index_ok rank recs us ns" and c: "concat (map recs2 us) = concat (map recs us)" and j: "j < length ns"
    and P: "\<And>y. y \<in> set (remove_at j ns) \<Longrightarrow> y \<noteq> 0 \<and> pool_nodes P2 y \<noteq> None"
    and r: "r \<in> set (remove_at j (concat (map recs2 us)))"
  shows "child_id r \<noteq> 0 \<and> pool_nodes P2 (child_id r) \<noteq> None"
proof -
  let ?U = "concat (map recs us)"
  have lu: "length ?U = length ns" using ix by (simp add: index_ok_def Let_def)
  obtain i where i: "i < length (remove_at j ?U)" "remove_at j ?U ! i = r" using r c by (metis in_set_conv_nth)
  have i': "i < length ns - 1" using i(1) lu j by simp
  have q: "(if i < j then i else i + 1) < length ns" using i' by auto
  have "remove_at j ?U ! i = ?U ! (if i < j then i else i + 1)" "remove_at j ns ! i = ns ! (if i < j then i else i + 1)"
    using nth_remove_at [of j ?U i] nth_remove_at [of j ns i] j i' lu by simp_all
  moreover have "child_id (?U ! (if i < j then i else i + 1)) = ns ! (if i < j then i else i + 1)"
    using ix q unfolding index_ok_def Let_def by blast
  ultimately have "child_id r = remove_at j ns ! i" using i(2) by simp
  then show ?thesis using P [of "child_id r"] nth_mem [of i "remove_at j ns"] i' j by simp
qed

lemma remove_empty:
  assumes rv: "removable P recs b ns (us # up) K g n" and i: "i < length ns" "g = length (concat (map recs (take i ns)))"
    and one: "recs (ns ! i) = [r]" and d: "pool_nodes P (ns ! i) = Some d"
    and IH: "\<And>P2 recs2 K2 g2. removable P2 recs2 (b + 1) us up K2 g2 n \<Longrightarrow>
      outcome (btree_remove cmp fuel P2 K2 (b + 1 + 1) []) P2 recs2 (b + 1) (set (concat (us # up))) (remove_at g2 (concat (map recs2 us))) n"
  shows "\<exists>d' P2. delete_from_node (pool_host P) d 0 = Ok d' \<and> descr_recs_count d' = 0 \<and>
    and_then (unlink_bnode d' (pool_put (ns ! i) d' P)) (pool_destroy (ns ! i)) = Ok P2 \<and> ns ! i \<noteq> vdfs2_btree_get_root_id P2 \<and>
    vdfs2_btree_get_height P2 \<noteq> b + 1 \<and>
    outcome (btree_remove cmp fuel P2 K (b + 1 + 1) []) P recs b (set (concat (ns # us # up))) (remove_at g (concat (map recs ns))) n"
proof -
  let ?h = "pool_host P" and ?x = "ns ! i" and ?L = "concat (map recs ns)" and ?A = "take i ns" and ?B = "drop (Suc i) ns"
  have t: "tree_from key_ok rank P recs b (ns # us # up)" and rm: "roomy P n" and K: "key_ok K" and L2: "2 \<le> length ?L"
    and Kg: "rank (?L ! g) = rank K" using rv by (simp_all add: removable_def)
  note ti = t [unfolded tree_from_Cons]
  have lv: "lvl key_ok rank P recs ns" and ix: "index_ok rank recs us ns" using ti by simp_all
  note nx = level_node [OF lv rm i(1) d, unfolded one]
  have ns: "?A @ ?x # ?B = ns" and ns': "remove_at i ns = ?A @ ?B" using id_take_nth_drop [OF i(1)] by (simp_all add: remove_at_def)
  have Lx: "?L = concat (map recs ?A) @ [r] @ concat (map recs ?B)" using arg_cong [OF ns, of "\<lambda>z. concat (map recs z)"] one by simp
  have AB: "?A @ ?B \<noteq> []"
  proof
    assume "?A @ ?B = []"
    then have e: "?A = []" "?B = []" by simp_all
    have "?L = [r]" using Lx unfolding e by simp
    then show False using L2 by simp
  qed
  have rL: "remove_at g ?L = concat (map recs (?A @ ?B))" unfolding Lx i(2) by (simp add: remove_at_def)
  have rK: "rank r = rank K" using Kg unfolding Lx i(2) by (simp add: nth_append)
  have dj: "set ns \<inter> set (concat (us # up)) = {}" using ti by auto
  have n0: "0 \<notin> set ns" using lvl_in_pool(2) [OF lv rm] by blast
  have sub: "set (?A @ ?B) \<subseteq> set ns" by (subst (2) ns [symmetric]) auto
  have "length ([r] ! 0) \<le> VDFS2_MAX_BTREE_REC_LEN" using nx(2) by (simp add: rec_fits_def)
  from delete_from_node_ok [OF nx(1) _ this] obtain d' where d': "delete_from_node ?h d 0 = Ok d'" "node_ok ?h d' []" "rng d' 16 13 = rng d 16 13"
    by (auto simp: remove_at_def)
  note fld = descr_fields_same [OF d'(3) node_len [OF nx(1)] node_len [OF d'(2)]]
  have lv': "lvl key_ok rank P recs (?A @ ?x # ?B)" using lv ns by simp
  have pn: "descr_prev d' = last_or 0 ?A" "descr_next d' = first_or 0 ?B" using fld nx(7,8) by simp_all
  from level_unlink [OF lv' AB rm pn, unfolded ns] obtain P2 where
    P2: "and_then (unlink_bnode d' (pool_put ?x d' P)) (pool_destroy ?x) = Ok P2" "lvl key_ok rank P2 recs (?A @ ?B)" "roomy P2 n"
      "frame P recs P2 recs (set ns)" by blast
  have t2: "tree_from key_ok rank P2 recs (b + 1) (us # up)" by (rule tree_upper [OF t rm P2(3,4) dj n0])
  have hd2: "vdfs2_btree_get_height P2 = b + 1 + length (us # up)" "vdfs2_btree_get_root_id P2 = vdfs2_btree_get_root_id P"
    using ti frame_head [OF P2(4) n0] by simp_all
  have root: "?x \<noteq> vdfs2_btree_get_root_id P2"
  proof
    assume a: "?x = vdfs2_btree_get_root_id P2"
    have "last (us # up) = [vdfs2_btree_get_root_id P]" using ti by simp
    then have "vdfs2_btree_get_root_id P \<in> set (concat (us # up))"
      using last_in_set [of "us # up"] by (metis list.discI list.set_intros(1) UN_I set_concat)
    then show False using a hd2(2) dj nth_mem [OF i(1)] by (metis disjoint_iff)
  qed
  let ?U = "concat (map recs us)"
  have lu: "length ?U = length ns" and iu: "\<And>j. j < length ns \<Longrightarrow> rank (?U ! j) = rank (recs (ns ! j) ! 0)" using ix by (simp_all add: index_ok_def Let_def)
  have two: "2 \<le> length ns" using AB arg_cong [OF ns, of length] by (cases ?A; cases ?B) auto
  have room: "inner recs us i \<or> (\<forall>j q. j < length us \<longrightarrow> q < length (recs (us ! j)) \<longrightarrow> i = length (concat (map recs (take j us))) + q \<longrightarrow>
      room_path (pool_host P2) recs up j)"
  proof -
    have x0: "0 < length (recs ?x)" "g = length (concat (map recs ?A)) + 0" using one i(2) by simp_all
    have "\<not> inner recs ns g" using i(1) x0 unfolding inner_def by blast
    then have rp: "room_path ?h recs (us # up) i" using rv i(1) x0 unfolding removable_def by blast
    have h2: "pool_host P2 = ?h" using P2(4) by (simp add: frame_def)
    show ?thesis
    proof (cases "inner recs us i")
      case False
      then obtain j q where jq: "j < length us" "q < length (recs (us ! j))" "i = length (concat (map recs (take j us))) + q" "q = 0"
        unfolding inner_def by blast
      then have rj: "room_path ?h recs up j" using rp unfolding room_path.simps(2) by blast
      have "j' = j" if "j' < length us" "q' < length (recs (us ! j'))" "i = length (concat (map recs (take j' us))) + q'" for j' q'
        using level_position [OF that(3) [symmetric, unfolded jq(3)] that(1,2) jq(1,2)] by simp
      then show ?thesis using rj h2 by auto
    qed simp
  qed
  have kids: "\<forall>z\<in>set (remove_at i ?U). child_id z \<noteq> 0 \<and> pool_nodes P2 (child_id z) \<noteq> None"
  proof
    fix z assume z: "z \<in> set (remove_at i ?U)"
    have "y \<noteq> 0 \<and> pool_nodes P2 y \<noteq> None" if "y \<in> set (remove_at i ns)" for y
      using lvl_in_pool [OF P2(2,3), of y] that ns' by simp
    then show "child_id z \<noteq> 0 \<and> pool_nodes P2 (child_id z) \<noteq> None" by (rule children_left [OF ix refl i(1) _ z])
  qed
  have "removable P2 recs (b + 1) us up K i n"
    unfolding removable_def using t2 P2(3) K i(1) lu iu [OF i(1)] one rK two room kids by simp
  from IH [OF this] obtain P3 recs3 levels where r3: "btree_remove cmp fuel P2 K (b + 1 + 1) [] = (Success, P3, [])" "roomy P3 n"
    "frame P2 recs P3 recs3 (insert 0 (set (concat (us # up))))" "tree_left P3 recs3 (b + 1) (set (concat (us # up))) (remove_at i ?U) levels"
    by (rule outcomeE)
  have sepn: "z \<notin> insert 0 (set (concat (us # up)))" if "z \<in> set ns" for z
  proof -
    have "z \<noteq> 0" using that n0 by metis
    moreover have "z \<notin> set (concat (us # up))" using that dj by (meson disjoint_iff)
    ultimately show ?thesis by simp
  qed
  have dj3: "set (?A @ ?B) \<inter> insert 0 (set (concat (us # up))) = {}" using sub sepn by (meson disjoint_iff subsetD)
  have l3: "lvl key_ok rank P3 recs3 (remove_at i ns)" unfolding ns' by (rule lvl_frame_set [OF P2(2,3) r3(2,3) dj3])
  have e3: "recs3 z = recs z" if "z \<in> set (remove_at i ns)" for z
  proof -
    have "z \<in> set ns" using that ns' sub by (metis subsetD)
    then show ?thesis using r3(3) sepn by (simp add: frame_def)
  qed
  have tl: "tree_left P3 recs3 b (set (remove_at i ns) \<union> set (concat (us # up))) (concat (map recs3 (remove_at i ns))) (remove_at i ns # levels)"
  proof (rule join_left [OF l3 r3(4) ix i(1)])
    show "rank (recs3 y ! 0) = rank (recs y ! 0)" if "y \<in> set (remove_at i ns)" for y using e3 [OF that] by simp
    show "set (remove_at i ns) \<inter> set (concat (us # up)) = {}" unfolding ns' using sub dj by blast
  qed
  have cc: "concat (map recs3 (remove_at i ns)) = remove_at g ?L"
  proof -
    have "concat (map recs3 (remove_at i ns)) = concat (map recs (remove_at i ns))" using e3 by (intro arg_cong [where f = concat] map_cong) auto
    then show ?thesis using rL ns' by simp
  qed
  have tl': "tree_left P3 recs3 b (set (concat (ns # us # up))) (remove_at g ?L) (remove_at i ns # levels)"
    by (rule tree_left_mono [OF tl [unfolded cc]]) (use sub ns' in auto)
  have fr: "frame P recs P3 recs3 (insert 0 (set (concat (ns # us # up))))" by (rule frame_trans [OF P2(4) r3(3)]) auto
  have oc: "outcome (btree_remove cmp fuel P2 K (b + 1 + 1) []) P recs b (set (concat (ns # us # up))) (remove_at g ?L) n"
    unfolding r3(1) by (rule outcomeI [OF r3(2) fr tl'])
  have cnt: "descr_recs_count d' = 0" using node_okD(4) [OF d'(2)] by simp
  have hh: "vdfs2_btree_get_height P2 \<noteq> b + 1" using hd2(1) by simp
  show ?thesis by (rule exI [of _ d'], rule exI [of _ P2]) (intro conjI d'(1) cnt P2(1) root hh oc)
qed

end

end
