(* ===== verification/Btree_Remove_Step.thy ===== *)
theory Btree_Remove_Step
  imports Btree_Remove_Tree
begin

text \<open>
  One call of \<^verbatim>\<open>__vdfs2_btree_remove\<close> and, by induction on the levels above, the whole removal
  with its nested calls.
\<close>

section \<open>More steps\<close>

text \<open>A result that did not stop is the same with more steps.\<close>

definition no_less :: "ret \<times> node_pool \<times> mem \<Rightarrow> ret \<times> node_pool \<times> mem \<Rightarrow> bool" where
  "no_less a b \<longleftrightarrow> (fst a \<noteq> Oops \<longrightarrow> b = a)"

lemma no_less_refl: "no_less a a"
  by (simp add: no_less_def)

lemma no_less_if: "no_less a a' \<Longrightarrow> no_less b b' \<Longrightarrow> no_less (if c then a else b) (if c then a' else b')"
  by simp

lemma no_less_result:
  "(\<And>e. no_less (f e) (f' e)) \<Longrightarrow> (\<And>y. no_less (g y) (g' y)) \<Longrightarrow> no_less b b' \<Longrightarrow>
    no_less (case x of Err e \<Rightarrow> f e | Ok y \<Rightarrow> g y | Bug \<Rightarrow> b) (case x of Err e \<Rightarrow> f' e | Ok y \<Rightarrow> g' y | Bug \<Rightarrow> b')"
  by (cases x) simp_all

lemma no_less_prod: "(\<And>y z. no_less (f y z) (f' y z)) \<Longrightarrow> no_less (case x of (y, z) \<Rightarrow> f y z) (case x of (y, z) \<Rightarrow> f' y z)"
  by (cases x) simp

lemma no_less_option:
  "no_less f f' \<Longrightarrow> (\<And>y. no_less (g y) (g' y)) \<Longrightarrow> no_less (case x of None \<Rightarrow> f | Some y \<Rightarrow> g y) (case x of None \<Rightarrow> f' | Some y \<Rightarrow> g' y)"
  by (cases x) simp_all

lemma no_less_strict: "no_less a a' \<Longrightarrow> (\<And>P m. fst (h (Oops, P, m)) = Oops) \<Longrightarrow> no_less (h a) (h a')"
  unfolding no_less_def by (cases a) (metis fst_conv)

lemmas no_less_intros = no_less_refl no_less_result no_less_prod no_less_option no_less_if

lemma merge_more:
  assumes fg: "\<And>P k l m. no_less (f P k l m) (g P k l m)"
  shows "no_less (btree_merge f P a b l d m) (btree_merge g P a b l d m)"
  unfolding btree_merge_def Let_def
  by (rule no_less_intros no_less_strict [OF fg] | simp (no_asm))+

lemma rebalance_more:
  assumes fg: "\<And>P k l m. no_less (f P k l m) (g P k l m)"
  shows "no_less (rebalance cmp f P k l x s m) (rebalance cmp g P k l x s m)"
  unfolding rebalance_def Let_def by (rule no_less_intros merge_more fg)+

lemma remove_more: "f \<le> f' \<Longrightarrow> no_less (btree_remove cmp f P K l m) (btree_remove cmp f' P K l m)"
proof (induction f arbitrary: P K l m f')
  case (Suc f)
  then obtain f1 where f1: "f' = Suc f1" "f \<le> f1" by (cases f') auto
  note IH = Suc.IH [OF f1(2)]
  show ?case unfolding f1(1) btree_remove.simps Let_def
    by (rule no_less_intros no_less_strict [OF IH] no_less_strict [OF rebalance_more [OF IH]] | simp (no_asm))+
qed (simp add: no_less_def)

section \<open>One call\<close>

lemma inner_cong: "(\<And>x. x \<in> set us \<Longrightarrow> recs' x = recs x) \<Longrightarrow> inner recs us g \<Longrightarrow> inner recs' us g"
proof -
  assume e: "\<And>x. x \<in> set us \<Longrightarrow> recs' x = recs x" and g: "inner recs us g"
  have l: "length (concat (map recs' (take j us))) = length (concat (map recs (take j us)))" for j
    using e by (intro arg_cong [where f = "\<lambda>z. length (concat z)"] map_cong) (auto dest: in_set_takeD)
  show ?thesis unfolding inner_def l using g [unfolded inner_def] e by (metis nth_mem)
qed

context stored_keys
begin

text \<open>The nested removal of the index record of node \<open>j + 1\<close>, which was merged into the node before.\<close>

lemma nested_removable:
  assumes t: "tree_from key_ok rank P recs b (ns # us # up)" and rm: "roomy P n" and j: "j + 1 < length ns" "inner recs us (j + 1)"
    and P2: "roomy P2 n" "frame P recs P2 recs2 (set ns)" "\<forall>y\<in>set ns. pool_nodes P2 y \<noteq> None"
    and k: "key_ok k" "rank k = rank (recs (ns ! (j + 1)) ! 0)"
  shows "removable P2 recs2 (b + 1) us up k (j + 1) n"
proof -
  note ti = t [unfolded tree_from_Cons]
  have lv: "lvl key_ok rank P recs ns" and ix: "index_ok rank recs us ns" using ti by simp_all
  have dj: "set ns \<inter> set (concat (us # up)) = {}" using ti by auto
  have n0: "0 \<notin> set ns" using lvl_in_pool(2) [OF lv rm] by blast
  have t2: "tree_from key_ok rank P2 recs2 (b + 1) (us # up)" by (rule tree_upper [OF t rm P2(1,2) dj n0])
  have eq: "recs2 x = recs x" if "x \<in> set us" for x
  proof -
    have "x \<notin> set ns" using dj that by auto
    then show ?thesis using P2(2) by (simp add: frame_def)
  qed
  have U: "concat (map recs2 us) = concat (map recs us)" using eq by (auto intro!: arg_cong [where f = concat])
  have lu: "length (concat (map recs us)) = length ns" and iu: "rank (concat (map recs us) ! (j + 1)) = rank (recs (ns ! (j + 1)) ! 0)"
    using ix j(1) by (simp_all add: index_ok_def Let_def)
  have kids: "\<forall>z\<in>set (remove_at (j + 1) (concat (map recs2 us))). child_id z \<noteq> 0 \<and> pool_nodes P2 (child_id z) \<noteq> None"
  proof
    fix z assume z: "z \<in> set (remove_at (j + 1) (concat (map recs2 us)))"
    have "y \<noteq> 0 \<and> pool_nodes P2 y \<noteq> None" if "y \<in> set (remove_at (j + 1) ns)" for y
    proof -
      have y: "y \<in> set ns" using that by (auto simp: remove_at_def dest: in_set_takeD in_set_dropD)
      then have "y \<noteq> 0" using n0 by metis
      then show ?thesis using y P2(3) by blast
    qed
    then show "child_id z \<noteq> 0 \<and> pool_nodes P2 (child_id z) \<noteq> None" by (rule children_left [OF ix U j(1) _ z])
  qed
  have inn: "inner recs2 us (j + 1)" by (rule inner_cong [OF eq j(2)])
  show ?thesis unfolding removable_def using t2 P2(1) k U lu iu j(1) inn kids by simp
qed

text \<open>The last stage: a node with much free space is merged, a root with one record dropped.\<close>

lemma rebalance_stage:
  assumes t: "tree_from key_ok rank P recs b (ns # up)" and rm: "roomy P n" and i: "i < length ns" and k: "key_ok k"
    and c: "\<And>us up'. up = us # up' \<Longrightarrow> count_le rank (concat (map recs us)) (rank k) = Suc i"
    and kids: "0 < b \<Longrightarrow> \<forall>r\<in>set (concat (map recs ns)). child_id r \<noteq> 0 \<and> pool_nodes P (child_id r) \<noteq> None"
    and IH: "\<And>us up' P2 recs2 K2 g2. up = us # up' \<Longrightarrow> removable P2 recs2 (b + 1) us up' K2 g2 n \<Longrightarrow>
      outcome (btree_remove cmp fuel P2 K2 (b + 1 + 1) []) P2 recs2 (b + 1) (set (concat (us # up'))) (remove_at g2 (concat (map recs2 us))) n"
  shows "outcome
     (let node' = the (pool_nodes P (ns ! i)) in
      if node_size_bytes (pool_host P) div 3 < descr_free_space node' then
        if ns ! i \<noteq> vdfs2_btree_get_root_id P then
          (case rebalance cmp (btree_remove cmp fuel) P k (b + 1) (ns ! i) (descr_free_space node') [] of
             (Fail e, P3, m3) \<Rightarrow> (if mount_finished (pool_host P) then (Oops, P3, m3) else (Fail e, P3, m3))
           | (r, P3, m3) \<Rightarrow> (r, P3, m3))
        else if descr_recs_count node' = 1 then
          (case drop_root P (ns ! i) node' of (r, P3) \<Rightarrow> (r, P3, []))
        else (Success, P, [])
      else (Success, P, []))
     P recs b (set (concat (ns # up))) (concat (map recs ns)) n"
proof -
  note ti = t [unfolded tree_from_Cons]
  have lv: "lvl key_ok rank P recs ns" using ti by simp
  obtain d where d: "pool_nodes P (ns ! i) = Some d" using lvl_in_pool(1) [OF lv rm nth_mem [OF i]] by blast
  note self = outcome_self [OF t rm]
  show ?thesis
  proof (cases "node_size_bytes (pool_host P) div 3 < descr_free_space d")
    case False
    then show ?thesis using self d by (simp add: Let_def)
  next
    case big: True
    show ?thesis
    proof (cases up)
      case (Cons us up')
      have root: "ns ! i \<noteq> vdfs2_btree_get_root_id P"
      proof
        assume a: "ns ! i = vdfs2_btree_get_root_id P"
        have "last (us # up') = [vdfs2_btree_get_root_id P]" using ti Cons by simp
        then have "vdfs2_btree_get_root_id P \<in> set (concat (us # up'))"
          using last_in_set [of "us # up'"] by (metis list.discI list.set_intros(1) UN_I set_concat)
        moreover have "set ns \<inter> set (concat (us # up')) = {}" using ti Cons by auto
        ultimately show False using a nth_mem [OF i] by (metis disjoint_iff)
      qed
      note t' = t [unfolded Cons]
      have "outcome (rebalance cmp (btree_remove cmp fuel) P k (b + 1) (ns ! i) (descr_free_space d) []) P recs b
          (set (concat (ns # us # up'))) (concat (map recs ns)) n"
        by (rule rebalance_ok [OF t' rm k c [OF Cons] i d]) (rule IH [OF Cons nested_removable [OF t' rm]]; assumption)
      then show ?thesis
      proof (rule outcomeE)
        fix P' recs' levels
        assume r: "rebalance cmp (btree_remove cmp fuel) P k (b + 1) (ns ! i) (descr_free_space d) [] = (Success, P', [])" "roomy P' n"
          "frame P recs P' recs' (insert 0 (set (concat (ns # us # up'))))" "tree_left P' recs' b (set (concat (ns # us # up'))) (concat (map recs ns)) levels"
        show ?thesis using outcomeI [OF r(2-4)] r(1) root big d Cons by (simp add: Let_def)
      qed
    next
      case Nil
      then obtain x where x: "ns = [x]" "x = vdfs2_btree_get_root_id P" using ti by auto
      have i0: "i = 0" "ns ! i = x" using i x(1) by simp_all
      have dx: "pool_nodes P x = Some d" using d i0 by simp
      have cnt: "descr_recs_count d = length (recs x)" using node_okD(4) [OF level_node(1) [OF lv rm i d]] i0 by simp
      show ?thesis
      proof (cases "length (recs x) = 1")
        case True
        then obtain r where r: "recs x = [r]" by (auto simp: length_Suc_conv)
        have "outcome (case drop_root P x d of (r, P') \<Rightarrow> (r, P', [])) P recs b {x} [r] n"
          by (rule drop_root_ok [OF t [unfolded Nil x(1)] rm dx r]) (use kids r x(1) in simp)
        then show ?thesis using big d i0 x dx r cnt Nil by (simp add: Let_def)
      next
        case False
        then show ?thesis using self big dx i0 x(2) cnt by (simp add: Let_def)
      qed
    qed
  qed
qed

text \<open>A node that keeps records.\<close>

lemma remove_many:
  assumes rv: "removable P recs b ns up K g n"
    and i: "i < length ns" "p < length (recs (ns ! i))" "g = length (concat (map recs (take i ns))) + p"
    and two: "2 \<le> length (recs (ns ! i))" and d: "pool_nodes P (ns ! i) = Some d"
    and IH: "\<And>us up' P2 recs2 K2 g2. up = us # up' \<Longrightarrow> removable P2 recs2 (b + 1) us up' K2 g2 n \<Longrightarrow>
      outcome (btree_remove cmp fuel P2 K2 (b + 1 + 1) []) P2 recs2 (b + 1) (set (concat (us # up'))) (remove_at g2 (concat (map recs2 us))) n"
    and run: "vdfs2_btree_traverse cmp P K False (b + 1) [] = (Ok (ns ! i, d, int p, []), [])" "\<not> vdfs2_btree_get_height P < b + 1"
  shows "outcome (btree_remove cmp (Suc fuel) P K (b + 1) []) P recs b (set (concat (ns # up))) (remove_at g (concat (map recs ns))) n"
proof -
  let ?x = "ns ! i"
  have t: "tree_from key_ok rank P recs b (ns # up)" and rm: "roomy P n" and K: "key_ok K" and Kg: "rank (concat (map recs ns) ! g) = rank K"
    and kids: "0 < b \<Longrightarrow> \<forall>r\<in>set (remove_at g (concat (map recs ns))). child_id r \<noteq> 0 \<and> pool_nodes P (child_id r) \<noteq> None"
    using rv by (simp_all add: removable_def)
  have lv: "lvl key_ok rank P recs ns" using t by (simp add: tree_from_Cons)
  have Kp: "rank (recs ?x ! p) = rank K"
    using Kg nth_concat_at [of i "map recs ns" p] i by (simp add: take_map)
  have room: "room_path (pool_host P) recs up i" if "p = 0"
  proof -
    have "\<not> inner recs ns g" using i that unfolding inner_def by blast
    then show ?thesis using rv i unfolding removable_def by blast
  qed
  note rc = record_compare [OF lv rm i(1) d i(2) K]
  have z: "cmp K (drop (off (pool_host P) d p) d) = 0" using rc(2) Kp by simp
  have hp: "vdfs2_btree_get_height (pool_put ?x d1 P) = vdfs2_btree_get_height P" for d1
  proof (rule frame_head(1))
    show "frame P recs (pool_put ?x d1 P) recs {?x}" by (simp add: frame_def)
    show "0 \<notin> {?x}" using lvl_in_pool(2) [OF lv rm nth_mem [OF i(1)]] by simp
  qed
  define F where "F = vdfs2_btree_get_height P + 2"
  have fu: "length up \<le> F" using t by (simp add: F_def tree_from_Cons)
  have "\<exists>d1 k P2 recs2. delete_from_node (pool_host P) d p = Ok d1 \<and> descr_recs_count d1 \<noteq> 0 \<and>
      (if p = 0 \<and> b + 1 < vdfs2_btree_get_height (pool_put ?x d1 P)
       then btree_update_key cmp F (pool_put ?x d1 P) K ?x d1 (b + 1 + 1) [] else (Ok K, pool_put ?x d1 P, [])) = (Ok k, P2, []) \<and>
      tree_from key_ok rank P2 recs2 b (ns # up) \<and> roomy P2 n \<and> frame P recs P2 recs2 (set (concat (ns # up))) \<and>
      concat (map recs2 ns) = remove_at g (concat (map recs ns)) \<and> key_ok k \<and>
      (\<forall>us up'. up = us # up' \<longrightarrow> count_le rank (concat (map recs2 us)) (rank k) = Suc i)"
    by (rule delete_stage [OF t rm K i Kp two d _ fu]) (rule room)
  then obtain d1 k P2 recs2 where s:
    "delete_from_node (pool_host P) d p = Ok d1" "descr_recs_count d1 \<noteq> 0"
    "(if p = 0 \<and> b + 1 < vdfs2_btree_get_height (pool_put ?x d1 P)
      then btree_update_key cmp F (pool_put ?x d1 P) K ?x d1 (b + 1 + 1) [] else (Ok K, pool_put ?x d1 P, [])) = (Ok k, P2, [])"
    "tree_from key_ok rank P2 recs2 b (ns # up)" "roomy P2 n" "frame P recs P2 recs2 (set (concat (ns # up)))"
    "concat (map recs2 ns) = remove_at g (concat (map recs ns))" "key_ok k"
    "\<forall>us up'. up = us # up' \<longrightarrow> count_le rank (concat (map recs2 us)) (rank k) = Suc i"
    by (elim exE conjE) (rule that; assumption)
  note upd = s(3) [unfolded F_def, folded hp [of d1]]
  have kids2: "\<forall>r\<in>set (concat (map recs2 ns)). child_id r \<noteq> 0 \<and> pool_nodes P2 (child_id r) \<noteq> None" if "0 < b"
  proof
    fix r assume "r \<in> set (concat (map recs2 ns))"
    then have c: "child_id r \<noteq> 0" "pool_nodes P (child_id r) \<noteq> None" using kids that s(7) by simp_all
    show "child_id r \<noteq> 0 \<and> pool_nodes P2 (child_id r) \<noteq> None"
    proof (cases "child_id r \<in> set (concat (ns # up))")
      case True
      then obtain ms where ms: "ms \<in> set (ns # up)" "child_id r \<in> set ms" unfolding set_concat by blast
      have "lvl key_ok rank P2 recs2 ms" using s(4) ms(1) by (auto simp: tree_from_Cons)
      then show ?thesis using lvl_in_pool(1) [OF _ s(5) ms(2)] c(1) by blast
    next
      case False
      then show ?thesis using c s(6) by (simp add: frame_def)
    qed
  qed
  have cc: "count_le rank (concat (map recs2 us)) (rank k) = Suc i" if "up = us # up'" for us up' using s(9) that by blast
  note st = rebalance_stage [OF s(4,5) i(1) s(8) cc kids2 IH]
  have fr: "frame P recs P2 recs2 (insert 0 (set (concat (ns # up))))" by (rule frame_mono [OF s(6)]) auto
  note fin = outcome_trans [OF st [unfolded s(7)] fr]
  show ?thesis
    unfolding btree_remove.simps run(1) if_not_P [OF run(2)]
    using fin upd rc(1) z s(1,2) by simp
qed

text \<open>One call, with the nested calls assumed to do their work.\<close>

lemma remove_step:
  assumes rv: "removable P recs b ns up K g n"
    and IH: "\<And>us up' P2 recs2 K2 g2. up = us # up' \<Longrightarrow> removable P2 recs2 (b + 1) us up' K2 g2 n \<Longrightarrow>
      outcome (btree_remove cmp fuel P2 K2 (b + 1 + 1) []) P2 recs2 (b + 1) (set (concat (us # up'))) (remove_at g2 (concat (map recs2 us))) n"
  shows "outcome (btree_remove cmp (Suc fuel) P K (b + 1) []) P recs b (set (concat (ns # up))) (remove_at g (concat (map recs ns))) n"
proof -
  let ?L = "concat (map recs ns)"
  have t: "tree_from key_ok rank P recs b (ns # up)" and rm: "roomy P n" and K: "key_ok K" and L2: "2 \<le> length ?L"
    and g: "g < length ?L" "rank (?L ! g) = rank K" using rv by (simp_all add: removable_def)
  have lv: "lvl key_ok rank P recs ns" using t by (simp add: tree_from_Cons)
  have ht: "\<not> vdfs2_btree_get_height P < b + 1" using t by (simp add: tree_from_Cons)
  have so: "sorted_less (map rank ?L)" using lv by (simp add: lvl_def)
  have "rank (?L ! g) < rank (?L ! (g + 1))" if "g + 1 < length ?L" using sorted_wrt_nth_less [OF so, of g "g + 1"] that by simp
  then have "count_le rank ?L (rank K) = Suc g" using count_le_Suc [OF so g(1)] g(2) by simp
  from locate [OF t rm K this] obtain i p d where lo: "i < length ns" "p < length (recs (ns ! i))" "g = length (concat (map recs (take i ns))) + p"
    "pool_nodes P (ns ! i) = Some d" "vdfs2_btree_traverse cmp P K False (b + 1) [] = (Ok (ns ! i, d, int p, []), [])" by blast
  show ?thesis
  proof (cases "2 \<le> length (recs (ns ! i))")
    case True
    show ?thesis by (rule remove_many [OF rv lo(1-3) True lo(4) _ lo(5) ht]) (rule IH; assumption)
  next
    case False
    then have p0: "p = 0" and "length (recs (ns ! i)) = 1" using lo(2) by linarith+
    then obtain r where one: "recs (ns ! i) = [r]" by (auto simp: length_Suc_conv)
    have "up \<noteq> []"
    proof
      assume "up = []"
      then obtain x where "ns = [x]" using t by (auto simp: tree_from_Cons)
      then show False using L2 one lo(1) by simp
    qed
    then obtain us up' where up: "up = us # up'" by (cases up) auto
    have rK: "rank (recs (ns ! i) ! p) = rank K" using g(2) nth_concat_at [of i "map recs ns" p] lo(1-3) by (simp add: take_map)
    note rc = record_compare [OF lv rm lo(1,4,2) K]
    have g0: "g = length (concat (map recs (take i ns)))" using lo(3) p0 by simp
    have "\<exists>d' P2. delete_from_node (pool_host P) d 0 = Ok d' \<and> descr_recs_count d' = 0 \<and>
        and_then (unlink_bnode d' (pool_put (ns ! i) d' P)) (pool_destroy (ns ! i)) = Ok P2 \<and> ns ! i \<noteq> vdfs2_btree_get_root_id P2 \<and>
        vdfs2_btree_get_height P2 \<noteq> b + 1 \<and>
        outcome (btree_remove cmp fuel P2 K (b + 1 + 1) []) P recs b (set (concat (ns # us # up'))) (remove_at g ?L) n"
      by (rule remove_empty [OF rv [unfolded up] lo(1) g0 one lo(4)]) (rule IH [OF up]; assumption)
    then obtain d' P2 where e: "delete_from_node (pool_host P) d 0 = Ok d'" "descr_recs_count d' = 0"
      "and_then (unlink_bnode d' (pool_put (ns ! i) d' P)) (pool_destroy (ns ! i)) = Ok P2" "ns ! i \<noteq> vdfs2_btree_get_root_id P2"
      "vdfs2_btree_get_height P2 \<noteq> b + 1"
      "outcome (btree_remove cmp fuel P2 K (b + 1 + 1) []) P recs b (set (concat (ns # us # up'))) (remove_at g ?L) n"
      by (elim exE conjE) (rule that; assumption)
    from e(6) obtain P3 recs3 levels where o: "btree_remove cmp fuel P2 K (b + 1 + 1) [] = (Success, P3, [])" "roomy P3 n"
      "frame P recs P3 recs3 (insert 0 (set (concat (ns # us # up'))))" "tree_left P3 recs3 b (set (concat (ns # us # up'))) (remove_at g ?L) levels"
      by (rule outcomeE)
    have lv1: "b + 1 \<noteq> vdfs2_btree_get_height P2" using e(5) by simp
    have "btree_remove cmp (Suc fuel) P K (b + 1) [] = (Success, P3, [])"
      unfolding btree_remove.simps lo(5) if_not_P [OF ht] using rc rK p0 e(1-4) lv1 o(1) by simp
    then show ?thesis using outcomeI [OF o(2-4)] up by simp
  qed
qed

lemma remove_ok:
  "removable P recs b ns up K g n \<Longrightarrow> length up < fuel \<Longrightarrow>
    outcome (btree_remove cmp fuel P K (b + 1) []) P recs b (set (concat (ns # up))) (remove_at g (concat (map recs ns))) n"
proof (induction up arbitrary: P recs b ns K g fuel)
  case Nil
  then obtain f where "fuel = Suc f" by (cases fuel) auto
  then show ?case using remove_step [OF Nil.prems(1), of f] by simp
next
  case (Cons us up)
  then obtain f where f: "fuel = Suc f" "length up < f" by (cases fuel) auto
  show ?case unfolding f(1)
  proof (rule remove_step [OF Cons.prems(1)])
    fix vs up' P2 recs2 K2 g2
    assume "us # up = vs # up'" and r: "removable P2 recs2 (b + 1) vs up' K2 g2 n"
    then have e: "vs = us" "up' = up" by simp_all
    show "outcome (btree_remove cmp f P2 K2 (b + 1 + 1) []) P2 recs2 (b + 1) (set (concat (vs # up'))) (remove_at g2 (concat (map recs2 vs))) n"
      unfolding e by (rule Cons.IH [OF r [unfolded e] f(2)])
  qed
qed

end

end
