(* ===== verification/Btree_Insert_Claims.thy ===== *)
theory Btree_Insert_Claims
  imports Btree_Insert_Tree Btree_Split_Claims
begin

text \<open>The properties of adding a record to a tree, for every comparison function the trees use.\<close>

section \<open>Properties\<close>

text \<open>
  C1. Adding a record to a well-formed tree is adding it to the sorted list of the tree's
  records: a record with the same key gives EEXIST, a key below all others ENOENT, both without
  a change; otherwise the call succeeds, the tree is well-formed on all its levels - also when
  nodes were split up to a new root - and its records are the old ones with the new record at its
  place. The comparison function is any that meets \<open>stored_keys\<close>, as those of all five
  trees do. Enough free nodes and memory are assumed; the record takes less than half a node,
  keeps the limits for records, and its value has at least four bytes.
\<close>

theorem btree_insert_correct:
  assumes keys: "stored_keys cmp key_ok rank" and t: "tree_inv key_ok rank P recs levels"
    and rm: "roomy P (length levels + 1)" and hb: "length levels + 1 < 2 ^ 16"
    and r: "record_ok r" "rec_fits key_ok (pool_host P) r"
  shows "let rs = concat (map recs (hd levels)); n = count_le rank rs (rank r) in
    if n = 0 then vdfs2_btree_insert cmp P r [] = (Fail ENOENT, P, [])
    else if rank (rs ! (n - 1)) = rank r then vdfs2_btree_insert cmp P r [] = (Fail EEXIST, P, [])
    else \<exists>P' recs' levels'. vdfs2_btree_insert cmp P r [] = (Success, P', []) \<and> tree_inv key_ok rank P' recs' levels' \<and>
      concat (map recs' (hd levels')) = insert_at n r rs"
proof -
  obtain leaf up where l: "levels = leaf # up" using t by (cases levels) (auto simp: tree_inv_def tree_from_def)
  let ?n = "count_le rank (concat (map recs leaf)) (rank r)"
  note t' = t [unfolded l]
  have rm': "roomy P (length up + 2 + 0)" "length up + 2 < 2 ^ 16" using rm hb l by simp_all
  have k: "key_ok r" using stored_keys.rec_fits_key(1) [OF keys r(2)] .
  consider (below) "?n = 0" | (same) "?n \<noteq> 0" "rank (concat (map recs leaf) ! (?n - 1)) = rank r"
    | (new) "?n \<noteq> 0" "rank (concat (map recs leaf) ! (?n - 1)) \<noteq> rank r" by blast
  then show ?thesis
  proof cases
    case below
    then show ?thesis using stored_keys.tree_insert_below [OF keys t' k] l by (simp add: Let_def)
  next
    case same
    then show ?thesis using stored_keys.insert_exists [OF keys t' rm'(1) r refl same] l by (simp add: Let_def)
  next
    case new
    from stored_keys.insert_success [OF keys t' rm' r refl new] obtain P' recs' leaf' up' where
      "vdfs2_btree_insert cmp P r [] = (Success, P', [])" "tree_inv key_ok rank P' recs' (leaf' # up')"
      "concat (map recs' leaf') = insert_at ?n r (concat (map recs leaf))" by blast
    then show ?thesis using new l by (auto simp: Let_def intro!: exI [of _ "leaf' # up'"])
  qed
qed

text \<open>
  C7. A record that was added is found: the search for its key returns the record with its
  value, whatever splits the insertion caused.
\<close>

theorem btree_insert_find_roundtrip:
  assumes keys: "stored_keys cmp key_ok rank" and t: "tree_inv key_ok rank P recs levels"
    and rm: "roomy P (length levels + 1)" and hb: "length levels + 1 < 2 ^ 16"
    and r: "record_ok r" "rec_fits key_ok (pool_host P) r" and s: "vdfs2_btree_insert cmp P r [] = (Success, P', m)"
  shows "\<exists>info. vdfs2_btree_find cmp P' r [] = (Ok info, []) \<and> rng (rec_bnode info) (rec_key info) (length r) = r \<and>
    rec_val info = Ok (rec_key info + key_len r)"
proof -
  obtain leaf up where l: "levels = leaf # up" using t by (cases levels) (auto simp: tree_inv_def tree_from_def)
  let ?rs = "concat (map recs leaf)"
  let ?n = "count_le rank ?rs (rank r)"
  note t' = t [unfolded l]
  have rm': "roomy P (length up + 2 + 0)" "length up + 2 < 2 ^ 16" using rm hb l by simp_all
  have k: "key_ok r" using stored_keys.rec_fits_key(1) [OF keys r(2)] .
  have rk: "ranked_keys cmp key_ok rank" using keys by (simp add: stored_keys_def)
  have n0: "?n \<noteq> 0" using stored_keys.tree_insert_below [OF keys t' k] s by auto
  have ne: "rank (?rs ! (?n - 1)) \<noteq> rank r" using stored_keys.insert_exists [OF keys t' rm'(1) r refl n0] s by auto
  from stored_keys.insert_success [OF keys t' rm' r refl n0 ne] s obtain recs' leaf' up' where
    a: "tree_inv key_ok rank P' recs' (leaf' # up')" "concat (map recs' leaf') = insert_at ?n r ?rs" by auto
  have so: "sorted_less (map rank ?rs)" using t' by (simp add: tree_inv_def tree_from_def lvl_def)
  have c: "count_le rank (insert_at ?n r ?rs) (rank r) = ?n + 1"
    using ranked_keys.sorted_insert_at(3) [OF rk so refl _ ne] n0 by simp
  have tr: "tree_records recs' (rev (leaf' # up')) = insert_at ?n r ?rs" using a(2) by (simp add: tree_records_def)
  have m: "kmem_alloc [] = (True, [])" by simp
  from ranked_keys.btree_find_ok [OF rk stored_keys.tree_inv_ok [OF keys a(1)] k m]
  obtain info where f: "vdfs2_btree_find cmp P' r [] = (Ok info, [])" "record_at P' recs' leaf' ?n info"
    unfolding tr c by auto
  have "?n \<le> length ?rs" by (simp add: count_le_def)
  then have "concat (map recs' leaf') ! ?n = r" unfolding a(2) by simp
  then show ?thesis using f unfolding record_at_def by auto
qed

section \<open>An example with a split of the root\<close>

definition full_pool :: node_pool where
  "full_pool = \<lparr>pool_host = sample_host, pool_nodes = [0 \<mapsto> wr 2 (wr 4 (replicate 256 0) 12 2) 16 1, 2 \<mapsto> sample_full],
     unreadable = Map.empty, node_limit = 64, page_bytes = (\<lambda>_. replicate 256 0), reserve_ret = Success\<rparr>"

definition full_recs :: "nat \<Rightarrow> u8 list list" where
  "full_recs = (\<lambda>_. sample_recs)"

lemma ext_rec_fits: "rec_fits ext_key_ok sample_host (ext_rec obj ib)"
proof -
  have "key_len (ext_rec obj ib) = 28" by (simp add: ext_rec_def key_len_def rd_def rng_def le_val_bytes)
  then show ?thesis
    by (simp add: rec_fits_def ext_rec_ok ext_key_ok_def sample_host_def VDFS2_MAX_BTREE_KEY_LEN_def
        VDFS2_MAX_BTREE_REC_LEN_def INDEX_VALUE_SIZE_def)
qed

lemma full_tree: "tree_inv ext_key_ok ext_rank full_pool full_recs [[2]]" "roomy full_pool 2"
proof -
  have h: "pool_host full_pool = sample_host" by (simp add: full_pool_def)
  have g: "pool_get full_pool 2 = Ok sample_full" by (simp add: pool_get_def full_pool_def)
  have "sorted_less (map ext_rank (concat (map full_recs [2])))"
    by (simp add: full_recs_def sample_recs_def ext_rec_ok less_prod_def)
  moreover have "good_node ext_key_ok full_pool full_recs 0 2 0"
    unfolding good_node_def h g full_recs_def using sample_full_ok ext_rec_fits by (auto simp: sample_recs_def)
  moreover have "vdfs2_btree_get_root_id full_pool = 2" "vdfs2_btree_get_height full_pool = 1"
    by (simp_all add: vdfs2_btree_get_root_id_def vdfs2_btree_get_height_def head_data_def full_pool_def rd_wr_same rd_wr_other)
  ultimately show "tree_inv ext_key_ok ext_rank full_pool full_recs [[2]]" by (simp add: tree_inv_def tree_from_def lvl_def)
  have "2 \<le> length (free_ids full_pool)" by (simp add: free_ids_def full_pool_def upt_rec)
  then show "roomy full_pool 2" by (simp add: roomy_def full_pool_def sample_host_def)
qed

lemma full_place: "count_le ext_rank (concat (map full_recs [2])) (ext_rank (ext_rec 25 0)) = 2"
  "ext_rank (concat (map full_recs [2]) ! 1) \<noteq> ext_rank (ext_rec 25 0)"
  by (simp_all add: full_recs_def sample_recs_def count_le_def ext_rec_ok less_eq_prod_def)

theorem btree_insert_correct_witness:
  "\<exists>P' recs' levels'. vdfs2_btree_insert vdfs2_exttree_cmpfn full_pool (ext_rec 25 0) [] = (Success, P', []) \<and>
    tree_inv ext_key_ok ext_rank P' recs' levels' \<and> concat (map recs' (hd levels')) = insert_at 2 (ext_rec 25 0) sample_recs"
proof -
  have h: "pool_host full_pool = sample_host" by (simp add: full_pool_def)
  have rm: "roomy full_pool (length [[2 :: nat]] + 1)" "length [[2 :: nat]] + 1 < 2 ^ 16" using full_tree(2) [unfolded numeral_2_eq_2] by simp_all
  from btree_insert_correct [OF ext_keys.stored_keys_axioms full_tree(1) rm ext_rec_ok(1) ext_rec_fits [folded h], of 25 0]
  show ?thesis using full_place by (simp add: Let_def full_recs_def)
qed

theorem btree_insert_find_roundtrip_witness:
  "\<exists>P' info. vdfs2_btree_insert vdfs2_exttree_cmpfn full_pool (ext_rec 25 0) [] = (Success, P', []) \<and>
    vdfs2_btree_find vdfs2_exttree_cmpfn P' (ext_rec 25 0) [] = (Ok info, []) \<and>
    rng (rec_bnode info) (rec_key info) 40 = ext_rec 25 0"
proof -
  have h: "pool_host full_pool = sample_host" by (simp add: full_pool_def)
  have rm: "roomy full_pool (length [[2 :: nat]] + 1)" "length [[2 :: nat]] + 1 < 2 ^ 16" using full_tree(2) [unfolded numeral_2_eq_2] by simp_all
  have rm0: "roomy full_pool (length ([] :: nat list list) + 2 + 0)" "length ([] :: nat list list) + 2 < 2 ^ 16" using full_tree(2) [unfolded numeral_2_eq_2] by simp_all
  have n: "(2 :: nat) = count_le ext_rank (concat (map full_recs [2])) (ext_rank (ext_rec 25 0))" "(2 :: nat) \<noteq> 0" using full_place(1) by simp_all
  have ne: "ext_rank (concat (map full_recs [2]) ! (2 - 1)) \<noteq> ext_rank (ext_rec 25 0)" using full_place(2) by simp
  obtain P' where P': "vdfs2_btree_insert vdfs2_exttree_cmpfn full_pool (ext_rec 25 0) [] = (Success, P', [])"
    using ext_keys.insert_success [OF full_tree(1) rm0 ext_rec_ok(1) ext_rec_fits [folded h] n ne] by blast
  from btree_insert_find_roundtrip [OF ext_keys.stored_keys_axioms full_tree(1) rm ext_rec_ok(1) ext_rec_fits [folded h] P'] P'
  show ?thesis by (auto simp: ext_rec_ok)
qed

end
