(* ===== verification/Btree_Remove_Claims.thy ===== *)
theory Btree_Remove_Claims
  imports Btree_Remove_Step Btree_Insert_Claims
begin

text \<open>The properties of removing a record from a tree, for every comparison function the trees use.\<close>

section \<open>Whole trees\<close>

text \<open>
  A removal that changes the first key of a node replaces the index record by an insertion and
  a deletion. Either the record is not the first one of its leaf, or the index nodes have room.
\<close>

definition spare :: "node_pool \<Rightarrow> (nat \<Rightarrow> u8 list list) \<Rightarrow> nat list list \<Rightarrow> nat \<Rightarrow> bool" where
  "spare P recs levels g \<longleftrightarrow>
     inner recs (hd levels) g \<or> (\<forall>ns\<in>set (tl levels). \<forall>x\<in>set ns. has_room (pool_host P) (recs x))"

lemma length_levels: "\<forall>ns\<in>set levels. ns \<noteq> [] \<Longrightarrow> length levels \<le> length (concat levels)"
proof (induction levels)
  case (Cons ns levels)
  then show ?case by (cases ns) auto
qed simp

context stored_keys
begin

lemma tree_removed:
  assumes t: "tree_inv key_ok rank P recs levels" and rm: "roomy P n" and K: "key_ok K"
    and g: "g < length (concat (map recs (hd levels)))" "rank (concat (map recs (hd levels)) ! g) = rank K"
    and two: "2 \<le> length (concat (map recs (hd levels)))" and sp: "spare P recs levels g" and fuel: "length levels \<le> fuel"
  shows "\<exists>P' recs' levels'. btree_remove cmp fuel P K 1 [] = (Success, P', []) \<and> tree_inv key_ok rank P' recs' levels' \<and> roomy P' n \<and>
    concat (map recs' (hd levels')) = remove_at g (concat (map recs (hd levels))) \<and> pool_host P' = pool_host P \<and> length levels' \<le> length (concat levels)"
proof -
  obtain leaf up where l: "levels = leaf # up" using t by (cases levels) (auto simp: tree_inv_def tree_from_def)
  have room: "inner recs leaf g \<or> (\<forall>i p. i < length leaf \<longrightarrow> p < length (recs (leaf ! i)) \<longrightarrow> g = length (concat (map recs (take i leaf))) + p \<longrightarrow>
      room_path (pool_host P) recs up i)"
    using sp l room_path_all [of up "pool_host P" recs] by (auto simp: spare_def)
  have "removable P recs 0 leaf up K g n"
    unfolding removable_def using t rm K g two room l by (simp add: tree_inv_def)
  then have "outcome (btree_remove cmp fuel P K (0 + 1) []) P recs 0 (set (concat (leaf # up))) (remove_at g (concat (map recs leaf))) n"
    by (rule remove_ok) (use fuel l in simp)
  then obtain P' recs' levels' where o: "btree_remove cmp fuel P K (0 + 1) [] = (Success, P', [])" "roomy P' n"
    "frame P recs P' recs' (insert 0 (set (concat (leaf # up))))" "tree_left P' recs' 0 (set (concat (leaf # up))) (remove_at g (concat (map recs leaf))) levels'"
    by (rule outcomeE)
  have "levels' \<noteq> []" using o(4) by (auto simp: tree_left_def)
  then have a: "tree_inv key_ok rank P' recs' levels'" "concat (map recs' (hd levels')) = remove_at g (concat (map recs leaf))"
    "set (concat levels') \<subseteq> set (concat levels)" using o(4) l by (simp_all add: tree_left_def tree_inv_def)
  have "\<forall>ns\<in>set levels'. ns \<noteq> []" using a(1) by (auto simp: tree_inv_def tree_from_def lvl_def)
  from length_levels [OF this] have "length levels' \<le> length (concat levels')" .
  also have "\<dots> = card (set (concat levels'))" using a(1) distinct_card [of "concat levels'"] by (simp only: tree_inv_def tree_from_def)
  also have "\<dots> \<le> card (set (concat levels))" by (rule card_mono [OF _ a(3)]) simp
  also have "\<dots> \<le> length (concat levels)" by (rule card_length)
  finally have "length levels' \<le> length (concat levels)" .
  then show ?thesis using o a l by (auto simp: frame_def)
qed

lemma remove_absent:
  assumes t: "tree_inv key_ok rank P recs (leaf # up)" and rm: "roomy P n" and K: "key_ok K"
    and c: "c = count_le rank (concat (map recs leaf)) (rank K)" "c = 0 \<or> rank (concat (map recs leaf) ! (c - 1)) \<noteq> rank K"
  shows "vdfs2_btree_remove cmp P K [] = (Fail ENOENT, P, [])"
proof -
  have tf: "tree_from key_ok rank P recs 0 (leaf # up)" using t by (simp add: tree_inv_def)
  have lv: "lvl key_ok rank P recs leaf" and ht: "\<not> vdfs2_btree_get_height P < 1" using tf by (simp_all add: tree_from_Cons)
  have f: "vdfs2_btree_get_height P + 2 = Suc (vdfs2_btree_get_height P + 1)" by simp
  show ?thesis
  proof (cases c)
    case 0
    have "vdfs2_btree_traverse cmp P K True 1 [] = (Err ENOENT, [])" using descent_ok [OF tf K c(1)] 0 by simp
    then have "vdfs2_btree_traverse cmp P K False 1 [] = (Err ENOENT, [])"
      unfolding vdfs2_btree_traverse_def Let_def if_not_P [OF ht] using traverse_no_stack [of P K _ _ _ "[]" "[]"] by simp
    then show ?thesis unfolding vdfs2_btree_remove_def f btree_remove.simps using ht by simp
  next
    case (Suc g)
    have cg: "count_le rank (concat (map recs leaf)) (rank K) = Suc g" using c(1) Suc by simp
    from locate [OF tf rm K cg] obtain i p d where lo: "i < length leaf" "p < length (recs (leaf ! i))"
      "g = length (concat (map recs (take i leaf))) + p" "pool_nodes P (leaf ! i) = Some d"
      "vdfs2_btree_traverse cmp P K False (0 + 1) [] = (Ok (leaf ! i, d, int p, []), [])" by blast
    have "recs (leaf ! i) ! p = concat (map recs leaf) ! g"
      using nth_concat_at [of i "map recs leaf" p] lo(1-3) by (simp add: take_map)
    then have "rank (recs (leaf ! i) ! p) \<noteq> rank K" using c(2) Suc by simp
    then show ?thesis
      unfolding vdfs2_btree_remove_def f btree_remove.simps using ht lo(5) record_compare [OF lv rm lo(1,4,2) K] by simp
  qed
qed

end

section \<open>Properties\<close>

text \<open>
  C2. Removing a key from a well-formed tree is removing its record from the sorted list of
  the tree's records: a key that is not there gives ENOENT without a change; otherwise the call
  succeeds, the tree is well-formed on all its levels - whatever nodes were emptied, merged,
  unlinked or destroyed and whether the root gave way to its child - and its records are the old
  ones without that record. The last record of a tree is excluded (the kernel stops there),
  and the index nodes have room when the record is the first one of its leaf.
\<close>

theorem btree_remove_correct:
  assumes keys: "stored_keys cmp key_ok rank" and t: "tree_inv key_ok rank P recs levels" and rm: "roomy P n" and K: "key_ok K"
    and two: "2 \<le> length (concat (map recs (hd levels)))"
    and sp: "spare P recs levels (count_le rank (concat (map recs (hd levels))) (rank K) - 1)"
  shows "let rs = concat (map recs (hd levels)); c = count_le rank rs (rank K) in
    if c = 0 \<or> rank (rs ! (c - 1)) \<noteq> rank K then vdfs2_btree_remove cmp P K [] = (Fail ENOENT, P, [])
    else \<exists>P' recs' levels'. vdfs2_btree_remove cmp P K [] = (Success, P', []) \<and> tree_inv key_ok rank P' recs' levels' \<and>
      roomy P' n \<and> concat (map recs' (hd levels')) = remove_at (c - 1) rs"
proof -
  obtain leaf up where l: "levels = leaf # up" using t by (cases levels) (auto simp: tree_inv_def tree_from_def)
  let ?rs = "concat (map recs leaf)"
  let ?c = "count_le rank ?rs (rank K)"
  note t' = t [unfolded l]
  show ?thesis
  proof (cases "?c = 0 \<or> rank (?rs ! (?c - 1)) \<noteq> rank K")
    case True
    then show ?thesis using stored_keys.remove_absent [OF keys t' rm K refl] l by (simp add: Let_def)
  next
    case False
    have "?c \<le> length ?rs" by (simp add: count_le_def)
    then have g: "?c - 1 < length (concat (map recs (hd levels)))" "rank (concat (map recs (hd levels)) ! (?c - 1)) = rank K"
      using False l by (simp_all add: less_eq_Suc_le)
    have f: "length levels \<le> vdfs2_btree_get_height P + 2" using t by (simp add: tree_inv_def tree_from_def)
    have sp': "spare P recs levels (?c - 1)" using sp l by simp
    from stored_keys.tree_removed [OF keys t rm K g two sp' f] obtain P' recs' levels' where
      r: "vdfs2_btree_remove cmp P K [] = (Success, P', [])" "tree_inv key_ok rank P' recs' levels'" "roomy P' n"
        "concat (map recs' (hd levels')) = remove_at (?c - 1) ?rs"
      unfolding vdfs2_btree_remove_def l by auto
    then show ?thesis unfolding l list.sel Let_def if_not_P [OF False] by blast
  qed
qed



section \<open>An example\<close>

lemma full_third: "2 < length (concat (map full_recs (hd [[2]])))" "concat (map full_recs (hd [[2]])) ! 2 = ext_rec 30 0"
  "2 \<le> length (concat (map full_recs (hd [[2]])))" "spare full_pool full_recs [[2]] g"
  by (simp_all add: full_recs_def sample_recs_def spare_def)

theorem btree_remove_correct_witness:
  "\<exists>P' recs' levels'. vdfs2_btree_remove vdfs2_exttree_cmpfn full_pool (ext_rec 30 0) [] = (Success, P', []) \<and>
    tree_inv ext_key_ok ext_rank P' recs' levels' \<and> concat (map recs' (hd levels')) = [ext_rec 10 0, ext_rec 20 0, ext_rec 40 0]"
proof -
  have k: "ext_key_ok (ext_rec 30 0)" by (simp add: ext_key_ok_def ext_rec_ok)
  have c: "count_le ext_rank sample_recs (ext_rank (ext_rec 30 0)) = 3" "ext_rank (sample_recs ! 2) = ext_rank (ext_rec 30 0)"
    "remove_at 2 sample_recs = [ext_rec 10 0, ext_rec 20 0, ext_rec 40 0]"
    by (simp_all add: sample_recs_def count_le_def ext_rec_ok less_eq_prod_def remove_at_def)
  have hdr: "concat (map full_recs (hd [[2]])) = sample_recs" by (simp add: full_recs_def)
  from btree_remove_correct [OF ext_keys.stored_keys_axioms full_tree(1,2) k full_third(3,4)]
  show ?thesis unfolding hdr c(1) Let_def using c(2,3) by auto
qed



end
