(* ===== verification/Snapshot.thy ===== *)
theory Snapshot
  imports Fsm Bytes
begin

text \<open>
  Snapshots and transactions, \<^verbatim>\<open>snapshot.c\<close>. The metadata files (trees and bitmaps) live in a
  metadata area. A translation table per file says in which blocks of the area each part of
  the file is. The first change of a part in a transaction moves it to unused blocks, so the
  blocks of the last committed state stay as they are; a commit writes the tables, either all
  of them (base table) or the changed entries (extended table).

  The base table is modelled byte by byte: the descriptor (signature, mount count, sync
  count, offset of the checksum), the last index of each file, the offset of each file's
  table, and the tables. The bitmaps are lists of bits. Locks and the device are left out: what
  a commit writes is the value of the function.
\<close>

section \<open>State\<close>

text \<open>
  The part of \<^verbatim>\<open>struct vdfs2_sb_info\<close> the functions read, besides \<open>sb_geometry\<close>, and
  \<^verbatim>\<open>struct vdfs2_snapshot_info\<close>. \<open>tables_freed\<close> is no field of the code: it is set where the code
  frees the pages of the base table while it still uses them.
\<close>

record vdfs2_snapshot_info =
  base_t :: "u8 list"
  extended_t :: "u8 list"
  snapshot_bitmap :: "bool list"
  next_snapshot_bitmap :: "bool list"
  moved_iblock :: "bool list"
  bitmap_size_in_bits :: nat
  hint_btree :: nat
  hint_bitmaps :: nat
  tables_pages_count :: nat
  exteneded_table_count :: nat
  snap_isector :: nat
  sync_count :: nat
  use_base_table :: bool
  dirty_pages_count :: nat
  snap_flags :: nat
  tables_freed :: bool

definition PAGE_SIZE :: nat where "PAGE_SIZE = 4096"

definition VDFS2_CAT_TREE_INO :: nat where "VDFS2_CAT_TREE_INO = 2"
definition VDFS2_EXTENTS_TREE_INO :: nat where "VDFS2_EXTENTS_TREE_INO = 4"
definition VDFS2_HARDLINKS_TREE_INO :: nat where "VDFS2_HARDLINKS_TREE_INO = 6"
definition VDFS2_XATTR_TREE_INO :: nat where "VDFS2_XATTR_TREE_INO = 7"
definition VDFS2_FSFILE :: nat where "VDFS2_FSFILE = 2"
definition VDFS2_LSFILE :: nat where "VDFS2_LSFILE = 8"
definition BASE_TABLE_SIZE :: nat where "BASE_TABLE_SIZE = 100"
definition EXTENDED_TABLE_SIZE :: nat where "EXTENDED_TABLE_SIZE = 20"
definition EXTENDED_RECORD_SIZE :: nat where "EXTENDED_RECORD_SIZE = 17"

definition is_tree :: "nat \<Rightarrow> bool" where
  "is_tree object_type \<longleftrightarrow>
     object_type = VDFS2_CAT_TREE_INO \<or> object_type = VDFS2_EXTENTS_TREE_INO \<or>
     object_type = VDFS2_HARDLINKS_TREE_INO \<or> object_type = VDFS2_XATTR_TREE_INO"

definition special_file :: "nat \<Rightarrow> bool" where
  "special_file x \<longleftrightarrow> VDFS2_FSFILE \<le> x \<and> x \<le> VDFS2_LSFILE"

definition VDFS2_SF_INDEX :: "nat \<Rightarrow> nat" where "VDFS2_SF_INDEX x = x - VDFS2_FSFILE"

text \<open>The blocks a part of a file takes: a logical erase block of a tree, a page of a bitmap.\<close>

definition chunk_size :: "sb_geometry \<Rightarrow> nat \<Rightarrow> nat" where
  "chunk_size g x = 2 ^ (if is_tree x then log_blocks_in_leb g else PAGE_SHIFT - block_size_shift g)"

section \<open>The base table\<close>

definition descr_mount_count :: "u8 list \<Rightarrow> nat" where "descr_mount_count t = rd 4 t 4"
definition descr_sync_count :: "u8 list \<Rightarrow> nat" where "descr_sync_count t = rd 4 t 8"
definition checksum_offset :: "u8 list \<Rightarrow> nat" where "checksum_offset t = rd 4 t 12"

definition VDFS2_LAST_TABLE_INDEX :: "u8 list \<Rightarrow> nat \<Rightarrow> nat" where
  "VDFS2_LAST_TABLE_INDEX t x = rd 8 t (16 + 8 * VDFS2_SF_INDEX x)"

definition VDFS2_GET_TABLE_OFFSET :: "u8 list \<Rightarrow> nat \<Rightarrow> nat" where
  "VDFS2_GET_TABLE_OFFSET t x = rd 4 t (72 + 4 * VDFS2_SF_INDEX x)"

definition VDFS2_SNAPSHOT_VERSION :: "u8 list \<Rightarrow> nat" where
  "VDFS2_SNAPSHOT_VERSION t = descr_mount_count t * 2 ^ 32 + descr_sync_count t"

definition GET_TABLE_INDEX :: "sb_geometry \<Rightarrow> nat \<Rightarrow> nat \<Rightarrow> nat" where
  "GET_TABLE_INDEX g x page_offset =
     (if is_tree x then page_offset div 2 ^ (log_blocks_in_leb g + block_size_shift g - PAGE_SHIFT) else page_offset)"

text \<open>An entry of a file's table; one outside of the mapped pages stops the kernel.\<close>

definition table_addr :: "u8 list \<Rightarrow> nat \<Rightarrow> nat \<Rightarrow> nat" where
  "table_addr t x i = VDFS2_GET_TABLE_OFFSET t x + 8 * i"

definition table_get :: "u8 list \<Rightarrow> nat \<Rightarrow> nat \<Rightarrow> nat result" where
  "table_get t x i = (if length t < table_addr t x i + 8 then Bug else Ok (rd 8 t (table_addr t x i)))"

definition table_set :: "u8 list \<Rightarrow> nat \<Rightarrow> nat \<Rightarrow> nat \<Rightarrow> u8 list result" where
  "table_set t x i v = (if length t < table_addr t x i + 8 then Bug else Ok (wr 8 t (table_addr t x i) v))"

definition vdfs2_get_meta_iblock :: "sb_geometry \<Rightarrow> vdfs2_snapshot_info \<Rightarrow> nat \<Rightarrow> nat \<Rightarrow> nat result" where
  "vdfs2_get_meta_iblock g s ino_n page_index =
     (if VDFS2_LAST_TABLE_INDEX (base_t s) ino_n < GET_TABLE_INDEX g ino_n page_index then Err EINVAL
      else table_get (base_t s) ino_n (GET_TABLE_INDEX g ino_n page_index))"

definition vdfs2_special_file_size :: "sb_geometry \<Rightarrow> vdfs2_snapshot_info \<Rightarrow> nat \<Rightarrow> nat" where
  "vdfs2_special_file_size g s ino_n =
     (if is_tree ino_n then 2 ^ log_super_page_size g * (VDFS2_LAST_TABLE_INDEX (base_t s) ino_n + 1)
      else PAGE_SIZE * (VDFS2_LAST_TABLE_INDEX (base_t s) ino_n + 1))"

section \<open>The bitmaps\<close>

text \<open>The kernel's functions on bitmaps. A range beyond the end would change other memory.\<close>

definition set_range :: "bool \<Rightarrow> bool list \<Rightarrow> nat \<Rightarrow> nat \<Rightarrow> bool list result" where
  "set_range v bm p n = (if length bm < p + n then Bug else Ok (take p bm @ replicate n v @ drop (p + n) bm))"

definition bitmap_set :: "bool list \<Rightarrow> nat \<Rightarrow> nat \<Rightarrow> bool list result" where
  "bitmap_set bm p n = set_range True bm (p mod 2 ^ 32) n"

definition bitmap_clear :: "bool list \<Rightarrow> nat \<Rightarrow> nat \<Rightarrow> bool list result" where
  "bitmap_clear bm p n = set_range False bm (p mod 2 ^ 32) n"

lemma round_up_ge: "0 < align \<Longrightarrow> (x :: nat) \<le> (x + align - 1) div align * align"
proof -
  assume a: "0 < align"
  have "x + align - 1 = (x + align - 1) div align * align + (x + align - 1) mod align" by simp
  moreover have "(x + align - 1) mod align < align" using a by simp
  ultimately show ?thesis by linarith
qed

lemma find_from_ge: "i \<le> sz \<Longrightarrow> i \<le> find_from p sz i"
  using find_from_spec [of p sz i] by auto

text \<open>
  \<^verbatim>\<open>bitmap_find_next_zero_area\<close>: the next place from \<open>start\<close> on, aligned to \<open>align\<close>, with \<open>nr\<close> zero
  bits; a value above the size when there is none.
\<close>

function find_next_zero_area :: "bool list \<Rightarrow> nat \<Rightarrow> nat \<Rightarrow> nat \<Rightarrow> nat \<Rightarrow> nat" where
  "find_next_zero_area bm sz start nr align =
     (let index = (if sz < start then sz else find_from (\<lambda>j. \<not> bm ! j) sz start);
          index' = (index + align - 1) div align * align; e = index' + nr in
      if align = 0 \<or> nr = 0 \<or> sz < e then e
      else
        (let i = find_from (\<lambda>j. bm ! j) e index' in
         if i < e then find_next_zero_area bm sz (i + 1) nr align else index'))"
  by pat_completeness auto

termination
proof (relation "measure (\<lambda>(bm, sz, start, nr, align). sz + 1 - start)", goal_cases)
  case (2 bm sz start nr align index index' e i)
  have i': "index \<le> index'" unfolding 2(2) using 2(4) by (intro round_up_ge) simp
  have s: "start \<le> sz"
  proof (rule ccontr)
    assume "\<not> start \<le> sz"
    then have "index = sz" using 2(1) by simp
    then show False using i' 2(3,4) by simp
  qed
  have "start \<le> index" using 2(1) s find_from_ge [of start sz] by simp
  moreover have "index' \<le> i" using find_from_ge [of index' e] 2(3,5) by simp
  ultimately show ?case using i' s 2(4,6) by simp linarith
qed simp

declare find_next_zero_area.simps [simp del]

section \<open>Moving a part of a file\<close>

definition get_new_meta_iblock :: "sb_geometry \<Rightarrow> vdfs2_snapshot_info \<Rightarrow> nat \<Rightarrow> (nat \<times> vdfs2_snapshot_info) result" where
  "get_new_meta_iblock g s ino_n =
     (let nr = chunk_size g ino_n; sz = bitmap_size_in_bits s;
          hint = (if is_tree ino_n then hint_btree s else hint_bitmaps s);
          position = find_next_zero_area (snapshot_bitmap s) sz hint nr nr;
          position' = (if sz < position then find_next_zero_area (snapshot_bitmap s) sz 0 nr nr else position) in
      if sz < position' then Bug
      else
        and_then (bitmap_set (snapshot_bitmap s) position' nr) (\<lambda>b1.
        and_then (bitmap_set (next_snapshot_bitmap s) position' nr) (\<lambda>b2.
        and_then (bitmap_set (moved_iblock s) position' nr) (\<lambda>b3.
          let s1 = s\<lparr>snapshot_bitmap := b1, next_snapshot_bitmap := b2, moved_iblock := b3\<rparr> in
          Ok (position', if is_tree ino_n then s1\<lparr>hint_btree := position' + nr\<rparr> else s1\<lparr>hint_bitmaps := position' + nr\<rparr>)))))"

definition move_iblock :: "sb_geometry \<Rightarrow> vdfs2_snapshot_info \<Rightarrow> nat \<Rightarrow> nat \<Rightarrow> nat \<Rightarrow> (nat \<times> vdfs2_snapshot_info) result" where
  "move_iblock g s ino_n current_iblock page_index =
     (let table_index = GET_TABLE_INDEX g ino_n page_index in
      if VDFS2_LAST_TABLE_INDEX (base_t s) ino_n < table_index then Bug
      else
        and_then (get_new_meta_iblock g s ino_n) (\<lambda>(position, s1).
        and_then (bitmap_clear (next_snapshot_bitmap s1) current_iblock (chunk_size g ino_n)) (\<lambda>b.
        and_then (table_set (base_t s1) ino_n table_index position) (\<lambda>t.
          Ok (position, s1\<lparr>next_snapshot_bitmap := b, base_t := t\<rparr>)))))"

definition records_count :: "u8 list \<Rightarrow> nat" where "records_count t = rd 4 t 16"

definition record_addr :: "nat \<Rightarrow> nat" where "record_addr i = EXTENDED_TABLE_SIZE + i * EXTENDED_RECORD_SIZE"

text \<open>
  A change of an entry is noted in the extended table. When its page is full, the next commit
  writes the base table.
\<close>

definition put_record :: "u8 list \<Rightarrow> nat \<Rightarrow> nat \<Rightarrow> nat \<Rightarrow> nat \<Rightarrow> u8 list" where
  "put_record t i object_id table_index meta_iblock =
     wr 8 (wr 1 (wr 8 t (record_addr i + 9) meta_iblock) (record_addr i) object_id) (record_addr i + 1) table_index"

definition update_extended_table :: "sb_geometry \<Rightarrow> vdfs2_snapshot_info \<Rightarrow> nat \<Rightarrow> nat \<Rightarrow> nat \<Rightarrow> vdfs2_snapshot_info" where
  "update_extended_table g s ino_n page_index new_iblock =
     (let rec_count = records_count (extended_t s);
          new_table_size = ((rec_count + 1) mod 2 ^ 32 * EXTENDED_RECORD_SIZE + EXTENDED_TABLE_SIZE + CRC32_SIZE) mod 2 ^ 32 in
      if use_base_table s then s
      else if PAGE_SIZE < new_table_size then s\<lparr>use_base_table := True\<rparr>
      else s\<lparr>extended_t :=
        wr 4 (put_record (extended_t s) rec_count ino_n (GET_TABLE_INDEX g ino_n page_index) new_iblock) 16 (rec_count + 1)\<rparr>)"

definition vdfs2_add_chunk_no_lock :: "sb_geometry \<Rightarrow> vdfs2_snapshot_info \<Rightarrow> nat \<Rightarrow> nat \<Rightarrow> vdfs2_snapshot_info result" where
  "vdfs2_add_chunk_no_lock g s object_id page_index =
     (if \<not> special_file object_id \<or> snap_flags s \<noteq> 0 then Bug
      else
        (case vdfs2_get_meta_iblock g s object_id page_index of
           Ok meta_iblock \<Rightarrow>
             if length (moved_iblock s) \<le> meta_iblock then Bug
             else if moved_iblock s ! meta_iblock then Ok s
             else
               and_then (move_iblock g s object_id meta_iblock page_index) (\<lambda>(new_iblock, s1).
                 if is_tree object_id \<and> new_iblock mod 2 ^ log_blocks_in_leb g \<noteq> 0 then Bug
                 else
                   (let s2 = update_extended_table g s1 object_id page_index new_iblock in
                    Ok (s2\<lparr>dirty_pages_count :=
                      (dirty_pages_count s2 + (if is_tree object_id then 2 ^ log_blocks_in_leb g else 1)) mod 2 ^ 32\<rparr>)))
         | _ \<Rightarrow> Bug))"

section \<open>A commit\<close>

text \<open>After the metadata is on the device the present state is the one to keep.\<close>

definition vdfs2_update_bitmaps :: "vdfs2_snapshot_info \<Rightarrow> vdfs2_snapshot_info" where
  "vdfs2_update_bitmaps s =
     s\<lparr>moved_iblock := replicate (length (moved_iblock s)) False, snapshot_bitmap := next_snapshot_bitmap s\<rparr>"

datatype snapshot_table_type = SNAPSHOT_BASE_TABLE | SNAPSHOT_EXT_TABLE

definition VDFS2_SNAPSHOT_BASE_TABLE :: "u8 list" where "VDFS2_SNAPSHOT_BASE_TABLE = [67, 111, 87, 66]"
definition VDFS2_SNAPSHOT_EXTENDED_TABLE :: "u8 list" where "VDFS2_SNAPSHOT_EXTENDED_TABLE = [67, 111, 87, 69]"

definition special_files :: "nat list" where "special_files = [VDFS2_FSFILE..<VDFS2_LSFILE + 1]"

text \<open>The offset of the checksum behind all tables, or behind the records of an extended table.\<close>

definition new_checksum_offset :: "u8 list \<Rightarrow> u8 list \<Rightarrow> snapshot_table_type \<Rightarrow> nat" where
  "new_checksum_offset base t type =
     (case type of
        SNAPSHOT_BASE_TABLE \<Rightarrow> sum_list (map (\<lambda>x. 8 * (VDFS2_LAST_TABLE_INDEX base x + 1)) special_files) + BASE_TABLE_SIZE
      | SNAPSHOT_EXT_TABLE \<Rightarrow> EXTENDED_TABLE_SIZE + EXTENDED_RECORD_SIZE * records_count t) mod 2 ^ 32"

text \<open>\<open>crc32\<close> is the kernel's checksum; a checksum behind the mapped pages stops the kernel.\<close>

definition fill_descriptor_and_calculate_crc ::
  "(u8 list \<Rightarrow> nat) \<Rightarrow> nat \<Rightarrow> vdfs2_snapshot_info \<Rightarrow> u8 list \<Rightarrow> snapshot_table_type \<Rightarrow> u8 list result" where
  "fill_descriptor_and_calculate_crc crc32 mount_counter s t type =
     (let t1 = put t 0 (case type of SNAPSHOT_BASE_TABLE \<Rightarrow> VDFS2_SNAPSHOT_BASE_TABLE | SNAPSHOT_EXT_TABLE \<Rightarrow> VDFS2_SNAPSHOT_EXTENDED_TABLE);
          t2 = wr 4 t1 12 (new_checksum_offset (base_t s) t1 type);
          t3 = wr 4 (wr 4 t2 4 mount_counter) 8 (sync_count s) in
      if length t3 < checksum_offset t3 + CRC32_SIZE then Bug
      else Ok (wr 4 t3 (checksum_offset t3) (crc32 (take (checksum_offset t3) t3))))"

definition VDFS2_SNAPSHOT_TABLES_COUNT :: nat where "VDFS2_SNAPSHOT_TABLES_COUNT = 8"
definition SECTOR_SIZE :: nat where "SECTOR_SIZE = 512"

definition div_round_up :: "nat \<Rightarrow> nat \<Rightarrow> nat" where "div_round_up a b = (a + b - 1) div b"

text \<open>
  What is written and where: the bytes of a table from a sector of the tables' area on. \<open>io\<close>
  is what the device returns for the write; the state changes in the same way when it fails,
  except that the next table goes to the same place.
\<close>

definition vdfs2_update_translation_tables ::
  "(u8 list \<Rightarrow> nat) \<Rightarrow> nat \<Rightarrow> nat \<Rightarrow> ret \<Rightarrow> vdfs2_snapshot_info \<Rightarrow> (nat \<times> u8 list) option \<times> ret \<times> vdfs2_snapshot_info" where
  "vdfs2_update_translation_tables crc32 mount_counter tables_tbc io s =
     (let base = (VDFS2_SNAPSHOT_TABLES_COUNT \<le> exteneded_table_count s \<or> use_base_table s);
          half = tables_tbc * 2 ^ (PAGE_SHIFT - 9) mod 2 ^ 32 div 2;
          isector = (if base then (if half < snap_isector s then 0 else half) else snap_isector s);
          s1 = (if base then s\<lparr>use_base_table := False, exteneded_table_count := 0\<rparr>
                else s\<lparr>exteneded_table_count := exteneded_table_count s + 1\<rparr>);
          t = (if base then base_t s else extended_t s);
          type = (if base then SNAPSHOT_BASE_TABLE else SNAPSHOT_EXT_TABLE) in
      case fill_descriptor_and_calculate_crc crc32 mount_counter s1 t type of
        Ok t' \<Rightarrow>
          (let table_size = (checksum_offset t' + CRC32_SIZE) mod 2 ^ 32;
               s2 = (if base then s1\<lparr>base_t := t'\<rparr> else s1);
               s3 = s2\<lparr>snap_isector := (if io = Success then isector + div_round_up table_size SECTOR_SIZE else isector),
                 sync_count := (sync_count s + 1) mod 2 ^ 32, dirty_pages_count := 0,
                 extended_t := put (if base then extended_t s else t') 0 (replicate EXTENDED_TABLE_SIZE 0)\<rparr> in
           (Some (isector, take table_size t'), io, s3))
      | _ \<Rightarrow> (None, Oops, s1))"

text \<open>
  The end of \<^verbatim>\<open>vdfs2_sync_metadata\<close>: the bitmaps are changed before the tables are written.
\<close>

definition commit_snapshot ::
  "(u8 list \<Rightarrow> nat) \<Rightarrow> nat \<Rightarrow> nat \<Rightarrow> ret \<Rightarrow> vdfs2_snapshot_info \<Rightarrow> (nat \<times> u8 list) option \<times> ret \<times> vdfs2_snapshot_info" where
  "commit_snapshot crc32 mount_counter tables_tbc io s =
     vdfs2_update_translation_tables crc32 mount_counter tables_tbc io (vdfs2_update_bitmaps s)"

section \<open>Loading the tables\<close>

text \<open>The version of a table, 0 for one that is not valid.\<close>

definition validate_table :: "(u8 list \<Rightarrow> nat) \<Rightarrow> u8 list \<Rightarrow> u8 list \<Rightarrow> nat result" where
  "validate_table crc32 signature t =
     (if rng t 0 4 \<noteq> signature then Ok 0
      else if length t < checksum_offset t + 4 then Bug
      else Ok (if crc32 (take (checksum_offset t) t) \<noteq> rd 4 t (checksum_offset t) then 0 else VDFS2_SNAPSHOT_VERSION t))"

definition validate_base_table :: "(u8 list \<Rightarrow> nat) \<Rightarrow> u8 list \<Rightarrow> nat result" where
  "validate_base_table crc32 t = validate_table crc32 VDFS2_SNAPSHOT_BASE_TABLE t"

definition validate_extended_table :: "(u8 list \<Rightarrow> nat) \<Rightarrow> u8 list \<Rightarrow> nat result" where
  "validate_extended_table crc32 t = validate_table crc32 VDFS2_SNAPSHOT_EXTENDED_TABLE t"

fun parse_records :: "u8 list \<Rightarrow> nat \<Rightarrow> nat \<Rightarrow> u8 list \<Rightarrow> u8 list result" where
  "parse_records ext i 0 base = Ok base"
| "parse_records ext i (Suc n) base =
     (if length ext < record_addr (i + 1) then Bug
      else
        (let x = rd 1 ext (record_addr i); table_index = rd 8 ext (record_addr i + 1); iblock = rd 8 ext (record_addr i + 9) in
         if \<not> special_file x \<or> VDFS2_LAST_TABLE_INDEX base x < table_index then Bug
         else and_then (table_set base x table_index iblock) (parse_records ext (i + 1) n)))"

text \<open>The changed base table and the size of the extended table.\<close>

definition parse_extended_table :: "u8 list \<Rightarrow> u8 list \<Rightarrow> (u8 list \<times> nat) result" where
  "parse_extended_table base ext =
     and_then (parse_records ext 0 (records_count ext) base) (\<lambda>b.
       Ok (wr 4 (wr 4 b 4 (descr_mount_count ext)) 8 (descr_sync_count ext), checksum_offset ext + CRC32_SIZE))"

fun set_chunks :: "nat \<Rightarrow> u8 list \<Rightarrow> nat \<Rightarrow> nat \<Rightarrow> nat \<Rightarrow> bool list \<Rightarrow> bool list result" where
  "set_chunks nr t x i 0 bm = Ok bm"
| "set_chunks nr t x i (Suc n) bm =
     and_then (table_get t x i) (\<lambda>pos. and_then (bitmap_set bm pos nr) (set_chunks nr t x (i + 1) n))"

fun set_files :: "sb_geometry \<Rightarrow> u8 list \<Rightarrow> nat list \<Rightarrow> bool list \<Rightarrow> bool list result" where
  "set_files g t [] bm = Ok bm"
| "set_files g t (x # xs) bm =
     (if VDFS2_GET_TABLE_OFFSET t x = 0 then set_files g t xs bm
      else and_then (set_chunks (chunk_size g x) t x 0 (VDFS2_LAST_TABLE_INDEX t x + 1) bm) (set_files g t xs))"

definition build_snapshot_bitmaps :: "sb_geometry \<Rightarrow> vdfs2_snapshot_info \<Rightarrow> vdfs2_snapshot_info result" where
  "build_snapshot_bitmaps g s =
     and_then (set_files g (base_t s) special_files (snapshot_bitmap s)) (\<lambda>b.
       Ok (s\<lparr>snapshot_bitmap := b, next_snapshot_bitmap := b\<rparr>))"

text \<open>
  The loop of \<^verbatim>\<open>vdfs2_build_snapshot_manager\<close> over the extended tables that follow the base table.
  \<open>read\<close> is the page at a sector. A table is taken when it carries the mount count of the base table
  and the sync count after its own. The value is the base table, the next sector and the number of tables.
\<close>

fun load_extended_tables ::
  "(u8 list \<Rightarrow> nat) \<Rightarrow> (nat \<Rightarrow> u8 list result) \<Rightarrow> nat \<Rightarrow> u8 list \<Rightarrow> nat \<Rightarrow> nat \<Rightarrow> (u8 list \<times> nat \<times> nat) result" where
  "load_extended_tables crc32 rdp 0 base isector cnt = Ok (base, isector, cnt)"
| "load_extended_tables crc32 rdp (Suc n) base isector cnt =
     and_then (rdp isector) (\<lambda>ext.
     and_then (validate_extended_table crc32 ext) (\<lambda>version.
       if version div 2 ^ 32 \<noteq> descr_mount_count base \<or> version mod 2 ^ 32 \<noteq> (descr_sync_count base + 1) mod 2 ^ 32
       then Ok (base, isector, cnt)
       else
         and_then (parse_extended_table base ext) (\<lambda>(base', len).
           load_extended_tables crc32 rdp n base' (isector + div_round_up len SECTOR_SIZE) (cnt + 1))))"

end
