(* ===== verification/Snapshot_Inv.thy ===== *)
theory Snapshot_Inv
  imports Snapshot
begin

text \<open>
  The invariant between translation tables and bitmaps: every part of a metadata file has its
  own blocks, the bitmap of the next state marks exactly these, and the blocks of the last
  committed state are kept apart from everything that was moved since.
\<close>

section \<open>Bitmaps as sets\<close>

definition bits :: "bool list \<Rightarrow> nat set" where
  "bits bm = {j. j < length bm \<and> bm ! j}"

lemma set_range_ok:
  assumes "p + n \<le> length bm"
  obtains bm' where "set_range v bm p n = Ok bm'" "length bm' = length bm"
    "bits bm' = (if v then bits bm \<union> {p..<p + n} else bits bm - {p..<p + n})"
proof
  let ?b = "take p bm @ replicate n v @ drop (p + n) bm"
  show "set_range v bm p n = Ok ?b" "length ?b = length bm" using assms by (simp_all add: set_range_def)
  have "?b ! j = (if p \<le> j \<and> j < p + n then v else bm ! j)" if "j < length bm" for j
    using that assms by (auto simp: nth_append)
  then show "bits ?b = (if v then bits bm \<union> {p..<p + n} else bits bm - {p..<p + n})"
    using assms by (cases v) (auto simp: bits_def split: if_splits)
qed

lemma bitmap_set_ok:
  assumes "p + n \<le> length bm" "p < 2 ^ 32"
  obtains bm' where "bitmap_set bm p n = Ok bm'" "length bm' = length bm" "bits bm' = bits bm \<union> {p..<p + n}"
  using set_range_ok [OF assms(1), of True] assms(2) by (auto simp: bitmap_set_def)

lemma bitmap_clear_ok:
  assumes "p + n \<le> length bm" "p < 2 ^ 32"
  obtains bm' where "bitmap_clear bm p n = Ok bm'" "length bm' = length bm" "bits bm' = bits bm - {p..<p + n}"
  using set_range_ok [OF assms(1), of False] assms(2) by (auto simp: bitmap_clear_def)

text \<open>A place for a part of \<open>nr\<close> blocks.\<close>

definition free_area :: "bool list \<Rightarrow> nat \<Rightarrow> nat \<Rightarrow> nat \<Rightarrow> nat \<Rightarrow> bool" where
  "free_area bm sz nr align q \<longleftrightarrow> align dvd q \<and> q + nr \<le> sz \<and> (\<forall>j. q \<le> j \<longrightarrow> j < q + nr \<longrightarrow> \<not> bm ! j)"

lemma aligned_ge_round_up:
  assumes "0 < align" "align dvd q" "x \<le> q"
  shows "(x + align - 1) div align * align \<le> (q :: nat)"
proof -
  obtain k where k: "q = align * k" using assms(2) by blast
  have "(x + align - 1) div align < k + 1"
    using assms k by (intro less_mult_imp_div_less) (simp add: algebra_simps)
  then have "(x + align - 1) div align \<le> k" by simp
  then show ?thesis using k by (simp add: mult.commute)
qed

lemma zero_area_spec:
  assumes "0 < nr" "0 < align"
  shows "(free_area bm sz nr align (find_next_zero_area bm sz start nr align) \<and> start \<le> find_next_zero_area bm sz start nr align) \<or>
    (sz < find_next_zero_area bm sz start nr align \<and> (\<forall>q. start \<le> q \<longrightarrow> \<not> free_area bm sz nr align q))"
  using assms
proof (induction bm sz start nr align rule: find_next_zero_area.induct)
  case (1 bm sz start nr align)
  define index where "index = (if sz < start then sz else find_from (\<lambda>j. \<not> bm ! j) sz start)"
  define index' where "index' = (index + align - 1) div align * align"
  define e where "e = index' + nr"
  define i where "i = find_from (\<lambda>j. bm ! j) e index'"
  have ge: "index \<le> index'" unfolding index'_def using 1 by (intro round_up_ge) simp
  have st: "start \<le> index \<or> sz < e"
    using ge 1(2) find_from_ge [of start sz] by (auto simp: index_def e_def)
  have low: "index' \<le> q" if "start \<le> q" "free_area bm sz nr align q" for q
  proof -
    have q: "align dvd q" "q + nr \<le> sz" "\<not> bm ! q" using that 1(2) by (auto simp: free_area_def)
    then have "index \<le> q" using find_from_spec [of "\<lambda>j. \<not> bm ! j" sz start] that(1) 1(2) by (auto simp: index_def not_less)
    then show ?thesis unfolding index'_def using 1(3) q(1) by (intro aligned_ge_round_up)
  qed
  have eq: "find_next_zero_area bm sz start nr align =
      (if sz < e then e else if i < e then find_next_zero_area bm sz (i + 1) nr align else index')"
    unfolding find_next_zero_area.simps [of bm sz start nr align] Let_def index_def [symmetric] index'_def [symmetric]
      e_def [symmetric] i_def [symmetric] using 1(2,3) by auto
  show ?case
  proof (cases "sz < e")
    case True
    have "\<not> free_area bm sz nr align q" if "start \<le> q" for q
    proof
      assume q: "free_area bm sz nr align q"
      show False using low [OF that q] q True by (simp add: free_area_def e_def)
    qed
    then show ?thesis using True eq by simp
  next
    case False
    show ?thesis
    proof (cases "i < e")
      case True
      have ib: "index' \<le> i" "bm ! i" using find_from_spec [of "\<lambda>j. bm ! j" e index'] True by (auto simp: i_def e_def)
      have nx: "i + 1 \<le> q" if "start \<le> q" "free_area bm sz nr align q" for q
      proof (rule ccontr)
        assume "\<not> i + 1 \<le> q"
        then have "q \<le> i" "i < q + nr" using low [OF that] True by (auto simp: e_def)
        then show False using that(2) ib(2) by (simp add: free_area_def)
      qed
      have IH: "(free_area bm sz nr align (find_next_zero_area bm sz (i + 1) nr align) \<and> i + 1 \<le> find_next_zero_area bm sz (i + 1) nr align) \<or>
          (sz < find_next_zero_area bm sz (i + 1) nr align \<and> (\<forall>q. i + 1 \<le> q \<longrightarrow> \<not> free_area bm sz nr align q))"
        by (rule 1(1) [OF index_def index'_def e_def _ i_def True 1(2,3)]) (use False 1(2,3) in simp)
      have f: "find_next_zero_area bm sz start nr align = find_next_zero_area bm sz (i + 1) nr align" using eq False True by simp
      have "start \<le> i" using st False ge ib(1) by linarith
      then show ?thesis unfolding f using IH nx by (meson Suc_leD Suc_eq_plus1 le_trans le_add1)
    next
      case no: False
      have "\<not> bm ! j" if "index' \<le> j" "j < e" for j
        using find_from_spec [of "\<lambda>j. bm ! j" e index'] no that by (auto simp: i_def)
      then have "free_area bm sz nr align index'"
        using False by (simp add: free_area_def e_def index'_def)
      moreover have "start \<le> index'" using st False ge by linarith
      ultimately show ?thesis using eq False no by simp
    qed
  qed
qed

section \<open>Tables\<close>

definition entry :: "u8 list \<Rightarrow> nat \<Rightarrow> nat \<Rightarrow> nat" where
  "entry t x i = rd 8 t (table_addr t x i)"

definition parts :: "u8 list \<Rightarrow> (nat \<times> nat) set" where
  "parts t = {(x, i). special_file x \<and> i \<le> VDFS2_LAST_TABLE_INDEX t x}"

definition table_end :: "u8 list \<Rightarrow> nat \<Rightarrow> nat" where
  "table_end t x = table_addr t x (VDFS2_LAST_TABLE_INDEX t x + 1)"

text \<open>The tables lie between the head and the checksum and do not overlap.\<close>

definition layout_ok :: "u8 list \<Rightarrow> bool" where
  "layout_ok t \<longleftrightarrow>
     (\<forall>x. special_file x \<longrightarrow> BASE_TABLE_SIZE \<le> VDFS2_GET_TABLE_OFFSET t x \<and> table_end t x \<le> checksum_offset t) \<and>
     (\<forall>x y. special_file x \<longrightarrow> special_file y \<longrightarrow> x \<noteq> y \<longrightarrow>
        table_end t x \<le> VDFS2_GET_TABLE_OFFSET t y \<or> table_end t y \<le> VDFS2_GET_TABLE_OFFSET t x) \<and>
     checksum_offset t + CRC32_SIZE \<le> length t"

lemma special_fields: "special_file x \<Longrightarrow> 16 + 8 * VDFS2_SF_INDEX x + 8 \<le> 72" "special_file x \<Longrightarrow> 72 + 4 * VDFS2_SF_INDEX x + 4 \<le> 100"
  by (auto simp: special_file_def VDFS2_SF_INDEX_def VDFS2_FSFILE_def VDFS2_LSFILE_def)

definition same_head :: "u8 list \<Rightarrow> u8 list \<Rightarrow> bool" where
  "same_head t t' \<longleftrightarrow> length t' = length t \<and> checksum_offset t' = checksum_offset t \<and>
     (\<forall>x. special_file x \<longrightarrow> VDFS2_LAST_TABLE_INDEX t' x = VDFS2_LAST_TABLE_INDEX t x \<and>
        VDFS2_GET_TABLE_OFFSET t' x = VDFS2_GET_TABLE_OFFSET t x)"

lemma same_headI:
  assumes "length t' = length t" "\<And>w p. p + w \<le> BASE_TABLE_SIZE \<Longrightarrow> rd w t' p = rd w t p"
  shows "same_head t t'"
proof -
  have r: "rd w t' p = rd w t p" if "p + w \<le> 100" for w p using assms(2) [of p w] that by (simp add: BASE_TABLE_SIZE_def)
  have "VDFS2_LAST_TABLE_INDEX t' x = VDFS2_LAST_TABLE_INDEX t x \<and> VDFS2_GET_TABLE_OFFSET t' x = VDFS2_GET_TABLE_OFFSET t x" if "special_file x" for x
    using special_fields [OF that] by (simp add: VDFS2_LAST_TABLE_INDEX_def VDFS2_GET_TABLE_OFFSET_def r)
  then show ?thesis using assms(1) by (simp add: same_head_def checksum_offset_def r)
qed

lemma same_head_layout:
  assumes "same_head t t'"
  shows "layout_ok t' \<longleftrightarrow> layout_ok t" "parts t' = parts t" "special_file x \<Longrightarrow> table_addr t' x i = table_addr t x i"
  using assms by (auto simp: same_head_def layout_ok_def parts_def table_end_def table_addr_def)

lemma part_addr:
  assumes "layout_ok t" "(x, i) \<in> parts t"
  shows "BASE_TABLE_SIZE \<le> table_addr t x i" "table_addr t x i + 8 \<le> checksum_offset t" "table_addr t x i + 8 \<le> length t"
proof -
  have x: "special_file x" "i \<le> VDFS2_LAST_TABLE_INDEX t x" using assms(2) by (simp_all add: parts_def)
  then have "BASE_TABLE_SIZE \<le> VDFS2_GET_TABLE_OFFSET t x" "table_end t x \<le> checksum_offset t" "checksum_offset t + CRC32_SIZE \<le> length t"
    using assms(1) by (simp_all add: layout_ok_def)
  then show "BASE_TABLE_SIZE \<le> table_addr t x i" "table_addr t x i + 8 \<le> checksum_offset t" "table_addr t x i + 8 \<le> length t"
    using x(2) by (simp_all add: table_addr_def table_end_def)
qed

lemma part_apart:
  assumes l: "layout_ok t" and p: "(x, i) \<in> parts t" "(y, j) \<in> parts t" and ne: "(x, i) \<noteq> (y, j)"
  shows "table_addr t x i + 8 \<le> table_addr t y j \<or> table_addr t y j + 8 \<le> table_addr t x i"
proof (cases "x = y")
  case True
  then have "i < j \<or> j < i" using ne by auto
  then show ?thesis using True by (auto simp: table_addr_def)
next
  case False
  have x: "special_file x" "i \<le> VDFS2_LAST_TABLE_INDEX t x" and y: "special_file y" "j \<le> VDFS2_LAST_TABLE_INDEX t y"
    using p by (simp_all add: parts_def)
  have "table_end t x \<le> VDFS2_GET_TABLE_OFFSET t y \<or> table_end t y \<le> VDFS2_GET_TABLE_OFFSET t x"
    using l x(1) y(1) False by (simp add: layout_ok_def)
  then show ?thesis using x(2) y(2) by (auto simp: table_addr_def table_end_def)
qed

lemma wr_same_head:
  assumes "BASE_TABLE_SIZE \<le> a" "a + 8 \<le> length t"
  shows "same_head t (wr 8 t a v)"
  using assms by (intro same_headI) (simp_all add: rd_wr_other)

lemma table_set_ok:
  assumes l: "layout_ok t" and p: "(x, i) \<in> parts t" and v: "v < 2 ^ 64"
  obtains t' where "table_set t x i v = Ok t'" "same_head t t'" "entry t' x i = v"
    "\<And>y j. (y, j) \<in> parts t \<Longrightarrow> (y, j) \<noteq> (x, i) \<Longrightarrow> entry t' y j = entry t y j"
proof
  let ?a = "table_addr t x i" and ?t = "wr 8 t (table_addr t x i) v"
  note a = part_addr [OF l p]
  show "table_set t x i v = Ok ?t" using a by (simp add: table_set_def)
  show h: "same_head t ?t" by (rule wr_same_head [OF a(1,3)])
  have ad: "table_addr ?t y j = table_addr t y j" if "(y, j) \<in> parts t" for y j
    using same_head_layout(3) [OF h] that by (simp add: parts_def)
  show "entry ?t x i = v" using a v ad [OF p] by (simp add: entry_def rd_wr_same)
  show "entry ?t y j = entry t y j" if q: "(y, j) \<in> parts t" "(y, j) \<noteq> (x, i)" for y j
    using part_apart [OF l q(1) p q(2)] part_addr [OF l q(1)] a ad [OF q(1)] by (auto simp: entry_def rd_wr_other)
qed

lemma table_get_ok:
  assumes "layout_ok t" "(x, i) \<in> parts t"
  shows "table_get t x i = Ok (entry t x i)"
  using part_addr(3) [OF assms] by (simp add: table_get_def entry_def)

section \<open>The invariant\<close>

definition chunk :: "sb_geometry \<Rightarrow> u8 list \<Rightarrow> nat \<Rightarrow> nat \<Rightarrow> nat set" where
  "chunk g t x i = {entry t x i..<entry t x i + chunk_size g x}"

definition all_chunks :: "sb_geometry \<Rightarrow> u8 list \<Rightarrow> nat set" where
  "all_chunks g t = (\<Union>(x, i)\<in>parts t. chunk g t x i)"

definition placed_ok :: "sb_geometry \<Rightarrow> u8 list \<Rightarrow> nat \<Rightarrow> bool" where
  "placed_ok g t n \<longleftrightarrow>
     (\<forall>x i. (x, i) \<in> parts t \<longrightarrow> entry t x i + chunk_size g x \<le> n \<and> chunk_size g x dvd entry t x i) \<and>
     (\<forall>x i y j. (x, i) \<in> parts t \<longrightarrow> (y, j) \<in> parts t \<longrightarrow> (x, i) \<noteq> (y, j) \<longrightarrow> chunk g t x i \<inter> chunk g t y j = {})"

text \<open>\<open>C\<close> are the blocks of the last committed state.\<close>

definition snap_inv :: "sb_geometry \<Rightarrow> vdfs2_snapshot_info \<Rightarrow> nat set \<Rightarrow> bool" where
  "snap_inv g s C \<longleftrightarrow>
     layout_ok (base_t s) \<and> placed_ok g (base_t s) (bitmap_size_in_bits s) \<and>
     length (snapshot_bitmap s) = bitmap_size_in_bits s \<and> length (next_snapshot_bitmap s) = bitmap_size_in_bits s \<and>
     length (moved_iblock s) = bitmap_size_in_bits s \<and> bitmap_size_in_bits s < 2 ^ 31 \<and>
     bits (next_snapshot_bitmap s) = all_chunks g (base_t s) \<and>
     bits (snapshot_bitmap s) = C \<union> bits (next_snapshot_bitmap s) \<and>
     bits (moved_iblock s) \<inter> C = {} \<and>
     (\<forall>x i. (x, i) \<in> parts (base_t s) \<longrightarrow> chunk g (base_t s) x i \<subseteq> bits (moved_iblock s) \<or>
        chunk g (base_t s) x i \<inter> bits (moved_iblock s) = {} \<and> chunk g (base_t s) x i \<subseteq> C)"

lemma chunk_size_pos [simp]: "0 < chunk_size g x"
  by (simp add: chunk_size_def)

text \<open>A new place is unused in the committed and in the present state.\<close>

lemma new_iblock_ok:
  assumes l: "length (snapshot_bitmap s) = bitmap_size_in_bits s" "length (next_snapshot_bitmap s) = bitmap_size_in_bits s"
      "length (moved_iblock s) = bitmap_size_in_bits s" "bitmap_size_in_bits s < 2 ^ 31"
    and f: "\<exists>q. free_area (snapshot_bitmap s) (bitmap_size_in_bits s) (chunk_size g x) (chunk_size g x) q"
  obtains p s' where "get_new_meta_iblock g s x = Ok (p, s')" "p + chunk_size g x \<le> bitmap_size_in_bits s" "chunk_size g x dvd p"
    "{p..<p + chunk_size g x} \<inter> bits (snapshot_bitmap s) = {}"
    "bits (snapshot_bitmap s') = bits (snapshot_bitmap s) \<union> {p..<p + chunk_size g x}"
    "bits (next_snapshot_bitmap s') = bits (next_snapshot_bitmap s) \<union> {p..<p + chunk_size g x}"
    "bits (moved_iblock s') = bits (moved_iblock s) \<union> {p..<p + chunk_size g x}"
    "length (snapshot_bitmap s') = bitmap_size_in_bits s" "length (next_snapshot_bitmap s') = bitmap_size_in_bits s"
    "length (moved_iblock s') = bitmap_size_in_bits s"
    "\<exists>b1 b2 b3 h1 h2. s' = s\<lparr>snapshot_bitmap := b1, next_snapshot_bitmap := b2, moved_iblock := b3, hint_btree := h1, hint_bitmaps := h2\<rparr>"
proof -
  let ?n = "chunk_size g x" and ?sz = "bitmap_size_in_bits s" and ?bm = "snapshot_bitmap s"
  define h where "h = (if is_tree x then hint_btree s else hint_bitmaps s)"
  define p0 where "p0 = find_next_zero_area ?bm ?sz h ?n ?n"
  define p where "p = (if ?sz < p0 then find_next_zero_area ?bm ?sz 0 ?n ?n else p0)"
  have p0: "free_area ?bm ?sz ?n ?n p0 \<or> ?sz < p0" unfolding p0_def using zero_area_spec [of ?n ?n ?bm ?sz h] by auto
  have p: "free_area ?bm ?sz ?n ?n p"
  proof (cases "?sz < p0")
    case True
    then show ?thesis using zero_area_spec [of ?n ?n ?bm ?sz 0] f by (auto simp: p_def)
  qed (use p0 in \<open>simp add: p_def\<close>)
  then have b: "p + ?n \<le> ?sz" "?n dvd p" "\<And>j. p \<le> j \<Longrightarrow> j < p + ?n \<Longrightarrow> \<not> ?bm ! j" by (simp_all add: free_area_def)
  have p32: "p < 2 ^ 32" "\<not> ?sz < p" using b(1) l(4) by simp_all
  obtain b1 where b1: "bitmap_set ?bm p ?n = Ok b1" "length b1 = length ?bm" "bits b1 = bits ?bm \<union> {p..<p + ?n}"
    using bitmap_set_ok [of p ?n ?bm] b(1) l(1) p32 by auto
  obtain b2 where b2: "bitmap_set (next_snapshot_bitmap s) p ?n = Ok b2" "length b2 = ?sz"
      "bits b2 = bits (next_snapshot_bitmap s) \<union> {p..<p + ?n}"
    using bitmap_set_ok [of p ?n "next_snapshot_bitmap s"] b(1) l(2) p32 by auto
  obtain b3 where b3: "bitmap_set (moved_iblock s) p ?n = Ok b3" "length b3 = ?sz" "bits b3 = bits (moved_iblock s) \<union> {p..<p + ?n}"
    using bitmap_set_ok [of p ?n "moved_iblock s"] b(1) l(3) p32 by auto
  let ?s1 = "s\<lparr>snapshot_bitmap := b1, next_snapshot_bitmap := b2, moved_iblock := b3\<rparr>"
  let ?s' = "if is_tree x then ?s1\<lparr>hint_btree := p + ?n\<rparr> else ?s1\<lparr>hint_bitmaps := p + ?n\<rparr>"
  have run: "get_new_meta_iblock g s x = Ok (p, ?s')"
    unfolding get_new_meta_iblock_def Let_def h_def [symmetric] p0_def [symmetric] p_def [symmetric] using p32(2) b1(1) b2(1) b3(1) by simp
  have ap: "{p..<p + ?n} \<inter> bits ?bm = {}" using b(3) by (auto simp: bits_def)
  have ex: "\<exists>b1 b2 b3 h1 h2. ?s' = s\<lparr>snapshot_bitmap := b1, next_snapshot_bitmap := b2, moved_iblock := b3, hint_btree := h1, hint_bitmaps := h2\<rparr>"
  proof (cases "is_tree x")
    case True
    then show ?thesis by (intro exI [of _ b1] exI [of _ b2] exI [of _ b3] exI [of _ "p + ?n"] exI [of _ "hint_bitmaps s"]) simp
  next
    case False
    then show ?thesis by (intro exI [of _ b1] exI [of _ b2] exI [of _ b3] exI [of _ "hint_btree s"] exI [of _ "p + ?n"]) simp
  qed
  show ?thesis by (rule that [OF run b(1,2) ap _ _ _ _ _ _ ex]) (use b1 b2 b3 l(1) in simp_all)
qed

lemma no_new_iblock:
  assumes "\<not> (\<exists>q. free_area (snapshot_bitmap s) (bitmap_size_in_bits s) (chunk_size g x) (chunk_size g x) q)"
  shows "get_new_meta_iblock g s x = Bug"
  using zero_area_spec [of "chunk_size g x" "chunk_size g x" "snapshot_bitmap s" "bitmap_size_in_bits s"] assms
  unfolding get_new_meta_iblock_def Let_def by (auto split: if_splits)

lemma chunk_cong:
  "(\<And>y j. (y, j) \<in> parts t \<Longrightarrow> (y, j) \<noteq> (x, i) \<Longrightarrow> entry t' y j = entry t y j) \<Longrightarrow> (y, j) \<in> parts t \<Longrightarrow> (y, j) \<noteq> (x, i) \<Longrightarrow>
    chunk g t' y j = chunk g t y j"
  by (simp add: chunk_def)

lemma all_chunks_replace:
  assumes "parts t' = parts t" "(x, i) \<in> parts t" "chunk g t' x i = N" "placed_ok g t n" "N \<inter> all_chunks g t = {}"
    "\<And>y j. (y, j) \<in> parts t \<Longrightarrow> (y, j) \<noteq> (x, i) \<Longrightarrow> chunk g t' y j = chunk g t y j"
  shows "all_chunks g t' = (all_chunks g t \<union> N) - chunk g t x i"
proof -
  have split: "all_chunks g u = chunk g u x i \<union> (\<Union>(y, j)\<in>parts u - {(x, i)}. chunk g u y j)" if "(x, i) \<in> parts u" for u
    using that unfolding all_chunks_def by auto
  define R where "R = (\<Union>(y, j)\<in>parts t - {(x, i)}. chunk g t y j)"
  have R': "(\<Union>(y, j)\<in>parts t' - {(x, i)}. chunk g t' y j) = R" unfolding R_def assms(1) using assms(6) by fastforce
  have "chunk g t x i \<inter> R = {}" using assms(2,4) unfolding R_def placed_ok_def by blast
  moreover have "all_chunks g t = chunk g t x i \<union> R" using split [OF assms(2)] by (simp add: R_def)
  moreover have "all_chunks g t' = N \<union> R" using split [of t'] assms(1,2,3) R' by simp
  moreover have "N \<inter> chunk g t x i = {}" using assms(5) calculation(2) by blast
  ultimately show ?thesis by blast
qed

lemma snap_inv_move:
  assumes inv: "snap_inv g s C" and p: "(x, i) \<in> parts (base_t s)" and um: "chunk g (base_t s) x i \<inter> bits (moved_iblock s) = {}"
    and q: "q + chunk_size g x \<le> bitmap_size_in_bits s" "chunk_size g x dvd q" "N = {q..<q + chunk_size g x}"
      "N \<inter> bits (snapshot_bitmap s) = {}"
    and t: "same_head (base_t s) (base_t s')" "entry (base_t s') x i = q"
      "\<And>y j. (y, j) \<in> parts (base_t s) \<Longrightarrow> (y, j) \<noteq> (x, i) \<Longrightarrow> entry (base_t s') y j = entry (base_t s) y j"
    and b: "bits (snapshot_bitmap s') = bits (snapshot_bitmap s) \<union> N" "bits (moved_iblock s') = bits (moved_iblock s) \<union> N"
      "bits (next_snapshot_bitmap s') = (bits (next_snapshot_bitmap s) \<union> N) - chunk g (base_t s) x i"
    and l: "length (snapshot_bitmap s') = bitmap_size_in_bits s" "length (next_snapshot_bitmap s') = bitmap_size_in_bits s"
      "length (moved_iblock s') = bitmap_size_in_bits s" "bitmap_size_in_bits s' = bitmap_size_in_bits s"
  shows "snap_inv g s' C"
proof -
  let ?t = "base_t s" and ?t' = "base_t s'" and ?n = "bitmap_size_in_bits s"
  note h = same_head_layout [OF t(1)]
  have I: "layout_ok ?t" "placed_ok g ?t ?n" "?n < 2 ^ 31" "bits (next_snapshot_bitmap s) = all_chunks g ?t"
    "bits (snapshot_bitmap s) = C \<union> all_chunks g ?t" "bits (moved_iblock s) \<inter> C = {}"
    "\<And>y j. (y, j) \<in> parts ?t \<Longrightarrow> chunk g ?t y j \<subseteq> bits (moved_iblock s) \<or> chunk g ?t y j \<inter> bits (moved_iblock s) = {} \<and> chunk g ?t y j \<subseteq> C"
    using inv by (auto simp: snap_inv_def)
  have ne: "chunk g ?t x i \<noteq> {}" by (simp add: chunk_def)
  have xC: "chunk g ?t x i \<subseteq> C" using I(7) [OF p] um ne by blast
  have NC: "N \<inter> C = {}" "N \<inter> all_chunks g ?t = {}" using q(4) I(5) by auto
  have cx: "chunk g ?t' x i = N" using t(2) q(3) by (simp add: chunk_def)
  have co: "chunk g ?t' y j = chunk g ?t y j" if "(y, j) \<in> parts ?t" "(y, j) \<noteq> (x, i)" for y j
    by (rule chunk_cong [OF t(3) that])
  have all: "all_chunks g ?t' = (all_chunks g ?t \<union> N) - chunk g ?t x i" by (rule all_chunks_replace [OF h(2) p cx I(2) NC(2) co])
  have sub: "chunk g ?t y j \<subseteq> all_chunks g ?t" if "(y, j) \<in> parts ?t" for y j using that unfolding all_chunks_def by blast
  have pl: "placed_ok g ?t' ?n"
    unfolding placed_ok_def h(2)
  proof (intro conjI allI impI)
    fix y j assume y: "(y, j) \<in> parts ?t"
    show "entry ?t' y j + chunk_size g y \<le> ?n" "chunk_size g y dvd entry ?t' y j"
      using y I(2) q(1,2) t(2) t(3) [of y j] unfolding placed_ok_def by (cases "(y, j) = (x, i)"; auto)+
    fix z k assume z: "(z, k) \<in> parts ?t" "(y, j) \<noteq> (z, k)"
    have d: "chunk g ?t y j \<inter> chunk g ?t z k = {}" using I(2) y z unfolding placed_ok_def by blast
    have N: "N \<inter> chunk g ?t z k = {}" "N \<inter> chunk g ?t y j = {}" using NC(2) sub y z by blast+
    show "chunk g ?t' y j \<inter> chunk g ?t' z k = {}"
    proof (cases "(y, j) = (x, i)")
      case True
      then show ?thesis using cx co [OF z(1)] z(2) N(1) by auto
    next
      case no: False
      show ?thesis
      proof (cases "(z, k) = (x, i)")
        case True
        then show ?thesis using cx co [OF y no] N(2) by auto
      next
        case False
        then show ?thesis using co [OF y no] co [OF z(1) False] d by simp
      qed
    qed
  qed
  have "C \<union> bits (next_snapshot_bitmap s') = bits (snapshot_bitmap s')" using b I(4,5) xC by auto
  moreover have "bits (moved_iblock s') \<inter> C = {}" using b(2) I(6) NC(1) by blast
  moreover have "chunk g ?t' y j \<subseteq> bits (moved_iblock s') \<or> chunk g ?t' y j \<inter> bits (moved_iblock s') = {} \<and> chunk g ?t' y j \<subseteq> C"
    if "(y, j) \<in> parts ?t" for y j
  proof (cases "(y, j) = (x, i)")
    case True
    then show ?thesis using cx b(2) by auto
  next
    case False
    then show ?thesis using co [OF that False] I(7) [OF that] b(2) NC(1) by blast
  qed
  ultimately show ?thesis unfolding snap_inv_def using h I(1,3) pl l b(3) I(4) all by auto
qed

section \<open>The operations keep it\<close>

lemma update_extended_fields [simp]:
  "base_t (update_extended_table g s x pg v) = base_t s" "snapshot_bitmap (update_extended_table g s x pg v) = snapshot_bitmap s"
  "next_snapshot_bitmap (update_extended_table g s x pg v) = next_snapshot_bitmap s" "moved_iblock (update_extended_table g s x pg v) = moved_iblock s"
  "bitmap_size_in_bits (update_extended_table g s x pg v) = bitmap_size_in_bits s" "snap_flags (update_extended_table g s x pg v) = snap_flags s"
  by (simp_all add: update_extended_table_def Let_def)

lemma snap_inv_cong:
  assumes "base_t s' = base_t s" "snapshot_bitmap s' = snapshot_bitmap s" "next_snapshot_bitmap s' = next_snapshot_bitmap s"
    "moved_iblock s' = moved_iblock s" "bitmap_size_in_bits s' = bitmap_size_in_bits s"
  shows "snap_inv g s' C = snap_inv g s C"
  unfolding snap_inv_def assms ..

definition first_move :: "sb_geometry \<Rightarrow> vdfs2_snapshot_info \<Rightarrow> nat \<Rightarrow> nat \<Rightarrow> bool" where
  "first_move g s x i \<longleftrightarrow> \<not> moved_iblock s ! entry (base_t s) x i"

text \<open>What is there for a part: its chunk is inside the area and moved as a whole or not at all.\<close>

lemma part_facts:
  assumes inv: "snap_inv g s C" and p: "(x, i) \<in> parts (base_t s)"
  shows "entry (base_t s) x i < length (moved_iblock s)" "entry (base_t s) x i < 2 ^ 32"
    "entry (base_t s) x i + chunk_size g x \<le> bitmap_size_in_bits s"
    "first_move g s x i \<longleftrightarrow> chunk g (base_t s) x i \<inter> bits (moved_iblock s) = {}"
    "\<not> first_move g s x i \<longleftrightarrow> chunk g (base_t s) x i \<subseteq> bits (moved_iblock s)"
proof -
  let ?e = "entry (base_t s) x i" and ?ch = "chunk g (base_t s) x i"
  have pl: "placed_ok g (base_t s) (bitmap_size_in_bits s)" and l: "length (moved_iblock s) = bitmap_size_in_bits s"
    and sz: "bitmap_size_in_bits s < 2 ^ 31" using inv by (simp_all add: snap_inv_def)
  have d: "?ch \<subseteq> bits (moved_iblock s) \<or> ?ch \<inter> bits (moved_iblock s) = {}" using inv p unfolding snap_inv_def by blast
  show e: "?e + chunk_size g x \<le> bitmap_size_in_bits s" using pl p by (simp add: placed_ok_def)
  have "0 < chunk_size g x" "bitmap_size_in_bits s < 2 ^ 32" using sz by simp_all
  then show len: "?e < length (moved_iblock s)" "?e < 2 ^ 32" using l e by linarith+
  have "?e \<in> ?ch" by (simp add: chunk_def)
  then show "first_move g s x i \<longleftrightarrow> ?ch \<inter> bits (moved_iblock s) = {}" "\<not> first_move g s x i \<longleftrightarrow> ?ch \<subseteq> bits (moved_iblock s)"
    using d len(1) by (auto simp: first_move_def bits_def)
qed

text \<open>The first change of a part in a transaction moves it, every later one leaves it there.\<close>

lemma add_chunk_ok:
  assumes inv: "snap_inv g s C" and x: "special_file x" and fl: "snap_flags s = 0"
    and i: "i = GET_TABLE_INDEX g x page" "i \<le> VDFS2_LAST_TABLE_INDEX (base_t s) x"
    and f: "first_move g s x i \<Longrightarrow> \<exists>q. free_area (snapshot_bitmap s) (bitmap_size_in_bits s) (chunk_size g x) (chunk_size g x) q"
  shows "\<exists>s'. vdfs2_add_chunk_no_lock g s x page = Ok s' \<and> snap_inv g s' C \<and> parts (base_t s') = parts (base_t s) \<and> snap_flags s' = 0 \<and>
    chunk g (base_t s') x i \<subseteq> bits (moved_iblock s') \<and>
    (\<forall>y j. (y, j) \<in> parts (base_t s) \<longrightarrow> (y, j) \<noteq> (x, i) \<longrightarrow> entry (base_t s') y j = entry (base_t s) y j) \<and>
    (if first_move g s x i then chunk g (base_t s') x i \<inter> (C \<union> all_chunks g (base_t s)) = {} else s' = s)"
proof -
  let ?t = "base_t s" and ?n = "chunk_size g x"
  have p: "(x, i) \<in> parts ?t" using x i(2) by (simp add: parts_def)
  note pf = part_facts [OF inv p]
  have lay: "layout_ok ?t" and len: "length (snapshot_bitmap s) = bitmap_size_in_bits s" "length (next_snapshot_bitmap s) = bitmap_size_in_bits s"
    "length (moved_iblock s) = bitmap_size_in_bits s" "bitmap_size_in_bits s < 2 ^ 31"
    and sb: "bits (snapshot_bitmap s) = C \<union> all_chunks g ?t" using inv by (auto simp: snap_inv_def)
  have gm: "vdfs2_get_meta_iblock g s x page = Ok (entry ?t x i)"
    using i table_get_ok [OF lay p] by (simp add: vdfs2_get_meta_iblock_def)
  have nb: "\<not> length (moved_iblock s) \<le> entry ?t x i" using pf(1) by simp
  show ?thesis
  proof (cases "first_move g s x i")
    case False
    then have "vdfs2_add_chunk_no_lock g s x page = Ok s"
      using x fl gm nb by (simp add: vdfs2_add_chunk_no_lock_def first_move_def)
    then show ?thesis using inv pf(5) False fl by simp
  next
    case True
    from new_iblock_ok [OF len f [OF True]] obtain q s1 where q: "get_new_meta_iblock g s x = Ok (q, s1)"
      "q + ?n \<le> bitmap_size_in_bits s" "?n dvd q" "{q..<q + ?n} \<inter> bits (snapshot_bitmap s) = {}"
      "bits (snapshot_bitmap s1) = bits (snapshot_bitmap s) \<union> {q..<q + ?n}"
      "bits (next_snapshot_bitmap s1) = bits (next_snapshot_bitmap s) \<union> {q..<q + ?n}"
      "bits (moved_iblock s1) = bits (moved_iblock s) \<union> {q..<q + ?n}"
      "length (snapshot_bitmap s1) = bitmap_size_in_bits s" "length (next_snapshot_bitmap s1) = bitmap_size_in_bits s"
      "length (moved_iblock s1) = bitmap_size_in_bits s"
      "\<exists>b1 b2 b3 h1 h2. s1 = s\<lparr>snapshot_bitmap := b1, next_snapshot_bitmap := b2, moved_iblock := b3, hint_btree := h1, hint_bitmaps := h2\<rparr>" .
    have s1: "base_t s1 = ?t" "bitmap_size_in_bits s1 = bitmap_size_in_bits s" "snap_flags s1 = 0" using q(11) fl by auto
    obtain b where b: "bitmap_clear (next_snapshot_bitmap s1) (entry ?t x i) ?n = Ok b" "length b = bitmap_size_in_bits s"
        "bits b = bits (next_snapshot_bitmap s1) - {entry ?t x i..<entry ?t x i + ?n}"
      using bitmap_clear_ok [of "entry ?t x i" ?n "next_snapshot_bitmap s1"] pf(2,3) q(9) by auto
    have "q < 2 ^ 31" using q(2) len(4) by linarith
    then have q64: "q < 2 ^ 64" by simp
    obtain t' where t': "table_set ?t x i q = Ok t'" "same_head ?t t'" "entry t' x i = q"
        "\<And>y j. (y, j) \<in> parts ?t \<Longrightarrow> (y, j) \<noteq> (x, i) \<Longrightarrow> entry t' y j = entry ?t y j"
      using table_set_ok [OF lay p q64] by metis
    let ?s2 = "s1\<lparr>next_snapshot_bitmap := b, base_t := t'\<rparr>"
    have mv: "move_iblock g s x (entry ?t x i) page = Ok (q, ?s2)"
      using i q(1) b(1) t'(1) s1(1) by (simp add: move_iblock_def Let_def)
    have al: "\<not> (is_tree x \<and> q mod 2 ^ log_blocks_in_leb g \<noteq> 0)" using q(3) by (auto simp: chunk_size_def mod_eq_0_iff_dvd)
    let ?s3 = "update_extended_table g ?s2 x page q"
    let ?s4 = "?s3\<lparr>dirty_pages_count := (dirty_pages_count ?s3 + (if is_tree x then 2 ^ log_blocks_in_leb g else 1)) mod 2 ^ 32\<rparr>"
    have run: "vdfs2_add_chunk_no_lock g s x page = Ok ?s4"
      using x fl gm nb True mv al by (simp add: vdfs2_add_chunk_no_lock_def first_move_def Let_def)
    have um: "chunk g ?t x i \<inter> bits (moved_iblock s) = {}" using True pf(4) by simp
    have inv2: "snap_inv g ?s2 C"
      by (rule snap_inv_move [OF inv p um q(2,3) refl q(4)]) (use t' q(5-10) b s1 in \<open>simp_all add: chunk_def\<close>)
    have inv4: "snap_inv g ?s4 C" using inv2 by (subst snap_inv_cong [of _ ?s2]) simp_all
    have ch: "chunk g t' x i = {q..<q + ?n}" using t'(3) by (simp add: chunk_def)
    have fresh: "chunk g t' x i \<inter> (C \<union> all_chunks g ?t) = {}" using ch q(4) sb by simp
    have mvd: "chunk g t' x i \<subseteq> bits (moved_iblock s1)" using ch q(7) by auto
    have pe: "parts t' = parts ?t" by (rule same_head_layout(2) [OF t'(2)])
    show ?thesis
      by (rule exI [of _ ?s4]) (use run inv4 True fresh mvd pe t'(4) s1(3) in simp)
  qed
qed

lemma commit_inv:
  assumes "snap_inv g s C"
  shows "snap_inv g (vdfs2_update_bitmaps s) (bits (next_snapshot_bitmap s))"
proof -
  have "bits (replicate n False) = {}" for n by (auto simp: bits_def)
  moreover have "chunk g (base_t s) x i \<subseteq> all_chunks g (base_t s)" if "(x, i) \<in> parts (base_t s)" for x i
    using that unfolding all_chunks_def by blast
  ultimately show ?thesis using assms by (auto simp: snap_inv_def vdfs2_update_bitmaps_def)
qed

end
