(* ===== verification/Snapshot_Expand.thy ===== *)
theory Snapshot_Expand
  imports Snapshot_Inv
begin

text \<open>
  A metadata file grows: its translation table gets more entries, so the tables behind it
  are moved up in the base table, and when the metadata area or the area of the tables is too
  small it gets another extent from the free-space manager.
\<close>

section \<open>More entries in a table\<close>

fun shift_offsets :: "nat \<Rightarrow> nat \<Rightarrow> nat list \<Rightarrow> u8 list \<Rightarrow> u8 list" where
  "shift_offsets x add_size [] t = t"
| "shift_offsets x add_size (y # ys) t =
     shift_offsets x add_size ys
       (if VDFS2_GET_TABLE_OFFSET t y \<le> VDFS2_GET_TABLE_OFFSET t x then t
        else wr 4 t (72 + 4 * VDFS2_SF_INDEX y) (VDFS2_GET_TABLE_OFFSET t y + add_size))"

fun new_entries :: "sb_geometry \<Rightarrow> nat \<Rightarrow> nat \<Rightarrow> nat \<Rightarrow> nat \<Rightarrow> vdfs2_snapshot_info \<Rightarrow> vdfs2_snapshot_info result" where
  "new_entries g x table i 0 s = Ok s"
| "new_entries g x table i (Suc n) s =
     and_then (get_new_meta_iblock g s x) (\<lambda>(p, s1).
       if length (base_t s1) < table + 8 * i + 8 then Bug
       else new_entries g x table (i + 1) n (s1\<lparr>base_t := wr 8 (base_t s1) (table + 8 * i) p\<rparr>))"

definition insert_new_iblocks :: "sb_geometry \<Rightarrow> vdfs2_snapshot_info \<Rightarrow> nat \<Rightarrow> nat \<Rightarrow> vdfs2_snapshot_info result" where
  "insert_new_iblocks g s x new_last =
     (let t = base_t s; last_table_index = VDFS2_LAST_TABLE_INDEX t x; table = VDFS2_GET_TABLE_OFFSET t x;
          src = table + 8 * (last_table_index + 1); n = new_last - last_table_index; add_size = 8 * n;
          len = checksum_offset t - src in
      if new_last < last_table_index \<or> checksum_offset t < src \<or> length t < src + add_size + len then Bug
      else
        (let t1 = memmove t (src + add_size) src len; t2 = shift_offsets x add_size special_files t1;
             t3 = wr 4 t2 12 (checksum_offset t2 + add_size) in
         and_then (new_entries g x table (last_table_index + 1) n (s\<lparr>base_t := t3\<rparr>)) (\<lambda>s1.
           Ok (s1\<lparr>base_t := wr 8 (base_t s1) (16 + 8 * VDFS2_SF_INDEX x) (new_last mod 2 ^ 32),
             dirty_pages_count := (dirty_pages_count s1 + (if is_tree x then 2 ^ log_blocks_in_leb g * n else n)) mod 2 ^ 32\<rparr>))))"

section \<open>The tables after the move\<close>

lemma table_offsets_ok:
  assumes "BASE_TABLE_SIZE \<le> length t" "\<And>y. y \<in> set ys \<Longrightarrow> special_file y" "distinct ys" "special_file x"
    "\<And>y. y \<in> set ys \<Longrightarrow> VDFS2_GET_TABLE_OFFSET t y + add_size < 2 ^ 32"
  shows "length (shift_offsets x add_size ys t) = length t \<and>
    (\<forall>q n. q + n \<le> 72 \<or> BASE_TABLE_SIZE \<le> q \<longrightarrow> q + n \<le> length t \<longrightarrow> rng (shift_offsets x add_size ys t) q n = rng t q n) \<and>
    (\<forall>y. special_file y \<longrightarrow> VDFS2_GET_TABLE_OFFSET (shift_offsets x add_size ys t) y =
       (if y \<in> set ys \<and> VDFS2_GET_TABLE_OFFSET t x < VDFS2_GET_TABLE_OFFSET t y then VDFS2_GET_TABLE_OFFSET t y + add_size
        else VDFS2_GET_TABLE_OFFSET t y))"
  using assms
proof (induction ys arbitrary: t)
  case (Cons y ys)
  let ?a = "72 + 4 * VDFS2_SF_INDEX y"
  define u where "u = (if VDFS2_GET_TABLE_OFFSET t y \<le> VDFS2_GET_TABLE_OFFSET t x then t else wr 4 t ?a (VDFS2_GET_TABLE_OFFSET t y + add_size))"
  have y: "special_file y" using Cons.prems(2) by simp
  have ya: "?a + 4 \<le> 100" using special_fields(2) [OF y] by simp
  have lt: "100 \<le> length t" using Cons.prems(1) by (simp add: BASE_TABLE_SIZE_def)
  have lu: "length u = length t" using ya lt by (simp add: u_def)
  have ru: "rng u q n = rng t q n" if "q + n \<le> 72 \<or> BASE_TABLE_SIZE \<le> q" "q + n \<le> length t" for q n
    using that ya lt by (auto simp: u_def BASE_TABLE_SIZE_def intro!: rng_wr_other)
  have inj: "z = w" if "special_file z" "special_file w" "VDFS2_SF_INDEX z = VDFS2_SF_INDEX w" for z w
    using that by (auto simp: special_file_def VDFS2_SF_INDEX_def VDFS2_FSFILE_def)
  have ou: "VDFS2_GET_TABLE_OFFSET u z =
      (if z = y \<and> VDFS2_GET_TABLE_OFFSET t x < VDFS2_GET_TABLE_OFFSET t y then VDFS2_GET_TABLE_OFFSET t y + add_size else VDFS2_GET_TABLE_OFFSET t z)"
    if z: "special_file z" for z
  proof (cases "z = y")
    case True
    then show ?thesis using ya lt Cons.prems(5) [of y] by (auto simp: u_def VDFS2_GET_TABLE_OFFSET_def rd_wr_same)
  next
    case False
    then have "VDFS2_SF_INDEX z \<noteq> VDFS2_SF_INDEX y" using inj [OF z y] by blast
    then have "rd 4 (wr 4 t ?a v) (72 + 4 * VDFS2_SF_INDEX z) = rd 4 t (72 + 4 * VDFS2_SF_INDEX z)" for v
      using ya lt special_fields(2) [OF z] by (intro rd_wr_other) linarith+
    then show ?thesis using False by (simp add: u_def VDFS2_GET_TABLE_OFFSET_def)
  qed
  have ox: "VDFS2_GET_TABLE_OFFSET u x = VDFS2_GET_TABLE_OFFSET t x" using ou [OF Cons.prems(4)] by auto
  have IH: "length (shift_offsets x add_size ys u) = length u \<and>
    (\<forall>q n. q + n \<le> 72 \<or> BASE_TABLE_SIZE \<le> q \<longrightarrow> q + n \<le> length u \<longrightarrow> rng (shift_offsets x add_size ys u) q n = rng u q n) \<and>
    (\<forall>y. special_file y \<longrightarrow> VDFS2_GET_TABLE_OFFSET (shift_offsets x add_size ys u) y =
       (if y \<in> set ys \<and> VDFS2_GET_TABLE_OFFSET u x < VDFS2_GET_TABLE_OFFSET u y then VDFS2_GET_TABLE_OFFSET u y + add_size
        else VDFS2_GET_TABLE_OFFSET u y))"
  proof (rule Cons.IH)
    show "VDFS2_GET_TABLE_OFFSET u z + add_size < 2 ^ 32" if "z \<in> set ys" for z
      using that Cons.prems(2,3,5) ou [of z] by auto
  qed (use Cons.prems lu in auto)
  have e: "shift_offsets x add_size (y # ys) t = shift_offsets x add_size ys u" by (simp add: u_def)
  have "VDFS2_GET_TABLE_OFFSET (shift_offsets x add_size ys u) z =
      (if z \<in> set (y # ys) \<and> VDFS2_GET_TABLE_OFFSET t x < VDFS2_GET_TABLE_OFFSET t z then VDFS2_GET_TABLE_OFFSET t z + add_size
       else VDFS2_GET_TABLE_OFFSET t z)" if z: "special_file z" for z
    using IH [THEN conjunct2, THEN conjunct2, rule_format, OF z] ou [OF z] ox Cons.prems(3) by auto
  then show ?case unfolding e using IH lu ru by simp
qed simp

text \<open>The base table when the tables behind the one of \<open>x\<close> have been moved up by \<open>n\<close> entries.\<close>

definition moved_tables :: "u8 list \<Rightarrow> nat \<Rightarrow> nat \<Rightarrow> u8 list" where
  "moved_tables t x n =
     (let src = table_end t x; t2 = shift_offsets x (8 * n) special_files (memmove t (src + 8 * n) src (checksum_offset t - src)) in
      wr 4 t2 12 (checksum_offset t2 + 8 * n))"

lemma special_files_set: "y \<in> set special_files \<longleftrightarrow> special_file y" "distinct special_files"
  by (auto simp: special_files_def special_file_def)

lemma moved_tables_ok:
  assumes lay: "layout_ok t" and x: "special_file x" and room: "checksum_offset t + 8 * n + CRC32_SIZE \<le> length t" "length t < 2 ^ 32"
  defines "u \<equiv> moved_tables t x n"
  shows "length u = length t" "checksum_offset u = checksum_offset t + 8 * n" "\<And>y. special_file y \<Longrightarrow> VDFS2_LAST_TABLE_INDEX u y = VDFS2_LAST_TABLE_INDEX t y"
    "\<And>y. special_file y \<Longrightarrow> VDFS2_GET_TABLE_OFFSET u y =
       (if table_end t x \<le> VDFS2_GET_TABLE_OFFSET t y then VDFS2_GET_TABLE_OFFSET t y + 8 * n else VDFS2_GET_TABLE_OFFSET t y)"
    "\<And>y j. (y, j) \<in> parts t \<Longrightarrow> entry u y j = entry t y j"
proof -
  define src where "src = table_end t x"
  define t1 where "t1 = memmove t (src + 8 * n) src (checksum_offset t - src)"
  define t2 where "t2 = shift_offsets x (8 * n) special_files t1"
  have u: "u = wr 4 t2 12 (checksum_offset t2 + 8 * n)" by (simp add: u_def moved_tables_def Let_def src_def t1_def t2_def)
  have sx: "BASE_TABLE_SIZE \<le> VDFS2_GET_TABLE_OFFSET t x" "src \<le> checksum_offset t" using lay x by (simp_all add: layout_ok_def src_def)
  have s100: "100 \<le> src" using sx by (simp add: src_def table_end_def table_addr_def BASE_TABLE_SIZE_def)
  have l1: "length t1 = length t" using room sx by (simp add: t1_def)
  have low: "rng t1 q w = rng t q w" if "q + w \<le> src + 8 * n" "q + w \<le> length t" for q w
    using that room sx unfolding t1_def by (intro rng_memmove_other) simp_all
  have high: "rng t1 (q + 8 * n) w = rng t q w" if "src \<le> q" "q + w \<le> checksum_offset t" for q w
    using rng_memmove_dst [of "src + 8 * n" "checksum_offset t - src" t src "q - src" w] that room sx unfolding t1_def by (simp add: algebra_simps)
  have off1: "VDFS2_GET_TABLE_OFFSET t1 y = VDFS2_GET_TABLE_OFFSET t y" if "special_file y" for y
    using low [of "72 + 4 * VDFS2_SF_INDEX y" 4] special_fields(2) [OF that] s100 room sx by (simp add: VDFS2_GET_TABLE_OFFSET_def rd_def)
  have bnd: "VDFS2_GET_TABLE_OFFSET t y + 8 * n < 2 ^ 32" if "special_file y" for y
  proof -
    have "table_end t y \<le> checksum_offset t" using lay that by (simp add: layout_ok_def)
    moreover have "VDFS2_GET_TABLE_OFFSET t y \<le> table_end t y" by (simp add: table_end_def table_addr_def)
    ultimately show ?thesis using room by linarith
  qed
  have b1: "BASE_TABLE_SIZE \<le> length t1" using l1 s100 sx(2) room(1) by (simp add: BASE_TABLE_SIZE_def)
  note sh = table_offsets_ok [of t1 special_files x "8 * n", OF b1 _ special_files_set(2) x, folded t2_def, unfolded special_files_set(1) l1]
  have sh1: "length t2 = length t" "\<And>q w. q + w \<le> 72 \<or> BASE_TABLE_SIZE \<le> q \<Longrightarrow> q + w \<le> length t \<Longrightarrow> rng t2 q w = rng t1 q w"
    "\<And>y. special_file y \<Longrightarrow> VDFS2_GET_TABLE_OFFSET t2 y = (if VDFS2_GET_TABLE_OFFSET t x < VDFS2_GET_TABLE_OFFSET t y
      then VDFS2_GET_TABLE_OFFSET t y + 8 * n else VDFS2_GET_TABLE_OFFSET t y)"
    using sh off1 bnd x by auto
  have lt: "100 \<le> length t" using b1 l1 by (simp add: BASE_TABLE_SIZE_def)
  have ru: "rng u q w = rng t2 q w" if "q + w \<le> 12 \<or> 16 \<le> q" "q + w \<le> length t" for q w
    unfolding u using that sh1(1) lt by (intro rng_wr_other) auto
  show "length u = length t" using sh1(1) lt by (simp add: u)
  have c2: "checksum_offset t2 = checksum_offset t" using sh1(2) [of 12 4] low [of 12 4] s100 lt by (simp add: checksum_offset_def rd_def)
  have "rd 4 u 12 = (checksum_offset t2 + 8 * n) mod 256 ^ 4" unfolding u using sh1(1) lt by (intro rd_wr_same) simp
  then show "checksum_offset u = checksum_offset t + 8 * n" using c2 room by (simp add: checksum_offset_def)
  show "VDFS2_LAST_TABLE_INDEX u y = VDFS2_LAST_TABLE_INDEX t y" if y: "special_file y" for y
    using ru [of "16 + 8 * VDFS2_SF_INDEX y" 8] sh1(2) [of "16 + 8 * VDFS2_SF_INDEX y" 8] low [of "16 + 8 * VDFS2_SF_INDEX y" 8]
      special_fields(1) [OF y] s100 lt by (simp add: VDFS2_LAST_TABLE_INDEX_def rd_def)
  have offu: "VDFS2_GET_TABLE_OFFSET u y = (if src \<le> VDFS2_GET_TABLE_OFFSET t y then VDFS2_GET_TABLE_OFFSET t y + 8 * n else VDFS2_GET_TABLE_OFFSET t y)"
    if y: "special_file y" for y
  proof -
    have o: "VDFS2_GET_TABLE_OFFSET u y = VDFS2_GET_TABLE_OFFSET t2 y"
      using ru [of "72 + 4 * VDFS2_SF_INDEX y" 4] special_fields(2) [OF y] lt by (simp add: VDFS2_GET_TABLE_OFFSET_def rd_def)
    have xs: "VDFS2_GET_TABLE_OFFSET t x < src" by (simp add: src_def table_end_def table_addr_def)
    have "VDFS2_GET_TABLE_OFFSET t x < VDFS2_GET_TABLE_OFFSET t y \<longleftrightarrow> src \<le> VDFS2_GET_TABLE_OFFSET t y"
    proof (cases "y = x")
      case False
      then have "src \<le> VDFS2_GET_TABLE_OFFSET t y \<or> table_end t y \<le> VDFS2_GET_TABLE_OFFSET t x"
        using lay x y unfolding layout_ok_def src_def by metis
      moreover have "VDFS2_GET_TABLE_OFFSET t y < table_end t y" by (simp add: table_end_def table_addr_def)
      ultimately show ?thesis using xs by linarith
    qed (use xs in simp)
    then show ?thesis using o sh1(3) [OF y] by simp
  qed
  then show "VDFS2_GET_TABLE_OFFSET u y =
      (if table_end t x \<le> VDFS2_GET_TABLE_OFFSET t y then VDFS2_GET_TABLE_OFFSET t y + 8 * n else VDFS2_GET_TABLE_OFFSET t y)"
    if "special_file y" for y using that by (simp add: src_def)
  show "entry u y j = entry t y j" if p: "(y, j) \<in> parts t" for y j
  proof -
    have y: "special_file y" "j \<le> VDFS2_LAST_TABLE_INDEX t y" using p by (simp_all add: parts_def)
    let ?a = "table_addr t y j"
    note a = part_addr [OF lay p]
    show ?thesis
    proof (cases "src \<le> VDFS2_GET_TABLE_OFFSET t y")
      case True
      have au: "table_addr u y j = ?a + 8 * n" using offu [OF y(1)] True by (simp add: table_addr_def)
      have sa: "src \<le> ?a" using True by (simp add: table_addr_def)
      have "rng u (?a + 8 * n) 8 = rng t ?a 8"
        using ru [of "?a + 8 * n" 8] sh1(2) [of "?a + 8 * n" 8] high [OF sa, of 8] a room s100 sa by (simp add: BASE_TABLE_SIZE_def)
      then show ?thesis by (simp add: entry_def rd_def au)
    next
      case False
      have au: "table_addr u y j = ?a" using offu [OF y(1)] False by (simp add: table_addr_def)
      have ae: "?a + 8 \<le> table_end t y" using y(2) by (simp add: table_addr_def table_end_def)
      have "table_end t y \<le> src"
      proof (cases "y = x")
        case no: False
        then have "src \<le> VDFS2_GET_TABLE_OFFSET t y \<or> table_end t y \<le> VDFS2_GET_TABLE_OFFSET t x"
          using lay x y(1) unfolding layout_ok_def src_def by metis
        moreover have "VDFS2_GET_TABLE_OFFSET t x \<le> src" by (simp add: src_def table_end_def table_addr_def)
        ultimately show ?thesis using False by linarith
      qed (simp add: src_def)
      then have "rng u ?a 8 = rng t ?a 8"
        using ru [of ?a 8] sh1(2) [of ?a 8] low [of ?a 8] a ae by (simp add: BASE_TABLE_SIZE_def)
      then show ?thesis by (simp add: entry_def rd_def au)
    qed
  qed
qed

definition with_last :: "u8 list \<Rightarrow> nat \<Rightarrow> nat \<Rightarrow> u8 list" where
  "with_last t x l = wr 8 t (16 + 8 * VDFS2_SF_INDEX x) l"

lemma with_last_ok:
  assumes x: "special_file x" and l: "BASE_TABLE_SIZE \<le> length t" "l < 2 ^ 64"
  shows "length (with_last t x l) = length t" "checksum_offset (with_last t x l) = checksum_offset t"
    "special_file y \<Longrightarrow> VDFS2_LAST_TABLE_INDEX (with_last t x l) y = (if y = x then l else VDFS2_LAST_TABLE_INDEX t y)"
    "special_file y \<Longrightarrow> VDFS2_GET_TABLE_OFFSET (with_last t x l) y = VDFS2_GET_TABLE_OFFSET t y"
    "BASE_TABLE_SIZE \<le> VDFS2_GET_TABLE_OFFSET t y \<Longrightarrow> special_file y \<Longrightarrow> table_addr t y j + 8 \<le> length t \<Longrightarrow> entry (with_last t x l) y j = entry t y j"
proof -
  let ?a = "16 + 8 * VDFS2_SF_INDEX x"
  have a: "?a + 8 \<le> 72" "100 \<le> length t" using special_fields(1) [OF x] l by (simp_all add: BASE_TABLE_SIZE_def)
  show "length (with_last t x l) = length t" using a by (simp add: with_last_def)
  have r: "rd w (with_last t x l) q = rd w t q" if "q + w \<le> ?a \<or> ?a + 8 \<le> q" "q + w \<le> length t" for q w
    unfolding with_last_def using that a by (intro rd_wr_other) auto
  show "checksum_offset (with_last t x l) = checksum_offset t" using r [of 12 4] a by (simp add: checksum_offset_def)
  show off: "VDFS2_GET_TABLE_OFFSET (with_last t x l) y = VDFS2_GET_TABLE_OFFSET t y" if "special_file y" for y
    using r [of "72 + 4 * VDFS2_SF_INDEX y" 4] a special_fields(2) [OF that] by (simp add: VDFS2_GET_TABLE_OFFSET_def)
  show "VDFS2_LAST_TABLE_INDEX (with_last t x l) y = (if y = x then l else VDFS2_LAST_TABLE_INDEX t y)" if y: "special_file y"
  proof (cases "y = x")
    case True
    then show ?thesis using a l(2) by (simp add: VDFS2_LAST_TABLE_INDEX_def with_last_def rd_wr_same)
  next
    case False
    then have "VDFS2_SF_INDEX y \<noteq> VDFS2_SF_INDEX x" using x y by (auto simp: special_file_def VDFS2_SF_INDEX_def VDFS2_FSFILE_def)
    then have "16 + 8 * VDFS2_SF_INDEX y + 8 \<le> ?a \<or> ?a + 8 \<le> 16 + 8 * VDFS2_SF_INDEX y" by linarith
    then show ?thesis using False r [of "16 + 8 * VDFS2_SF_INDEX y" 8] a special_fields(1) [OF y] by (simp add: VDFS2_LAST_TABLE_INDEX_def)
  qed
  show "entry (with_last t x l) y j = entry t y j"
    if "BASE_TABLE_SIZE \<le> VDFS2_GET_TABLE_OFFSET t y" "special_file y" "table_addr t y j + 8 \<le> length t"
    using r [of "table_addr t y j" 8] a that off [OF that(2)] by (simp add: entry_def table_addr_def BASE_TABLE_SIZE_def)
qed

lemma grown_layout:
  assumes lay: "layout_ok t" and x: "special_file x" and room: "checksum_offset t + 8 * n + CRC32_SIZE \<le> length t" "length t < 2 ^ 32"
  defines "l \<equiv> VDFS2_LAST_TABLE_INDEX t x + n"
  defines "u \<equiv> with_last (moved_tables t x n) x l"
  shows "layout_ok u" "length u = length t" "VDFS2_GET_TABLE_OFFSET u x = VDFS2_GET_TABLE_OFFSET t x"
    "parts u = parts t \<union> {x} \<times> {VDFS2_LAST_TABLE_INDEX t x + 1..<VDFS2_LAST_TABLE_INDEX t x + 1 + n}"
    "\<And>y j. (y, j) \<in> parts t \<Longrightarrow> entry u y j = entry t y j"
proof -
  note m = moved_tables_ok [OF lay x room]
  let ?m = "moved_tables t x n"
  have te: "table_end t y \<le> checksum_offset t" "BASE_TABLE_SIZE \<le> VDFS2_GET_TABLE_OFFSET t y" if "special_file y" for y
    using lay that by (simp_all add: layout_ok_def)
  have "8 * (VDFS2_LAST_TABLE_INDEX t x + 1) \<le> checksum_offset t" using te(1) [OF x] by (simp add: table_end_def table_addr_def)
  then have l64: "l < 2 ^ 64" using room by (simp add: l_def)
  have b: "BASE_TABLE_SIZE \<le> length ?m"
  proof -
    have "VDFS2_GET_TABLE_OFFSET t x \<le> table_end t x" by (simp add: table_end_def table_addr_def)
    then show ?thesis using te [OF x] room m(1) by linarith
  qed
  note w = with_last_ok [OF x b l64, folded u_def]
  have off: "VDFS2_GET_TABLE_OFFSET u y =
      (if table_end t x \<le> VDFS2_GET_TABLE_OFFSET t y then VDFS2_GET_TABLE_OFFSET t y + 8 * n else VDFS2_GET_TABLE_OFFSET t y)"
    if "special_file y" for y using w(4) [OF that] m(4) [OF that] by simp
  have last: "VDFS2_LAST_TABLE_INDEX u y = (if y = x then l else VDFS2_LAST_TABLE_INDEX t y)" if "special_file y" for y
    using w(3) [OF that] m(3) [OF that] by simp
  have xs: "\<not> table_end t x \<le> VDFS2_GET_TABLE_OFFSET t x" by (simp add: table_end_def table_addr_def)
  show ox: "VDFS2_GET_TABLE_OFFSET u x = VDFS2_GET_TABLE_OFFSET t x" using off [OF x] xs by simp
  have endx: "table_end u x = table_end t x + 8 * n" using ox last [OF x] by (simp add: table_end_def table_addr_def l_def)
  have endy: "table_end u y = (if table_end t x \<le> VDFS2_GET_TABLE_OFFSET t y then table_end t y + 8 * n else table_end t y)"
    if "special_file y" "y \<noteq> x" for y using off [OF that(1)] last [OF that(1)] that(2) by (simp add: table_end_def table_addr_def)
  show len: "length u = length t" using w(1) m(1) by simp
  have cs: "checksum_offset u = checksum_offset t + 8 * n" using w(2) m(2) by simp
  have apart: "table_end t x \<le> VDFS2_GET_TABLE_OFFSET t y \<or> table_end t y \<le> VDFS2_GET_TABLE_OFFSET t x"
    if "special_file x" "special_file y" "x \<noteq> y" for x y using lay that by (simp add: layout_ok_def)
  have lt: "VDFS2_GET_TABLE_OFFSET t y < table_end t y" for y by (simp add: table_end_def table_addr_def)
  show "layout_ok u"
    unfolding layout_ok_def
  proof (intro conjI allI impI)
    show "checksum_offset u + CRC32_SIZE \<le> length u" using cs len room by simp
    fix y assume y: "special_file y"
    show "BASE_TABLE_SIZE \<le> VDFS2_GET_TABLE_OFFSET u y" using off [OF y] te(2) [OF y] by auto
    show "table_end u y \<le> checksum_offset u" using te(1) [OF y] endx endy [OF y] cs by (cases "y = x") auto
    fix z assume z: "special_file z" "y \<noteq> z"
    show "table_end u y \<le> VDFS2_GET_TABLE_OFFSET u z \<or> table_end u z \<le> VDFS2_GET_TABLE_OFFSET u y"
    proof (cases "y = x")
      case True
      have "VDFS2_GET_TABLE_OFFSET t x < table_end t x" by (rule lt)
      then show ?thesis using True apart [OF y z] endx endy [OF z(1)] off [OF z(1)] ox z lt [of z] by auto
    next
      case no: False
      show ?thesis
      proof (cases "z = x")
        case True
        then show ?thesis using apart [OF y z] endx endy [OF y no] off [OF y] ox lt [of y] lt [of x] by auto
      next
        case False
        then show ?thesis using apart [OF y z] endy [OF y no] endy [OF z(1) False] off [OF y] off [OF z(1)]
            apart [OF x y] apart [OF x z(1)] no lt [of y] lt [of z] by auto
      qed
    qed
  qed
  show "parts u = parts t \<union> {x} \<times> {VDFS2_LAST_TABLE_INDEX t x + 1..<VDFS2_LAST_TABLE_INDEX t x + 1 + n}"
    using last x by (auto simp: parts_def l_def split: if_splits)
  show "entry u y j = entry t y j" if p: "(y, j) \<in> parts t" for y j
  proof -
    have y: "special_file y" "j \<le> VDFS2_LAST_TABLE_INDEX t y" using p by (simp_all add: parts_def)
    have a: "table_addr ?m y j \<le> table_addr t y j + 8 * n" using m(4) [OF y(1)] by (simp add: table_addr_def)
    have "BASE_TABLE_SIZE \<le> VDFS2_GET_TABLE_OFFSET ?m y" using m(4) [OF y(1)] te(2) [OF y(1)] by simp
    moreover have "table_addr ?m y j + 8 \<le> length ?m" using a part_addr(2) [OF lay p] room m(1) by simp
    ultimately show ?thesis using w(5) [OF _ y(1)] m(5) [OF p] by simp
  qed
qed

section \<open>The new entries\<close>

text \<open>The invariant for a set of parts, with the bits of the three bitmaps.\<close>

definition space_ok :: "sb_geometry \<Rightarrow> nat \<Rightarrow> u8 list \<Rightarrow> (nat \<times> nat) set \<Rightarrow> vdfs2_snapshot_info \<Rightarrow> nat set \<Rightarrow> bool" where
  "space_ok g n t Q s C \<longleftrightarrow>
     (\<forall>x i. (x, i) \<in> Q \<longrightarrow> entry t x i + chunk_size g x \<le> n \<and> chunk_size g x dvd entry t x i) \<and>
     (\<forall>x i y j. (x, i) \<in> Q \<longrightarrow> (y, j) \<in> Q \<longrightarrow> (x, i) \<noteq> (y, j) \<longrightarrow> chunk g t x i \<inter> chunk g t y j = {}) \<and>
     bits (next_snapshot_bitmap s) = (\<Union>(x, i)\<in>Q. chunk g t x i) \<and>
     bits (snapshot_bitmap s) = C \<union> bits (next_snapshot_bitmap s) \<and> bits (moved_iblock s) \<inter> C = {} \<and>
     (\<forall>x i. (x, i) \<in> Q \<longrightarrow> chunk g t x i \<subseteq> bits (moved_iblock s) \<or> chunk g t x i \<inter> bits (moved_iblock s) = {} \<and> chunk g t x i \<subseteq> C)"

definition lengths_ok :: "vdfs2_snapshot_info \<Rightarrow> bool" where
  "lengths_ok s \<longleftrightarrow>
     length (snapshot_bitmap s) = bitmap_size_in_bits s \<and> length (next_snapshot_bitmap s) = bitmap_size_in_bits s \<and>
     length (moved_iblock s) = bitmap_size_in_bits s \<and> bitmap_size_in_bits s < 2 ^ 31"

lemma snap_inv_space:
  "snap_inv g s C \<longleftrightarrow> layout_ok (base_t s) \<and> lengths_ok s \<and> space_ok g (bitmap_size_in_bits s) (base_t s) (parts (base_t s)) s C"
  unfolding snap_inv_def space_ok_def lengths_ok_def placed_ok_def all_chunks_def by (rule iffI; elim conjE; intro conjI; assumption)

lemma space_cong:
  assumes "\<And>x i. (x, i) \<in> Q \<Longrightarrow> entry t' x i = entry t x i" and sp: "space_ok g n t Q s C"
  shows "space_ok g n t' Q s C"
proof -
  have e: "entry t' x i = entry t x i" "chunk g t' x i = chunk g t x i" if "(x, i) \<in> Q" for x i using assms(1) [OF that] by (simp_all add: chunk_def)
  have U: "(\<Union>(x, i)\<in>Q. chunk g t' x i) = (\<Union>(x, i)\<in>Q. chunk g t x i)" using e by fastforce
  note S = sp [unfolded space_ok_def]
  show ?thesis
    unfolding space_ok_def U
  proof (intro conjI allI impI)
    fix x i assume x: "(x, i) \<in> Q"
    show "entry t' x i + chunk_size g x \<le> n" "chunk_size g x dvd entry t' x i"
      "chunk g t' x i \<subseteq> bits (moved_iblock s) \<or> chunk g t' x i \<inter> bits (moved_iblock s) = {} \<and> chunk g t' x i \<subseteq> C"
      unfolding e [OF x] by (insert S x, elim conjE, simp)+
    fix y j assume y: "(y, j) \<in> Q" "(x, i) \<noteq> (y, j)"
    show "chunk g t' x i \<inter> chunk g t' y j = {}" unfolding e(2) [OF x] e(2) [OF y(1)] by (insert S x y, elim conjE, simp)
  qed (insert S, (elim conjE, assumption)+)
qed

lemma space_bits:
  assumes "snapshot_bitmap s' = snapshot_bitmap s" "next_snapshot_bitmap s' = next_snapshot_bitmap s" "moved_iblock s' = moved_iblock s"
  shows "space_ok g n t Q s' C \<longleftrightarrow> space_ok g n t Q s C"
  unfolding space_ok_def assms ..

lemma space_okD:
  assumes "space_ok g n t Q s C"
  shows "(x, i) \<in> Q \<Longrightarrow> entry t x i + chunk_size g x \<le> n" "(x, i) \<in> Q \<Longrightarrow> chunk_size g x dvd entry t x i"
    "(x, i) \<in> Q \<Longrightarrow> (y, j) \<in> Q \<Longrightarrow> (x, i) \<noteq> (y, j) \<Longrightarrow> chunk g t x i \<inter> chunk g t y j = {}"
    "bits (next_snapshot_bitmap s) = (\<Union>(x, i)\<in>Q. chunk g t x i)" "bits (snapshot_bitmap s) = C \<union> bits (next_snapshot_bitmap s)"
    "bits (moved_iblock s) \<inter> C = {}"
    "(x, i) \<in> Q \<Longrightarrow> chunk g t x i \<subseteq> bits (moved_iblock s) \<or> chunk g t x i \<inter> bits (moved_iblock s) = {} \<and> chunk g t x i \<subseteq> C"
  by (insert assms [unfolded space_ok_def], elim conjE, simp)+

lemma space_add:
  assumes sp: "space_ok g n t Q s C" and q: "q + chunk_size g x \<le> n" "chunk_size g x dvd q" "N = {q..<q + chunk_size g x}"
      "N \<inter> bits (snapshot_bitmap s) = {}"
    and e: "entry t' x i = q" "\<And>y j. (y, j) \<in> Q \<Longrightarrow> entry t' y j = entry t y j" "(x, i) \<notin> Q"
    and b: "bits (snapshot_bitmap s') = bits (snapshot_bitmap s) \<union> N" "bits (moved_iblock s') = bits (moved_iblock s) \<union> N"
      "bits (next_snapshot_bitmap s') = bits (next_snapshot_bitmap s) \<union> N"
  shows "space_ok g n t' (insert (x, i) Q) s' C"
proof -
  have sp': "space_ok g n t' Q s C" by (rule space_cong [OF e(2) sp])
  note S = space_okD [OF sp']
  have cx: "chunk g t' x i = N" using e(1) q(3) by (simp add: chunk_def)
  have sub: "chunk g t' y j \<subseteq> bits (snapshot_bitmap s)" if "(y, j) \<in> Q" for y j using that unfolding S(4,5) by blast
  have NC1: "N \<inter> C = {}" using q(4) unfolding S(5) by blast
  have NC2: "N \<inter> chunk g t' y j = {}" if "(y, j) \<in> Q" for y j using q(4) sub [OF that] by blast
  show ?thesis
    unfolding space_ok_def
  proof (intro conjI allI impI)
    fix y j assume y: "(y, j) \<in> insert (x, i) Q"
    show "entry t' y j + chunk_size g y \<le> n" "chunk_size g y dvd entry t' y j" using y S(1,2) e(1) q(1,2) by auto
    show "chunk g t' y j \<subseteq> bits (moved_iblock s') \<or> chunk g t' y j \<inter> bits (moved_iblock s') = {} \<and> chunk g t' y j \<subseteq> C"
    proof (cases "(y, j) = (x, i)")
      case False
      then have "(y, j) \<in> Q" using y by blast
      from S(7) [OF this] show ?thesis using NC1 b(2) by blast
    qed (use cx b(2) in auto)
    fix z k assume z: "(z, k) \<in> insert (x, i) Q" "(y, j) \<noteq> (z, k)"
    show "chunk g t' y j \<inter> chunk g t' z k = {}"
    proof (cases "(y, j) = (x, i) \<or> (z, k) = (x, i)")
      case True
      then show ?thesis using y z cx NC2 by auto
    next
      case False
      then have "(y, j) \<in> Q" "(z, k) \<in> Q" using y z by auto
      then show ?thesis using S(3) z(2) by blast
    qed
  next
    show "bits (next_snapshot_bitmap s') = (\<Union>(x, i)\<in>insert (x, i) Q. chunk g t' x i)" unfolding b(3) S(4) UN_insert prod.case cx by (rule Un_commute)
    show "bits (snapshot_bitmap s') = C \<union> bits (next_snapshot_bitmap s')" unfolding b S(5) by blast
    show "bits (moved_iblock s') \<inter> C = {}" using S(6) b(2) NC1 by blast
  qed
qed

lemma wr_commute:
  assumes "a + 8 \<le> b" "b + 8 \<le> length t"
  shows "wr 8 (wr 8 t a v) b w = wr 8 (wr 8 t b w) a v"
  using assms by (intro nth_equalityI) (auto simp: wr_def nth_put)

text \<open>Fields the loop does not touch.\<close>

definition rest_same :: "vdfs2_snapshot_info \<Rightarrow> vdfs2_snapshot_info \<Rightarrow> bool" where
  "rest_same s s' \<longleftrightarrow> bitmap_size_in_bits s' = bitmap_size_in_bits s \<and> extended_t s' = extended_t s \<and> use_base_table s' = use_base_table s \<and>
     snap_flags s' = snap_flags s \<and> exteneded_table_count s' = exteneded_table_count s \<and> sync_count s' = sync_count s"

lemma new_entries_ok:
  assumes "lengths_ok s" "special_file x" "layout_ok (with_last (base_t s) x l)"
    "space_ok g (bitmap_size_in_bits s) (with_last (base_t s) x l) Q s C"
    "Q \<subseteq> parts (with_last (base_t s) x l)" "{x} \<times> {i..<i + n} \<subseteq> parts (with_last (base_t s) x l)" "{x} \<times> {i..<i + n} \<inter> Q = {}"
    "BASE_TABLE_SIZE \<le> length (base_t s)" "new_entries g x (VDFS2_GET_TABLE_OFFSET (with_last (base_t s) x l) x) i n s = Ok s'"
  shows "lengths_ok s' \<and> rest_same s s' \<and> same_head (with_last (base_t s) x l) (with_last (base_t s') x l) \<and>
    space_ok g (bitmap_size_in_bits s') (with_last (base_t s') x l) (Q \<union> {x} \<times> {i..<i + n}) s' C \<and>
    (\<forall>y j. (y, j) \<in> Q \<longrightarrow> entry (with_last (base_t s') x l) y j = entry (with_last (base_t s) x l) y j)"
  using assms
proof (induction n arbitrary: i s Q)
  case 0
  then show ?case by (simp add: rest_same_def same_head_def)
next
  case (Suc n)
  let ?u = "with_last (base_t s) x l" and ?n = "chunk_size g x" and ?tab = "VDFS2_GET_TABLE_OFFSET (with_last (base_t s) x l) x"
  have len: "length (snapshot_bitmap s) = bitmap_size_in_bits s" "length (next_snapshot_bitmap s) = bitmap_size_in_bits s"
    "length (moved_iblock s) = bitmap_size_in_bits s" "bitmap_size_in_bits s < 2 ^ 31" using Suc.prems(1) by (simp_all add: lengths_ok_def)
  have "get_new_meta_iblock g s x \<noteq> Bug" using Suc.prems(9) by auto
  then have "\<exists>q. free_area (snapshot_bitmap s) (bitmap_size_in_bits s) ?n ?n q" using no_new_iblock by blast
  from new_iblock_ok [OF len this] obtain q s1 where q: "get_new_meta_iblock g s x = Ok (q, s1)"
      "q + ?n \<le> bitmap_size_in_bits s" "?n dvd q" "{q..<q + ?n} \<inter> bits (snapshot_bitmap s) = {}"
      "bits (snapshot_bitmap s1) = bits (snapshot_bitmap s) \<union> {q..<q + ?n}"
      "bits (next_snapshot_bitmap s1) = bits (next_snapshot_bitmap s) \<union> {q..<q + ?n}"
      "bits (moved_iblock s1) = bits (moved_iblock s) \<union> {q..<q + ?n}"
      "length (snapshot_bitmap s1) = bitmap_size_in_bits s" "length (next_snapshot_bitmap s1) = bitmap_size_in_bits s"
      "length (moved_iblock s1) = bitmap_size_in_bits s"
      "\<exists>b1 b2 b3 h1 h2. s1 = s\<lparr>snapshot_bitmap := b1, next_snapshot_bitmap := b2, moved_iblock := b3, hint_btree := h1, hint_bitmaps := h2\<rparr>" .
  have s1: "base_t s1 = base_t s" "bitmap_size_in_bits s1 = bitmap_size_in_bits s" "rest_same s s1" using q(11) by (auto simp: rest_same_def)
  have "(x, i) \<in> {x} \<times> {i..<i + Suc n}" by simp
  then have p: "(x, i) \<in> parts ?u" "(x, i) \<notin> Q" using Suc.prems(6,7) by blast+
  note a = part_addr [OF Suc.prems(3) p(1)]
  have tab: "?tab + 8 * i = table_addr ?u x i" by (simp add: table_addr_def)
  have fa: "16 + 8 * VDFS2_SF_INDEX x + 8 \<le> 72" by (rule special_fields(1) [OF Suc.prems(2)])
  have lu: "length ?u = length (base_t s)" using Suc.prems(8) fa by (simp add: with_last_def BASE_TABLE_SIZE_def)
  define s2 where "s2 = s1\<lparr>base_t := wr 8 (base_t s) (?tab + 8 * i) q\<rparr>"
  have u2: "with_last (base_t s2) x l = wr 8 ?u (table_addr ?u x i) q"
    unfolding s2_def with_last_def [of "base_t s"] using wr_commute [of "16 + 8 * VDFS2_SF_INDEX x" "table_addr ?u x i" "base_t s" l q] fa a lu tab
    by (simp add: with_last_def BASE_TABLE_SIZE_def)
  have "q < 2 ^ 31" using q(2) len(4) by linarith
  then have q64: "q < 2 ^ 64" by simp
  obtain t' where t': "table_set ?u x i q = Ok t'" "same_head ?u t'" "entry t' x i = q"
      "\<And>y j. (y, j) \<in> parts ?u \<Longrightarrow> (y, j) \<noteq> (x, i) \<Longrightarrow> entry t' y j = entry ?u y j"
    using table_set_ok [OF Suc.prems(3) p(1) q64] by metis
  have t'u: "t' = with_last (base_t s2) x l" using t'(1) a u2 by (simp add: table_set_def)
  note t2 = t'(2-4) [unfolded t'u]
  note h = same_head_layout [OF t2(1)]
  have off: "VDFS2_GET_TABLE_OFFSET (with_last (base_t s2) x l) x = ?tab" using t2(1) Suc.prems(2) by (simp add: same_head_def)
  have eQ: "entry (with_last (base_t s2) x l) y j = entry ?u y j" if "(y, j) \<in> Q" for y j
    using t2(3) [of y j] that Suc.prems(5) p(2) by blast
  have sp2: "space_ok g (bitmap_size_in_bits s2) (with_last (base_t s2) x l) (insert (x, i) Q) s2 C"
    using space_add [OF Suc.prems(4) q(2,3) refl q(4) t2(2) eQ p(2), of s2] q(5-7) s1(2) by (simp add: s2_def)
  have l2: "lengths_ok s2" using q(8-10) len(4) s1(2) by (simp add: lengths_ok_def s2_def)
  have run: "new_entries g x ?tab (i + 1) n s2 = Ok s'"
    using Suc.prems(9) q(1) a tab lu s1(1) by (simp add: s2_def)
  have L: "lengths_ok s' \<and> rest_same s2 s' \<and> same_head (with_last (base_t s2) x l) (with_last (base_t s') x l) \<and>
    space_ok g (bitmap_size_in_bits s') (with_last (base_t s') x l) (insert (x, i) Q \<union> {x} \<times> {i + 1..<i + 1 + n}) s' C \<and>
    (\<forall>y j. (y, j) \<in> insert (x, i) Q \<longrightarrow> entry (with_last (base_t s') x l) y j = entry (with_last (base_t s2) x l) y j)"
  proof (rule Suc.IH [OF l2 Suc.prems(2) _ sp2])
    show "layout_ok (with_last (base_t s2) x l)" using h(1) Suc.prems(3) by simp
    show "insert (x, i) Q \<subseteq> parts (with_last (base_t s2) x l)" using h(2) p(1) Suc.prems(5) by simp
    show "{x} \<times> {i + 1..<i + 1 + n} \<subseteq> parts (with_last (base_t s2) x l)" using h(2) Suc.prems(6) by auto
    have "{i + 1..<i + 1 + n} \<subseteq> {i..<i + Suc n}" by auto
    then have "{x} \<times> {i + 1..<i + 1 + n} \<inter> Q = {}" using Suc.prems(7) by blast
    then show "{x} \<times> {i + 1..<i + 1 + n} \<inter> insert (x, i) Q = {}" by simp
    show "BASE_TABLE_SIZE \<le> length (base_t s2)" using Suc.prems(8) a lu tab by (simp add: s2_def)
    show "new_entries g x (VDFS2_GET_TABLE_OFFSET (with_last (base_t s2) x l) x) (i + 1) n s2 = Ok s'" using run off by simp
  qed
  have set: "insert (x, i) Q \<union> {x} \<times> {i + 1..<i + 1 + n} = Q \<union> {x} \<times> {i..<i + Suc n}" by auto
  have "rest_same s s'" using L s1(3) by (auto simp: rest_same_def s2_def)
  moreover have "same_head ?u (with_last (base_t s') x l)" using L t2(1) by (auto simp: same_head_def)
  moreover have "entry (with_last (base_t s') x l) y j = entry ?u y j" if "(y, j) \<in> Q" for y j using L eQ [OF that] that by simp
  ultimately show ?case using L set by simp
qed

text \<open>A file that has grown: the old parts stay where they are, the new ones get unused blocks.\<close>

lemma insert_new_iblocks_ok:
  assumes inv: "snap_inv g s C" and x: "special_file x" and n: "VDFS2_LAST_TABLE_INDEX (base_t s) x \<le> l" "l < 2 ^ 32"
    and room: "checksum_offset (base_t s) + 8 * (l - VDFS2_LAST_TABLE_INDEX (base_t s) x) + CRC32_SIZE \<le> length (base_t s)" "length (base_t s) < 2 ^ 32"
    and run: "insert_new_iblocks g s x l = Ok s'"
  shows "snap_inv g s' C" "VDFS2_LAST_TABLE_INDEX (base_t s') x = l" "rest_same s s'"
    "\<And>y j. (y, j) \<in> parts (base_t s) \<Longrightarrow> entry (base_t s') y j = entry (base_t s) y j"
    "parts (base_t s') = parts (base_t s) \<union> {x} \<times> {VDFS2_LAST_TABLE_INDEX (base_t s) x + 1..l}"
    "length (base_t s') = length (base_t s)" "checksum_offset (base_t s') = checksum_offset (base_t s) + 8 * (l - VDFS2_LAST_TABLE_INDEX (base_t s) x)"
    "\<And>y. special_file y \<Longrightarrow> y \<noteq> x \<Longrightarrow> VDFS2_LAST_TABLE_INDEX (base_t s') y = VDFS2_LAST_TABLE_INDEX (base_t s) y"
proof -
  let ?t = "base_t s" and ?last = "VDFS2_LAST_TABLE_INDEX (base_t s) x"
  define k where "k = l - ?last"
  define m where "m = moved_tables ?t x k"
  have lay: "layout_ok ?t" and le: "lengths_ok s" and sp: "space_ok g (bitmap_size_in_bits s) ?t (parts ?t) s C"
    using inv by (simp_all add: snap_inv_space)
  have room': "checksum_offset ?t + 8 * k + CRC32_SIZE \<le> length ?t" using room(1) by (simp add: k_def)
  have lk: "?last + k = l" using n(1) by (simp add: k_def)
  note G = grown_layout [OF lay x room' room(2), unfolded lk, folded m_def]
  note M = moved_tables_ok [OF lay x room' room(2), folded m_def]
  have te: "table_end ?t x \<le> checksum_offset ?t" "BASE_TABLE_SIZE \<le> VDFS2_GET_TABLE_OFFSET ?t x" using lay x by (simp_all add: layout_ok_def)
  have src: "VDFS2_GET_TABLE_OFFSET ?t x + 8 * (?last + 1) = table_end ?t x" by (simp add: table_end_def table_addr_def)
  define s0 where "s0 = s\<lparr>base_t := m\<rparr>"
  from run obtain s1 where r1: "new_entries g x (VDFS2_GET_TABLE_OFFSET ?t x) (?last + 1) k s0 = Ok s1"
    and s': "s' = s1\<lparr>base_t := with_last (base_t s1) x (l mod 2 ^ 32),
      dirty_pages_count := (dirty_pages_count s1 + (if is_tree x then 2 ^ log_blocks_in_leb g * k else k)) mod 2 ^ 32\<rparr>"
    unfolding insert_new_iblocks_def Let_def src k_def [symmetric]
    by (cases "new_entries g x (VDFS2_GET_TABLE_OFFSET ?t x) (?last + 1) k s0")
      (auto simp: s0_def m_def moved_tables_def Let_def with_last_def split: if_splits)
  have lm: "l mod 2 ^ 32 = l" using n(2) by simp
  have b0: "base_t s0 = m" "lengths_ok s0" "bitmap_size_in_bits s0 = bitmap_size_in_bits s" using le by (simp_all add: s0_def lengths_ok_def)
  have bm: "BASE_TABLE_SIZE \<le> length m"
  proof -
    have "VDFS2_GET_TABLE_OFFSET ?t x \<le> table_end ?t x" by (simp add: table_end_def table_addr_def)
    then show ?thesis using te room' M(1) by linarith
  qed
  have sp0: "space_ok g (bitmap_size_in_bits s0) (with_last (base_t s0) x l) (parts ?t) s0 C"
  proof -
    have "space_ok g (bitmap_size_in_bits s) (with_last m x l) (parts ?t) s C" by (rule space_cong [OF G(5) sp])
    then show ?thesis using space_bits [of s0 s] by (simp add: s0_def)
  qed
  have new: "{x} \<times> {?last + 1..<?last + 1 + k} \<inter> parts ?t = {}" by (auto simp: parts_def)
  have E: "lengths_ok s1 \<and> rest_same s0 s1 \<and> same_head (with_last (base_t s0) x l) (with_last (base_t s1) x l) \<and>
    space_ok g (bitmap_size_in_bits s1) (with_last (base_t s1) x l) (parts ?t \<union> {x} \<times> {?last + 1..<?last + 1 + k}) s1 C \<and>
    (\<forall>y j. (y, j) \<in> parts ?t \<longrightarrow> entry (with_last (base_t s1) x l) y j = entry (with_last (base_t s0) x l) y j)"
  proof (rule new_entries_ok [OF b0(2) x _ sp0 _ _ new])
    show "layout_ok (with_last (base_t s0) x l)" using G(1) b0 by simp
    show "parts ?t \<subseteq> parts (with_last (base_t s0) x l)" "{x} \<times> {?last + 1..<?last + 1 + k} \<subseteq> parts (with_last (base_t s0) x l)"
      using G(4) b0 by simp_all
    show "BASE_TABLE_SIZE \<le> length (base_t s0)" using bm b0 by simp
    show "new_entries g x (VDFS2_GET_TABLE_OFFSET (with_last (base_t s0) x l) x) (?last + 1) k s0 = Ok s1" using r1 G(3) b0 by simp
  qed
  note h = same_head_layout [OF E [THEN conjunct2, THEN conjunct2, THEN conjunct1]]
  have b': "base_t s' = with_last (base_t s1) x l" using s' lm by simp
  have pe: "parts (base_t s') = parts ?t \<union> {x} \<times> {?last + 1..<?last + 1 + k}" using h(2) G(4) b0 b' by simp
  have "space_ok g (bitmap_size_in_bits s') (base_t s') (parts (base_t s')) s' C" using E pe b' space_bits [of s' s1] by (simp add: s')
  moreover have "lengths_ok s'" using E by (simp add: s' lengths_ok_def)
  moreover have "layout_ok (base_t s')" using h(1) G(1) b0 b' by simp
  ultimately show "snap_inv g s' C" by (simp add: snap_inv_space)
  show "length (base_t s') = length ?t" using E b' b0 G(2) by (simp add: same_head_def)
  have l64: "l < 2 ^ 64" using n(2) by simp
  show "checksum_offset (base_t s') = checksum_offset ?t + 8 * (l - ?last)"
    using E b' b0 M(2) with_last_ok(2) [OF x bm l64] by (simp add: same_head_def k_def)
  show "VDFS2_LAST_TABLE_INDEX (base_t s') y = VDFS2_LAST_TABLE_INDEX ?t y" if y: "special_file y" "y \<noteq> x" for y
    using E y b' b0 M(3) [OF y(1)] with_last_ok(3) [OF x bm l64 y(1)] by (simp add: same_head_def)
  show "rest_same s s'" using E by (auto simp: rest_same_def s' s0_def)
  show "entry (base_t s') y j = entry ?t y j" if "(y, j) \<in> parts ?t" for y j using E that G(5) [OF that] b0 b' by simp
  have "{?last + 1..<?last + 1 + k} = {?last + 1..l}" using lk by auto
  then show "parts (base_t s') = parts ?t \<union> {x} \<times> {?last + 1..l}" using pe by simp
  have "VDFS2_LAST_TABLE_INDEX (base_t s') x = VDFS2_LAST_TABLE_INDEX (with_last m x l) x"
    using E x b' b0 by (simp add: same_head_def)
  then show "VDFS2_LAST_TABLE_INDEX (base_t s') x = l" using with_last_ok(3) [OF x bm _ x, of l] n(2) by simp
qed

end
