(* ===== verification/Snapshot_Area.thy ===== *)
theory Snapshot_Area
  imports Snapshot_Expand
begin

text \<open>
  The two areas on the volume, the metadata area and the area of the tables, are lists of extents in
  the extended superblock. The first unused extent has start block 0. An area grows by
  blocks from the free-space manager; \<^verbatim>\<open>data.c\<close> maps a block of the metadata area to the volume.
\<close>

section \<open>Areas\<close>

type_synonym vdfs2_extent = "u64 \<times> u32"

record vdfs2_extended_super_block =
  exsb_tables :: "vdfs2_extent list"
  exsb_tables_tbc :: nat
  exsb_meta :: "vdfs2_extent list"
  exsb_meta_tbc :: nat
  exsb_dirty :: bool

definition VDFS2_TABLES_EXTENTS_COUNT :: nat where "VDFS2_TABLES_EXTENTS_COUNT = 24"
definition VDFS2_META_BTREE_EXTENTS :: nat where "VDFS2_META_BTREE_EXTENTS = 96"

text \<open>The loop over the extents: the block of the volume and the number of blocks from there on in the extent.\<close>

fun meta_block_loop :: "nat \<Rightarrow> nat \<Rightarrow> vdfs2_extent list \<Rightarrow> (nat \<times> nat) result" where
  "meta_block_loop iblock first [] = Err EINVAL"
| "meta_block_loop iblock first ((b, l) # es) =
     (if first \<le> iblock \<and> iblock < first + unat l then Ok (unat b + (iblock - first), unat l - (iblock - first))
      else meta_block_loop iblock (first + unat l) es)"

definition get_meta_block :: "vdfs2_extended_super_block \<Rightarrow> nat \<Rightarrow> (nat \<times> nat) result" where
  "get_meta_block exsb iblock = meta_block_loop iblock 0 (take VDFS2_META_BTREE_EXTENTS (exsb_meta exsb))"

text \<open>The same in sectors; sectors are 512 bytes.\<close>

fun get_sector :: "nat \<Rightarrow> nat \<Rightarrow> nat \<Rightarrow> vdfs2_extent list \<Rightarrow> (nat \<times> nat) result" where
  "get_sector isector shift first [] = Err EINVAL"
| "get_sector isector shift first ((b, l) # es) =
     (let n = unat l * 2 ^ shift mod 2 ^ 32 in
      if first \<le> isector \<and> isector < first + n
      then Ok (unat b * 2 ^ shift mod 2 ^ 64 + (isector - first), n - (isector - first))
      else get_sector isector shift (first + n) es)"

text \<open>
  An empty extent or a sector behind the end of the device is an error while mounting and stops the kernel later.
  \<open>max_size\<close> is the number of sectors of the device. A sector that is not found leaves the values of the caller,
  \<open>prev\<close>: 0 in the first round of a request, the last ones found in the rounds after it.
\<close>

definition get_table_sector ::
  "sb_geometry \<Rightarrow> bool \<Rightarrow> nat \<Rightarrow> vdfs2_extended_super_block \<Rightarrow> nat \<times> nat \<Rightarrow> nat \<Rightarrow> (nat \<times> nat) result" where
  "get_table_sector g is_mounted max_size exsb prev isector =
     (let found = get_sector isector (block_size_shift g - 9) 0 (take VDFS2_TABLES_EXTENTS_COUNT (exsb_tables exsb));
          rl = (case found of Ok v \<Rightarrow> v | _ \<Rightarrow> prev) in
      if snd rl = 0 \<or> max_size < fst rl then (if is_mounted then Bug else Err EFAULT) else found)"

text \<open>The block of the volume that holds a page of a metadata file.\<close>

definition get_block_meta :: "sb_geometry \<Rightarrow> vdfs2_extended_super_block \<Rightarrow> vdfs2_snapshot_info \<Rightarrow> nat \<Rightarrow> nat \<Rightarrow> nat result" where
  "get_block_meta g exsb s ino_n page_index =
     and_then (vdfs2_get_meta_iblock g s ino_n page_index) (\<lambda>start_iblock.
       let meta_iblock = (if is_tree ino_n
             then start_iblock + page_index mod 2 ^ (log_blocks_in_leb g + block_size_shift g - PAGE_SHIFT) * 2 ^ (PAGE_SHIFT - block_size_shift g)
             else start_iblock) in
       case get_meta_block exsb meta_iblock of
         Ok (b, l) \<Rightarrow> if b = 0 then Bug else Ok b | _ \<Rightarrow> Bug)"

section \<open>Growing an area\<close>

text \<open>The value is the extents, the new number of blocks, and the free-space manager.\<close>

definition expand_area ::
  "sb_geometry \<Rightarrow> vdfs2_fsm_info \<Rightarrow> vdfs2_extent list \<Rightarrow> nat \<Rightarrow> u32 \<Rightarrow> nat \<Rightarrow> mem \<Rightarrow> (vdfs2_extent list \<times> nat \<times> vdfs2_fsm_info \<times> mem) result" where
  "expand_area g fsm extents extents_count expand_block_count tbc m =
     (let cnt = length (takeWhile (\<lambda>e. fst e \<noteq> 0) (take extents_count extents)) in
      if extents_count \<le> cnt then Err EINVAL
      else if cnt = 0 then Bug
      else
        (case extents ! (cnt - 1) of (b, l) \<Rightarrow>
           (case vdfs2_fsm_get_free_block g fsm (b + ucast l) expand_block_count True False m of
              Err e \<Rightarrow> Err e
            | Bug \<Rightarrow> Bug
            | Ok (start_offset, n, m1, fsm1) \<Rightarrow>
                if start_offset = 0 then Err ENOSPC
                else Ok (if b + ucast l = start_offset then extents[cnt - 1 := (b, l + n)] else extents[cnt := (start_offset, n)],
                  (tbc + unat n) mod 2 ^ 32, fsm1, m1))))"

definition calculate_expand_step :: "sb_geometry \<Rightarrow> nat \<Rightarrow> nat" where
  "calculate_expand_step g volume_size =
     (let minimal = 2 * (4 * 2 ^ log_super_page_size g + 3 * block_size g);
          blocks_per_superpage = 2 ^ (log_super_page_size g - block_size_shift g);
          blocks = minimal div 2 ^ block_size_shift g in
      if volume_size div 50 < minimal
      then (blocks + (blocks_per_superpage - blocks mod blocks_per_superpage)) mod 2 ^ 32
      else 2 ^ (log_erase_block_size g - block_size_shift g) mod 2 ^ 32)"

definition calculate_max_table_size :: "nat \<Rightarrow> nat" where
  "calculate_max_table_size meta_tbc = (BASE_TABLE_SIZE + 8 * (meta_tbc div 2) + CRC32_SIZE) mod 2 ^ 32"

text \<open>\<open>n\<close> allocations in a row, up to the first that fails.\<close>

fun alloc_pages :: "nat \<Rightarrow> mem \<Rightarrow> bool \<times> mem" where
  "alloc_pages 0 m = (True, m)"
| "alloc_pages (Suc n) m = (case kmem_alloc m of (ok, m1) \<Rightarrow> if ok then alloc_pages n m1 else (False, m1))"

text \<open>
  More pages for the base table. The pages are allocated one by one and mapped behind the old
  ones; all of it is memory, so running out of it leaves the tables as they were.
\<close>

definition grow_base_table ::
  "sb_geometry \<Rightarrow> vdfs2_extended_super_block \<Rightarrow> vdfs2_fsm_info \<Rightarrow> vdfs2_snapshot_info \<Rightarrow> mem \<Rightarrow>
     ret \<times> vdfs2_extended_super_block \<times> vdfs2_fsm_info \<times> vdfs2_snapshot_info \<times> mem" where
  "grow_base_table g exsb fsm s m =
     (let new_table_size = calculate_max_table_size (exsb_meta_tbc exsb);
          new_pages_count = div_round_up new_table_size PAGE_SIZE;
          base_table_in_blocks = div_round_up new_table_size (block_size g);
          extended_table_blocks = 2 * VDFS2_SNAPSHOT_TABLES_COUNT * 2 ^ (PAGE_SHIFT - block_size_shift g) in
      if new_pages_count \<le> tables_pages_count s then (Success, exsb, fsm, s, m)
      else
        (case (if exsb_tables_tbc exsb < base_table_in_blocks + extended_table_blocks
               then (case expand_area g fsm (exsb_tables exsb) VDFS2_TABLES_EXTENTS_COUNT (of_nat (exsb_tables_tbc exsb)) (exsb_tables_tbc exsb) m of
                       Ok (es, tbc, fsm1, m1) \<Rightarrow> Ok (exsb\<lparr>exsb_tables := es, exsb_tables_tbc := tbc\<rparr>, fsm1, m1)
                     | Err e \<Rightarrow> Err e | Bug \<Rightarrow> Bug)
               else Ok (exsb, fsm, m)) of
           Err e \<Rightarrow> (Fail e, exsb, fsm, s, m)
         | Bug \<Rightarrow> (Oops, exsb, fsm, s, m)
         | Ok (exsb1, fsm1, m1) \<Rightarrow>
             (case alloc_pages (new_pages_count - tables_pages_count s + 2) m1 of
                (False, m2) \<Rightarrow> (Fail ENOMEM, exsb1, fsm1, s, m2)
              | (True, m2) \<Rightarrow>
                  (Success, exsb1, fsm1,
                   s\<lparr>base_t := base_t s @ replicate ((new_pages_count - tables_pages_count s) * PAGE_SIZE) 0,
                     tables_pages_count := new_pages_count\<rparr>, m2))))"

text \<open>
  Longer bitmaps. When one of the three cannot be allocated, the pages that were just
  given to the base table are freed.
\<close>

definition grow_bitmaps :: "nat \<Rightarrow> bool \<Rightarrow> vdfs2_snapshot_info \<Rightarrow> mem \<Rightarrow> ret \<times> vdfs2_snapshot_info \<times> mem" where
  "grow_bitmaps meta_tbc grown s m =
     (if meta_tbc \<le> bitmap_size_in_bits s then (Success, s, m)
      else
        (case kmem_alloc m of (ok1, m1) \<Rightarrow> case kmem_alloc m1 of (ok2, m2) \<Rightarrow> case kmem_alloc m2 of (ok3, m3) \<Rightarrow>
           if \<not> ok1 \<or> \<not> ok2 \<or> \<not> ok3 then (Fail ENOMEM, s\<lparr>tables_freed := tables_freed s \<or> grown\<rparr>, m3)
           else
             (let ext = (\<lambda>bm. bm @ replicate (meta_tbc - bitmap_size_in_bits s) False) in
              (Success, s\<lparr>snapshot_bitmap := ext (snapshot_bitmap s), moved_iblock := ext (moved_iblock s),
                 next_snapshot_bitmap := ext (next_snapshot_bitmap s), bitmap_size_in_bits := meta_tbc\<rparr>, m3))))"

definition expand_translation_tables ::
  "sb_geometry \<Rightarrow> vdfs2_extended_super_block \<Rightarrow> vdfs2_fsm_info \<Rightarrow> vdfs2_snapshot_info \<Rightarrow> nat \<Rightarrow> nat \<Rightarrow> mem \<Rightarrow>
     ret \<times> vdfs2_extended_super_block \<times> vdfs2_fsm_info \<times> vdfs2_snapshot_info \<times> mem" where
  "expand_translation_tables g exsb fsm s ino_n new_table_index m =
     (case grow_base_table g exsb fsm s m of
        (Success, exsb1, fsm1, s1, m1) \<Rightarrow>
          (case grow_bitmaps (exsb_meta_tbc exsb) (tables_pages_count s < tables_pages_count s1) s1 m1 of
             (Success, s2, m2) \<Rightarrow>
               (case insert_new_iblocks g s2 ino_n new_table_index of
                  Ok s3 \<Rightarrow> (Success, exsb1, fsm1, s3, m2) | _ \<Rightarrow> (Oops, exsb1, fsm1, s2, m2))
           | (r, s2, m2) \<Rightarrow> (r, exsb1, fsm1, s2, m2))
      | (r, exsb1, fsm1, s1, m1) \<Rightarrow> (r, exsb1, fsm1, s1, m1))"

definition expand_special_file ::
  "sb_geometry \<Rightarrow> nat \<Rightarrow> vdfs2_extended_super_block \<Rightarrow> vdfs2_fsm_info \<Rightarrow> vdfs2_snapshot_info \<Rightarrow> nat \<Rightarrow> nat \<Rightarrow> mem \<Rightarrow>
     ret \<times> vdfs2_extended_super_block \<times> vdfs2_fsm_info \<times> vdfs2_snapshot_info \<times> mem" where
  "expand_special_file g volume_size exsb fsm s ino_n new_table_index m =
     (let lbp = PAGE_SHIFT - block_size_shift g; meta_tbc = exsb_meta_tbc exsb;
          new_entries = (new_table_index - VDFS2_LAST_TABLE_INDEX (base_t s) ino_n) mod 2 ^ 32;
          new_blocks_count = new_entries * 2 ^ (if is_tree ino_n then lbp + log_blocks_in_leb g else lbp) mod 2 ^ 32;
          used = sum_list (map (\<lambda>x. 2 ^ (lbp + log_blocks_in_leb g) * (VDFS2_LAST_TABLE_INDEX (base_t s) x + 1)) special_files);
          free_blocks = int meta_tbc - int used in
      if free_blocks - int new_blocks_count < int (meta_tbc div 2) then
        (case expand_area g fsm (exsb_meta exsb) VDFS2_META_BTREE_EXTENTS (of_nat (calculate_expand_step g volume_size)) meta_tbc m of
           Err e \<Rightarrow> (Fail e, exsb, fsm, s, m)
         | Bug \<Rightarrow> (Oops, exsb, fsm, s, m)
         | Ok (es, tbc, fsm1, m1) \<Rightarrow>
             expand_translation_tables g (exsb\<lparr>exsb_meta := es, exsb_meta_tbc := tbc, exsb_dirty := True\<rparr>) fsm1 s ino_n new_table_index m1)
      else expand_translation_tables g exsb fsm s ino_n new_table_index m)"

text \<open>Space for a page of a metadata file; the value also says whether the file had to grow.\<close>

definition vdfs2_check_page_offset ::
  "sb_geometry \<Rightarrow> nat \<Rightarrow> vdfs2_extended_super_block \<Rightarrow> vdfs2_fsm_info \<Rightarrow> vdfs2_snapshot_info \<Rightarrow> nat \<Rightarrow> nat \<Rightarrow> mem \<Rightarrow>
     ret \<times> bool \<times> vdfs2_extended_super_block \<times> vdfs2_fsm_info \<times> vdfs2_snapshot_info \<times> mem" where
  "vdfs2_check_page_offset g volume_size exsb fsm s object_id page_index m =
     (let table_index = GET_TABLE_INDEX g object_id page_index in
      if VDFS2_LAST_TABLE_INDEX (base_t s) object_id < table_index then
        (case expand_special_file g volume_size exsb fsm s object_id table_index m of
           (Success, exsb1, fsm1, s1, m1) \<Rightarrow> (Success, True, exsb1, fsm1, s1\<lparr>use_base_table := True\<rparr>, m1)
         | (r, exsb1, fsm1, s1, m1) \<Rightarrow> (r, False, exsb1, fsm1, s1, m1))
      else (Success, False, exsb, fsm, s, m))"

section \<open>Growing keeps the invariant\<close>

lemma rng_append_more: "p + n \<le> length t \<Longrightarrow> rng (t @ z) p n = rng t p n"
  by (simp add: rng_def)

lemma longer_table:
  assumes lay: "layout_ok t"
  shows "layout_ok (t @ z)" "parts (t @ z) = parts t" "checksum_offset (t @ z) = checksum_offset t"
    "special_file x \<Longrightarrow> VDFS2_LAST_TABLE_INDEX (t @ z) x = VDFS2_LAST_TABLE_INDEX t x" "(x, i) \<in> parts t \<Longrightarrow> entry (t @ z) x i = entry t x i"
proof -
  have "special_file VDFS2_FSFILE" by (simp add: special_file_def VDFS2_FSFILE_def VDFS2_LSFILE_def)
  then have "BASE_TABLE_SIZE \<le> VDFS2_GET_TABLE_OFFSET t VDFS2_FSFILE" "table_end t VDFS2_FSFILE \<le> checksum_offset t" "checksum_offset t + CRC32_SIZE \<le> length t"
    using lay by (simp_all add: layout_ok_def)
  then have len: "100 \<le> length t" by (simp add: table_end_def table_addr_def BASE_TABLE_SIZE_def)
  have c: "checksum_offset (t @ z) = checksum_offset t" using len by (simp add: checksum_offset_def rd_def rng_append_more)
  have o: "VDFS2_LAST_TABLE_INDEX (t @ z) x = VDFS2_LAST_TABLE_INDEX t x" "VDFS2_GET_TABLE_OFFSET (t @ z) x = VDFS2_GET_TABLE_OFFSET t x"
    if "special_file x" for x
    using len special_fields [OF that] by (simp_all add: VDFS2_LAST_TABLE_INDEX_def VDFS2_GET_TABLE_OFFSET_def rd_def rng_append_more)
  have e: "table_end (t @ z) x = table_end t x" if "special_file x" for x using o [OF that] by (simp add: table_end_def table_addr_def)
  show "layout_ok (t @ z)" using lay o e c unfolding layout_ok_def by auto
  show "parts (t @ z) = parts t" using o(1) by (auto simp: parts_def)
  show "checksum_offset (t @ z) = checksum_offset t" by (rule c)
  show "VDFS2_LAST_TABLE_INDEX (t @ z) x = VDFS2_LAST_TABLE_INDEX t x" if "special_file x" using o(1) [OF that] .
  show "entry (t @ z) x i = entry t x i" if p: "(x, i) \<in> parts t"
  proof -
    have "special_file x" using p by (simp add: parts_def)
    then have "table_addr (t @ z) x i = table_addr t x i" using o(2) by (simp add: table_addr_def)
    then show ?thesis using part_addr(3) [OF lay p] by (simp add: entry_def rd_def rng_append_more)
  qed
qed

text \<open>The pages of the base table and their number belong together.\<close>

definition pages_ok :: "vdfs2_snapshot_info \<Rightarrow> bool" where
  "pages_ok s \<longleftrightarrow> length (base_t s) = tables_pages_count s * PAGE_SIZE"

lemma grow_base_table_inv:
  assumes "grow_base_table g exsb fsm s m = (Success, exsb1, fsm1, s1, m1)" "pages_ok s"
  shows "(\<exists>z k. s1 = s\<lparr>base_t := base_t s @ z, tables_pages_count := k\<rparr>) \<and> pages_ok s1 \<and>
    calculate_max_table_size (exsb_meta_tbc exsb) \<le> length (base_t s1)"
proof -
  let ?n = "div_round_up (calculate_max_table_size (exsb_meta_tbc exsb)) PAGE_SIZE"
  let ?s = "s\<lparr>base_t := base_t s @ replicate ((?n - tables_pages_count s) * PAGE_SIZE) 0, tables_pages_count := ?n\<rparr>"
  have r: "a \<le> div_round_up a PAGE_SIZE * PAGE_SIZE" for a unfolding div_round_up_def by (rule round_up_ge) (simp add: PAGE_SIZE_def)
  have "s1 = s \<and> ?n \<le> tables_pages_count s \<or> s1 = ?s \<and> \<not> ?n \<le> tables_pages_count s"
    using assms(1) unfolding grow_base_table_def Let_def by (auto split: if_splits result.splits prod.splits bool.splits)
  then show ?thesis
  proof
    assume a: "s1 = s \<and> ?n \<le> tables_pages_count s"
    then have "?n * PAGE_SIZE \<le> tables_pages_count s * PAGE_SIZE" by simp
    then have "calculate_max_table_size (exsb_meta_tbc exsb) \<le> length (base_t s)" using r assms(2) unfolding pages_ok_def by (metis order_trans)
    moreover have "s = s\<lparr>base_t := base_t s @ [], tables_pages_count := tables_pages_count s\<rparr>" by simp
    ultimately show ?thesis using a assms(2) by metis
  next
    assume a: "s1 = ?s \<and> \<not> ?n \<le> tables_pages_count s"
    then have "length (base_t s1) = ?n * PAGE_SIZE" using assms(2) by (simp add: pages_ok_def diff_mult_distrib)
    then have "calculate_max_table_size (exsb_meta_tbc exsb) \<le> length (base_t s1)" "pages_ok s1" using r a by (simp_all add: pages_ok_def)
    then show ?thesis using a by blast
  qed
qed

lemma longer_table_inv:
  assumes inv: "snap_inv g s C"
  shows "snap_inv g (s\<lparr>base_t := base_t s @ z, tables_pages_count := k\<rparr>) C"
proof -
  let ?s = "s\<lparr>base_t := base_t s @ z, tables_pages_count := k\<rparr>"
  have I: "layout_ok (base_t s)" "lengths_ok s" "space_ok g (bitmap_size_in_bits s) (base_t s) (parts (base_t s)) s C"
    using inv by (simp_all add: snap_inv_space)
  note l = longer_table [where z = z, OF I(1)]
  have "space_ok g (bitmap_size_in_bits s) (base_t s @ z) (parts (base_t s)) s C" by (rule space_cong [OF l(5) I(3)])
  then have "space_ok g (bitmap_size_in_bits s) (base_t s @ z) (parts (base_t s)) ?s C" using space_bits [of ?s s] by simp
  then show ?thesis using I(2) l(1,2) by (simp add: snap_inv_space lengths_ok_def)
qed

lemma bits_append_False: "bits (bm @ replicate n False) = bits bm"
proof -
  have "(bm @ replicate n False) ! j \<longleftrightarrow> j < length bm \<and> bm ! j" if "j < length bm + n" for j
  proof (cases "j < length bm")
    case False
    then have "j - length bm < n" using that by simp
    then show ?thesis using False by (simp add: nth_append)
  qed (simp add: nth_append)
  then show ?thesis by (auto simp: bits_def)
qed

lemma grow_bitmaps_inv:
  assumes run: "grow_bitmaps n grown s m = (Success, s1, m1)" and inv: "snap_inv g s C" and n: "n < 2 ^ 31"
  shows "snap_inv g s1 C" "base_t s1 = base_t s" "tables_pages_count s1 = tables_pages_count s" "snap_flags s1 = snap_flags s"
    "extended_t s1 = extended_t s" "sync_count s1 = sync_count s" "exteneded_table_count s1 = exteneded_table_count s"
proof -
  show b: "base_t s1 = base_t s" "tables_pages_count s1 = tables_pages_count s" "snap_flags s1 = snap_flags s"
    "extended_t s1 = extended_t s" "sync_count s1 = sync_count s" "exteneded_table_count s1 = exteneded_table_count s"
    using run unfolding grow_bitmaps_def Let_def by (auto split: if_splits prod.splits)
  show "snap_inv g s1 C"
  proof (cases "n \<le> bitmap_size_in_bits s")
    case True
    then show ?thesis using run inv by (simp add: grow_bitmaps_def)
  next
    case False
    let ?z = "replicate (n - bitmap_size_in_bits s) False"
    have s1: "s1 = s\<lparr>snapshot_bitmap := snapshot_bitmap s @ ?z, moved_iblock := moved_iblock s @ ?z,
        next_snapshot_bitmap := next_snapshot_bitmap s @ ?z, bitmap_size_in_bits := n\<rparr>"
      using run False unfolding grow_bitmaps_def Let_def by (auto split: if_splits prod.splits)
    have I: "layout_ok (base_t s)" "lengths_ok s" "space_ok g (bitmap_size_in_bits s) (base_t s) (parts (base_t s)) s C"
      using inv by (simp_all add: snap_inv_space)
    have "lengths_ok s1" using I(2) False n by (simp add: s1 lengths_ok_def)
    moreover have "space_ok g n (base_t s) (parts (base_t s)) s1 C"
      unfolding space_ok_def
    proof (intro conjI allI impI)
      fix x i assume "(x, i) \<in> parts (base_t s)"
      from space_okD(1) [OF I(3) this] show "entry (base_t s) x i + chunk_size g x \<le> n" using False by linarith
    qed (use space_okD [OF I(3)] in \<open>simp_all add: s1 bits_append_False\<close>)
    ultimately show ?thesis using I(1) by (simp add: snap_inv_space s1)
  qed
qed

lemma new_iblock_pages: "get_new_meta_iblock g s x = Ok (p, s1) \<Longrightarrow> tables_pages_count s1 = tables_pages_count s"
  unfolding get_new_meta_iblock_def Let_def by (auto elim!: and_then_OkE split: if_splits)

lemma new_entries_pages: "new_entries g x table i n s = Ok s' \<Longrightarrow> tables_pages_count s' = tables_pages_count s"
proof (induction n arbitrary: i s)
  case (Suc n)
  then show ?case by (auto elim!: and_then_OkE split: if_splits dest!: new_iblock_pages Suc.IH)
qed simp

lemma insert_new_iblocks_pages: "insert_new_iblocks g s x l = Ok s' \<Longrightarrow> tables_pages_count s' = tables_pages_count s"
  unfolding insert_new_iblocks_def Let_def by (auto elim!: and_then_OkE split: if_splits dest!: new_entries_pages)

lemma expand_tables_inv:
  assumes run: "expand_translation_tables g exsb fsm s x l m = (Success, exsb', fsm', s', m')" and inv: "snap_inv g s C" "pages_ok s"
    and x: "special_file x" and l: "VDFS2_LAST_TABLE_INDEX (base_t s) x \<le> l" "l < 2 ^ 32" and sz: "exsb_meta_tbc exsb < 2 ^ 31"
    and room: "checksum_offset (base_t s) + 8 * (l - VDFS2_LAST_TABLE_INDEX (base_t s) x) + CRC32_SIZE \<le> tables_pages_count s' * PAGE_SIZE"
      "tables_pages_count s' * PAGE_SIZE < 2 ^ 32"
  shows "snap_inv g s' C \<and> pages_ok s' \<and> snap_flags s' = snap_flags s \<and> VDFS2_LAST_TABLE_INDEX (base_t s') x = l \<and>
    extended_t s' = extended_t s \<and> sync_count s' = sync_count s \<and> exteneded_table_count s' = exteneded_table_count s \<and>
    checksum_offset (base_t s') = checksum_offset (base_t s) + 8 * (l - VDFS2_LAST_TABLE_INDEX (base_t s) x) \<and>
    (\<forall>y. special_file y \<longrightarrow> y \<noteq> x \<longrightarrow> VDFS2_LAST_TABLE_INDEX (base_t s') y = VDFS2_LAST_TABLE_INDEX (base_t s) y) \<and>
    parts (base_t s') = parts (base_t s) \<union> {x} \<times> {VDFS2_LAST_TABLE_INDEX (base_t s) x + 1..l} \<and>
    (\<forall>y j. (y, j) \<in> parts (base_t s) \<longrightarrow> entry (base_t s') y j = entry (base_t s) y j)"
proof -
  from run obtain exsb1 fsm1 s1 m1 s2 m2 where
    a: "grow_base_table g exsb fsm s m = (Success, exsb1, fsm1, s1, m1)" and
    b: "grow_bitmaps (exsb_meta_tbc exsb) (tables_pages_count s < tables_pages_count s1) s1 m1 = (Success, s2, m2)" and
    c: "insert_new_iblocks g s2 x l = Ok s'"
    unfolding expand_translation_tables_def by (auto split: prod.splits ret.splits result.splits)
  obtain z k where s1: "s1 = s\<lparr>base_t := base_t s @ z, tables_pages_count := k\<rparr>" and p1: "pages_ok s1"
    using grow_base_table_inv [OF a inv(2)] by blast
  have i1: "snap_inv g s1 C" unfolding s1 by (rule longer_table_inv [OF inv(1)])
  note g2 = grow_bitmaps_inv [OF b i1 sz]
  have lay: "layout_ok (base_t s)" using inv by (simp add: snap_inv_def)
  note lt = longer_table [where z = z, OF lay]
  have t2: "base_t s2 = base_t s @ z" using g2(2) s1 by simp
  have tp: "tables_pages_count s' = tables_pages_count s2" using insert_new_iblocks_pages [OF c] .
  have len: "length (base_t s2) = tables_pages_count s' * PAGE_SIZE" using p1 g2(2,3) tp by (simp add: pages_ok_def)
  have last: "VDFS2_LAST_TABLE_INDEX (base_t s2) x = VDFS2_LAST_TABLE_INDEX (base_t s) x" using t2 lt(4) [OF x] by simp
  have pr: "VDFS2_LAST_TABLE_INDEX (base_t s2) x \<le> l"
    "checksum_offset (base_t s2) + 8 * (l - VDFS2_LAST_TABLE_INDEX (base_t s2) x) + CRC32_SIZE \<le> length (base_t s2)" "length (base_t s2) < 2 ^ 32"
    using l room len last lt(3) t2 by simp_all
  note N = insert_new_iblocks_ok [OF g2(1) x pr(1) l(2) pr(2,3) c]
  have "entry (base_t s') y j = entry (base_t s) y j" if "(y, j) \<in> parts (base_t s)" for y j
    using N(4) [of y j] lt(2,5) that t2 by simp
  moreover have "snap_flags s' = snap_flags s" "extended_t s' = extended_t s" "sync_count s' = sync_count s" "exteneded_table_count s' = exteneded_table_count s"
    using N(3) g2(4-7) s1 by (simp_all add: rest_same_def)
  moreover have "VDFS2_LAST_TABLE_INDEX (base_t s') y = VDFS2_LAST_TABLE_INDEX (base_t s) y" if "special_file y" "y \<noteq> x" for y
    using N(8) [OF that] lt(4) [OF that(1)] t2 by simp
  moreover have "pages_ok s'" using N(6) len by (simp add: pages_ok_def)
  moreover have "checksum_offset (base_t s') = checksum_offset (base_t s) + 8 * (l - VDFS2_LAST_TABLE_INDEX (base_t s) x)"
    using N(7) last t2 lt(3) by simp
  ultimately show ?thesis using N(1,2,5) last t2 lt(2) by simp
qed

end
