(* ===== verification/Snapshot_Table.thy ===== *)
theory Snapshot_Table
  imports Snapshot_Area
begin

text \<open>
  What a commit writes can be read back: the descriptor with its version and checksum, and the
  records of an extended table, which repeat the changes of the base table since the last commit.
\<close>

section \<open>Equal beginnings\<close>

text \<open>Tables are read in whole sectors or pages, so what follows the written bytes is arbitrary.\<close>

definition agree :: "nat \<Rightarrow> u8 list \<Rightarrow> u8 list \<Rightarrow> bool" where
  "agree n t u \<longleftrightarrow> n \<le> length t \<and> n \<le> length u \<and> take n t = take n u"

lemma agree_rng:
  assumes "agree n t u" "p + w \<le> n"
  shows "rng u p w = rng t p w"
proof -
  have e: "take n u = take n t" and l: "n \<le> length t" "n \<le> length u" using assms(1) by (simp_all add: agree_def)
  show ?thesis
  proof (rule rng_eqI)
    fix i assume "i < w"
    then have i: "p + i < n" using assms(2) by simp
    have "take n u ! (p + i) = take n t ! (p + i)" by (simp only: e)
    then show "u ! (p + i) = t ! (p + i)" using i by simp
  qed (use l assms(2) in simp_all)
qed

lemma agree_rd: "agree n t u \<Longrightarrow> p + w \<le> n \<Longrightarrow> rd w u p = rd w t p"
  by (simp add: rd_def agree_rng)

lemma agree_less: "agree n t u \<Longrightarrow> k \<le> n \<Longrightarrow> agree k t u"
proof -
  assume a: "agree n t u" and k: "k \<le> n"
  have "take k t = take k (take n t)" "take k u = take k (take n u)" using k by (simp_all add: min_absorb1)
  moreover have "take n t = take n u" using a by (simp add: agree_def)
  ultimately have "take k t = take k u" by simp
  then show ?thesis using a k by (simp add: agree_def)
qed

lemma agree_fields:
  assumes "agree n t u" "20 \<le> n"
  shows "checksum_offset u = checksum_offset t" "descr_mount_count u = descr_mount_count t" "descr_sync_count u = descr_sync_count t"
    "records_count u = records_count t"
  using agree_rd [OF assms(1)] assms(2)
  by (simp_all add: checksum_offset_def descr_mount_count_def descr_sync_count_def records_count_def)

lemma agree_tables:
  assumes a: "agree (checksum_offset t + CRC32_SIZE) t u" and lay: "layout_ok t"
  shows "layout_ok u" "parts u = parts t" "checksum_offset u = checksum_offset t"
    "\<And>x. special_file x \<Longrightarrow> VDFS2_LAST_TABLE_INDEX u x = VDFS2_LAST_TABLE_INDEX t x"
    "\<And>x i. (x, i) \<in> parts t \<Longrightarrow> entry u x i = entry t x i"
proof -
  let ?n = "checksum_offset t + CRC32_SIZE"
  have "special_file VDFS2_FSFILE" by (simp add: special_file_def VDFS2_FSFILE_def VDFS2_LSFILE_def)
  then have "BASE_TABLE_SIZE \<le> VDFS2_GET_TABLE_OFFSET t VDFS2_FSFILE" "table_end t VDFS2_FSFILE \<le> checksum_offset t"
    using lay by (simp_all add: layout_ok_def)
  then have h: "100 \<le> ?n" by (simp add: BASE_TABLE_SIZE_def table_end_def table_addr_def)
  have r: "rd w u p = rd w t p" if "p + w \<le> 100" for w p using agree_rd [OF a] that h by simp
  have hd: "VDFS2_LAST_TABLE_INDEX u x = VDFS2_LAST_TABLE_INDEX t x" "VDFS2_GET_TABLE_OFFSET u x = VDFS2_GET_TABLE_OFFSET t x" if "special_file x" for x
    using special_fields [OF that] by (simp_all add: VDFS2_LAST_TABLE_INDEX_def VDFS2_GET_TABLE_OFFSET_def r)
  have c: "checksum_offset u = checksum_offset t" by (simp add: checksum_offset_def r)
  have l: "?n \<le> length u" using a by (simp add: agree_def)
  have ad: "table_addr u x i = table_addr t x i" "table_end u x = table_end t x" if "special_file x" for x i
    using hd [OF that] by (simp_all add: table_end_def table_addr_def)
  show "layout_ok u" using lay hd ad c l unfolding layout_ok_def by auto
  show "parts u = parts t" using hd(1) by (auto simp: parts_def)
  show "checksum_offset u = checksum_offset t" by (rule c)
  show "VDFS2_LAST_TABLE_INDEX u x = VDFS2_LAST_TABLE_INDEX t x" if "special_file x" for x using hd(1) [OF that] .
  show "entry u x i = entry t x i" if p: "(x, i) \<in> parts t" for x i
  proof -
    have "special_file x" using p by (simp add: parts_def)
    then have "entry u x i = rd 8 u (table_addr t x i)" using ad(1) by (simp add: entry_def)
    also have "\<dots> = entry t x i" using agree_rd [OF a] part_addr(2) [OF lay p] by (simp add: entry_def)
    finally show ?thesis .
  qed
qed

section \<open>The descriptor\<close>

definition table_signature :: "snapshot_table_type \<Rightarrow> u8 list" where
  "table_signature type = (case type of SNAPSHOT_BASE_TABLE \<Rightarrow> VDFS2_SNAPSHOT_BASE_TABLE | SNAPSHOT_EXT_TABLE \<Rightarrow> VDFS2_SNAPSHOT_EXTENDED_TABLE)"

lemma length_signature [simp]: "length (table_signature type) = 4"
  by (cases type) (simp_all add: table_signature_def VDFS2_SNAPSHOT_BASE_TABLE_def VDFS2_SNAPSHOT_EXTENDED_TABLE_def)

text \<open>A table with a filled descriptor.\<close>

definition filled :: "(u8 list \<Rightarrow> nat) \<Rightarrow> nat \<Rightarrow> nat \<Rightarrow> snapshot_table_type \<Rightarrow> nat \<Rightarrow> u8 list \<Rightarrow> u8 list \<Rightarrow> bool" where
  "filled crc32 mc sc type co t t' \<longleftrightarrow>
     length t' = length t \<and> co + CRC32_SIZE \<le> length t' \<and> 20 \<le> co \<and> rng t' 0 4 = table_signature type \<and>
     checksum_offset t' = co \<and> descr_mount_count t' = mc mod 2 ^ 32 \<and> descr_sync_count t' = sc mod 2 ^ 32 \<and>
     (\<forall>w p. 16 \<le> p \<longrightarrow> p + w \<le> co \<longrightarrow> rd w t' p = rd w t p) \<and> rd 4 t' co = crc32 (take co t') mod 2 ^ 32"

lemma fill_ok:
  assumes co: "co = new_checksum_offset (base_t s) t type" "20 \<le> co" "co + CRC32_SIZE \<le> length t"
  obtains t' where "fill_descriptor_and_calculate_crc crc32 mc s t type = Ok t'" "filled crc32 mc (sync_count s) type co t t'"
proof -
  define t1 where "t1 = put t 0 (table_signature type)"
  have l: "24 \<le> length t" using co by (simp add: CRC32_SIZE_def)
  have l1: "length t1 = length t" using l by (simp add: t1_def)
  have rc: "records_count t1 = records_count t" using l by (simp add: records_count_def t1_def rd_put_other)
  have nc: "new_checksum_offset (base_t s) t1 type = co" by (simp add: co(1) new_checksum_offset_def rc split: snapshot_table_type.splits)
  define t3 where "t3 = wr 4 (wr 4 (wr 4 t1 12 co) 4 mc) 8 (sync_count s)"
  have c32: "co < 2 ^ 32" by (simp add: co(1) new_checksum_offset_def)
  have l3: "length t3 = length t" using l by (simp add: t3_def l1)
  have f3: "checksum_offset t3 = co" "descr_mount_count t3 = mc mod 2 ^ 32" "descr_sync_count t3 = sync_count s mod 2 ^ 32"
    using l c32 by (simp_all add: checksum_offset_def descr_mount_count_def descr_sync_count_def t3_def byte_simps l1)
  define t' where "t' = wr 4 t3 co (crc32 (take co t3))"
  have len4: "co + 4 \<le> length t3" using co(3) l3 by (simp add: CRC32_SIZE_def)
  have run: "fill_descriptor_and_calculate_crc crc32 mc s t type = Ok t'"
    using co(3) by (simp add: fill_descriptor_and_calculate_crc_def Let_def table_signature_def [symmetric] t1_def [symmetric] nc
        t3_def [symmetric] f3 l3 t'_def)
  have low: "rng t' p w = rng t3 p w" if "p + w \<le> co" for w p using that len4 by (simp add: t'_def rng_wr_other)
  have sg: "rng t' 0 4 = table_signature type"
  proof -
    have "rng t3 0 4 = rng t1 0 4" using l l1 by (simp add: t3_def rng_wr_other)
    also have "\<dots> = table_signature type" using rng_put_same [of 0 "table_signature type" t] l by (simp add: t1_def)
    finally show ?thesis using low [of 0 4] co(2) by simp
  qed
  have hd: "rd w t' p = rd w t3 p" if "p + w \<le> co" for w p using low [OF that] by (simp add: rd_def)
  have body: "rd w t' p = rd w t p" if "16 \<le> p" "p + w \<le> co" for w p
  proof -
    have "rd w t3 p = rd w t p" using that len4 l3 l by (simp add: t3_def t1_def byte_simps)
    then show ?thesis using hd [OF that(2)] by simp
  qed
  have tk: "take co t' = take co t3" using low [of 0 co] by (simp add: rng_def)
  have "rd 4 t' co = crc32 (take co t3) mod 2 ^ 32" using len4 by (simp add: t'_def rd_wr_same)
  then have "filled crc32 mc (sync_count s) type co t t'"
    unfolding filled_def using co(2,3) sg body f3 hd tk len4 l3
    by (simp add: t'_def [symmetric] checksum_offset_def descr_mount_count_def descr_sync_count_def) (simp add: t'_def)
  then show thesis using that run by blast
qed

lemma validate_ok:
  assumes f: "filled crc32 mc sc type co t t'" and a: "agree (co + CRC32_SIZE) t' u" and c: "\<And>b. crc32 b < 2 ^ 32"
  shows "validate_table crc32 (table_signature type) u = Ok (mc mod 2 ^ 32 * 2 ^ 32 + sc mod 2 ^ 32)"
proof -
  have co: "20 \<le> co" "checksum_offset t' = co" "descr_mount_count t' = mc mod 2 ^ 32" "descr_sync_count t' = sc mod 2 ^ 32"
    "rng t' 0 4 = table_signature type" "rd 4 t' co = crc32 (take co t') mod 2 ^ 32" using f by (simp_all add: filled_def)
  have fu: "checksum_offset u = co" "descr_mount_count u = mc mod 2 ^ 32" "descr_sync_count u = sc mod 2 ^ 32"
    using agree_fields [OF a] co by simp_all
  have "rng u 0 4 = table_signature type" using agree_rng [OF a, of 0 4] co by simp
  moreover have "\<not> length u < co + 4" using a by (simp add: agree_def CRC32_SIZE_def)
  moreover have "rd 4 u co = rd 4 t' co" using agree_rd [OF a, of co 4] by (simp add: CRC32_SIZE_def)
  moreover have "take co u = take co t'" using agree_less [OF a, of co] by (simp add: agree_def)
  moreover have "crc32 (take co t') mod 2 ^ 32 = crc32 (take co t')" using c by simp
  ultimately show ?thesis using fu co(6) by (simp add: validate_table_def VDFS2_SNAPSHOT_VERSION_def)
qed

section \<open>The records\<close>

definition rec_at :: "u8 list \<Rightarrow> nat \<Rightarrow> nat \<times> nat \<times> nat" where
  "rec_at ext i = (rd 1 ext (record_addr i), rd 8 ext (record_addr i + 1), rd 8 ext (record_addr i + 9))"

fun set_entries :: "(nat \<times> nat \<times> nat) list \<Rightarrow> u8 list \<Rightarrow> u8 list result" where
  "set_entries [] b = Ok b"
| "set_entries ((x, i, v) # rs) b =
     (if \<not> special_file x \<or> VDFS2_LAST_TABLE_INDEX b x < i then Bug else and_then (table_set b x i v) (set_entries rs))"

lemma record_addr_mono: "i \<le> j \<Longrightarrow> record_addr i \<le> record_addr j" "record_addr (i + 1) = record_addr i + 17" "20 \<le> record_addr i"
  by (simp_all add: record_addr_def EXTENDED_RECORD_SIZE_def EXTENDED_TABLE_SIZE_def)

lemma parse_records_eq:
  "record_addr (i + n) \<le> length ext \<Longrightarrow> parse_records ext i n b = set_entries (map (rec_at ext) [i..<i + n]) b"
proof (induction n arbitrary: i b)
  case (Suc n)
  have le: "\<not> length ext < record_addr (i + 1)" using record_addr_mono(1) [of "i + 1" "i + Suc n"] Suc.prems by simp
  have nx: "parse_records ext (i + 1) n = set_entries (map (rec_at ext) [i + 1..<i + Suc n])"
  proof
    show "parse_records ext (i + 1) n c = set_entries (map (rec_at ext) [i + 1..<i + Suc n]) c" for c
      using Suc.IH [of "i + 1" c] Suc.prems by simp
  qed
  have m: "map (rec_at ext) [i..<i + Suc n] = rec_at ext i # map (rec_at ext) [i + 1..<i + Suc n]" by (simp add: upt_conv_Cons del: upt_Suc)
  obtain x j v where r: "rec_at ext i = (x, j, v)" by (cases "rec_at ext i")
  then have f: "rd 1 ext (record_addr i) = x" "rd 8 ext (record_addr i + 1) = j" "rd 8 ext (record_addr i + 9) = v" by (simp_all add: rec_at_def)
  show ?case unfolding parse_records.simps Let_def m r f nx set_entries.simps using le by (simp only: if_False)
qed simp

lemma set_entries_append: "set_entries (rs @ qs) b = and_then (set_entries rs b) (set_entries qs)"
proof (induction rs b rule: set_entries.induct)
  case (2 x i v rs b)
  then show ?case by (cases "table_set b x i v") auto
qed simp

text \<open>The same entries for the same parts.\<close>

definition same_tables :: "u8 list \<Rightarrow> u8 list \<Rightarrow> bool" where
  "same_tables t u \<longleftrightarrow> (\<forall>x. special_file x \<longrightarrow> VDFS2_LAST_TABLE_INDEX u x = VDFS2_LAST_TABLE_INDEX t x) \<and>
     (\<forall>x i. (x, i) \<in> parts t \<longrightarrow> entry u x i = entry t x i)"

lemma same_tables_refl [simp]: "same_tables t t" by (simp add: same_tables_def)

lemma same_tables_parts: "same_tables t u \<Longrightarrow> parts u = parts t"
  by (auto simp: same_tables_def parts_def)

lemma same_tables_sym: "same_tables t u \<Longrightarrow> same_tables u t"
  using same_tables_parts [of t u] by (simp add: same_tables_def)

lemma same_tables_trans: "same_tables t u \<Longrightarrow> same_tables u v \<Longrightarrow> same_tables t v"
  using same_tables_parts [of t u] by (simp add: same_tables_def)

lemma same_tables_chunks: "same_tables t u \<Longrightarrow> all_chunks g u = all_chunks g t"
  using same_tables_parts [of t u] by (auto simp: all_chunks_def chunk_def same_tables_def)

lemma same_head_last: "same_head t u \<Longrightarrow> special_file x \<Longrightarrow> VDFS2_LAST_TABLE_INDEX u x = VDFS2_LAST_TABLE_INDEX t x"
  by (simp add: same_head_def)

lemma same_head_trans: "same_head t u \<Longrightarrow> same_head u v \<Longrightarrow> same_head t v"
  by (simp add: same_head_def)

lemma set_entries_head: "set_entries rs t = Ok u \<Longrightarrow> layout_ok t \<Longrightarrow> (\<forall>(x, i, v)\<in>set rs. v < 2 ^ 64) \<Longrightarrow> same_head t u"
proof (induction rs t rule: set_entries.induct)
  case (2 x i v rs b)
  have p: "(x, i) \<in> parts b" using 2(2) by (auto simp: parts_def split: if_splits)
  obtain b' where b: "table_set b x i v = Ok b'" "same_head b b'" using table_set_ok [OF 2(3) p] 2(4) by auto
  have "set_entries rs b' = Ok u" using 2(2) b(1) by (auto split: if_splits)
  moreover have "layout_ok b'" using same_head_layout(1) [OF b(2)] 2(3) by simp
  ultimately have "same_head b' u" using 2(1) [of b'] 2(2,4) by (auto split: if_splits)
  then show ?case by (rule same_head_trans [OF b(2)])
qed (simp add: same_head_def)

text \<open>The same change of two equal tables.\<close>

lemma table_set_same:
  assumes lay: "layout_ok t" "layout_ok u" and e: "same_tables t u" and p: "(x, i) \<in> parts t" and v: "v < 2 ^ 64"
    and t': "\<And>y j. (y, j) \<in> parts t \<Longrightarrow> (y, j) \<noteq> (x, i) \<Longrightarrow> entry t' y j = entry t y j" "entry t' x i = v" "parts t' = parts t"
      "\<And>y. special_file y \<Longrightarrow> VDFS2_LAST_TABLE_INDEX t' y = VDFS2_LAST_TABLE_INDEX t y"
  obtains u' where "table_set u x i v = Ok u'" "same_head u u'" "same_tables t' u'"
proof -
  have pu: "parts u = parts t" by (rule same_tables_parts [OF e])
  have p': "(x, i) \<in> parts u" using p pu by simp
  obtain u' where u: "table_set u x i v = Ok u'" "same_head u u'" "entry u' x i = v"
    "\<And>y j. (y, j) \<in> parts u \<Longrightarrow> (y, j) \<noteq> (x, i) \<Longrightarrow> entry u' y j = entry u y j"
    using table_set_ok [OF lay(2) p' v] by blast
  have "entry u' y j = entry t' y j" if "(y, j) \<in> parts t" for y j
  proof (cases "(y, j) = (x, i)")
    case True
    then show ?thesis using u(3) t'(2) by simp
  next
    case False
    then show ?thesis using u(4) [of y j] t'(1) [of y j] that pu e by (simp add: same_tables_def)
  qed
  moreover have "VDFS2_LAST_TABLE_INDEX u' y = VDFS2_LAST_TABLE_INDEX t' y" if "special_file y" for y
    using same_head_last [OF u(2) that] t'(4) [OF that] e that by (simp add: same_tables_def)
  ultimately have "same_tables t' u'" using t'(3) by (simp add: same_tables_def)
  then show thesis using that u(1,2) by blast
qed

lemma put_record_ok:
  assumes n: "record_addr (n + 1) \<le> length ext" and x: "x < 256" "i < 2 ^ 64" "v < 2 ^ 64"
    and e: "e = wr 4 (put_record ext n x i v) 16 (n + 1)"
  shows "length e = length ext" "\<And>k. k < n \<Longrightarrow> rec_at e k = rec_at ext k" "rec_at e n = (x, i, v)" "n + 1 < 2 ^ 32 \<Longrightarrow> records_count e = n + 1"
proof -
  have a: "record_addr n + 17 \<le> length ext" "20 \<le> record_addr n" using n record_addr_mono(2,3) [of n] by simp_all
  show "length e = length ext" using a by (simp add: e put_record_def)
  show "records_count e = n + 1" if "n + 1 < 2 ^ 32" using a that by (simp add: e put_record_def records_count_def rd_wr_same)
  show "rec_at e n = (x, i, v)" using a x by (simp add: e put_record_def rec_at_def byte_simps)
  show "rec_at e k = rec_at ext k" if "k < n" for k
  proof -
    have "record_addr k + 17 \<le> record_addr n" using record_addr_mono(1) [of "k + 1" n] record_addr_mono(2) [of k] that by simp
    then show ?thesis using a record_addr_mono(3) [of k] by (simp add: e put_record_def rec_at_def byte_simps)
  qed
qed

end
