(* ===== verification/Snapshot_Commit.thy ===== *)
theory Snapshot_Commit
  imports Snapshot_Table
begin

text \<open>
  A commit, \<^verbatim>\<open>vdfs2_sync_metadata\<close>, and the runs of the metadata layer: parts are moved, files
  grow, moved blocks are written, and commits make the present state the one that is found after
  a crash.
\<close>

section \<open>A commit\<close>

record vdfs2_meta_info =
  snap_info :: vdfs2_snapshot_info
  exsb_info :: vdfs2_extended_super_block
  fsm_info :: vdfs2_fsm_info
  meta_mem :: mem

text \<open>What the device answers to the four writes of a commit.\<close>

record sync_io =
  io_second :: ret
  io_meta :: ret
  io_tables :: ret
  io_first :: ret

text \<open>The value carries the table that was written, if it came to that.\<close>

definition vdfs2_sync_metadata ::
  "(u8 list \<Rightarrow> nat) \<Rightarrow> nat \<Rightarrow> sb_geometry \<Rightarrow> sync_io \<Rightarrow> vdfs2_meta_info \<Rightarrow> (nat \<times> u8 list) option \<times> ret \<times> vdfs2_meta_info" where
  "vdfs2_sync_metadata crc32 mount_counter g io w =
     (let d = exsb_dirty (exsb_info w); s = snap_info w; s1 = (if d then s\<lparr>use_base_table := True\<rparr> else s) in
      if dirty_pages_count s = 0 then (None, Success, w)
      else if d \<and> io_second io \<noteq> Success then (None, io_second io, w\<lparr>snap_info := s1\<rparr>)
      else if io_meta io \<noteq> Success then (None, io_meta io, w\<lparr>snap_info := s1\<rparr>)
      else
        (case fsm_rebuild g (fsm_info w) (meta_mem w) of (r, m1, fsm1) \<Rightarrow>
           let w1 = w\<lparr>snap_info := s1, fsm_info := fsm1, meta_mem := m1\<rparr> in
           if r \<noteq> Success then (None, r, w1)
           else
             (case commit_snapshot crc32 mount_counter (exsb_tables_tbc (exsb_info w)) (io_tables io) s1 of (out, r', s2) \<Rightarrow>
                let w2 = w1\<lparr>snap_info := s2\<rparr> in
                if r' \<noteq> Success then (out, r', w2)
                else if d then (out, io_first io, w2\<lparr>exsb_info := (exsb_info w)\<lparr>exsb_dirty := io_first io \<noteq> Success\<rparr>\<rparr>)
                else (out, Success, w2))))"

section \<open>Runs\<close>

text \<open>
  The state in memory, the blocks of the metadata area, the last base table on the device and the
  extended tables behind it, and, for the statements, the tables and the blocks at the last commit.
\<close>

record snap_world =
  meta_info :: vdfs2_meta_info
  blocks :: "nat \<Rightarrow> u8 list"
  dev_base :: "u8 list"
  dev_exts :: "u8 list list"
  saved_tables :: "u8 list"
  saved_blocks :: "nat \<Rightarrow> u8 list"

abbreviation snap :: "snap_world \<Rightarrow> vdfs2_snapshot_info" where "snap w \<equiv> snap_info (meta_info w)"

text \<open>The tables that the extended tables, one after the other, make of a base table.\<close>

fun replay :: "(u8 list \<Rightarrow> nat) \<Rightarrow> u8 list \<Rightarrow> u8 list list \<Rightarrow> u8 list result" where
  "replay crc32 t [] = Ok t"
| "replay crc32 t (e # es) =
     and_then (validate_extended_table crc32 e) (\<lambda>version.
       if version div 2 ^ 32 \<noteq> descr_mount_count t \<or> version mod 2 ^ 32 \<noteq> (descr_sync_count t + 1) mod 2 ^ 32 then Err EINVAL
       else and_then (parse_extended_table t e) (\<lambda>(t', len). replay crc32 t' es))"

definition packed :: "u8 list \<Rightarrow> bool" where
  "packed t \<longleftrightarrow> checksum_offset t = BASE_TABLE_SIZE + sum_list (map (\<lambda>x. 8 * (VDFS2_LAST_TABLE_INDEX t x + 1)) special_files)"

text \<open>A commit that reached the tables leaves the new table on the device.\<close>

definition after_commit :: "(nat \<times> u8 list) option \<Rightarrow> vdfs2_meta_info \<Rightarrow> snap_world \<Rightarrow> snap_world" where
  "after_commit out info w =
     (case out of
        None \<Rightarrow> w\<lparr>meta_info := info\<rparr>
      | Some (isector, t) \<Rightarrow>
          (let w1 = w\<lparr>meta_info := info, saved_tables := base_t (snap_info info), saved_blocks := blocks w\<rparr> in
           if rng t 0 4 = VDFS2_SNAPSHOT_BASE_TABLE then w1\<lparr>dev_base := t, dev_exts := []\<rparr>
           else w1\<lparr>dev_exts := dev_exts w @ [t]\<rparr>))"

text \<open>
  The steps. Only a part that was moved is written. A file grows while the
  tables fit into their pages, which the code relies on without a test; a growth that fails leaves
  the state in use only when the pages of the tables were not freed. Every outcome of a commit is a
  step, except for a failed write of the table.
\<close>

inductive snap_step :: "sb_geometry \<Rightarrow> (u8 list \<Rightarrow> nat) \<Rightarrow> nat \<Rightarrow> snap_world \<Rightarrow> snap_world \<Rightarrow> bool"
  for g :: sb_geometry and crc32 :: "u8 list \<Rightarrow> nat" and mc :: nat where
  add: "vdfs2_add_chunk_no_lock g (snap w) x page = Ok s' \<Longrightarrow>
     snap_step g crc32 mc w (w\<lparr>meta_info := (meta_info w)\<lparr>snap_info := s'\<rparr>\<rparr>)"
| put_block: "(x, i) \<in> parts (base_t (snap w)) \<Longrightarrow> \<not> first_move g (snap w) x i \<Longrightarrow> b \<in> chunk g (base_t (snap w)) x i \<Longrightarrow>
     snap_step g crc32 mc w (w\<lparr>blocks := (blocks w)(b := v)\<rparr>)"
| grow: "vdfs2_check_page_offset g vol (exsb_info (meta_info w)) (fsm_info (meta_info w)) (snap w) x page (meta_mem (meta_info w)) = (r, flag, exsb', fsm', s', m') \<Longrightarrow>
     special_file x \<Longrightarrow> GET_TABLE_INDEX g x page < 2 ^ 32 \<Longrightarrow> exsb_meta_tbc exsb' < 2 ^ 31 \<Longrightarrow> r \<noteq> Oops \<Longrightarrow> \<not> tables_freed s' \<Longrightarrow>
     checksum_offset (base_t (snap w)) + 8 * (GET_TABLE_INDEX g x page - VDFS2_LAST_TABLE_INDEX (base_t (snap w)) x) + CRC32_SIZE
       \<le> tables_pages_count s' * PAGE_SIZE \<Longrightarrow> tables_pages_count s' * PAGE_SIZE < 2 ^ 32 \<Longrightarrow>
     snap_step g crc32 mc w (w\<lparr>meta_info := \<lparr>snap_info = s', exsb_info = exsb', fsm_info = fsm', meta_mem = m'\<rparr>\<rparr>)"
| sync: "vdfs2_sync_metadata crc32 mc g io (meta_info w) = (out, r, info') \<Longrightarrow> r \<noteq> Oops \<Longrightarrow> io_tables io = Success \<Longrightarrow>
     snap_step g crc32 mc w (after_commit out info' w)"

text \<open>
  After mounting: the tables are those on the device, the bitmaps are built from them, and
  the extended superblock is dirty because of the new mount count.
\<close>

definition mounted :: "sb_geometry \<Rightarrow> (u8 list \<Rightarrow> nat) \<Rightarrow> snap_world \<Rightarrow> bool" where
  "mounted g crc32 w \<longleftrightarrow>
     (\<exists>s0. build_snapshot_bitmaps g s0 = Ok (snap w) \<and> snapshot_bitmap s0 = replicate (bitmap_size_in_bits s0) False \<and>
        moved_iblock s0 = replicate (bitmap_size_in_bits s0) False \<and> bitmap_size_in_bits s0 < 2 ^ 31) \<and>
     layout_ok (base_t (snap w)) \<and> placed_ok g (base_t (snap w)) (bitmap_size_in_bits (snap w)) \<and> packed (base_t (snap w)) \<and>
     pages_ok (snap w) \<and> length (base_t (snap w)) < 2 ^ 32 \<and> length (extended_t (snap w)) = PAGE_SIZE \<and> records_count (extended_t (snap w)) = 0 \<and> exsb_dirty (exsb_info (meta_info w)) \<and>
     (\<forall>t. agree (length (dev_base w)) (dev_base w) t \<longrightarrow>
        (\<exists>u. replay crc32 t (dev_exts w) = Ok u \<and> layout_ok u \<and> same_tables (base_t (snap w)) u)) \<and>
     length (dev_exts w) \<le> VDFS2_SNAPSHOT_TABLES_COUNT \<and> saved_tables w = base_t (snap w) \<and> saved_blocks w = blocks w"

inductive snap_reachable :: "sb_geometry \<Rightarrow> (u8 list \<Rightarrow> nat) \<Rightarrow> nat \<Rightarrow> snap_world \<Rightarrow> bool"
  for g :: sb_geometry and crc32 :: "u8 list \<Rightarrow> nat" and mc :: nat where
  start: "mounted g crc32 w \<Longrightarrow> snap_reachable g crc32 mc w"
| step: "snap_reachable g crc32 mc w \<Longrightarrow> snap_step g crc32 mc w w' \<Longrightarrow> snap_reachable g crc32 mc w'"

inductive_cases snap_stepE: "snap_step g crc32 mc w w'"


section \<open>The invariant\<close>

definition next_base :: "vdfs2_meta_info \<Rightarrow> bool" where
  "next_base i \<longleftrightarrow> use_base_table (snap_info i) \<or> exsb_dirty (exsb_info i)"

definition ext_ok :: "vdfs2_snapshot_info \<Rightarrow> bool" where
  "ext_ok s \<longleftrightarrow> length (extended_t s) = PAGE_SIZE \<and> record_addr (records_count (extended_t s)) + CRC32_SIZE \<le> PAGE_SIZE"

text \<open>The records of the extended table make the present tables of those at the last commit.\<close>

definition records_ok :: "vdfs2_snapshot_info \<Rightarrow> u8 list \<Rightarrow> bool" where
  "records_ok s t \<longleftrightarrow>
     (\<exists>u. set_entries (map (rec_at (extended_t s)) [0..<records_count (extended_t s)]) t = Ok u \<and> same_tables (base_t s) u)"

definition version_ok :: "nat \<Rightarrow> vdfs2_snapshot_info \<Rightarrow> u8 list \<Rightarrow> bool" where
  "version_ok mc s t \<longleftrightarrow> descr_mount_count t = mc mod 2 ^ 32 \<and> (descr_sync_count t + 1) mod 2 ^ 32 = sync_count s"

text \<open>What a mount would find on the device.\<close>

definition device_ok :: "(u8 list \<Rightarrow> nat) \<Rightarrow> nat \<Rightarrow> snap_world \<Rightarrow> u8 list \<Rightarrow> bool" where
  "device_ok crc32 mc w t \<longleftrightarrow>
     (\<exists>u. replay crc32 t (dev_exts w) = Ok u \<and> layout_ok u \<and> same_tables (saved_tables w) u \<and>
        (next_base (meta_info w) \<or> version_ok mc (snap w) u \<and> records_ok (snap w) u))"

definition world_inv :: "sb_geometry \<Rightarrow> (u8 list \<Rightarrow> nat) \<Rightarrow> nat \<Rightarrow> snap_world \<Rightarrow> bool" where
  "world_inv g crc32 mc w \<longleftrightarrow>
     snap_inv g (snap w) (all_chunks g (saved_tables w)) \<and> pages_ok (snap w) \<and> packed (base_t (snap w)) \<and>
     length (base_t (snap w)) < 2 ^ 32 \<and> ext_ok (snap w) \<and>
     length (dev_exts w) \<le> VDFS2_SNAPSHOT_TABLES_COUNT \<and>
     (next_base (meta_info w) \<or> length (dev_exts w) = exteneded_table_count (snap w)) \<and>
     (\<forall>t. agree (length (dev_base w)) (dev_base w) t \<longrightarrow> device_ok crc32 mc w t) \<and>
     (\<forall>b\<in>all_chunks g (saved_tables w). blocks w b = saved_blocks w b)"

section \<open>Moving a part\<close>

lemma dirty_update_extended: "dirty_pages_count (update_extended_table g s x page q) = dirty_pages_count s"
  by (simp add: update_extended_table_def Let_def)

lemma add_chunk_OkE:
  assumes "vdfs2_add_chunk_no_lock g s x page = Ok s'"
  obtains "special_file x" "snap_flags s = 0" "GET_TABLE_INDEX g x page \<le> VDFS2_LAST_TABLE_INDEX (base_t s) x" "s' = s"
  | q s2 k where "special_file x" "snap_flags s = 0" "GET_TABLE_INDEX g x page \<le> VDFS2_LAST_TABLE_INDEX (base_t s) x"
    "table_set (base_t s) x (GET_TABLE_INDEX g x page) q = Ok (base_t s2)" "extended_t s2 = extended_t s" "use_base_table s2 = use_base_table s"
    "sync_count s2 = sync_count s" "tables_pages_count s2 = tables_pages_count s" "exteneded_table_count s2 = exteneded_table_count s"
    "bitmap_size_in_bits s2 = bitmap_size_in_bits s" "s' = (update_extended_table g s2 x page q)\<lparr>dirty_pages_count := k\<rparr>"
    "k = (dirty_pages_count s + (if is_tree x then 2 ^ log_blocks_in_leb g else 1)) mod 2 ^ 32"
    "\<exists>q. free_area (snapshot_bitmap s) (bitmap_size_in_bits s) (chunk_size g x) (chunk_size g x) q" "q \<le> bitmap_size_in_bits s"
proof -
  let ?i = "GET_TABLE_INDEX g x page"
  have x: "special_file x" "snap_flags s = 0" using assms by (auto simp: vdfs2_add_chunk_no_lock_def split: if_splits)
  have i: "?i \<le> VDFS2_LAST_TABLE_INDEX (base_t s) x"
    using assms x by (auto simp: vdfs2_add_chunk_no_lock_def vdfs2_get_meta_iblock_def split: if_splits)
  from assms x obtain e where "s' = s \<or> (\<exists>q s2. move_iblock g s x e page = Ok (q, s2) \<and> 
      (let s3 = update_extended_table g s2 x page q in
       s' = s3\<lparr>dirty_pages_count := (dirty_pages_count s3 + (if is_tree x then 2 ^ log_blocks_in_leb g else 1)) mod 2 ^ 32\<rparr>))"
    unfolding vdfs2_add_chunk_no_lock_def Let_def by (force elim!: and_then_OkE split: if_splits result.splits)
  then consider "s' = s" | q s2 k where "move_iblock g s x e page = Ok (q, s2)" "s' = (update_extended_table g s2 x page q)\<lparr>dirty_pages_count := k\<rparr>"
    "k = (dirty_pages_count s2 + (if is_tree x then 2 ^ log_blocks_in_leb g else 1)) mod 2 ^ 32"
    unfolding Let_def dirty_update_extended by blast
  then show thesis
  proof cases
    case 1
    then show thesis using that(1) x i by blast
  next
    case 2
    from 2(1) obtain s1 b t where n: "get_new_meta_iblock g s x = Ok (q, s1)" and t: "table_set (base_t s1) x ?i q = Ok t"
      and s2: "s2 = s1\<lparr>next_snapshot_bitmap := b, base_t := t\<rparr>"
      unfolding move_iblock_def Let_def by (auto elim!: and_then_OkE split: if_splits)
    have s1: "\<exists>b1 b2 b3 h1 h2. s1 = s\<lparr>snapshot_bitmap := b1, next_snapshot_bitmap := b2, moved_iblock := b3, hint_btree := h1, hint_bitmaps := h2\<rparr>"
    proof -
      have "\<exists>b1 b2 b3. s1 = (if is_tree x then s\<lparr>snapshot_bitmap := b1, next_snapshot_bitmap := b2, moved_iblock := b3, hint_btree := q + chunk_size g x\<rparr>
           else s\<lparr>snapshot_bitmap := b1, next_snapshot_bitmap := b2, moved_iblock := b3, hint_bitmaps := q + chunk_size g x\<rparr>)"
        using n unfolding get_new_meta_iblock_def Let_def by (cases "is_tree x") (auto elim!: and_then_OkE split: if_splits)
      then obtain b1 b2 b3 where "s1 = (if is_tree x then s\<lparr>snapshot_bitmap := b1, next_snapshot_bitmap := b2, moved_iblock := b3, hint_btree := q + chunk_size g x\<rparr>
           else s\<lparr>snapshot_bitmap := b1, next_snapshot_bitmap := b2, moved_iblock := b3, hint_bitmaps := q + chunk_size g x\<rparr>)" by blast
      then have "s1 = s\<lparr>snapshot_bitmap := b1, next_snapshot_bitmap := b2, moved_iblock := b3,
         hint_btree := if is_tree x then q + chunk_size g x else hint_btree s, hint_bitmaps := if is_tree x then hint_bitmaps s else q + chunk_size g x\<rparr>" by simp
      then show ?thesis by blast
    qed
    then have f: "base_t s1 = base_t s" "extended_t s1 = extended_t s" "use_base_table s1 = use_base_table s" "sync_count s1 = sync_count s"
      "tables_pages_count s1 = tables_pages_count s" "exteneded_table_count s1 = exteneded_table_count s"
      "dirty_pages_count s1 = dirty_pages_count s" "bitmap_size_in_bits s1 = bitmap_size_in_bits s" by auto
    have fr: "\<exists>q. free_area (snapshot_bitmap s) (bitmap_size_in_bits s) (chunk_size g x) (chunk_size g x) q"
      using no_new_iblock [of s g x] n by (cases "\<exists>q. free_area (snapshot_bitmap s) (bitmap_size_in_bits s) (chunk_size g x) (chunk_size g x) q") auto
    have qs: "q \<le> bitmap_size_in_bits s"
      using n unfolding get_new_meta_iblock_def Let_def by (auto elim!: and_then_OkE split: if_splits)
    show thesis by (rule that(2) [of q s2 k]) (use x i t s2 f fr qs 2(2,3) in simp_all)
  qed
qed

end
