(* ===== verification/Snapshot_Safety.thy ===== *)
theory Snapshot_Safety
  imports Snapshot_Commit
begin

text \<open>Every step of a run keeps the invariant of the metadata layer.\<close>

section \<open>Moving a part\<close>

lemma packed_cong: "same_head t u \<Longrightarrow> packed u = packed t"
proof -
  assume h: "same_head t u"
  have "map (\<lambda>x. 8 * (VDFS2_LAST_TABLE_INDEX u x + 1)) special_files = map (\<lambda>x. 8 * (VDFS2_LAST_TABLE_INDEX t x + 1)) special_files"
  proof (rule map_cong [OF refl])
    fix x assume "x \<in> set special_files"
    then have "special_file x" by (auto simp: special_files_def special_file_def)
    then show "8 * (VDFS2_LAST_TABLE_INDEX u x + 1) = 8 * (VDFS2_LAST_TABLE_INDEX t x + 1)" using same_head_last [OF h] by simp
  qed
  then show ?thesis using h by (simp only: packed_def same_head_def)
qed

lemma layout_length: "layout_ok t \<Longrightarrow> 100 \<le> checksum_offset t" "layout_ok t \<Longrightarrow> 104 \<le> length t"
proof -
  assume lay: "layout_ok t"
  have "special_file VDFS2_FSFILE" by (simp add: special_file_def VDFS2_FSFILE_def VDFS2_LSFILE_def)
  then have "BASE_TABLE_SIZE \<le> VDFS2_GET_TABLE_OFFSET t VDFS2_FSFILE" "table_end t VDFS2_FSFILE \<le> checksum_offset t" "checksum_offset t + CRC32_SIZE \<le> length t"
    using lay by (simp_all add: layout_ok_def)
  then show "100 \<le> checksum_offset t" "104 \<le> length t" by (simp_all add: BASE_TABLE_SIZE_def CRC32_SIZE_def table_end_def table_addr_def)
qed

lemma last_bound: "layout_ok t \<Longrightarrow> special_file x \<Longrightarrow> VDFS2_LAST_TABLE_INDEX t x < 2 ^ 64"
  using rd_bound [of "16 + 8 * VDFS2_SF_INDEX x" 8 t] layout_length(2) [of t] special_fields(1) [of x] by (simp add: VDFS2_LAST_TABLE_INDEX_def)

lemma rec_at_bound:
  assumes "record_addr n \<le> length ext"
  shows "\<forall>(x, i, v)\<in>set (map (rec_at ext) [0..<n]). v < 2 ^ 64"
proof -
  have "rd 8 ext (record_addr k + 9) < 2 ^ 64" if "k < n" for k
    using rd_bound [of "record_addr k + 9" 8 ext] record_addr_mono(1) [of "k + 1" n] record_addr_mono(2) [of k] that assms by simp
  then show ?thesis by (auto simp: rec_at_def)
qed

text \<open>A change of an entry is repeated by the record written for it.\<close>

lemma update_extended_cases:
  assumes e: "ext_ok s" and x: "special_file x" "i = GET_TABLE_INDEX g x page" "i < 2 ^ 64" "v < 2 ^ 64"
  defines "s' \<equiv> update_extended_table g s x page v" and "n \<equiv> records_count (extended_t s)"
  shows "ext_ok s' \<and> (use_base_table s' \<or> records_count (extended_t s') = n + 1 \<and>
    map (rec_at (extended_t s')) [0..<n + 1] = map (rec_at (extended_t s)) [0..<n] @ [(x, i, v)])"
proof (cases "use_base_table s \<or> PAGE_SIZE < record_addr (n + 1) + CRC32_SIZE")
  let ?e = "extended_t s"
  have n: "record_addr n + CRC32_SIZE \<le> PAGE_SIZE" "length ?e = PAGE_SIZE" using e by (simp_all add: ext_ok_def n_def)
  then have n32: "n + 1 < 2 ^ 32" by (simp add: record_addr_def EXTENDED_RECORD_SIZE_def EXTENDED_TABLE_SIZE_def PAGE_SIZE_def)
  have sz: "((n + 1) mod 2 ^ 32 * EXTENDED_RECORD_SIZE + EXTENDED_TABLE_SIZE + CRC32_SIZE) mod 2 ^ 32 = record_addr (n + 1) + CRC32_SIZE"
    using n(1) by (simp add: record_addr_def EXTENDED_RECORD_SIZE_def EXTENDED_TABLE_SIZE_def PAGE_SIZE_def CRC32_SIZE_def)
  {
    case True
    then show ?thesis using e unfolding s'_def update_extended_table_def Let_def n_def [symmetric] sz by (auto simp: ext_ok_def)
  next
    case False
    have ra: "record_addr (n + 1) \<le> length ?e" using False n(2) by simp
    have x8: "x < 256" using x by (simp add: special_file_def VDFS2_LSFILE_def)
    define e' where "e' = wr 4 (put_record ?e n x i v) 16 (n + 1)"
    note P = put_record_ok [OF ra x8 x(3,4) e'_def]
    have up: "s' = s\<lparr>extended_t := e'\<rparr>"
      unfolding s'_def update_extended_table_def Let_def n_def [symmetric] sz using False x(2) by (simp add: e'_def)
    have "map (rec_at e') [0..<n + 1] = map (rec_at ?e) [0..<n] @ [(x, i, v)]" using P(2,3) by simp
    then show ?thesis using up P(1) P(4) [OF n32] n(2) False by (simp add: ext_ok_def)
  }
qed

lemma records_add:
  assumes r: "records_ok s u" and len: "ext_ok s" and lay: "layout_ok (base_t s)" "layout_ok u"
    and p: "(x, i) \<in> parts (base_t s)" "i = GET_TABLE_INDEX g x page" and v: "v < 2 ^ 64"
    and t: "table_set (base_t s) x i v = Ok (base_t s2)" and s2: "extended_t s2 = extended_t s" "use_base_table s2 = use_base_table s"
  shows "use_base_table (update_extended_table g s2 x page v) \<or> records_ok (update_extended_table g s2 x page v) u"
proof (cases "use_base_table (update_extended_table g s2 x page v)")
  case False
  define n where "n = records_count (extended_t s)"
  let ?e = "extended_t s" and ?s = "update_extended_table g s2 x page v"
  have x: "special_file x" "i \<le> VDFS2_LAST_TABLE_INDEX (base_t s) x" using p by (simp_all add: parts_def)
  have i64: "i < 2 ^ 64" using x(2) last_bound [OF lay(1) x(1)] by linarith
  have e2: "ext_ok s2" using len s2 by (simp add: ext_ok_def)
  have up: "records_count (extended_t ?s) = n + 1" "map (rec_at (extended_t ?s)) [0..<n + 1] = map (rec_at ?e) [0..<n] @ [(x, i, v)]"
    using update_extended_cases [OF e2 x(1) p(2) i64 v] False s2 by (simp_all add: n_def)
  obtain w where w: "set_entries (map (rec_at ?e) [0..<n]) u = Ok w" "same_tables (base_t s) w" using r unfolding records_ok_def n_def by blast
  have ra: "record_addr n \<le> length ?e" using len by (simp add: ext_ok_def n_def)
  have hd: "same_head u w" by (rule set_entries_head [OF w(1) lay(2) rec_at_bound [OF ra]])
  have lw: "layout_ok w" using same_head_layout(1) [OF hd] lay(2) by simp
  have tt: "same_head (base_t s) (base_t s2) \<and> entry (base_t s2) x i = v \<and>
     (\<forall>y j. (y, j) \<in> parts (base_t s) \<longrightarrow> (y, j) \<noteq> (x, i) \<longrightarrow> entry (base_t s2) y j = entry (base_t s) y j)"
    by (rule table_set_ok [OF lay(1) p(1) v]) (use t in auto)
  obtain w' where w': "table_set w x i v = Ok w'" "same_tables (base_t s2) w'"
    using table_set_same [OF lay(1) lw w(2) p(1) v, of "base_t s2"] tt same_head_layout(2) [of "base_t s" "base_t s2"]
      same_head_last [of "base_t s" "base_t s2"] by metis
  have li: "\<not> VDFS2_LAST_TABLE_INDEX w x < i" using w(2) x by (simp add: same_tables_def)
  have "set_entries (map (rec_at (extended_t ?s)) [0..<n + 1]) u = Ok w'"
    unfolding up(2) set_entries_append w(1) using x li w'(1) by simp
  then have "records_ok ?s u" using w'(2) up(1) by (simp add: records_ok_def)
  then show ?thesis ..
qed simp

lemma add_chunk_inv:
  assumes run: "vdfs2_add_chunk_no_lock g s x page = Ok s'" and inv: "snap_inv g s C"
  shows "snap_inv g s' C"
proof (rule add_chunk_OkE [OF run])
  assume a: "special_file x" "snap_flags s = 0" "GET_TABLE_INDEX g x page \<le> VDFS2_LAST_TABLE_INDEX (base_t s) x"
    and f: "\<exists>q. free_area (snapshot_bitmap s) (bitmap_size_in_bits s) (chunk_size g x) (chunk_size g x) q"
  show ?thesis using add_chunk_ok [OF inv a(1,2) refl a(3) f] run by auto
qed (use inv in simp)

lemma update_extended_more [simp]:
  "tables_pages_count (update_extended_table g s x pg v) = tables_pages_count s" "sync_count (update_extended_table g s x pg v) = sync_count s"
  "exteneded_table_count (update_extended_table g s x pg v) = exteneded_table_count s"
  "use_base_table s \<Longrightarrow> use_base_table (update_extended_table g s x pg v)"
  by (simp_all add: update_extended_table_def Let_def)


lemma step_add:
  assumes run: "vdfs2_add_chunk_no_lock g (snap w) x page = Ok s'" and inv: "world_inv g crc32 mc w"
  shows "world_inv g crc32 mc (w\<lparr>meta_info := (meta_info w)\<lparr>snap_info := s'\<rparr>\<rparr>)"
proof (rule add_chunk_OkE [OF run])
  let ?i = "GET_TABLE_INDEX g x page" and ?s = "snap w" and ?w = "w\<lparr>meta_info := (meta_info w)\<lparr>snap_info := s'\<rparr>\<rparr>"
  fix q s2 k assume a: "special_file x" "?i \<le> VDFS2_LAST_TABLE_INDEX (base_t ?s) x"
    "table_set (base_t ?s) x ?i q = Ok (base_t s2)" "extended_t s2 = extended_t ?s" "use_base_table s2 = use_base_table ?s"
    "sync_count s2 = sync_count ?s" "tables_pages_count s2 = tables_pages_count ?s" "exteneded_table_count s2 = exteneded_table_count ?s"
    "s' = (update_extended_table g s2 x page q)\<lparr>dirty_pages_count := k\<rparr>" "q \<le> bitmap_size_in_bits ?s"
  have I: "snap_inv g ?s (all_chunks g (saved_tables w))" "pages_ok ?s" "packed (base_t ?s)" "ext_ok ?s"
    using inv by (simp_all add: world_inv_def)
  have lay: "layout_ok (base_t ?s)" "bitmap_size_in_bits ?s < 2 ^ 31" using I(1) by (simp_all add: snap_inv_def)
  have p: "(x, ?i) \<in> parts (base_t ?s)" using a by (simp add: parts_def)
  have q: "q < 2 ^ 64" using a(10) lay(2) by simp
  have hd: "same_head (base_t ?s) (base_t s2)" by (rule table_set_ok [OF lay(1) p q]) (use a(3) in auto)
  have i64: "?i < 2 ^ 64" using a(2) last_bound [OF lay(1) a(1)] by linarith
  have "ext_ok s2" using I(4) a(4) by (simp add: ext_ok_def)
  then have ex: "ext_ok s'" using update_extended_cases [OF _ a(1) refl i64 q, of s2] a(9) by (simp add: ext_ok_def)
  have nb: "next_base (meta_info w) \<Longrightarrow> next_base (meta_info ?w)" using a(5,9) by (auto simp: next_base_def)
  have dev: "device_ok crc32 mc ?w t" if d: "device_ok crc32 mc w t" for t
  proof -
    from d obtain u where u: "replay crc32 t (dev_exts w) = Ok u" "layout_ok u" "same_tables (saved_tables w) u"
      "next_base (meta_info w) \<or> version_ok mc ?s u \<and> records_ok ?s u" unfolding device_ok_def by blast
    have "next_base (meta_info ?w) \<or> version_ok mc s' u \<and> records_ok s' u"
    proof (cases "next_base (meta_info w)")
      case False
      then have "version_ok mc ?s u" "records_ok ?s u" using u(4) by simp_all
      moreover from records_add [OF this(2) I(4) lay(1) u(2) p refl q a(3-5)]
      have "use_base_table s' \<or> records_ok s' u" using a(9) by (simp add: records_ok_def)
      ultimately show ?thesis using a(6,9) by (auto simp: next_base_def version_ok_def)
    qed (use nb in blast)
    then show ?thesis using u(1-3) by (auto simp: device_ok_def)
  qed
  have "snap_inv g s' (all_chunks g (saved_tables w))" by (rule add_chunk_inv [OF run I(1)])
  moreover have "pages_ok s'" using I(2) hd a(7,9) by (simp add: pages_ok_def same_head_def)
  moreover have "packed (base_t s')" using packed_cong [OF hd] I(3) a(9) by simp
  moreover have "next_base (meta_info ?w) \<or> length (dev_exts w) = exteneded_table_count s'" using inv nb a(8,9) by (auto simp: world_inv_def)
  moreover have "length (base_t s') < 2 ^ 32" using inv hd a(9) by (simp add: world_inv_def same_head_def)
  ultimately show ?thesis using inv ex dev by (simp add: world_inv_def)
qed (use inv in simp)

lemma step_put_block:
  assumes inv: "world_inv g crc32 mc w" and p: "(x, i) \<in> parts (base_t (snap w))" "\<not> first_move g (snap w) x i" "b \<in> chunk g (base_t (snap w)) x i"
  shows "world_inv g crc32 mc (w\<lparr>blocks := (blocks w)(b := v)\<rparr>)"
proof -
  have I: "snap_inv g (snap w) (all_chunks g (saved_tables w))" using inv by (simp add: world_inv_def)
  then have "b \<in> bits (moved_iblock (snap w))" using part_facts(5) [OF I p(1)] p(2,3) by blast
  then have "b \<notin> all_chunks g (saved_tables w)" using I unfolding snap_inv_def by blast
  then show ?thesis using inv by (auto simp: world_inv_def device_ok_def)
qed

section \<open>A longer file\<close>

lemma grow_base_exsb:
  "grow_base_table g exsb fsm s m = (r, exsb', fsm', s', m') \<Longrightarrow> exsb_meta_tbc exsb' = exsb_meta_tbc exsb \<and> exsb_dirty exsb' = exsb_dirty exsb"
  unfolding grow_base_table_def Let_def by (auto split: if_splits result.splits prod.splits bool.splits)

lemma expand_tables_exsb:
  "expand_translation_tables g exsb fsm s x l m = (r, exsb', fsm', s', m') \<Longrightarrow> exsb_meta_tbc exsb' = exsb_meta_tbc exsb \<and> exsb_dirty exsb' = exsb_dirty exsb"
  unfolding expand_translation_tables_def by (auto split: prod.splits ret.splits result.splits dest!: grow_base_exsb)

lemma grow_base_cases:
  "grow_base_table g exsb fsm s m = (r, exsb', fsm', s', m') \<Longrightarrow> s' = s \<or> r = Success \<and> tables_pages_count s < tables_pages_count s'"
  unfolding grow_base_table_def Let_def by (auto split: if_splits result.splits prod.splits bool.splits)

lemma grow_bitmaps_fail:
  "grow_bitmaps n grown s m = (r, s', m') \<Longrightarrow> r \<noteq> Success \<Longrightarrow> \<not> tables_freed s' \<Longrightarrow> s' = s \<and> \<not> grown"
  unfolding grow_bitmaps_def Let_def by (auto split: if_splits prod.splits)

text \<open>A growth that fails changes nothing, unless pages in use were freed.\<close>

lemma expand_tables_fail:
  assumes "expand_translation_tables g exsb fsm s x l m = (r, exsb', fsm', s', m')" "r \<noteq> Success" "r \<noteq> Oops" "\<not> tables_freed s'"
  shows "s' = s"
proof -
  obtain r1 exsb1 fsm1 s1 m1 where a: "grow_base_table g exsb fsm s m = (r1, exsb1, fsm1, s1, m1)" by (metis prod_cases5)
  note c = grow_base_cases [OF a]
  show ?thesis
  proof (cases "r1 = Success")
    case False
    then have "s' = s1" using assms(1) a by (auto simp: expand_translation_tables_def split: ret.splits)
    then show ?thesis using c False by simp
  next
    case True
    obtain r2 s2 m2 where b: "grow_bitmaps (exsb_meta_tbc exsb) (tables_pages_count s < tables_pages_count s1) s1 m1 = (r2, s2, m2)" by (metis prod_cases3)
    have "r2 \<noteq> Success" "s' = s2"
      using assms a b True by (auto simp: expand_translation_tables_def split: ret.splits result.splits)
    then have "s' = s1" "\<not> tables_pages_count s < tables_pages_count s1" using grow_bitmaps_fail [OF b] assms(4) by auto
    then show ?thesis using c by simp
  qed
qed

lemma expand_special_file_cases:
  assumes "expand_special_file g vol exsb fsm s x l m = (r, exsb', fsm', s', m')" "r \<noteq> Oops"
  obtains "r \<noteq> Success" "exsb' = exsb" "s' = s"
  | exsb1 fsm1 m1 where "expand_translation_tables g exsb1 fsm1 s x l m1 = (r, exsb', fsm', s', m')" "exsb_dirty exsb \<Longrightarrow> exsb_dirty exsb1"
  using assms unfolding expand_special_file_def Let_def by (auto split: if_splits result.splits prod.splits)

lemma check_page_cases:
  assumes run: "vdfs2_check_page_offset g vol exsb fsm s x page m = (r, flag, exsb', fsm', s', m')" and r: "r \<noteq> Oops" "\<not> tables_freed s'"
  defines "l \<equiv> GET_TABLE_INDEX g x page"
  obtains "s' = s" "exsb_dirty exsb \<Longrightarrow> exsb_dirty exsb'"
  | exsb1 fsm1 s1 m1 where "VDFS2_LAST_TABLE_INDEX (base_t s) x < l" "expand_translation_tables g exsb1 fsm1 s x l m1 = (Success, exsb', fsm', s1, m')"
      "s' = s1\<lparr>use_base_table := True\<rparr>" "exsb_dirty exsb \<Longrightarrow> exsb_dirty exsb'" "exsb_meta_tbc exsb1 = exsb_meta_tbc exsb'"
proof (cases "VDFS2_LAST_TABLE_INDEX (base_t s) x < l")
  case True
  obtain r1 exsb1 fsm1 s1 m1 where e: "expand_special_file g vol exsb fsm s x l m = (r1, exsb1, fsm1, s1, m1)" by (metis prod_cases5)
  have o: "r = r1" "exsb' = exsb1" "fsm' = fsm1" "m' = m1" "s' = (if r1 = Success then s1\<lparr>use_base_table := True\<rparr> else s1)"
    using run True e by (auto simp: vdfs2_check_page_offset_def Let_def l_def split: ret.splits)
  show thesis
  proof (rule expand_special_file_cases [OF e])
    show "r1 \<noteq> Oops" using r o by simp
  next
    assume "r1 \<noteq> Success" "exsb1 = exsb" "s1 = s"
    then show thesis using that(1) o by simp
  next
    fix exsb2 fsm2 m2 assume x: "expand_translation_tables g exsb2 fsm2 s x l m2 = (r1, exsb1, fsm1, s1, m1)" "exsb_dirty exsb \<Longrightarrow> exsb_dirty exsb2"
    note y = expand_tables_exsb [OF x(1)]
    show thesis
    proof (cases "r1 = Success")
      case True
      show thesis by (rule that(2) [of exsb2 fsm2 m2 s1]) (use True x y o \<open>_ < l\<close> in auto)
    next
      case False
      then have "s1 = s" using expand_tables_fail [OF x(1)] r o by simp
      then show thesis using that(1) False o x(2) y by simp
    qed
  qed
next
  case False
  then show thesis using that(1) run by (simp add: vdfs2_check_page_offset_def Let_def l_def)
qed

lemma packed_grown:
  assumes "packed t" and x: "special_file x" and l: "VDFS2_LAST_TABLE_INDEX t x \<le> l"
    and u: "VDFS2_LAST_TABLE_INDEX u x = l" "checksum_offset u = checksum_offset t + 8 * (l - VDFS2_LAST_TABLE_INDEX t x)"
      "\<And>y. special_file y \<Longrightarrow> y \<noteq> x \<Longrightarrow> VDFS2_LAST_TABLE_INDEX u y = VDFS2_LAST_TABLE_INDEX t y"
  shows "packed u"
proof -
  let ?f = "\<lambda>t y. 8 * (VDFS2_LAST_TABLE_INDEX t y + 1)"
  have sf: "y \<in> set special_files \<longleftrightarrow> special_file y" for y by (auto simp: special_files_def special_file_def)
  have d: "distinct special_files" by (simp add: special_files_def)
  have s: "sum_list (map (?f v) special_files) = ?f v x + (\<Sum>y\<in>set special_files - {x}. ?f v y)" for v
    using d x sf by (simp add: sum_list_distinct_conv_sum_set sum.remove)
  have "(\<Sum>y\<in>set special_files - {x}. ?f u y) = (\<Sum>y\<in>set special_files - {x}. ?f t y)" using u(3) sf by (intro sum.cong) auto
  then have "sum_list (map (?f u) special_files) = sum_list (map (?f t) special_files) + 8 * (l - VDFS2_LAST_TABLE_INDEX t x)"
    unfolding s using u(1) l by simp
  then show ?thesis using assms(1) u(2) unfolding packed_def by linarith
qed

lemma step_grow:
  assumes inv: "world_inv g crc32 mc w"
    and run: "vdfs2_check_page_offset g vol (exsb_info (meta_info w)) (fsm_info (meta_info w)) (snap w) x page (meta_mem (meta_info w)) = (r, flag, exsb', fsm', s', m')"
    and ok: "special_file x" "GET_TABLE_INDEX g x page < 2 ^ 32" "exsb_meta_tbc exsb' < 2 ^ 31" "r \<noteq> Oops" "\<not> tables_freed s'"
    and room: "checksum_offset (base_t (snap w)) + 8 * (GET_TABLE_INDEX g x page - VDFS2_LAST_TABLE_INDEX (base_t (snap w)) x) + CRC32_SIZE
       \<le> tables_pages_count s' * PAGE_SIZE" "tables_pages_count s' * PAGE_SIZE < 2 ^ 32"
  shows "world_inv g crc32 mc (w\<lparr>meta_info := \<lparr>snap_info = s', exsb_info = exsb', fsm_info = fsm', meta_mem = m'\<rparr>\<rparr>)"
    (is "world_inv g crc32 mc ?w")
proof (rule check_page_cases [OF run ok(4,5)])
  assume a: "s' = snap w" "exsb_dirty (exsb_info (meta_info w)) \<Longrightarrow> exsb_dirty exsb'"
  have "next_base (meta_info w) \<Longrightarrow> next_base (meta_info ?w)" using a by (auto simp: next_base_def)
  moreover from this have "device_ok crc32 mc w t \<Longrightarrow> device_ok crc32 mc ?w t" for t using a(1) by (auto simp: device_ok_def)
  ultimately show ?thesis using inv a(1) by (auto simp: world_inv_def)
next
  let ?l = "GET_TABLE_INDEX g x page"
  fix exsb1 fsm1 s1 m1 assume a: "VDFS2_LAST_TABLE_INDEX (base_t (snap w)) x < ?l"
    "expand_translation_tables g exsb1 fsm1 (snap w) x ?l m1 = (Success, exsb', fsm', s1, m')" "s' = s1\<lparr>use_base_table := True\<rparr>"
    "exsb_meta_tbc exsb1 = exsb_meta_tbc exsb'"
  have I: "snap_inv g (snap w) (all_chunks g (saved_tables w))" "pages_ok (snap w)" "packed (base_t (snap w))" "ext_ok (snap w)"
    using inv by (simp_all add: world_inv_def)
  have tp: "tables_pages_count s1 = tables_pages_count s'" "base_t s' = base_t s1" using a(3) by simp_all
  have tbc: "exsb_meta_tbc exsb1 < 2 ^ 31" using ok(3) a(4) by simp
  note E = expand_tables_inv [OF a(2) I(1,2) ok(1) less_imp_le [OF a(1)] ok(2) tbc, unfolded tp, OF room]
  have "packed (base_t s')" by (rule packed_grown [OF I(3) ok(1) less_imp_le [OF a(1)]]) (use E tp in auto)
  moreover have "snap_inv g s' (all_chunks g (saved_tables w))" using E by (subst snap_inv_cong [of _ s1]) (simp_all add: a(3))
  moreover have p: "pages_ok s'" "ext_ok s'" using E I(4) by (simp_all add: a(3) pages_ok_def ext_ok_def)
  moreover have "length (base_t s') < 2 ^ 32" using p(1) room(2) by (simp add: pages_ok_def)
  moreover have "next_base (meta_info ?w)" by (simp add: next_base_def a(3))
  moreover from this have "device_ok crc32 mc w t \<Longrightarrow> device_ok crc32 mc ?w t" for t by (auto simp: device_ok_def)
  ultimately show ?thesis using inv by (auto simp: world_inv_def)
qed

end
