(* ===== verification/Snapshot_Sync.thy ===== *)
theory Snapshot_Sync
  imports Snapshot_Safety
begin

text \<open>Commits keep the invariant: what is written, and what replaying it gives.\<close>

section \<open>Commits\<close>

lemma snap_inv_retable:
  assumes inv: "snap_inv g s C" and h: "same_head (base_t s) t" and e: "\<And>x i. (x, i) \<in> parts (base_t s) \<Longrightarrow> entry t x i = entry (base_t s) x i"
    and s': "base_t s' = t" "snapshot_bitmap s' = snapshot_bitmap s" "next_snapshot_bitmap s' = next_snapshot_bitmap s"
      "moved_iblock s' = moved_iblock s" "bitmap_size_in_bits s' = bitmap_size_in_bits s"
  shows "snap_inv g s' C"
proof -
  have I: "layout_ok (base_t s)" "lengths_ok s" "space_ok g (bitmap_size_in_bits s) (base_t s) (parts (base_t s)) s C"
    using inv by (simp_all add: snap_inv_space)
  note l = same_head_layout [OF h]
  have "space_ok g (bitmap_size_in_bits s) t (parts (base_t s)) s C" by (rule space_cong [OF e I(3)])
  then have "space_ok g (bitmap_size_in_bits s') t (parts t) s' C" using space_bits [of s' s] s' l(2) by simp
  then show ?thesis using I(1,2) l(1) s' by (simp add: snap_inv_space lengths_ok_def)
qed

text \<open>A filled base table has the same tables.\<close>

lemma filled_base:
  assumes f: "filled crc32 mc sc type (checksum_offset t) t t'" and lay: "layout_ok t"
  shows "same_head t t'" "same_tables t t'"
proof -
  let ?co = "checksum_offset t"
  have c: "100 \<le> ?co" by (rule layout_length(1) [OF lay])
  have F: "length t' = length t" "checksum_offset t' = ?co" "\<And>w p. 16 \<le> p \<Longrightarrow> p + w \<le> ?co \<Longrightarrow> rd w t' p = rd w t p"
    using f unfolding filled_def by blast+
  have "VDFS2_LAST_TABLE_INDEX t' x = VDFS2_LAST_TABLE_INDEX t x \<and> VDFS2_GET_TABLE_OFFSET t' x = VDFS2_GET_TABLE_OFFSET t x" if "special_file x" for x
    using special_fields [OF that] c by (simp add: VDFS2_LAST_TABLE_INDEX_def VDFS2_GET_TABLE_OFFSET_def F(3))
  then show h: "same_head t t'" using F(1,2) by (simp add: same_head_def)
  have "entry t' x i = entry t x i" if p: "(x, i) \<in> parts t" for x i
  proof -
    have "special_file x" using p by (simp add: parts_def)
    then have "table_addr t' x i = table_addr t x i" by (rule same_head_layout(3) [OF h])
    then show ?thesis using F(3) [of "table_addr t x i" 8] part_addr [OF lay p] by (simp add: entry_def BASE_TABLE_SIZE_def)
  qed
  then show "same_tables t t'" using same_head_last [OF h] by (simp add: same_tables_def)
qed

lemma sum_special: "new_checksum_offset t u SNAPSHOT_BASE_TABLE = checksum_offset t" if "packed t" "16 \<le> length t"
proof -
  have "checksum_offset t < 2 ^ 32" using rd_bound [of 12 4 t] that(2) by (simp add: checksum_offset_def)
  then show ?thesis using that(1) unfolding packed_def new_checksum_offset_def by (simp add: add.commute)
qed

lemma cleared_ext: "length e = PAGE_SIZE \<Longrightarrow> length (put e 0 (replicate EXTENDED_TABLE_SIZE 0)) = PAGE_SIZE"
  "length e = PAGE_SIZE \<Longrightarrow> records_count (put e 0 (replicate EXTENDED_TABLE_SIZE 0)) = 0"
proof -
  assume l: "length e = PAGE_SIZE"
  show "length (put e 0 (replicate EXTENDED_TABLE_SIZE 0)) = PAGE_SIZE" using l by (simp add: PAGE_SIZE_def EXTENDED_TABLE_SIZE_def)
  have "rng (put e 0 (replicate EXTENDED_TABLE_SIZE (0 :: u8))) 16 4 = rng (replicate EXTENDED_TABLE_SIZE 0) 16 4"
    using rng_put_inside [of 0 "replicate EXTENDED_TABLE_SIZE 0" e 16 4] l by (simp add: PAGE_SIZE_def EXTENDED_TABLE_SIZE_def)
  also have "\<dots> = replicate 4 0" by (simp add: rng_def EXTENDED_TABLE_SIZE_def drop_replicate take_replicate)
  finally show "records_count (put e 0 (replicate EXTENDED_TABLE_SIZE 0)) = 0" by (simp add: records_count_def rd_def numeral_eq_Suc)
qed

text \<open>What a commit leaves behind, base table and extended table.\<close>

lemma commit_base:
  assumes lay: "layout_ok (base_t s)" "packed (base_t s)" "length (base_t s) < 2 ^ 32"
    and b: "VDFS2_SNAPSHOT_TABLES_COUNT \<le> exteneded_table_count s \<or> use_base_table s"
  obtains isector isector' t' where
    "commit_snapshot crc32 mc tbc io s = (Some (isector, take (checksum_offset (base_t s) + CRC32_SIZE) t'), io,
       (vdfs2_update_bitmaps s)\<lparr>use_base_table := False, exteneded_table_count := 0, base_t := t', snap_isector := isector',
         sync_count := (sync_count s + 1) mod 2 ^ 32, dirty_pages_count := 0, extended_t := put (extended_t s) 0 (replicate EXTENDED_TABLE_SIZE 0)\<rparr>)"
    "filled crc32 mc (sync_count s) SNAPSHOT_BASE_TABLE (checksum_offset (base_t s)) (base_t s) t'"
proof -
  let ?t = "base_t s" and ?co = "checksum_offset (base_t s)" and ?half = "tbc * 2 ^ (PAGE_SHIFT - 9) mod 2 ^ 32 div 2"
  let ?sec = "if ?half < snap_isector (vdfs2_update_bitmaps s) then 0 else ?half"
  define s0 where "s0 = (vdfs2_update_bitmaps s)\<lparr>use_base_table := False, exteneded_table_count := 0\<rparr>"
  have s0: "base_t s0 = ?t" "sync_count s0 = sync_count s" by (simp_all add: s0_def vdfs2_update_bitmaps_def)
  have co: "?co = new_checksum_offset (base_t s0) ?t SNAPSHOT_BASE_TABLE" "20 \<le> ?co" "?co + CRC32_SIZE \<le> length ?t"
    using sum_special [OF lay(2)] layout_length [OF lay(1)] lay(1) s0 by (simp_all add: layout_ok_def)
  obtain t' where t': "fill_descriptor_and_calculate_crc crc32 mc s0 ?t SNAPSHOT_BASE_TABLE = Ok t'"
    "filled crc32 mc (sync_count s) SNAPSHOT_BASE_TABLE ?co ?t t'" using fill_ok [OF co] s0(2) by metis
  have c': "checksum_offset t' = ?co" using t'(2) by (simp add: filled_def)
  have c32: "(?co + CRC32_SIZE) mod 4294967296 = ?co + CRC32_SIZE" using co(3) lay(3) by simp
  have b': "(VDFS2_SNAPSHOT_TABLES_COUNT \<le> exteneded_table_count (vdfs2_update_bitmaps s) \<or> use_base_table (vdfs2_update_bitmaps s)) = True"
    using b by (simp add: vdfs2_update_bitmaps_def)
  have bt: "base_t (vdfs2_update_bitmaps s) = ?t" "sync_count (vdfs2_update_bitmaps s) = sync_count s" "extended_t (vdfs2_update_bitmaps s) = extended_t s"
    by (simp_all add: vdfs2_update_bitmaps_def)
  show thesis
    by (rule that [of ?sec _ "if io = Success then ?sec + div_round_up (?co + CRC32_SIZE) SECTOR_SIZE else ?sec", OF _ t'(2)])
      (simp add: commit_snapshot_def vdfs2_update_translation_tables_def Let_def b' bt s0_def [symmetric] t'(1) c' c32, (simp add: s0_def)?)
qed

lemma commit_ext:
  assumes e: "ext_ok s" and b: "\<not> (VDFS2_SNAPSHOT_TABLES_COUNT \<le> exteneded_table_count s \<or> use_base_table s)"
  obtains isector isector' t' where
    "commit_snapshot crc32 mc tbc io s = (Some (isector, take (record_addr (records_count (extended_t s)) + CRC32_SIZE) t'), io,
       (vdfs2_update_bitmaps s)\<lparr>exteneded_table_count := exteneded_table_count s + 1, snap_isector := isector',
         sync_count := (sync_count s + 1) mod 2 ^ 32, dirty_pages_count := 0, extended_t := put t' 0 (replicate EXTENDED_TABLE_SIZE 0)\<rparr>)"
    "filled crc32 mc (sync_count s) SNAPSHOT_EXT_TABLE (record_addr (records_count (extended_t s))) (extended_t s) t'"
proof -
  let ?t = "extended_t s"
  define co where "co = record_addr (records_count (extended_t s))"
  define s0 where "s0 = (vdfs2_update_bitmaps s)\<lparr>exteneded_table_count := Suc (exteneded_table_count s)\<rparr>"
  have s0: "extended_t s0 = ?t" "sync_count s0 = sync_count s" by (simp_all add: s0_def vdfs2_update_bitmaps_def)
  have cp: "co + CRC32_SIZE \<le> PAGE_SIZE" "length ?t = PAGE_SIZE" using e by (simp_all add: ext_ok_def co_def)
  then have co: "co = new_checksum_offset (base_t s0) ?t SNAPSHOT_EXT_TABLE" "20 \<le> co" "co + CRC32_SIZE \<le> length ?t"
    using record_addr_mono(3) by (simp_all add: new_checksum_offset_def co_def record_addr_def PAGE_SIZE_def EXTENDED_RECORD_SIZE_def EXTENDED_TABLE_SIZE_def)
  obtain t' where t': "fill_descriptor_and_calculate_crc crc32 mc s0 ?t SNAPSHOT_EXT_TABLE = Ok t'"
    "filled crc32 mc (sync_count s) SNAPSHOT_EXT_TABLE co ?t t'" using fill_ok [OF co] s0(2) by metis
  have c': "checksum_offset t' = co" using t'(2) by (simp add: filled_def)
  have c32: "(co + CRC32_SIZE) mod 4294967296 = co + CRC32_SIZE" using cp by (simp add: PAGE_SIZE_def)
  have b': "(VDFS2_SNAPSHOT_TABLES_COUNT \<le> exteneded_table_count s) = False" "use_base_table (vdfs2_update_bitmaps s) = False"
    using b by (simp_all add: vdfs2_update_bitmaps_def)
  have bt: "exteneded_table_count (vdfs2_update_bitmaps s) = exteneded_table_count s" "sync_count (vdfs2_update_bitmaps s) = sync_count s"
    "extended_t (vdfs2_update_bitmaps s) = extended_t s" by (simp_all add: vdfs2_update_bitmaps_def)
  show thesis
    by (rule that [of "snap_isector (vdfs2_update_bitmaps s)" _ "if io = Success then snap_isector (vdfs2_update_bitmaps s) + div_round_up (co + CRC32_SIZE) SECTOR_SIZE else snap_isector (vdfs2_update_bitmaps s)", OF _ t'(2) [unfolded co_def]])
      (simp add: commit_snapshot_def vdfs2_update_translation_tables_def Let_def b' bt s0_def [symmetric] t'(1) c' c32 co_def [symmetric], (simp add: s0_def)?)
qed

lemma commit_result: "commit_snapshot crc32 mc tbc Success s = (out, r, s') \<Longrightarrow> r = Success \<or> r = Oops"
  unfolding commit_snapshot_def vdfs2_update_translation_tables_def Let_def by (auto split: result.splits)

lemma sync_cases:
  assumes run: "vdfs2_sync_metadata crc32 mc g io i = (out, r, i')" and r: "r \<noteq> Oops" "io_tables io = Success"
  defines "s1 \<equiv> (if exsb_dirty (exsb_info i) then (snap_info i)\<lparr>use_base_table := True\<rparr> else snap_info i)"
  obtains "out = None" "snap_info i' = snap_info i \<or> snap_info i' = s1" "exsb_info i' = exsb_info i"
  | tbc where "commit_snapshot crc32 mc tbc Success s1 = (out, Success, snap_info i')" "exsb_dirty (exsb_info i') \<Longrightarrow> exsb_dirty (exsb_info i)"
proof -
  obtain r0 m1 fsm1 where f: "fsm_rebuild g (fsm_info i) (meta_mem i) = (r0, m1, fsm1)" by (metis prod_cases3)
  obtain out' r' s2 where c: "commit_snapshot crc32 mc (exsb_tables_tbc (exsb_info i)) Success s1 = (out', r', s2)" by (metis prod_cases3)
  note cr = commit_result [OF c]
  show thesis
    using run r f c cr that(1) that(2) [of "exsb_tables_tbc (exsb_info i)"]
    unfolding vdfs2_sync_metadata_def Let_def s1_def [symmetric] by (auto split: if_splits)
qed

section \<open>Replaying the extended tables\<close>

lemma replay_append: "replay crc32 t (es @ fs) = and_then (replay crc32 t es) (\<lambda>u. replay crc32 u fs)"
proof (induction crc32 t es rule: replay.induct)
  case (2 crc32 t e es)
  show ?case
  proof (cases "validate_extended_table crc32 e")
    case (Ok v)
    show ?thesis
    proof (cases "v div 2 ^ 32 \<noteq> descr_mount_count t \<or> v mod 2 ^ 32 \<noteq> (descr_sync_count t + 1) mod 2 ^ 32")
      case False
      then show ?thesis using 2 [OF False] Ok by (cases "parse_extended_table t e") auto
    qed (simp add: Ok)
  qed simp_all
qed simp

text \<open>An extended table as it was written, and any page that starts with it.\<close>

lemma replay_one:
  assumes f: "filled crc32 mc sc SNAPSHOT_EXT_TABLE (record_addr n) ext t'" and n: "n = records_count ext"
    and a: "agree (record_addr n + CRC32_SIZE) t' e" and c: "\<And>b. crc32 b < 2 ^ 32"
    and u: "set_entries (map (rec_at ext) [0..<n]) u = Ok v"
    and ver: "descr_mount_count u = mc mod 2 ^ 32" "(descr_sync_count u + 1) mod 2 ^ 32 = sc mod 2 ^ 32"
  shows "replay crc32 u [e] = Ok (wr 4 (wr 4 v 4 (mc mod 2 ^ 32)) 8 (sc mod 2 ^ 32))"
proof -
  have F: "length t' = length ext" "record_addr n + CRC32_SIZE \<le> length t'" "20 \<le> record_addr n" "checksum_offset t' = record_addr n"
    "descr_mount_count t' = mc mod 2 ^ 32" "descr_sync_count t' = sc mod 2 ^ 32"
    "\<And>w p. 16 \<le> p \<Longrightarrow> p + w \<le> record_addr n \<Longrightarrow> rd w t' p = rd w ext p" using f unfolding filled_def by blast+
  have A: "agree (record_addr n) t' e" by (rule agree_less [OF a]) simp
  have val: "validate_extended_table crc32 e = Ok (mc mod 2 ^ 32 * 2 ^ 32 + sc mod 2 ^ 32)"
    using validate_ok [OF f a c] by (simp add: validate_extended_table_def table_signature_def)
  have rc: "records_count e = n"
    using agree_fields(4) [OF A F(3)] F(7) [of 16 4] F(3) n by (simp add: records_count_def)
  have "rec_at e k = rec_at ext k" if "k < n" for k
  proof -
    have k: "record_addr k + 17 \<le> record_addr n" "20 \<le> record_addr k"
      using record_addr_mono(1) [of "k + 1" n] record_addr_mono(2,3) [of k] that by simp_all
    then show ?thesis using agree_rd [OF A] F(7) by (simp add: rec_at_def)
  qed
  then have m: "map (rec_at e) [0..<0 + n] = map (rec_at ext) [0..<n]" by simp
  have "record_addr (0 + n) \<le> length e" using A by (simp add: agree_def)
  then have pr: "parse_records e 0 n u = Ok v" by (simp only: parse_records_eq m u)
  have fe: "descr_mount_count e = mc mod 2 ^ 32" "descr_sync_count e = sc mod 2 ^ 32" using agree_fields [OF A F(3)] F(5,6) by simp_all
  show ?thesis using val ver by (simp add: parse_extended_table_def rc pr fe)
qed

lemma new_version_ok:
  assumes lay: "layout_ok v" and u: "u = wr 4 (wr 4 v 4 a) 8 b"
  shows "layout_ok u" "same_tables v u" "descr_mount_count u = a mod 2 ^ 32" "descr_sync_count u = b mod 2 ^ 32"
proof -
  have l: "104 \<le> length v" by (rule layout_length(2) [OF lay])
  have r: "rd w u p = rd w v p" if "12 \<le> p" "p + w \<le> length v" for w p using that l by (simp add: u byte_simps)
  have lu: "length u = length v" using l by (simp add: u)
  have "VDFS2_LAST_TABLE_INDEX u x = VDFS2_LAST_TABLE_INDEX v x \<and> VDFS2_GET_TABLE_OFFSET u x = VDFS2_GET_TABLE_OFFSET v x" if "special_file x" for x
    using special_fields [OF that] l by (simp add: VDFS2_LAST_TABLE_INDEX_def VDFS2_GET_TABLE_OFFSET_def r)
  then have h: "same_head v u" using l lu r [of 12 4] by (simp add: same_head_def checksum_offset_def)
  show "layout_ok u" using same_head_layout(1) [OF h] lay by simp
  have "entry u x i = entry v x i" if p: "(x, i) \<in> parts v" for x i
  proof -
    have "table_addr u x i = table_addr v x i" using same_head_layout(3) [OF h] p by (simp add: parts_def)
    then show ?thesis using r part_addr [OF lay p] by (simp add: entry_def BASE_TABLE_SIZE_def)
  qed
  then show "same_tables v u" using same_head_last [OF h] by (simp add: same_tables_def)
  show "descr_mount_count u = a mod 2 ^ 32" "descr_sync_count u = b mod 2 ^ 32"
    using l by (simp_all add: u descr_mount_count_def descr_sync_count_def byte_simps)
qed

section \<open>A commit keeps the invariant\<close>

lemma commit_bits:
  assumes "snap_inv g s C"
  shows "snap_inv g (vdfs2_update_bitmaps s) (all_chunks g (base_t s))"
proof -
  have "bits (next_snapshot_bitmap s) = all_chunks g (base_t s)" using assms by (simp add: snap_inv_def)
  then show ?thesis using commit_inv [OF assms] by simp
qed

text \<open>Whatever the device answers, the present state is taken for the committed one.\<close>

lemma commit_keeps:
  assumes inv: "snap_inv g s C" and pk: "packed (base_t s)" "length (base_t s) < 2 ^ 32" "ext_ok s"
  obtains out s' where "commit_snapshot crc32 mc tbc io s = (Some out, io, s')" "snap_inv g s' (all_chunks g (base_t s))"
    "same_tables (base_t s) (base_t s')" "snap_flags s' = snap_flags s" "bitmap_size_in_bits s' = bitmap_size_in_bits s"
    "bits (moved_iblock s') = {}" "bits (snapshot_bitmap s') = all_chunks g (base_t s)" "dirty_pages_count s' = 0"
proof -
  let ?b = "vdfs2_update_bitmaps s"
  have lay: "layout_ok (base_t s)" using inv by (simp add: snap_inv_def)
  note ci = commit_bits [OF inv]
  have mv: "bits (moved_iblock ?b) = {}" by (auto simp: vdfs2_update_bitmaps_def bits_def)
  have sb: "bits (snapshot_bitmap ?b) = all_chunks g (base_t s)" using inv by (simp add: snap_inv_def vdfs2_update_bitmaps_def)
  have ub: "base_t ?b = base_t s" "snap_flags ?b = snap_flags s" "bitmap_size_in_bits ?b = bitmap_size_in_bits s" by (simp_all add: vdfs2_update_bitmaps_def)
  show thesis
  proof (cases "VDFS2_SNAPSHOT_TABLES_COUNT \<le> exteneded_table_count s \<or> use_base_table s")
    case True
    obtain sec sec' t' where c: "commit_snapshot crc32 mc tbc io s = (Some (sec, take (checksum_offset (base_t s) + CRC32_SIZE) t'), io,
       ?b\<lparr>use_base_table := False, exteneded_table_count := 0, base_t := t', snap_isector := sec',
         sync_count := (sync_count s + 1) mod 2 ^ 32, dirty_pages_count := 0, extended_t := put (extended_t s) 0 (replicate EXTENDED_TABLE_SIZE 0)\<rparr>)"
      and fl: "filled crc32 mc (sync_count s) SNAPSHOT_BASE_TABLE (checksum_offset (base_t s)) (base_t s) t'"
      using commit_base [OF lay pk(1,2) True, of crc32 mc tbc io] by metis
    note hd = filled_base [OF fl lay]
    show thesis
      by (rule that [OF c], rule snap_inv_retable [OF ci]) (use hd ub mv sb in \<open>simp_all add: same_tables_def\<close>)
  next
    case False
    obtain sec sec' t' where c: "commit_snapshot crc32 mc tbc io s = (Some (sec, take (record_addr (records_count (extended_t s)) + CRC32_SIZE) t'), io,
       ?b\<lparr>exteneded_table_count := exteneded_table_count s + 1, snap_isector := sec',
         sync_count := (sync_count s + 1) mod 2 ^ 32, dirty_pages_count := 0, extended_t := put t' 0 (replicate EXTENDED_TABLE_SIZE 0)\<rparr>)"
      using commit_ext [OF pk(3) False, of crc32 mc tbc io] by metis
    show thesis
      by (rule that [OF c], subst snap_inv_cong [of _ ?b]) (use ci ub mv sb in simp_all)
  qed
qed

lemma step_commit_base:
  assumes inv: "world_inv g crc32 mc w" and b: "VDFS2_SNAPSHOT_TABLES_COUNT \<le> exteneded_table_count s1 \<or> use_base_table s1"
    and s1: "s1 = snap w \<or> s1 = (snap w)\<lparr>use_base_table := True\<rparr>"
    and run: "commit_snapshot crc32 mc tbc Success s1 = (out, Success, snap_info i')"
  shows "world_inv g crc32 mc (after_commit out i' w)"
proof -
  let ?s' = "snap_info i'" and ?t = "base_t (snap w)" and ?C = "all_chunks g (saved_tables w)"
  have I: "snap_inv g (snap w) ?C" "pages_ok (snap w)" "packed ?t" "ext_ok (snap w)" "length ?t < 2 ^ 32"
    using inv by (simp_all add: world_inv_def)
  have f1: "base_t s1 = ?t" "extended_t s1 = extended_t (snap w)" "tables_pages_count s1 = tables_pages_count (snap w)" using s1 by auto
  have lay: "layout_ok ?t" using I(1) by (simp add: snap_inv_def)
  obtain sec sec' t' where c: "commit_snapshot crc32 mc tbc Success s1 = (Some (sec, take (checksum_offset ?t + CRC32_SIZE) t'), Success,
       (vdfs2_update_bitmaps s1)\<lparr>use_base_table := False, exteneded_table_count := 0, base_t := t', snap_isector := sec',
         sync_count := (sync_count s1 + 1) mod 2 ^ 32, dirty_pages_count := 0, extended_t := put (extended_t s1) 0 (replicate EXTENDED_TABLE_SIZE 0)\<rparr>)"
    and fl: "filled crc32 mc (sync_count s1) SNAPSHOT_BASE_TABLE (checksum_offset ?t) ?t t'"
    using commit_base [of s1 crc32 mc tbc Success] lay I(3,5) b f1(1) by metis
  define e where "e = take (checksum_offset ?t + CRC32_SIZE) t'"
  have o: "out = Some (sec, e)" and s': "?s' = (vdfs2_update_bitmaps s1)\<lparr>use_base_table := False, exteneded_table_count := 0, base_t := t', snap_isector := sec',
         sync_count := (sync_count s1 + 1) mod 2 ^ 32, dirty_pages_count := 0, extended_t := put (extended_t s1) 0 (replicate EXTENDED_TABLE_SIZE 0)\<rparr>"
    using c run by (simp_all add: e_def)
  have F: "length t' = length ?t" "checksum_offset ?t + CRC32_SIZE \<le> length t'" "20 \<le> checksum_offset ?t" "rng t' 0 4 = VDFS2_SNAPSHOT_BASE_TABLE"
    "checksum_offset t' = checksum_offset ?t" "descr_mount_count t' = mc mod 2 ^ 32" "descr_sync_count t' = sync_count s1 mod 2 ^ 32"
    using fl by (simp_all add: filled_def table_signature_def)
  note hd = filled_base [OF fl lay]
  have lt: "layout_ok t'" using same_head_layout(1) [OF hd(1)] lay by simp
  have le: "length e = checksum_offset ?t + CRC32_SIZE" "agree (length e) t' e" using F(2) by (simp_all add: e_def agree_def)
  have sig: "rng e 0 4 = VDFS2_SNAPSHOT_BASE_TABLE" using agree_rng [OF le(2), of 0 4] F(3,4) le(1) by simp
  define w' where "w' = w\<lparr>meta_info := i', saved_tables := t', saved_blocks := blocks w, dev_base := e, dev_exts := []\<rparr>"
  have w': "after_commit out i' w = w'" using o sig s' by (simp add: after_commit_def w'_def)
  have ex: "length (extended_t ?s') = PAGE_SIZE" "records_count (extended_t ?s') = 0"
    using cleared_ext [of "extended_t (snap w)"] I(4) f1(2) s' by (simp_all add: ext_ok_def)
  have dev: "device_ok crc32 mc w' t" if a: "agree (length e) e t" for t
  proof -
    have ag: "agree (checksum_offset t' + CRC32_SIZE) t' t" using a le F(5) by (simp add: agree_def)
    note T = agree_tables [OF ag lt]
    have st: "same_tables t' t" using T(4,5) by (simp add: same_tables_def)
    have "descr_mount_count t = mc mod 2 ^ 32" "descr_sync_count t = sync_count s1 mod 2 ^ 32"
      using agree_fields [OF ag] F(3,5-7) by simp_all
    then have "version_ok mc ?s' t" by (simp add: version_ok_def s' mod_Suc_eq)
    moreover have "records_ok ?s' t" using ex(2) st s' by (simp add: records_ok_def)
    ultimately show ?thesis using T(1) st by (simp add: device_ok_def w'_def)
  qed
  have "snap_inv g s1 ?C" using I(1) s1 snap_inv_cong [of s1 "snap w"] by auto
  from commit_bits [OF this] have "snap_inv g (vdfs2_update_bitmaps s1) (all_chunks g ?t)" by (simp only: f1(1))
  then have "snap_inv g ?s' (all_chunks g ?t)"
    by (rule snap_inv_retable) (use hd f1 in \<open>simp_all add: s' vdfs2_update_bitmaps_def same_tables_def\<close>)
  then have "snap_inv g ?s' (all_chunks g t')" using same_tables_chunks [OF hd(2)] by simp
  moreover have "pages_ok ?s'" using I(2) F(1) f1 by (simp add: pages_ok_def s' vdfs2_update_bitmaps_def)
  moreover have "packed t'" using packed_cong [OF hd(1)] I(3) by simp
  moreover have "ext_ok ?s'" using ex by (simp add: ext_ok_def record_addr_def EXTENDED_TABLE_SIZE_def PAGE_SIZE_def CRC32_SIZE_def)
  moreover have "exteneded_table_count ?s' = 0" by (simp add: s')
  ultimately show ?thesis unfolding w' using dev I(5) F(1) by (simp add: world_inv_def w'_def s')
qed

lemma step_commit_ext:
  assumes inv: "world_inv g crc32 mc w" and c32: "\<And>b. crc32 b < 2 ^ 32" and b: "\<not> (VDFS2_SNAPSHOT_TABLES_COUNT \<le> exteneded_table_count (snap w) \<or> use_base_table (snap w))"
    and d: "\<not> exsb_dirty (exsb_info (meta_info w))"
    and run: "commit_snapshot crc32 mc tbc Success (snap w) = (out, Success, snap_info i')"
  shows "world_inv g crc32 mc (after_commit out i' w)"
proof -
  let ?s = "snap w" and ?s' = "snap_info i'" and ?t = "base_t (snap w)" and ?x = "extended_t (snap w)"
  define n where "n = records_count ?x"
  have I: "snap_inv g ?s (all_chunks g (saved_tables w))" "pages_ok ?s" "packed ?t" "ext_ok ?s" "length ?t < 2 ^ 32"
    using inv by (simp_all add: world_inv_def)
  obtain sec sec' t' where c: "commit_snapshot crc32 mc tbc Success ?s = (Some (sec, take (record_addr n + CRC32_SIZE) t'), Success,
       (vdfs2_update_bitmaps ?s)\<lparr>exteneded_table_count := exteneded_table_count ?s + 1, snap_isector := sec',
         sync_count := (sync_count ?s + 1) mod 2 ^ 32, dirty_pages_count := 0, extended_t := put t' 0 (replicate EXTENDED_TABLE_SIZE 0)\<rparr>)"
    and fl: "filled crc32 mc (sync_count ?s) SNAPSHOT_EXT_TABLE (record_addr n) ?x t'"
    using commit_ext [OF I(4) b, of crc32 mc tbc Success] unfolding n_def by metis
  define e where "e = take (record_addr n + CRC32_SIZE) t'"
  have o: "out = Some (sec, e)" and s': "?s' = (vdfs2_update_bitmaps ?s)\<lparr>exteneded_table_count := exteneded_table_count ?s + 1, snap_isector := sec',
         sync_count := (sync_count ?s + 1) mod 2 ^ 32, dirty_pages_count := 0, extended_t := put t' 0 (replicate EXTENDED_TABLE_SIZE 0)\<rparr>"
    using c run by (simp_all add: e_def)
  have f': "base_t ?s' = ?t" "tables_pages_count ?s' = tables_pages_count ?s" by (simp_all add: s' vdfs2_update_bitmaps_def)
  have F: "length t' = PAGE_SIZE" "record_addr n + CRC32_SIZE \<le> length t'" "20 \<le> record_addr n" "rng t' 0 4 = VDFS2_SNAPSHOT_EXTENDED_TABLE"
    using fl I(4) by (simp_all add: filled_def table_signature_def ext_ok_def)
  have le: "agree (record_addr n + CRC32_SIZE) t' e" using F(2) by (simp add: e_def agree_def)
  have sig: "rng e 0 4 \<noteq> VDFS2_SNAPSHOT_BASE_TABLE"
    using agree_rng [OF le, of 0 4] F(3,4) by (simp add: VDFS2_SNAPSHOT_BASE_TABLE_def VDFS2_SNAPSHOT_EXTENDED_TABLE_def)
  define w' where "w' = w\<lparr>meta_info := i', saved_tables := ?t, saved_blocks := blocks w, dev_exts := dev_exts w @ [e]\<rparr>"
  have w': "after_commit out i' w = w'" using o sig f'(1) by (simp add: after_commit_def w'_def)
  have ex: "length (extended_t ?s') = PAGE_SIZE" "records_count (extended_t ?s') = 0" using cleared_ext [OF F(1)] s' by simp_all
  have nb: "\<not> next_base (meta_info w)" using b d by (simp add: next_base_def)
  have dev: "device_ok crc32 mc w' t" if "agree (length (dev_base w)) (dev_base w) t" for t
  proof -
    have "device_ok crc32 mc w t" using inv that by (simp add: world_inv_def)
    then obtain u where u: "replay crc32 t (dev_exts w) = Ok u" "layout_ok u" "version_ok mc ?s u" "records_ok ?s u"
      using nb by (auto simp: device_ok_def)
    obtain v where v: "set_entries (map (rec_at ?x) [0..<n]) u = Ok v" "same_tables ?t v" using u(4) unfolding records_ok_def n_def by blast
    have ra: "record_addr n \<le> length ?x" using I(4) by (simp add: ext_ok_def n_def)
    have hd: "same_head u v" by (rule set_entries_head [OF v(1) u(2) rec_at_bound [OF ra]])
    have lv: "layout_ok v" using same_head_layout(1) [OF hd] u(2) by simp
    have vu: "descr_mount_count u = mc mod 2 ^ 32" "(descr_sync_count u + 1) mod 2 ^ 32 = sync_count ?s" using u(3) by (simp_all add: version_ok_def)
    have sm: "sync_count ?s mod 2 ^ 32 = sync_count ?s" using vu(2) by (metis mod_mod_trivial)
    define z where "z = wr 4 (wr 4 v 4 (mc mod 2 ^ 32)) 8 (sync_count ?s mod 2 ^ 32)"
    note Z = new_version_ok [OF lv z_def]
    have "replay crc32 u [e] = Ok z"
      unfolding z_def by (rule replay_one [OF fl n_def le c32 v(1) vu(1)]) (use vu(2) sm in simp)
    then have "replay crc32 t (dev_exts w @ [e]) = Ok z" using u(1) by (simp add: replay_append)
    moreover have st: "same_tables ?t z" by (rule same_tables_trans [OF v(2) Z(2)])
    moreover have "version_ok mc ?s' z" using Z(3,4) by (simp add: version_ok_def s' mod_Suc_eq)
    moreover have "records_ok ?s' z" using ex(2) st f'(1) by (simp add: records_ok_def)
    ultimately show ?thesis using Z(1) by (simp add: device_ok_def w'_def)
  qed
  have "snap_inv g ?s' (all_chunks g ?t)"
    using commit_bits [OF I(1)] by (subst snap_inv_cong [of _ "vdfs2_update_bitmaps ?s"]) (simp_all add: s')
  moreover have "pages_ok ?s'" using I(2) f' by (simp add: pages_ok_def)
  moreover have "ext_ok ?s'" using ex by (simp add: ext_ok_def record_addr_def EXTENDED_TABLE_SIZE_def PAGE_SIZE_def CRC32_SIZE_def)
  moreover have "length (dev_exts w) = exteneded_table_count ?s" using inv nb by (simp add: world_inv_def)
  moreover have "exteneded_table_count ?s' = exteneded_table_count ?s + 1" by (simp add: s')
  ultimately show ?thesis unfolding w' using dev I(3,5) f'(1) b by (simp add: world_inv_def w'_def)
qed

lemma step_sync:
  assumes inv: "world_inv g crc32 mc w" and c32: "\<And>b. crc32 b < 2 ^ 32"
    and run: "vdfs2_sync_metadata crc32 mc g io (meta_info w) = (out, r, i')" "r \<noteq> Oops" "io_tables io = Success"
  shows "world_inv g crc32 mc (after_commit out i' w)"
proof (rule sync_cases [OF run])
  let ?d = "exsb_dirty (exsb_info (meta_info w))"
  assume a: "out = None" "snap_info i' = snap w \<or> snap_info i' = (if ?d then (snap w)\<lparr>use_base_table := True\<rparr> else snap w)" "exsb_info i' = exsb_info (meta_info w)"
  let ?w = "w\<lparr>meta_info := i'\<rparr>"
  have f: "base_t (snap ?w) = base_t (snap w)" "extended_t (snap ?w) = extended_t (snap w)" "sync_count (snap ?w) = sync_count (snap w)"
    "tables_pages_count (snap ?w) = tables_pages_count (snap w)" "exteneded_table_count (snap ?w) = exteneded_table_count (snap w)"
    "\<And>C. snap_inv g (snap ?w) C = snap_inv g (snap w) C" using a(2) snap_inv_cong [of "snap ?w" "snap w" g] by (auto split: if_splits)
  have nb: "next_base (meta_info ?w) = next_base (meta_info w)" using a(2,3) by (auto simp: next_base_def split: if_splits)
  have dv: "device_ok crc32 mc ?w t = device_ok crc32 mc w t" for t
    unfolding device_ok_def version_ok_def records_ok_def nb using f by simp
  show ?thesis using inv f nb dv a(1) by (simp add: world_inv_def after_commit_def pages_ok_def ext_ok_def)
next
  let ?d = "exsb_dirty (exsb_info (meta_info w))"
  let ?s1 = "if ?d then (snap w)\<lparr>use_base_table := True\<rparr> else snap w"
  fix tbc assume c: "commit_snapshot crc32 mc tbc Success ?s1 = (out, Success, snap_info i')"
  show ?thesis
  proof (cases "VDFS2_SNAPSHOT_TABLES_COUNT \<le> exteneded_table_count ?s1 \<or> use_base_table ?s1")
    case True
    then show ?thesis by (rule step_commit_base [OF inv _ _ c]) simp
  next
    case False
    then have "\<not> ?d" by auto
    then show ?thesis using step_commit_ext [OF inv c32 _ _] False c by simp
  qed
qed

lemma snap_step_inv:
  assumes "snap_step g crc32 mc w w'" "world_inv g crc32 mc w" "\<And>b. crc32 b < 2 ^ 32"
  shows "world_inv g crc32 mc w'"
  using assms(1)
proof cases
  case (add x page s')
  then show ?thesis using step_add [OF _ assms(2)] by simp
next
  case (put_block x i b v)
  then show ?thesis using step_put_block [OF assms(2)] by simp
next
  case grow
  then show ?thesis using step_grow [OF assms(2)] by simp
next
  case (sync io out r info')
  then show ?thesis using step_sync [OF assms(2,3)] by simp
qed

end
