(* ===== verification/Snapshot_Mount.thy ===== *)
theory Snapshot_Mount
  imports Snapshot_Sync
begin

text \<open>Mounting: the bitmaps built from the tables, and the extended tables read from the device.\<close>

section \<open>The bitmaps\<close>

lemma set_chunks_ok:
  assumes lay: "layout_ok t" and p: "\<And>k. i \<le> k \<Longrightarrow> k < i + n \<Longrightarrow> (x, k) \<in> parts t \<and> entry t x k + nr \<le> length bm"
    and l: "length bm < 2 ^ 31"
  shows "\<exists>bm'. set_chunks nr t x i n bm = Ok bm' \<and> length bm' = length bm \<and>
    bits bm' = bits bm \<union> (\<Union>k\<in>{i..<i + n}. {entry t x k..<entry t x k + nr})"
  using p l
proof (induction n arbitrary: i bm)
  case (Suc n)
  have p0: "(x, i) \<in> parts t" "entry t x i + nr \<le> length bm" using Suc.prems(1) [of i] by simp_all
  have e32: "entry t x i < 2 ^ 32" using p0(2) Suc.prems(2) by simp
  obtain b where b: "bitmap_set bm (entry t x i) nr = Ok b" "length b = length bm" "bits b = bits bm \<union> {entry t x i..<entry t x i + nr}"
    using bitmap_set_ok [OF p0(2) e32] by blast
  have "\<exists>bm'. set_chunks nr t x (i + 1) n b = Ok bm' \<and> length bm' = length b \<and>
      bits bm' = bits b \<union> (\<Union>k\<in>{i + 1..<i + 1 + n}. {entry t x k..<entry t x k + nr})"
    by (rule Suc.IH) (use Suc.prems b(2) in simp_all)
  moreover have "{i..<i + Suc n} = insert i {i + 1..<i + 1 + n}" by auto
  ultimately show ?case using table_get_ok [OF lay p0(1)] b by auto
qed simp

lemma set_files_ok:
  assumes lay: "layout_ok t" and p: "\<And>x i. (x, i) \<in> parts t \<Longrightarrow> entry t x i + chunk_size g x \<le> length bm"
    and l: "length bm < 2 ^ 31" and xs: "\<And>x. x \<in> set xs \<Longrightarrow> special_file x"
  shows "\<exists>bm'. set_files g t xs bm = Ok bm' \<and> length bm' = length bm \<and>
    bits bm' = bits bm \<union> {b. \<exists>x i. x \<in> set xs \<and> (x, i) \<in> parts t \<and> b \<in> chunk g t x i}"
  using p l xs
proof (induction xs arbitrary: bm)
  case (Cons x xs)
  have x: "special_file x" using Cons.prems(3) by simp
  have o: "VDFS2_GET_TABLE_OFFSET t x \<noteq> 0" using lay x by (auto simp: layout_ok_def BASE_TABLE_SIZE_def)
  let ?n = "VDFS2_LAST_TABLE_INDEX t x + 1"
  have pk: "(x, k) \<in> parts t" if "k < ?n" for k using that x by (simp add: parts_def)
  have "\<exists>b. set_chunks (chunk_size g x) t x 0 ?n bm = Ok b \<and> length b = length bm \<and>
      bits b = bits bm \<union> (\<Union>k\<in>{0..<0 + ?n}. {entry t x k..<entry t x k + chunk_size g x})"
    by (rule set_chunks_ok [OF lay _ Cons.prems(2)]) (use pk Cons.prems(1) in simp)
  then obtain b where b: "set_chunks (chunk_size g x) t x 0 ?n bm = Ok b" "length b = length bm"
      "bits b = bits bm \<union> (\<Union>k\<in>{0..<0 + ?n}. {entry t x k..<entry t x k + chunk_size g x})" by blast
  have "\<exists>bm'. set_files g t xs b = Ok bm' \<and> length bm' = length b \<and>
      bits bm' = bits b \<union> {b. \<exists>x i. x \<in> set xs \<and> (x, i) \<in> parts t \<and> b \<in> chunk g t x i}"
    by (rule Cons.IH) (use Cons.prems b(2) in simp_all)
  then obtain bm' where bm': "set_files g t xs b = Ok bm'" "length bm' = length b"
    "bits bm' = bits b \<union> {b. \<exists>x i. x \<in> set xs \<and> (x, i) \<in> parts t \<and> b \<in> chunk g t x i}" by blast
  have "(\<Union>k\<in>{0..<0 + ?n}. {entry t x k..<entry t x k + chunk_size g x}) = {b. \<exists>i. (x, i) \<in> parts t \<and> b \<in> chunk g t x i}"
    using x by (auto simp: parts_def chunk_def less_Suc_eq_le)
  then have "bits bm' = bits bm \<union> {b. \<exists>y i. y \<in> set (x # xs) \<and> (y, i) \<in> parts t \<and> b \<in> chunk g t y i}" using b(3) bm'(3) by auto
  then show ?case using o b(1,2) bm'(1,2) by simp
qed simp

text \<open>After mounting exactly the blocks of the tables are in use.\<close>

lemma build_bitmaps_ok:
  assumes lay: "layout_ok (base_t s)" "placed_ok g (base_t s) (bitmap_size_in_bits s)"
    and z: "snapshot_bitmap s = replicate (bitmap_size_in_bits s) False" "bitmap_size_in_bits s < 2 ^ 31"
  shows "\<exists>b. build_snapshot_bitmaps g s = Ok (s\<lparr>snapshot_bitmap := b, next_snapshot_bitmap := b\<rparr>) \<and>
    length b = bitmap_size_in_bits s \<and> bits b = all_chunks g (base_t s)"
proof -
  let ?bm = "replicate (bitmap_size_in_bits s) False"
  have sf: "x \<in> set special_files \<longleftrightarrow> special_file x" for x by (auto simp: special_files_def special_file_def)
  have "\<exists>bm'. set_files g (base_t s) special_files ?bm = Ok bm' \<and> length bm' = length ?bm \<and>
      bits bm' = bits ?bm \<union> {b. \<exists>x i. x \<in> set special_files \<and> (x, i) \<in> parts (base_t s) \<and> b \<in> chunk g (base_t s) x i}"
    by (rule set_files_ok [OF lay(1)]) (use lay(2) z(2) sf in \<open>simp_all add: placed_ok_def\<close>)
  moreover have "bits ?bm = {}" by (auto simp: bits_def)
  moreover have "{b. \<exists>x i. x \<in> set special_files \<and> (x, i) \<in> parts (base_t s) \<and> b \<in> chunk g (base_t s) x i} = all_chunks g (base_t s)"
    unfolding sf all_chunks_def by (auto simp: parts_def)
  ultimately show ?thesis using z(1) by (auto simp: build_snapshot_bitmaps_def)
qed

lemma mounted_inv:
  assumes "mounted g crc32 w"
  shows "world_inv g crc32 mc w"
proof -
  let ?s = "snap w" and ?t = "base_t (snap w)"
  from assms obtain s0 where s0: "build_snapshot_bitmaps g s0 = Ok ?s" "snapshot_bitmap s0 = replicate (bitmap_size_in_bits s0) False"
    "moved_iblock s0 = replicate (bitmap_size_in_bits s0) False" "bitmap_size_in_bits s0 < 2 ^ 31" unfolding mounted_def by blast
  have M: "layout_ok ?t" "placed_ok g ?t (bitmap_size_in_bits ?s)" "packed ?t" "pages_ok ?s" "length ?t < 2 ^ 32"
    "length (extended_t ?s) = PAGE_SIZE" "records_count (extended_t ?s) = 0" "exsb_dirty (exsb_info (meta_info w))"
    "length (dev_exts w) \<le> VDFS2_SNAPSHOT_TABLES_COUNT" "saved_tables w = ?t" "saved_blocks w = blocks w"
    and dev: "\<And>t. agree (length (dev_base w)) (dev_base w) t \<Longrightarrow>
        \<exists>u. replay crc32 t (dev_exts w) = Ok u \<and> layout_ok u \<and> same_tables ?t u"
    using assms unfolding mounted_def by simp_all
  have b0: "base_t ?s = base_t s0" "bitmap_size_in_bits ?s = bitmap_size_in_bits s0" "moved_iblock ?s = moved_iblock s0"
    using s0(1) by (auto simp: build_snapshot_bitmaps_def elim!: and_then_OkE dest!: sym [of _ "snap w"])
  have lay0: "layout_ok (base_t s0)" "placed_ok g (base_t s0) (bitmap_size_in_bits s0)" using M(1,2) b0 by simp_all
  obtain b where b: "?s = s0\<lparr>snapshot_bitmap := b, next_snapshot_bitmap := b\<rparr>" "length b = bitmap_size_in_bits s0" "bits b = all_chunks g (base_t s0)"
    using build_bitmaps_ok [OF lay0 s0(2,4)] s0(1) by auto
  have "bits (moved_iblock s0) = {}" unfolding s0(3) by (auto simp: bits_def)
  moreover have "chunk g (base_t s0) x i \<subseteq> all_chunks g (base_t s0)" if "(x, i) \<in> parts (base_t s0)" for x i using that unfolding all_chunks_def by blast
  ultimately have "snap_inv g ?s (all_chunks g ?t)" using b s0(3,4) lay0 by (simp add: snap_inv_def)
  moreover have nb: "next_base (meta_info w)" using M(8) by (simp add: next_base_def)
  moreover from this have "device_ok crc32 mc w t" if "agree (length (dev_base w)) (dev_base w) t" for t
    using dev [OF that] M(10) by (auto simp: device_ok_def)
  moreover have "ext_ok ?s" using M(6,7) by (simp add: ext_ok_def record_addr_def EXTENDED_TABLE_SIZE_def PAGE_SIZE_def CRC32_SIZE_def)
  ultimately show ?thesis using M by (simp add: world_inv_def)
qed

lemma reachable_inv:
  assumes "snap_reachable g crc32 mc w" "\<And>b. crc32 b < 2 ^ 32"
  shows "world_inv g crc32 mc w"
  using assms(1)
proof induction
  case (start w)
  then show ?case by (rule mounted_inv)
next
  case (step w w')
  show ?case by (rule snap_step_inv [OF step(2,3) assms(2)])
qed

section \<open>The extended tables\<close>

text \<open>Pages on the device that start with the given tables, one after the other.\<close>

fun on_device :: "(nat \<Rightarrow> u8 list result) \<Rightarrow> nat \<Rightarrow> u8 list list \<Rightarrow> bool" where
  "on_device rdp isector [] \<longleftrightarrow> True"
| "on_device rdp isector (e # es) \<longleftrightarrow>
     (case rdp isector of Ok p \<Rightarrow> agree (length e) e p \<and> 20 \<le> length e \<and> length e = checksum_offset e + CRC32_SIZE \<and>
        on_device rdp (isector + div_round_up (length e) SECTOR_SIZE) es | _ \<Rightarrow> False)"

fun sector_after :: "nat \<Rightarrow> u8 list list \<Rightarrow> nat" where
  "sector_after isector [] = isector"
| "sector_after isector (e # es) = sector_after (isector + div_round_up (length e) SECTOR_SIZE) es"

text \<open>What is read there is not the table that would come next.\<close>

definition no_next_table :: "(u8 list \<Rightarrow> nat) \<Rightarrow> u8 list result \<Rightarrow> u8 list \<Rightarrow> bool" where
  "no_next_table crc32 p t \<longleftrightarrow>
     (case and_then p (validate_extended_table crc32) of
        Ok v \<Rightarrow> v div 2 ^ 32 \<noteq> descr_mount_count t \<or> v mod 2 ^ 32 \<noteq> (descr_sync_count t + 1) mod 2 ^ 32 | _ \<Rightarrow> False)"

lemma validate_page:
  assumes a: "agree (length e) e p" "20 \<le> length e" and v: "validate_extended_table crc32 e = Ok v"
  shows "validate_extended_table crc32 p = Ok v"
proof -
  have s: "rng p 0 4 = rng e 0 4" "checksum_offset p = checksum_offset e" "VDFS2_SNAPSHOT_VERSION p = VDFS2_SNAPSHOT_VERSION e"
    using agree_rng [OF a(1), of 0 4] agree_fields [OF a] a(2) by (simp_all add: VDFS2_SNAPSHOT_VERSION_def)
  show ?thesis
  proof (cases "rng e 0 4 = VDFS2_SNAPSHOT_EXTENDED_TABLE")
    case True
    then have l: "checksum_offset e + 4 \<le> length e" using v by (simp add: validate_extended_table_def validate_table_def not_less split: if_splits)
    have "take (checksum_offset e) p = take (checksum_offset e) e" using agree_less [OF a(1), of "checksum_offset e"] l by (simp add: agree_def)
    moreover have "rd 4 p (checksum_offset e) = rd 4 e (checksum_offset e)" using agree_rd [OF a(1) l] .
    moreover have "length e \<le> length p" using a(1) by (simp add: agree_def)
    ultimately show ?thesis using v s l True by (auto simp: validate_extended_table_def validate_table_def split: if_splits)
  qed (use v s in \<open>simp add: validate_extended_table_def validate_table_def\<close>)
qed

lemma parse_records_page:
  assumes a: "agree (length e) e p"
  shows "parse_records e i n b = Ok c \<Longrightarrow> parse_records p i n b = Ok c"
proof (induction n arbitrary: i b)
  case (Suc n)
  have l: "record_addr (i + 1) \<le> length e" using Suc.prems by (simp add: not_less split: if_splits)
  have r: "rd 1 p (record_addr i) = rd 1 e (record_addr i)" "rd 8 p (record_addr i + 1) = rd 8 e (record_addr i + 1)"
    "rd 8 p (record_addr i + 9) = rd 8 e (record_addr i + 9)" using agree_rd [OF a] l record_addr_mono(2) [of i] by simp_all
  have lp: "record_addr (i + 1) \<le> length p" using l a by (simp add: agree_def)
  let ?x = "rd 1 e (record_addr i)" and ?j = "rd 8 e (record_addr i + 1)" and ?v = "rd 8 e (record_addr i + 9)"
  from Suc.prems l obtain b' where b': "table_set b ?x ?j ?v = Ok b'" "special_file ?x" "\<not> VDFS2_LAST_TABLE_INDEX b ?x < ?j" "parse_records e (i + 1) n b' = Ok c"
    unfolding parse_records.simps Let_def by (auto elim!: and_then_OkE split: if_splits)
  show ?case unfolding parse_records.simps Let_def r using lp b' Suc.IH [OF b'(4)] by simp
qed simp

lemma load_replay:
  assumes "replay crc32 t es = Ok u" "on_device rdp isector es" "length es \<le> n"
    "length es = n \<or> no_next_table crc32 (rdp (sector_after isector es)) u"
  shows "load_extended_tables crc32 rdp n t isector cnt = Ok (u, sector_after isector es, cnt + length es)"
  using assms
proof (induction es arbitrary: t isector n cnt)
  case Nil
  show ?case
  proof (cases n)
    case (Suc k)
    then show ?thesis using Nil by (cases "rdp isector") (auto simp: no_next_table_def split: result.splits)
  qed (use Nil in simp)
next
  case (Cons e es)
  obtain k where n: "n = Suc k" using Cons.prems(3) by (cases n) auto
  obtain p where p: "rdp isector = Ok p" "agree (length e) e p" "20 \<le> length e" "length e = checksum_offset e + CRC32_SIZE"
    "on_device rdp (isector + div_round_up (length e) SECTOR_SIZE) es" using Cons.prems(2) by (auto split: result.splits)
  from Cons.prems(1) obtain v t' len where v: "validate_extended_table crc32 e = Ok v"
    "v div 2 ^ 32 = descr_mount_count t" "v mod 2 ^ 32 = (descr_sync_count t + 1) mod 2 ^ 32"
    "parse_extended_table t e = Ok (t', len)" "replay crc32 t' es = Ok u"
    by (auto elim!: and_then_OkE split: if_splits)
  have vp: "validate_extended_table crc32 p = Ok v" by (rule validate_page [OF p(2,3) v(1)])
  obtain b where b: "parse_records e 0 (records_count e) t = Ok b" "t' = wr 4 (wr 4 b 4 (descr_mount_count e)) 8 (descr_sync_count e)" "len = checksum_offset e + CRC32_SIZE"
    using v(4) by (auto simp: parse_extended_table_def elim!: and_then_OkE)
  have "parse_extended_table t p = Ok (t', length e)"
    using parse_records_page [OF p(2) b(1)] agree_fields [OF p(2,3)] b p(4) by (simp add: parse_extended_table_def)
  moreover have "load_extended_tables crc32 rdp k t' (isector + div_round_up (length e) SECTOR_SIZE) (cnt + 1) =
      Ok (u, sector_after (isector + div_round_up (length e) SECTOR_SIZE) es, cnt + 1 + length es)"
    by (rule Cons.IH [OF v(5) p(5)]) (use Cons.prems(3,4) n in simp_all)
  ultimately show ?case using n p(1) vp v(2,3) by simp
qed

end
