(* ===== verification/Snapshot_Demo.thy ===== *)
theory Snapshot_Demo
  imports Snapshot_Mount
begin

text \<open>
  A small volume, used by the witnesses: every metadata file has one part of one block, at the blocks
  0 to 6 of a metadata area of eight blocks.
\<close>

definition demo_g :: sb_geometry where
  "demo_g = \<lparr>total_leb_count = 1, log_blocks_in_leb = 0, block_size_shift = 12, log_super_page_size = 12,
     log_erase_block_size = 14, log_erase_block_size_in_blocks = 2\<rparr>"

definition demo_head :: "u8 list" where
  "demo_head = VDFS2_SNAPSHOT_BASE_TABLE @ le_bytes 4 1 @ le_bytes 4 0 @ le_bytes 4 156 @ replicate 56 0 @
     concat (map (le_bytes 4) [100, 108, 116, 124, 132, 140, 148]) @ concat (map (le_bytes 8) [0, 1, 2, 3, 4, 5, 6]) @ replicate 4 0"

definition demo_table :: "u8 list" where "demo_table = demo_head @ replicate 3936 0"

text \<open>The fields of the table, evaluated at once.\<close>

lemma demo_values:
  "length demo_head = 160 \<and> rd 4 demo_head 4 = 1 \<and> rd 4 demo_head 12 = 156 \<and> special_files = [2, 3, 4, 5, 6, 7, 8] \<and>
   map (rd 8 demo_head) [16, 24, 32, 40, 48, 56, 64] = [0, 0, 0, 0, 0, 0, 0] \<and>
   map (rd 4 demo_head) [72, 76, 80, 84, 88, 92, 96] = [100, 108, 116, 124, 132, 140, 148] \<and>
   map (rd 8 demo_head) [100, 108, 116, 124, 132, 140, 148] = [0, 1, 2, 3, 4, 5, 6]"
  by code_simp

lemma demo_length: "length demo_head = 160" "length demo_table = 4096"
  using demo_values by (simp_all add: demo_table_def)

lemma demo_rd: "p + w \<le> 160 \<Longrightarrow> rd w demo_table p = rd w demo_head p"
  using agree_rd [of 160 demo_head demo_table p w] by (simp add: agree_def demo_length demo_table_def)

lemma special_cases: "special_file x \<longleftrightarrow> x = 2 \<or> x = 3 \<or> x = 4 \<or> x = 5 \<or> x = 6 \<or> x = 7 \<or> x = 8"
  by (auto simp: special_file_def VDFS2_FSFILE_def VDFS2_LSFILE_def)

lemma demo_fields:
  "checksum_offset demo_table = 156"
  "special_file x \<Longrightarrow> VDFS2_LAST_TABLE_INDEX demo_table x = 0"
  "special_file x \<Longrightarrow> VDFS2_GET_TABLE_OFFSET demo_table x = 100 + 8 * (x - 2)"
  "special_file x \<Longrightarrow> entry demo_table x 0 = x - 2"
proof -
  show "checksum_offset demo_table = 156" using demo_values by (simp add: checksum_offset_def demo_rd)
  show a: "VDFS2_LAST_TABLE_INDEX demo_table x = 0" if "special_file x" for x
    using that demo_values by (auto simp: special_cases VDFS2_LAST_TABLE_INDEX_def VDFS2_SF_INDEX_def VDFS2_FSFILE_def demo_rd)
  show o: "VDFS2_GET_TABLE_OFFSET demo_table x = 100 + 8 * (x - 2)" if "special_file x" for x
    using that demo_values by (auto simp: special_cases VDFS2_GET_TABLE_OFFSET_def VDFS2_SF_INDEX_def VDFS2_FSFILE_def demo_rd)
  show "entry demo_table x 0 = x - 2" if "special_file x"
    using that o [OF that] demo_values by (auto simp: special_cases entry_def table_addr_def demo_rd)
qed

lemma demo_layout: "layout_ok demo_table" "packed demo_table" "parts demo_table = {(x, i). special_file x \<and> i = 0}"
proof -
  have te: "table_end demo_table x = 108 + 8 * (x - 2)" if "special_file x" for x
    using demo_fields(2,3) [OF that] by (simp add: table_end_def table_addr_def)
  show "layout_ok demo_table"
    using te by (auto simp: layout_ok_def demo_fields demo_length BASE_TABLE_SIZE_def CRC32_SIZE_def special_cases)
  show "parts demo_table = {(x, i). special_file x \<and> i = 0}" by (auto simp: parts_def demo_fields)
  have sf: "special_files = [2, 3, 4, 5, 6, 7, 8]" using demo_values by simp
  show "packed demo_table" unfolding packed_def sf by (simp add: demo_fields special_cases BASE_TABLE_SIZE_def)
qed

lemma demo_chunk_size: "chunk_size demo_g x = 1"
  by (simp add: chunk_size_def demo_g_def PAGE_SHIFT_def)

lemma demo_placed: "placed_ok demo_g demo_table 8"
  unfolding placed_ok_def demo_layout(3) by (auto simp: demo_fields(4) demo_chunk_size chunk_def special_cases)

definition demo_snap :: "bool list \<Rightarrow> bool list \<Rightarrow> vdfs2_snapshot_info" where
  "demo_snap used moved =
     \<lparr>base_t = demo_table, extended_t = replicate 4096 0, snapshot_bitmap = used, next_snapshot_bitmap = used, moved_iblock = moved,
      bitmap_size_in_bits = 8, hint_btree = 0, hint_bitmaps = 0, tables_pages_count = 1, exteneded_table_count = 0, snap_isector = 1,
      sync_count = 0, use_base_table = False, dirty_pages_count = 0, snap_flags = 0, tables_freed = False\<rparr>"

definition demo_used :: "bool list" where "demo_used = [True, True, True, True, True, True, True, False]"

definition demo_world :: snap_world where
  "demo_world =
     \<lparr>meta_info = \<lparr>snap_info = demo_snap demo_used (replicate 8 False),
        exsb_info = \<lparr>exsb_tables = [], exsb_tables_tbc = 64, exsb_meta = [], exsb_meta_tbc = 8, exsb_dirty = True\<rparr>,
        fsm_info = \<lparr>tree = vdfs2_init_fsm_btree, data = [], page_count = 0, length_in_bytes = 0, free_blocks_count = 0, next_free_blocks = 0,
          erase_blocks_counters = [], dirty = [], mount_finished = True\<rparr>, meta_mem = []\<rparr>,
      blocks = (\<lambda>b. [of_nat b]), dev_base = take 160 demo_table, dev_exts = [], saved_tables = demo_table, saved_blocks = (\<lambda>b. [of_nat b])\<rparr>"

lemma demo_all_chunks: "all_chunks demo_g demo_table = {0..<7}"
proof -
  have "all_chunks demo_g demo_table = (\<lambda>x. x - 2) ` {x. special_file x}"
    unfolding all_chunks_def demo_layout(3) by (auto simp: demo_fields(4) demo_chunk_size chunk_def)
  also have "{x. special_file x} = {2, 3, 4, 5, 6, 7, 8}" by (auto simp: special_cases)
  also have "(\<lambda>x. x - 2) ` {2, 3, 4, 5, 6, 7, 8} = set [0..<7 :: nat]" by (simp add: upt_rec numeral_eq_Suc)
  finally show ?thesis by simp
qed

lemma demo_mounted: "mounted demo_g (\<lambda>_. 0) demo_world"
proof -
  let ?s0 = "demo_snap (replicate 8 False) (replicate 8 False)"
  have f: "base_t ?s0 = demo_table" "bitmap_size_in_bits ?s0 = 8" "snapshot_bitmap ?s0 = replicate 8 False" "moved_iblock ?s0 = replicate 8 False"
    by (simp_all add: demo_snap_def)
  obtain b where b: "build_snapshot_bitmaps demo_g ?s0 = Ok (?s0\<lparr>snapshot_bitmap := b, next_snapshot_bitmap := b\<rparr>)" "length b = 8" "bits b = {0..<7}"
    using build_bitmaps_ok [of ?s0 demo_g] demo_layout(1) demo_placed demo_all_chunks f by auto
  have n: "b ! i \<longleftrightarrow> i < 7" if "i < 8" for i using b(2,3) that by (auto simp: bits_def set_eq_iff)
  have "b = demo_used"
  proof (rule nth_equalityI)
    show "length b = length demo_used" using b(2) by (simp add: demo_used_def)
    fix i assume "i < length b"
    then have "i < 8" using b(2) by simp
    moreover from this have "i = 0 \<or> i = 1 \<or> i = 2 \<or> i = 3 \<or> i = 4 \<or> i = 5 \<or> i = 6 \<or> i = 7" by linarith
    ultimately show "b ! i = demo_used ! i" using n by (auto simp: demo_used_def)
  qed
  then have b': "build_snapshot_bitmaps demo_g ?s0 = Ok (snap demo_world)" using b(1) by (simp add: demo_world_def demo_snap_def)
  have sw: "base_t (snap demo_world) = demo_table" "bitmap_size_in_bits (snap demo_world) = 8" "tables_pages_count (snap demo_world) = 1"
    "extended_t (snap demo_world) = replicate 4096 0" "dev_exts demo_world = []" "saved_tables demo_world = demo_table" "saved_blocks demo_world = blocks demo_world"
    "exsb_dirty (exsb_info (meta_info demo_world))" "dev_base demo_world = take 160 demo_table"
    by (simp_all add: demo_world_def demo_snap_def)
  have rc: "records_count (replicate 4096 0) = 0" by (simp add: records_count_def rd_def rng_def drop_replicate take_replicate numeral_eq_Suc)
  have ld: "length (dev_base demo_world) = 160" by (simp add: sw(9) demo_length)
  have dv: "layout_ok t \<and> same_tables demo_table t" if "agree (length (dev_base demo_world)) (dev_base demo_world) t" for t
  proof -
    have a: "agree (checksum_offset demo_table + CRC32_SIZE) demo_table t" using that unfolding ld by (simp add: agree_def sw(9) demo_fields(1) CRC32_SIZE_def demo_length)
    show ?thesis using agree_tables [OF a demo_layout(1)] by (simp add: same_tables_def)
  qed
  have "\<exists>s0. build_snapshot_bitmaps demo_g s0 = Ok (snap demo_world) \<and> snapshot_bitmap s0 = replicate (bitmap_size_in_bits s0) False \<and>
        moved_iblock s0 = replicate (bitmap_size_in_bits s0) False \<and> bitmap_size_in_bits s0 < 2 ^ 31"
    by (rule exI [of _ ?s0]) (use b' f in simp)
  then show ?thesis
    unfolding mounted_def sw using demo_layout demo_placed rc dv by (simp add: pages_ok_def sw demo_length PAGE_SIZE_def)
qed

text \<open>One part is moved and its new block is written.\<close>

lemma demo_moved:
  obtains w where "snap_reachable demo_g (\<lambda>_. 0) mc w" "\<exists>b. blocks w b \<noteq> saved_blocks w b" "dev_base w = take 160 demo_table" "dev_exts w = []"
    "saved_tables w = demo_table" "saved_blocks w = (\<lambda>b. [of_nat b])"
    "dirty_pages_count (snap w) = 1" "fsm_info (meta_info w) = fsm_info (meta_info demo_world)" "meta_mem (meta_info w) = []"
    "entry (base_t (snap w)) 2 0 = 7" "bits (next_snapshot_bitmap (snap w)) = {1..<8}" "snap_inv demo_g (snap w) {0..<7}"
    "snap_flags (snap w) = 0" "bitmap_size_in_bits (snap w) = 8" "parts (base_t (snap w)) = parts demo_table"
proof -
  let ?s = "snap demo_world"
  have inv: "world_inv demo_g (\<lambda>_. 0) mc demo_world" by (rule mounted_inv [OF demo_mounted])
  have dw: "saved_tables demo_world = demo_table" "base_t ?s = demo_table" "snap_flags ?s = 0" "bitmap_size_in_bits ?s = 8" "snapshot_bitmap ?s = demo_used"
    "dev_base demo_world = take 160 demo_table" "dev_exts demo_world = []" "saved_blocks demo_world = (\<lambda>b. [of_nat b])" "blocks demo_world = (\<lambda>b. [of_nat b])"
    by (simp_all add: demo_world_def demo_snap_def)
  have I: "snap_inv demo_g ?s (all_chunks demo_g demo_table)" using inv dw(1) by (simp add: world_inv_def)
  have x: "special_file 2" "GET_TABLE_INDEX demo_g 2 0 = 0" by (simp_all add: special_cases GET_TABLE_INDEX_def)
  have fr: "free_area demo_used 8 1 1 7" by (simp add: free_area_def demo_used_def less_Suc_eq)
  have fr': "\<exists>q. free_area (snapshot_bitmap ?s) (bitmap_size_in_bits ?s) (chunk_size demo_g 2) (chunk_size demo_g 2) q"
    unfolding dw demo_chunk_size using fr by blast
  obtain s' where s': "vdfs2_add_chunk_no_lock demo_g ?s 2 0 = Ok s'" "snap_inv demo_g s' (all_chunks demo_g demo_table)" "parts (base_t s') = parts demo_table"
      "snap_flags s' = 0" "chunk demo_g (base_t s') 2 0 \<subseteq> bits (moved_iblock s')"
      "\<forall>y j. (y, j) \<in> parts demo_table \<longrightarrow> (y, j) \<noteq> (2, 0) \<longrightarrow> entry (base_t s') y j = entry demo_table y j"
      "if first_move demo_g ?s 2 0 then chunk demo_g (base_t s') 2 0 \<inter> (all_chunks demo_g demo_table \<union> all_chunks demo_g demo_table) = {} else s' = ?s"
    using add_chunk_ok [OF I x(1) dw(3) x(2) [symmetric] le0 fr'] unfolding dw(2) by blast
  have fm: "first_move demo_g ?s 2 0" using demo_fields(4) [OF x(1)] by (simp add: first_move_def demo_world_def demo_snap_def)
  have bs: "bitmap_size_in_bits s' = 8" "dirty_pages_count s' = 1"
  proof -
    show "bitmap_size_in_bits s' = 8" by (rule add_chunk_OkE [OF s'(1)]) (use dw(4) in simp_all)
    have ne: "s' \<noteq> ?s"
    proof
      assume "s' = ?s"
      then show False using s'(7) fm dw(2) demo_all_chunks demo_fields(4) [OF x(1)] demo_chunk_size by (simp add: chunk_def)
    qed
    have d0: "dirty_pages_count ?s = 0" "(2 :: nat) ^ log_blocks_in_leb demo_g = 1" by (simp_all add: demo_world_def demo_snap_def demo_g_def)
    show "dirty_pages_count s' = 1" by (rule add_chunk_OkE [OF s'(1)]) (use ne d0 in auto)
  qed
  have e7: "entry (base_t s') 2 0 = 7"
  proof -
    have p: "(2, 0) \<in> parts (base_t s')" using s'(3) demo_layout(3) x(1) by simp
    have "entry (base_t s') 2 0 + 1 \<le> 8" using part_facts(3) [OF s'(2) p] bs(1) by (simp add: demo_chunk_size)
    moreover have "entry (base_t s') 2 0 \<notin> {0..<7}" using s'(7) fm demo_all_chunks demo_chunk_size by (simp add: chunk_def disjoint_iff)
    ultimately show ?thesis by simp
  qed
  have ac: "all_chunks demo_g (base_t s') = {1..<8}"
  proof -
    have "entry (base_t s') y 0 = (if y = 2 then 7 else y - 2)" if "special_file y" for y
      using that s'(6) e7 demo_layout(3) demo_fields(4) [OF that] by simp
    then have "all_chunks demo_g (base_t s') = (\<lambda>y. if y = 2 then 7 else y - 2) ` {x. special_file x}"
      unfolding all_chunks_def s'(3) demo_layout(3) by (auto simp: demo_chunk_size chunk_def)
    also have "{x. special_file x} = {2, 3, 4, 5, 6, 7, 8}" by (auto simp: special_cases)
    also have "(\<lambda>y. if y = 2 then 7 else y - 2) ` {2, 3, 4, 5, 6, 7, 8} = set [1..<8 :: nat]" by (simp add: upt_rec numeral_eq_Suc)
    finally show ?thesis by simp
  qed
  define w1 where "w1 = demo_world\<lparr>meta_info := (meta_info demo_world)\<lparr>snap_info := s'\<rparr>\<rparr>"
  have r1: "snap_reachable demo_g (\<lambda>_. 0) mc w1"
    unfolding w1_def by (rule snap_reachable.step [OF snap_reachable.start [OF demo_mounted] snap_step.add [OF s'(1)]])
  have s1: "snap w1 = s'" by (simp add: w1_def)
  have p: "(2, 0) \<in> parts (base_t (snap w1))" using s'(3) s1 demo_layout(3) x(1) by simp
  have mv: "\<not> first_move demo_g (snap w1) 2 0" using part_facts(5) [OF s'(2), of 2 0] p s1 s'(5) by simp
  have b: "7 \<in> chunk demo_g (base_t (snap w1)) 2 0" using e7 s1 by (simp add: chunk_def)
  have nx: "bits (next_snapshot_bitmap s') = {1..<8}" using s'(2) ac by (simp add: snap_inv_def)
  show thesis
    by (rule that [OF snap_reachable.step [OF r1 snap_step.put_block [OF p mv b, where v = "[]"]]])
      (use s' bs e7 nx demo_all_chunks in \<open>auto simp: w1_def dw demo_world_def\<close>)
qed

end
