(* ===== verification/Snapshot_Claims.thy ===== *)
theory Snapshot_Claims
  imports Snapshot_Demo
begin

text \<open>The properties of snapshots: crash safety, progress of commits, and the operations one by one.\<close>

section \<open>Crash safety\<close>



section \<open>The first change of a part\<close>

text \<open>
  C39. Before a part of a metadata file is changed it is moved, once per transaction: the call succeeds whenever the
  area has an aligned gap of its size, the new blocks are neither used now nor by the last
  commit, every other entry stays, and calling it again changes nothing.
\<close>

theorem add_chunk_moves_once:
  assumes "snap_inv g s C" "special_file x" "snap_flags s = 0" "GET_TABLE_INDEX g x page \<le> VDFS2_LAST_TABLE_INDEX (base_t s) x"
    and "first_move g s x (GET_TABLE_INDEX g x page)"
    and "free_area (snapshot_bitmap s) (bitmap_size_in_bits s) (chunk_size g x) (chunk_size g x) q"
  shows "\<exists>s'. vdfs2_add_chunk_no_lock g s x page = Ok s' \<and> snap_inv g s' C \<and>
    chunk g (base_t s') x (GET_TABLE_INDEX g x page) \<inter> (C \<union> all_chunks g (base_t s)) = {} \<and>
    (\<forall>y j. (y, j) \<in> parts (base_t s) \<longrightarrow> (y, j) \<noteq> (x, GET_TABLE_INDEX g x page) \<longrightarrow> entry (base_t s') y j = entry (base_t s) y j) \<and>
    vdfs2_add_chunk_no_lock g s' x page = Ok s'"
proof -
  let ?i = "GET_TABLE_INDEX g x page"
  have f: "\<exists>q. free_area (snapshot_bitmap s) (bitmap_size_in_bits s) (chunk_size g x) (chunk_size g x) q" using assms(6) by blast
  obtain s' where s': "vdfs2_add_chunk_no_lock g s x page = Ok s'" "snap_inv g s' C" "parts (base_t s') = parts (base_t s)" "snap_flags s' = 0"
    "chunk g (base_t s') x ?i \<subseteq> bits (moved_iblock s')"
    "\<forall>y j. (y, j) \<in> parts (base_t s) \<longrightarrow> (y, j) \<noteq> (x, ?i) \<longrightarrow> entry (base_t s') y j = entry (base_t s) y j"
    "chunk g (base_t s') x ?i \<inter> (C \<union> all_chunks g (base_t s)) = {}"
    using add_chunk_ok [OF assms(1-3) refl assms(4) f] assms(5) by auto
  have p: "(x, ?i) \<in> parts (base_t s')" using assms(2,4) s'(3) by (simp add: parts_def)
  then have i: "?i \<le> VDFS2_LAST_TABLE_INDEX (base_t s') x" by (simp add: parts_def)
  have nf: "\<not> first_move g s' x ?i" using part_facts(5) [OF s'(2) p] s'(5) by simp
  have "\<exists>s''. vdfs2_add_chunk_no_lock g s' x page = Ok s'' \<and> (if first_move g s' x ?i then chunk g (base_t s'') x ?i \<inter> (C \<union> all_chunks g (base_t s')) = {} else s'' = s')"
    using add_chunk_ok [OF s'(2) assms(2) s'(4) refl i] nf by blast
  then show ?thesis using s' nf by auto
qed

theorem add_chunk_moves_once_witness:
  "\<exists>s'. vdfs2_add_chunk_no_lock demo_g (snap demo_world) 2 0 = Ok s' \<and> chunk demo_g (base_t s') 2 0 \<inter> {0..<7} = {} \<and>
    vdfs2_add_chunk_no_lock demo_g s' 2 0 = Ok s'"
proof -
  let ?s = "snap demo_world"
  have inv: "world_inv demo_g (\<lambda>_. 0) 2 demo_world" by (rule mounted_inv [OF demo_mounted])
  have d: "saved_tables demo_world = demo_table" "base_t ?s = demo_table" "snap_flags ?s = 0" "bitmap_size_in_bits ?s = 8" "snapshot_bitmap ?s = demo_used"
    by (simp_all add: demo_world_def demo_snap_def)
  have I: "snap_inv demo_g ?s {0..<7}" using inv d(1) demo_all_chunks by (simp add: world_inv_def)
  have x: "special_file 2" "GET_TABLE_INDEX demo_g 2 0 = 0" by (simp_all add: special_cases GET_TABLE_INDEX_def)
  have fm: "first_move demo_g ?s 2 0" using demo_fields(4) [OF x(1)] by (simp add: first_move_def demo_world_def demo_snap_def)
  have fr: "free_area (snapshot_bitmap ?s) (bitmap_size_in_bits ?s) (chunk_size demo_g 2) (chunk_size demo_g 2) 7"
    unfolding d demo_chunk_size by (simp add: free_area_def demo_used_def less_Suc_eq)
  show ?thesis using add_chunk_moves_once [OF I x(1) d(3) _ _ fr, of 0] x(2) fm by auto
qed

section \<open>Commits\<close>



text \<open>
  C40. The bitmaps are changed before the tables are written, so a failed write of the tables gives the blocks of the
  last commit away while the device still refers to them: on a small volume the next
  change moves another file onto the block of the catalog that a mount would read.
\<close>

theorem failed_commit_loses_snapshot:
  "\<exists>s s1 s2 out. snap_inv demo_g s (all_chunks demo_g demo_table) \<and>
    commit_snapshot (\<lambda>_. 0) 2 64 (Fail EIO) s = (out, Fail EIO, s1) \<and> vdfs2_add_chunk_no_lock demo_g s1 3 0 = Ok s2 \<and>
    chunk demo_g (base_t s2) 3 0 = chunk demo_g demo_table 2 0 \<and> (2, 0) \<in> parts demo_table"
proof -
  obtain w where w: "snap_reachable demo_g (\<lambda>_. 0) 2 w" "entry (base_t (snap w)) 2 0 = 7" "bits (next_snapshot_bitmap (snap w)) = {1..<8}"
    "snap_inv demo_g (snap w) {0..<7}" "snap_flags (snap w) = 0" "bitmap_size_in_bits (snap w) = 8" "parts (base_t (snap w)) = parts demo_table"
    by (rule demo_moved)
  have inv: "world_inv demo_g (\<lambda>_. 0) 2 w" by (rule reachable_inv [OF w(1)]) simp
  have ac: "all_chunks demo_g (base_t (snap w)) = {1..<8}" using w(3,4) by (simp add: snap_inv_def)
  have pk: "packed (base_t (snap w))" "length (base_t (snap w)) < 2 ^ 32" "ext_ok (snap w)" using inv by (simp_all add: world_inv_def)
  obtain out s1 where c: "commit_snapshot (\<lambda>_. 0) 2 64 (Fail EIO) (snap w) = (Some out, Fail EIO, s1)"
    and i1: "snap_inv demo_g s1 (all_chunks demo_g (base_t (snap w)))"
    and t1: "same_tables (base_t (snap w)) (base_t s1)" "snap_flags s1 = snap_flags (snap w)" "bitmap_size_in_bits s1 = bitmap_size_in_bits (snap w)"
      "bits (moved_iblock s1) = {}" "bits (snapshot_bitmap s1) = all_chunks demo_g (base_t (snap w))"
    by (rule commit_keeps [OF w(4) pk, of "\<lambda>_. 0" 2 64 "Fail EIO"])
  note i1 = i1 [unfolded ac] and t1 = t1(1) t1(2-5) [unfolded ac w(5,6)]
  have x: "special_file 3" "GET_TABLE_INDEX demo_g 3 0 = 0" by (simp_all add: special_cases GET_TABLE_INDEX_def is_tree_def
      VDFS2_CAT_TREE_INO_def VDFS2_EXTENTS_TREE_INO_def VDFS2_HARDLINKS_TREE_INO_def VDFS2_XATTR_TREE_INO_def)
  have p: "parts (base_t s1) = parts demo_table" using same_tables_parts [OF t1(1)] w(7) by simp
  have p3: "(3, 0) \<in> parts (base_t s1)" using p x(1) demo_layout(3) by simp
  have fm: "first_move demo_g s1 3 0" using part_facts(4) [OF i1 p3] t1(4) by simp
  have "length (snapshot_bitmap s1) = 8" using i1 t1(3) by (simp add: snap_inv_def)
  moreover have "0 \<notin> bits (snapshot_bitmap s1)" by (simp add: t1(5))
  ultimately have "\<not> snapshot_bitmap s1 ! 0" by (simp add: bits_def)
  then have "free_area (snapshot_bitmap s1) (bitmap_size_in_bits s1) (chunk_size demo_g 3) (chunk_size demo_g 3) 0"
    by (simp add: free_area_def t1(3) demo_chunk_size)
  then have f: "\<exists>q. free_area (snapshot_bitmap s1) (bitmap_size_in_bits s1) (chunk_size demo_g 3) (chunk_size demo_g 3) q" by blast
  obtain s2 where s2: "vdfs2_add_chunk_no_lock demo_g s1 3 0 = Ok s2" "snap_inv demo_g s2 {1..<8}" "parts (base_t s2) = parts (base_t s1)"
    "chunk demo_g (base_t s2) 3 0 \<inter> ({1..<8} \<union> all_chunks demo_g (base_t s1)) = {}"
    using add_chunk_ok [OF i1 x(1) t1(2) x(2) [symmetric] le0 f] fm by auto
  have "bitmap_size_in_bits s2 = 8" by (rule add_chunk_OkE [OF s2(1)]) (use t1(3) in simp_all)
  then have "entry (base_t s2) 3 0 + 1 \<le> 8" using part_facts(3) [OF s2(2), of 3 0] p3 s2(3) by (simp add: demo_chunk_size)
  moreover have "entry (base_t s2) 3 0 \<notin> {1..<8}" using s2(4) by (auto simp: chunk_def demo_chunk_size)
  ultimately have "entry (base_t s2) 3 0 = 0" by simp
  moreover have "entry demo_table 2 0 = 0" using demo_fields(4) [of 2] by (simp add: special_cases)
  ultimately have "chunk demo_g (base_t s2) 3 0 = chunk demo_g demo_table 2 0" by (simp add: chunk_def demo_chunk_size)
  moreover have "(2, 0) \<in> parts demo_table" by (simp add: demo_layout(3) special_cases)
  moreover have "snap_inv demo_g (snap w) (all_chunks demo_g demo_table)" using w(4) demo_all_chunks by simp
  ultimately show ?thesis using c s2(1) by blast
qed

end
