(* ===== verification/Spec2Isabelle.thy ===== *)
theory Spec2Isabelle
  imports Fsm_Claims Bnode_Claims Btree_Node_Claims Runtime_Extents File_Extents_Claims Cattree_Claims Btree_Split_Claims Btree_Remove_Claims
    Snapshot_Claims
begin

text \<open>
  Verification of the VDFS2 file system driver.

  The driver keeps two kinds of state. Free space is a bitmap on the device and, in memory, a
  B-tree of the free extents built from it at mount time. Everything else - names, file extents,
  hard links, extended attributes - is in on-disk B-trees of one common format, whose nodes are
  byte blocks that a node cache hands out by number.

  \<^bold>\<open>Common parts.\<close> \<open>Vdfs2_Prelude\<close> has the integer widths, the error codes, the outcomes
  of kernel memory allocations and shared lemmas on lists. A function that returns 0 or an
  error has the type \<open>ret\<close>, one that returns a pointer or an error the type \<open>result\<close>; in
  both a third value stands for a stop of the kernel (\<^verbatim>\<open>BUG_ON\<close> and the like). An allocation
  takes the next outcome from a list, so every allocation failure is a branch of the model.

  \<^bold>\<open>Free extents\<close> (\<^verbatim>\<open>fsm_btree.c\<close>). \<open>Fsm_Btree\<close> is the model: nodes, splitting, insertion,
  deletion with borrowing and merging, the lookup of space near a hint and the return of space.
  \<open>Fsm_Btree_Insert\<close>, \<open>Fsm_Btree_Delete\<close> and \<open>Fsm_Btree_Space\<close> prove its behaviour against
  the locale \<open>extent_store\<close> of \<open>Extent_Store\<close>, a sorted list of disjoint extents, which is
  interpreted on the tree. \<open>Fsm_Btree_Claims\<close> has the properties: no block is granted twice,
  lookup is sound and complete, insertion and deletion refine the sorted list, and what a
  failed allocation does.

  \<^bold>\<open>Free-space manager\<close> (\<^verbatim>\<open>fsm.c\<close>, bitmaps of \<^verbatim>\<open>data.c\<close>). \<open>Bitmap\<close> models bitmaps whose
  blocks carry a magic word and a checksum; the locales \<open>bit_array\<close> and \<open>bitmap_layout\<close>
  give their laws. \<open>Fsm\<close> models allocation, release and the rebuild of the tree, \<open>Fsm_Inv\<close>
  the invariant between tree, bitmap and counters, \<open>Fsm_Claims\<close> the properties: blocks in use
  are never granted, released blocks not before the next commit, and the rebuilt tree is exact.

  \<^bold>\<open>Node cache\<close> (\<^verbatim>\<open>bnode.c\<close>). \<open>Bnode\<close> models the bitmap of node numbers, the hash table and
  the active and passive lists over a store of nodes; reading pages is a parameter.
  \<open>Bnode_Cache\<close> and \<open>Bnode_Bitmap\<close> hold the invariants, \<open>Bnode_Claims\<close> the
  properties of getting, creating and destroying a node.

  \<^bold>\<open>Nodes of the on-disk trees\<close> (\<^verbatim>\<open>btree.c\<close>). \<open>Bytes\<close> has little-endian fields in byte lists.
  \<open>Btree_Node\<close> models one node byte by byte: descriptor, records, and the table of offsets that
  grows from the end. \<open>Btree_Node_Inv\<close> proves that its operations refine those on the list of
  records (\<open>node_ok\<close>). \<open>Btree_Keys\<close> states what the trees rely on in a comparison function as
  the locale \<open>ranked_keys\<close> and interprets it on the five functions of the driver
  (\<^verbatim>\<open>hlinktree.c\<close>, \<^verbatim>\<open>extents.c\<close>, \<^verbatim>\<open>cattree.c\<close>, \<^verbatim>\<open>xattr.c\<close>); \<open>Btree_Search\<close> proves the binary
  search in it. The fuel of \<open>search_loop\<close> is the number of records, and the searched interval
  shrinks in each step. \<open>Btree_Node_Claims\<close> has the properties.

  \<^bold>\<open>Splitting\<close>. \<open>Btree_Split\<close> models \<^verbatim>\<open>split_bnode\<close>; \<open>Btree_Split_Inv\<close> and
  \<open>Btree_Split_Claims\<close> show that the two halves hold the old records and the new one in order.
  The fuel of \<open>split_loop\<close> is the number of records and three; each step places one record,
  and \<open>split_bnode_correct\<close> shows that the loop ends before the fuel does.

  \<^bold>\<open>Whole trees\<close>. \<open>Btree_Tree\<close> models the descent over all levels and the walk along the leaves;
  \<open>Btree_Find\<close> proves in the locale \<open>ranked_keys\<close> that a search in a well-formed tree
  (\<open>tree_ok\<close>) returns the last leaf record not above the key.

  \<^bold>\<open>Insertion\<close>. \<open>Btree_Insert\<close> models placing a record in a leaf, the pending index records and
  the new root. \<open>Btree_Level\<close> describes one level as a chain of nodes whose records are one
  sorted list, \<open>Btree_Insert_Inv\<close> carries a new index record up the levels, and
  \<open>Btree_Insert_Tree\<close> joins them to the invariant \<open>tree_inv\<close> of a whole tree, in the locale
  \<open>stored_keys\<close>, which all five comparison functions meet. \<open>Btree_Insert_Claims\<close> shows that
  insertion refines insertion into a sorted list. The fuel of \<open>do_index_work\<close> is the height of
  the tree and two, that of \<open>new_root_loop\<close> the free bytes of the new root; the same theorem
  shows that both are enough.

  \<^bold>\<open>Removal\<close>. \<open>Btree_Remove\<close> models deleting a record, taking empty nodes out of their level,
  replacing the index record of a changed first key, merging neighbours under one parent and
  dropping a root with one child. \<open>Btree_Merge\<close> has the steps on one level, \<open>Btree_Update_Key\<close> the
  replaced index record, \<open>Btree_Remove_Tree\<close> merging and the root, \<open>Btree_Remove_Step\<close> the
  nested calls by induction on the levels. \<open>Btree_Remove_Claims\<close> shows that removal refines
  removal from a sorted list and that one call per level is enough fuel. The theorem asks for
  room in the index nodes when the first record of a leaf goes: replacing the index record
  adds the new one before it deletes the old one, and could split the node.

  \<^bold>\<open>Users of the trees\<close>. \<open>Runtime_Extents\<close> models the list of reserved blocks of \<^verbatim>\<open>extents.c\<close>
  and what adding, deleting and truncating do. \<open>File_Extents\<close> models the search for the extent of a file block in fork and
  overflow tree (\<^verbatim>\<open>extents.c\<close>, \<^verbatim>\<open>inode.c\<close>) and the form of forks on the device,
  \<open>File_Extents_Claims\<close> has the properties. \<open>Cattree\<close> models forming and finding catalog
  records (\<^verbatim>\<open>cattree.c\<close>), \<open>Cattree_Claims\<close> has the properties.

  \<^bold>\<open>Snapshots\<close> (\<^verbatim>\<open>snapshot.c\<close>, parts of \<^verbatim>\<open>data.c\<close>). The metadata files live in a metadata area; translation
  tables say where. \<open>Snapshot\<close> models the tables byte by byte, the bitmaps of used blocks, moving a
  part before its first change, the tables a commit writes and how a mount reads them.
  \<open>Snapshot_Expand\<close> and \<open>Snapshot_Area\<close> model the growth of a file and of the areas, \<open>Snapshot_Commit\<close> a whole
  commit and the runs of the layer as a step relation. \<open>Snapshot_Inv\<close> has the invariant between tables and
  bitmaps, \<open>Snapshot_Table\<close> reads back what was written, \<open>Snapshot_Safety\<close>, \<open>Snapshot_Sync\<close> and
  \<open>Snapshot_Mount\<close> show that every step keeps the invariant and that the state after mounting has it.
  \<open>Snapshot_Demo\<close> is a small volume for the witnesses. \<open>Snapshot_Claims\<close> shows that at every moment a mount finds
  the metadata of the last commit, that commits succeed, and what a failed commit does. Writes to the device
  are steps of their own and may be interrupted anywhere; that metadata pages are only written
  after the part was moved is part of the step relation.

  \<^bold>\<open>Parameters.\<close> The page cache and the device (what reading a node returns), the slab
  allocator (outcomes), the kernel's \<^verbatim>\<open>tolower\<close> table and the checksum function.

  \<^bold>\<open>Not modelled.\<close> Locks, which the functions take in pairs around sequential code; tracing,
  printing, the sanity checks and quotas, which are build options;
  the operations of \<^verbatim>\<open>inode.c\<close>, \<^verbatim>\<open>file.c\<close>, \<^verbatim>\<open>xattr.c\<close> and \<^verbatim>\<open>hlinktree.c\<close> that rest on the trees. The
  choice of the newer base table and of the valid superblock at mount, small files (\<^verbatim>\<open>small.c\<close>), packed images
  (\<^verbatim>\<open>packtree.c\<close>, \<^verbatim>\<open>packtree_inode.c\<close>), mounting (\<^verbatim>\<open>super.c\<close>, \<^verbatim>\<open>options.c\<close>), requests to the
  block layer (rest of \<^verbatim>\<open>data.c\<close>) and the entry points of the virtual file system are for the
  larger part calls into the kernel.

  \<^bold>\<open>Plan.\<close> Insertion and truncation of file extents on
  top of the trees; hard links and extended attributes as clients of the trees; the cells of \<^verbatim>\<open>small.c\<close>.
\<close>

end
